(* ===== verification/Prelude.thy ===== *)
theory Prelude
  imports Complex_Main "HOL-Library.List_Lexorder" "HOL-Library.Char_ord"
begin

section \<open>Prelude: errors, Python values, dictionaries and strings\<close>

text \<open>
  What every component of the development shares:
  \<^item> the exceptions the code raises, as one datatype \<open>err\<close>, and results \<open>'a res\<close>
    (\<open>Inl\<close> an exception, \<open>Inr\<close> a value) with the bind \<open>bindR\<close>, the guard \<open>guardR\<close>
    and the loops \<open>mapR\<close> and \<open>eachR\<close>;
  \<^item> \<open>pyval\<close>: the values a parsed YAML front matter or a settings mapping can hold.
    Integers are unbounded.  A finite float is the rational number it denotes together
    with the text Python prints for it (\<open>repr\<close> belongs to the interpreter), and the
    three non-finite floats are separate constructors.  A list stands for a Python list or
    tuple, which every check of the modelled code treats alike;
  \<^item> dictionaries as association lists in insertion order, read by \<open>map_of\<close>;
  \<^item> the string methods the code uses.  A \<open>char\<close> is read as one code point up to
    U+00FF.
\<close>

named_theorems success \<open>what it means that a fallible operation returned\<close>

subsection \<open>Errors and results\<close>

datatype err =
    DefinitionError string
  | ValueErr string
  | TypeErr string
  | KeyErr string
  | RuntimeErr string
  | InvalidPermissionTierError
  | UnknownPermissionNameError
  | PermissionRegistrationCollisionError
  | PermissionTierMismatchError string
  | PermissionFloorViolationError
  | UntrustedInputGrantError string
  | MemoryPolicyError string
  | ToolNotFoundError string
  | InjectionError string
  | FactoryError string
  | PolicyViolation string string
  | OutboxLeaseLostError
  | ScheduleRejected string
  | Raised string string

type_synonym 'a res = "err + 'a"

definition bindR :: "'a res \<Rightarrow> ('a \<Rightarrow> 'b res) \<Rightarrow> 'b res" where
  "bindR m f = (case m of Inl e \<Rightarrow> Inl e | Inr x \<Rightarrow> f x)"

definition guardR :: "bool \<Rightarrow> err \<Rightarrow> unit res" where
  "guardR c e = (if c then Inr () else Inl e)"

fun mapR :: "('a \<Rightarrow> 'b res) \<Rightarrow> 'a list \<Rightarrow> 'b list res" where
  "mapR f [] = Inr []"
| "mapR f (x # xs) = bindR (f x) (\<lambda>y. bindR (mapR f xs) (\<lambda>ys. Inr (y # ys)))"

fun eachR :: "('a \<Rightarrow> unit res) \<Rightarrow> 'a list \<Rightarrow> unit res" where
  "eachR f [] = Inr ()"
| "eachR f (x # xs) = bindR (f x) (\<lambda>_. eachR f xs)"

fun foldR :: "('s \<Rightarrow> 'a \<Rightarrow> 's res) \<Rightarrow> 's \<Rightarrow> 'a list \<Rightarrow> 's res" where
  "foldR f s [] = Inr s"
| "foldR f s (x # xs) = bindR (f s x) (\<lambda>s'. foldR f s' xs)"

lemma bindR_Inr [simp]: "bindR (Inr x) f = f x"
  by (simp add: bindR_def)

lemma bindR_Inl [simp]: "bindR (Inl e) f = Inl e"
  by (simp add: bindR_def)

lemma bindR_eq_Inr [success]: "bindR m f = Inr y \<longleftrightarrow> (\<exists>x. m = Inr x \<and> f x = Inr y)"
  by (cases m) simp_all

lemma bindR_eq_Inl: "bindR m f = Inl e \<longleftrightarrow> m = Inl e \<or> (\<exists>x. m = Inr x \<and> f x = Inl e)"
  by (cases m) auto

lemma guardR_eq_Inr [success]: "guardR c e = Inr u \<longleftrightarrow> c"
  by (simp add: guardR_def)

lemma guardR_eq_Inl: "guardR c e = Inl e' \<longleftrightarrow> \<not> c \<and> e' = e"
  by (auto simp: guardR_def)

lemma guardR_True [simp]: "guardR True e = Inr ()"
  by (simp add: guardR_def)

lemma guardR_False [simp]: "guardR False e = Inl e"
  by (simp add: guardR_def)

lemma eachR_eq_Inr [success]: "eachR f xs = Inr u \<longleftrightarrow> (\<forall>x \<in> set xs. f x = Inr ())"
  by (induction xs) (auto simp: bindR_eq_Inr)

lemma mapR_eq_Inr: "mapR f xs = Inr ys \<longleftrightarrow> list_all2 (\<lambda>x y. f x = Inr y) xs ys"
  by (induction xs arbitrary: ys) (auto simp: bindR_eq_Inr list_all2_Cons1)

lemma mapR_length: "mapR f xs = Inr ys \<Longrightarrow> length ys = length xs"
  by (simp add: mapR_eq_Inr list_all2_lengthD)

lemma mapR_total: "(\<And>x. x \<in> set xs \<Longrightarrow> \<exists>y. f x = Inr y) \<Longrightarrow> \<exists>ys. mapR f xs = Inr ys"
  by (induction xs) (fastforce simp: bindR_eq_Inr)+

lemma mapR_map_fst:
  assumes "mapR f xs = Inr ys" and "\<And>x y. f x = Inr y \<Longrightarrow> g y = h x"
  shows "map g ys = map h xs"
  using assms by (induction xs arbitrary: ys) (auto simp: bindR_eq_Inr)

lemma bindR_assoc: "bindR (bindR m f) g = bindR m (\<lambda>x. bindR (f x) g)"
  by (cases m) simp_all

lemma foldR_append: "foldR f s (xs @ ys) = bindR (foldR f s xs) (\<lambda>t. foldR f t ys)"
  by (induction xs arbitrary: s) (simp_all add: bindR_assoc)

lemma foldR_invariant:
  assumes "foldR f s xs = Inr t" and "P s"
    and "\<And>s x s'. x \<in> set xs \<Longrightarrow> P s \<Longrightarrow> f s x = Inr s' \<Longrightarrow> P s'"
  shows "P t"
  using assms by (induction xs arbitrary: s) (auto simp: bindR_eq_Inr)

subsection \<open>Python values\<close>

datatype pyval =
    PNone
  | PBool bool
  | PInt int
  | PFloat rat string
  | PPosInf
  | PNegInf
  | PNaN
  | PStr string
  | PList "pyval list"
  | PDict "(string \<times> pyval) list"

type_synonym dict = "(string \<times> pyval) list"

text \<open>\<open>isinstance(v, int | float)\<close>, a \<open>bool\<close> being an \<open>int\<close> in Python.\<close>

fun is_bool :: "pyval \<Rightarrow> bool" where
  "is_bool (PBool _) = True"
| "is_bool _ = False"

fun is_number :: "pyval \<Rightarrow> bool" where
  "is_number (PBool _) = True"
| "is_number (PInt _) = True"
| "is_number (PFloat _ _) = True"
| "is_number PPosInf = True"
| "is_number PNegInf = True"
| "is_number PNaN = True"
| "is_number _ = False"

fun is_finite_num :: "pyval \<Rightarrow> bool" where
  "is_finite_num (PBool _) = True"
| "is_finite_num (PInt _) = True"
| "is_finite_num (PFloat _ _) = True"
| "is_finite_num _ = False"

text \<open>
  \<open>math.isfinite\<close> converts an integer to a float first, and raises \<open>OverflowError\<close> when the
  nearest float would not be finite.
\<close>

fun math_isfinite :: "pyval \<Rightarrow> bool res" where
  "math_isfinite (PInt i) =
     (if 2 ^ 1024 - 2 ^ 970 \<le> abs i then Inl (RuntimeErr ''OverflowError'') else Inr True)"
| "math_isfinite v = Inr (is_finite_num v)"

fun num_val :: "pyval \<Rightarrow> rat" where
  "num_val (PBool b) = (if b then 1 else 0)"
| "num_val (PInt i) = of_int i"
| "num_val (PFloat r _) = r"
| "num_val _ = 0"

text \<open>\<open>a <= b\<close> on numbers: exact between ints and floats, false whenever a NaN is involved.\<close>

definition py_le :: "pyval \<Rightarrow> pyval \<Rightarrow> bool" where
  "py_le a b =
     (if a = PNaN \<or> b = PNaN then False
      else if a = PNegInf \<or> b = PPosInf then True
      else if a = PPosInf \<or> b = PNegInf then False
      else num_val a \<le> num_val b)"

text \<open>\<open>min(a, b)\<close> keeps its first argument unless the second is smaller.\<close>

definition py_lt :: "pyval \<Rightarrow> pyval \<Rightarrow> bool" where
  "py_lt a b = (a \<noteq> PNaN \<and> b \<noteq> PNaN \<and> \<not> py_le b a)"

definition py_min :: "pyval \<Rightarrow> pyval \<Rightarrow> pyval" where
  "py_min a b = (if py_lt b a then b else a)"

definition py_max :: "pyval \<Rightarrow> pyval \<Rightarrow> pyval" where
  "py_max a b = (if py_lt a b then b else a)"

fun py_truthy :: "pyval \<Rightarrow> bool" where
  "py_truthy PNone = False"
| "py_truthy (PBool b) = b"
| "py_truthy (PInt i) = (i \<noteq> 0)"
| "py_truthy (PFloat r _) = (r \<noteq> 0)"
| "py_truthy (PStr s) = (s \<noteq> [])"
| "py_truthy (PList xs) = (xs \<noteq> [])"
| "py_truthy (PDict d) = (d \<noteq> [])"
| "py_truthy _ = True"

text \<open>\<open>hash(v)\<close> of a list or a dictionary raises \<open>TypeError\<close>.\<close>

fun hashable :: "pyval \<Rightarrow> bool" where
  "hashable (PList _) = False"
| "hashable (PDict _) = False"
| "hashable _ = True"

lemma py_le_refl: "a \<noteq> PNaN \<Longrightarrow> py_le a a"
  by (auto simp: py_le_def)

lemma py_le_trans: "py_le a b \<Longrightarrow> py_le b c \<Longrightarrow> py_le a c"
  by (auto simp: py_le_def split: if_splits)

lemma py_le_total: "a \<noteq> PNaN \<Longrightarrow> b \<noteq> PNaN \<Longrightarrow> py_le a b \<or> py_le b a"
  by (auto simp: py_le_def)

lemma py_min_le: "a \<noteq> PNaN \<Longrightarrow> b \<noteq> PNaN \<Longrightarrow> py_le (py_min a b) a \<and> py_le (py_min a b) b"
  by (auto simp: py_min_def py_lt_def py_le_refl dest: py_le_total)

subsection \<open>Dictionaries\<close>

definition dkeys :: "('k \<times> 'v) list \<Rightarrow> 'k list" where
  "dkeys d = map fst d"

text \<open>
  \<open>{**a, **b}\<close>: the keys of \<open>a\<close> stay where they are and take \<open>b\<close>'s value where
  \<open>b\<close> has one; the keys only \<open>b\<close> has follow in \<open>b\<close>'s order.
\<close>

definition dmerge :: "('k \<times> 'v) list \<Rightarrow> ('k \<times> 'v) list \<Rightarrow> ('k \<times> 'v) list" where
  "dmerge a b =
     map (\<lambda>(k, v). (k, case map_of b k of Some w \<Rightarrow> w | None \<Rightarrow> v)) a
     @ filter (\<lambda>(k, v). k \<notin> set (dkeys a)) b"

definition dset :: "('k \<times> 'v) list \<Rightarrow> 'k \<Rightarrow> 'v \<Rightarrow> ('k \<times> 'v) list" where
  "dset d k v = dmerge d [(k, v)]"

definition ddel :: "('k \<times> 'v) list \<Rightarrow> 'k \<Rightarrow> ('k \<times> 'v) list" where
  "ddel d k = filter (\<lambda>(k', v). k' \<noteq> k) d"

definition dget :: "dict \<Rightarrow> string \<Rightarrow> pyval" where
  "dget d k = (case map_of d k of Some v \<Rightarrow> v | None \<Rightarrow> PNone)"

lemma map_of_map_override:
  "map_of (map (\<lambda>(k, v). (k, case map_of b k of Some w \<Rightarrow> w | None \<Rightarrow> v)) a) k =
     (case map_of a k of None \<Rightarrow> None
      | Some v \<Rightarrow> Some (case map_of b k of Some w \<Rightarrow> w | None \<Rightarrow> v))"
  by (induction a) (auto split: option.splits)

lemma map_of_filter_keys: "map_of (filter (\<lambda>(k, v). P k) b) k = (if P k then map_of b k else None)"
  by (induction b) auto

lemma map_of_dmerge [simp]: "map_of (dmerge a b) = map_of a ++ map_of b"
proof (rule ext)
  fix k
  have keys: "k \<in> set (dkeys a) \<longleftrightarrow> map_of a k \<noteq> None"
    by (simp add: dkeys_def map_of_eq_None_iff)
  show "map_of (dmerge a b) k = (map_of a ++ map_of b) k"
    using keys
    by (auto simp: dmerge_def map_add_def map_of_map_override map_of_filter_keys
        split: option.splits)
qed

lemma map_of_dset [simp]: "map_of (dset d k v) = (map_of d)(k \<mapsto> v)"
  by (rule ext) (simp add: dset_def map_add_def)

lemma map_of_ddel [simp]: "map_of (ddel d k) = (map_of d)(k := None)"
proof (rule ext)
  fix k'
  show "map_of (ddel d k) k' = ((map_of d)(k := None)) k'"
    unfolding ddel_def by (induction d) auto
qed

lemma map_of_None_dkeys: "map_of d k = None \<longleftrightarrow> k \<notin> set (dkeys d)"
  by (simp add: dkeys_def map_of_eq_None_iff)

lemma map_of_Some_dkeys: "map_of d k = Some v \<Longrightarrow> k \<in> set (dkeys d)"
  by (metis map_of_None_dkeys option.distinct(1))

lemma dkeys_Some: "k \<in> set (dkeys d) \<Longrightarrow> \<exists>v. map_of d k = Some v"
  by (metis map_of_None_dkeys not_Some_eq)

lemma dkeys_dmerge: "set (dkeys (dmerge a b)) = set (dkeys a) \<union> set (dkeys b)"
  by (force simp: dmerge_def dkeys_def)

lemma dkeys_dset: "set (dkeys (dset d k v)) = insert k (set (dkeys d))"
  by (auto simp: dset_def dkeys_dmerge) (auto simp: dkeys_def)

lemma dkeys_dmerge_distinct:
  assumes "distinct (dkeys a)" and "distinct (dkeys b)"
  shows "distinct (dkeys (dmerge a b))"
proof -
  have 1: "map fst (map (\<lambda>(k, v). (k, case map_of b k of Some w \<Rightarrow> w | None \<Rightarrow> v)) a) = map fst a"
    by (induction a) auto
  have 2: "map fst (filter (\<lambda>(k, v). k \<notin> set (dkeys a)) b) = filter (\<lambda>k. k \<notin> set (dkeys a)) (map fst b)"
    by (induction b) auto
  have "dkeys (dmerge a b) = dkeys a @ filter (\<lambda>k. k \<notin> set (dkeys a)) (dkeys b)"
    unfolding dmerge_def using 1 2 by (simp only: dkeys_def map_append)
  then show ?thesis using assms by auto
qed

lemma dkeys_dset_distinct: "distinct (dkeys d) \<Longrightarrow> distinct (dkeys (dset d k v))"
  unfolding dset_def by (rule dkeys_dmerge_distinct) (simp_all add: dkeys_def)

lemma dget_dmerge: "dget (dmerge a b) k = (if k \<in> dom (map_of b) then dget b k else dget a k)"
  by (auto simp: dget_def map_add_def split: option.splits)

lemma dmerge_Nil [simp]: "dmerge [] b = b"
  by (simp add: dmerge_def dkeys_def case_prod_unfold)

subsection \<open>Strings\<close>

definition is_space :: "char \<Rightarrow> bool" where
  "is_space c = (let n = of_char c :: nat in
     (9 \<le> n \<and> n \<le> 13) \<or> (28 \<le> n \<and> n \<le> 32) \<or> n = 133 \<or> n = 160)"

definition lstrip :: "string \<Rightarrow> string" where
  "lstrip s = dropWhile is_space s"

definition rstrip :: "string \<Rightarrow> string" where
  "rstrip s = rev (dropWhile is_space (rev s))"

definition strip :: "string \<Rightarrow> string" where
  "strip s = rstrip (lstrip s)"

definition starts_with :: "string \<Rightarrow> string \<Rightarrow> bool" where
  "starts_with s p = (take (length p) s = p)"

definition ends_with :: "string \<Rightarrow> string \<Rightarrow> bool" where
  "ends_with s p = (length p \<le> length s \<and> drop (length s - length p) s = p)"

fun join :: "string \<Rightarrow> string list \<Rightarrow> string" where
  "join sep [] = []"
| "join sep [x] = x"
| "join sep (x # y # ys) = x @ sep @ join sep (y # ys)"

text \<open>\<open>s.split()\<close> with no argument: the maximal runs of non-space characters.\<close>

fun words_acc :: "string \<Rightarrow> string \<Rightarrow> string list" where
  "words_acc w [] = (if w = [] then [] else [rev w])"
| "words_acc w (c # cs) =
     (if is_space c then (if w = [] then words_acc [] cs else rev w # words_acc [] cs)
      else words_acc (c # w) cs)"

definition split_ws :: "string \<Rightarrow> string list" where
  "split_ws s = words_acc [] s"

text \<open>\<open>" ".join(s.split())\<close>: the string with its whitespace collapsed.\<close>

definition collapse_ws :: "string \<Rightarrow> string" where
  "collapse_ws s = join '' '' (split_ws s)"

lemma starts_with_append [simp]: "starts_with (p @ s) p"
  by (simp add: starts_with_def)

lemma ends_with_append [simp]: "ends_with (s @ p) p"
  by (simp add: ends_with_def)

lemma starts_with_iff: "starts_with s p \<longleftrightarrow> (\<exists>t. s = p @ t)"
  by (metis append_eq_conv_conj starts_with_append starts_with_def)

lemma strip_eq_Nil: "strip s = [] \<longleftrightarrow> (\<forall>c \<in> set s. is_space c)"
proof -
  have "strip s = [] \<longleftrightarrow> (\<forall>c \<in> set (dropWhile is_space s). is_space c)"
    by (simp add: strip_def rstrip_def lstrip_def)
  also have "\<dots> \<longleftrightarrow> (\<forall>c \<in> set s. is_space c)"
    by (induction s) auto
  finally show ?thesis .
qed

definition upper_char :: "char \<Rightarrow> char" where
  "upper_char c = (let n = of_char c :: nat in if 97 \<le> n \<and> n \<le> 122 then char_of (n - 32) else c)"

definition lower_char :: "char \<Rightarrow> char" where
  "lower_char c = (let n = of_char c :: nat in if 65 \<le> n \<and> n \<le> 90 then char_of (n + 32) else c)"

text \<open>\<open>s.split(c)\<close> for a one-character separator.\<close>

fun split_on :: "char \<Rightarrow> string \<Rightarrow> string list" where
  "split_on c [] = [[]]"
| "split_on c (x # xs) =
     (if x = c then [] # split_on c xs
      else case split_on c xs of [] \<Rightarrow> [[x]] | w # ws \<Rightarrow> (x # w) # ws)"

lemma split_on_ne [simp]: "split_on c s \<noteq> []"
  by (induction s) (auto split: list.splits)

lemma join_Cons: "ys \<noteq> [] \<Longrightarrow> join sep (x # ys) = x @ sep @ join sep ys"
  by (cases ys) simp_all

lemma join_append: "xs \<noteq> [] \<Longrightarrow> ys \<noteq> [] \<Longrightarrow> join sep (xs @ ys) = join sep xs @ sep @ join sep ys"
proof (induction xs)
  case (Cons x xs)
  then show ?case by (cases xs) (simp_all add: join_Cons)
qed simp

lemma join_split_on [simp]: "join [c] (split_on c s) = s"
proof (induction s)
  case (Cons x xs)
  show ?case
  proof (cases "split_on c xs")
    case (Cons w ws)
    then show ?thesis using Cons.IH by (cases ws) (auto simp: join_Cons)
  qed simp
qed simp

lemma split_on_app: "c \<notin> set w \<Longrightarrow> split_on c (w @ c # s) = w # split_on c s"
  by (induction w) auto

lemma split_on_single: "c \<notin> set w \<Longrightarrow> split_on c w = [w]"
  by (induction w) auto

lemma split_on_join:
  "ls \<noteq> [] \<Longrightarrow> \<forall>l \<in> set ls. c \<notin> set l \<Longrightarrow> split_on c (join [c] ls) = ls"
proof (induction ls)
  case (Cons l ls)
  then show ?case by (cases "ls = []") (auto simp: join_Cons split_on_app split_on_single)
qed simp

lemma split_on_pieces: "w \<in> set (split_on c s) \<Longrightarrow> c \<notin> set w"
  by (induction s arbitrary: w) (auto split: list.splits if_splits)

subsection \<open>Decimal and \<open>repr\<close> text\<close>

definition digit_char :: "nat \<Rightarrow> char" where
  "digit_char n = char_of (48 + n)"

fun nat_str :: "nat \<Rightarrow> string" where
  "nat_str n = (if n < 10 then [digit_char n] else nat_str (n div 10) @ [digit_char (n mod 10)])"

declare nat_str.simps [simp del]

definition int_str :: "int \<Rightarrow> string" where
  "int_str i = (if i < 0 then CHR ''-'' # nat_str (nat (- i)) else nat_str (nat i))"

definition hex_char :: "nat \<Rightarrow> char" where
  "hex_char n = (if n < 10 then char_of (48 + n) else char_of (87 + n))"

definition repr_char :: "char \<Rightarrow> char \<Rightarrow> string" where
  "repr_char q c =
     (let n = of_char c :: nat in
      if c = q \<or> n = 92 then [CHR 0x5C, c]
      else if n = 10 then [CHR 0x5C, CHR ''n'']
      else if n = 13 then [CHR 0x5C, CHR ''r'']
      else if n = 9 then [CHR 0x5C, CHR ''t'']
      else if n < 32 \<or> (127 \<le> n \<and> n \<le> 160) \<or> n = 173
      then [CHR 0x5C, CHR ''x'', hex_char (n div 16), hex_char (n mod 16)]
      else [c])"

definition str_repr :: "string \<Rightarrow> string" where
  "str_repr s =
     (let q = (if CHR 0x27 \<in> set s \<and> CHR 0x22 \<notin> set s then CHR 0x22 else CHR 0x27)
      in [q] @ concat (map (repr_char q) s) @ [q])"

fun py_repr :: "pyval \<Rightarrow> string"
  and py_repr_list :: "pyval list \<Rightarrow> string list"
  and py_repr_items :: "(string \<times> pyval) list \<Rightarrow> string list" where
  "py_repr PNone = ''None''"
| "py_repr (PBool b) = (if b then ''True'' else ''False'')"
| "py_repr (PInt i) = int_str i"
| "py_repr (PFloat r t) = t"
| "py_repr PPosInf = ''inf''"
| "py_repr PNegInf = ''-inf''"
| "py_repr PNaN = ''nan''"
| "py_repr (PStr s) = str_repr s"
| "py_repr (PList xs) = ''['' @ join '', '' (py_repr_list xs) @ '']''"
| "py_repr (PDict d) = ''{'' @ join '', '' (py_repr_items d) @ ''}''"
| "py_repr_list [] = []"
| "py_repr_list (x # xs) = py_repr x # py_repr_list xs"
| "py_repr_items [] = []"
| "py_repr_items ((k, v) # d) = (str_repr k @ '': '' @ py_repr v) # py_repr_items d"

fun py_str :: "pyval \<Rightarrow> string" where
  "py_str (PStr s) = s"
| "py_str v = py_repr v"

subsection \<open>Lists\<close>

text \<open>\<open>merged = list(parent); merged.extend(item for item in child if item not in merged)\<close>\<close>

fun add_missing :: "'a list \<Rightarrow> 'a list \<Rightarrow> 'a list" where
  "add_missing acc [] = acc"
| "add_missing acc (x # xs) = add_missing (if x \<in> set acc then acc else acc @ [x]) xs"

lemma set_add_missing [simp]: "set (add_missing acc xs) = set acc \<union> set xs"
  by (induction xs arbitrary: acc) auto

lemma distinct_add_missing: "distinct acc \<Longrightarrow> distinct (add_missing acc xs)"
  by (induction xs arbitrary: acc) auto

lemma add_missing_prefix: "\<exists>ys. add_missing acc xs = acc @ ys"
proof (induction xs arbitrary: acc)
  case (Cons x xs)
  let ?acc = "if x \<in> set acc then acc else acc @ [x]"
  obtain ys where "add_missing ?acc xs = ?acc @ ys"
    using Cons.IH [of ?acc] by blast
  then show ?case by (cases "x \<in> set acc") auto
qed simp

end
