(* ===== verification/Permissions.thy ===== *)
theory Permissions
  imports Prelude
begin

section \<open>The permission model\<close>

text \<open>
  \<open>agents_system/permissions\<close>: capability tiers, the permission class hierarchy, the registry
  that binds wire names to classes, the shipped action families, the R2a/R2b check of a tool
  and the R3 coverage rule.

  A Python class object has an identity, so a class is a datatype value that carries an object
  number; the registry holds the next unused number and \<open>define_class\<close> hands it out.  A class
  knows its first base class and its effective \<open>tier\<close> attribute.  The registry's two
  dictionaries are association lists, and its lock makes every operation atomic, which a
  function on the registry state is by itself.
\<close>

subsection \<open>Tiers\<close>

datatype tier = T0 | T1 | T2 | T3

fun tier_rank :: "tier \<Rightarrow> nat" where
  "tier_rank T0 = 0"
| "tier_rank T1 = 1"
| "tier_rank T2 = 2"
| "tier_rank T3 = 3"

lemma tier_rank_inj [simp]: "tier_rank a = tier_rank b \<longleftrightarrow> a = b"
  by (cases a; cases b) auto

instantiation tier :: linorder
begin

definition less_eq_tier :: "tier \<Rightarrow> tier \<Rightarrow> bool" where
  "less_eq_tier a b \<longleftrightarrow> tier_rank a \<le> tier_rank b"

definition less_tier :: "tier \<Rightarrow> tier \<Rightarrow> bool" where
  "less_tier a b \<longleftrightarrow> tier_rank a < tier_rank b"

instance
  by standard (auto simp: less_eq_tier_def less_tier_def)

end

lemma tier_le_rank: "tier_rank a \<le> tier_rank b \<longleftrightarrow> a \<le> b"
  by (simp add: less_eq_tier_def)

lemma tier_less_rank: "tier_rank a < tier_rank b \<longleftrightarrow> a < b"
  by (simp add: less_tier_def)

lemma tier_T3_top [simp]: "t \<le> T3"
  by (cases t) (simp_all add: less_eq_tier_def)

lemma tier_T0_bot [simp]: "T0 \<le> t"
  by (cases t) (simp_all add: less_eq_tier_def)

subsection \<open>Permission classes and R1\<close>

datatype pclass =
    PermissionRoot
  | PClass (cls_oid: nat) (cls_name: string) (cls_parent: pclass) (cls_tier: tier)

text \<open>The class body's own \<open>tier\<close>: absent, a \<open>Tier\<close> member, or anything else.\<close>

datatype tier_decl = NotDeclared | Declared tier | NotATier

fun class_tier :: "pclass \<Rightarrow> tier option" where
  "class_tier PermissionRoot = None"
| "class_tier (PClass _ _ _ t) = Some t"

fun init_subclass :: "nat \<Rightarrow> string \<Rightarrow> pclass \<Rightarrow> tier_decl \<Rightarrow> pclass res" where
  "init_subclass oid name parent NotDeclared =
     (case class_tier parent of
        None \<Rightarrow> Inl InvalidPermissionTierError
      | Some pt \<Rightarrow> Inr (PClass oid name parent pt))"
| "init_subclass oid name parent NotATier = Inl InvalidPermissionTierError"
| "init_subclass oid name parent (Declared own) =
     (case class_tier parent of
        None \<Rightarrow> Inr (PClass oid name parent own)
      | Some pt \<Rightarrow>
          if tier_rank own < tier_rank pt then Inl InvalidPermissionTierError
          else Inr (PClass oid name parent own))"

fun is_subclass :: "pclass \<Rightarrow> pclass \<Rightarrow> bool" where
  "is_subclass PermissionRoot g = (g = PermissionRoot)"
| "is_subclass (PClass oid n p t) g = (g = PClass oid n p t \<or> is_subclass p g)"

text \<open>
  R3.  The abstract root has no \<open>tier\<close>, and reading it would raise \<open>AttributeError\<close>; no
  registry entry and no accepted grant is the root (\<open>register\<close>, \<open>reverse\<close>), so the last case
  is never reached by the callers.
\<close>

definition covers :: "pclass \<Rightarrow> pclass \<Rightarrow> bool" where
  "covers granted required \<longleftrightarrow>
     is_subclass required granted
     \<and> (case (class_tier required, class_tier granted) of
          (Some r, Some g) \<Rightarrow> tier_rank r \<le> tier_rank g
        | _ \<Rightarrow> False)"

text \<open>R1 as a predicate on a finished class: no class ranks below its base.\<close>

fun wf_class :: "pclass \<Rightarrow> bool" where
  "wf_class PermissionRoot = True"
| "wf_class (PClass _ _ p t) =
     (wf_class p \<and> (case class_tier p of None \<Rightarrow> True | Some pt \<Rightarrow> pt \<le> t))"

lemma init_subclass_wf:
  "init_subclass oid n p d = Inr c \<Longrightarrow> wf_class p \<Longrightarrow> wf_class c"
  by (cases d) (auto split: option.splits if_splits simp: tier_less_rank not_less)

lemma init_subclass_shape:
  "init_subclass oid n p d = Inr c \<Longrightarrow> \<exists>t. c = PClass oid n p t"
  by (cases d) (auto split: option.splits if_splits)

lemma is_subclass_refl [simp]: "is_subclass c c"
  by (cases c) simp_all

lemma is_subclass_root: "is_subclass c PermissionRoot"
  by (induction c) simp_all

lemma is_subclass_trans: "is_subclass a b \<Longrightarrow> is_subclass b c \<Longrightarrow> is_subclass a c"
  by (induction a) auto

lemma is_subclass_tier:
  assumes "is_subclass c a" and "wf_class c" and "class_tier a = Some ta"
  shows "\<exists>tc. class_tier c = Some tc \<and> ta \<le> tc"
  using assms
proof (induction c)
  case (PClass oid n p t)
  then show ?case by (cases "a = PClass oid n p t") force+
qed simp

lemma is_subclass_wf: "is_subclass c a \<Longrightarrow> wf_class c \<Longrightarrow> wf_class a"
  by (induction c) auto

lemma is_subclass_size: "is_subclass a b \<Longrightarrow> a \<noteq> b \<Longrightarrow> size b < size a"
proof (induction a)
  case (PClass oid n p t)
  then show ?case by (cases "p = b") auto
qed simp

lemma is_subclass_antisym: "is_subclass a b \<Longrightarrow> is_subclass b a \<Longrightarrow> a = b"
  by (metis is_subclass_size less_asym)

text \<open>On well-formed classes a grant covers exactly its subclasses of the same tier.\<close>

lemma covers_iff:
  assumes "wf_class r"
  shows "covers g r \<longleftrightarrow> is_subclass r g \<and> class_tier g \<noteq> None \<and> class_tier r = class_tier g"
proof
  assume c: "covers g r"
  then obtain tr tg where t: "class_tier r = Some tr" "class_tier g = Some tg" "tr \<le> tg"
    by (auto simp: covers_def tier_le_rank split: option.splits)
  moreover have "tg \<le> tr"
    using is_subclass_tier [OF _ assms t(2)] c t(1) by (auto simp: covers_def)
  ultimately show "is_subclass r g \<and> class_tier g \<noteq> None \<and> class_tier r = class_tier g"
    using c by (simp add: covers_def)
qed (auto simp: covers_def)

subsection \<open>Grant coverage as an interface\<close>

text \<open>
  What the injector, the interceptor and the factory rely on when they compare grants with
  required permissions: coverage is a preorder on the classes a deployment may name, and it
  never relates two tiers.
\<close>

locale grant_order =
  fixes valid :: "'c \<Rightarrow> bool"
    and cov :: "'c \<Rightarrow> 'c \<Rightarrow> bool"
    and rank :: "'c \<Rightarrow> nat"
  assumes cov_refl: "valid c \<Longrightarrow> cov c c"
    and cov_trans: "valid c \<Longrightarrow> cov a b \<Longrightarrow> cov b c \<Longrightarrow> cov a c"
    and cov_valid: "valid r \<Longrightarrow> cov g r \<Longrightarrow> valid g"
    and cov_rank: "valid r \<Longrightarrow> cov g r \<Longrightarrow> rank g = rank r"
begin

lemma any_cov_mono:
  "set G \<subseteq> set H \<Longrightarrow> (\<exists>g \<in> set G. cov g r) \<Longrightarrow> (\<exists>g \<in> set H. cov g r)"
  by blast

lemma any_cov_trans:
  assumes "valid r" and "\<exists>m \<in> set M. cov m r" and "\<forall>m \<in> set M. \<exists>g \<in> set G. cov g m"
  shows "\<exists>g \<in> set G. cov g r"
  using assms cov_trans by blast

lemma uncovered_rank:
  assumes "valid r" and "\<forall>g \<in> set G. rank g \<noteq> rank r"
  shows "\<not> (\<exists>g \<in> set G. cov g r)"
  using assms cov_rank by blast

end

definition grantable :: "pclass \<Rightarrow> bool" where
  "grantable c \<longleftrightarrow> wf_class c \<and> class_tier c \<noteq> None"

definition class_rank :: "pclass \<Rightarrow> nat" where
  "class_rank c = (case class_tier c of None \<Rightarrow> 0 | Some t \<Rightarrow> tier_rank t)"

interpretation perms: grant_order grantable covers class_rank
proof unfold_locales
  fix c :: pclass
  assume "grantable c"
  then show "covers c c" by (auto simp: grantable_def covers_iff)
next
  fix a b c :: pclass
  assume "grantable c" "covers a b" "covers b c"
  moreover from this have "wf_class b"
    using is_subclass_wf by (auto simp: grantable_def covers_def)
  ultimately show "covers a c"
    by (auto simp: grantable_def covers_iff intro: is_subclass_trans)
next
  fix g r :: pclass
  assume "grantable r" "covers g r"
  then show "grantable g" "class_rank g = class_rank r"
    using is_subclass_wf by (auto simp: grantable_def covers_iff class_rank_def)
qed

lemma class_rank_T3: "class_tier c = Some T3 \<longleftrightarrow> class_rank c = 3"
  by (cases c) (auto simp: class_rank_def split: option.splits, metis tier_rank.simps(4) tier_rank_inj)

end
