(* ===== verification/Permission_Registry.thy ===== *)
theory Permission_Registry
  imports Permissions
begin

section \<open>The permission registry, the shipped families and the tool check\<close>

text \<open>
  \<open>permissions/permission_registry.py\<close> and \<open>permissions/builtins.py\<close>.  The registry is a
  record of its two dictionaries and the next unused class identity; \<open>shipped_registry\<close> is the
  state the import of the package leaves, and \<open>reg_reachable\<close> the states any sequence of
  registrations leads to from there.
\<close>

record registry =
  by_name :: "(string \<times> pclass) list"
  by_class :: "(pclass \<times> string) list"
  next_oid :: nat

definition empty_registry :: registry where
  "empty_registry = \<lparr>by_name = [], by_class = [], next_oid = 0\<rparr>"

definition register_locked :: "registry \<Rightarrow> pclass \<Rightarrow> string \<Rightarrow> registry res" where
  "register_locked reg cls name =
     (let existing_cls = map_of (by_name reg) name;
          existing_name = map_of (by_class reg) cls
      in if existing_cls = Some cls \<and> existing_name = Some name then Inr reg
         else if existing_cls \<noteq> None then Inl PermissionRegistrationCollisionError
         else if existing_name \<noteq> None then Inl PermissionRegistrationCollisionError
         else Inr (reg\<lparr>by_name := dset (by_name reg) name cls,
                       by_class := dset (by_class reg) cls name\<rparr>))"

definition register :: "registry \<Rightarrow> pclass \<Rightarrow> string \<Rightarrow> registry res" where
  "register reg cls name =
     (if cls = PermissionRoot then Inl InvalidPermissionTierError
      else register_locked reg cls name)"

text \<open>
  \<open>class_statement\<close> is the evaluation of a class statement (or of \<open>type(...)\<close>): it takes the
  next identity and runs \<open>__init_subclass__\<close>.
\<close>

definition class_statement ::
  "registry \<Rightarrow> string \<Rightarrow> pclass \<Rightarrow> tier_decl \<Rightarrow> (pclass \<times> registry) res" where
  "class_statement reg cname parent decl =
     bindR (init_subclass (next_oid reg) cname parent decl)
       (\<lambda>c. Inr (c, reg\<lparr>next_oid := Suc (next_oid reg)\<rparr>))"

text \<open>
  The factory is called at most once, and only for a name that is not registered yet; it runs
  under the registry's lock and returns the class with the state it left.
\<close>

definition get_or_register ::
  "registry \<Rightarrow> string \<Rightarrow> (registry \<Rightarrow> (pclass \<times> registry) res) \<Rightarrow> (pclass \<times> registry) res" where
  "get_or_register reg name factory =
     (case map_of (by_name reg) name of
        Some existing \<Rightarrow> Inr (existing, reg)
      | None \<Rightarrow>
          bindR (factory reg) (\<lambda>(cls, reg').
          bindR (register_locked reg' cls name) (\<lambda>reg''. Inr (cls, reg''))))"

definition resolve_perm :: "registry \<Rightarrow> string \<Rightarrow> pclass res" where
  "resolve_perm reg name =
     (case map_of (by_name reg) name of
        Some c \<Rightarrow> Inr c
      | None \<Rightarrow> Inl UnknownPermissionNameError)"

definition reverse_perm :: "registry \<Rightarrow> pclass \<Rightarrow> string res" where
  "reverse_perm reg cls =
     (case map_of (by_class reg) cls of
        Some n \<Rightarrow> Inr n
      | None \<Rightarrow> Inl UnknownPermissionNameError)"

subsection \<open>Resource classes\<close>

fun capitalize :: "string \<Rightarrow> string" where
  "capitalize [] = []"
| "capitalize (c # cs) = upper_char c # map lower_char cs"

fun split_name :: "string \<Rightarrow> string \<Rightarrow> string list" where
  "split_name w [] = [rev w]"
| "split_name w (c # cs) =
     (if c \<in> set '':_-'' then rev w # split_name [] cs else split_name (c # w) cs)"

definition class_name :: "string \<Rightarrow> string" where
  "class_name wire =
     concat (map capitalize (filter (\<lambda>p. p \<noteq> []) (split_name [] wire))) @ ''Permission''"

definition build_resource_class ::
  "pclass \<Rightarrow> string \<Rightarrow> tier option \<Rightarrow> registry \<Rightarrow> (pclass \<times> registry) res" where
  "build_resource_class parent wire t reg =
     class_statement reg (class_name wire) parent
       (case t of None \<Rightarrow> NotDeclared | Some x \<Rightarrow> Declared x)"

definition resource ::
  "pclass \<Rightarrow> string \<Rightarrow> tier option \<Rightarrow> registry \<Rightarrow> (pclass \<times> registry) res" where
  "resource parent wire t reg =
     bindR (build_resource_class parent wire t reg) (\<lambda>(cls, reg').
     bindR (register reg' cls wire) (\<lambda>reg''. Inr (cls, reg'')))"

definition ensure_resource_registered ::
  "pclass \<Rightarrow> string \<Rightarrow> tier option \<Rightarrow> registry \<Rightarrow> (pclass \<times> registry) res" where
  "ensure_resource_registered parent wire t reg =
     get_or_register reg wire (build_resource_class parent wire t)"

subsection \<open>The shipped families and wire names\<close>

definition ReadPerm :: pclass where "ReadPerm = PClass 0 ''Read'' PermissionRoot T0"
definition WritePerm :: pclass where "WritePerm = PClass 1 ''Write'' PermissionRoot T2"
definition SendPerm :: pclass where "SendPerm = PClass 2 ''Send'' PermissionRoot T2"
definition ExecPerm :: pclass where "ExecPerm = PClass 3 ''Exec'' PermissionRoot T3"
definition RunPerm :: pclass where "RunPerm = PClass 4 ''Run'' PermissionRoot T2"
definition SpawnPerm :: pclass where "SpawnPerm = PClass 5 ''Spawn'' PermissionRoot T2"
definition QueryPerm :: pclass where "QueryPerm = PClass 6 ''Query'' PermissionRoot T2"
definition ReadFilesPerm :: pclass where "ReadFilesPerm = PClass 7 ''ReadFiles'' ReadPerm T3"

lemmas family_defs = ReadPerm_def WritePerm_def SendPerm_def ExecPerm_def RunPerm_def
  SpawnPerm_def QueryPerm_def ReadFilesPerm_def

definition families_registry :: registry where
  "families_registry = empty_registry\<lparr>next_oid := 8\<rparr>"

definition resource_registrations :: "(pclass \<times> string) list" where
  "resource_registrations =
    [(ReadPerm, ''read:catalog''),
     (ReadPerm, ''read:client_registry''),
     (ReadPerm, ''read:reports''),
     (ReadPerm, ''read:knowledge_base''),
     (ReadPerm, ''read:conversation_logs''),
     (ReadPerm, ''read:session''),
     (ReadPerm, ''read:price_lists''),
     (ReadPerm, ''read:user_memory''),
     (SendPerm, ''send:message''),
     (SendPerm, ''send:escalation''),
     (SendPerm, ''send:proactive''),
     (WritePerm, ''write:orders''),
     (WritePerm, ''write:order_items''),
     (WritePerm, ''write:session''),
     (WritePerm, ''write:summary_output''),
     (WritePerm, ''write:user_memory''),
     (WritePerm, ''write:schedule''),
     (ExecPerm, ''exec:command''),
     (SpawnPerm, ''spawn:sales-agent''),
     (SpawnPerm, ''spawn:data-agent''),
     (SpawnPerm, ''spawn:summary-agent''),
     (QueryPerm, ''query:sql'')]"

definition shipped_result :: "registry res" where
  "shipped_result =
     bindR (foldR (\<lambda>reg (parent, wire). bindR (resource parent wire None reg) (\<lambda>(_, reg'). Inr reg'))
              families_registry resource_registrations)
       (\<lambda>reg. register reg ReadFilesPerm ''read:files'')"

definition shipped_registry :: registry where
  "shipped_registry = (case shipped_result of Inr reg \<Rightarrow> reg | Inl _ \<Rightarrow> empty_registry)"

subsection \<open>R2a and R2b: the tool check\<close>

definition evaluate_tool_spec :: "registry \<Rightarrow> string \<Rightarrow> tier \<Rightarrow> string list \<Rightarrow> unit res" where
  "evaluate_tool_spec reg tool t required =
     bindR (mapR (\<lambda>n. bindR (resolve_perm reg n) (\<lambda>c. Inr (n, c))) required) (\<lambda>resolved.
     bindR (eachR (\<lambda>(n, c). guardR (class_rank c \<le> tier_rank t) (PermissionTierMismatchError n)) resolved)
       (\<lambda>_. guardR (\<not> (t \<in> {T2, T3} \<and> \<not> (\<exists>(n, c) \<in> set resolved. tier_rank t \<le> class_rank c)))
              PermissionFloorViolationError))"

subsection \<open>The registry invariant\<close>

text \<open>
  The two dictionaries are inverse to each other, every registered class is well formed and
  not the root, and every identity handed out so far is below \<open>next_oid\<close>.
\<close>

fun oids_below :: "nat \<Rightarrow> pclass \<Rightarrow> bool" where
  "oids_below n PermissionRoot = True"
| "oids_below n (PClass oid _ p _) = (oid < n \<and> oids_below n p)"

definition reg_inv :: "registry \<Rightarrow> bool" where
  "reg_inv reg \<longleftrightarrow>
     (\<forall>n c. map_of (by_name reg) n = Some c \<longleftrightarrow> map_of (by_class reg) c = Some n)
     \<and> (\<forall>c n. map_of (by_class reg) c = Some n \<longrightarrow>
            grantable c \<and> oids_below (next_oid reg) c)"

inductive reg_reachable :: "registry \<Rightarrow> bool" where
  shipped: "reg_reachable shipped_registry"
| define_class: "reg_reachable reg \<Longrightarrow> wf_class parent \<Longrightarrow> oids_below (next_oid reg) parent \<Longrightarrow>
     class_statement reg cname parent decl = Inr (c, reg') \<Longrightarrow> reg_reachable reg'"
| register_class: "reg_reachable reg \<Longrightarrow> wf_class c \<Longrightarrow> oids_below (next_oid reg) c \<Longrightarrow>
     register reg c name = Inr reg' \<Longrightarrow> reg_reachable reg'"
| get_or_create: "reg_reachable reg \<Longrightarrow> wf_class parent \<Longrightarrow> oids_below (next_oid reg) parent \<Longrightarrow>
     ensure_resource_registered parent name t reg = Inr (c, reg') \<Longrightarrow> reg_reachable reg'"

lemma oids_below_mono: "oids_below n c \<Longrightarrow> n \<le> m \<Longrightarrow> oids_below m c"
  by (induction c) auto

lemma reg_inv_empty: "reg_inv (empty_registry\<lparr>next_oid := n\<rparr>)"
  by (simp add: reg_inv_def empty_registry_def)

lemma register_locked_inv:
  assumes "reg_inv reg" and "grantable c" and "oids_below (next_oid reg) c"
    and "register_locked reg c name = Inr reg'"
  shows "reg_inv reg' \<and> next_oid reg' = next_oid reg"
  using assms
  by (auto simp: register_locked_def Let_def reg_inv_def split: if_splits)

lemma register_inv:
  assumes "reg_inv reg" and "wf_class c" and "oids_below (next_oid reg) c"
    and "register reg c name = Inr reg'"
  shows "reg_inv reg' \<and> next_oid reg' = next_oid reg"
proof -
  have "c \<noteq> PermissionRoot" and r: "register_locked reg c name = Inr reg'"
    using assms(4) by (auto simp: register_def split: if_splits)
  then have "grantable c" using assms(2) by (cases c) (auto simp: grantable_def)
  then show ?thesis using register_locked_inv assms(1,3) r by blast
qed

lemma class_statement_result:
  assumes "class_statement reg cname parent decl = Inr (c, reg')"
    and "wf_class parent" and "oids_below (next_oid reg) parent"
  shows "wf_class c \<and> grantable c \<and> oids_below (next_oid reg') c
         \<and> reg' = reg\<lparr>next_oid := Suc (next_oid reg)\<rparr> \<and> \<not> oids_below (next_oid reg) c"
proof -
  have i: "init_subclass (next_oid reg) cname parent decl = Inr c"
    and r: "reg' = reg\<lparr>next_oid := Suc (next_oid reg)\<rparr>"
    using assms(1) by (auto simp: class_statement_def success)
  obtain t where c: "c = PClass (next_oid reg) cname parent t"
    using init_subclass_shape [OF i] by blast
  have "oids_below (Suc (next_oid reg)) parent"
    by (rule oids_below_mono [OF assms(3)]) simp
  then show ?thesis
    using init_subclass_wf [OF i assms(2)] c r by (simp add: grantable_def)
qed

lemma reg_inv_bump: "reg_inv reg \<Longrightarrow> reg_inv (reg\<lparr>next_oid := Suc (next_oid reg)\<rparr>)"
  unfolding reg_inv_def using oids_below_mono [OF _ le_SucI [OF order_refl]] by simp

lemma class_statement_inv:
  "class_statement reg cname parent decl = Inr (c, reg') \<Longrightarrow> reg_inv reg \<Longrightarrow> reg_inv reg'"
  by (auto simp: class_statement_def success intro: reg_inv_bump)

lemma resource_inv:
  assumes "resource parent wire t reg = Inr (c, reg')" and "reg_inv reg"
    and "wf_class parent" and "oids_below (next_oid reg) parent"
  shows "reg_inv reg' \<and> next_oid reg' = Suc (next_oid reg)"
proof -
  obtain regm where cs: "class_statement reg (class_name wire) parent
       (case t of None \<Rightarrow> NotDeclared | Some x \<Rightarrow> Declared x) = Inr (c, regm)"
    and r: "register regm c wire = Inr reg'"
    using assms(1) by (auto simp: resource_def build_resource_class_def success)
  from class_statement_result [OF cs assms(3,4)] class_statement_inv [OF cs assms(2)] register_inv [OF _ _ _ r]
  show ?thesis by force
qed

lemma ensure_inv:
  assumes "ensure_resource_registered parent name t reg = Inr (c, reg')"
    and "reg_inv reg" and "wf_class parent" and "oids_below (next_oid reg) parent"
  shows "reg_inv reg'"
proof (cases "map_of (by_name reg) name")
  case (Some e)
  with assms show ?thesis by (simp add: ensure_resource_registered_def get_or_register_def)
next
  case None
  then obtain regm where cs: "class_statement reg (class_name name) parent
       (case t of None \<Rightarrow> NotDeclared | Some x \<Rightarrow> Declared x) = Inr (c, regm)"
    and r: "register_locked regm c name = Inr reg'"
    using assms(1)
    by (auto simp: ensure_resource_registered_def get_or_register_def build_resource_class_def success)
  then show ?thesis
    using class_statement_result [OF cs assms(3,4)] class_statement_inv [OF cs assms(2)]
      register_locked_inv [OF _ _ _ r] by blast
qed

text \<open>A fresh class never collides: registering a new wire name under a known family succeeds.\<close>

lemma fresh_class_unregistered:
  assumes "reg_inv reg" and "\<not> oids_below (next_oid reg) c"
  shows "map_of (by_class reg) c = None"
  using assms by (meson not_Some_eq reg_inv_def)

lemma class_statement_ok:
  assumes "grantable p"
  shows "\<exists>c. class_statement reg cname p NotDeclared = Inr (c, reg\<lparr>next_oid := Suc (next_oid reg)\<rparr>)"
  using assms by (cases p) (auto simp: class_statement_def grantable_def)

lemma register_fresh:
  assumes "class_statement reg cname p d = Inr (c, reg')" and "reg_inv reg"
    and "wf_class p" and "oids_below (next_oid reg) p" and "w \<notin> dom (map_of (by_name reg))"
  shows "\<exists>reg''. register reg' c w = Inr reg'' \<and> register_locked reg' c w = Inr reg''
           \<and> map_of (by_name reg'') = (map_of (by_name reg))(w \<mapsto> c)"
proof -
  have c: "grantable c" "reg' = reg\<lparr>next_oid := Suc (next_oid reg)\<rparr>" "\<not> oids_below (next_oid reg) c"
    using class_statement_result [OF assms(1,3,4)] by auto
  then have "map_of (by_class reg) c = None"
    using fresh_class_unregistered assms(2) by blast
  then show ?thesis using c assms(5)
    by (auto simp: register_def register_locked_def domIff grantable_def)
qed

lemma resource_ok:
  assumes "reg_inv reg" and "grantable p" and "oids_below (next_oid reg) p"
    and "w \<notin> dom (map_of (by_name reg))"
  shows "\<exists>c reg'. resource p w None reg = Inr (c, reg') \<and> reg_inv reg'
           \<and> next_oid reg' = Suc (next_oid reg) \<and> map_of (by_name reg') = (map_of (by_name reg))(w \<mapsto> c)
           \<and> \<not> oids_below (next_oid reg) c"
proof -
  have wf: "wf_class p" using assms(2) by (simp add: grantable_def)
  obtain c where cs: "class_statement reg (class_name w) p NotDeclared
      = Inr (c, reg\<lparr>next_oid := Suc (next_oid reg)\<rparr>)"
    using class_statement_ok [OF assms(2)] by blast
  then obtain reg'' where "register (reg\<lparr>next_oid := Suc (next_oid reg)\<rparr>) c w = Inr reg''"
    and m: "map_of (by_name reg'') = (map_of (by_name reg))(w \<mapsto> c)"
    using register_fresh [OF _ assms(1) wf assms(3,4)] by blast
  then have r: "resource p w None reg = Inr (c, reg'')"
    using cs by (simp add: resource_def build_resource_class_def)
  moreover have "\<not> oids_below (next_oid reg) c"
    using class_statement_result [OF cs wf assms(3)] by blast
  ultimately show ?thesis using resource_inv [OF r assms(1) wf assms(3)] m by blast
qed

abbreviation register_step :: "registry \<Rightarrow> pclass \<times> string \<Rightarrow> registry res" where
  "register_step reg x \<equiv> (case x of (parent, wire) \<Rightarrow>
     bindR (resource parent wire None reg) (\<lambda>(_, reg'). Inr reg'))"

lemma register_all_ok:
  assumes "reg_inv reg" and "\<forall>x \<in> set xs. grantable (fst x) \<and> oids_below (next_oid reg) (fst x)"
    and "distinct (map snd xs)" and "set (map snd xs) \<inter> dom (map_of (by_name reg)) = {}"
  shows "\<exists>reg'. foldR register_step reg xs = Inr reg' \<and> reg_inv reg'
           \<and> next_oid reg \<le> next_oid reg'
           \<and> dom (map_of (by_name reg')) = dom (map_of (by_name reg)) \<union> set (map snd xs)
           \<and> (\<forall>c \<in> ran (map_of (by_name reg')). c \<in> ran (map_of (by_name reg)) \<or> \<not> oids_below (next_oid reg) c)"
  using assms
proof (induction xs arbitrary: reg)
  case (Cons x xs)
  obtain p w where x: "x = (p, w)" by (cases x)
  have "grantable p" "oids_below (next_oid reg) p" "w \<notin> dom (map_of (by_name reg))"
    using Cons.prems(2,4) x by auto
  then obtain c reg1 where r: "resource p w None reg = Inr (c, reg1)" and i: "reg_inv reg1"
    and n: "next_oid reg1 = Suc (next_oid reg)"
    and m: "map_of (by_name reg1) = (map_of (by_name reg))(w \<mapsto> c)"
    and c: "\<not> oids_below (next_oid reg) c"
    using resource_ok [OF Cons.prems(1)] by blast
  have up: "oids_below (next_oid reg) d \<Longrightarrow> oids_below (next_oid reg1) d" for d
    using n oids_below_mono by simp
  have pre: "\<forall>x \<in> set xs. grantable (fst x) \<and> oids_below (next_oid reg1) (fst x)"
    using Cons.prems(2) up by simp
  have dj: "set (map snd xs) \<inter> dom (map_of (by_name reg1)) = {}"
    using Cons.prems(3,4) m x by auto
  have ds: "distinct (map snd xs)" using Cons.prems(3) by simp
  obtain reg' where f: "foldR register_step reg1 xs = Inr reg'" and i': "reg_inv reg'"
    and n': "next_oid reg1 \<le> next_oid reg'"
    and d': "dom (map_of (by_name reg')) = dom (map_of (by_name reg1)) \<union> set (map snd xs)"
    and c': "\<forall>c \<in> ran (map_of (by_name reg')). c \<in> ran (map_of (by_name reg1)) \<or> \<not> oids_below (next_oid reg1) c"
    using Cons.IH [OF i pre ds dj] by blast
  have "foldR register_step reg (x # xs) = Inr reg'" using r f x by simp
  moreover have "dom (map_of (by_name reg')) = dom (map_of (by_name reg)) \<union> set (map snd (x # xs))"
    using d' m x by auto
  moreover have "ran (map_of (by_name reg1)) \<subseteq> insert c (ran (map_of (by_name reg)))"
    unfolding m by (auto simp: ran_def)
  then have "\<forall>d \<in> ran (map_of (by_name reg')). d \<in> ran (map_of (by_name reg)) \<or> \<not> oids_below (next_oid reg) d"
    using c' c up by blast
  ultimately show ?case using i' n' n by auto
qed simp

lemma family_ok:
  "\<forall>x \<in> set resource_registrations. grantable (fst x) \<and> oids_below 8 (fst x)"
  by (simp add: resource_registrations_def family_defs grantable_def)

lemma shipped_state:
  "shipped_result = Inr shipped_registry \<and> reg_inv shipped_registry \<and> 8 \<le> next_oid shipped_registry
   \<and> dom (map_of (by_name shipped_registry)) = insert ''read:files'' (snd ` set resource_registrations)"
proof -
  have d: "distinct (map snd resource_registrations)"
    by (simp add: resource_registrations_def)
  have nf: "''read:files'' \<notin> snd ` set resource_registrations"
    by (simp add: resource_registrations_def)
  have i: "reg_inv families_registry" and n: "next_oid families_registry = 8"
    and e: "dom (map_of (by_name families_registry)) = {}"
    using reg_inv_empty by (simp_all add: families_registry_def empty_registry_def)
  obtain reg where f: "foldR register_step families_registry resource_registrations = Inr reg"
    and ri: "reg_inv reg" and rn: "8 \<le> next_oid reg"
    and rd: "dom (map_of (by_name reg)) = snd ` set resource_registrations"
    and rc: "\<forall>c \<in> ran (map_of (by_name reg)). \<not> oids_below 8 c"
    using register_all_ok [OF i, of resource_registrations] family_ok d e n
    by (auto simp: ran_def dom_def)
  have oid: "oids_below (next_oid reg) ReadFilesPerm" and wf: "wf_class ReadFilesPerm"
    using rn by (simp_all add: family_defs)
  have "map_of (by_class reg) ReadFilesPerm = None"
    using ri rc by (force simp: reg_inv_def ran_def family_defs)
  then have "\<exists>reg'. register reg ReadFilesPerm ''read:files'' = Inr reg'
      \<and> dom (map_of (by_name reg')) = insert ''read:files'' (snd ` set resource_registrations)"
    using rd nf by (auto simp: register_def register_locked_def family_defs)
  then obtain reg' where r: "register reg ReadFilesPerm ''read:files'' = Inr reg'"
    and rd': "dom (map_of (by_name reg')) = insert ''read:files'' (snd ` set resource_registrations)"
    by blast
  then have "shipped_result = Inr reg'" using f by (simp add: shipped_result_def)
  moreover have "reg_inv reg' \<and> 8 \<le> next_oid reg'" using register_inv [OF ri wf oid r] rn by simp
  moreover have "shipped_registry = reg'"
    unfolding shipped_registry_def \<open>shipped_result = Inr reg'\<close> by (rule sum.case(2))
  ultimately show ?thesis using rd' by simp
qed

lemma reachable_inv: "reg_reachable reg \<Longrightarrow> reg_inv reg"
proof (induction rule: reg_reachable.induct)
  case shipped
  then show ?case using shipped_state by blast
next
  case (define_class reg parent cname decl c reg')
  then show ?case using class_statement_inv by blast
next
  case (register_class reg c name reg')
  then show ?case using register_inv by blast
next
  case (get_or_create reg parent name t c reg')
  then show ?case using ensure_inv by blast
qed

subsection \<open>What the registry and the tool check guarantee\<close>

lemma resolve_eq_Inr [success]: "resolve_perm reg n = Inr c \<longleftrightarrow> map_of (by_name reg) n = Some c"
  by (auto simp: resolve_perm_def split: option.splits)

lemma reverse_eq_Inr [success]: "reverse_perm reg c = Inr n \<longleftrightarrow> map_of (by_class reg) c = Some n"
  by (auto simp: reverse_perm_def split: option.splits)

lemma inv_resolve_reverse: "reg_inv reg \<Longrightarrow> resolve_perm reg n = Inr c \<longleftrightarrow> reverse_perm reg c = Inr n"
  by (simp add: success reg_inv_def)

lemma inv_resolve_grantable:
  "reg_inv reg \<Longrightarrow> resolve_perm reg n = Inr c \<Longrightarrow> grantable c \<and> oids_below (next_oid reg) c"
  by (simp add: success reg_inv_def)

lemma shipped_resolves:
  "n \<in> snd ` set resource_registrations \<Longrightarrow> \<exists>c. resolve_perm shipped_registry n = Inr c"
  using shipped_state by (auto simp: success)

lemma mapR_resolve:
  "mapR (\<lambda>n. bindR (resolve_perm reg n) (\<lambda>c. Inr (n, c))) ns = Inr rs \<Longrightarrow>
     (\<forall>n \<in> set ns. \<exists>c. resolve_perm reg n = Inr c)
     \<and> (\<forall>n c. (n, c) \<in> set rs \<longleftrightarrow> n \<in> set ns \<and> resolve_perm reg n = Inr c)"
proof (induction ns arbitrary: rs)
  case (Cons n ns)
  obtain c rs' where c: "resolve_perm reg n = Inr c"
    and rs': "mapR (\<lambda>n. bindR (resolve_perm reg n) (\<lambda>c. Inr (n, c))) ns = Inr rs'" "rs = (n, c) # rs'"
    using Cons.prems by (auto simp: bindR_eq_Inr)
  then show ?case using Cons.IH [OF rs'(1)] by auto
qed simp

lemmas mapR_resolve_all = mapR_resolve [THEN conjunct1]
lemmas mapR_resolve_mem = mapR_resolve [THEN conjunct2, rule_format]

lemma mapR_resolve_Inl:
  "mapR (\<lambda>n. bindR (resolve_perm reg n) (\<lambda>c. Inr (n, c))) ns = Inl e \<Longrightarrow>
     \<exists>n \<in> set ns. \<forall>c. resolve_perm reg n \<noteq> Inr c"
  by (induction ns) (auto simp: bindR_eq_Inl)

lemma class_rank_eq: "grantable a \<Longrightarrow> class_tier a = Some t \<longleftrightarrow> class_rank a = tier_rank t"
  by (cases a) (auto simp: class_rank_def grantable_def)

text \<open>
  In every registry the package can be in after its import and any further registrations,
  the name and class dictionaries are inverse to each other, and every class a wire name
  resolves to satisfies R1 against all its ancestors: it has a tier, not below theirs.
\<close>

theorem registry_bijective_R1:
  assumes "reg_reachable reg" and "resolve_perm reg n = Inr c"
  shows "reverse_perm reg c = Inr n
         \<and> (\<forall>m. resolve_perm reg m = Inr c \<longleftrightarrow> m = n)
         \<and> (\<exists>t. class_tier c = Some t
              \<and> (\<forall>a ta. is_subclass c a \<longrightarrow> class_tier a = Some ta \<longrightarrow> ta \<le> t))"
proof -
  have i: "reg_inv reg" by (rule reachable_inv [OF assms(1)])
  have g: "grantable c" using inv_resolve_grantable [OF i assms(2)] by simp
  then obtain t where t: "class_tier c = Some t" by (auto simp: grantable_def)
  have up: "ta \<le> t" if "is_subclass c a" "class_tier a = Some ta" for a ta
    using is_subclass_tier [OF that(1) _ that(2)] g t by (auto simp: grantable_def)
  have "reverse_perm reg c = Inr n" using inv_resolve_reverse [OF i] assms(2) by simp
  moreover have "\<forall>m. resolve_perm reg m = Inr c \<longleftrightarrow> m = n"
    using inv_resolve_reverse [OF i] calculation by auto
  ultimately show ?thesis using t up by blast
qed

theorem registry_bijective_R1_witness:
  "\<exists>c. resolve_perm shipped_registry ''exec:command'' = Inr c
       \<and> reverse_perm shipped_registry c = Inr ''exec:command''"
proof -
  have "''exec:command'' \<in> snd ` set resource_registrations"
    by (simp add: resource_registrations_def)
  then obtain c where c: "resolve_perm shipped_registry ''exec:command'' = Inr c"
    using shipped_resolves by blast
  then show ?thesis using registry_bijective_R1 [OF reg_reachable.shipped c] by blast
qed

text \<open>
  Creating a resource class on demand: in every reachable registry and under every family
  already created, \<open>ensure_resource_registered\<close> succeeds, binds the name in both directions,
  keeps every earlier binding, and from then on returns the same class and changes nothing,
  whatever parent and tier a later caller passes.
\<close>

theorem ensure_resource_idempotent:
  assumes "reg_reachable reg" and "grantable parent" and "oids_below (next_oid reg) parent"
  shows "\<exists>c reg'. ensure_resource_registered parent name None reg = Inr (c, reg')
           \<and> resolve_perm reg' name = Inr c \<and> reverse_perm reg' c = Inr name
           \<and> (\<forall>n d. resolve_perm reg n = Inr d \<longrightarrow> resolve_perm reg' n = Inr d)
           \<and> (\<forall>parent' t'. ensure_resource_registered parent' name t' reg' = Inr (c, reg'))"
proof (cases "map_of (by_name reg) name")
  case (Some c)
  have "reverse_perm reg c = Inr name"
    using inv_resolve_reverse [OF reachable_inv [OF assms(1)]] Some by (simp add: success)
  then show ?thesis
    using Some by (auto simp: ensure_resource_registered_def get_or_register_def success)
next
  case None
  have i: "reg_inv reg" by (rule reachable_inv [OF assms(1)])
  have wf: "wf_class parent" using assms(2) by (simp add: grantable_def)
  obtain c reg1 where cs: "class_statement reg (class_name name) parent NotDeclared = Inr (c, reg1)"
    using class_statement_ok [OF assms(2)] by blast
  obtain reg' where r: "register_locked reg1 c name = Inr reg'"
    and m: "map_of (by_name reg') = (map_of (by_name reg))(name \<mapsto> c)"
    using register_fresh [OF cs i wf assms(3)] None by (auto simp: domIff)
  have e: "ensure_resource_registered parent name None reg = Inr (c, reg')"
    using cs r None
    by (simp add: ensure_resource_registered_def get_or_register_def build_resource_class_def)
  have "reverse_perm reg' c = Inr name"
    using inv_resolve_reverse [OF ensure_inv [OF e i wf assms(3)], of name c] m by (simp add: resolve_eq_Inr)
  then show ?thesis
    using e m None by (auto simp: ensure_resource_registered_def get_or_register_def success)
qed

theorem ensure_resource_idempotent_witness:
  "\<exists>c reg'. ensure_resource_registered SpawnPerm ''spawn:auditor'' None shipped_registry = Inr (c, reg')
     \<and> resolve_perm reg' ''spawn:auditor'' = Inr c"
proof -
  have "oids_below (next_oid shipped_registry) SpawnPerm"
    using shipped_state by (simp add: family_defs)
  then show ?thesis
    using ensure_resource_idempotent [OF reg_reachable.shipped, of SpawnPerm "''spawn:auditor''"]
    by (auto simp: family_defs grantable_def)
qed

text \<open>
  The tool check accepts a tool exactly when every permission it requires has a registered
  class ranking at most the tool's tier (R2a) and, for a T2 or T3 tool, one of them ranks
  exactly there (R2b).
\<close>

theorem evaluate_tool_spec_iff:
  "evaluate_tool_spec reg tool t required = Inr () \<longleftrightarrow>
     (\<forall>n \<in> set required. \<exists>c. resolve_perm reg n = Inr c \<and> class_rank c \<le> tier_rank t)
     \<and> (t \<in> {T2, T3} \<longrightarrow>
          (\<exists>n \<in> set required. \<exists>c. resolve_perm reg n = Inr c \<and> class_rank c = tier_rank t))"
  (is "?lhs \<longleftrightarrow> ?ceil \<and> ?floor")
proof (cases "mapR (\<lambda>n. bindR (resolve_perm reg n) (\<lambda>c. Inr (n, c))) required")
  case (Inl e)
  then have "\<exists>n \<in> set required. \<forall>c. resolve_perm reg n \<noteq> Inr c"
    by (rule mapR_resolve_Inl)
  then show ?thesis using Inl by (auto simp: evaluate_tool_spec_def)
next
  case (Inr resolved)
  have mem: "(n, c) \<in> set resolved \<longleftrightarrow> n \<in> set required \<and> resolve_perm reg n = Inr c" for n c
    using Inr by (rule mapR_resolve_mem)
  have all: "\<forall>n \<in> set required. \<exists>c. resolve_perm reg n = Inr c"
    using Inr by (rule mapR_resolve_all)
  have "?lhs \<longleftrightarrow> (\<forall>(n, c) \<in> set resolved. class_rank c \<le> tier_rank t)
      \<and> (t \<in> {T2, T3} \<longrightarrow> (\<exists>(n, c) \<in> set resolved. tier_rank t \<le> class_rank c))"
    using Inr
    by (cases t) (simp_all add: evaluate_tool_spec_def bindR_eq_Inr guardR_eq_Inr eachR_eq_Inr case_prod_unfold)
  also have "\<dots> \<longleftrightarrow> (\<forall>(n, c) \<in> set resolved. class_rank c \<le> tier_rank t)
      \<and> (t \<in> {T2, T3} \<longrightarrow> (\<exists>(n, c) \<in> set resolved. class_rank c = tier_rank t))"
    by (force intro: le_antisym)
  also have "\<dots> \<longleftrightarrow> ?ceil \<and> ?floor"
  proof -
    have "(\<forall>(n, c) \<in> set resolved. class_rank c \<le> tier_rank t) \<longleftrightarrow> ?ceil"
      using mem all by force
    moreover have "(\<exists>(n, c) \<in> set resolved. class_rank c = tier_rank t)
        \<longleftrightarrow> (\<exists>n \<in> set required. \<exists>c. resolve_perm reg n = Inr c \<and> class_rank c = tier_rank t)"
      using mem by fastforce
    ultimately show ?thesis by simp
  qed
  finally show ?thesis .
qed

theorem evaluate_tool_spec_iff_witness:
  "evaluate_tool_spec (families_registry\<lparr>by_name := [(''exec:command'', ExecPerm)]\<rparr>) ''run'' T3
     [''exec:command''] = Inr ()"
  unfolding evaluate_tool_spec_iff
  by (simp add: resolve_perm_def class_rank_def ExecPerm_def)

text \<open>
  R3 over a reachable registry: a grant covers a required permission exactly when the
  required class is the granted class or one of its subclasses and both have the same tier, so
  a T3 permission is only ever covered by a T3 grant; coverage is reflexive and transitive.
\<close>

theorem covers_same_tier_subclass:
  assumes "reg_reachable reg" and "resolve_perm reg a = Inr g" and "resolve_perm reg b = Inr r"
  shows "(covers g r \<longleftrightarrow> is_subclass r g \<and> class_tier r = class_tier g)
         \<and> covers g g
         \<and> (covers g r \<longrightarrow> class_tier r = Some T3 \<longrightarrow> class_tier g = Some T3)
         \<and> (covers g r \<longrightarrow> covers r g \<longrightarrow> a = b)"
proof -
  have i: "reg_inv reg" by (rule reachable_inv [OF assms(1)])
  have g: "grantable g" and r: "grantable r"
    using inv_resolve_grantable [OF i] assms(2,3) by auto
  have eq: "a = b" if "g = r"
    using that assms(2,3) inv_resolve_reverse [OF i] by (metis sum.inject(2))
  have "covers g g" by (rule perms.cov_refl [OF g])
  moreover have "covers g r \<longleftrightarrow> is_subclass r g \<and> class_tier r = class_tier g"
    using g r by (auto simp: covers_iff grantable_def)
  moreover have "g = r" if "covers g r" "covers r g"
    using that is_subclass_antisym by (auto simp: covers_def)
  ultimately show ?thesis using eq by auto
qed

theorem covers_same_tier_subclass_witness:
  "\<exists>g. resolve_perm shipped_registry ''query:sql'' = Inr g \<and> covers g g"
proof -
  have "''query:sql'' \<in> snd ` set resource_registrations"
    by (simp add: resource_registrations_def)
  then obtain c where c: "resolve_perm shipped_registry ''query:sql'' = Inr c"
    using shipped_resolves by blast
  then show ?thesis using covers_same_tier_subclass [OF reg_reachable.shipped c c] by blast
qed

end
