(* ===== verification/Memory_Policy.thy ===== *)
theory Memory_Policy
  imports Prelude
begin

section \<open>Memory policy\<close>

text \<open>
  \<open>memory_policy.py\<close>: the mapping a role declares under \<open>memory_policy\<close>, parsed into a record
  and asked whether a scope may be read or written.  A policy that does not parse is an error
  here and a refusal at its callers.
\<close>

definition SCOPES :: "string list" where
  "SCOPES = [''local'', ''team'', ''org'']"

definition scope_aliases :: "(string \<times> string) list" where
  "scope_aliases = [(''session'', ''local''), (''deployment'', ''org'')]"

definition memory_fields :: "string list" where
  "memory_fields = [''read_scope'', ''write_scope'', ''persist_conversation'', ''user_memory'']"

fun normalize_scope :: "pyval \<Rightarrow> string option" where
  "normalize_scope (PStr value) =
     (let v = (case map_of scope_aliases value of Some a \<Rightarrow> a | None \<Rightarrow> value)
      in if v \<in> set SCOPES then Some v else None)"
| "normalize_scope _ = None"

definition scope_field :: "dict \<Rightarrow> string \<Rightarrow> string res" where
  "scope_field raw field =
     (case normalize_scope (case map_of raw field of Some v \<Rightarrow> v | None \<Rightarrow> PStr ''local'') of
        None \<Rightarrow> Inl (MemoryPolicyError field)
      | Some s \<Rightarrow> Inr s)"

definition canonical_scope :: "string \<Rightarrow> string res" where
  "canonical_scope scope =
     (case normalize_scope (PStr scope) of
        None \<Rightarrow> Inl (MemoryPolicyError ''unknown scope'')
      | Some s \<Rightarrow> Inr s)"

record memory_policy =
  read_scope :: string
  write_scope :: string
  persist_conversation :: bool
  user_memory :: bool

definition bool_field :: "dict \<Rightarrow> string \<Rightarrow> bool \<Rightarrow> bool res" where
  "bool_field raw field dflt =
     (case map_of raw field of
        None \<Rightarrow> Inr dflt
      | Some (PBool b) \<Rightarrow> Inr b
      | Some _ \<Rightarrow> Inl (MemoryPolicyError field))"

definition policy_of_dict :: "dict \<Rightarrow> memory_policy res" where
  "policy_of_dict raw =
     bindR (guardR (set (dkeys raw) \<subseteq> set memory_fields) (MemoryPolicyError ''unknown fields'')) (\<lambda>_.
     bindR (bool_field raw ''persist_conversation'' True) (\<lambda>persist.
     bindR (bool_field raw ''user_memory'' False) (\<lambda>um.
     bindR (scope_field raw ''read_scope'') (\<lambda>rs.
     bindR (scope_field raw ''write_scope'') (\<lambda>ws.
       Inr \<lparr>read_scope = rs, write_scope = ws, persist_conversation = persist, user_memory = um\<rparr>)))))"

fun from_mapping :: "pyval \<Rightarrow> memory_policy res" where
  "from_mapping PNone = policy_of_dict []"
| "from_mapping (PDict raw) = policy_of_dict raw"
| "from_mapping _ = Inl (MemoryPolicyError ''not a mapping'')"

fun index_of :: "'a list \<Rightarrow> 'a \<Rightarrow> nat res" where
  "index_of [] x = Inl (ValueErr ''not in tuple'')"
| "index_of (y # ys) x = (if y = x then Inr 0 else bindR (index_of ys x) (\<lambda>n. Inr (Suc n)))"

definition scope_within :: "string \<Rightarrow> string \<Rightarrow> bool res" where
  "scope_within scope bound =
     bindR (canonical_scope scope) (\<lambda>c.
     bindR (index_of SCOPES c) (\<lambda>i.
     bindR (index_of SCOPES bound) (\<lambda>j. Inr (i \<le> j))))"

definition allows_read :: "memory_policy \<Rightarrow> string \<Rightarrow> bool res" where
  "allows_read p scope = scope_within scope (read_scope p)"

definition allows_write :: "memory_policy \<Rightarrow> string \<Rightarrow> bool res" where
  "allows_write p scope = scope_within scope (write_scope p)"

definition allows_user_memory :: "pyval \<Rightarrow> bool" where
  "allows_user_memory raw =
     (case from_mapping raw of Inr p \<Rightarrow> user_memory p | Inl _ \<Rightarrow> False)"

definition persists_conversation :: "pyval \<Rightarrow> bool" where
  "persists_conversation raw =
     (case from_mapping raw of Inr p \<Rightarrow> persist_conversation p | Inl _ \<Rightarrow> False)"

subsection \<open>Scopes as a chain\<close>

definition scope_rank :: "string \<Rightarrow> nat" where
  "scope_rank s = (if s = ''local'' then 0 else if s = ''team'' then 1 else 2)"

lemma normalize_scope_in: "normalize_scope v = Some s \<Longrightarrow> s \<in> set SCOPES"
  by (cases v) (auto simp: Let_def split: if_splits)

lemma normalize_scope_idem: "s \<in> set SCOPES \<Longrightarrow> normalize_scope (PStr s) = Some s"
  by (auto simp: SCOPES_def scope_aliases_def)

lemma index_of_scope: "s \<in> set SCOPES \<Longrightarrow> index_of SCOPES s = Inr (scope_rank s)"
  by (auto simp: SCOPES_def scope_rank_def)

lemma scope_within_eq:
  assumes "b \<in> set SCOPES"
  shows "scope_within s b =
     (case normalize_scope (PStr s) of
        None \<Rightarrow> Inl (MemoryPolicyError ''unknown scope'')
      | Some c \<Rightarrow> Inr (scope_rank c \<le> scope_rank b))"
  using assms index_of_scope normalize_scope_in
  by (auto simp: scope_within_def canonical_scope_def simp del: normalize_scope.simps split: option.splits)

lemma scope_field_in: "scope_field raw f = Inr s \<Longrightarrow> s \<in> set SCOPES"
  by (auto simp: scope_field_def simp del: normalize_scope.simps dest: normalize_scope_in split: option.splits)

lemma from_mapping_scopes:
  assumes "from_mapping raw = Inr p"
  shows "read_scope p \<in> set SCOPES \<and> write_scope p \<in> set SCOPES"
proof -
  have "policy_of_dict d = Inr p \<Longrightarrow> read_scope p \<in> set SCOPES \<and> write_scope p \<in> set SCOPES" for d
    by (auto simp: policy_of_dict_def success dest: scope_field_in)
  then show ?thesis using assms by (cases raw) auto
qed

text \<open>
  A parsed policy decides every access by the chain local, team, org: a scope given by any of
  its spellings may be read (written) exactly when it is not wider than the policy's read
  (write) scope, and an unknown scope is an error, never a permission.
\<close>

theorem memory_policy_decides:
  assumes "from_mapping raw = Inr p"
  shows "allows_read p s =
           (case normalize_scope (PStr s) of
              None \<Rightarrow> Inl (MemoryPolicyError ''unknown scope'')
            | Some c \<Rightarrow> Inr (scope_rank c \<le> scope_rank (read_scope p)))
         \<and> allows_write p s =
           (case normalize_scope (PStr s) of
              None \<Rightarrow> Inl (MemoryPolicyError ''unknown scope'')
            | Some c \<Rightarrow> Inr (scope_rank c \<le> scope_rank (write_scope p)))"
  using from_mapping_scopes [OF assms] by (simp only: allows_read_def allows_write_def scope_within_eq)

theorem memory_policy_decides_witness:
  "\<exists>p. from_mapping (PDict [(''read_scope'', PStr ''team'')]) = Inr p
       \<and> allows_read p ''session'' = Inr True \<and> allows_read p ''deployment'' = Inr False
       \<and> allows_write p ''team'' = Inr False"
proof -
  let ?p = "\<lparr>read_scope = ''team'', write_scope = ''local'', persist_conversation = True, user_memory = False\<rparr>"
  have p: "from_mapping (PDict [(''read_scope'', PStr ''team'')]) = Inr ?p"
    by (simp add: policy_of_dict_def bool_field_def memory_fields_def dkeys_def scope_field_def scope_aliases_def SCOPES_def)
  show ?thesis
    using p memory_policy_decides [OF p, of "''session''"] memory_policy_decides [OF p, of "''deployment''"]
      memory_policy_decides [OF p, of "''team''"]
    by (simp add: scope_aliases_def SCOPES_def scope_rank_def)
qed

text \<open>
  Only a well-formed policy is accepted: the value is absent or a mapping with known fields,
  boolean flags and known scopes; otherwise the conversation is not persisted and no user
  memory is kept, and user memory needs an explicit true.
\<close>

theorem memory_policy_fails_closed:
  "((\<exists>p. from_mapping raw = Inr p) \<longleftrightarrow>
      (\<exists>d. (raw = PNone \<and> d = [] \<or> raw = PDict d)
        \<and> set (dkeys d) \<subseteq> set memory_fields
        \<and> (\<forall>k \<in> {''persist_conversation'', ''user_memory''}. \<forall>v. map_of d k = Some v \<longrightarrow> is_bool v)
        \<and> (\<forall>k \<in> {''read_scope'', ''write_scope''}. \<forall>v. map_of d k = Some v \<longrightarrow> normalize_scope v \<noteq> None)))
   \<and> ((\<forall>p. from_mapping raw \<noteq> Inr p) \<longrightarrow> \<not> persists_conversation raw \<and> \<not> allows_user_memory raw)
   \<and> (allows_user_memory raw \<longrightarrow> (\<exists>d. raw = PDict d \<and> map_of d ''user_memory'' = Some (PBool True)))"
proof -
  have b: "(\<exists>b. bool_field d k df = Inr b) \<longleftrightarrow> (\<forall>v. map_of d k = Some v \<longrightarrow> is_bool v)" for d k df
    by (auto simp: bool_field_def split: option.splits pyval.splits elim: is_bool.elims)
  have "normalize_scope (PStr ''local'') = Some ''local''"
    by (rule normalize_scope_idem) (simp add: SCOPES_def)
  then have s: "(\<exists>s. scope_field d k = Inr s) \<longleftrightarrow> (\<forall>v. map_of d k = Some v \<longrightarrow> normalize_scope v \<noteq> None)" for d k
    by (auto simp: scope_field_def simp del: normalize_scope.simps split: option.splits)
  have ok: "(\<exists>p. policy_of_dict d = Inr p) \<longleftrightarrow> set (dkeys d) \<subseteq> set memory_fields
        \<and> (\<forall>k \<in> {''persist_conversation'', ''user_memory''}. \<forall>v. map_of d k = Some v \<longrightarrow> is_bool v)
        \<and> (\<forall>k \<in> {''read_scope'', ''write_scope''}. \<forall>v. map_of d k = Some v \<longrightarrow> normalize_scope v \<noteq> None)" for d
  proof -
    have "(\<exists>p. policy_of_dict d = Inr p) \<longleftrightarrow> set (dkeys d) \<subseteq> set memory_fields
        \<and> (\<exists>x. bool_field d ''persist_conversation'' True = Inr x)
        \<and> (\<exists>x. bool_field d ''user_memory'' False = Inr x)
        \<and> (\<exists>x. scope_field d ''read_scope'' = Inr x) \<and> (\<exists>x. scope_field d ''write_scope'' = Inr x)"
      by (auto simp: policy_of_dict_def success)
    then show ?thesis by (simp only: b s) auto
  qed
  have um: "user_memory p \<Longrightarrow> policy_of_dict d = Inr p \<Longrightarrow> map_of d ''user_memory'' = Some (PBool True)" for p d
    by (auto simp: policy_of_dict_def bool_field_def success split: option.splits pyval.splits)
  have "(\<exists>p. from_mapping raw = Inr p) \<longleftrightarrow> (\<exists>d. (raw = PNone \<and> d = [] \<or> raw = PDict d) \<and> (\<exists>p. policy_of_dict d = Inr p))"
    by (cases raw) auto
  moreover have "(\<forall>p. from_mapping raw \<noteq> Inr p) \<longrightarrow> \<not> persists_conversation raw \<and> \<not> allows_user_memory raw"
    by (auto simp: persists_conversation_def allows_user_memory_def split: sum.splits)
  moreover have "allows_user_memory raw \<longrightarrow> (\<exists>d. raw = PDict d \<and> map_of d ''user_memory'' = Some (PBool True))"
    using um um [where d = "[]"] by (cases raw) (auto simp: allows_user_memory_def split: sum.splits)
  ultimately show ?thesis unfolding ok by blast
qed

theorem memory_policy_fails_closed_witness:
  "\<not> persists_conversation (PDict [(''persist_conversation'', PInt 1)])
   \<and> \<not> allows_user_memory (PDict [(''persist_conversation'', PInt 1)])"
proof -
  have "from_mapping (PDict [(''persist_conversation'', PInt 1)]) \<noteq> Inr p" for p
    by (simp add: policy_of_dict_def bool_field_def memory_fields_def dkeys_def)
  then show ?thesis using memory_policy_fails_closed [of "PDict [(''persist_conversation'', PInt 1)]"] by blast
qed

end
