(* ===== verification/Tools.thy ===== *)
theory Tools
  imports Permission_Registry Memory_Policy
begin

section \<open>Tool specifications and the tool registry\<close>

text \<open>
  \<open>harness/registry.py\<close>: the specification of a tool, its construction with the checks of
  \<open>__post_init__\<close>, and the registry a deployment fills at boot.  The connector is the
  deployment's callable, so its type is a parameter of the record.
\<close>

record 'c tool_spec =
  ts_name :: string
  required_permissions :: "string list"
  connector :: 'c
  ts_tier :: tier
  ts_description :: string
  input_schema :: dict
  always_revalidate :: bool
  subject_scoped :: bool
  needs_user_memory :: bool
  memory_access :: "string option"
  memory_scope :: string

definition post_init :: "registry \<Rightarrow> 'c tool_spec \<Rightarrow> unit res" where
  "post_init reg spec =
     bindR (guardR (memory_access spec \<in> {None, Some ''read'', Some ''write'', Some ''readwrite''})
              (ValueErr ''memory_access'')) (\<lambda>_.
     bindR (guardR (normalize_scope (PStr (memory_scope spec)) \<noteq> None) (ValueErr ''memory_scope'')) (\<lambda>_.
       evaluate_tool_spec reg (ts_name spec) (ts_tier spec) (required_permissions spec)))"

definition ToolSpec :: "registry \<Rightarrow> 'c tool_spec \<Rightarrow> 'c tool_spec res" where
  "ToolSpec reg spec = bindR (post_init reg spec) (\<lambda>_. Inr spec)"

definition to_langchain_tool_schema :: "'c tool_spec \<Rightarrow> pyval" where
  "to_langchain_tool_schema spec =
     PDict [(''type'', PStr ''function''),
            (''function'', PDict
               [(''name'', PStr (ts_name spec)),
                (''description'', PStr (ts_description spec)),
                (''parameters'',
                   if input_schema spec \<noteq> [] then PDict (input_schema spec)
                   else PDict [(''type'', PStr ''object''), (''properties'', PDict [])])])]"

subsection \<open>The tool registry\<close>

type_synonym 'c tool_registry = "(string \<times> 'c tool_spec) list"

definition register_tool :: "'c tool_registry \<Rightarrow> 'c tool_spec \<Rightarrow> 'c tool_registry res" where
  "register_tool reg spec =
     (if ts_name spec \<in> set (dkeys reg) then Inl (ValueErr ''tool already registered'')
      else Inr (dset reg (ts_name spec) spec))"

definition get_tool :: "'c tool_registry \<Rightarrow> string \<Rightarrow> 'c tool_spec res" where
  "get_tool reg name =
     (case map_of reg name of Some s \<Rightarrow> Inr s | None \<Rightarrow> Inl (ToolNotFoundError name))"

definition has_tool :: "'c tool_registry \<Rightarrow> string \<Rightarrow> bool" where
  "has_tool reg name \<longleftrightarrow> name \<in> set (dkeys reg)"

definition tool_names :: "'c tool_registry \<Rightarrow> string list" where
  "tool_names reg = dkeys reg"

text \<open>The registries a boot can build: specifications are constructed, then registered.\<close>

inductive tools_built :: "registry \<Rightarrow> 'c tool_registry \<Rightarrow> bool" for preg :: registry where
  no_tools: "tools_built preg []"
| add_tool: "tools_built preg tr \<Longrightarrow> ToolSpec preg raw = Inr spec \<Longrightarrow>
     register_tool tr spec = Inr tr' \<Longrightarrow> tools_built preg tr'"

lemma dset_new: "k \<notin> set (dkeys d) \<Longrightarrow> dset d k v = d @ [(k, v)]"
proof -
  assume "k \<notin> set (dkeys d)"
  then have "map (\<lambda>(k', v'). (k', case map_of [(k, v)] k' of Some w \<Rightarrow> w | None \<Rightarrow> v')) d = d"
    by (intro map_idI) (force simp: dkeys_def)
  then show ?thesis using \<open>k \<notin> set (dkeys d)\<close> by (simp add: dset_def dmerge_def)
qed

lemma has_tool_iff: "has_tool reg name \<longleftrightarrow> map_of reg name \<noteq> None"
  by (simp add: has_tool_def dkeys_def map_of_eq_None_iff)

lemma get_tool_eq_Inr [success]: "get_tool reg n = Inr s \<longleftrightarrow> map_of reg n = Some s"
  by (auto simp: get_tool_def split: option.splits)

lemma ToolSpec_eq_Inr [success]: "ToolSpec preg raw = Inr s \<longleftrightarrow> s = raw \<and> post_init preg raw = Inr ()"
  by (auto simp: ToolSpec_def success)

lemma tools_built_entries:
  "tools_built preg tr \<Longrightarrow> distinct (tool_names tr)
     \<and> (\<forall>(n, s) \<in> set tr. ts_name s = n \<and> post_init preg s = Inr ())"
proof (induction rule: tools_built.induct)
  case (add_tool tr raw spec tr')
  then have "ts_name spec \<notin> set (dkeys tr)" and t: "tr' = dset tr (ts_name spec) spec"
    by (auto simp: register_tool_def split: if_splits)
  with dset_new [OF this(1)] add_tool show ?case
    by (auto simp: tool_names_def dkeys_def success)
qed (simp add: tool_names_def dkeys_def)

text \<open>
  Whatever a boot registers, the registry holds each name once, under it a specification of
  that name that passed every construction check: its memory scope is known and its tier
  satisfies R2a and R2b; and registering a further tool succeeds exactly when its name is free,
  after which \<open>get\<close> returns it and every other name answers as before.
\<close>

theorem tool_registry_sound:
  assumes "tools_built preg tr"
  shows "distinct (tool_names tr)
    \<and> (\<forall>n s. get_tool tr n = Inr s \<longrightarrow> ts_name s = n
         \<and> normalize_scope (PStr (memory_scope s)) \<noteq> None
         \<and> evaluate_tool_spec preg n (ts_tier s) (required_permissions s) = Inr ())
    \<and> (\<forall>spec. case register_tool tr spec of
           Inl e \<Rightarrow> has_tool tr (ts_name spec)
         | Inr tr' \<Rightarrow> \<not> has_tool tr (ts_name spec)
             \<and> (\<forall>n. get_tool tr' n = (if n = ts_name spec then Inr spec else get_tool tr n))
             \<and> tool_names tr' = tool_names tr @ [ts_name spec])"
proof (intro conjI allI impI)
  show "distinct (tool_names tr)" using tools_built_entries [OF assms] by simp
next
  fix n s assume "get_tool tr n = Inr s"
  then have "(n, s) \<in> set tr" by (simp add: success map_of_SomeD)
  then have "ts_name s = n" "post_init preg s = Inr ()"
    using tools_built_entries [OF assms] by auto
  then show "ts_name s = n" "normalize_scope (PStr (memory_scope s)) \<noteq> None"
    "evaluate_tool_spec preg n (ts_tier s) (required_permissions s) = Inr ()"
    by (auto simp: post_init_def success)
next
  fix spec
  show "case register_tool tr spec of
           Inl e \<Rightarrow> has_tool tr (ts_name spec)
         | Inr tr' \<Rightarrow> \<not> has_tool tr (ts_name spec)
             \<and> (\<forall>n. get_tool tr' n = (if n = ts_name spec then Inr spec else get_tool tr n))
             \<and> tool_names tr' = tool_names tr @ [ts_name spec]"
  proof (cases "ts_name spec \<in> set (dkeys tr)")
    case True
    then show ?thesis by (simp add: register_tool_def has_tool_def)
  next
    case False
    have "get_tool (dset tr (ts_name spec) spec) n = (if n = ts_name spec then Inr spec else get_tool tr n)" for n
      by (simp add: get_tool_def)
    moreover have "tool_names (dset tr (ts_name spec) spec) = tool_names tr @ [ts_name spec]"
      unfolding dset_new [OF False] by (simp add: tool_names_def dkeys_def)
    ultimately show ?thesis using False by (simp add: register_tool_def has_tool_def)
  qed
qed

definition demo_spec :: "unit tool_spec" where
  "demo_spec = \<lparr>ts_name = ''clock'', required_permissions = [], connector = (), ts_tier = T0,
     ts_description = '''', input_schema = [], always_revalidate = False, subject_scoped = False,
     needs_user_memory = False, memory_access = None, memory_scope = ''local''\<rparr>"

lemma demo_spec_ok: "ToolSpec preg demo_spec = Inr demo_spec"
  by (simp add: ToolSpec_def post_init_def demo_spec_def evaluate_tool_spec_def scope_aliases_def SCOPES_def)

theorem tool_registry_sound_witness:
  "get_tool [(''clock'', demo_spec)] ''clock'' = Inr demo_spec \<and> ts_name demo_spec = ''clock''
   \<and> evaluate_tool_spec shipped_registry ''clock'' T0 [] = Inr ()"
proof -
  have "register_tool [] demo_spec = Inr [(''clock'', demo_spec)]"
    by (simp add: register_tool_def dkeys_def dset_new) (simp add: demo_spec_def)
  then have "tools_built shipped_registry [(''clock'', demo_spec)]"
    using add_tool [OF no_tools demo_spec_ok] by blast
  note sound = tool_registry_sound [OF this]
  moreover have g: "get_tool [(''clock'', demo_spec)] ''clock'' = Inr demo_spec"
    by (simp add: get_tool_def)
  ultimately have "ts_name demo_spec = ''clock''
      \<and> evaluate_tool_spec shipped_registry ''clock'' (ts_tier demo_spec) (required_permissions demo_spec) = Inr ()"
    by blast
  then show ?thesis using g by (simp add: demo_spec_def)
qed

end
