(* ===== verification/Definitions.thy ===== *)
theory Definitions
  imports Prelude Permissions
begin

section \<open>Agent definitions: the loader's data\<close>

text \<open>
  The value types of \<open>harness/loader.py\<close>: command tool declarations, the intermediate
  \<open>RawDefinition\<close>, the resolved \<open>AgentDefinition\<close>, the overrides an importer passes and the
  three kinds of role locator.  A policy mapping, \<open>permissions\<close>, \<open>execution_limits\<close> and
  \<open>model\<close> stay Python values, because the code receives them as parsed YAML and checks their
  shape itself; the other fields have the type their annotation gives.  Paths are lists of
  components.  An inline definition carries the identity of its Python object.
\<close>

type_synonym path = "string list"

subsection \<open>Constants\<close>

definition AUTONOMY_RANK :: "(string \<times> nat) list" where
  "AUTONOMY_RANK = [(''confirm'', 0), (''supervised'', 1), (''full'', 2)]"

definition DEFAULT_AUTONOMY :: string where
  "DEFAULT_AUTONOMY = ''supervised''"

definition PLATFORM_DEFAULT_LIMITS :: dict where
  "PLATFORM_DEFAULT_LIMITS =
     [(''tool_call_timeout_s'', PInt 10),
      (''total_execution_timeout_s'', PInt 60),
      (''max_tool_calls'', PInt 20),
      (''max_tool_errors'', PInt 3),
      (''max_delegation_depth'', PInt 2),
      (''max_clarification_attempts'', PInt 3),
      (''max_context_tokens'', PInt 64000)]"

definition DEPRECATED_PREDEFINED_ROLES :: "string list" where
  "DEPRECATED_PREDEFINED_ROLES =
     [''accountant-agent'', ''data-agent'', ''developer-agent'', ''operator-agent'',
      ''orchestrator'', ''sales-agent'', ''summary-agent'', ''support-agent'']"

definition MAX_ROLE_CHAIN_DEPTH :: nat where
  "MAX_ROLE_CHAIN_DEPTH = 8"

definition PROMPT_SEPARATOR :: string where
  "PROMPT_SEPARATOR = [CHR 0x0A, CHR 0x0A] @ ''---'' @ [CHR 0x0A, CHR 0x0A]"

definition POLICY_FIELDS :: "string list" where
  "POLICY_FIELDS = [''escalation_rules'', ''delegation_policy'', ''memory_policy'', ''audit_policy'']"

subsection \<open>Command tools\<close>

record command_tool_param =
  param_type :: string
  param_pattern :: "string option"
  param_max_length :: "int option"
  param_enum :: "string list option"

record command_tool_declaration =
  ct_name :: string
  ct_argv :: "string list"
  ct_params :: "(string \<times> command_tool_param) list"
  ct_tier :: tier
  ct_permission :: string

subsection \<open>Definitions\<close>

record raw_definition =
  role_name :: string
  version :: string
  deployment :: "string option"
  system_prompt :: string
  tools :: "string list"
  skills :: "string list"
  ctx :: dict
  permissions :: pyval
  autonomy :: string
  escalation_rules :: pyval
  delegation_policy :: pyval
  memory_policy_decl :: pyval
  audit_policy :: pyval
  execution_limits :: pyval
  untrusted_input :: "bool option"
  command_tools :: "string list"
  command_tool_declarations :: "(string \<times> command_tool_declaration) list"
  skills_folder :: "path option"
  inline_skills :: "(string \<times> string) list"
  importer_root :: "path option"
  model_decl :: pyval

record agent_definition =
  ad_role_name :: string
  ad_version :: string
  ad_deployment :: "string option"
  ad_system_prompt :: string
  ad_tools :: "string list"
  ad_skills :: "string list"
  ad_context :: dict
  ad_permissions :: "pyval list"
  ad_autonomy :: string
  ad_escalation_rules :: dict
  ad_delegation_policy :: dict
  ad_memory_policy :: dict
  ad_audit_policy :: dict
  ad_execution_limits :: "dict option"
  ad_untrusted_input :: bool
  ad_command_tools :: "command_tool_declaration list"
  ad_skills_folder :: "path option"
  ad_inline_skills :: "(string \<times> string) list"
  ad_importer_root :: "path option"
  ad_model :: "dict option"

subsection \<open>Locators\<close>

text \<open>
  One constructor per key of \<open>_FOLDER_OVERRIDE_FIELDS\<close>, with a value of the field's own type;
  \<open>OvOther\<close> is any key outside that table.  The \<open>extends\<close> override is either another agent's
  locator or a value placed like a manifest's.
\<close>

datatype locator =
    RoleName string
  | FolderLocator path path "override list"
  | InlineLocator nat raw_definition parent_ref
and override =
    OvName string
  | OvVersion string
  | OvSystemPrompt string
  | OvExtendsLocator locator
  | OvExtendsValue pyval
  | OvTools "string list"
  | OvSkills "string list"
  | OvSkillContents "(string \<times> string) list"
  | OvContext dict
  | OvPermissions pyval
  | OvAutonomy string
  | OvEscalationRules pyval
  | OvDelegationPolicy pyval
  | OvMemoryPolicy pyval
  | OvAuditPolicy pyval
  | OvExecutionLimits pyval
  | OvUntrustedInput pyval
  | OvModel pyval
  | OvOther string
and parent_ref =
    NoParent
  | ParentName string
  | ParentLocator locator

fun is_importer :: "locator \<Rightarrow> bool" where
  "is_importer (RoleName _) = False"
| "is_importer _ = True"

text \<open>A raw definition's policy mapping by its field name.\<close>

definition policy_of :: "raw_definition \<Rightarrow> string \<Rightarrow> pyval" where
  "policy_of d field =
     (if field = ''escalation_rules'' then escalation_rules d
      else if field = ''delegation_policy'' then delegation_policy d
      else if field = ''memory_policy'' then memory_policy_decl d
      else audit_policy d)"

text \<open>A value read as a mapping where the code has established that it is one.\<close>

fun dict_of :: "pyval \<Rightarrow> dict" where
  "dict_of (PDict d) = d"
| "dict_of _ = []"

fun is_dict :: "pyval \<Rightarrow> bool" where
  "is_dict (PDict _) = True"
| "is_dict _ = False"

lemma is_dict_iff: "is_dict v \<longleftrightarrow> (\<exists>d. v = PDict d)"
  by (cases v) simp_all

subsection \<open>Lists of strings\<close>

fun as_str_list :: "pyval \<Rightarrow> string list" where
  "as_str_list PNone = []"
| "as_str_list (PList vs) = map py_str vs"
| "as_str_list (PStr s) = [s]"
| "as_str_list v = [py_str v]"

lemma as_str_list_strings [simp]: "as_str_list (PList (map PStr xs)) = xs"
  by (simp add: comp_def)

end
