(* ===== verification/Directives.thy ===== *)
theory Directives
  imports Definitions
begin

section \<open>Merge directives\<close>

text \<open>
  The directives of \<open>harness/loader.py\<close>: how a list field (\<open>permissions\<close>) and a policy mapping
  of a child or a deployment combine with their parent's.  Both resolvers refuse a shape they do
  not honour, so no typing mistake resolves to the parent's full set.
\<close>

definition INHERIT_DIRECTIVE_KEYS :: "string list" where
  "INHERIT_DIRECTIVE_KEYS = [''inherit'', ''add'', ''remove'']"

definition DIRECTIVE_KEYS :: "string list" where
  "DIRECTIVE_KEYS = [''inherit'', ''add'', ''remove'', ''override'']"

definition inherits :: "dict \<Rightarrow> bool" where
  "inherits d = (map_of d ''inherit'' = Some (PBool True))"

subsection \<open>List directives\<close>

fun check_list_directive :: "pyval \<Rightarrow> string \<Rightarrow> unit res" where
  "check_list_directive PNone field = Inr ()"
| "check_list_directive (PStr _) field = Inr ()"
| "check_list_directive (PList _) field = Inr ()"
| "check_list_directive (PDict d) field =
     (if inherits d \<and> set (dkeys d) \<subseteq> set INHERIT_DIRECTIVE_KEYS then Inr ()
      else if set (dkeys d) = {''override''} then Inr ()
      else Inl (DefinitionError field))"
| "check_list_directive _ field = Inl (DefinitionError field)"

fun apply_list_directive :: "pyval list \<Rightarrow> pyval \<Rightarrow> pyval list" where
  "apply_list_directive parent_list PNone = parent_list"
| "apply_list_directive parent_list (PStr s) = (if s = ''inherit'' then parent_list else [PStr s])"
| "apply_list_directive parent_list (PList vs) = vs"
| "apply_list_directive parent_list (PDict d) =
     (case map_of d ''override'' of
        Some v \<Rightarrow> map PStr (as_str_list v)
      | None \<Rightarrow>
          filter (\<lambda>r. r \<notin> PStr ` set (as_str_list (dget d ''remove'')))
            (add_missing parent_list (map PStr (as_str_list (dget d ''add'')))))"
| "apply_list_directive parent_list _ = parent_list"

definition resolve_list_directive :: "pyval list \<Rightarrow> pyval \<Rightarrow> string \<Rightarrow> pyval list res" where
  "resolve_list_directive parent_list v field =
     bindR (check_list_directive v field) (\<lambda>_. Inr (apply_list_directive parent_list v))"

definition resolve_permissions :: "pyval list \<Rightarrow> pyval \<Rightarrow> pyval list res" where
  "resolve_permissions parent_perms override_perms =
     resolve_list_directive parent_perms override_perms ''permissions''"

subsection \<open>Mapping directives\<close>

definition descriptions_of :: "dict \<Rightarrow> dict" where
  "descriptions_of rules = dict_of (dget rules ''descriptions'')"

definition check_escalation_descriptions :: "dict \<Rightarrow> unit res" where
  "check_escalation_descriptions rules =
     (case map_of rules ''descriptions'' of
        None \<Rightarrow> Inr ()
      | Some v \<Rightarrow> guardR (is_dict v) (DefinitionError ''escalation_rules.descriptions''))"

fun check_mapping_directive :: "pyval \<Rightarrow> string \<Rightarrow> unit res" where
  "check_mapping_directive PNone field = Inr ()"
| "check_mapping_directive (PStr s) field = guardR (s = ''inherit'') (DefinitionError field)"
| "check_mapping_directive (PDict d) field =
     bindR (if field = ''escalation_rules'' then check_escalation_descriptions d else Inr ()) (\<lambda>_.
       let directive_keys = set (dkeys d) \<inter> set DIRECTIVE_KEYS;
           allowed = (if field = ''escalation_rules'' then set INHERIT_DIRECTIVE_KEYS else {''inherit''})
       in guardR (directive_keys = {} \<or> inherits d \<and> directive_keys \<subseteq> allowed) (DefinitionError field))"
| "check_mapping_directive _ field = Inl (DefinitionError field)"

definition mapping_item :: "string \<Rightarrow> dict \<Rightarrow> string \<times> pyval \<Rightarrow> dict res" where
  "mapping_item field result kv =
     (case kv of (k, v) \<Rightarrow>
        if k = ''inherit'' then Inr result
        else if k \<in> {''add'', ''remove''} then
          bindR (resolve_list_directive (map PStr (as_str_list (dget result ''conditions'')))
                   (PDict [(''inherit'', PBool True), (k, v)]) field) (\<lambda>cs.
            Inr (dset result ''conditions'' (PList cs)))
        else if k = ''descriptions'' \<and> is_dict v then
          Inr (dset result ''descriptions'' (PDict (dmerge (descriptions_of result) (dict_of v))))
        else Inr (dset result k v))"

definition resolve_mapping_directive :: "dict \<Rightarrow> pyval \<Rightarrow> string \<Rightarrow> dict res" where
  "resolve_mapping_directive parent v field =
     bindR (check_mapping_directive v field) (\<lambda>_.
       case v of
         PDict d \<Rightarrow>
           if d = [] then Inr parent
           else if \<not> inherits d then Inr d
           else foldR (mapping_item field) parent d
       | _ \<Rightarrow> Inr parent)"

subsection \<open>Facts about directives\<close>

lemma check_list_directive_dict [success]:
  "check_list_directive (PDict d) field = Inr () \<longleftrightarrow>
     inherits d \<and> set (dkeys d) \<subseteq> set INHERIT_DIRECTIVE_KEYS \<or> set (dkeys d) = {''override''}"
  by simp

lemma inherit_directive_no_override:
  "set (dkeys d) \<subseteq> set INHERIT_DIRECTIVE_KEYS \<Longrightarrow> map_of d ''override'' = None"
  unfolding map_of_None_dkeys INHERIT_DIRECTIVE_KEYS_def by auto

lemma override_directive_value:
  "set (dkeys d) = {''override''} \<Longrightarrow> \<exists>v. map_of d ''override'' = Some v"
  by (rule dkeys_Some) simp

text \<open>
  Permissions of a child or a deployment: every accepted declaration means what its shape
  says, and every other shape is refused.  In particular \<open>{inherit, add, remove}\<close> yields the
  parent's entries and the added ones, in order, without any removed one.
\<close>

theorem list_directive_meaning:
  "resolve_list_directive parent_list v field = Inr r \<longleftrightarrow>
     (v = PNone \<or> v = PStr ''inherit'') \<and> r = parent_list
     \<or> (\<exists>s. v = PStr s \<and> s \<noteq> ''inherit'' \<and> r = [PStr s])
     \<or> v = PList r
     \<or> (\<exists>d. v = PDict d \<and> set (dkeys d) = {''override''}
          \<and> r = map PStr (as_str_list (dget d ''override'')))
     \<or> (\<exists>d. v = PDict d \<and> inherits d \<and> set (dkeys d) \<subseteq> set INHERIT_DIRECTIVE_KEYS
          \<and> set r = (set parent_list \<union> PStr ` set (as_str_list (dget d ''add'')))
                     - PStr ` set (as_str_list (dget d ''remove''))
          \<and> r = filter (\<lambda>x. x \<notin> PStr ` set (as_str_list (dget d ''remove'')))
                  (add_missing parent_list (map PStr (as_str_list (dget d ''add'')))))"
proof (cases v)
  case (PDict d)
  consider (inh) "inherits d" "set (dkeys d) \<subseteq> set INHERIT_DIRECTIVE_KEYS"
    | (ov) "set (dkeys d) = {''override''}"
    | (bad) "\<not> (inherits d \<and> set (dkeys d) \<subseteq> set INHERIT_DIRECTIVE_KEYS)" "set (dkeys d) \<noteq> {''override''}"
    by blast
  then show ?thesis
  proof cases
    case inh
    have n: "set (dkeys d) \<noteq> {''override''}"
      using inh(2) by (auto simp: INHERIT_DIRECTIVE_KEYS_def)
    define F where "F = filter (\<lambda>x. x \<notin> PStr ` set (as_str_list (dget d ''remove'')))
                  (add_missing parent_list (map PStr (as_str_list (dget d ''add''))))"
    have F: "set F = (set parent_list \<union> PStr ` set (as_str_list (dget d ''add'')))
                     - PStr ` set (as_str_list (dget d ''remove''))"
      unfolding F_def by auto
    have "resolve_list_directive parent_list v field = Inr F"
      using PDict inh inherit_directive_no_override [OF inh(2)]
      by (simp add: resolve_list_directive_def F_def)
    then have lhs: "resolve_list_directive parent_list v field = Inr r \<longleftrightarrow> r = F" by auto
    show ?thesis unfolding lhs unfolding PDict F_def using inh n by auto
  next
    case ov
    have "map_of d ''inherit'' = None" unfolding map_of_None_dkeys using ov by simp
    then have n: "\<not> inherits d" by (simp add: inherits_def)
    obtain w where w: "map_of d ''override'' = Some w" using override_directive_value [OF ov] by blast
    have "resolve_list_directive parent_list v field = Inr (map PStr (as_str_list w))"
      using PDict ov n w by (simp add: resolve_list_directive_def)
    moreover have "dget d ''override'' = w" using w by (simp add: dget_def)
    ultimately show ?thesis using PDict ov n by auto
  next
    case bad
    then show ?thesis using PDict by (auto simp: resolve_list_directive_def)
  qed
qed (auto simp: resolve_list_directive_def)

subsection \<open>Escalation conditions through a mapping directive\<close>

definition conditions_of :: "dict \<Rightarrow> string set" where
  "conditions_of rules = set (as_str_list (dget rules ''conditions''))"

lemma resolve_mapping_PDict:
  "resolve_mapping_directive parent (PDict d) field = Inr r \<Longrightarrow>
     d = [] \<and> r = parent \<or> d \<noteq> [] \<and> \<not> inherits d \<and> r = d
     \<or> d \<noteq> [] \<and> inherits d \<and> foldR (mapping_item field) parent d = Inr r"
  by (auto simp: resolve_mapping_directive_def bindR_eq_Inr split: if_splits)

lemma resolve_mapping_other:
  "\<not> is_dict v \<Longrightarrow> resolve_mapping_directive parent v field = Inr r \<Longrightarrow>
     r = parent \<and> (v = PNone \<or> v = PStr ''inherit'')"
  by (cases v) (auto simp: resolve_mapping_directive_def bindR_eq_Inr guardR_eq_Inr)

text \<open>Keys other than the directive's own come from the mapping where it has them, else the parent.\<close>

lemma mapping_item_other_key:
  assumes "mapping_item field result (k, v) = Inr result'"
    and "q \<notin> {''conditions'', ''descriptions'', ''inherit'', ''add'', ''remove''}"
  shows "map_of result' q = (if q = k then Some v else map_of result q)"
  using assms by (auto simp: mapping_item_def bindR_eq_Inr split: if_splits)

lemma mapping_fold_other_key:
  assumes "foldR (mapping_item field) result d = Inr r"
    and "q \<notin> {''conditions'', ''descriptions'', ''inherit'', ''add'', ''remove''}"
    and "distinct (dkeys d)"
  shows "map_of r q = (case map_of d q of Some v \<Rightarrow> Some v | None \<Rightarrow> map_of result q)"
  using assms
proof (induction d arbitrary: result)
  case (Cons kv d)
  obtain k v where kv: "kv = (k, v)" by (cases kv)
  obtain result' where s: "mapping_item field result (k, v) = Inr result'"
    and f: "foldR (mapping_item field) result' d = Inr r"
    using Cons.prems(1) kv by (auto simp: bindR_eq_Inr)
  have "map_of d k = None"
    using Cons.prems(3) kv by (simp add: dkeys_def map_of_eq_None_iff)
  then show ?case
    using Cons.IH [OF f Cons.prems(2)] Cons.prems(3) mapping_item_other_key [OF s Cons.prems(2)] kv
    by (auto simp: dkeys_def split: option.splits)
qed simp

lemma mapping_directive_lookup:
  assumes "resolve_mapping_directive parent (PDict ((''inherit'', PBool True) # d)) field = Inr r"
    and "q \<notin> {''conditions'', ''descriptions'', ''inherit'', ''add'', ''remove''}"
    and "distinct (dkeys ((''inherit'', PBool True) # d))"
  shows "dget r q = (if q \<in> dom (map_of d) then dget d q else dget parent q)"
proof -
  have "inherits ((''inherit'', PBool True) # d)" by (simp add: inherits_def)
  then have "foldR (mapping_item field) parent ((''inherit'', PBool True) # d) = Inr r"
    using resolve_mapping_PDict [OF assms(1)] by simp
  from mapping_fold_other_key [OF this assms(2,3)]
  show ?thesis using assms(2) by (auto simp: dget_def split: option.splits)
qed

end
