(* ===== verification/Ceilings.thy ===== *)
theory Ceilings
  imports Directives Permission_Registry
begin

section \<open>Ceilings: what a deployment or an importer may not loosen\<close>

text \<open>
  The validators of \<open>harness/loader.py\<close>.  Each takes the ceil and the value held to it and
  either passes or raises; a \<open>DefinitionError\<close> carries the name of the invariant.  The wording
  arguments (\<open>who\<close>, \<open>against\<close>, \<open>rule\<close>) only phrase messages and are left out.
\<close>

subsection \<open>Tools, permissions and autonomy\<close>

definition validate_tools :: "raw_definition \<Rightarrow> raw_definition \<Rightarrow> unit res" where
  "validate_tools parent ov =
     guardR (set (tools ov) \<subseteq> set (tools parent)) (DefinitionError ''tools'')"

definition validate_command_tools :: "raw_definition \<Rightarrow> raw_definition \<Rightarrow> unit res" where
  "validate_command_tools parent ov =
     guardR (set (command_tools ov) \<subseteq> set (command_tools parent)) (DefinitionError ''command_tools'')"

fun list_or_empty :: "pyval \<Rightarrow> pyval list" where
  "list_or_empty (PList vs) = vs"
| "list_or_empty _ = []"

definition validate_permissions :: "raw_definition \<Rightarrow> pyval list \<Rightarrow> unit res" where
  "validate_permissions parent resolved_perms =
     (let parent_perms = list_or_empty (permissions parent) in
      bindR (guardR (list_all hashable (parent_perms @ resolved_perms)) (TypeErr ''unhashable'')) (\<lambda>_.
        guardR (set resolved_perms \<subseteq> set parent_perms) (DefinitionError ''permissions'')))"

definition autonomy_rank :: "string \<Rightarrow> nat option" where
  "autonomy_rank level = map_of AUTONOMY_RANK level"

definition validate_autonomy :: "string \<Rightarrow> string \<Rightarrow> unit res" where
  "validate_autonomy ceil level =
     (if level = [] then Inr ()
      else case autonomy_rank ceil of
        None \<Rightarrow> Inl (DefinitionError ''autonomy'')
      | Some c \<Rightarrow>
          (case autonomy_rank level of
             None \<Rightarrow> Inl (DefinitionError ''autonomy'')
           | Some l \<Rightarrow> guardR (l \<le> c) (DefinitionError ''autonomy'')))"

subsection \<open>Untrusted input\<close>

definition validate_untrusted_input_monotonic :: "raw_definition \<Rightarrow> raw_definition \<Rightarrow> unit res" where
  "validate_untrusted_input_monotonic parent child =
     (case untrusted_input child of
        None \<Rightarrow> Inr ()
      | Some c \<Rightarrow>
          guardR (\<not> (untrusted_input parent = Some True \<and> \<not> c)) (DefinitionError ''untrusted_input''))"

fun is_str :: "pyval \<Rightarrow> bool" where
  "is_str (PStr _) = True"
| "is_str _ = False"

fun str_of :: "pyval \<Rightarrow> string" where
  "str_of (PStr s) = s"
| "str_of _ = []"

definition check_not_T3 :: "registry \<Rightarrow> string \<Rightarrow> unit res" where
  "check_not_T3 reg name =
     bindR (resolve_perm reg name) (\<lambda>cls.
       guardR (class_tier cls \<noteq> Some T3) (UntrustedInputGrantError name))"

text \<open>
  \<open>sorted\<close> refuses a list of values that do not compare with each other.  A number, or a value
  alone, is sorted and then is no registered permission, unless it cannot be hashed.
\<close>

definition validate_untrusted_input_exec :: "registry \<Rightarrow> bool \<Rightarrow> pyval list \<Rightarrow> unit res" where
  "validate_untrusted_input_exec reg untrusted perms =
     (if \<not> untrusted then Inr ()
      else if list_all is_str perms then eachR (check_not_T3 reg) (sort (map str_of perms))
      else if list_all is_number perms \<or> (length perms = 1 \<and> hashable (hd perms))
      then Inl UnknownPermissionNameError
      else Inl (TypeErr ''sorted''))"

subsection \<open>Execution limits\<close>

text \<open>The value a limit has under the defaults: a missing or null one is the default.\<close>

definition limit_of :: "dict \<Rightarrow> dict \<Rightarrow> string \<Rightarrow> pyval" where
  "limit_of defaults limits key =
     (if dget limits key = PNone then dget defaults key else dget limits key)"

definition validate_limit :: "dict \<Rightarrow> dict \<Rightarrow> string \<times> pyval \<Rightarrow> unit res" where
  "validate_limit defaults baseline kv =
     (case kv of (key, override_value) \<Rightarrow>
        let baseline_value = limit_of defaults baseline key;
            v = (if override_value = PNone then dget defaults key else override_value)
        in if baseline_value = PNone then Inr ()
           else if is_bool v \<or> \<not> is_number v then Inl (DefinitionError ''execution_limits'')
           else if \<not> is_finite_num v \<or> py_lt v (PInt 0) then Inl (DefinitionError ''execution_limits'')
           else if \<not> is_number baseline_value then Inl (TypeErr ''<='')
           else guardR (py_le v baseline_value) (DefinitionError ''execution_limits''))"

definition validate_limits :: "dict \<Rightarrow> dict \<Rightarrow> dict \<Rightarrow> unit res" where
  "validate_limits baseline override_limits defaults =
     eachR (validate_limit defaults baseline) override_limits"

subsection \<open>Model configuration\<close>

definition SUPPORTED_MODEL_PROVIDERS :: "string list" where
  "SUPPORTED_MODEL_PROVIDERS = [''ollama'', ''groq'', ''anthropic'', ''openai_compatible'']"

definition MODEL_CONFIG_KEYS :: "string list" where
  "MODEL_CONFIG_KEYS = [''provider'', ''model'', ''temperature'', ''max_tokens'']"

definition MAX_MODEL_TEMPERATURE :: rat where "MAX_MODEL_TEMPERATURE = 2"
definition MAX_MODEL_MAX_TOKENS :: int where "MAX_MODEL_MAX_TOKENS = 1000000"

definition check_temperature :: "pyval \<Rightarrow> unit res" where
  "check_temperature t =
     (if is_bool t \<or> \<not> is_number t then Inl (DefinitionError ''model'')
      else bindR (math_isfinite t) (\<lambda>fin.
        guardR (fin \<and> 0 \<le> num_val t \<and> num_val t \<le> MAX_MODEL_TEMPERATURE) (DefinitionError ''model'')))"

fun check_max_tokens :: "pyval \<Rightarrow> unit res" where
  "check_max_tokens (PInt i) =
     guardR (0 < i \<and> i \<le> MAX_MODEL_MAX_TOKENS) (DefinitionError ''model'')"
| "check_max_tokens _ = Inl (DefinitionError ''model'')"

definition validate_model_config :: "dict \<Rightarrow> unit res" where
  "validate_model_config m =
     bindR (guardR (set (dkeys m) \<subseteq> set MODEL_CONFIG_KEYS) (DefinitionError ''model'')) (\<lambda>_.
     bindR (guardR (hashable (dget m ''provider'')) (TypeErr ''unhashable'')) (\<lambda>_.
     bindR (guardR (dget m ''provider'' \<in> PStr ` set SUPPORTED_MODEL_PROVIDERS) (DefinitionError ''model'')) (\<lambda>_.
     bindR (guardR (is_str (dget m ''model'') \<and> strip (str_of (dget m ''model'')) \<noteq> []) (DefinitionError ''model'')) (\<lambda>_.
     bindR (case map_of m ''temperature'' of None \<Rightarrow> Inr () | Some t \<Rightarrow> check_temperature t) (\<lambda>_.
       case map_of m ''max_tokens'' of None \<Rightarrow> Inr () | Some t \<Rightarrow> check_max_tokens t)))))"

fun resolve_model_declaration :: "pyval \<Rightarrow> dict option res" where
  "resolve_model_declaration PNone = Inr None"
| "resolve_model_declaration (PDict m) = bindR (validate_model_config m) (\<lambda>_. Inr (Some m))"
| "resolve_model_declaration (PStr s) =
     (if s = ''inherit'' then Inr None else Inl (DefinitionError ''model''))"
| "resolve_model_declaration _ = Inl (DefinitionError ''model'')"

subsection \<open>Audit redaction\<close>

definition captures_input :: "dict \<Rightarrow> bool" where
  "captures_input policy = py_truthy (dget policy ''capture_tool_input'')"

definition redacted_keys :: "dict \<Rightarrow> string set" where
  "redacted_keys policy = set (as_str_list (dget policy ''redact_keys''))"

definition validate_audit_redaction :: "dict \<Rightarrow> dict \<Rightarrow> unit res" where
  "validate_audit_redaction ceil effective =
     bindR (guardR (\<not> (captures_input effective \<and> \<not> captures_input ceil)) (DefinitionError ''audit_policy'')) (\<lambda>_.
     bindR (case map_of effective ''redact_keys'' of
              None \<Rightarrow> Inr []
            | Some (PList vs) \<Rightarrow> if list_all is_str vs then Inr vs else Inl (DefinitionError ''audit_policy'')
            | Some _ \<Rightarrow> Inl (DefinitionError ''audit_policy'')) (\<lambda>ks.
       guardR (redacted_keys ceil \<subseteq> set (map str_of ks)) (DefinitionError ''audit_policy'')))"

subsection \<open>Escalation\<close>

definition condition_name :: "string \<Rightarrow> string" where
  "condition_name v = collapse_ws v"

definition condition_names :: "dict \<Rightarrow> string set" where
  "condition_names rules = condition_name ` set (as_str_list (dget rules ''conditions''))"

definition validate_escalation_kept :: "dict \<Rightarrow> dict \<Rightarrow> unit res" where
  "validate_escalation_kept ceil resolved =
     guardR (condition_names ceil \<subseteq> condition_names resolved) (DefinitionError ''escalation_rules'')"

definition wording_of :: "dict \<Rightarrow> (string \<times> string) list" where
  "wording_of rules =
     map (\<lambda>(k, t). (condition_name k, collapse_ws (py_str t))) (descriptions_of rules)"

text \<open>\<open>str(value or "").strip()\<close>\<close>

definition text_or_empty :: "pyval \<Rightarrow> string" where
  "text_or_empty v = strip (if py_truthy v then py_str v else [])"

definition escalate_to :: "dict \<Rightarrow> string" where
  "escalate_to rules = text_or_empty (dget rules ''escalate_to'')"

definition validate_escalation_wording :: "dict \<Rightarrow> dict \<Rightarrow> dict \<Rightarrow> unit res" where
  "validate_escalation_wording parent declared resolved =
     bindR (guardR (distinct (map fst (wording_of parent))) (DefinitionError ''escalation_rules.descriptions'')) (\<lambda>_.
     bindR (eachR (\<lambda>(name, t).
              guardR (\<not> (condition_name name \<in> condition_names parent
                          \<and> map_of (wording_of parent) (condition_name name) \<noteq> Some (collapse_ws (py_str t))))
                (DefinitionError ''escalation_rules'')) (descriptions_of declared)) (\<lambda>_.
       guardR (\<not> (escalate_to parent \<noteq> [] \<and> escalate_to resolved \<noteq> escalate_to parent))
         (DefinitionError ''escalation_rules'')))"

subsection \<open>The importer ceiling\<close>

definition dict_or_empty :: "pyval \<Rightarrow> dict" where
  "dict_or_empty v = dict_of v"

fun merged_with :: "dict \<Rightarrow> pyval \<Rightarrow> dict res" where
  "merged_with a (PDict b) = Inr (dmerge a b)"
| "merged_with a _ = Inl (TypeErr ''not a mapping'')"

definition ceiling_autonomy :: "raw_definition option \<Rightarrow> string" where
  "ceiling_autonomy parent =
     (case parent of
        None \<Rightarrow> DEFAULT_AUTONOMY
      | Some p \<Rightarrow> if autonomy p = [] then DEFAULT_AUTONOMY else autonomy p)"

definition ceiling_limits :: "raw_definition option \<Rightarrow> dict" where
  "ceiling_limits parent =
     (case parent of None \<Rightarrow> [] | Some p \<Rightarrow> dict_of (execution_limits p))"

definition ceiling_audit :: "raw_definition option \<Rightarrow> dict" where
  "ceiling_audit parent = (case parent of None \<Rightarrow> [] | Some p \<Rightarrow> dict_of (audit_policy p))"

definition add_parent_conditions :: "dict \<Rightarrow> dict \<Rightarrow> dict" where
  "add_parent_conditions parent_rules rules =
     dset rules ''conditions''
       (PList (map PStr (add_missing (as_str_list (dget parent_rules ''conditions''))
                                     (as_str_list (dget rules ''conditions'')))))"

definition importer_escalation :: "raw_definition option \<Rightarrow> raw_definition \<Rightarrow> raw_definition res" where
  "importer_escalation parent child =
     (case (parent, escalation_rules child) of
        (Some p, PDict rules) \<Rightarrow>
          (let parent_rules = dict_of (escalation_rules p) in
           bindR (validate_escalation_wording parent_rules rules (dmerge parent_rules rules)) (\<lambda>_.
             if ''conditions'' \<notin> set (dkeys rules) then Inr child
             else Inr (child\<lparr>escalation_rules := PDict (add_parent_conditions parent_rules rules)\<rparr>)))
      | _ \<Rightarrow> Inr child)"

definition apply_importer_ceiling ::
  "raw_definition option \<Rightarrow> raw_definition \<Rightarrow> dict \<Rightarrow> raw_definition res" where
  "apply_importer_ceiling parent child limit_defaults =
     bindR (merged_with (ceiling_audit parent) (audit_policy child)) (\<lambda>effective_audit.
     bindR (validate_audit_redaction (ceiling_audit parent) effective_audit) (\<lambda>_.
     bindR (validate_autonomy (ceiling_autonomy parent) (autonomy child)) (\<lambda>_.
     bindR (case execution_limits child of
              PDict l \<Rightarrow> validate_limits (ceiling_limits parent) l limit_defaults
            | _ \<Rightarrow> Inr ()) (\<lambda>_.
       importer_escalation parent child))))"

subsection \<open>The safety order\<close>

text \<open>
  A limit that replaces another: the same value, a number not above it, or anything where there
  was no limit at all.
\<close>

definition limit_le :: "pyval \<Rightarrow> pyval \<Rightarrow> bool" where
  "limit_le b v \<longleftrightarrow> v = b \<or> b = PNone \<or> is_number v \<and> py_le v b"

lemma limit_le_refl [simp]: "limit_le b b"
  by (simp add: limit_le_def)

lemma limit_le_trans: "limit_le a b \<Longrightarrow> limit_le b c \<Longrightarrow> limit_le a c"
  by (auto simp: limit_le_def intro: py_le_trans)

definition limits_tighter :: "dict \<Rightarrow> dict \<Rightarrow> dict \<Rightarrow> bool" where
  "limits_tighter defaults a b \<longleftrightarrow> (\<forall>k. limit_le (limit_of defaults a k) (limit_of defaults b k))"

lemma limits_tighter_refl [simp]: "limits_tighter defaults a a"
  by (simp add: limits_tighter_def)

lemma limits_tighter_trans:
  "limits_tighter d a b \<Longrightarrow> limits_tighter d b c \<Longrightarrow> limits_tighter d a c"
  unfolding limits_tighter_def using limit_le_trans by blast

lemma validate_limit_ok:
  assumes "validate_limit defaults baseline (k, v) = Inr ()"
  shows "limit_le (limit_of defaults baseline k) (if v = PNone then dget defaults k else v)"
  using assms
  by (auto simp: validate_limit_def Let_def limit_le_def guardR_eq_Inr split: if_splits)

lemma validate_limits_tighter:
  assumes "validate_limits baseline limits defaults = Inr ()"
  shows "limits_tighter defaults baseline (dmerge baseline limits)"
  unfolding limits_tighter_def
proof
  fix k
  show "limit_le (limit_of defaults baseline k) (limit_of defaults (dmerge baseline limits) k)"
  proof (cases "map_of limits k")
    case None
    then have "dget (dmerge baseline limits) k = dget baseline k"
      by (auto simp: dget_dmerge)
    then show ?thesis by (simp add: limit_of_def)
  next
    case (Some v)
    then have "validate_limit defaults baseline (k, v) = Inr ()"
      using assms by (auto simp: validate_limits_def eachR_eq_Inr dest: map_of_SomeD)
    moreover have "dget (dmerge baseline limits) k = v"
      using Some by (auto simp: dget_dmerge dget_def)
    ultimately show ?thesis
      using validate_limit_ok by (fastforce simp: limit_of_def)
  qed
qed

definition rank_le :: "string \<Rightarrow> string \<Rightarrow> bool" where
  "rank_le a b \<longleftrightarrow>
     a = b \<or> (\<exists>i j. autonomy_rank a = Some i \<and> autonomy_rank b = Some j \<and> i \<le> j)"

lemma rank_le_trans: "rank_le a b \<Longrightarrow> rank_le b c \<Longrightarrow> rank_le a c"
  by (auto simp: rank_le_def)

lemma validate_autonomy_ok:
  "validate_autonomy c l = Inr () \<longleftrightarrow> l = [] \<or>
     (\<exists>i j. autonomy_rank l = Some i \<and> autonomy_rank c = Some j \<and> i \<le> j)"
  by (auto simp: validate_autonomy_def guardR_eq_Inr split: option.splits)

definition effective_autonomy :: "raw_definition \<Rightarrow> string" where
  "effective_autonomy d = (if autonomy d = [] then DEFAULT_AUTONOMY else autonomy d)"

text \<open>What every composition step keeps, whoever wrote the child.\<close>

definition keeps_safety :: "raw_definition \<Rightarrow> raw_definition \<Rightarrow> bool" where
  "keeps_safety p r \<longleftrightarrow>
     (untrusted_input p = Some True \<longrightarrow> untrusted_input r = Some True)
     \<and> condition_names (dict_of (escalation_rules p)) \<subseteq> condition_names (dict_of (escalation_rules r))
     \<and> (captures_input (dict_of (audit_policy r)) \<longrightarrow> captures_input (dict_of (audit_policy p)))
     \<and> redacted_keys (dict_of (audit_policy p)) \<subseteq> redacted_keys (dict_of (audit_policy r))"

text \<open>What an importer's or a deployment's step keeps as well.\<close>

definition no_looser :: "dict \<Rightarrow> raw_definition \<Rightarrow> raw_definition \<Rightarrow> bool" where
  "no_looser defaults p r \<longleftrightarrow>
     keeps_safety p r
     \<and> rank_le (effective_autonomy r) (effective_autonomy p)
     \<and> limits_tighter defaults (dict_of (execution_limits p)) (dict_of (execution_limits r))
     \<and> (escalate_to (dict_of (escalation_rules p)) \<noteq> []
          \<longrightarrow> escalate_to (dict_of (escalation_rules r)) = escalate_to (dict_of (escalation_rules p)))"

text \<open>
  A composition order as an interface: steps that respect it compose along a whole inheritance
  chain, folded from its root.
\<close>

locale composition_order =
  fixes tighter :: "'d \<Rightarrow> 'd \<Rightarrow> bool"
  assumes tighter_refl: "tighter d d"
    and tighter_trans: "tighter a b \<Longrightarrow> tighter b c \<Longrightarrow> tighter a c"
begin

lemma fold_tighter:
  assumes "foldR step s xs = Inr t"
    and "\<And>s x s'. x \<in> set xs \<Longrightarrow> step s x = Inr s' \<Longrightarrow> tighter s s'"
  shows "tighter s t"
  using assms
proof (induction xs arbitrary: s)
  case Nil
  then show ?case using tighter_refl by simp
next
  case (Cons x xs)
  obtain s' where "step s x = Inr s'" "foldR step s' xs = Inr t"
    using Cons.prems(1) by (auto simp: bindR_eq_Inr)
  then show ?case
    using Cons.IH [of s'] Cons.prems(2) [of x s s'] Cons.prems(2) tighter_trans by fastforce
qed

end

interpretation safety: composition_order keeps_safety
  by unfold_locales (auto simp: keeps_safety_def)

interpretation strictness: composition_order "no_looser defaults"
proof unfold_locales
  fix d show "no_looser defaults d d" by (auto simp: no_looser_def keeps_safety_def rank_le_def)
next
  fix a b c assume "no_looser defaults a b" "no_looser defaults b c"
  then show "no_looser defaults a c"
    using safety.tighter_trans [of a b c] rank_le_trans limits_tighter_trans
    by (auto simp: no_looser_def)
qed

lemma validate_audit_ok:
  assumes "validate_audit_redaction ceil effective = Inr ()"
  shows "(captures_input effective \<longrightarrow> captures_input ceil) \<and> redacted_keys ceil \<subseteq> redacted_keys effective"
proof -
  have strs: "list_all is_str vs \<Longrightarrow> set (map str_of vs) = set (map py_str vs)" for vs
    by (induction vs) (auto elim: is_str.elims)
  show ?thesis
    using assms strs
    by (auto simp: validate_audit_redaction_def success redacted_keys_def dget_def
        split: option.splits pyval.splits if_splits)
qed

subsection \<open>Properties\<close>

definition temperature_ok :: "pyval \<Rightarrow> bool" where
  "temperature_ok t \<longleftrightarrow> is_number t \<and> is_finite_num t \<and> \<not> is_bool t \<and> 0 \<le> num_val t \<and> num_val t \<le> 2"

definition max_tokens_ok :: "pyval \<Rightarrow> bool" where
  "max_tokens_ok t \<longleftrightarrow> (\<exists>i. t = PInt i \<and> 0 < i \<and> i \<le> 1000000)"

lemma check_temperature_ok: "check_temperature t = Inr () \<longleftrightarrow> temperature_ok t"
proof (cases t)
  case (PInt i)
  have "\<not> (2 ^ 1024 - 2 ^ 970 \<le> \<bar>i\<bar>)" if "i \<le> 2" "0 \<le> i"
  proof -
    have "(2::int) < 2 ^ 1024 - 2 ^ 970" by simp
    then show ?thesis using that by linarith
  qed
  then show ?thesis using PInt
    by (auto simp: check_temperature_def temperature_ok_def success MAX_MODEL_TEMPERATURE_def)
qed (auto simp: check_temperature_def temperature_ok_def success MAX_MODEL_TEMPERATURE_def)

lemma check_max_tokens_ok: "check_max_tokens t = Inr () \<longleftrightarrow> max_tokens_ok t"
  by (cases t) (auto simp: max_tokens_ok_def success MAX_MODEL_MAX_TOKENS_def)

text \<open>
  A \<open>model:\<close> declaration is accepted, unchanged, exactly when it is absent or \<open>inherit\<close>, or a
  mapping with known keys, a supported provider, a non-blank model name, a temperature that is a
  finite number between 0 and 2 (no \<open>bool\<close>) and a positive token bound of at most a million.
\<close>

theorem model_declaration_accepted_iff:
  "resolve_model_declaration v = Inr r \<longleftrightarrow>
     (v = PNone \<or> v = PStr ''inherit'') \<and> r = None
     \<or> (\<exists>m. v = PDict m \<and> r = Some m \<and> set (dkeys m) \<subseteq> set MODEL_CONFIG_KEYS
          \<and> dget m ''provider'' \<in> PStr ` set SUPPORTED_MODEL_PROVIDERS
          \<and> (\<exists>s. dget m ''model'' = PStr s \<and> strip s \<noteq> [])
          \<and> (\<forall>t. map_of m ''temperature'' = Some t \<longrightarrow> temperature_ok t)
          \<and> (\<forall>t. map_of m ''max_tokens'' = Some t \<longrightarrow> max_tokens_ok t))"
proof (cases v)
  case (PDict m)
  have model: "is_str x \<and> strip (str_of x) \<noteq> [] \<longleftrightarrow> (\<exists>s. x = PStr s \<and> strip s \<noteq> [])" for x
    by (cases x) auto
  have hash: "x \<in> PStr ` A \<Longrightarrow> hashable x" for x A by auto
  show ?thesis using PDict hash
    by (auto simp: validate_model_config_def success model check_temperature_ok check_max_tokens_ok
        split: option.splits)
qed auto

theorem model_declaration_accepted_iff_witness:
  "resolve_model_declaration (PDict [(''provider'', PStr ''groq''), (''model'', PStr ''m''), (''max_tokens'', PInt 10)])
     = Inr (Some [(''provider'', PStr ''groq''), (''model'', PStr ''m''), (''max_tokens'', PInt 10)])"
  unfolding model_declaration_accepted_iff
  by (simp add: dkeys_def MODEL_CONFIG_KEYS_def SUPPORTED_MODEL_PROVIDERS_def dget_def max_tokens_ok_def
      strip_eq_Nil is_space_def)

text \<open>
  The gap: a temperature that is a huge integer is not refused with a \<open>DefinitionError\<close> that
  names the model declaration; the check itself fails on converting it to a float.
\<close>

theorem huge_temperature_escapes:
  assumes "2 ^ 1024 \<le> i"
  shows "resolve_model_declaration
       (PDict [(''provider'', PStr ''groq''), (''model'', PStr ''m''), (''temperature'', PInt i)])
     = Inl (RuntimeErr ''OverflowError'')"
proof -
  have "2 ^ 1024 - 2 ^ 970 \<le> \<bar>i\<bar>" using assms by simp
  then have "check_temperature (PInt i) = Inl (RuntimeErr ''OverflowError'')"
    by (simp add: check_temperature_def)
  then show ?thesis
    by (simp add: validate_model_config_def dkeys_def MODEL_CONFIG_KEYS_def SUPPORTED_MODEL_PROVIDERS_def
        dget_def strip_eq_Nil is_space_def)
qed

theorem huge_temperature_escapes_witness:
  "resolve_model_declaration
       (PDict [(''provider'', PStr ''groq''), (''model'', PStr ''m''), (''temperature'', PInt (2 ^ 1024))])
     = Inl (RuntimeErr ''OverflowError'')"
  by (rule huge_temperature_escapes) simp

end
