(* ===== verification/Fold.thy ===== *)
theory Fold
  imports Ceilings Definition_Text
begin

section \<open>Composing a parent role into its child\<close>

text \<open>
  \<open>_fold_parent_into_child\<close> and \<open>_resolve_chain_root\<close> of \<open>harness/loader.py\<close>, and the fold of a
  whole chain from its root.  Composition adds capability; what it may not lose is the safety
  order of the ceilings: for every child the weaker order, for an importer's child the full one.
\<close>

subsection \<open>The parts of one fold\<close>

definition fold_untrusted :: "raw_definition \<Rightarrow> raw_definition \<Rightarrow> bool option" where
  "fold_untrusted parent child =
     (if untrusted_input child \<noteq> None then untrusted_input child else untrusted_input parent)"

definition fold_permissions :: "raw_definition \<Rightarrow> raw_definition \<Rightarrow> pyval list res" where
  "fold_permissions parent child =
     (let parent_perms = list_or_empty (permissions parent);
          child_perms = (case permissions child of
             PStr s \<Rightarrow> if s = ''inherit'' then PStr s else PList [PStr s]
           | v \<Rightarrow> v)
      in case child_perms of
           PList vs \<Rightarrow> Inr (add_missing parent_perms vs)
         | v \<Rightarrow> resolve_list_directive parent_perms v ''permissions'')"

fun fold_limits :: "pyval \<Rightarrow> pyval \<Rightarrow> pyval" where
  "fold_limits parent_limits (PDict child_limits) = PDict (dmerge (dict_of parent_limits) child_limits)"
| "fold_limits (PDict parent_limits) _ = PDict parent_limits"
| "fold_limits _ _ = PNone"

definition fold_model :: "pyval \<Rightarrow> pyval \<Rightarrow> pyval res" where
  "fold_model parent_model child_model =
     (let inherited = (if is_dict parent_model then parent_model else PNone)
      in case child_model of
           PDict m \<Rightarrow> Inr (PDict (dmerge (dict_of parent_model) m))
         | PNone \<Rightarrow> Inr inherited
         | PStr s \<Rightarrow> if s = ''inherit'' then Inr inherited else Inl (DefinitionError ''model'')
         | _ \<Rightarrow> Inl (DefinitionError ''model''))"

definition fold_policy :: "string \<Rightarrow> pyval \<Rightarrow> pyval \<Rightarrow> dict res" where
  "fold_policy field parent_value child_value =
     bindR (check_mapping_directive child_value field) (\<lambda>_.
       resolve_mapping_directive (dict_of parent_value)
         (case child_value of
            PDict d \<Rightarrow> PDict (dset d ''inherit'' (PBool True))
          | v \<Rightarrow> v) field)"

definition fold_declarations ::
  "(string \<times> command_tool_declaration) list \<Rightarrow> (string \<times> command_tool_declaration) list
   \<Rightarrow> (string \<times> command_tool_declaration) list res" where
  "fold_declarations parent_decls child_decls =
     bindR (guardR (set (dkeys parent_decls) \<inter> set (dkeys child_decls) = {}) (DefinitionError ''command_tools''))
       (\<lambda>_. Inr (dmerge parent_decls child_decls))"

definition fold_parent_into_child :: "raw_definition \<Rightarrow> raw_definition \<Rightarrow> raw_definition res" where
  "fold_parent_into_child parent child =
     bindR (validate_untrusted_input_monotonic parent child) (\<lambda>_.
     bindR (fold_permissions parent child) (\<lambda>resolved_perms.
     bindR (fold_model (model_decl parent) (model_decl child)) (\<lambda>resolved_model.
     bindR (fold_policy ''escalation_rules'' (escalation_rules parent) (escalation_rules child)) (\<lambda>resolved_escalation.
     bindR (fold_policy ''audit_policy'' (audit_policy parent) (audit_policy child)) (\<lambda>resolved_audit.
     bindR (validate_escalation_kept (dict_of (escalation_rules parent)) resolved_escalation) (\<lambda>_.
     bindR (validate_audit_redaction (dict_of (audit_policy parent)) resolved_audit) (\<lambda>_.
     bindR (fold_declarations (command_tool_declarations parent) (command_tool_declarations child)) (\<lambda>decls.
     bindR (fold_policy ''delegation_policy'' (delegation_policy parent) (delegation_policy child)) (\<lambda>delegation.
     bindR (fold_policy ''memory_policy'' (memory_policy_decl parent) (memory_policy_decl child)) (\<lambda>memory.
       Inr \<lparr>role_name = role_name child,
            version = version child,
            deployment = None,
            system_prompt = join_prompts [system_prompt parent, system_prompt child],
            tools = add_missing (tools parent) (tools child),
            skills = add_missing (skills parent) (skills child),
            ctx = dmerge (ctx parent) (ctx child),
            permissions = PList resolved_perms,
            autonomy = (if autonomy child \<noteq> [] then autonomy child else autonomy parent),
            escalation_rules = PDict resolved_escalation,
            delegation_policy = PDict delegation,
            memory_policy_decl = PDict memory,
            audit_policy = PDict resolved_audit,
            execution_limits = fold_limits (execution_limits parent) (execution_limits child),
            untrusted_input = fold_untrusted parent child,
            command_tools = add_missing (command_tools parent) (command_tools child),
            command_tool_declarations = decls,
            skills_folder = skills_folder child,
            inline_skills = inline_skills child,
            importer_root = importer_root child,
            model_decl = resolved_model\<rparr>))))))))))"

subsection \<open>A chain\<close>

definition resolve_chain_root :: "raw_definition \<Rightarrow> raw_definition res" where
  "resolve_chain_root rt =
     bindR (resolve_mapping_directive [] (escalation_rules rt) ''escalation_rules'') (\<lambda>escalation.
     bindR (resolve_mapping_directive [] (delegation_policy rt) ''delegation_policy'') (\<lambda>delegation.
     bindR (resolve_mapping_directive [] (memory_policy_decl rt) ''memory_policy'') (\<lambda>memory.
     bindR (resolve_mapping_directive [] (audit_policy rt) ''audit_policy'') (\<lambda>audit.
     bindR (resolve_list_directive [] (permissions rt) ''permissions'') (\<lambda>perms.
       Inr (rt\<lparr>escalation_rules := PDict escalation, delegation_policy := PDict delegation,
                 memory_policy_decl := PDict memory, audit_policy := PDict audit,
                 permissions := PList perms\<rparr>))))))"

text \<open>One step of the fold: the child, and whether an importer wrote it.\<close>

definition fold_step :: "dict \<Rightarrow> raw_definition \<Rightarrow> raw_definition \<times> bool \<Rightarrow> raw_definition res" where
  "fold_step limit_defaults resolved entry =
     (case entry of (child, child_is_importer_authored) \<Rightarrow>
        bindR (if child_is_importer_authored
               then apply_importer_ceiling (Some resolved) child limit_defaults
               else Inr child) (\<lambda>c.
          fold_parent_into_child resolved c))"

definition resolve_root :: "dict \<Rightarrow> raw_definition \<times> bool \<Rightarrow> raw_definition res" where
  "resolve_root limit_defaults entry =
     (case entry of (rt, root_is_importer_authored) \<Rightarrow>
        bindR (resolve_chain_root rt) (\<lambda>r.
          if root_is_importer_authored then apply_importer_ceiling None r limit_defaults else Inr r))"

text \<open>The chain is leaf first.\<close>

definition fold_chain :: "dict \<Rightarrow> (raw_definition \<times> bool) list \<Rightarrow> raw_definition res" where
  "fold_chain limit_defaults chain =
     bindR (resolve_root limit_defaults (last chain)) (\<lambda>rt.
       foldR (fold_step limit_defaults) rt (rev (butlast chain)))"

subsection \<open>What a fold keeps\<close>

lemma fold_fields:
  assumes "fold_parent_into_child p c = Inr r"
  shows "untrusted_input r = fold_untrusted p c
    \<and> autonomy r = (if autonomy c \<noteq> [] then autonomy c else autonomy p)
    \<and> execution_limits r = fold_limits (execution_limits p) (execution_limits c)
    \<and> tools r = add_missing (tools p) (tools c)
    \<and> skills r = add_missing (skills p) (skills c)
    \<and> validate_untrusted_input_monotonic p c = Inr ()
    \<and> (\<exists>e a. escalation_rules r = PDict e \<and> audit_policy r = PDict a
         \<and> fold_policy ''escalation_rules'' (escalation_rules p) (escalation_rules c) = Inr e
         \<and> fold_policy ''audit_policy'' (audit_policy p) (audit_policy c) = Inr a
         \<and> validate_escalation_kept (dict_of (escalation_rules p)) e = Inr ()
         \<and> validate_audit_redaction (dict_of (audit_policy p)) a = Inr ())
    \<and> (\<exists>perms. permissions r = PList perms \<and> fold_permissions p c = Inr perms)
    \<and> system_prompt r = join_prompts [system_prompt p, system_prompt c]"
  using assms by (auto simp: fold_parent_into_child_def bindR_eq_Inr)

lemma fold_keeps_safety:
  assumes "fold_parent_into_child p c = Inr r"
  shows "keeps_safety p r"
proof -
  note f = fold_fields [OF assms]
  from f obtain e a where e: "escalation_rules r = PDict e" and a: "audit_policy r = PDict a"
    and ke: "validate_escalation_kept (dict_of (escalation_rules p)) e = Inr ()"
    and ka: "validate_audit_redaction (dict_of (audit_policy p)) a = Inr ()" by blast
  have "untrusted_input p = Some True \<longrightarrow> untrusted_input r = Some True"
    using f by (auto simp: fold_untrusted_def validate_untrusted_input_monotonic_def guardR_eq_Inr
        split: option.splits)
  moreover have "condition_names (dict_of (escalation_rules p)) \<subseteq> condition_names e"
    using ke by (simp add: validate_escalation_kept_def guardR_eq_Inr)
  ultimately show ?thesis
    using validate_audit_ok [OF ka] e a by (simp add: keeps_safety_def)
qed

text \<open>What the importer ceiling leaves of a child, field by field.\<close>

lemma importer_ceiling_fields:
  assumes "apply_importer_ceiling parent c ld = Inr c'"
  shows "autonomy c' = autonomy c \<and> execution_limits c' = execution_limits c
    \<and> audit_policy c' = audit_policy c \<and> untrusted_input c' = untrusted_input c
    \<and> tools c' = tools c \<and> permissions c' = permissions c
    \<and> validate_autonomy (ceiling_autonomy parent) (autonomy c) = Inr ()
    \<and> (\<forall>l. execution_limits c = PDict l \<longrightarrow> validate_limits (ceiling_limits parent) l ld = Inr ())
    \<and> (\<exists>l. audit_policy c = PDict l)"
proof -
  have "importer_escalation parent c = Inr c' \<Longrightarrow> \<exists>e. c' = c\<lparr>escalation_rules := e\<rparr>"
    by (auto simp: importer_escalation_def bindR_eq_Inr Let_def split: option.splits pyval.splits if_splits)
      (metis raw_definition.surjective raw_definition.update_convs(10))+
  moreover have "merged_with a v = Inr m \<Longrightarrow> \<exists>l. v = PDict l" for a v m
    by (cases v) auto
  ultimately show ?thesis
    using assms by (auto simp: apply_importer_ceiling_def bindR_eq_Inr split: pyval.splits)
qed

definition distinct_rules :: "raw_definition \<Rightarrow> bool" where
  "distinct_rules d \<longleftrightarrow> distinct (dkeys (dict_of (escalation_rules d)))"

lemma importer_escalation_lookup:
  assumes "importer_escalation (Some p) c = Inr c'" and "escalation_rules c = PDict rules"
    and "distinct (dkeys rules)"
  shows "\<exists>rules'. escalation_rules c' = PDict rules' \<and> distinct (dkeys rules')
      \<and> dget rules' ''escalate_to'' = dget rules ''escalate_to''
      \<and> (''escalate_to'' \<in> dom (map_of rules') \<longleftrightarrow> ''escalate_to'' \<in> dom (map_of rules))
      \<and> (escalate_to (dict_of (escalation_rules p)) \<noteq> []
          \<longrightarrow> escalate_to (dmerge (dict_of (escalation_rules p)) rules) = escalate_to (dict_of (escalation_rules p)))"
  using assms
  by (auto simp: importer_escalation_def validate_escalation_wording_def add_parent_conditions_def
      dkeys_dset_distinct dget_def bindR_eq_Inr guardR_eq_Inr Let_def split: if_splits)

lemma fold_policy_lookup:
  assumes "fold_policy field pv (PDict d) = Inr r" and "distinct (dkeys d)"
    and "q \<notin> {''conditions'', ''descriptions'', ''inherit'', ''add'', ''remove''}"
  shows "dget r q = (if q \<in> dom (map_of d) then dget d q else dget (dict_of pv) q)"
proof -
  let ?d = "dset d ''inherit'' (PBool True)"
  have "inherits ?d" and ne: "?d \<noteq> []"
    by (auto simp: inherits_def) (metis dkeys_dset dkeys_def empty_iff insert_not_empty list.map(1) list.set(1))
  moreover have "resolve_mapping_directive (dict_of pv) (PDict ?d) field = Inr r"
    using assms(1) by (auto simp: fold_policy_def bindR_eq_Inr)
  ultimately have "foldR (mapping_item field) (dict_of pv) ?d = Inr r"
    using resolve_mapping_PDict by blast
  from mapping_fold_other_key [OF this assms(3) dkeys_dset_distinct [OF assms(2)]]
  show ?thesis using assms(3) by (auto simp: dget_def split: option.splits)
qed

lemma fold_limits_tighter:
  assumes "\<forall>l. cl = PDict l \<longrightarrow> validate_limits (dict_of pl) l ld = Inr ()"
  shows "limits_tighter ld (dict_of pl) (dict_of (fold_limits pl cl))"
proof (cases cl)
  case (PDict l)
  then show ?thesis using assms validate_limits_tighter [of "dict_of pl" l ld] by simp
qed (cases pl; simp)+

lemma importer_step_no_looser:
  assumes "apply_importer_ceiling (Some p) c ld = Inr c'" and "fold_parent_into_child p c' = Inr r"
    and "distinct_rules c"
  shows "no_looser ld p r"
proof -
  note ic = importer_ceiling_fields [OF assms(1)]
  note ff = fold_fields [OF assms(2)]
  have "rank_le (effective_autonomy r) (effective_autonomy p)"
  proof (cases "autonomy c = []")
    case True
    then show ?thesis using ic ff by (auto simp: effective_autonomy_def rank_le_def)
  next
    case False
    then show ?thesis using ic ff
      by (auto simp: effective_autonomy_def rank_le_def validate_autonomy_ok ceiling_autonomy_def)
  qed
  moreover have "limits_tighter ld (dict_of (execution_limits p)) (dict_of (execution_limits r))"
    using ic ff fold_limits_tighter [of "execution_limits c" "execution_limits p" ld]
    by (auto simp: ceiling_limits_def)
  moreover have "escalate_to (dict_of (escalation_rules r)) = escalate_to (dict_of (escalation_rules p))"
    if ne: "escalate_to (dict_of (escalation_rules p)) \<noteq> []"
  proof -
    have ie: "importer_escalation (Some p) c = Inr c'"
      using assms(1) by (auto simp: apply_importer_ceiling_def bindR_eq_Inr)
    obtain e where e: "escalation_rules r = PDict e"
      and fp: "fold_policy ''escalation_rules'' (escalation_rules p) (escalation_rules c') = Inr e"
      using ff by blast
    show ?thesis
    proof (cases "escalation_rules c")
      case (PDict rules)
      obtain rules' where r': "escalation_rules c' = PDict rules'" "distinct (dkeys rules')"
        "dget rules' ''escalate_to'' = dget rules ''escalate_to''"
        "''escalate_to'' \<in> dom (map_of rules') \<longleftrightarrow> ''escalate_to'' \<in> dom (map_of rules)"
        "escalate_to (dmerge (dict_of (escalation_rules p)) rules) = escalate_to (dict_of (escalation_rules p))"
        using importer_escalation_lookup [OF ie PDict] assms(3) PDict ne by (auto simp: distinct_rules_def)
      have "dget e ''escalate_to'' = dget (dmerge (dict_of (escalation_rules p)) rules) ''escalate_to''"
        using fold_policy_lookup [OF fp [unfolded r'(1)] r'(2), of "''escalate_to''"] r'(3,4)
        by (simp add: dget_dmerge)
      then show ?thesis using r'(5) e by (simp add: escalate_to_def)
    qed (use ie fp e in \<open>auto simp: importer_escalation_def fold_policy_def resolve_mapping_directive_def
        bindR_eq_Inr split: option.splits\<close>)
  qed
  ultimately show ?thesis
    using fold_keeps_safety [OF assms(2)] by (simp add: no_looser_def)
qed

lemma fold_step_safety: "fold_step ld s x = Inr s' \<Longrightarrow> keeps_safety s s'"
  using fold_keeps_safety by (auto simp: fold_step_def bindR_eq_Inr split: prod.splits)

lemma fold_step_importer:
  "fold_step ld s (c, True) = Inr s' \<Longrightarrow> distinct_rules c \<Longrightarrow> no_looser ld s s'"
  using importer_step_no_looser by (auto simp: fold_step_def bindR_eq_Inr)

subsection \<open>Properties of whole chains\<close>

lemma fold_chain_append:
  "ys \<noteq> [] \<Longrightarrow> fold_chain ld (xs @ ys) =
     bindR (fold_chain ld ys) (\<lambda>a. foldR (fold_step ld) a (rev xs))"
  by (simp add: fold_chain_def bindR_assoc foldR_append butlast_append)

lemma chain_prefix:
  assumes "fold_chain ld (xs @ ys) = Inr r" and "ys \<noteq> []"
  shows "\<exists>a. fold_chain ld ys = Inr a \<and> foldR (fold_step ld) a (rev xs) = Inr r"
  using assms by (auto simp: fold_chain_append bindR_eq_Inr)

lemma importers_no_looser:
  assumes "foldR (fold_step ld) a (map (\<lambda>c. (c, True)) cs) = Inr r" and "\<forall>c \<in> set cs. distinct_rules c"
  shows "no_looser ld a r"
  by (rule strictness.fold_tighter [OF assms(1)]) (use assms(2) fold_step_importer in auto)

definition quiet_role :: raw_definition where
  "quiet_role = \<lparr>role_name = ''base'', version = ''1.0'', deployment = None, system_prompt = ''Be kind.'',
     tools = [''clock''], skills = [], ctx = [], permissions = PList [PStr ''read:catalog''],
     autonomy = ''confirm'',
     escalation_rules = PDict [(''conditions'', PList [PStr ''angry'']), (''escalate_to'', PStr ''desk'')],
     delegation_policy = PDict [], memory_policy_decl = PDict [],
     audit_policy = PDict [(''redact_keys'', PList [PStr ''iban''])],
     execution_limits = PDict [(''max_tool_calls'', PInt 10)], untrusted_input = Some True,
     command_tools = [], command_tool_declarations = [], skills_folder = None, inline_skills = [],
     importer_root = None, model_decl = PNone\<rparr>"

definition eager_agent :: raw_definition where
  "eager_agent = quiet_role\<lparr>role_name := ''mine'', system_prompt := ''Sell.'', tools := [''shop''],
     autonomy := [], escalation_rules := PDict [(''conditions'', PList [])], audit_policy := PDict [],
     execution_limits := PDict [(''max_tool_calls'', PInt 5)], untrusted_input := None\<rparr>"

lemma demo_chain_folds:
  "(case fold_chain PLATFORM_DEFAULT_LIMITS [(eager_agent, True), (quiet_role, False)] of
      Inr r \<Rightarrow> limit_of PLATFORM_DEFAULT_LIMITS (dict_of (execution_limits r)) ''max_tool_calls'' = PInt 5
              \<and> tools r = [''clock'', ''shop'']
    | Inl _ \<Rightarrow> False)"
  by code_simp

lemma demo_chain:
  "\<exists>r. fold_chain PLATFORM_DEFAULT_LIMITS [(eager_agent, True), (quiet_role, False)] = Inr r"
  using demo_chain_folds by (auto split: sum.splits)

text \<open>
  Along every inheritance chain, whoever wrote the children: the resolved definition keeps what
  each of its ancestors, resolved on its own, required: an untrusted input stays untrusted, no
  escalation condition is lost, free text that was redacted stays redacted and every redacted key
  too.
\<close>

theorem chain_keeps_ancestor_safety:
  assumes "fold_chain limit_defaults (descendants @ ancestors) = Inr r" and "ancestors \<noteq> []"
  shows "\<exists>a. fold_chain limit_defaults ancestors = Inr a \<and> keeps_safety a r"
proof -
  obtain a where "fold_chain limit_defaults ancestors = Inr a"
    and f: "foldR (fold_step limit_defaults) a (rev descendants) = Inr r"
    using chain_prefix [OF assms] by blast
  moreover have "keeps_safety a r"
    by (rule safety.fold_tighter [OF f]) (use fold_step_safety in blast)
  ultimately show ?thesis by blast
qed

theorem chain_keeps_ancestor_safety_witness:
  "\<exists>a r. fold_chain PLATFORM_DEFAULT_LIMITS [(quiet_role, False)] = Inr a
     \<and> fold_chain PLATFORM_DEFAULT_LIMITS [(eager_agent, True), (quiet_role, False)] = Inr r
     \<and> keeps_safety a r"
proof -
  obtain r where r: "fold_chain PLATFORM_DEFAULT_LIMITS ([(eager_agent, True)] @ [(quiet_role, False)]) = Inr r"
    using demo_chain by auto
  show ?thesis using chain_keeps_ancestor_safety [OF r] r by auto
qed

text \<open>
  C13 Importer-written descendants never loosen the definition they extend: autonomy ranks no
  higher, every limit in force under the defaults is no looser, the escalation target is kept and
  what \<open>keeps_safety\<close> states holds.  Each importer definition's rules are a mapping, so their keys are
  distinct.
\<close>

theorem importer_never_looser:
  assumes "fold_chain limit_defaults (map (\<lambda>c. (c, True)) agents @ ancestors) = Inr r"
    and "ancestors \<noteq> []" and "\<forall>c \<in> set agents. distinct_rules c"
  shows "\<exists>a. fold_chain limit_defaults ancestors = Inr a \<and> no_looser limit_defaults a r"
proof -
  obtain a where "fold_chain limit_defaults ancestors = Inr a"
    and "foldR (fold_step limit_defaults) a (rev (map (\<lambda>c. (c, True)) agents)) = Inr r"
    using chain_prefix [OF assms(1,2)] by blast
  then show ?thesis
    using importers_no_looser [of limit_defaults a "rev agents" r] assms(3) by (auto simp: rev_map)
qed

theorem importer_never_looser_witness:
  "\<exists>a r. fold_chain PLATFORM_DEFAULT_LIMITS [(quiet_role, False)] = Inr a
     \<and> fold_chain PLATFORM_DEFAULT_LIMITS [(eager_agent, True), (quiet_role, False)] = Inr r
     \<and> no_looser PLATFORM_DEFAULT_LIMITS a r"
proof -
  have d: "\<forall>c \<in> set [eager_agent]. distinct_rules c"
    by (simp add: distinct_rules_def eager_agent_def dkeys_def)
  obtain r where r: "fold_chain PLATFORM_DEFAULT_LIMITS (map (\<lambda>c. (c, True)) [eager_agent] @ [(quiet_role, False)]) = Inr r"
    using demo_chain by auto
  show ?thesis using importer_never_looser [OF r _ d] r by auto
qed

text \<open>
  Leaving out the parent is no way around the ceiling: a chain written by importers alone runs
  with at most the platform's autonomy, with limits no looser than the defaults, and with its
  free text redacted.
\<close>

theorem importer_without_parent_bounded:
  assumes "fold_chain limit_defaults (map (\<lambda>c. (c, True)) agents) = Inr r"
    and "agents \<noteq> []" and "\<forall>c \<in> set agents. distinct_rules c"
  shows "rank_le (effective_autonomy r) DEFAULT_AUTONOMY
         \<and> limits_tighter limit_defaults [] (dict_of (execution_limits r))
         \<and> \<not> captures_input (dict_of (audit_policy r))"
proof -
  have split: "map (\<lambda>c. (c, True)) agents = map (\<lambda>c. (c, True)) (butlast agents) @ [(last agents, True)]"
    using arg_cong [OF append_butlast_last_id [OF assms(2)], of "map (\<lambda>c. (c, True))"] by simp
  obtain a where a: "fold_chain limit_defaults [(last agents, True)] = Inr a"
    and f: "foldR (fold_step limit_defaults) a (rev (map (\<lambda>c. (c, True)) (butlast agents))) = Inr r"
    using chain_prefix [OF assms(1) [unfolded split]] by blast
  have nl: "no_looser limit_defaults a r"
    using importers_no_looser [of limit_defaults a "rev (butlast agents)" r] f assms(3)
    by (auto simp: rev_map dest: in_set_butlastD)
  obtain d where rr: "resolve_chain_root (last agents) = Inr d"
    and ac: "apply_importer_ceiling None d limit_defaults = Inr a"
    using a by (auto simp: fold_chain_def resolve_root_def bindR_eq_Inr)
  note ic = importer_ceiling_fields [OF ac]
  have "rank_le (effective_autonomy a) DEFAULT_AUTONOMY"
    using ic by (auto simp: effective_autonomy_def rank_le_def validate_autonomy_ok ceiling_autonomy_def)
  moreover have "limits_tighter limit_defaults [] (dict_of (execution_limits a))"
    using ic validate_limits_tighter [of "[]" _ limit_defaults]
    by (cases "execution_limits d") (auto simp: ceiling_limits_def)
  moreover have "\<not> captures_input (dict_of (audit_policy a))"
  proof -
    obtain l where l: "audit_policy d = PDict l" using ic by blast
    then have "validate_audit_redaction [] l = Inr ()"
      using ac by (auto simp: apply_importer_ceiling_def bindR_eq_Inr ceiling_audit_def)
    then have "captures_input l \<longrightarrow> captures_input []" using validate_audit_ok by blast
    then show ?thesis using l ic by (simp add: captures_input_def dget_def)
  qed
  ultimately show ?thesis
    using nl rank_le_trans limits_tighter_trans by (auto simp: no_looser_def keeps_safety_def)
qed

theorem importer_without_parent_bounded_witness:
  "\<exists>r. fold_chain PLATFORM_DEFAULT_LIMITS [(eager_agent, True)] = Inr r
     \<and> \<not> captures_input (dict_of (audit_policy r))"
proof -
  have "(case fold_chain PLATFORM_DEFAULT_LIMITS [(eager_agent, True)] of Inr r \<Rightarrow> True | Inl _ \<Rightarrow> False)"
    by code_simp
  then obtain r where r: "fold_chain PLATFORM_DEFAULT_LIMITS (map (\<lambda>c. (c, True)) [eager_agent]) = Inr r"
    by (auto split: sum.splits)
  have d: "\<forall>c \<in> set [eager_agent]. distinct_rules c"
    by (simp add: distinct_rules_def eager_agent_def dkeys_def)
  show ?thesis using importer_without_parent_bounded [OF r _ d] r by auto
qed

text \<open>
  Composition is additive for capability: a child keeps its parent's tools and skills first and
  adds its own once each, a plain permission list adds to the parent's, and the prompt is the
  parent's followed by the child's.
\<close>

theorem fold_additive:
  assumes "fold_parent_into_child p c = Inr r" and "permissions c = PList added"
  shows "tools r = add_missing (tools p) (tools c) \<and> set (tools r) = set (tools p) \<union> set (tools c)
    \<and> set (skills r) = set (skills p) \<union> set (skills c)
    \<and> permissions r = PList (add_missing (list_or_empty (permissions p)) added)
    \<and> system_prompt r = join_prompts [system_prompt p, system_prompt c]"
  using fold_fields [OF assms(1)] assms(2) by (auto simp: fold_permissions_def)

theorem fold_additive_witness:
  "\<exists>r. fold_parent_into_child quiet_role (eager_agent\<lparr>escalation_rules := PDict []\<rparr>) = Inr r
     \<and> tools r = [''clock'', ''shop'']"
proof -
  have "(case fold_parent_into_child quiet_role (eager_agent\<lparr>escalation_rules := PDict []\<rparr>) of Inr r \<Rightarrow> True | Inl _ \<Rightarrow> False)"
    by code_simp
  then obtain r where r: "fold_parent_into_child quiet_role (eager_agent\<lparr>escalation_rules := PDict []\<rparr>) = Inr r"
    by (auto split: sum.splits)
  show ?thesis using fold_additive [OF r] r by (simp add: eager_agent_def quiet_role_def)
qed

end
