(* ===== verification/Command_Tools.thy ===== *)
theory Command_Tools
  imports Definition_Text Tools
begin

section \<open>Declarative command tools\<close>

text \<open>
  The \<open>command_tools:\<close> part of \<open>harness/loader.py\<close> (parsing a manifest's declarations and
  checking built ones again) and \<open>connectors/command_tools.py\<close> (what a call may still do with a
  declared tool).  \<open>which\<close> is the lookup of a program on \<open>$PATH\<close>, \<open>fullmatch\<close> the regular
  expression engine, and starting the process is the outcome \<open>Executed\<close> with its argument list.
  Parsing registers each new permission, so it takes and returns the registry, also on failure.
\<close>

definition COMMAND_TOOL_PARAM_MAX_LENGTH_CAP :: int where
  "COMMAND_TOOL_PARAM_MAX_LENGTH_CAP = 4096"

subsection \<open>Placeholders\<close>

definition name_start :: "char \<Rightarrow> bool" where
  "name_start c = (is_letter c \<or> c = CHR ''_'')"

text \<open>\<open>{name}\<close> at the start of a string: the name and what follows the closing brace.\<close>

definition placeholder_at :: "string \<Rightarrow> (string \<times> string) option" where
  "placeholder_at s =
     (case s of
        b # n # r \<Rightarrow>
          if b = CHR 0x7B \<and> name_start n
          then (case dropWhile name_char r of
                  e # t \<Rightarrow> if e = CHR 0x7D then Some (n # takeWhile name_char r, t) else None
                | [] \<Rightarrow> None)
          else None
      | _ \<Rightarrow> None)"

text \<open>The whole element; \<open>$\<close> also matches before one final newline.\<close>

definition placeholder_whole :: "string \<Rightarrow> string option" where
  "placeholder_whole s =
     (case placeholder_at s of
        Some (n, t) \<Rightarrow> if t = [] \<or> t = [nl] then Some n else None
      | None \<Rightarrow> None)"

fun has_placeholder :: "string \<Rightarrow> bool" where
  "has_placeholder [] = False"
| "has_placeholder (c # cs) = (placeholder_at (c # cs) \<noteq> None \<or> has_placeholder cs)"

subsection \<open>The argument template\<close>

definition is_absolute :: "string \<Rightarrow> bool" where
  "is_absolute s = starts_with s ''/''"

text \<open>\<open>str(pathlib.Path(raw))\<close> for an absolute path.\<close>

definition pathlib_str :: "string \<Rightarrow> string" where
  "pathlib_str raw =
     (let root = (if starts_with raw ''//'' \<and> \<not> starts_with raw ''///'' then ''//'' else ''/'')
      in root @ join ''/'' (filter (\<lambda>p. p \<noteq> [] \<and> p \<noteq> ''.'') (split_on (CHR ''/'') raw)))"

definition resolve_argv0 :: "(string \<Rightarrow> string option) \<Rightarrow> string \<Rightarrow> string res" where
  "resolve_argv0 which raw =
     (if is_absolute raw then Inr (pathlib_str raw)
      else case which raw of
        None \<Rightarrow> Inl (DefinitionError ''command_tools'')
      | Some resolved \<Rightarrow>
          if is_absolute resolved then Inr resolved else Inl (DefinitionError ''command_tools''))"

fun check_argv_shape :: "pyval \<Rightarrow> string list res" where
  "check_argv_shape (PList vs) =
     (if vs \<noteq> [] \<and> (\<forall>v \<in> set vs. case v of PStr _ \<Rightarrow> True | _ \<Rightarrow> False)
      then Inr (map py_str vs) else Inl (DefinitionError ''command_tools''))"
| "check_argv_shape _ = Inl (DefinitionError ''command_tools'')"

definition check_argv0_literal :: "string \<Rightarrow> unit res" where
  "check_argv0_literal program = guardR (\<not> has_placeholder program) (DefinitionError ''command_tools'')"

text \<open>The loop over the elements after the program, returning the names used.\<close>

fun used_placeholders :: "string list \<Rightarrow> string list \<Rightarrow> string list res" where
  "used_placeholders names [] = Inr []"
| "used_placeholders names (e # es) =
     (case placeholder_whole e of
        Some n \<Rightarrow>
          if n \<notin> set names then Inl (DefinitionError ''command_tools'')
          else bindR (used_placeholders names es) (\<lambda>u. Inr (n # u))
      | None \<Rightarrow>
          if has_placeholder e then Inl (DefinitionError ''command_tools'')
          else used_placeholders names es)"

definition check_argv_rest :: "string list \<Rightarrow> string list \<Rightarrow> string list res" where
  "check_argv_rest rest names =
     bindR (used_placeholders names rest) (\<lambda>used.
     bindR (guardR (set names \<subseteq> set used) (DefinitionError ''command_tools'')) (\<lambda>_. Inr rest))"

definition validate_argv_template ::
  "(string \<Rightarrow> string option) \<Rightarrow> pyval \<Rightarrow> string list \<Rightarrow> string list res" where
  "validate_argv_template which raw_argv names =
     bindR (check_argv_shape raw_argv) (\<lambda>argv.
     bindR (check_argv0_literal (hd argv)) (\<lambda>_.
     bindR (resolve_argv0 which (hd argv)) (\<lambda>resolved.
     bindR (check_argv_rest (tl argv) names) (\<lambda>rest. Inr (resolved # rest)))))"

subsection \<open>Parameters, tier and permission\<close>

fun opt_string :: "pyval \<Rightarrow> string option res" where
  "opt_string PNone = Inr None"
| "opt_string (PStr s) = Inr (Some s)"
| "opt_string _ = Inl (DefinitionError ''command_tools'')"

fun opt_length :: "pyval \<Rightarrow> int option res" where
  "opt_length PNone = Inr None"
| "opt_length (PInt i) =
     (if COMMAND_TOOL_PARAM_MAX_LENGTH_CAP < i then Inl (DefinitionError ''command_tools'')
      else Inr (Some i))"
| "opt_length _ = Inl (DefinitionError ''command_tools'')"

text \<open>\<open>tuple(str(v) for v in enum_raw)\<close>: a string gives its characters, a mapping its keys.\<close>

fun opt_enum :: "pyval \<Rightarrow> string list option res" where
  "opt_enum PNone = Inr None"
| "opt_enum (PList vs) = Inr (Some (map py_str vs))"
| "opt_enum (PStr s) = Inr (Some (map (\<lambda>c. [c]) s))"
| "opt_enum (PDict d) = Inr (Some (dkeys d))"
| "opt_enum _ = Inl (TypeErr ''not iterable'')"

fun parse_command_tool_param :: "pyval \<Rightarrow> command_tool_param res" where
  "parse_command_tool_param (PDict raw) =
     (case dget raw ''type'' of
        PStr ptype \<Rightarrow>
          bindR (guardR (ptype \<in> {''string'', ''integer''}) (DefinitionError ''command_tools'')) (\<lambda>_.
          bindR (opt_string (dget raw ''pattern'')) (\<lambda>pattern.
          bindR (opt_length (dget raw ''max_length'')) (\<lambda>max_length.
          bindR (opt_enum (dget raw ''enum'')) (\<lambda>enum.
          bindR (guardR (\<not> (ptype = ''string'' \<and> pattern = None \<and> enum = None))
                   (DefinitionError ''command_tools'')) (\<lambda>_.
            Inr \<lparr>param_type = ptype, param_pattern = pattern, param_max_length = max_length,
                 param_enum = enum\<rparr>)))))
      | _ \<Rightarrow> Inl (DefinitionError ''command_tools''))"
| "parse_command_tool_param _ = Inl (DefinitionError ''command_tools'')"

definition tier_of_value :: "pyval \<Rightarrow> tier option" where
  "tier_of_value v =
     (if v = PStr ''T0'' then Some T0 else if v = PStr ''T1'' then Some T1
      else if v = PStr ''T2'' then Some T2 else if v = PStr ''T3'' then Some T3 else None)"

fun tier_value :: "tier \<Rightarrow> pyval" where
  "tier_value T0 = PStr ''T0''"
| "tier_value T1 = PStr ''T1''"
| "tier_value T2 = PStr ''T2''"
| "tier_value T3 = PStr ''T3''"

definition checked_command_tool_tier :: "pyval \<Rightarrow> tier res" where
  "checked_command_tool_tier raw =
     (case tier_of_value raw of
        None \<Rightarrow> Inl (DefinitionError ''command_tools'')
      | Some t \<Rightarrow> if t \<in> {T2} then Inr t else Inl (DefinitionError ''command_tools''))"

fun checked_command_tool_permission :: "pyval \<Rightarrow> string res" where
  "checked_command_tool_permission (PStr p) =
     (if starts_with p ''run:'' then Inr p else Inl (DefinitionError ''command_tools''))"
| "checked_command_tool_permission _ = Inl (DefinitionError ''command_tools'')"

subsection \<open>Parsing a manifest\<close>

fun entry_name :: "string list \<Rightarrow> dict \<Rightarrow> string res" where
  "entry_name seen entry =
     (case dget entry ''name'' of
        PStr name \<Rightarrow>
          if name = [] then Inl (DefinitionError ''command_tools'')
          else if name \<in> set seen then Inl (DefinitionError ''command_tools'')
          else Inr name
      | _ \<Rightarrow> Inl (DefinitionError ''command_tools''))"

definition entry_params :: "dict \<Rightarrow> (string \<times> command_tool_param) list res" where
  "entry_params entry =
     (case (if py_truthy (dget entry ''params'') then dget entry ''params'' else PDict []) of
        PDict raw \<Rightarrow>
          mapR (\<lambda>(pname, praw). bindR (parse_command_tool_param praw) (\<lambda>p. Inr (pname, p))) raw
      | _ \<Rightarrow> Inl (DefinitionError ''command_tools''))"

fun parse_entry ::
  "(string \<Rightarrow> string option) \<Rightarrow> string list \<Rightarrow> pyval \<Rightarrow> command_tool_declaration res" where
  "parse_entry which seen (PDict entry) =
     bindR (entry_name seen entry) (\<lambda>name.
     bindR (entry_params entry) (\<lambda>params.
     bindR (validate_argv_template which (dget entry ''argv'') (dkeys params)) (\<lambda>argv.
     bindR (checked_command_tool_tier (dget entry ''tier'')) (\<lambda>t.
     bindR (checked_command_tool_permission (dget entry ''permission'')) (\<lambda>permission.
       Inr \<lparr>ct_name = name, ct_argv = argv, ct_params = params, ct_tier = t,
            ct_permission = permission\<rparr>)))))"
| "parse_entry which seen _ = Inl (DefinitionError ''command_tools'')"

definition ensure_command_tool_permission_registered :: "string \<Rightarrow> registry \<Rightarrow> (pclass \<times> registry) res" where
  "ensure_command_tool_permission_registered wire reg = ensure_resource_registered RunPerm wire None reg"

fun parse_entries ::
  "(string \<Rightarrow> string option) \<Rightarrow> string list \<Rightarrow> pyval list \<Rightarrow> registry
   \<Rightarrow> command_tool_declaration list res \<times> registry" where
  "parse_entries which seen [] reg = (Inr [], reg)"
| "parse_entries which seen (e # es) reg =
     (case parse_entry which seen e of
        Inl x \<Rightarrow> (Inl x, reg)
      | Inr d \<Rightarrow>
          (case ensure_command_tool_permission_registered (ct_permission d) reg of
             Inl x \<Rightarrow> (Inl x, reg)
           | Inr (_, reg') \<Rightarrow>
               (case parse_entries which (ct_name d # seen) es reg' of
                  (Inl x, reg'') \<Rightarrow> (Inl x, reg'')
                | (Inr ds, reg'') \<Rightarrow> (Inr (d # ds), reg''))))"

definition parse_command_tools ::
  "(string \<Rightarrow> string option) \<Rightarrow> dict \<Rightarrow> registry \<Rightarrow> command_tool_declaration list res \<times> registry" where
  "parse_command_tools which manifest_fm reg =
     (case dget manifest_fm ''command_tools'' of
        PNone \<Rightarrow> (Inr [], reg)
      | PList raw_list \<Rightarrow> parse_entries which [] raw_list reg
      | _ \<Rightarrow> (Inl (DefinitionError ''command_tools''), reg))"

subsection \<open>Checking built declarations again\<close>

definition param_dict :: "command_tool_param \<Rightarrow> pyval" where
  "param_dict p =
     PDict [(''type'', PStr (param_type p)),
            (''pattern'', case param_pattern p of None \<Rightarrow> PNone | Some s \<Rightarrow> PStr s),
            (''max_length'', case param_max_length p of None \<Rightarrow> PNone | Some i \<Rightarrow> PInt i),
            (''enum'', case param_enum p of None \<Rightarrow> PNone | Some vs \<Rightarrow> PList (map PStr vs))]"

definition revalidate_declaration :: "string \<times> command_tool_declaration \<Rightarrow> unit res" where
  "revalidate_declaration kd =
     (case kd of (key, d) \<Rightarrow>
        bindR (guardR (ct_name d = key) (DefinitionError ''command_tools'')) (\<lambda>_.
        bindR (check_argv_shape (PList (map PStr (ct_argv d)))) (\<lambda>argv.
        bindR (eachR (\<lambda>(pname, p). bindR (parse_command_tool_param (param_dict p)) (\<lambda>_. Inr ())) (ct_params d)) (\<lambda>_.
        bindR (check_argv0_literal (hd argv)) (\<lambda>_.
        bindR (guardR (is_absolute (hd argv)) (DefinitionError ''command_tools'')) (\<lambda>_.
        bindR (check_argv_rest (tl argv) (dkeys (ct_params d))) (\<lambda>_.
        bindR (checked_command_tool_tier (tier_value (ct_tier d))) (\<lambda>_.
        bindR (checked_command_tool_permission (PStr (ct_permission d))) (\<lambda>_. Inr ())))))))))"

definition revalidate_command_tools :: "raw_definition \<Rightarrow> unit res" where
  "revalidate_command_tools d =
     bindR (eachR (\<lambda>n. guardR (n \<in> set (dkeys (command_tool_declarations d))) (DefinitionError ''command_tools''))
              (command_tools d)) (\<lambda>_.
       eachR revalidate_declaration (command_tool_declarations d))"

subsection \<open>Calls\<close>

datatype command_outcome = Refused string | Executed "string list"

definition starts_with_dash_like :: "char \<Rightarrow> bool" where
  "starts_with_dash_like c = (c = CHR ''-'')"

fun param_text :: "command_tool_param \<Rightarrow> pyval \<Rightarrow> string option" where
  "param_text spec (PStr s) = (if param_type spec = ''string'' then Some s else None)"
| "param_text spec (PInt i) = (if param_type spec = ''integer'' then Some (int_str i) else None)"
| "param_text spec _ = None"

text \<open>The text to substitute, or the kind of the refusal.\<close>

definition validate_param_value ::
  "(string \<Rightarrow> string \<Rightarrow> bool) \<Rightarrow> pyval \<Rightarrow> command_tool_param \<Rightarrow> string + string" where
  "validate_param_value fullmatch v spec =
     (case param_text spec v of
        None \<Rightarrow> Inl ''invalid_param''
      | Some text \<Rightarrow>
          if text \<noteq> [] \<and> starts_with_dash_like (hd text) then Inl ''option_injection_rejected''
          else if (case param_max_length spec of None \<Rightarrow> False | Some n \<Rightarrow> n < int (length text))
          then Inl ''invalid_param''
          else if (case param_pattern spec of None \<Rightarrow> False | Some p \<Rightarrow> \<not> fullmatch p text)
          then Inl ''invalid_param''
          else if (case param_enum spec of None \<Rightarrow> False | Some vs \<Rightarrow> text \<notin> set vs)
          then Inl ''invalid_param''
          else Inr text)"

fun substitute_params ::
  "(string \<Rightarrow> string \<Rightarrow> bool) \<Rightarrow> (string \<times> command_tool_param) list \<Rightarrow> dict
   \<Rightarrow> string + (string \<times> string) list" where
  "substitute_params fullmatch [] inputs = Inr []"
| "substitute_params fullmatch ((n, spec) # ps) inputs =
     (case validate_param_value fullmatch (dget inputs n) spec of
        Inl kind \<Rightarrow> Inl kind
      | Inr text \<Rightarrow>
          (case substitute_params fullmatch ps inputs of
             Inl kind \<Rightarrow> Inl kind
           | Inr sub \<Rightarrow> Inr ((n, text) # sub)))"

definition substitute_element :: "(string \<times> string) list \<Rightarrow> string \<Rightarrow> string res" where
  "substitute_element sub e =
     (case placeholder_whole e of
        None \<Rightarrow> Inr e
      | Some n \<Rightarrow> (case map_of sub n of Some t \<Rightarrow> Inr t | None \<Rightarrow> Inl (KeyErr n)))"

fun run_command_tool ::
  "(string \<Rightarrow> string \<Rightarrow> bool) \<Rightarrow> command_tool_declaration \<Rightarrow> pyval \<Rightarrow> command_outcome res" where
  "run_command_tool fullmatch d (PDict inputs) =
     (if \<not> set (dkeys inputs) \<subseteq> set (dkeys (ct_params d)) then Inr (Refused ''unknown_param'')
      else if \<not> set (dkeys (ct_params d)) \<subseteq> set (dkeys inputs) then Inr (Refused ''missing_param'')
      else case substitute_params fullmatch (ct_params d) inputs of
        Inl kind \<Rightarrow> Inr (Refused kind)
      | Inr sub \<Rightarrow>
          bindR (mapR (substitute_element sub) (ct_argv d)) (\<lambda>argv.
            if \<exists>a \<in> set argv. CHR 0x00 \<in> set a then Inr (Refused ''invalid_input'')
            else Inr (Executed argv)))"
| "run_command_tool fullmatch d _ = Inr (Refused ''invalid_input'')"

definition param_schema :: "command_tool_param \<Rightarrow> pyval" where
  "param_schema p =
     PDict ([(''type'', PStr (if param_type p = ''string'' then ''string'' else ''integer''))]
       @ (case param_pattern p of None \<Rightarrow> [] | Some s \<Rightarrow> [(''pattern'', PStr s)])
       @ (case param_max_length p of None \<Rightarrow> [] | Some i \<Rightarrow> [(''maxLength'', PInt i)])
       @ (case param_enum p of None \<Rightarrow> [] | Some vs \<Rightarrow> [(''enum'', PList (map PStr vs))]))"

definition command_input_schema :: "command_tool_declaration \<Rightarrow> dict" where
  "command_input_schema d =
     [(''type'', PStr ''object''),
      (''properties'', PDict (map (\<lambda>(n, p). (n, param_schema p)) (ct_params d))),
      (''required'', PList (map PStr (sort (dkeys (ct_params d)))))]"

text \<open>\<open>mk\<close> builds the deployment's connector value from the declaration.\<close>

definition build_command_tool_spec ::
  "registry \<Rightarrow> (command_tool_declaration \<Rightarrow> 'c) \<Rightarrow> command_tool_declaration \<Rightarrow> 'c tool_spec res" where
  "build_command_tool_spec reg mk d =
     ToolSpec reg
       \<lparr>ts_name = ct_name d, required_permissions = [ct_permission d], connector = mk d,
        ts_tier = ct_tier d,
        ts_description = ''Run the '' @ [CHR 0x27] @ ct_name d @ [CHR 0x27] @ '' command tool.'',
        input_schema = command_input_schema d, always_revalidate = False, subject_scoped = False,
        needs_user_memory = False, memory_access = None, memory_scope = ''local''\<rparr>"

definition build_command_tool_specs ::
  "registry \<Rightarrow> (command_tool_declaration \<Rightarrow> 'c) \<Rightarrow> command_tool_declaration list \<Rightarrow> 'c tool_spec list res" where
  "build_command_tool_specs reg mk ds = mapR (build_command_tool_spec reg mk) ds"

subsection \<open>What a declaration that passed is\<close>

definition narrow_param :: "command_tool_param \<Rightarrow> bool" where
  "narrow_param p \<longleftrightarrow>
     param_type p \<in> {''string'', ''integer''}
     \<and> (param_type p = ''string'' \<longrightarrow> param_pattern p \<noteq> None \<or> param_enum p \<noteq> None)
     \<and> (case param_max_length p of None \<Rightarrow> True | Some i \<Rightarrow> i \<le> COMMAND_TOOL_PARAM_MAX_LENGTH_CAP)"

definition safe_template :: "string list \<Rightarrow> string list \<Rightarrow> bool" where
  "safe_template names argv \<longleftrightarrow>
     argv \<noteq> [] \<and> is_absolute (hd argv)
     \<and> (\<forall>e \<in> set (tl argv).
          case placeholder_whole e of Some n \<Rightarrow> n \<in> set names | None \<Rightarrow> \<not> has_placeholder e)
     \<and> (\<forall>n \<in> set names. \<exists>e \<in> set (tl argv). placeholder_whole e = Some n)"

definition narrow_declaration :: "command_tool_declaration \<Rightarrow> bool" where
  "narrow_declaration d \<longleftrightarrow>
     safe_template (dkeys (ct_params d)) (ct_argv d)
     \<and> (\<forall>(n, p) \<in> set (ct_params d). narrow_param p)
     \<and> ct_tier d = T2 \<and> starts_with (ct_permission d) ''run:''"

lemma used_placeholders_ok:
  "used_placeholders names es = Inr u \<Longrightarrow>
     set u = {n. \<exists>e \<in> set es. placeholder_whole e = Some n}
     \<and> (\<forall>e \<in> set es. case placeholder_whole e of Some n \<Rightarrow> n \<in> set names | None \<Rightarrow> \<not> has_placeholder e)"
proof (induction es arbitrary: u)
  case (Cons e es)
  show ?case
  proof (cases "placeholder_whole e")
    case None
    then have "used_placeholders names es = Inr u" "\<not> has_placeholder e"
      using Cons.prems by (auto split: if_splits)
    then show ?thesis using Cons.IH None by auto
  next
    case (Some n)
    then obtain u' where "used_placeholders names es = Inr u'" "u = n # u'" "n \<in> set names"
      using Cons.prems by (auto simp: bindR_eq_Inr split: if_splits)
    then show ?thesis using Cons.IH Some by auto
  qed
qed simp

lemma check_argv_rest_ok:
  "check_argv_rest rest names = Inr r \<Longrightarrow> r = rest \<and>
     (\<forall>e \<in> set rest. case placeholder_whole e of Some n \<Rightarrow> n \<in> set names | None \<Rightarrow> \<not> has_placeholder e)
     \<and> (\<forall>n \<in> set names. \<exists>e \<in> set rest. placeholder_whole e = Some n)"
  using used_placeholders_ok by (fastforce simp: check_argv_rest_def success)

lemma pathlib_absolute: "is_absolute (pathlib_str raw)"
  by (simp add: is_absolute_def pathlib_str_def starts_with_def Let_def)

lemma resolve_argv0_absolute: "resolve_argv0 which raw = Inr r \<Longrightarrow> is_absolute r"
  using pathlib_absolute by (auto simp: resolve_argv0_def split: if_splits option.splits)

lemma validate_argv_template_ok:
  assumes "validate_argv_template which raw names = Inr argv"
  shows "safe_template names argv"
proof -
  obtain a r0 rest where "resolve_argv0 which (hd a) = Inr r0"
    and rest: "check_argv_rest (tl a) names = Inr rest" and argv: "argv = r0 # rest"
    using assms by (auto simp: validate_argv_template_def success)
  then have "is_absolute r0" using resolve_argv0_absolute by blast
  then show ?thesis using check_argv_rest_ok [OF rest] argv by (simp add: safe_template_def)
qed

lemma parse_param_narrow: "parse_command_tool_param v = Inr p \<Longrightarrow> narrow_param p"
proof -
  assume p: "parse_command_tool_param v = Inr p"
  then obtain raw t where v: "v = PDict raw" and t: "dget raw ''type'' = PStr t"
    by (cases v) (auto split: pyval.splits)
  obtain pat ml en where "opt_length (dget raw ''max_length'') = Inr ml"
    "t \<in> {''string'', ''integer''}" "\<not> (t = ''string'' \<and> pat = None \<and> en = None)"
    "p = \<lparr>param_type = t, param_pattern = pat, param_max_length = ml, param_enum = en\<rparr>"
    using p v t by (auto simp: success)
  moreover have "opt_length w = Inr (Some i) \<Longrightarrow> i \<le> COMMAND_TOOL_PARAM_MAX_LENGTH_CAP" for w i
    by (cases w) (auto split: if_splits)
  ultimately show ?thesis by (auto simp: narrow_param_def split: option.split)
qed

lemma checked_tier_T2: "checked_command_tool_tier v = Inr t \<Longrightarrow> t = T2"
  by (auto simp: checked_command_tool_tier_def split: option.splits if_splits)

lemma checked_permission_run: "checked_command_tool_permission v = Inr p \<Longrightarrow> starts_with p ''run:''"
  by (cases v) (auto split: if_splits)

lemma parse_entry_narrow:
  assumes "parse_entry which seen e = Inr d"
  shows "narrow_declaration d \<and> ct_name d \<notin> set seen"
proof -
  obtain entry where e: "e = PDict entry" using assms by (cases e) auto
  have n: "entry_name seen entry = Inr (ct_name d)" and ps: "entry_params entry = Inr (ct_params d)"
    and a: "validate_argv_template which (dget entry ''argv'') (dkeys (ct_params d)) = Inr (ct_argv d)"
    and t: "checked_command_tool_tier (dget entry ''tier'') = Inr (ct_tier d)"
    and pm: "checked_command_tool_permission (dget entry ''permission'') = Inr (ct_permission d)"
    using assms unfolding e
    by (auto simp: bindR_eq_Inr simp del: entry_name.simps checked_command_tool_permission.simps)
  have "ct_name d \<notin> set seen"
    using n by (auto split: pyval.splits if_splits)
  moreover have "\<forall>(n, p) \<in> set (ct_params d). narrow_param p"
  proof -
    have "mapR (\<lambda>(pname, praw). bindR (parse_command_tool_param praw) (\<lambda>p. Inr (pname, p))) raw = Inr qs
        \<Longrightarrow> \<forall>(n, p) \<in> set qs. narrow_param p" for raw :: dict and qs
      using parse_param_narrow
      by (induction raw arbitrary: qs)
        (fastforce simp: bindR_eq_Inr simp del: parse_command_tool_param.simps)+
    then show ?thesis using ps by (auto simp: entry_params_def split: pyval.splits)
  qed
  ultimately show ?thesis
    using validate_argv_template_ok [OF a] checked_tier_T2 [OF t] checked_permission_run [OF pm]
    by (simp add: narrow_declaration_def)
qed

lemma parse_entries_narrow:
  "parse_entries which seen es reg = (Inr ds, reg') \<Longrightarrow>
     (\<forall>d \<in> set ds. narrow_declaration d \<and> ct_name d \<notin> set seen) \<and> distinct (map ct_name ds)"
proof (induction es arbitrary: seen ds reg)
  case (Cons e es)
  obtain d ds' reg1 where d: "parse_entry which seen e = Inr d"
    and rest: "parse_entries which (ct_name d # seen) es reg1 = (Inr ds', reg')" and ds: "ds = d # ds'"
    using Cons.prems by (auto split: sum.splits prod.splits)
  then show ?case using Cons.IH [OF rest] parse_entry_narrow [OF d] by auto
qed simp

lemma revalidate_declaration_narrow:
  assumes "revalidate_declaration (key, d) = Inr ()"
  shows "narrow_declaration d \<and> ct_name d = key \<and> \<not> has_placeholder (hd (ct_argv d))"
proof -
  have argv: "check_argv_shape (PList (map PStr (ct_argv d))) = Inr a \<Longrightarrow> a = ct_argv d \<and> a \<noteq> []" for a
    by (auto simp: comp_def split: if_splits)
  have par: "parse_command_tool_param (param_dict p) = Inr q \<Longrightarrow> q = p" for p q
    by (auto simp: param_dict_def dget_def success comp_def split: option.splits if_splits)
  have "narrow_param p" if "(n, p) \<in> set (ct_params d)" for n p
  proof -
    have "bindR (parse_command_tool_param (param_dict p)) (\<lambda>_. Inr ()) = Inr ()"
      using assms that by (auto simp: revalidate_declaration_def success
          simp del: check_argv_shape.simps parse_command_tool_param.simps)
    then obtain q where "parse_command_tool_param (param_dict p) = Inr q" by (auto simp: bindR_eq_Inr)
    then show ?thesis using par parse_param_narrow by blast
  qed
  moreover obtain a r where a: "check_argv_shape (PList (map PStr (ct_argv d))) = Inr a"
    and lit: "\<not> has_placeholder (hd a)" and ab: "is_absolute (hd a)"
    and rest: "check_argv_rest (tl a) (dkeys (ct_params d)) = Inr r" and key: "ct_name d = key"
    and t: "\<exists>t. checked_command_tool_tier (tier_value (ct_tier d)) = Inr t"
    and p: "\<exists>p. checked_command_tool_permission (PStr (ct_permission d)) = Inr p"
    using assms by (auto simp: revalidate_declaration_def success check_argv0_literal_def
        simp del: check_argv_shape.simps checked_command_tool_permission.simps)
  moreover have "ct_tier d = T2"
    using t by (cases "ct_tier d") (auto simp: checked_command_tool_tier_def tier_of_value_def)
  moreover have "starts_with (ct_permission d) ''run:''" using p by (auto split: if_splits)
  ultimately show ?thesis
    using argv [OF a] check_argv_rest_ok [OF rest] by (auto simp: narrow_declaration_def safe_template_def)
qed

lemma revalidate_command_tools_narrow:
  assumes "revalidate_command_tools d = Inr ()"
  shows "set (command_tools d) \<subseteq> set (dkeys (command_tool_declarations d))
         \<and> (\<forall>(key, c) \<in> set (command_tool_declarations d). narrow_declaration c \<and> ct_name c = key)"
  using assms revalidate_declaration_narrow by (auto simp: revalidate_command_tools_def success)

subsection \<open>Properties\<close>

text \<open>
  A manifest's command tools, when they load, have distinct names and are narrow: an absolute
  program, placeholders only as whole elements and exactly for the declared parameters, every
  string parameter constrained, tier T2 and a \<open>run:\<close> permission.
\<close>

theorem manifest_command_tools_narrow:
  assumes "parse_command_tools which manifest_fm reg = (Inr ds, reg')"
  shows "distinct (map ct_name ds) \<and> (\<forall>d \<in> set ds. narrow_declaration d)"
proof (cases "dget manifest_fm ''command_tools''")
  case (PList raw_list)
  then show ?thesis
    using assms parse_entries_narrow [of which "[]" raw_list reg ds reg']
    by (simp add: parse_command_tools_def)
qed (use assms in \<open>auto simp: parse_command_tools_def\<close>)

definition lookup_manifest :: dict where
  "lookup_manifest =
     [(''command_tools'', PList [PDict
        [(''name'', PStr ''stock''),
         (''argv'', PList [PStr ''/bin/stock'', PStr ''--sku'', PStr ''{sku}'']),
         (''params'', PDict [(''sku'', PDict [(''type'', PStr ''string''), (''enum'', PList [PStr ''a1''])])]),
         (''tier'', PStr ''T2''), (''permission'', PStr ''run:stock'')]])]"

definition lookup_declaration :: command_tool_declaration where
  "lookup_declaration =
     \<lparr>ct_name = ''stock'', ct_argv = [''/bin/stock'', ''--sku'', ''{sku}''],
      ct_params = [(''sku'', \<lparr>param_type = ''string'', param_pattern = None, param_max_length = None,
                             param_enum = Some [''a1'']\<rparr>)],
      ct_tier = T2, ct_permission = ''run:stock''\<rparr>"

lemma lookup_manifest_parses:
  "fst (parse_command_tools (\<lambda>_. None) lookup_manifest families_registry) = Inr [lookup_declaration]"
  by code_simp

theorem manifest_command_tools_narrow_witness: "narrow_declaration lookup_declaration"
proof -
  obtain reg' where "parse_command_tools (\<lambda>_. None) lookup_manifest families_registry
      = (Inr [lookup_declaration], reg')"
    using lookup_manifest_parses by (metis prod.collapse)
  from manifest_command_tools_narrow [OF this] show ?thesis by simp
qed

definition param_accepts :: "(string \<Rightarrow> string \<Rightarrow> bool) \<Rightarrow> command_tool_param \<Rightarrow> string \<Rightarrow> bool" where
  "param_accepts fullmatch spec text \<longleftrightarrow>
     (\<forall>n. param_max_length spec = Some n \<longrightarrow> int (length text) \<le> n)
     \<and> (\<forall>p. param_pattern spec = Some p \<longrightarrow> fullmatch p text)
     \<and> (\<forall>vs. param_enum spec = Some vs \<longrightarrow> text \<in> set vs)
     \<and> (text = [] \<or> hd text \<noteq> CHR ''-'')"

lemma validate_param_value_ok:
  "validate_param_value fullmatch v spec = Inr text \<Longrightarrow>
     param_text spec v = Some text \<and> param_accepts fullmatch spec text"
  by (auto simp: validate_param_value_def param_accepts_def starts_with_dash_like_def
      split: option.splits if_splits)

lemma substitute_params_ok:
  "substitute_params fullmatch ps inputs = Inr sub \<Longrightarrow>
     dkeys sub = dkeys ps
     \<and> (\<forall>n text. map_of sub n = Some text \<longrightarrow>
          (\<exists>spec. map_of ps n = Some spec \<and> param_text spec (dget inputs n) = Some text
                  \<and> param_accepts fullmatch spec text))"
proof (induction fullmatch ps inputs arbitrary: sub rule: substitute_params.induct)
  case (2 fullmatch n spec ps inputs)
  then show ?case
    using validate_param_value_ok by (fastforce simp: dkeys_def split: sum.splits if_splits)
qed (simp add: dkeys_def)

lemma absolute_no_placeholder: "is_absolute e \<Longrightarrow> placeholder_whole e = None"
  by (cases e) (auto simp: is_absolute_def starts_with_def placeholder_whole_def placeholder_at_def
      split: list.splits)

text \<open>
  Calling a narrow command tool never raises, and a process it starts gets exactly the
  template's argument list, with the declared program first and each placeholder replaced, as a
  whole element, by the text of the model's value: one that satisfies the parameter's constraints
  and does not start with a dash, so no value becomes an option or a further argument.
\<close>

theorem command_call_no_injection:
  assumes "narrow_declaration d"
  shows "(\<exists>out. run_command_tool fullmatch d (PDict inputs) = Inr out)
    \<and> (\<forall>argv. run_command_tool fullmatch d (PDict inputs) = Inr (Executed argv) \<longrightarrow>
         length argv = length (ct_argv d) \<and> hd argv = hd (ct_argv d) \<and> is_absolute (hd argv)
         \<and> set (dkeys inputs) = set (dkeys (ct_params d))
         \<and> (\<forall>i < length argv.
              case placeholder_whole (ct_argv d ! i) of
                None \<Rightarrow> argv ! i = ct_argv d ! i
              | Some n \<Rightarrow> (\<exists>spec. map_of (ct_params d) n = Some spec
                    \<and> param_text spec (dget inputs n) = Some (argv ! i)
                    \<and> param_accepts fullmatch spec (argv ! i))))"
proof (cases "set (dkeys inputs) = set (dkeys (ct_params d))")
  case False
  then show ?thesis by auto
next
  case same: True
  show ?thesis
  proof (cases "substitute_params fullmatch (ct_params d) inputs")
    case (Inl kind)
    then show ?thesis using same by auto
  next
    case (Inr sub)
    have ne: "ct_argv d \<noteq> []" and abs: "is_absolute (hd (ct_argv d))"
      and decl: "n \<in> set (dkeys (ct_params d))"
        if "e \<in> set (ct_argv d)" "placeholder_whole e = Some n" for e n
      using assms that absolute_no_placeholder
      by (cases "ct_argv d"; force simp: narrow_declaration_def safe_template_def)+
    have ne: "ct_argv d \<noteq> []" and abs: "is_absolute (hd (ct_argv d))"
      using assms by (auto simp: narrow_declaration_def safe_template_def)
    have "\<exists>t. substitute_element sub e = Inr t" if "e \<in> set (ct_argv d)" for e
    proof (cases "placeholder_whole e")
      case (Some n)
      then have "n \<in> set (dkeys sub)"
        using decl [OF that Some] substitute_params_ok [OF Inr] by simp
      then show ?thesis using Some dkeys_Some by (fastforce simp: substitute_element_def)
    qed (simp add: substitute_element_def)
    then obtain argv where argv: "mapR (substitute_element sub) (ct_argv d) = Inr argv"
      using mapR_total by blast
    have len: "length argv = length (ct_argv d)" by (rule mapR_length [OF argv])
    have el: "case placeholder_whole (ct_argv d ! i) of
                None \<Rightarrow> argv ! i = ct_argv d ! i
              | Some n \<Rightarrow> (\<exists>spec. map_of (ct_params d) n = Some spec
                    \<and> param_text spec (dget inputs n) = Some (argv ! i)
                    \<and> param_accepts fullmatch spec (argv ! i))" if "i < length argv" for i
    proof -
      have "substitute_element sub (ct_argv d ! i) = Inr (argv ! i)"
        using argv that len by (auto simp: mapR_eq_Inr list_all2_conv_all_nth)
      then show ?thesis using substitute_params_ok [OF Inr]
        by (auto simp: substitute_element_def split: option.splits)
    qed
    have "hd argv = hd (ct_argv d)"
    proof -
      have "argv \<noteq> []" using len ne by auto
      then show ?thesis using el [of 0] ne absolute_no_placeholder [OF abs] by (simp add: hd_conv_nth)
    qed
    then show ?thesis using same Inr argv len abs el by auto
  qed
qed

theorem command_call_no_injection_witness:
  "run_command_tool (\<lambda>_ _. True) lookup_declaration (PDict [(''sku'', PStr ''a1'')])
     = Inr (Executed [''/bin/stock'', ''--sku'', ''a1''])
   \<and> run_command_tool (\<lambda>_ _. True) lookup_declaration (PDict [(''sku'', PStr ''--evil'')])
     = Inr (Refused ''option_injection_rejected'')
   \<and> is_absolute ''/bin/stock''"
proof -
  have n: "narrow_declaration lookup_declaration"
    by code_simp
  have r: "run_command_tool (\<lambda>_ _. True) lookup_declaration (PDict [(''sku'', PStr ''a1'')])
     = Inr (Executed [''/bin/stock'', ''--sku'', ''a1''])"
    by code_simp
  moreover have "run_command_tool (\<lambda>_ _. True) lookup_declaration (PDict [(''sku'', PStr ''--evil'')])
     = Inr (Refused ''option_injection_rejected'')"
    by code_simp
  moreover have "is_absolute (hd [''/bin/stock'', ''--sku'', ''a1''])"
    using command_call_no_injection [OF n, THEN conjunct2, rule_format, OF r] by blast
  ultimately show ?thesis unfolding list.sel by blast
qed

end
