(* ===== verification/Roles.thy ===== *)
theory Roles
  imports Fold Command_Tools
begin

section \<open>Loading roles and walking the inheritance chain\<close>

text \<open>
  \<open>_extends_target\<close>, \<open>_load_role_files\<close>, \<open>_resolve_role_chain\<close> and \<open>load_generic\<close> of
  \<open>harness/loader.py\<close>.  What the loader asks of the machine is a parameter: the record \<open>env\<close>
  holds the YAML parser, the program lookup, the predefined roles' folders and files, the
  importer's file system (\<open>realpath\<close> is \<open>Path.resolve()\<close>, \<open>None\<close> where it raises; a directory
  test or a read may fail) and the deployments tree.  Parsing a manifest may register command
  permissions, so loading takes and returns the permission registry.
\<close>

record env =
  env_yaml :: "string \<Rightarrow> pyval res"
  env_which :: "string \<Rightarrow> string option"
  platform_root_exists :: bool
  role_dir :: "string \<Rightarrow> bool option"
  role_file :: "string \<Rightarrow> string \<Rightarrow> string option"
  realpath :: "path \<Rightarrow> path option"
  folder_exists :: "path \<Rightarrow> bool option"
  read_within_root :: "path \<Rightarrow> path \<Rightarrow> string res"
  deployments_root_exists :: bool
  deployment_dir :: "string \<Rightarrow> string \<Rightarrow> bool"
  deployment_file :: "string \<Rightarrow> string \<Rightarrow> string \<Rightarrow> string option"

subsection \<open>Containment and \<open>extends:\<close>\<close>

definition require_platform_root :: "env \<Rightarrow> unit res" where
  "require_platform_root e = guardR (platform_root_exists e) (DefinitionError ''platform_root'')"

definition platform_role_name_or_none :: "string \<Rightarrow> string option" where
  "platform_role_name_or_none v =
     (let name = (if starts_with v ''platform/roles/'' then drop (length ''platform/roles/'') v else v)
      in if safe_segment name then Some name else None)"

text \<open>A non-empty Windows anchor: a leading separator, or a drive.\<close>

definition is_absolute_value :: "string \<Rightarrow> bool" where
  "is_absolute_value v =
     (starts_with v ''/'' \<or> starts_with v [CHR 0x5C] \<or> (2 \<le> length v \<and> v ! 1 = CHR '':''))"

definition path_parts :: "string \<Rightarrow> path" where
  "path_parts relative = filter (\<lambda>p. p \<noteq> [] \<and> p \<noteq> ''.'') (split_on (CHR ''/'') relative)"

definition strictly_inside :: "path \<Rightarrow> path \<Rightarrow> bool" where
  "strictly_inside real_root p \<longleftrightarrow> p \<noteq> real_root \<and> take (length real_root) p = real_root"

definition resolve_within_root :: "env \<Rightarrow> path \<Rightarrow> path \<Rightarrow> string \<Rightarrow> path option" where
  "resolve_within_root e base_root base relative =
     (if is_absolute_value relative then None
      else case (realpath e base_root, realpath e (base @ path_parts relative)) of
        (Some real_root, Some resolved) \<Rightarrow>
          if strictly_inside real_root resolved then Some resolved else None
      | _ \<Rightarrow> None)"

definition contained_folder :: "env \<Rightarrow> path \<Rightarrow> path \<Rightarrow> path res" where
  "contained_folder e folder base_root =
     (case resolve_within_root e base_root folder ''.'' of
        None \<Rightarrow> Inl (DefinitionError ''containment'')
      | Some f \<Rightarrow>
          (case folder_exists e f of
             None \<Rightarrow> Inl (DefinitionError ''containment'')
           | Some b \<Rightarrow> if b then Inr f else Inl (DefinitionError ''not a folder'')))"

definition rstrip_slash :: "string \<Rightarrow> string" where
  "rstrip_slash s = rev (dropWhile (\<lambda>c. c = CHR ''/'') (rev s))"

definition extends_platform :: "env \<Rightarrow> string \<Rightarrow> locator res" where
  "extends_platform e name =
     bindR (require_platform_root e) (\<lambda>_.
       case role_dir e name of
         Some True \<Rightarrow> Inr (RoleName name)
       | _ \<Rightarrow> Inl (DefinitionError ''extends''))"

fun extends_folder :: "env \<Rightarrow> locator \<Rightarrow> string \<Rightarrow> locator res" where
  "extends_folder e (FolderLocator folder base_root _) v =
     (case resolve_within_root e base_root folder v of
        None \<Rightarrow> Inl (DefinitionError ''extends'')
      | Some resolved \<Rightarrow>
          if realpath e folder = Some resolved then Inl (DefinitionError ''extends'')
          else (case folder_exists e resolved of
             Some True \<Rightarrow> Inr (FolderLocator resolved base_root [])
           | _ \<Rightarrow> Inl (DefinitionError ''extends'')))"
| "extends_folder e _ v = Inl (DefinitionError ''extends'')"

fun extends_target :: "env \<Rightarrow> locator \<Rightarrow> pyval \<Rightarrow> locator res" where
  "extends_target e current (PStr raw) =
     (let v = strip raw in
      if v = [] then Inl (DefinitionError ''extends'')
      else if is_absolute_value v then Inl (DefinitionError ''extends'')
      else let w = rstrip_slash v in
        (case platform_role_name_or_none w of
           Some name \<Rightarrow> extends_platform e name
         | None \<Rightarrow> extends_folder e current w))"
| "extends_target e current _ = Inl (DefinitionError ''extends'')"

subsection \<open>Values of a policy file\<close>

definition parse_untrusted_input :: "dict \<Rightarrow> bool option res" where
  "parse_untrusted_input policy_fm =
     (case map_of policy_fm ''untrusted_input'' of
        None \<Rightarrow> Inr None
      | Some (PBool b) \<Rightarrow> Inr (Some b)
      | Some _ \<Rightarrow> Inl (DefinitionError ''untrusted_input''))"

fun declared_memory_policy :: "pyval \<Rightarrow> pyval res" where
  "declared_memory_policy PNone = Inr (PDict [])"
| "declared_memory_policy (PDict d) = Inr (PDict d)"
| "declared_memory_policy _ = Inl (DefinitionError ''memory_policy'')"

text \<open>\<open>dict(value or {})\<close>; a list of pairs is a mapping too, and a two-character string a pair.\<close>

fun dict_pair :: "pyval \<Rightarrow> (string \<times> pyval) res" where
  "dict_pair (PList [PStr k, v]) = Inr (k, v)"
| "dict_pair (PStr [a, b]) = Inr ([a], PStr [b])"
| "dict_pair _ = Inl (TypeErr ''dict'')"

definition dict_or_empty_arg :: "pyval \<Rightarrow> dict res" where
  "dict_or_empty_arg v =
     (if \<not> py_truthy v then Inr []
      else case v of
        PDict d \<Rightarrow> Inr d
      | PList vs \<Rightarrow> bindR (mapR dict_pair vs) (\<lambda>ps. Inr (foldl (\<lambda>d (k, w). dset d k w) [] ps))
      | _ \<Rightarrow> Inl (TypeErr ''dict''))"

subsection \<open>Overrides of \<open>Agent.from_folder\<close>\<close>

definition validate_inline_skills :: "string list \<Rightarrow> (string \<times> string) list \<Rightarrow> unit res" where
  "validate_inline_skills sk inline =
     guardR (set (dkeys inline) \<subseteq> set sk) (DefinitionError ''skill_contents'')"

fun override_error :: "override \<Rightarrow> bool" where
  "override_error (OvOther _) = True"
| "override_error _ = False"

fun untrusted_override_ok :: "override \<Rightarrow> bool" where
  "untrusted_override_ok (OvUntrustedInput v) = is_bool v"
| "untrusted_override_ok _ = True"

fun apply_override :: "raw_definition \<Rightarrow> override \<Rightarrow> raw_definition" where
  "apply_override d (OvName s) = d\<lparr>role_name := s\<rparr>"
| "apply_override d (OvVersion s) = d\<lparr>version := s\<rparr>"
| "apply_override d (OvSystemPrompt s) = d\<lparr>system_prompt := s\<rparr>"
| "apply_override d (OvTools ts) = d\<lparr>tools := ts\<rparr>"
| "apply_override d (OvSkills ts) = d\<lparr>skills := ts\<rparr>"
| "apply_override d (OvSkillContents m) = d\<lparr>inline_skills := m\<rparr>"
| "apply_override d (OvContext m) = d\<lparr>ctx := m\<rparr>"
| "apply_override d (OvPermissions v) = d\<lparr>permissions := v\<rparr>"
| "apply_override d (OvAutonomy s) = d\<lparr>autonomy := s\<rparr>"
| "apply_override d (OvEscalationRules v) = d\<lparr>escalation_rules := v\<rparr>"
| "apply_override d (OvDelegationPolicy v) = d\<lparr>delegation_policy := v\<rparr>"
| "apply_override d (OvMemoryPolicy v) = d\<lparr>memory_policy_decl := v\<rparr>"
| "apply_override d (OvAuditPolicy v) = d\<lparr>audit_policy := v\<rparr>"
| "apply_override d (OvExecutionLimits v) = d\<lparr>execution_limits := v\<rparr>"
| "apply_override d (OvModel v) = d\<lparr>model_decl := v\<rparr>"
| "apply_override d (OvUntrustedInput (PBool b)) = d\<lparr>untrusted_input := Some b\<rparr>"
| "apply_override d _ = d"

fun is_skill_contents :: "override \<Rightarrow> bool" where
  "is_skill_contents (OvSkillContents _) = True"
| "is_skill_contents _ = False"

definition apply_agent_folder_overrides :: "raw_definition \<Rightarrow> override list \<Rightarrow> raw_definition res" where
  "apply_agent_folder_overrides d overrides =
     bindR (guardR (\<not> list_ex override_error overrides) (DefinitionError ''overrides'')) (\<lambda>_.
     bindR (guardR (list_all untrusted_override_ok overrides) (DefinitionError ''untrusted_input'')) (\<lambda>_.
       let d' = foldl apply_override d overrides in
       bindR (if list_ex is_skill_contents overrides
              then validate_inline_skills (skills d') (inline_skills d') else Inr ()) (\<lambda>_.
         Inr d')))"

fun extends_override :: "override list \<Rightarrow> override option" where
  "extends_override [] = None"
| "extends_override (OvExtendsLocator l # _) = Some (OvExtendsLocator l)"
| "extends_override (OvExtendsValue v # _) = Some (OvExtendsValue v)"
| "extends_override (_ # os) = extends_override os"

fun overrides_of :: "locator \<Rightarrow> override list" where
  "overrides_of (FolderLocator _ _ os) = os"
| "overrides_of _ = []"

text \<open>The parent of a folder or a predefined role: the override, the manifest's key, or none.\<close>

definition declared_parent :: "env \<Rightarrow> locator \<Rightarrow> dict \<Rightarrow> locator option res" where
  "declared_parent e locator manifest_fm =
     (case extends_override (overrides_of locator) of
        Some (OvExtendsLocator l) \<Rightarrow> Inr (Some l)
      | Some (OvExtendsValue v) \<Rightarrow> bindR (extends_target e locator v) (\<lambda>l. Inr (Some l))
      | _ \<Rightarrow>
          (case map_of manifest_fm ''extends'' of
             Some v \<Rightarrow> bindR (extends_target e locator v) (\<lambda>l. Inr (Some l))
           | None \<Rightarrow> Inr None))"

subsection \<open>Reading the three files\<close>

fun read_role_md :: "env \<Rightarrow> string \<Rightarrow> string \<Rightarrow> (pyval \<times> string) res" where
  "read_role_md e role_type filename =
     (case role_file e role_type filename of
        None \<Rightarrow> Inl (DefinitionError ''file not found'')
      | Some text \<Rightarrow> split_frontmatter (env_yaml e) text)"

definition read_contained_md :: "env \<Rightarrow> path \<Rightarrow> path \<Rightarrow> string \<Rightarrow> (pyval \<times> string) res" where
  "read_contained_md e base_root folder filename =
     (case resolve_within_root e base_root folder filename of
        None \<Rightarrow> Inl (DefinitionError ''containment'')
      | Some target \<Rightarrow>
          (case read_within_root e base_root target of
             Inl _ \<Rightarrow> Inl (DefinitionError ''containment'')
           | Inr text \<Rightarrow> split_frontmatter (env_yaml e) text))"

text \<open>Reading a key of parsed front matter that is not a mapping raises \<open>AttributeError\<close>.\<close>

fun as_mapping :: "pyval \<Rightarrow> dict res" where
  "as_mapping (PDict d) = Inr d"
| "as_mapping _ = Inl (RuntimeErr ''AttributeError'')"

record role_files =
  rf_default_name :: string
  rf_role :: dict
  rf_body :: string
  rf_manifest :: dict
  rf_policy :: pyval
  rf_policy_body :: string

definition read_role_files ::
  "string \<Rightarrow> (string \<Rightarrow> (pyval \<times> string) res) \<Rightarrow> role_files res" where
  "read_role_files role_type read =
     bindR (read ''role.md'') (\<lambda>(role_fm, role_body).
     bindR (split_design_notes role_body) (\<lambda>body.
     bindR (read ''manifest.md'') (\<lambda>(manifest_fm, _).
     bindR (read ''policy.md'') (\<lambda>(policy_fm, policy_body).
     bindR (as_mapping role_fm) (\<lambda>rfm.
     bindR (as_mapping manifest_fm) (\<lambda>mfm.
       Inr \<lparr>rf_default_name = role_type, rf_role = rfm, rf_body = body, rf_manifest = mfm,
            rf_policy = policy_fm, rf_policy_body = policy_body\<rparr>))))))"

text \<open>\<open>str(role_fm.get(a, manifest_fm.get(b, default)))\<close>\<close>

definition named_value :: "dict \<Rightarrow> dict \<Rightarrow> string \<Rightarrow> string \<Rightarrow> string \<Rightarrow> string" where
  "named_value role_fm manifest_fm a b dflt =
     py_str (case map_of role_fm a of Some v \<Rightarrow> v
             | None \<Rightarrow> (case map_of manifest_fm b of Some v \<Rightarrow> v | None \<Rightarrow> PStr dflt))"

definition described_rules :: "dict \<Rightarrow> string \<Rightarrow> dict res" where
  "described_rules rules policy_body =
     bindR (check_escalation_descriptions rules) (\<lambda>_.
     bindR (parse_escalation_descriptions policy_body (as_str_list (dget rules ''conditions''))) (\<lambda>parsed.
       Inr (if parsed \<noteq> [] \<or> ''descriptions'' \<in> set (dkeys rules)
            then dset rules ''descriptions''
                   (PDict (dmerge (map (\<lambda>(k, t). (k, PStr t)) parsed) (descriptions_of rules)))
            else rules)))"

text \<open>The definition the three files give, once the manifest's command tools are parsed.\<close>

definition build_definition ::
  "role_files \<Rightarrow> command_tool_declaration list \<Rightarrow> path option \<Rightarrow> path option \<Rightarrow> raw_definition res" where
  "build_definition f decls skills_at base_root =
     bindR (as_mapping (rf_policy f)) (\<lambda>policy_fm.
     bindR (dict_or_empty_arg (dget policy_fm ''escalation_rules'')) (\<lambda>rules0.
     bindR (described_rules rules0 (rf_policy_body f)) (\<lambda>rules.
     bindR (dict_or_empty_arg (dget (rf_manifest f) ''context'')) (\<lambda>context.
     bindR (dict_or_empty_arg (dget policy_fm ''delegation_policy'')) (\<lambda>delegation.
     bindR (declared_memory_policy (dget policy_fm ''memory_policy'')) (\<lambda>memory.
     bindR (dict_or_empty_arg (dget policy_fm ''audit_policy'')) (\<lambda>audit.
     bindR (parse_untrusted_input policy_fm) (\<lambda>untrusted.
       Inr \<lparr>role_name = named_value (rf_role f) (rf_manifest f) ''name'' ''role'' (rf_default_name f),
            version = named_value (rf_role f) (rf_manifest f) ''version'' ''version'' ''1.0'',
            deployment = None,
            system_prompt = rf_body f,
            tools = as_str_list (dget (rf_manifest f) ''tools''),
            skills = as_str_list (dget (rf_manifest f) ''skills''),
            ctx = context,
            permissions = (case map_of (rf_manifest f) ''permissions'' of Some v \<Rightarrow> v | None \<Rightarrow> PList []),
            autonomy = (case map_of policy_fm ''autonomy'' of Some v \<Rightarrow> py_str v | None \<Rightarrow> []),
            escalation_rules = PDict rules,
            delegation_policy = PDict delegation,
            memory_policy_decl = memory,
            audit_policy = PDict audit,
            execution_limits = dget policy_fm ''execution_limits'',
            untrusted_input = untrusted,
            command_tools = dkeys (foldl (\<lambda>m d. dset m (ct_name d) d) [] decls),
            command_tool_declarations = foldl (\<lambda>m d. dset m (ct_name d) d) [] decls,
            skills_folder = skills_at,
            inline_skills = [],
            importer_root = base_root,
            model_decl = dget policy_fm ''model''\<rparr>))))))))"

type_synonym loaded = "raw_definition \<times> locator option \<times> bool"

definition finish_load ::
  "env \<Rightarrow> locator \<Rightarrow> role_files \<Rightarrow> path option \<Rightarrow> path option \<Rightarrow> registry \<Rightarrow> loaded res \<times> registry" where
  "finish_load e locator f skills_at base_root reg =
     (case declared_parent e locator (rf_manifest f) of
        Inl x \<Rightarrow> (Inl x, reg)
      | Inr parent \<Rightarrow>
          (case parse_command_tools (env_which e) (rf_manifest f) reg of
             (Inl x, reg') \<Rightarrow> (Inl x, reg')
           | (Inr decls, reg') \<Rightarrow>
               (bindR (build_definition f decls skills_at base_root) (\<lambda>d.
                bindR (if overrides_of locator \<noteq> []
                       then apply_agent_folder_overrides d (overrides_of locator) else Inr d) (\<lambda>d'.
                  Inr (d', parent, py_truthy (dget (rf_manifest f) ''abstract'')))), reg')))"

fun load_role_files :: "env \<Rightarrow> locator \<Rightarrow> registry \<Rightarrow> loaded res \<times> registry" where
  "load_role_files e (InlineLocator oid raw NoParent) reg = (Inr (raw, None, False), reg)"
| "load_role_files e (InlineLocator oid raw (ParentLocator l)) reg = (Inr (raw, Some l, False), reg)"
| "load_role_files e (InlineLocator oid raw (ParentName s)) reg =
     (bindR (extends_target e (InlineLocator oid raw (ParentName s)) (PStr s)) (\<lambda>l.
        Inr (raw, Some l, False)), reg)"
| "load_role_files e (FolderLocator folder base_root os) reg =
     (case bindR (contained_folder e folder base_root) (\<lambda>f.
             bindR (read_role_files (last f) (read_contained_md e base_root f)) (\<lambda>files.
               Inr (f, files))) of
        Inl x \<Rightarrow> (Inl x, reg)
      | Inr (f, files) \<Rightarrow>
          finish_load e (FolderLocator folder base_root os) files (Some (f @ [''skills''])) (Some base_root) reg)"
| "load_role_files e (RoleName role_type) reg =
     (case bindR (require_platform_root e) (\<lambda>_.
           bindR (validate_segment role_type) (\<lambda>_.
             case role_dir e role_type of
               None \<Rightarrow> Inl (RuntimeErr ''OSError'')
             | Some b \<Rightarrow> if b then read_role_files role_type (read_role_md e role_type)
                         else Inl (DefinitionError ''role folder''))) of
        Inl x \<Rightarrow> (Inl x, reg)
      | Inr files \<Rightarrow> finish_load e (RoleName role_type) files None None reg)"

subsection \<open>The walk\<close>

datatype locator_id = KFolder path | KInline nat | KPlatform string

fun locator_key :: "env \<Rightarrow> locator \<Rightarrow> locator_id res" where
  "locator_key e (FolderLocator folder _ _) =
     (case realpath e folder of Some p \<Rightarrow> Inr (KFolder p) | None \<Rightarrow> Inl (RuntimeErr ''resolve''))"
| "locator_key e (InlineLocator oid _ _) = Inr (KInline oid)"
| "locator_key e (RoleName s) = Inr (KPlatform s)"

text \<open>One entry of the walked chain: the definition, who wrote it, and its abstractness.\<close>

record chain_entry =
  ce_definition :: raw_definition
  ce_importer :: bool
  ce_abstract :: bool
  ce_warned :: bool

definition extends_failure :: "locator_id list \<Rightarrow> err \<Rightarrow> err" where
  "extends_failure seen x =
     (if seen = [] then x else case x of DefinitionError _ \<Rightarrow> DefinitionError ''extends'' | _ \<Rightarrow> x)"

fun is_deprecated :: "locator \<Rightarrow> bool" where
  "is_deprecated (RoleName s) = (s \<in> set DEPRECATED_PREDEFINED_ROLES)"
| "is_deprecated _ = False"

text \<open>
  The loop, leaf first: \<open>seen\<close> are the keys of the chain so far, and \<open>named\<close> says that the caller
  named the current locator, directly or as an importer's parent.
\<close>

function walk_chain ::
  "env \<Rightarrow> locator \<Rightarrow> bool \<Rightarrow> locator_id list \<Rightarrow> registry \<Rightarrow> chain_entry list res \<times> registry" where
  "walk_chain e current named seen reg =
     (case locator_key e current of
        Inl x \<Rightarrow> (Inl x, reg)
      | Inr key \<Rightarrow>
          if key \<in> set seen then (Inl (DefinitionError ''extends: cycle''), reg)
          else if MAX_ROLE_CHAIN_DEPTH < length seen + 1 then (Inl (DefinitionError ''extends: depth''), reg)
          else (case load_role_files e current reg of
             (Inl x, reg') \<Rightarrow> (Inl (extends_failure seen x), reg')
           | (Inr (d, parent, abstract), reg') \<Rightarrow>
               let entry = \<lparr>ce_definition = d, ce_importer = is_importer current, ce_abstract = abstract,
                            ce_warned = named \<and> is_deprecated current\<rparr>
               in case parent of
                    None \<Rightarrow> (Inr [entry], reg')
                  | Some next \<Rightarrow>
                      (case walk_chain e next (is_importer current) (seen @ [key]) reg' of
                         (Inl x, reg'') \<Rightarrow> (Inl x, reg'')
                       | (Inr rest, reg'') \<Rightarrow> (Inr (entry # rest), reg''))))"
  by pat_completeness auto
termination
  by (relation "measure (\<lambda>(e, current, named, seen, reg). Suc MAX_ROLE_CHAIN_DEPTH - length seen)") auto

declare walk_chain.simps [simp del]

definition resolve_role_chain ::
  "env \<Rightarrow> locator \<Rightarrow> dict \<Rightarrow> registry \<Rightarrow> (raw_definition \<times> bool) res \<times> registry" where
  "resolve_role_chain e locator limit_defaults reg =
     (case walk_chain e locator True [] reg of
        (Inl x, reg') \<Rightarrow> (Inl x, reg')
      | (Inr entries, reg') \<Rightarrow>
          (bindR (fold_chain limit_defaults (map (\<lambda>c. (ce_definition c, ce_importer c)) entries)) (\<lambda>d.
             Inr (d, ce_abstract (hd entries))), reg'))"

definition load_generic ::
  "env \<Rightarrow> locator \<Rightarrow> dict \<Rightarrow> registry \<Rightarrow> raw_definition res \<times> registry" where
  "load_generic e locator limit_defaults reg =
     (case resolve_role_chain e locator limit_defaults reg of
        (Inl x, reg') \<Rightarrow> (Inl x, reg')
      | (Inr (resolved, abstract), reg') \<Rightarrow>
          let r1 = (if autonomy resolved = [] then resolved\<lparr>autonomy := DEFAULT_AUTONOMY\<rparr> else resolved);
              r2 = (if untrusted_input r1 = None then r1\<lparr>untrusted_input := Some False\<rparr> else r1)
          in if abstract then (Inl (DefinitionError ''abstract role''), reg') else (Inr r2, reg'))"

subsection \<open>Facts about loading\<close>

lemma resolve_within_root_inside:
  "resolve_within_root e base_root base v = Some p \<Longrightarrow>
     \<exists>rr. realpath e base_root = Some rr \<and> strictly_inside rr p"
  by (auto simp: resolve_within_root_def split: if_splits option.splits)

lemma extends_platform_result:
  "extends_platform e name = Inr l \<Longrightarrow> l = RoleName name \<and> role_dir e name = Some True"
  by (auto simp: extends_platform_def bindR_eq_Inr split: option.splits bool.splits)

lemma platform_name_safe: "platform_role_name_or_none v = Some n \<Longrightarrow> safe_segment n"
  by (auto simp: platform_role_name_or_none_def Let_def split: if_splits)

lemma extends_folder_result:
  assumes "extends_folder e current v = Inr l"
  shows "\<exists>folder base_root os resolved rr. current = FolderLocator folder base_root os
     \<and> l = FolderLocator resolved base_root [] \<and> realpath e base_root = Some rr
     \<and> strictly_inside rr resolved \<and> realpath e folder \<noteq> Some resolved
     \<and> folder_exists e resolved = Some True"
  using assms resolve_within_root_inside
  by (cases current) (force split: option.splits if_splits bool.splits)+

lemma extends_target_cases:
  assumes "extends_target e current v = Inr l"
  shows "(\<exists>name. l = RoleName name \<and> safe_segment name \<and> role_dir e name = Some True)
     \<or> (\<exists>w. extends_folder e current w = Inr l)"
  using assms
  by (cases v) (auto simp: Let_def simp del: extends_folder.simps
      dest!: extends_platform_result platform_name_safe split: if_splits option.splits)

lemma parent_of_role_is_role:
  assumes "load_role_files e (RoleName s) reg = (Inr (d, Some l, ab), reg')"
  shows "\<not> is_importer l"
proof -
  obtain f where "finish_load e (RoleName s) f None None reg = (Inr (d, Some l, ab), reg')"
    using assms by (auto split: sum.splits)
  then have "declared_parent e (RoleName s) (rf_manifest f) = Inr (Some l)"
    by (auto simp: finish_load_def bindR_eq_Inr split: sum.splits prod.splits)
  then obtain v where "extends_target e (RoleName s) v = Inr l"
    by (auto simp: declared_parent_def bindR_eq_Inr split: option.splits)
  then show ?thesis using extends_target_cases extends_folder_result by fastforce
qed

text \<open>One accepted step of the walk.\<close>

lemma walk_step:
  assumes "walk_chain e l named seen reg = (Inr es, reg')"
  shows "\<exists>key d parent ab regm entry. locator_key e l = Inr key \<and> key \<notin> set seen
    \<and> length seen < MAX_ROLE_CHAIN_DEPTH \<and> load_role_files e l reg = (Inr (d, parent, ab), regm)
    \<and> entry = \<lparr>ce_definition = d, ce_importer = is_importer l, ce_abstract = ab,
               ce_warned = named \<and> is_deprecated l\<rparr>
    \<and> (parent = None \<and> es = [entry] \<and> reg' = regm
       \<or> (\<exists>next rest. parent = Some next \<and> es = entry # rest
            \<and> walk_chain e next (is_importer l) (seen @ [key]) regm = (Inr rest, reg')))"
  using assms
  by (subst (asm) walk_chain.simps)
    (auto simp: Let_def split: sum.splits if_splits prod.splits option.splits)

text \<open>
  The chain a locator starts, without any bound: every definition with its own \<open>extends:\<close> as the next, leaf first.  A link is
  a locator, the definition loaded from it and whether that is abstract.
\<close>

type_synonym link = "locator \<times> raw_definition \<times> bool"

inductive extends_chain :: "env \<Rightarrow> registry \<Rightarrow> locator \<Rightarrow> link list \<Rightarrow> registry \<Rightarrow> bool" for e :: env where
  Root: "load_role_files e l reg = (Inr (d, None, ab), reg') \<Longrightarrow> extends_chain e reg l [(l, d, ab)] reg'"
| Child: "load_role_files e l reg = (Inr (d, Some p, ab), reg1) \<Longrightarrow> extends_chain e reg1 p links reg' \<Longrightarrow>
     extends_chain e reg l ((l, d, ab) # links) reg'"

text \<open>The definition of a link, and whether an importer wrote it; the links up to eight, none of them twice.\<close>

definition authored :: "link \<Rightarrow> raw_definition \<times> bool" where
  "authored x = (case x of (l, d, ab) \<Rightarrow> (d, is_importer l))"

definition keyed :: "env \<Rightarrow> link list \<Rightarrow> locator_id list \<Rightarrow> bool" where
  "keyed e links ks \<longleftrightarrow> map (\<lambda>x. locator_key e (fst x)) links = map Inr ks \<and> distinct ks"

definition chain_ok :: "env \<Rightarrow> link list \<Rightarrow> bool" where
  "chain_ok e links \<longleftrightarrow> length links \<le> 8 \<and> (\<exists>ks. keyed e links ks)"

lemma walk_is_chain:
  "walk_chain e l named seen reg = (Inr es, reg') \<Longrightarrow>
     \<exists>links ks. extends_chain e reg l links reg'
       \<and> map (\<lambda>c. ((ce_definition c, ce_importer c), ce_abstract c)) es = map (\<lambda>x. (authored x, snd (snd x))) links
       \<and> keyed e links ks \<and> set ks \<inter> set seen = {} \<and> length seen + length links \<le> MAX_ROLE_CHAIN_DEPTH"
proof (induction e l named seen reg arbitrary: es reg' rule: walk_chain.induct)
  case (1 e current named seen reg)
  from walk_step [OF "1.prems"] obtain key d parent ab regm entry where
    k: "locator_key e current = Inr key" "key \<notin> set seen" "length seen < MAX_ROLE_CHAIN_DEPTH"
    and l: "load_role_files e current reg = (Inr (d, parent, ab), regm)"
    and en: "entry = \<lparr>ce_definition = d, ce_importer = is_importer current, ce_abstract = ab,
               ce_warned = named \<and> is_deprecated current\<rparr>"
    and c: "parent = None \<and> es = [entry] \<and> reg' = regm
       \<or> (\<exists>next rest. parent = Some next \<and> es = entry # rest
            \<and> walk_chain e next (is_importer current) (seen @ [key]) regm = (Inr rest, reg'))"
    by blast
  from c show ?case
  proof (elim disjE exE conjE)
    assume "parent = None" "es = [entry]" "reg' = regm"
    then show ?thesis using k l en
      by (intro exI [of _ "[(current, d, ab)]"] exI [of _ "[key]"]) (auto simp: authored_def keyed_def intro: extends_chain.Root)
  next
    fix nx rest assume n: "parent = Some nx" and es: "es = entry # rest"
      and w: "walk_chain e nx (is_importer current) (seen @ [key]) regm = (Inr rest, reg')"
    have dep: "\<not> MAX_ROLE_CHAIN_DEPTH < length seen + 1" using k(3) by simp
    from "1.IH" [OF k(1,2) dep l [symmetric] refl refl refl refl n w] obtain links ks where
      "extends_chain e regm nx links reg'"
      "map (\<lambda>c. ((ce_definition c, ce_importer c), ce_abstract c)) rest = map (\<lambda>x. (authored x, snd (snd x))) links"
      "keyed e links ks" "set ks \<inter> set (seen @ [key]) = {}" "length (seen @ [key]) + length links \<le> MAX_ROLE_CHAIN_DEPTH"
      by blast
    then show ?thesis using k l en n es
      by (intro exI [of _ "(current, d, ab) # links"] exI [of _ "key # ks"]) (auto simp: authored_def keyed_def intro: extends_chain.Child)
  qed
qed

lemma chain_is_walked:
  "extends_chain e reg l links reg' \<Longrightarrow> keyed e links ks \<Longrightarrow> set ks \<inter> set seen = {} \<Longrightarrow>
     length seen + length links \<le> MAX_ROLE_CHAIN_DEPTH \<Longrightarrow>
     \<exists>es. walk_chain e l named seen reg = (Inr es, reg')
       \<and> map (\<lambda>c. ((ce_definition c, ce_importer c), ce_abstract c)) es = map (\<lambda>x. (authored x, snd (snd x))) links"
proof (induction arbitrary: named seen ks rule: extends_chain.induct)
  case (Root l reg d ab reg')
  then obtain key where "locator_key e l = Inr key" "key \<notin> set seen" by (cases ks) (auto simp: keyed_def)
  then show ?case using Root by (subst walk_chain.simps) (simp add: authored_def)
next
  case (Child l reg d p ab reg1 links reg')
  obtain key ks' where key: "locator_key e l = Inr key" and ks: "ks = key # ks'" "keyed e links ks'" "key \<notin> set ks'"
    using Child.prems(1) by (cases ks) (auto simp: keyed_def)
  have disj: "set ks' \<inter> set (seen @ [key]) = {}" "key \<notin> set seen" using Child.prems(2) ks by auto
  have len: "length (seen @ [key]) + length links \<le> MAX_ROLE_CHAIN_DEPTH" using Child.prems(3) by simp
  obtain es where w: "walk_chain e p (is_importer l) (seen @ [key]) reg1 = (Inr es, reg')"
    and "map (\<lambda>c. ((ce_definition c, ce_importer c), ce_abstract c)) es = map (\<lambda>x. (authored x, snd (snd x))) links"
    using Child.IH [OF ks(2) disj(1) len] by blast
  moreover have "\<not> MAX_ROLE_CHAIN_DEPTH < length seen + 1" using Child.prems(3) by simp
  ultimately show ?case using Child.hyps(1) key disj(2) by (subst walk_chain.simps) (simp add: authored_def w)
qed

lemma extends_chain_nonempty: "extends_chain e reg l links reg' \<Longrightarrow> links \<noteq> [] \<and> fst (hd links) = l"
  by (induction rule: extends_chain.induct) auto

text \<open>A definition of the platform never extends an importer's, so the importer's links come first.\<close>

lemma platform_chain: "extends_chain e reg l links reg' \<Longrightarrow> \<not> is_importer l \<Longrightarrow> \<forall>x \<in> set links. \<not> is_importer (fst x)"
proof (induction rule: extends_chain.induct)
  case (Child l reg d p ab reg1 links reg')
  obtain s where "l = RoleName s" using Child.prems by (cases l) auto
  then have "\<not> is_importer p" using parent_of_role_is_role Child.hyps(1) by blast
  then show ?case using Child by auto
qed simp

lemma chain_split:
  "extends_chain e reg l links reg' \<Longrightarrow>
     \<exists>agents roles. links = agents @ roles \<and> (\<forall>x \<in> set agents. is_importer (fst x)) \<and> (\<forall>x \<in> set roles. \<not> is_importer (fst x))
       \<and> (is_importer l \<longrightarrow> agents \<noteq> [])"
proof (induction rule: extends_chain.induct)
  case (Root l reg d ab reg')
  show ?case
  proof (cases "is_importer l")
    case True
    then show ?thesis by (intro exI [of _ "[(l, d, ab)]"] exI [of _ "[]"]) simp
  next
    case False
    then show ?thesis by (intro exI [of _ "[]"] exI [of _ "[(l, d, ab)]"]) simp
  qed
next
  case (Child l reg d p ab reg1 links reg')
  show ?case
  proof (cases "is_importer l")
    case True
    obtain agents roles where "links = agents @ roles" "\<forall>x \<in> set agents. is_importer (fst x)"
      "\<forall>x \<in> set roles. \<not> is_importer (fst x)" using Child.IH by blast
    then show ?thesis using True by (intro exI [of _ "(l, d, ab) # agents"] exI [of _ roles]) auto
  next
    case False
    have "extends_chain e reg l ((l, d, ab) # links) reg'" by (rule extends_chain.Child [OF Child.hyps(1,2)])
    from platform_chain [OF this False] False show ?thesis
      by (intro exI [of _ "[]"] exI [of _ "(l, d, ab) # links"]) auto
  qed
qed

text \<open>The rest of a chain is the chain of its first locator, from the registry the loading had reached there.\<close>

lemma chain_suffix:
  "extends_chain e reg l links reg' \<Longrightarrow> links = xs @ ys \<Longrightarrow> ys \<noteq> [] \<Longrightarrow> \<exists>reg1. extends_chain e reg1 (fst (hd ys)) ys reg'"
proof (induction arbitrary: xs rule: extends_chain.induct)
  case (Root l reg d ab reg')
  then have "ys = [(l, d, ab)]" by (cases xs) auto
  then show ?case using extends_chain.Root [OF Root.hyps] by auto
next
  case (Child l reg d p ab reg1 links reg')
  show ?case
  proof (cases xs)
    case Nil
    then show ?thesis using Child.prems(1) extends_chain.Child [OF Child.hyps(1,2)] by (intro exI [of _ reg]) auto
  next
    case (Cons x zs)
    then show ?thesis using Child.IH [of zs] Child.prems by simp
  qed
qed

lemma keyed_suffix: "keyed e (xs @ ys) ks \<Longrightarrow> \<exists>ks'. keyed e ys ks'"
proof -
  assume k: "keyed e (xs @ ys) ks"
  have "map (\<lambda>x. locator_key e (fst x)) ys = drop (length xs) (map (\<lambda>x. locator_key e (fst x)) (xs @ ys))" by simp
  also have "\<dots> = map Inr (drop (length xs) ks)" using k by (simp only: keyed_def drop_map)
  finally show ?thesis using k by (auto simp: keyed_def)
qed

text \<open>What resolving a locator accepts, and what it makes of it.\<close>

lemma resolved_iff_chain:
  "resolve_role_chain e locator ld reg = (Inr (r, abstract), reg') \<longleftrightarrow>
     (\<exists>links. extends_chain e reg locator links reg' \<and> chain_ok e links
        \<and> fold_chain ld (map authored links) = Inr r \<and> abstract = snd (snd (hd links)))"
proof -
  have pairs: "map (\<lambda>c. (ce_definition c, ce_importer c)) es = map authored links \<and> (links \<noteq> [] \<longrightarrow> ce_abstract (hd es) = snd (snd (hd links)))"
    if "map (\<lambda>c. ((ce_definition c, ce_importer c), ce_abstract c)) es = map (\<lambda>x. (authored x, snd (snd x))) links" for es links
  proof -
    from that have "length es = length links" by (rule map_eq_imp_length_eq)
    then show ?thesis using that by (induction es links rule: list_induct2) auto
  qed
  show ?thesis
  proof
    assume "resolve_role_chain e locator ld reg = (Inr (r, abstract), reg')"
    then obtain es where w: "walk_chain e locator True [] reg = (Inr es, reg')"
      and f: "fold_chain ld (map (\<lambda>c. (ce_definition c, ce_importer c)) es) = Inr r" and a: "abstract = ce_abstract (hd es)"
      by (auto simp: resolve_role_chain_def bindR_eq_Inr split: sum.splits prod.splits)
    from walk_is_chain [OF w] obtain links ks where c: "extends_chain e reg locator links reg'"
      and m: "map (\<lambda>c. ((ce_definition c, ce_importer c), ce_abstract c)) es = map (\<lambda>x. (authored x, snd (snd x))) links"
      and k: "keyed e links ks" "length links \<le> MAX_ROLE_CHAIN_DEPTH" by auto
    have "chain_ok e links" using k by (auto simp: chain_ok_def MAX_ROLE_CHAIN_DEPTH_def)
    then show "\<exists>links. extends_chain e reg locator links reg' \<and> chain_ok e links
        \<and> fold_chain ld (map authored links) = Inr r \<and> abstract = snd (snd (hd links))"
      using c f a pairs [OF m] extends_chain_nonempty [OF c] by auto
  next
    assume "\<exists>links. extends_chain e reg locator links reg' \<and> chain_ok e links
        \<and> fold_chain ld (map authored links) = Inr r \<and> abstract = snd (snd (hd links))"
    then obtain links ks where c: "extends_chain e reg locator links reg'" and k: "keyed e links ks" "length links \<le> MAX_ROLE_CHAIN_DEPTH"
      and f: "fold_chain ld (map authored links) = Inr r" and a: "abstract = snd (snd (hd links))"
      by (auto simp: chain_ok_def MAX_ROLE_CHAIN_DEPTH_def)
    obtain es where w: "walk_chain e locator True [] reg = (Inr es, reg')"
      and m: "map (\<lambda>c. ((ce_definition c, ce_importer c), ce_abstract c)) es = map (\<lambda>x. (authored x, snd (snd x))) links"
      using chain_is_walked [OF c k(1), of "[]" True] k(2) by auto
    show "resolve_role_chain e locator ld reg = (Inr (r, abstract), reg')"
      using w f a pairs [OF m] extends_chain_nonempty [OF c] by (simp add: resolve_role_chain_def)
  qed
qed

subsection \<open>Properties\<close>

text \<open>
  An \<open>extends:\<close> value lands in exactly one place or is refused: a predefined role whose name is
  a single safe path segment and whose folder exists, or, only from an importer's folder, another
  existing folder that lies strictly inside the importer's root once symlinks are followed and is
  not the declaring folder itself.
\<close>

theorem extends_contained:
  assumes "extends_target e current v = Inr l"
  shows "(\<exists>name. l = RoleName name \<and> safe_segment name \<and> CHR ''/'' \<notin> set name \<and> name \<notin> {''.'', ''..''}
            \<and> role_dir e name = Some True)
     \<or> (\<exists>folder base_root os resolved rr. current = FolderLocator folder base_root os
          \<and> l = FolderLocator resolved base_root [] \<and> realpath e base_root = Some rr
          \<and> strictly_inside rr resolved \<and> realpath e folder \<noteq> Some resolved
          \<and> folder_exists e resolved = Some True)"
proof -
  have "CHR ''/'' \<notin> set name \<and> name \<notin> {''.'', ''..''}" if "safe_segment name" for name
    using that by (auto simp: safe_segment_def is_word_ascii_def is_letter_def is_digit_def split: list.splits)
  then show ?thesis
    using extends_target_cases [OF assms] extends_folder_result by blast
qed

definition demo_env :: env where
  "demo_env = \<lparr>env_yaml = (\<lambda>t. Inr PNone), env_which = (\<lambda>_. None), platform_root_exists = True,
     role_dir = (\<lambda>n. Some (n = ''base'')),
     role_file = (\<lambda>n f. if n = ''base'' then Some ''Be kind.'' else None),
     realpath = Some, folder_exists = (\<lambda>p. Some True),
     read_within_root = (\<lambda>r p. Inr ''Sell.''), deployments_root_exists = False,
     deployment_dir = (\<lambda>c r. False), deployment_file = (\<lambda>c r f. None)\<rparr>"

theorem extends_contained_witness:
  "extends_target demo_env (FolderLocator [''agents'', ''a''] [''agents''] []) (PStr ''sub/b/'')
     = Inr (FolderLocator [''agents'', ''a'', ''sub'', ''b''] [''agents''] [])
   \<and> strictly_inside [''agents''] [''agents'', ''a'', ''sub'', ''b'']
   \<and> extends_target demo_env (FolderLocator [''agents'', ''a''] [''agents''] []) (PStr ''/etc'')
     = Inl (DefinitionError ''extends'')"
proof -
  have t: "extends_target demo_env (FolderLocator [''agents'', ''a''] [''agents''] []) (PStr ''sub/b/'')
     = Inr (FolderLocator [''agents'', ''a'', ''sub'', ''b''] [''agents''] [])"
    by code_simp
  moreover have "extends_target demo_env (FolderLocator [''agents'', ''a''] [''agents''] []) (PStr ''/etc'')
     = Inl (DefinitionError ''extends'')"
    by code_simp
  moreover have "strictly_inside [''agents''] [''agents'', ''a'', ''sub'', ''b'']"
    using extends_contained [OF t] by (simp add: demo_env_def)
  ultimately show ?thesis by blast
qed

text \<open>
  C14 Resolving an agent. A locator resolves exactly when the chain of its own \<open>extends:\<close> ends, with at most eight definitions
  and none of them twice, and that chain folds; the result is the fold, abstract when the locator's own definition is. The
  chain is importers' definitions, then predefined ones; and where an importer's chain reaches a predefined role, that role
  resolves by itself, at the point of the walk where it is reached, and the result is no looser than it.
\<close>

theorem resolved_chain_trust_boundary:
  "(resolve_role_chain e locator limit_defaults reg = (Inr (r, abstract), reg') \<longleftrightarrow>
      (\<exists>links. extends_chain e reg locator links reg' \<and> chain_ok e links
         \<and> fold_chain limit_defaults (map authored links) = Inr r \<and> abstract = snd (snd (hd links))))
   \<and> (resolve_role_chain e locator limit_defaults reg = (Inr (r, abstract), reg') \<longrightarrow>
      (\<exists>agents roles. extends_chain e reg locator (agents @ roles) reg'
         \<and> (\<forall>x \<in> set agents. is_importer (fst x)) \<and> (\<forall>x \<in> set roles. \<not> is_importer (fst x))
         \<and> (is_importer locator \<longrightarrow> agents \<noteq> [])
         \<and> (roles \<noteq> [] \<longrightarrow> (\<forall>(l, d, ab) \<in> set agents. distinct_rules d) \<longrightarrow>
              (\<exists>reg1 ancestor ab. extends_chain e reg1 (fst (hd roles)) roles reg'
                 \<and> resolve_role_chain e (fst (hd roles)) limit_defaults reg1 = (Inr (ancestor, ab), reg')
                 \<and> no_looser limit_defaults ancestor r))))"
    (is "?iff \<and> (?ok \<longrightarrow> ?order)")
proof (intro conjI impI)
  show ?iff by (rule resolved_iff_chain)
  assume ?ok
  then obtain links where c: "extends_chain e reg locator links reg'" and ok: "chain_ok e links"
    and f: "fold_chain limit_defaults (map authored links) = Inr r"
    using resolved_iff_chain by blast
  from chain_split [OF c] obtain agents roles where ar: "links = agents @ roles" and imp: "\<forall>x \<in> set agents. is_importer (fst x)"
    and plat: "\<forall>x \<in> set roles. \<not> is_importer (fst x)" and ne: "is_importer locator \<longrightarrow> agents \<noteq> []" by blast
  have "\<exists>reg1 ancestor ab. extends_chain e reg1 (fst (hd roles)) roles reg'
      \<and> resolve_role_chain e (fst (hd roles)) limit_defaults reg1 = (Inr (ancestor, ab), reg')
      \<and> no_looser limit_defaults ancestor r"
    if r: "roles \<noteq> []" and d: "\<forall>(l, d, ab) \<in> set agents. distinct_rules d"
  proof -
    obtain reg1 where c1: "extends_chain e reg1 (fst (hd roles)) roles reg'" using chain_suffix [OF c ar r] by blast
    have ok1: "chain_ok e roles" using ok keyed_suffix unfolding chain_ok_def ar by fastforce
    have agents: "map authored agents = map (\<lambda>d. (d, True)) (map (\<lambda>x. fst (snd x)) agents)"
      using imp by (auto simp: authored_def)
    obtain a where fa: "fold_chain limit_defaults (map authored roles) = Inr a" and "no_looser limit_defaults a r"
    proof -
      have "map authored roles \<noteq> []" using r by simp
      from chain_prefix [OF f [unfolded ar map_append] this] obtain a where a: "fold_chain limit_defaults (map authored roles) = Inr a"
        and "foldR (fold_step limit_defaults) a (map (\<lambda>d. (d, True)) (rev (map (\<lambda>x. fst (snd x)) agents))) = Inr r"
        unfolding agents by (auto simp: rev_map)
      from importers_no_looser [OF this(2)] d have "no_looser limit_defaults a r" by fastforce
      then show ?thesis using that a by blast
    qed
    moreover have "resolve_role_chain e (fst (hd roles)) limit_defaults reg1 = (Inr (a, snd (snd (hd roles))), reg')"
      unfolding resolved_iff_chain using c1 ok1 fa by blast
    ultimately show ?thesis using c1 by blast
  qed
  then show ?order using c imp plat ne unfolding ar by blast
qed

text \<open>An importer's inline agent over the predefined role \<open>base\<close>, walked and folded.\<close>

inductive_cases extends_chainE: "extends_chain e reg l links reg'"

lemma demo_links:
  assumes "extends_chain demo_env families_registry (InlineLocator 0 eager_agent (ParentName ''base'')) (agents @ roles) reg'"
    and "\<forall>x \<in> set agents. is_importer (fst x)" and "\<forall>x \<in> set roles. \<not> is_importer (fst x)" and "agents \<noteq> []"
  shows "agents = [(InlineLocator 0 eager_agent (ParentName ''base''), eager_agent, False)] \<and> roles \<noteq> []
    \<and> fst (hd roles) = RoleName ''base''"
proof -
  let ?l = "InlineLocator 0 eager_agent (ParentName ''base'')"
  have "(case load_role_files demo_env ?l families_registry of
      (Inr (d, Some (RoleName n), ab), reg1) \<Rightarrow> n = ''base'' \<and> \<not> ab | _ \<Rightarrow> False)"
    by code_simp
  moreover have "fst (load_role_files demo_env ?l families_registry) = Inr (d, p, ab) \<Longrightarrow> d = eager_agent" for d p ab
    by (auto simp: bindR_eq_Inr simp del: extends_target.simps)
  ultimately obtain reg1 where load: "load_role_files demo_env ?l families_registry
      = (Inr (eager_agent, Some (RoleName ''base''), False), reg1)"
    by (fastforce split: prod.splits sum.splits option.splits locator.splits)
  from assms(1) obtain rest where rest: "agents @ roles = (?l, eager_agent, False) # rest"
    and chain: "extends_chain demo_env reg1 (RoleName ''base'') rest reg'"
    by (rule extends_chainE) (use load in auto)
  obtain as where agents: "agents = (?l, eager_agent, False) # as" and "rest = as @ roles"
    using rest assms(4) by (cases agents) auto
  moreover have "\<forall>x \<in> set rest. \<not> is_importer (fst x)" by (rule platform_chain [OF chain]) simp
  ultimately have "as = []" using assms(2) by (cases as) auto
  then show ?thesis using agents \<open>rest = as @ roles\<close> extends_chain_nonempty [OF chain] by simp
qed

theorem resolved_chain_trust_boundary_witness:
  "\<exists>links r ab reg'. let l = InlineLocator 0 eager_agent (ParentName ''base'') in
     resolve_role_chain demo_env l PLATFORM_DEFAULT_LIMITS families_registry = (Inr (r, ab), reg')
     \<and> extends_chain demo_env families_registry l ((l, eager_agent, False) # links) reg' \<and> tools r = [''shop'']
     \<and> (\<exists>reg1 base ab'. resolve_role_chain demo_env (RoleName ''base'') PLATFORM_DEFAULT_LIMITS reg1 = (Inr (base, ab'), reg')
          \<and> no_looser PLATFORM_DEFAULT_LIMITS base r)"
proof -
  let ?l = "InlineLocator 0 eager_agent (ParentName ''base'')"
  have "(case fst (resolve_role_chain demo_env ?l PLATFORM_DEFAULT_LIMITS families_registry) of
      Inr (r, ab) \<Rightarrow> tools r = [''shop''] | Inl _ \<Rightarrow> False)"
    by code_simp
  then obtain r ab reg' where r: "resolve_role_chain demo_env ?l PLATFORM_DEFAULT_LIMITS families_registry
      = (Inr (r, ab), reg')" and t: "tools r = [''shop'']"
    by (cases "resolve_role_chain demo_env ?l PLATFORM_DEFAULT_LIMITS families_registry")
      (auto split: sum.splits)
  note C = resolved_chain_trust_boundary [of demo_env ?l PLATFORM_DEFAULT_LIMITS families_registry r ab reg']
  from conjunct2 [OF C, rule_format, OF r] obtain agents roles where
    c: "extends_chain demo_env families_registry ?l (agents @ roles) reg'"
    and "\<forall>x \<in> set agents. is_importer (fst x)" "\<forall>x \<in> set roles. \<not> is_importer (fst x)"
    and nonempty: "is_importer ?l \<longrightarrow> agents \<noteq> []"
    and least: "roles \<noteq> [] \<longrightarrow> (\<forall>(l, d, ab) \<in> set agents. distinct_rules d) \<longrightarrow>
      (\<exists>reg1 ancestor ab. extends_chain demo_env reg1 (fst (hd roles)) roles reg'
         \<and> resolve_role_chain demo_env (fst (hd roles)) PLATFORM_DEFAULT_LIMITS reg1 = (Inr (ancestor, ab), reg')
         \<and> no_looser PLATFORM_DEFAULT_LIMITS ancestor r)"
    by blast
  moreover from this have "agents = [(?l, eager_agent, False)]" "roles \<noteq> []" "fst (hd roles) = RoleName ''base''"
    using demo_links nonempty by auto
  moreover have "distinct_rules eager_agent" by (simp add: distinct_rules_def eager_agent_def dkeys_def)
  ultimately show ?thesis unfolding Let_def using r t
    by (intro exI [of _ roles] exI [of _ r] exI [of _ ab] exI [of _ reg']) auto
qed

end
