(* ===== verification/Exec_Limits.thy ===== *)
theory Exec_Limits
  imports Prelude
begin

section \<open>Deployment-set execution limits\<close>

text \<open>
  \<open>execution_limits.py\<close>: the limits a deployment sets per runtime, checked one value at a time,
  against each other and against the outbox lease, and the fixed replies.  Durations are exact
  numbers; the lease is a parameter, as in the code, with the outbox's own as its default.
\<close>

definition OUTBOX_LEASE_S :: rat where "OUTBOX_LEASE_S = 600"
definition LEASE_MARGIN_S :: rat where "LEASE_MARGIN_S = 60"
definition REPLY_SEND_ALLOWANCE_S :: rat where "REPLY_SEND_ALLOWANCE_S = 20"

definition DEPLOYMENT_LIMIT_KEYS :: "string list" where
  "DEPLOYMENT_LIMIT_KEYS =
     [''total_execution_timeout_s'', ''tool_call_timeout_s'', ''max_tool_calls'', ''max_tool_errors'']"

definition MAX_TIMEOUT_REPLY_CHARS :: nat where "MAX_TIMEOUT_REPLY_CHARS = 1000"
definition MAX_TOOL_ERROR_REPLY_CHARS :: nat where "MAX_TOOL_ERROR_REPLY_CHARS = 1000"

definition max_turn_timeout_s :: "rat \<Rightarrow> rat" where
  "max_turn_timeout_s lease_s = lease_s - LEASE_MARGIN_S"

text \<open>\<open>total_s + LEASE_MARGIN_S >= lease_s\<close>, also for the non-finite floats.\<close>

fun outlasts_lease :: "pyval \<Rightarrow> rat \<Rightarrow> bool" where
  "outlasts_lease PNaN lease_s = False"
| "outlasts_lease PPosInf lease_s = True"
| "outlasts_lease PNegInf lease_s = False"
| "outlasts_lease v lease_s = (lease_s \<le> num_val v + LEASE_MARGIN_S)"

definition check_turn_fits_lease :: "pyval \<Rightarrow> rat \<Rightarrow> unit res" where
  "check_turn_fits_lease total_s lease_s =
     guardR (\<not> outlasts_lease total_s lease_s) (ValueErr ''turn does not fit the lease'')"

definition max_checkpointer_timeout_s :: rat where
  "max_checkpointer_timeout_s = (LEASE_MARGIN_S - REPLY_SEND_ALLOWANCE_S) / 2"

definition check_margin_covers_checkpointer :: "rat \<Rightarrow> unit res" where
  "check_margin_covers_checkpointer t =
     guardR (\<not> LEASE_MARGIN_S < 2 * t + REPLY_SEND_ALLOWANCE_S)
       (ValueErr ''checkpointer timeout does not fit the margin'')"

definition check_effective_limits :: "dict \<Rightarrow> rat \<Rightarrow> unit res" where
  "check_effective_limits effective lease_s =
     (case map_of effective ''total_execution_timeout_s'' of
        None \<Rightarrow> Inl (KeyErr ''total_execution_timeout_s'')
      | Some tot \<Rightarrow>
          (case map_of effective ''tool_call_timeout_s'' of
             None \<Rightarrow> Inl (KeyErr ''tool_call_timeout_s'')
           | Some tool \<Rightarrow>
               bindR (guardR (\<not> py_lt tot tool) (ValueErr ''tool call outlasts the turn'')) (\<lambda>_.
                 check_turn_fits_lease tot lease_s)))"

definition WHOLE_NUMBER_KEYS :: "string list" where
  "WHOLE_NUMBER_KEYS = [''max_tool_calls'', ''max_tool_errors'']"

fun is_int :: "pyval \<Rightarrow> bool" where
  "is_int (PBool _) = True"
| "is_int (PInt _) = True"
| "is_int _ = False"

definition checked_value :: "string \<Rightarrow> pyval \<Rightarrow> pyval res" where
  "checked_value key v =
     (if is_bool v \<or> \<not> is_number v \<or> \<not> is_finite_num v \<or> py_le v (PInt 0)
      then Inl (ValueErr ''must be a positive, finite number'')
      else if key \<in> set WHOLE_NUMBER_KEYS \<and> \<not> is_int v
      then Inl (ValueErr ''must be a whole number'')
      else Inr v)"

definition check_turn_of_limits :: "dict \<Rightarrow> rat \<Rightarrow> unit res" where
  "check_turn_of_limits limits lease_s =
     (case map_of limits ''total_execution_timeout_s'' of
        None \<Rightarrow> Inr ()
      | Some tot \<Rightarrow>
          bindR (case map_of limits ''tool_call_timeout_s'' of
                   None \<Rightarrow> Inr ()
                 | Some tool \<Rightarrow> guardR (\<not> py_lt tot tool) (ValueErr ''tool call outlasts the turn'')) (\<lambda>_.
            check_turn_fits_lease tot lease_s))"

fun validate_execution_limits :: "pyval \<Rightarrow> rat \<Rightarrow> dict res" where
  "validate_execution_limits PNone lease_s = Inr []"
| "validate_execution_limits (PDict raw) lease_s =
     bindR (guardR (set (dkeys raw) \<subseteq> set DEPLOYMENT_LIMIT_KEYS) (ValueErr ''unknown keys'')) (\<lambda>_.
     bindR (mapR (\<lambda>(key, v). bindR (checked_value key v) (\<lambda>w. Inr (key, w))) raw) (\<lambda>limits.
     bindR (check_turn_of_limits limits lease_s) (\<lambda>_. Inr limits)))"
| "validate_execution_limits _ lease_s = Inl (ValueErr ''not a mapping'')"

fun parse_execution_limits :: "pyval \<Rightarrow> rat \<Rightarrow> (string \<times> dict) list res" where
  "parse_execution_limits (PDict raw) lease_s =
     mapR (\<lambda>(rid, v). bindR (validate_execution_limits v lease_s) (\<lambda>l. Inr (rid, l))) raw"
| "parse_execution_limits _ lease_s = Inl (ValueErr ''not a mapping'')"

fun validate_reply :: "nat \<Rightarrow> pyval \<Rightarrow> string res" where
  "validate_reply most (PStr text) =
     (if strip text = [] then Inl (ValueErr ''must be non-empty plain text'')
      else if most < length text then Inl (ValueErr ''too many characters'')
      else Inr text)"
| "validate_reply most _ = Inl (ValueErr ''must be non-empty plain text'')"

definition validate_timeout_reply :: "pyval \<Rightarrow> string res" where
  "validate_timeout_reply text = validate_reply MAX_TIMEOUT_REPLY_CHARS text"

definition validate_tool_error_reply :: "pyval \<Rightarrow> string res" where
  "validate_tool_error_reply text = validate_reply MAX_TOOL_ERROR_REPLY_CHARS text"

fun parse_timeout_replies :: "pyval \<Rightarrow> (string \<times> string) list res" where
  "parse_timeout_replies (PDict raw) =
     mapR (\<lambda>(rid, v). bindR (validate_timeout_reply v) (\<lambda>t. Inr (rid, t))) raw"
| "parse_timeout_replies _ = Inl (ValueErr ''not a mapping'')"

fun parse_tool_error_replies :: "pyval \<Rightarrow> (string \<times> string) list res" where
  "parse_tool_error_replies (PDict raw) =
     mapR (\<lambda>(rid, v). bindR (validate_tool_error_reply v) (\<lambda>t. Inr (rid, t))) raw"
| "parse_tool_error_replies _ = Inl (ValueErr ''not a mapping'')"

subsection \<open>What an accepted set of limits is\<close>

text \<open>A positive, finite number that is no \<open>bool\<close>.\<close>

definition positive_number :: "pyval \<Rightarrow> bool" where
  "positive_number v \<longleftrightarrow> is_number v \<and> is_finite_num v \<and> \<not> is_bool v \<and> 0 < num_val v"

lemma finite_number_cases:
  assumes "is_number v" and "is_finite_num v" and "\<not> is_bool v"
  shows "(\<exists>i. v = PInt i) \<or> (\<exists>r t. v = PFloat r t)"
  using assms by (cases v) auto

lemma checked_value_eq_Inr [success]:
  "checked_value key v = Inr w \<longleftrightarrow>
     w = v \<and> positive_number v \<and> (key \<in> set WHOLE_NUMBER_KEYS \<longrightarrow> is_int v)"
  by (cases v) (auto simp: checked_value_def positive_number_def py_le_def)

lemma py_le_finite:
  "positive_number a \<Longrightarrow> positive_number b \<Longrightarrow> py_le a b \<longleftrightarrow> num_val a \<le> num_val b"
  by (cases a; cases b) (auto simp: positive_number_def py_le_def)

lemma py_lt_finite:
  "positive_number a \<Longrightarrow> positive_number b \<Longrightarrow> py_lt a b \<longleftrightarrow> num_val a < num_val b"
  by (cases a; cases b) (auto simp: positive_number_def py_lt_def py_le_def)

lemma outlasts_finite: "positive_number v \<Longrightarrow> outlasts_lease v l \<longleftrightarrow> l \<le> num_val v + LEASE_MARGIN_S"
  by (cases v) (auto simp: positive_number_def)

lemma checked_items:
  "mapR (\<lambda>(key, v). bindR (checked_value key v) (\<lambda>w. Inr (key, w))) raw = Inr limits \<longleftrightarrow>
     limits = raw \<and> (\<forall>(key, v) \<in> set raw. positive_number v \<and> (key \<in> set WHOLE_NUMBER_KEYS \<longrightarrow> is_int v))"
  by (induction raw arbitrary: limits) (auto simp: success)

text \<open>
  A deployment's limits are accepted, unchanged, exactly when every key is one of the four, every
  value is a positive finite number (a whole one for the two counts), a tool call does not outlast
  the turn set beside it, and the turn with its margin ends before the lease does.
\<close>

theorem execution_limits_accepted_iff:
  "validate_execution_limits (PDict raw) lease_s = Inr limits \<longleftrightarrow>
     limits = raw
     \<and> set (dkeys raw) \<subseteq> set DEPLOYMENT_LIMIT_KEYS
     \<and> (\<forall>(key, v) \<in> set raw. positive_number v \<and> (key \<in> set WHOLE_NUMBER_KEYS \<longrightarrow> is_int v))
     \<and> (\<forall>tot. map_of raw ''total_execution_timeout_s'' = Some tot \<longrightarrow>
          num_val tot + LEASE_MARGIN_S < lease_s
          \<and> (\<forall>tool. map_of raw ''tool_call_timeout_s'' = Some tool \<longrightarrow> num_val tool \<le> num_val tot))"
proof (cases "\<forall>(key, v) \<in> set raw. positive_number v \<and> (key \<in> set WHOLE_NUMBER_KEYS \<longrightarrow> is_int v)")
  case True
  then have pos: "positive_number v" if "map_of raw k = Some v" for k v
    using that by (auto dest: map_of_SomeD)
  have "check_turn_of_limits raw lease_s = Inr () \<longleftrightarrow>
     (\<forall>tot. map_of raw ''total_execution_timeout_s'' = Some tot \<longrightarrow>
          num_val tot + LEASE_MARGIN_S < lease_s
          \<and> (\<forall>tool. map_of raw ''tool_call_timeout_s'' = Some tool \<longrightarrow> num_val tool \<le> num_val tot))"
    using pos
    by (auto simp: check_turn_of_limits_def check_turn_fits_lease_def success outlasts_finite
        py_lt_finite not_less not_le split: option.splits)
  then show ?thesis using True by (auto simp: success checked_items)
next
  case False
  then show ?thesis by (auto simp: success checked_items)
qed

theorem execution_limits_accepted_iff_witness:
  "validate_execution_limits
     (PDict [(''total_execution_timeout_s'', PInt 539), (''max_tool_calls'', PInt 5)]) OUTBOX_LEASE_S
   = Inr [(''total_execution_timeout_s'', PInt 539), (''max_tool_calls'', PInt 5)]"
  unfolding execution_limits_accepted_iff
  by (simp add: dkeys_def DEPLOYMENT_LIMIT_KEYS_def positive_number_def WHOLE_NUMBER_KEYS_def
      LEASE_MARGIN_S_def OUTBOX_LEASE_S_def)

text \<open>
  When the effective limits and the checkpointer timeout both pass their checks, a turn that
  uses its whole budget, reads and saves its thread and sends its reply ends strictly before the
  lease, so no other worker can reclaim the row and answer again.
\<close>

theorem turn_ends_within_lease:
  assumes "check_effective_limits effective lease_s = Inr ()"
    and "check_margin_covers_checkpointer t = Inr ()"
    and "map_of effective ''total_execution_timeout_s'' = Some tot" and "positive_number tot"
  shows "num_val tot + (2 * t + REPLY_SEND_ALLOWANCE_S) < lease_s
         \<and> num_val tot < max_turn_timeout_s lease_s \<and> t \<le> max_checkpointer_timeout_s"
proof -
  have "\<not> outlasts_lease tot lease_s"
    using assms(1,3) by (auto simp: check_effective_limits_def check_turn_fits_lease_def success split: option.splits)
  then have "num_val tot + LEASE_MARGIN_S < lease_s"
    using outlasts_finite [OF assms(4)] by simp
  moreover have "2 * t + REPLY_SEND_ALLOWANCE_S \<le> LEASE_MARGIN_S"
    using assms(2) by (simp add: check_margin_covers_checkpointer_def success)
  ultimately show ?thesis
    by (simp add: max_turn_timeout_s_def max_checkpointer_timeout_s_def)
qed

theorem turn_ends_within_lease_witness:
  "(60::rat) + (2 * 20 + REPLY_SEND_ALLOWANCE_S) < OUTBOX_LEASE_S"
  using turn_ends_within_lease [of
      "[(''total_execution_timeout_s'', PInt 60), (''tool_call_timeout_s'', PInt 10)]"
      OUTBOX_LEASE_S 20 "PInt 60"]
  by (simp add: check_effective_limits_def check_turn_fits_lease_def py_lt_def py_le_def
      check_margin_covers_checkpointer_def LEASE_MARGIN_S_def OUTBOX_LEASE_S_def
      REPLY_SEND_ALLOWANCE_S_def positive_number_def)

end
