(* ===== verification/Resolve.thy ===== *)
theory Resolve
  imports Roles Exec_Limits
begin

section \<open>Deployments and resolution\<close>

text \<open>
  \<open>load_override\<close>, \<open>merge\<close> (\<open>_merge_validated\<close>; the wrapper only logs) and the entry point
  \<open>resolve\<close> of \<open>harness/loader.py\<close>.  A deployment may only narrow the role it overrides.
\<close>

subsection \<open>Reading an override\<close>

definition read_deployment_md :: "env \<Rightarrow> string \<Rightarrow> string \<Rightarrow> string \<Rightarrow> (pyval \<times> string) res" where
  "read_deployment_md e client role_type filename =
     (case deployment_file e client role_type filename of
        None \<Rightarrow> Inl (DefinitionError ''file not found'')
      | Some text \<Rightarrow> split_frontmatter (env_yaml e) text)"

text \<open>The last segment of a declared parent: \<open>str(v).strip().rstrip("/").rsplit("/", 1)[-1]\<close>.\<close>

definition last_segment :: "pyval \<Rightarrow> string" where
  "last_segment v = last (split_on (CHR ''/'') (rstrip_slash (strip (py_str v))))"

definition override_definition :: "string \<Rightarrow> string \<Rightarrow> role_files \<Rightarrow> raw_definition res" where
  "override_definition client role_type f =
     (let manifest_fm = rf_manifest f; parent = dget manifest_fm ''extends'' in
      bindR (guardR (parent = PNone \<or> last_segment parent = role_type) (DefinitionError ''extends'')) (\<lambda>_.
      bindR (dict_or_empty_arg (dget manifest_fm ''context'')) (\<lambda>context.
      bindR (as_mapping (rf_policy f)) (\<lambda>policy_fm.
      bindR (dict_or_empty_arg (dget policy_fm ''escalation_rules'')) (\<lambda>rules.
      bindR (dict_or_empty_arg (dget policy_fm ''delegation_policy'')) (\<lambda>delegation.
      bindR (declared_memory_policy (dget policy_fm ''memory_policy'')) (\<lambda>memory.
      bindR (dict_or_empty_arg (dget policy_fm ''audit_policy'')) (\<lambda>audit.
      bindR (parse_untrusted_input policy_fm) (\<lambda>untrusted.
        Inr \<lparr>role_name = named_value (rf_role f) manifest_fm ''name'' ''role'' role_type,
             version = named_value (rf_role f) manifest_fm ''version'' ''version'' ''1.0'',
             deployment = Some (case map_of manifest_fm ''deployment'' of Some v \<Rightarrow> py_str v | None \<Rightarrow> client),
             system_prompt = rf_body f,
             tools = as_str_list (dget manifest_fm ''tools''),
             skills = as_str_list (dget manifest_fm ''skills''),
             ctx = context,
             permissions = (case map_of manifest_fm ''permissions'' of Some v \<Rightarrow> v | None \<Rightarrow> PList []),
             autonomy = (case map_of policy_fm ''autonomy'' of Some v \<Rightarrow> py_str v | None \<Rightarrow> []),
             escalation_rules = PDict rules,
             delegation_policy = PDict delegation,
             memory_policy_decl = memory,
             audit_policy = PDict audit,
             execution_limits = dget policy_fm ''execution_limits'',
             untrusted_input = untrusted,
             command_tools = as_str_list (dget manifest_fm ''command_tools''),
             command_tool_declarations = [],
             skills_folder = None,
             inline_skills = [],
             importer_root = None,
             model_decl = dget policy_fm ''model''\<rparr>)))))))))"

definition load_override :: "env \<Rightarrow> string \<Rightarrow> string \<Rightarrow> raw_definition option res" where
  "load_override e client role_type =
     bindR (guardR (deployments_root_exists e) (DefinitionError ''deployments_root'')) (\<lambda>_.
     bindR (deployment_folder [] client role_type) (\<lambda>_.
       if \<not> deployment_dir e client role_type then Inr None
       else bindR (read_role_files role_type (read_deployment_md e client role_type)) (\<lambda>f.
            bindR (override_definition client role_type f) (\<lambda>d. Inr (Some d)))))"

subsection \<open>Merging\<close>

definition lookup_declaration_of ::
  "raw_definition \<Rightarrow> string \<Rightarrow> command_tool_declaration res" where
  "lookup_declaration_of d name =
     (case map_of (command_tool_declarations d) name of
        Some c \<Rightarrow> Inr c
      | None \<Rightarrow> Inl (KeyErr name))"

definition merge_escalation :: "dict \<Rightarrow> dict \<Rightarrow> dict" where
  "merge_escalation generic_rules resolved =
     (let inherited = descriptions_of generic_rules in
      if inherited \<noteq> []
      then dset resolved ''descriptions'' (PDict (dmerge inherited (descriptions_of resolved)))
      else resolved)"

fun merge_limits :: "pyval \<Rightarrow> pyval \<Rightarrow> dict \<Rightarrow> dict option res" where
  "merge_limits generic_limits (PDict ov_limits) limit_defaults =
     (let baseline = (case generic_limits of PDict g \<Rightarrow> g | _ \<Rightarrow> limit_defaults) in
      bindR (validate_limits baseline ov_limits limit_defaults) (\<lambda>_.
        Inr (Some (dmerge baseline ov_limits))))"
| "merge_limits generic_limits ov_limits limit_defaults =
     (if ov_limits = PNone \<or> ov_limits = PStr ''inherit''
      then Inr (case generic_limits of PDict g \<Rightarrow> Some g | _ \<Rightarrow> None)
      else Inr None)"

definition merge_model :: "raw_definition \<Rightarrow> raw_definition \<Rightarrow> dict option res" where
  "merge_model generic ov =
     (if model_decl ov = PNone \<or> model_decl ov = PStr ''inherit''
      then resolve_model_declaration (model_decl generic)
      else resolve_model_declaration (model_decl ov))"

definition merge_untrusted :: "raw_definition \<Rightarrow> raw_definition \<Rightarrow> bool" where
  "merge_untrusted generic ov =
     (case untrusted_input ov of Some b \<Rightarrow> b | None \<Rightarrow> untrusted_input generic = Some True)"

text \<open>The escalation and audit rules of a deployment.\<close>

definition merge_checks :: "raw_definition \<Rightarrow> raw_definition \<Rightarrow> dict \<Rightarrow> dict \<Rightarrow> unit res" where
  "merge_checks generic ov escalation audit =
     (let rules = dict_of (escalation_rules generic) in
      bindR (validate_escalation_kept rules escalation) (\<lambda>_.
      bindR (validate_escalation_wording rules (dict_of (escalation_rules ov)) escalation) (\<lambda>_.
        validate_audit_redaction (dict_of (audit_policy generic)) audit)))"

definition merge_validated ::
  "registry \<Rightarrow> raw_definition \<Rightarrow> raw_definition \<Rightarrow> dict \<Rightarrow> agent_definition res" where
  "merge_validated reg generic ov limit_defaults =
     bindR (validate_autonomy (autonomy generic) (autonomy ov)) (\<lambda>_.
     bindR (validate_untrusted_input_monotonic generic ov) (\<lambda>_.
     bindR (validate_tools generic ov) (\<lambda>_.
     bindR (validate_command_tools generic ov) (\<lambda>_.
     bindR (mapR (lookup_declaration_of generic) (command_tools ov)) (\<lambda>resolved_command_tools.
     bindR (resolve_permissions (list_or_empty (permissions generic)) (permissions ov)) (\<lambda>resolved_perms.
     bindR (validate_permissions generic resolved_perms) (\<lambda>_.
     bindR (validate_untrusted_input_exec reg (merge_untrusted generic ov) resolved_perms) (\<lambda>_.
     bindR (resolve_mapping_directive (dict_of (escalation_rules generic)) (escalation_rules ov) ''escalation_rules'') (\<lambda>escalation0.
     bindR (resolve_mapping_directive (dict_of (delegation_policy generic)) (delegation_policy ov) ''delegation_policy'') (\<lambda>delegation.
     bindR (resolve_mapping_directive (dict_of (memory_policy_decl generic)) (memory_policy_decl ov) ''memory_policy'') (\<lambda>memory.
     bindR (resolve_mapping_directive (dict_of (audit_policy generic)) (audit_policy ov) ''audit_policy'') (\<lambda>audit.
     bindR (merge_checks generic ov (merge_escalation (dict_of (escalation_rules generic)) escalation0) audit) (\<lambda>_.
     bindR (merge_limits (execution_limits generic) (execution_limits ov) limit_defaults) (\<lambda>resolved_limits.
     bindR (merge_model generic ov) (\<lambda>resolved_model.
       Inr \<lparr>ad_role_name = role_name generic,
            ad_version = version generic,
            ad_deployment = deployment ov,
            ad_system_prompt = join_prompts [system_prompt generic, system_prompt ov],
            ad_tools = tools ov,
            ad_skills = skills ov,
            ad_context = (if ctx ov \<noteq> [] then ctx ov else ctx generic),
            ad_permissions = resolved_perms,
            ad_autonomy = (if autonomy ov \<noteq> [] then autonomy ov else autonomy generic),
            ad_escalation_rules = merge_escalation (dict_of (escalation_rules generic)) escalation0,
            ad_delegation_policy = delegation,
            ad_memory_policy = memory,
            ad_audit_policy = audit,
            ad_execution_limits = resolved_limits,
            ad_untrusted_input = merge_untrusted generic ov,
            ad_command_tools = resolved_command_tools,
            ad_skills_folder = skills_folder generic,
            ad_inline_skills = inline_skills generic,
            ad_importer_root = importer_root generic,
            ad_model = resolved_model\<rparr>)))))))))))))))"

subsection \<open>Resolution\<close>

definition limit_defaults_for :: "dict \<Rightarrow> dict" where
  "limit_defaults_for deployment_limits =
     foldl (\<lambda>m (k, v). dset m k (py_max (dget m k) v)) PLATFORM_DEFAULT_LIMITS deployment_limits"

text \<open>No override: the generic definition itself, with its own checks.\<close>

definition resolve_unmerged :: "registry \<Rightarrow> raw_definition \<Rightarrow> agent_definition res" where
  "resolve_unmerged reg generic =
     (let perms = list_or_empty (permissions generic);
          untrusted = (untrusted_input generic = Some True)
      in
      bindR (resolve_model_declaration (model_decl generic)) (\<lambda>resolved_model.
      bindR (validate_untrusted_input_exec reg untrusted perms) (\<lambda>_.
      bindR (mapR (lookup_declaration_of generic) (command_tools generic)) (\<lambda>cts.
        Inr \<lparr>ad_role_name = role_name generic,
             ad_version = version generic,
             ad_deployment = None,
             ad_system_prompt = append_base_contract (system_prompt generic),
             ad_tools = tools generic,
             ad_skills = skills generic,
             ad_context = ctx generic,
             ad_permissions = perms,
             ad_autonomy = autonomy generic,
             ad_escalation_rules = dict_of (escalation_rules generic),
             ad_delegation_policy = dict_of (delegation_policy generic),
             ad_memory_policy = dict_of (memory_policy_decl generic),
             ad_audit_policy = dict_of (audit_policy generic),
             ad_execution_limits = (case execution_limits generic of PDict l \<Rightarrow> Some l | _ \<Rightarrow> None),
             ad_untrusted_input = untrusted,
             ad_command_tools = cts,
             ad_skills_folder = skills_folder generic,
             ad_inline_skills = inline_skills generic,
             ad_importer_root = importer_root generic,
             ad_model = resolved_model\<rparr>))))"

definition find_override :: "env \<Rightarrow> locator \<Rightarrow> string option \<Rightarrow> raw_definition option res" where
  "find_override e locator client =
     (case (client, locator) of
        (Some c, RoleName role_type) \<Rightarrow> load_override e c role_type
      | (None, _) \<Rightarrow> Inr None
      | _ \<Rightarrow> Inl (DefinitionError ''client''))"

definition resolve_loaded ::
  "env \<Rightarrow> locator \<Rightarrow> string option \<Rightarrow> dict \<Rightarrow> registry \<Rightarrow> raw_definition \<Rightarrow> agent_definition res" where
  "resolve_loaded e locator client limit_defaults reg generic =
     bindR (revalidate_command_tools generic) (\<lambda>_.
     bindR (find_override e locator client) (\<lambda>ov.
       case ov of
         Some d \<Rightarrow>
           bindR (merge_validated reg generic d limit_defaults) (\<lambda>merged.
             Inr (merged\<lparr>ad_system_prompt := append_base_contract (ad_system_prompt merged)\<rparr>))
       | None \<Rightarrow> resolve_unmerged reg generic))"

definition resolve ::
  "env \<Rightarrow> locator \<Rightarrow> string option \<Rightarrow> pyval \<Rightarrow> registry \<Rightarrow> agent_definition res \<times> registry" where
  "resolve e locator client limits reg =
     (case validate_execution_limits limits OUTBOX_LEASE_S of
        Inl x \<Rightarrow> (Inl x, reg)
      | Inr deployment_limits \<Rightarrow>
          let limit_defaults = limit_defaults_for deployment_limits in
          if client \<noteq> None \<and> is_importer locator then (Inl (DefinitionError ''client''), reg)
          else (case load_generic e locator limit_defaults reg of
             (Inl x, reg') \<Rightarrow> (Inl x, reg')
           | (Inr generic, reg') \<Rightarrow>
               (resolve_loaded e locator client limit_defaults reg' generic, reg')))"

subsection \<open>Facts about merging\<close>

lemma mapR_member:
  assumes "mapR f xs = Inr ys" and "y \<in> set ys"
  shows "\<exists>x \<in> set xs. f x = Inr y"
  using assms by (induction xs arbitrary: ys) (auto simp: bindR_eq_Inr)

lemma untrusted_exec_ok:
  assumes "validate_untrusted_input_exec reg True perms = Inr ()" and "p \<in> set perms"
  shows "\<exists>s c. p = PStr s \<and> resolve_perm reg s = Inr c \<and> class_tier c \<noteq> Some T3"
proof -
  have strs: "list_all is_str perms"
    and each: "\<forall>s \<in> set (sort (map str_of perms)). check_not_T3 reg s = Inr ()"
    using assms(1) by (auto simp: validate_untrusted_input_exec_def eachR_eq_Inr split: if_splits)
  obtain s where s: "p = PStr s"
    using strs assms(2) by (cases p) (auto simp: list_all_iff)
  then have "s \<in> set (sort (map str_of perms))" using assms(2) by force
  then show ?thesis using each s by (auto simp: check_not_T3_def bindR_eq_Inr guardR_eq_Inr)
qed

lemma merge_fields:
  assumes "merge_validated reg g ov ld = Inr ad"
  shows "ad_tools ad = tools ov \<and> validate_tools g ov = Inr ()
    \<and> validate_command_tools g ov = Inr ()
    \<and> mapR (lookup_declaration_of g) (command_tools ov) = Inr (ad_command_tools ad)
    \<and> validate_permissions g (ad_permissions ad) = Inr ()
    \<and> ad_autonomy ad = (if autonomy ov \<noteq> [] then autonomy ov else autonomy g)
    \<and> validate_autonomy (autonomy g) (autonomy ov) = Inr ()
    \<and> ad_untrusted_input ad = merge_untrusted g ov
    \<and> validate_untrusted_input_monotonic g ov = Inr ()
    \<and> validate_untrusted_input_exec reg (merge_untrusted g ov) (ad_permissions ad) = Inr ()
    \<and> merge_checks g ov (ad_escalation_rules ad) (ad_audit_policy ad) = Inr ()
    \<and> merge_limits (execution_limits g) (execution_limits ov) ld = Inr (ad_execution_limits ad)"
  using assms by (auto simp: merge_validated_def bindR_eq_Inr simp del: merge_limits.simps)

lemma merge_limits_tighter:
  assumes "merge_limits gl ol ld = Inr l" and "ol = PNone \<or> ol = PStr ''inherit'' \<or> is_dict ol"
  shows "limits_tighter ld (dict_of gl) (case l of None \<Rightarrow> [] | Some d \<Rightarrow> d)"
proof (cases ol)
  case (PDict o')
  let ?base = "case gl of PDict g \<Rightarrow> g | _ \<Rightarrow> ld"
  have v: "validate_limits ?base o' ld = Inr ()" and l: "l = Some (dmerge ?base o')"
    using assms(1) PDict by (auto simp: bindR_eq_Inr Let_def)
  have "limit_of ld ld k = limit_of ld [] k" for k
    by (simp add: limit_of_def) (simp add: dget_def)
  then have "limits_tighter ld [] (dmerge ld o')" if "validate_limits ld o' ld = Inr ()"
    using validate_limits_tighter [OF that] by (simp add: limits_tighter_def)
  then show ?thesis using v l validate_limits_tighter [OF v] by (cases gl) auto
qed (use assms in \<open>cases gl; auto split: if_splits\<close>)+

lemma looked_up_declared:
  assumes "mapR (lookup_declaration_of g) ns = Inr cts"
  shows "set cts \<subseteq> snd ` set (command_tool_declarations g)"
proof
  fix c assume "c \<in> set cts"
  then obtain n where "lookup_declaration_of g n = Inr c"
    using mapR_member [OF assms] by blast
  then show "c \<in> snd ` set (command_tool_declarations g)"
    by (force simp: lookup_declaration_of_def dest: map_of_SomeD split: option.splits)
qed

lemma merge_narrows:
  assumes "merge_validated reg g ov ld = Inr ad"
  shows "set (ad_tools ad) \<subseteq> set (tools g)
    \<and> set (ad_command_tools ad) \<subseteq> snd ` set (command_tool_declarations g)
    \<and> set (ad_permissions ad) \<subseteq> set (list_or_empty (permissions g))
    \<and> rank_le (ad_autonomy ad) (autonomy g)
    \<and> (untrusted_input g = Some True \<longrightarrow> ad_untrusted_input ad)
    \<and> (ad_untrusted_input ad \<longrightarrow>
         (\<forall>p \<in> set (ad_permissions ad). \<exists>s c. p = PStr s \<and> resolve_perm reg s = Inr c \<and> class_tier c \<noteq> Some T3))
    \<and> condition_names (dict_of (escalation_rules g)) \<subseteq> condition_names (ad_escalation_rules ad)
    \<and> (escalate_to (dict_of (escalation_rules g)) \<noteq> []
         \<longrightarrow> escalate_to (ad_escalation_rules ad) = escalate_to (dict_of (escalation_rules g)))
    \<and> (captures_input (ad_audit_policy ad) \<longrightarrow> captures_input (dict_of (audit_policy g)))
    \<and> redacted_keys (dict_of (audit_policy g)) \<subseteq> redacted_keys (ad_audit_policy ad)"
proof -
  note f = merge_fields [OF assms]
  have mc: "condition_names (dict_of (escalation_rules g)) \<subseteq> condition_names (ad_escalation_rules ad)"
    "escalate_to (dict_of (escalation_rules g)) \<noteq> []
         \<longrightarrow> escalate_to (ad_escalation_rules ad) = escalate_to (dict_of (escalation_rules g))"
    "validate_audit_redaction (dict_of (audit_policy g)) (ad_audit_policy ad) = Inr ()"
    using f by (auto simp: merge_checks_def bindR_eq_Inr guardR_eq_Inr validate_escalation_kept_def
        validate_escalation_wording_def Let_def)
  have rk: "rank_le (ad_autonomy ad) (autonomy g)"
    using f by (auto simp: rank_le_def validate_autonomy_ok)
  have un: "untrusted_input g = Some True \<longrightarrow> ad_untrusted_input ad"
    using f by (auto simp: merge_untrusted_def validate_untrusted_input_monotonic_def guardR_eq_Inr
        split: option.splits)
  have t3: "ad_untrusted_input ad \<longrightarrow>
         (\<forall>p \<in> set (ad_permissions ad). \<exists>s c. p = PStr s \<and> resolve_perm reg s = Inr c \<and> class_tier c \<noteq> Some T3)"
    using f untrusted_exec_ok by auto
  have sub: "set (ad_tools ad) \<subseteq> set (tools g)"
    "set (ad_permissions ad) \<subseteq> set (list_or_empty (permissions g))"
    using f by (simp_all add: validate_tools_def validate_permissions_def Let_def success)
  show ?thesis using f looked_up_declared [of g "command_tools ov"] sub rk un t3 mc(1,2) validate_audit_ok [OF mc(3)] by blast
qed



subsection \<open>What loading does to the permission registry\<close>

lemma ensure_keeps:
  assumes "ensure_resource_registered p n t reg = Inr (c, reg')" and "reg_inv reg"
    and "wf_class p" and "oids_below (next_oid reg) p"
  shows "next_oid reg \<le> next_oid reg' \<and> (\<forall>m d. map_of (by_name reg) m = Some d \<longrightarrow> map_of (by_name reg') m = Some d)"
proof (cases "map_of (by_name reg) n")
  case (Some e)
  then show ?thesis using assms(1) by (auto simp: ensure_resource_registered_def get_or_register_def)
next
  case None
  then obtain regm where cs: "class_statement reg (class_name n) p
       (case t of None \<Rightarrow> NotDeclared | Some x \<Rightarrow> Declared x) = Inr (c, regm)"
    and r: "register_locked regm c n = Inr reg'"
    using assms(1)
    by (auto simp: ensure_resource_registered_def get_or_register_def build_resource_class_def success)
  then show ?thesis using None
    by (auto simp: register_locked_def Let_def class_statement_def success split: if_splits)
qed

lemma reachable_next: "reg_reachable reg \<Longrightarrow> 8 \<le> next_oid reg"
proof (induction rule: reg_reachable.induct)
  case shipped
  then show ?case using shipped_state by blast
next
  case (define_class reg parent cname decl c reg')
  then show ?case by (auto simp: class_statement_def success)
next
  case (register_class reg c name reg')
  then show ?case using register_inv reachable_inv by fastforce
next
  case (get_or_create reg parent name t c reg')
  then show ?case using ensure_keeps [OF get_or_create(4) reachable_inv [OF get_or_create(1)]] by force
qed

text \<open>Registering more permissions: reachable, and every earlier name still bound to its class.\<close>

definition registry_grows :: "registry \<Rightarrow> registry \<Rightarrow> bool" where
  "registry_grows reg reg' \<longleftrightarrow>
     (reg_reachable reg \<longrightarrow> reg_reachable reg'
        \<and> (\<forall>n c. resolve_perm reg n = Inr c \<longrightarrow> resolve_perm reg' n = Inr c))"

interpretation growth: composition_order registry_grows
  by unfold_locales (auto simp: registry_grows_def)

lemma command_permission_grows:
  assumes "ensure_command_tool_permission_registered w reg = Inr (c, reg')"
  shows "registry_grows reg reg'"
proof -
  have e: "ensure_resource_registered RunPerm w None reg = Inr (c, reg')"
    using assms by (simp add: ensure_command_tool_permission_registered_def)
  have wf: "wf_class RunPerm" by (simp add: family_defs)
  show ?thesis unfolding registry_grows_def
  proof (intro impI)
    assume r: "reg_reachable reg"
    have o: "oids_below (next_oid reg) RunPerm"
      using reachable_next [OF r] by (simp add: family_defs)
    have "reg_reachable reg'" by (rule get_or_create [OF r wf o e])
    then show "reg_reachable reg' \<and> (\<forall>n c. resolve_perm reg n = Inr c \<longrightarrow> resolve_perm reg' n = Inr c)"
      using ensure_keeps [OF e reachable_inv [OF r] wf o] by (simp add: resolve_eq_Inr)
  qed
qed

lemma parse_entries_grows: "parse_entries which seen es reg = (r, reg') \<Longrightarrow> registry_grows reg reg'"
proof (induction es arbitrary: seen reg r)
  case Nil
  then show ?case by (simp add: growth.tighter_refl)
next
  case (Cons e es)
  then show ?case
    by (auto split: sum.splits prod.splits intro: growth.tighter_refl command_permission_grows)
      (blast intro: growth.tighter_trans command_permission_grows)+
qed

lemma load_role_files_grows:
  assumes "load_role_files e l reg = (r, reg')"
  shows "registry_grows reg reg'"
proof -
  have "registry_grows reg reg'" if "parse_command_tools which m reg = (x, reg')" for which m x
    using that parse_entries_grows growth.tighter_refl
    by (auto simp: parse_command_tools_def split: pyval.splits)
  then have "registry_grows reg reg'" if "finish_load e l f s b reg = (r, reg')" for l f s b
    using that growth.tighter_refl by (auto simp: finish_load_def split: sum.splits prod.splits)
  then show ?thesis
    using assms growth.tighter_refl by (cases l; cases "case l of InlineLocator _ _ p \<Rightarrow> p | _ \<Rightarrow> NoParent")
      (auto split: sum.splits)
qed

lemma walk_chain_grows: "walk_chain e l named seen reg = (r, reg') \<Longrightarrow> registry_grows reg reg'"
proof (induction e l named seen reg arbitrary: r reg' rule: walk_chain.induct)
  case (1 e current named seen reg)
  note trans = growth.tighter_trans and ld = load_role_files_grows
  show ?case
  proof (cases "locator_key e current")
    case (Inl x)
    then show ?thesis using "1.prems" growth.tighter_refl by (simp add: walk_chain.simps [of e current])
  next
    case (Inr key)
    show ?thesis
    proof (cases "key \<in> set seen \<or> MAX_ROLE_CHAIN_DEPTH < length seen + 1")
      case True
      then show ?thesis using "1.prems" Inr growth.tighter_refl
        by (auto simp: walk_chain.simps [of e current] split: if_splits)
    next
      case False
      then have k: "key \<notin> set seen" "\<not> MAX_ROLE_CHAIN_DEPTH < length seen + 1" by simp_all
      obtain lr regm where l: "load_role_files e current reg = (lr, regm)" by (meson surj_pair)
      show ?thesis
      proof (cases "\<exists>d nx ab. lr = Inr (d, Some nx, ab)")
        case True
        then obtain d nx ab where lr: "lr = Inr (d, Some nx, ab)" by blast
        obtain wr regw where w: "walk_chain e nx (is_importer current) (seen @ [key]) regm = (wr, regw)"
          by (meson surj_pair)
        have "regw = reg'" using "1.prems" Inr k l lr w
          by (subst (asm) walk_chain.simps) (auto simp: Let_def split: sum.splits)
        then show ?thesis
          using "1.IH" [OF Inr k l [unfolded lr, symmetric] refl refl refl refl refl w] ld [OF l] trans by blast
      next
        case False
        then have "regm = reg'" using "1.prems" Inr k l
          by (subst (asm) walk_chain.simps) (auto simp: Let_def split: sum.splits option.splits prod.splits)
        then show ?thesis using ld [OF l] by simp
      qed
    qed
  qed
qed

lemma resolve_parts:
  assumes "resolve e locator client limits reg = (Inr ad, reg')"
  shows "\<exists>dl g ov. validate_execution_limits limits OUTBOX_LEASE_S = Inr dl
     \<and> load_generic e locator (limit_defaults_for dl) reg = (Inr g, reg')
     \<and> revalidate_command_tools g = Inr ()
     \<and> (client \<noteq> None \<longrightarrow> \<not> is_importer locator)
     \<and> find_override e locator client = Inr ov
     \<and> (case ov of
          None \<Rightarrow> resolve_unmerged reg' g = Inr ad
        | Some d \<Rightarrow> client \<noteq> None \<and> (\<exists>m. merge_validated reg' g d (limit_defaults_for dl) = Inr m
             \<and> ad = m\<lparr>ad_system_prompt := append_base_contract (ad_system_prompt m)\<rparr>))"
proof -
  obtain dl g where dl: "validate_execution_limits limits OUTBOX_LEASE_S = Inr dl"
    and g: "load_generic e locator (limit_defaults_for dl) reg = (Inr g, reg')"
    and c: "client \<noteq> None \<longrightarrow> \<not> is_importer locator"
    and r: "resolve_loaded e locator client (limit_defaults_for dl) reg' g = Inr ad"
    using assms by (auto simp: resolve_def Let_def split: sum.splits prod.splits if_splits)
  from r obtain ov where "revalidate_command_tools g = Inr ()" and fo: "find_override e locator client = Inr ov"
    and "case ov of Some d \<Rightarrow> bindR (merge_validated reg' g d (limit_defaults_for dl)) (\<lambda>merged.
             Inr (merged\<lparr>ad_system_prompt := append_base_contract (ad_system_prompt merged)\<rparr>)) = Inr ad
       | None \<Rightarrow> resolve_unmerged reg' g = Inr ad"
    by (auto simp: resolve_loaded_def bindR_eq_Inr split: option.splits)
  moreover have "client \<noteq> None" if "ov = Some d" for d
    using fo that by (auto simp: find_override_def split: option.splits)
  ultimately show ?thesis using dl g c by (cases ov) (auto simp: bindR_eq_Inr)
qed

lemma resolve_cases:
  assumes "resolve e locator client limits reg = (Inr ad, reg')"
  shows "\<exists>dl g. validate_execution_limits limits OUTBOX_LEASE_S = Inr dl
     \<and> load_generic e locator (limit_defaults_for dl) reg = (Inr g, reg')
     \<and> revalidate_command_tools g = Inr ()
     \<and> (client \<noteq> None \<longrightarrow> \<not> is_importer locator)
     \<and> (resolve_unmerged reg' g = Inr ad
        \<or> (\<exists>ov m. merge_validated reg' g ov (limit_defaults_for dl) = Inr m \<and> client \<noteq> None
             \<and> ad = m\<lparr>ad_system_prompt := append_base_contract (ad_system_prompt m)\<rparr>))"
  using resolve_parts [OF assms] by (auto split: option.splits)

lemma unmerged_fields:
  assumes "resolve_unmerged reg g = Inr ad"
  shows "ad_tools ad = tools g \<and> ad_permissions ad = list_or_empty (permissions g)
    \<and> ad_autonomy ad = autonomy g \<and> ad_untrusted_input ad = (untrusted_input g = Some True)
    \<and> validate_untrusted_input_exec reg (ad_untrusted_input ad) (ad_permissions ad) = Inr ()
    \<and> mapR (lookup_declaration_of g) (command_tools g) = Inr (ad_command_tools ad)
    \<and> ad_escalation_rules ad = dict_of (escalation_rules g)
    \<and> ad_audit_policy ad = dict_of (audit_policy g)
    \<and> ad_execution_limits ad = (case execution_limits g of PDict l \<Rightarrow> Some l | _ \<Rightarrow> None)
    \<and> ad_system_prompt ad = append_base_contract (system_prompt g)"
  using assms by (auto simp: resolve_unmerged_def bindR_eq_Inr Let_def)

lemma load_generic_grows:
  "load_generic e l ld reg = (r, reg') \<Longrightarrow> registry_grows reg reg'"
  by (auto simp: load_generic_def resolve_role_chain_def Let_def dest: walk_chain_grows
      split: sum.splits prod.splits if_splits)

text \<open>\<open>no_wider g ad\<close>: what a resolved agent keeps of the role it is resolved from.\<close>

definition no_wider :: "raw_definition \<Rightarrow> agent_definition \<Rightarrow> bool" where
  "no_wider g ad \<longleftrightarrow>
     set (ad_tools ad) \<subseteq> set (tools g)
     \<and> set (ad_command_tools ad) \<subseteq> snd ` set (command_tool_declarations g)
     \<and> set (ad_permissions ad) \<subseteq> set (list_or_empty (permissions g))
     \<and> rank_le (ad_autonomy ad) (autonomy g)
     \<and> (untrusted_input g = Some True \<longrightarrow> ad_untrusted_input ad)
     \<and> condition_names (dict_of (escalation_rules g)) \<subseteq> condition_names (ad_escalation_rules ad)
     \<and> (escalate_to (dict_of (escalation_rules g)) \<noteq> []
          \<longrightarrow> escalate_to (ad_escalation_rules ad) = escalate_to (dict_of (escalation_rules g)))
     \<and> (captures_input (ad_audit_policy ad) \<longrightarrow> captures_input (dict_of (audit_policy g)))
     \<and> redacted_keys (dict_of (audit_policy g)) \<subseteq> redacted_keys (ad_audit_policy ad)"

lemma unmerged_no_wider: "resolve_unmerged reg g = Inr ad \<Longrightarrow> no_wider g ad"
  using unmerged_fields [of reg g ad] looked_up_declared [of g "command_tools g"]
  by (auto simp: no_wider_def rank_le_def)

lemma merged_no_wider: "merge_validated reg g ov ld = Inr m \<Longrightarrow> no_wider g (m\<lparr>ad_system_prompt := p\<rparr>)"
  using merge_narrows [of reg g ov ld m] unfolding no_wider_def by simp

subsection \<open>Properties\<close>

text \<open>
  The execution limits of a resolved agent against its role's.  A deployment's \<open>execution_limits\<close> that is neither left
  out, \<open>inherit\<close> nor a mapping is accepted by the loader and drops the role's.
\<close>

definition limits_in :: "agent_definition \<Rightarrow> dict" where
  "limits_in ad = (case ad_execution_limits ad of None \<Rightarrow> [] | Some l \<Rightarrow> l)"

definition drops_limits :: "raw_definition option \<Rightarrow> bool" where
  "drops_limits ov =
     (case ov of
        None \<Rightarrow> False
      | Some d \<Rightarrow> \<not> (execution_limits d = PNone \<or> execution_limits d = PStr ''inherit'' \<or> is_dict (execution_limits d)))"

definition limits_kept :: "dict \<Rightarrow> raw_definition \<Rightarrow> raw_definition option \<Rightarrow> agent_definition \<Rightarrow> bool" where
  "limits_kept ld g ov ad \<longleftrightarrow>
     (if drops_limits ov then ad_execution_limits ad = None
      else limits_tighter ld (dict_of (execution_limits g)) (limits_in ad))"

lemma unmerged_limits_kept:
  assumes "resolve_unmerged reg g = Inr ad"
  shows "limits_kept ld g None ad"
  using unmerged_fields [OF assms]
  by (cases "execution_limits g") (auto simp: limits_kept_def drops_limits_def limits_in_def limits_tighter_def)

lemma merged_limits_kept:
  assumes "merge_validated reg g d ld = Inr m"
  shows "limits_kept ld g (Some d) (m\<lparr>ad_system_prompt := p\<rparr>)"
proof -
  have m: "merge_limits (execution_limits g) (execution_limits d) ld = Inr (ad_execution_limits m)"
    using merge_fields [OF assms] by blast
  show ?thesis
  proof (cases "drops_limits (Some d)")
    case True
    then have "ad_execution_limits m = None" using m by (cases "execution_limits d") (auto simp: drops_limits_def)
    then show ?thesis using True by (simp add: limits_kept_def)
  next
    case False
    then show ?thesis using merge_limits_tighter [OF m] by (simp add: limits_kept_def drops_limits_def limits_in_def)
  qed
qed

text \<open>
  C12 What a deployment can never widen: a resolved agent has no tool, command tool or permission its role does not have, no
  higher autonomy, no less caution about untrusted input, every escalation condition and the escalation target of its role,
  and its audit redaction; and every execution limit in force is at most the role's, the platform's default standing in for
  one left out, unless the override that was found gave limits that are neither left out, \<open>inherit\<close> nor a mapping: then
  the agent has none.  An override is looked up for a predefined role only.  Prompt, skills, context, delegation, memory
  and model are the deployment's to choose.
\<close>

theorem resolve_never_widens:
  assumes "resolve e locator client limits reg = (Inr ad, reg')"
  shows "\<exists>dl g ov. validate_execution_limits limits OUTBOX_LEASE_S = Inr dl
     \<and> load_generic e locator (limit_defaults_for dl) reg = (Inr g, reg')
     \<and> find_override e locator client = Inr ov
     \<and> no_wider g ad \<and> limits_kept (limit_defaults_for dl) g ov ad
     \<and> (client \<noteq> None \<longrightarrow> \<not> is_importer locator)"
proof -
  obtain dl g ov where "validate_execution_limits limits OUTBOX_LEASE_S = Inr dl"
    and "load_generic e locator (limit_defaults_for dl) reg = (Inr g, reg')" "client \<noteq> None \<longrightarrow> \<not> is_importer locator"
    and "find_override e locator client = Inr ov"
    and r: "case ov of None \<Rightarrow> resolve_unmerged reg' g = Inr ad
        | Some d \<Rightarrow> client \<noteq> None \<and> (\<exists>m. merge_validated reg' g d (limit_defaults_for dl) = Inr m
             \<and> ad = m\<lparr>ad_system_prompt := append_base_contract (ad_system_prompt m)\<rparr>)"
    using resolve_parts [OF assms] by blast
  moreover have "no_wider g ad \<and> limits_kept (limit_defaults_for dl) g ov ad"
    using r unmerged_no_wider merged_no_wider unmerged_limits_kept merged_limits_kept by (cases ov) auto
  ultimately show ?thesis by blast
qed

text \<open>
  An environment with one role and one deployment of it: the YAML parser knows the five documents
  that occur, and the deployment's \<open>execution_limits\<close> is a parameter.
\<close>

definition demo_yaml :: "pyval \<Rightarrow> string \<Rightarrow> pyval res" where
  "demo_yaml v t =
     (if t = ''role manifest'' then
        Inr (PDict [(''tools'', PList [PStr ''clock'', PStr ''shop'']),
                    (''permissions'', PList [PStr ''read:catalog''])])
      else if t = ''role policy'' then
        Inr (PDict [(''execution_limits'', PDict [(''max_tool_calls'', PInt 10)]),
                    (''untrusted_input'', PBool True)])
      else if t = ''client manifest'' then
        Inr (PDict [(''tools'', PList [PStr ''clock'']), (''permissions'', PStr ''inherit'')])
      else if t = ''client policy'' then Inr (PDict [(''execution_limits'', v)])
      else Inl (RuntimeErr ''YAMLError''))"

definition front :: "string \<Rightarrow> string" where
  "front t = unlines [''---'', t, ''---'']"

definition deploy_env :: "pyval \<Rightarrow> env" where
  "deploy_env v = demo_env\<lparr>env_yaml := demo_yaml v, role_dir := (\<lambda>n. Some (n = ''sales'')),
     role_file := (\<lambda>n f. Some (if f = ''role.md'' then ''Sell.''
                             else if f = ''manifest.md'' then front ''role manifest'' else front ''role policy'')),
     deployments_root_exists := True, deployment_dir := (\<lambda>c r. True),
     deployment_file := (\<lambda>c r f. Some (if f = ''role.md'' then ''Be brief.''
                             else if f = ''manifest.md'' then front ''client manifest'' else front ''client policy''))\<rparr>"

definition catalog_class :: pclass where
  "catalog_class = PClass 8 ''ReadCatalogPermission'' ReadPerm T0"

definition small_registry :: registry where
  "small_registry = \<lparr>by_name = [(''read:catalog'', catalog_class)],
     by_class = [(catalog_class, ''read:catalog'')], next_oid = 9\<rparr>"

lemma demo_deployment:
  "(case resolve (deploy_env (PDict [(''max_tool_calls'', PInt 5)])) (RoleName ''sales'') (Some ''acme'') PNone small_registry of
     (Inr ad, reg') \<Rightarrow> ad_tools ad = [''clock''] \<and> ad_permissions ad = [PStr ''read:catalog'']
        \<and> ad_execution_limits ad = Some [(''max_tool_calls'', PInt 5)] \<and> ad_untrusted_input ad
        \<and> reg' = small_registry
   | _ \<Rightarrow> False)"
  by code_simp

lemma demo_override:
  "(case find_override (deploy_env (PDict [(''max_tool_calls'', PInt 5)])) (RoleName ''sales'') (Some ''acme'') of
     Inr (Some d) \<Rightarrow> is_dict (execution_limits d) | _ \<Rightarrow> False)"
  by code_simp

theorem resolve_never_widens_witness:
  "\<exists>ad g dl. resolve (deploy_env (PDict [(''max_tool_calls'', PInt 5)])) (RoleName ''sales'') (Some ''acme'')
       PNone small_registry = (Inr ad, small_registry)
     \<and> load_generic (deploy_env (PDict [(''max_tool_calls'', PInt 5)])) (RoleName ''sales'')
         (limit_defaults_for dl) small_registry = (Inr g, small_registry)
     \<and> ad_tools ad = [''clock''] \<and> no_wider g ad
     \<and> limits_in ad = [(''max_tool_calls'', PInt 5)]
     \<and> limits_tighter (limit_defaults_for dl) (dict_of (execution_limits g)) (limits_in ad)"
proof -
  obtain ad where r: "resolve (deploy_env (PDict [(''max_tool_calls'', PInt 5)])) (RoleName ''sales'')
      (Some ''acme'') PNone small_registry = (Inr ad, small_registry)" and t: "ad_tools ad = [''clock'']"
    and l: "limits_in ad = [(''max_tool_calls'', PInt 5)]"
    using demo_deployment by (auto simp: limits_in_def split: prod.splits sum.splits)
  have "\<not> drops_limits ov"
    if "find_override (deploy_env (PDict [(''max_tool_calls'', PInt 5)])) (RoleName ''sales'') (Some ''acme'') = Inr ov" for ov
    using demo_override that by (auto simp: drops_limits_def split: option.splits)
  then show ?thesis using resolve_never_widens [OF r] r t l unfolding limits_kept_def by metis
qed

text \<open>
  C15 R4: whichever way an agent is resolved, with a deployment override or without, one that reads
  untrusted input holds only registered permissions, and none of them covers a T3 permission, so no
  T3 tool is in its reach.
\<close>

theorem untrusted_agent_covers_no_T3:
  assumes "reg_inv reg'" and "resolve e locator client limits reg = (Inr ad, reg')"
    and "ad_untrusted_input ad" and "PStr s \<in> set (ad_permissions ad)"
    and "resolve_perm reg' required = Inr c"
  shows "\<exists>g. resolve_perm reg' s = Inr g \<and> (covers g c \<longrightarrow> class_tier c \<noteq> Some T3)"
proof -
  have "validate_untrusted_input_exec reg' True (ad_permissions ad) = Inr ()"
    using resolve_cases [OF assms(2)] assms(3) merge_fields unmerged_fields by fastforce
  then obtain g where g: "resolve_perm reg' s = Inr g" and t: "class_tier g \<noteq> Some T3"
    using untrusted_exec_ok [OF _ assms(4)] by auto
  have "class_rank g = class_rank c" if "covers g c"
    using perms.cov_rank that inv_resolve_grantable [OF assms(1) assms(5)] by blast
  then show ?thesis using g t by (auto simp: class_rank_T3)
qed

lemma small_registry_inv: "reg_inv small_registry"
  by (auto simp: reg_inv_def small_registry_def catalog_class_def grantable_def family_defs)

theorem untrusted_agent_covers_no_T3_witness:
  "\<exists>g. resolve_perm small_registry ''read:catalog'' = Inr g
     \<and> (covers g catalog_class \<longrightarrow> class_tier catalog_class \<noteq> Some T3)"
proof -
  obtain ad where r: "resolve (deploy_env (PDict [(''max_tool_calls'', PInt 5)])) (RoleName ''sales'')
      (Some ''acme'') PNone small_registry = (Inr ad, small_registry)" and u: "ad_untrusted_input ad"
    and p: "PStr ''read:catalog'' \<in> set (ad_permissions ad)"
    using demo_deployment by (auto split: prod.splits sum.splits)
  have c: "resolve_perm small_registry ''read:catalog'' = Inr catalog_class"
    by (simp add: small_registry_def resolve_perm_def)
  show ?thesis by (rule untrusted_agent_covers_no_T3 [OF small_registry_inv r u p c])
qed

text \<open>
  Resolving an agent only ever adds to the permission registry: from a reachable registry the
  result is reachable and every name keeps its class, also when resolution fails.
\<close>

theorem resolve_grows_registry:
  assumes "resolve e locator client limits reg = (r, reg')" and "reg_reachable reg"
  shows "reg_reachable reg' \<and> (\<forall>n c. resolve_perm reg n = Inr c \<longrightarrow> resolve_perm reg' n = Inr c)"
proof -
  have "registry_grows reg reg'"
    using assms(1) growth.tighter_refl
    by (auto simp: resolve_def Let_def dest: load_generic_grows split: sum.splits prod.splits if_splits)
  then show ?thesis using assms(2) by (simp add: registry_grows_def)
qed

theorem resolve_grows_registry_witness:
  "reg_reachable (snd (resolve demo_env (RoleName ''base'') None PNone shipped_registry))"
proof -
  let ?r = "resolve demo_env (RoleName ''base'') None PNone shipped_registry"
  have "?r = (fst ?r, snd ?r)" by simp
  from resolve_grows_registry [OF this reg_reachable.shipped] show ?thesis by blast
qed

text \<open>
  What every resolved agent carries: a prompt that ends with the base contract, and command
  tools that are all narrow (an absolute program, placeholders as whole elements, constrained
  parameters, tier T2, a \<open>run:\<close> permission), whoever built their declarations.
\<close>

theorem resolved_agent_contract:
  assumes "resolve e locator client limits reg = (Inr ad, reg')"
  shows "(\<exists>p. ad_system_prompt ad = append_base_contract p)
     \<and> (\<forall>c \<in> set (ad_command_tools ad). narrow_declaration c)"
proof -
  obtain dl g where g: "revalidate_command_tools g = Inr ()"
    and alt: "resolve_unmerged reg' g = Inr ad
        \<or> (\<exists>ov m. merge_validated reg' g ov (limit_defaults_for dl) = Inr m
             \<and> ad = m\<lparr>ad_system_prompt := append_base_contract (ad_system_prompt m)\<rparr>)"
    using resolve_cases [OF assms] by blast
  have "set (ad_command_tools ad) \<subseteq> snd ` set (command_tool_declarations g)"
    using alt unmerged_no_wider merged_no_wider unfolding no_wider_def by blast
  then have "\<forall>c \<in> set (ad_command_tools ad). narrow_declaration c"
    using revalidate_command_tools_narrow [OF g] by fastforce
  moreover have "\<exists>p. ad_system_prompt ad = append_base_contract p"
    using alt unmerged_fields by fastforce
  ultimately show ?thesis by blast
qed

definition stock_agent :: raw_definition where
  "stock_agent = quiet_role\<lparr>permissions := PList [], command_tools := [''stock''],
     command_tool_declarations := [(''stock'', lookup_declaration)]\<rparr>"

theorem resolved_agent_contract_witness:
  "\<exists>ad. fst (resolve demo_env (InlineLocator 1 stock_agent NoParent) None PNone families_registry) = Inr ad
     \<and> ad_command_tools ad = [lookup_declaration] \<and> narrow_declaration lookup_declaration"
proof -
  let ?r = "resolve demo_env (InlineLocator 1 stock_agent NoParent) None PNone families_registry"
  have "(case ?r of (Inr ad, reg') \<Rightarrow> ad_command_tools ad = [lookup_declaration] | _ \<Rightarrow> False)"
    by code_simp
  then obtain ad reg' where r: "?r = (Inr ad, reg')" and c: "ad_command_tools ad = [lookup_declaration]"
    by (auto split: prod.splits sum.splits)
  show ?thesis using resolved_agent_contract [OF r] r c by simp
qed

text \<open>
  A deployment's execution limits.  Left out, \<open>inherit\<close> or a mapping: no limit in force is
  looser than the role's, also for the keys the mapping leaves out.  Any other value is accepted
  too, and then the agent carries no limits at all.
\<close>

theorem deployment_limits:
  assumes "merge_validated reg g ov ld = Inr ad"
  shows "(execution_limits ov = PNone \<or> execution_limits ov = PStr ''inherit'' \<or> is_dict (execution_limits ov)
          \<longrightarrow> limits_tighter ld (dict_of (execution_limits g))
                (case ad_execution_limits ad of None \<Rightarrow> [] | Some d \<Rightarrow> d))
     \<and> (execution_limits ov \<noteq> PNone \<and> execution_limits ov \<noteq> PStr ''inherit'' \<and> \<not> is_dict (execution_limits ov)
          \<longrightarrow> ad_execution_limits ad = None)"
proof -
  have m: "merge_limits (execution_limits g) (execution_limits ov) ld = Inr (ad_execution_limits ad)"
    using merge_fields [OF assms] by blast
  have "ad_execution_limits ad = None"
    if "execution_limits ov \<noteq> PNone" "execution_limits ov \<noteq> PStr ''inherit''" "\<not> is_dict (execution_limits ov)"
    using m that by (cases "execution_limits ov") auto
  then show ?thesis using merge_limits_tighter [OF m] by blast
qed

theorem deployment_limits_witness:
  "\<exists>ad. merge_validated small_registry quiet_role
       (quiet_role\<lparr>execution_limits := PDict [(''max_tool_calls'', PInt 5)]\<rparr>) PLATFORM_DEFAULT_LIMITS = Inr ad
     \<and> limits_tighter PLATFORM_DEFAULT_LIMITS [(''max_tool_calls'', PInt 10)]
         (case ad_execution_limits ad of None \<Rightarrow> [] | Some d \<Rightarrow> d)"
proof -
  let ?ov = "quiet_role\<lparr>execution_limits := PDict [(''max_tool_calls'', PInt 5)]\<rparr>"
  have "(case merge_validated small_registry quiet_role ?ov PLATFORM_DEFAULT_LIMITS of Inr ad \<Rightarrow> True | Inl _ \<Rightarrow> False)"
    by code_simp
  then obtain ad where r: "merge_validated small_registry quiet_role ?ov PLATFORM_DEFAULT_LIMITS = Inr ad"
    by (auto split: sum.splits)
  have "dict_of (execution_limits quiet_role) = [(''max_tool_calls'', PInt 10)]"
    by (simp add: quiet_role_def)
  then show ?thesis using deployment_limits [OF r] r by simp
qed

text \<open>
  The gap: with \<open>execution_limits: false\<close> in the deployment's policy the loader accepts the
  override, and the role's ten tool calls become the platform's twenty.
\<close>

theorem scalar_limits_drop_role_limits:
  "\<exists>ad g dl. fst (resolve (deploy_env (PBool False)) (RoleName ''sales'') (Some ''acme'') PNone small_registry) = Inr ad
     \<and> fst (resolve (deploy_env (PBool False)) (RoleName ''sales'') None PNone small_registry) = Inr g
     \<and> dl = limit_defaults_for []
     \<and> ad_execution_limits g = Some [(''max_tool_calls'', PInt 10)] \<and> ad_execution_limits ad = None
     \<and> limit_of dl [(''max_tool_calls'', PInt 10)] ''max_tool_calls'' = PInt 10
     \<and> limit_of dl [] ''max_tool_calls'' = PInt 20"
proof -
  have "(case fst (resolve (deploy_env (PBool False)) (RoleName ''sales'') (Some ''acme'') PNone small_registry) of
      Inr ad \<Rightarrow> ad_execution_limits ad = None | Inl _ \<Rightarrow> False)"
    by code_simp
  then obtain ad where ad: "fst (resolve (deploy_env (PBool False)) (RoleName ''sales'') (Some ''acme'') PNone small_registry) = Inr ad"
    "ad_execution_limits ad = None"
    by (auto split: sum.splits)
  have "(case fst (resolve (deploy_env (PBool False)) (RoleName ''sales'') None PNone small_registry) of
      Inr g \<Rightarrow> ad_execution_limits g = Some [(''max_tool_calls'', PInt 10)] | Inl _ \<Rightarrow> False)"
    by code_simp
  then obtain g where "fst (resolve (deploy_env (PBool False)) (RoleName ''sales'') None PNone small_registry) = Inr g"
    "ad_execution_limits g = Some [(''max_tool_calls'', PInt 10)]"
    by (auto split: sum.splits)
  moreover have "limit_of (limit_defaults_for []) [(''max_tool_calls'', PInt 10)] ''max_tool_calls'' = PInt 10
     \<and> limit_of (limit_defaults_for []) [] ''max_tool_calls'' = PInt 20"
    by code_simp
  ultimately show ?thesis using ad by blast
qed

end
