(* ===== verification/Injector.thy ===== *)
theory Injector
  imports Tools Resolve
begin

section \<open>Layer 1: the tool surface\<close>

text \<open>
  \<open>harness/injector.py\<close>.  The surface of an agent is decided once, when the runtime is built:
  every declared tool is looked up, and granted or denied with a reason.  The audit events go into
  a list, in the order they are emitted; delivering them is left out.  A connector is any value.
\<close>

datatype audit_event =
    ToolGranted string bool
  | ToolDenied string string
  | UnknownTool string
  | CallBlocked string string
  | CallAttempted string bool bool bool
  | SkillMissing string
  | SkillLoaded string
  | RuntimeBuilt nat nat nat "string list"

record 'c injection_result =
  ir_granted :: "'c tool_spec list"
  ir_denied :: "(string \<times> string) list"

subsection \<open>The grant decision\<close>

text \<open>The classes of the names that are registered; the others cover nothing.\<close>

definition known_classes :: "registry \<Rightarrow> string list \<Rightarrow> pclass list" where
  "known_classes reg names = List.map_filter (\<lambda>n. map_of (by_name reg) n) names"

text \<open>A required name is resolved only when there is a class to compare it with.\<close>

definition is_covered :: "registry \<Rightarrow> pclass list \<Rightarrow> string \<Rightarrow> bool res" where
  "is_covered reg classes name =
     (if classes = [] then Inr False
      else bindR (resolve_perm reg name) (\<lambda>r. Inr (\<exists>g \<in> set classes. covers g r)))"

definition missing_permissions :: "registry \<Rightarrow> pclass list \<Rightarrow> string list \<Rightarrow> string list res" where
  "missing_permissions reg classes required =
     bindR (mapR (\<lambda>n. bindR (is_covered reg classes n) (\<lambda>b. Inr (n, b))) required) (\<lambda>bs.
       Inr (sort (map fst (filter (\<lambda>(n, b). \<not> b) bs))))"

definition T3_REASON :: string where
  "T3_REASON = ''tier T3 tools are never granted to an untrusted_input role (ADR-002 C.10)''"

definition deny_reason ::
  "registry \<Rightarrow> 'c tool_spec \<Rightarrow> agent_definition \<Rightarrow> string list \<Rightarrow> string option res" where
  "deny_reason reg spec d effective =
     (if ad_untrusted_input d \<and> ts_tier spec = T3 then Inr (Some T3_REASON)
      else bindR (missing_permissions reg (known_classes reg effective) (required_permissions spec)) (\<lambda>missing.
        Inr (if missing = [] then None
             else Some (''missing permissions: '' @ join '', '' missing))))"

text \<open>\<open>set(definition.permissions) & set(granted_permissions)\<close>\<close>

definition effective_names :: "agent_definition \<Rightarrow> string list \<Rightarrow> string list res" where
  "effective_names d granted =
     bindR (guardR (list_all hashable (ad_permissions d)) (TypeErr ''unhashable'')) (\<lambda>_.
       Inr (filter (\<lambda>s. s \<in> set granted) (remdups (map str_of (filter is_str (ad_permissions d))))))"

subsection \<open>The two surfaces\<close>

definition find_spec ::
  "'c tool_registry \<Rightarrow> (string \<times> 'c tool_spec) list \<Rightarrow> string \<Rightarrow> ('c tool_spec \<times> bool) option" where
  "find_spec tr defaults name =
     (case map_of tr name of
        Some s \<Rightarrow> Some (s, False)
      | None \<Rightarrow> (case map_of defaults name of Some s \<Rightarrow> Some (s, True) | None \<Rightarrow> None))"

fun surface_loop ::
  "registry \<Rightarrow> agent_definition \<Rightarrow> string list
   \<Rightarrow> (string \<Rightarrow> ('c tool_spec \<times> bool) option) \<Rightarrow> string list
   \<Rightarrow> 'c injection_result \<Rightarrow> audit_event list \<Rightarrow> 'c injection_result res \<times> audit_event list" where
  "surface_loop reg d effective lookup [] acc evs = (Inr acc, evs)"
| "surface_loop reg d effective lookup (name # names) acc evs =
     (case lookup name of
        None \<Rightarrow> (Inl (InjectionError name), evs @ [UnknownTool name])
      | Some (spec, from_default) \<Rightarrow>
          (case deny_reason reg spec d effective of
             Inl e \<Rightarrow> (Inl e, evs)
           | Inr None \<Rightarrow>
               surface_loop reg d effective lookup names
                 (acc\<lparr>ir_granted := ir_granted acc @ [spec]\<rparr>) (evs @ [ToolGranted (ts_name spec) from_default])
           | Inr (Some reason) \<Rightarrow>
               surface_loop reg d effective lookup names
                 (acc\<lparr>ir_denied := ir_denied acc @ [(name, reason)]\<rparr>) (evs @ [ToolDenied name reason])))"

definition resolve_tool_surface ::
  "registry \<Rightarrow> agent_definition \<Rightarrow> 'c tool_registry \<Rightarrow> string list \<Rightarrow> (string \<times> 'c tool_spec) list
   \<Rightarrow> 'c injection_result res \<times> audit_event list" where
  "resolve_tool_surface reg d tr granted defaults =
     (case effective_names d granted of
        Inl e \<Rightarrow> (Inl e, [])
      | Inr effective \<Rightarrow>
          surface_loop reg d effective (find_spec tr defaults) (ad_tools d)
            \<lparr>ir_granted = [], ir_denied = []\<rparr> [])"

fun command_loop ::
  "registry \<Rightarrow> agent_definition \<Rightarrow> string list \<Rightarrow> 'c tool_spec list
   \<Rightarrow> 'c injection_result \<Rightarrow> audit_event list \<Rightarrow> 'c injection_result res \<times> audit_event list" where
  "command_loop reg d effective [] acc evs = (Inr acc, evs)"
| "command_loop reg d effective (spec # specs) acc evs =
     (case deny_reason reg spec d effective of
        Inl e \<Rightarrow> (Inl e, evs)
      | Inr None \<Rightarrow>
          command_loop reg d effective specs
            (acc\<lparr>ir_granted := ir_granted acc @ [spec]\<rparr>) (evs @ [ToolGranted (ts_name spec) False])
      | Inr (Some reason) \<Rightarrow>
          command_loop reg d effective specs
            (acc\<lparr>ir_denied := ir_denied acc @ [(ts_name spec, reason)]\<rparr>)
            (evs @ [ToolDenied (ts_name spec) reason]))"

definition resolve_command_tool_surface ::
  "registry \<Rightarrow> (command_tool_declaration \<Rightarrow> 'c) \<Rightarrow> agent_definition \<Rightarrow> string list
   \<Rightarrow> 'c injection_result res \<times> audit_event list" where
  "resolve_command_tool_surface reg mk d granted =
     (case effective_names d granted of
        Inl e \<Rightarrow> (Inl e, [])
      | Inr effective \<Rightarrow>
          (case build_command_tool_specs reg mk (ad_command_tools d) of
             Inl e \<Rightarrow> (Inl e, [])
           | Inr specs \<Rightarrow> command_loop reg d effective specs \<lparr>ir_granted = [], ir_denied = []\<rparr> []))"

subsection \<open>What the decision means\<close>

lemma known_classes_mem: "g \<in> set (known_classes reg names) \<longleftrightarrow> (\<exists>n \<in> set names. resolve_perm reg n = Inr g)"
  by (induction names) (auto simp: known_classes_def List.map_filter_simps success split: option.splits)

lemma is_covered_True:
  "is_covered reg cs n = Inr True \<longleftrightarrow> (\<exists>r. resolve_perm reg n = Inr r \<and> (\<exists>g \<in> set cs. covers g r))"
  by (auto simp: is_covered_def bindR_eq_Inr)

lemma missing_none:
  "missing_permissions reg cs required = Inr [] \<longleftrightarrow>
     (\<forall>n \<in> set required. \<exists>r. resolve_perm reg n = Inr r \<and> (\<exists>g \<in> set cs. covers g r))"
proof -
  have "mapR (\<lambda>n. bindR (is_covered reg cs n) (\<lambda>b. Inr (n, b))) required = Inr bs \<Longrightarrow>
      (filter (\<lambda>(n, b). \<not> b) bs = [] \<longleftrightarrow> (\<forall>n \<in> set required. is_covered reg cs n = Inr True))" for bs
    by (induction required arbitrary: bs) (auto simp: bindR_eq_Inr split: if_splits)
  moreover have "\<exists>bs. mapR (\<lambda>n. bindR (is_covered reg cs n) (\<lambda>b. Inr (n, b))) required = Inr bs"
    if "\<forall>n \<in> set required. is_covered reg cs n = Inr True"
    by (rule mapR_total) (auto simp: that)
  moreover have "sort xs = [] \<longleftrightarrow> xs = []" for xs :: "string list"
    by (metis set_empty set_sort)
  ultimately have "missing_permissions reg cs required = Inr [] \<longleftrightarrow>
      (\<forall>n \<in> set required. is_covered reg cs n = Inr True)"
    by (auto simp: missing_permissions_def bindR_eq_Inr)
  then show ?thesis by (simp add: is_covered_True)
qed

text \<open>The tools an agent may hold under a grant.\<close>

definition entitled :: "registry \<Rightarrow> agent_definition \<Rightarrow> string list \<Rightarrow> 'c tool_spec \<Rightarrow> bool" where
  "entitled reg d granted spec \<longleftrightarrow>
     \<not> (ad_untrusted_input d \<and> ts_tier spec = T3)
     \<and> (\<forall>n \<in> set (required_permissions spec). \<exists>r s g.
          resolve_perm reg n = Inr r \<and> PStr s \<in> set (ad_permissions d) \<and> s \<in> set granted
          \<and> resolve_perm reg s = Inr g \<and> covers g r)"

lemma effective_names_mem:
  assumes "effective_names d granted = Inr eff"
  shows "s \<in> set eff \<longleftrightarrow> PStr s \<in> set (ad_permissions d) \<and> s \<in> set granted"
proof -
  have "s \<in> str_of ` {v \<in> set (ad_permissions d). is_str v} \<longleftrightarrow> PStr s \<in> set (ad_permissions d)"
    by (force elim: is_str.elims)
  then show ?thesis using assms by (auto simp: effective_names_def success)
qed

lemma deny_none:
  assumes "effective_names d granted = Inr eff"
  shows "deny_reason reg spec d eff = Inr None \<longleftrightarrow> entitled reg d granted spec"
proof -
  have "deny_reason reg spec d eff = Inr None \<longleftrightarrow> \<not> (ad_untrusted_input d \<and> ts_tier spec = T3)
      \<and> missing_permissions reg (known_classes reg eff) (required_permissions spec) = Inr []"
    by (auto simp: deny_reason_def bindR_eq_Inr split: if_splits)
  also have "\<dots> \<longleftrightarrow> entitled reg d granted spec"
  proof -
    have "(\<exists>g \<in> set (known_classes reg eff). covers g r) \<longleftrightarrow>
        (\<exists>s g. PStr s \<in> set (ad_permissions d) \<and> s \<in> set granted \<and> resolve_perm reg s = Inr g \<and> covers g r)" for r
      using effective_names_mem [OF assms] unfolding Bex_def known_classes_mem by blast
    then show ?thesis unfolding missing_none entitled_def by simp
  qed
  finally show ?thesis .
qed

fun granted_event :: "audit_event \<Rightarrow> string option" where
  "granted_event (ToolGranted n _) = Some n"
| "granted_event _ = None"

fun denied_event :: "audit_event \<Rightarrow> (string \<times> string) option" where
  "denied_event (ToolDenied n r) = Some (n, r)"
| "denied_event _ = None"

text \<open>The audit trail tells what the result holds.\<close>

definition audited :: "'c injection_result \<Rightarrow> audit_event list \<Rightarrow> bool" where
  "audited ir evs \<longleftrightarrow>
     List.map_filter granted_event evs = map ts_name (ir_granted ir)
     \<and> List.map_filter denied_event evs = ir_denied ir"

lemma map_filter_snoc:
  "List.map_filter f (xs @ [x]) = List.map_filter f xs @ (case f x of None \<Rightarrow> [] | Some y \<Rightarrow> [y])"
  by (auto simp: List.map_filter_def split: option.splits)

lemma surface_loop_ok:
  assumes "surface_loop reg d eff lookup names acc evs = (Inr ir, evs')"
    and "effective_names d granted = Inr eff"
  shows "\<exists>found. list_all2 (\<lambda>n f. lookup n = Some f) names found
    \<and> ir_granted ir = ir_granted acc @ filter (entitled reg d granted) (map fst found)
    \<and> map fst (ir_denied ir) = map fst (ir_denied acc)
        @ map fst (filter (\<lambda>(n, f). \<not> entitled reg d granted (fst f)) (zip names found))
    \<and> (audited acc evs \<longrightarrow> audited ir evs')"
  using assms(1)
proof (induction names arbitrary: acc evs)
  case Nil
  then show ?case by simp
next
  case (Cons n names)
  obtain spec b where l: "lookup n = Some (spec, b)"
    using Cons.prems by (auto split: option.splits)
  obtain r where r: "deny_reason reg spec d eff = Inr r"
    using Cons.prems l by (cases "deny_reason reg spec d eff") auto
  let ?acc = "case r of None \<Rightarrow> acc\<lparr>ir_granted := ir_granted acc @ [spec]\<rparr>
    | Some x \<Rightarrow> acc\<lparr>ir_denied := ir_denied acc @ [(n, x)]\<rparr>"
  let ?evs = "evs @ [case r of None \<Rightarrow> ToolGranted (ts_name spec) b | Some x \<Rightarrow> ToolDenied n x]"
  have "surface_loop reg d eff lookup names ?acc ?evs = (Inr ir, evs')"
    using Cons.prems l r by (cases r) simp_all
  from Cons.IH [OF this] obtain found where f: "list_all2 (\<lambda>n f. lookup n = Some f) names found"
    "ir_granted ir = ir_granted ?acc @ filter (entitled reg d granted) (map fst found)"
    "map fst (ir_denied ir) = map fst (ir_denied ?acc)
        @ map fst (filter (\<lambda>(n, f). \<not> entitled reg d granted (fst f)) (zip names found))"
    "audited ?acc ?evs \<longrightarrow> audited ir evs'" by blast
  have e: "entitled reg d granted spec \<longleftrightarrow> r = None"
    using deny_none [OF assms(2), of reg spec] r by auto
  have "audited acc evs \<longrightarrow> audited ?acc ?evs"
    by (cases r) (simp_all add: audited_def map_filter_snoc)
  then show ?case using f l e
    by (intro exI [of _ "(spec, b) # found"]) (cases r; simp)
qed

subsection \<open>Properties\<close>

text \<open>
  C11 The surface is exact: when it resolves, every declared tool was found (in the registry first,
  in the defaults otherwise), it is granted exactly when the agent declares and the deployment
  grants permissions that cover all it requires and it is not a T3 tool of an agent that reads
  untrusted input, every other declared tool is denied by name, both in declaration order, and the
  audit events tell the same.
\<close>

theorem surface_exact:
  assumes "resolve_tool_surface reg d tr granted defaults = (Inr ir, evs)"
  shows "\<exists>found. list_all2 (\<lambda>n f. find_spec tr defaults n = Some f) (ad_tools d) found
     \<and> ir_granted ir = filter (entitled reg d granted) (map fst found)
     \<and> map fst (ir_denied ir) = map fst (filter (\<lambda>(n, f). \<not> entitled reg d granted (fst f)) (zip (ad_tools d) found))
     \<and> audited ir evs"
proof -
  obtain eff where e: "effective_names d granted = Inr eff"
    and l: "surface_loop reg d eff (find_spec tr defaults) (ad_tools d) \<lparr>ir_granted = [], ir_denied = []\<rparr> [] = (Inr ir, evs)"
    using assms by (auto simp: resolve_tool_surface_def split: sum.splits)
  have "audited \<lparr>ir_granted = [], ir_denied = []\<rparr> []"
    by (simp add: audited_def List.map_filter_simps)
  then show ?thesis using surface_loop_ok [OF l e] by auto
qed

definition demo_holder :: agent_definition where
  "demo_holder = \<lparr>ad_role_name = ''base'', ad_version = ''1.0'', ad_deployment = None, ad_system_prompt = [],
     ad_tools = [''clock'', ''shop''], ad_skills = [], ad_context = [], ad_permissions = [], ad_autonomy = ''confirm'',
     ad_escalation_rules = [], ad_delegation_policy = [], ad_memory_policy = [], ad_audit_policy = [],
     ad_execution_limits = None, ad_untrusted_input = True, ad_command_tools = [], ad_skills_folder = None,
     ad_inline_skills = [], ad_importer_root = None, ad_model = None\<rparr>"

definition shop_tool :: "unit tool_spec" where
  "shop_tool = demo_spec\<lparr>ts_name := ''shop'', required_permissions := [''read:catalog'']\<rparr>"

theorem surface_exact_witness:
  "\<exists>ir evs found. resolve_tool_surface small_registry demo_holder [(''clock'', demo_spec), (''shop'', shop_tool)]
        [''read:catalog''] [] = (Inr ir, evs)
     \<and> list_all2 (\<lambda>n f. find_spec [(''clock'', demo_spec), (''shop'', shop_tool)] [] n = Some f)
          (ad_tools demo_holder) found
     \<and> ir_granted ir = [demo_spec] \<and> audited ir evs"
proof -
  have "(case resolve_tool_surface small_registry demo_holder [(''clock'', demo_spec), (''shop'', shop_tool)]
        [''read:catalog''] [] of (Inr ir, evs) \<Rightarrow> ir_granted ir = [demo_spec] | _ \<Rightarrow> False)"
    by code_simp
  then obtain ir evs where r: "resolve_tool_surface small_registry demo_holder
      [(''clock'', demo_spec), (''shop'', shop_tool)] [''read:catalog''] [] = (Inr ir, evs)"
    and g: "ir_granted ir = [demo_spec]"
    by (auto split: prod.splits sum.splits)
  show ?thesis using surface_exact [OF r] r g by blast
qed

end
