(* ===== verification/Factory.thy ===== *)
theory Factory
  imports Injector
begin

section \<open>Assembling a runtime\<close>

text \<open>
  \<open>harness/factory.py\<close>: skills, the composed prompt and \<open>build_runtime\<close>.  The deployments
  directory and the tools of \<open>harness/defaults.py\<close> are arguments, and the em dash of the prompt
  text, which is no character of the model, is the argument \<open>dash\<close>.
\<close>

record 'c runtime =
  rt_definition :: agent_definition
  rt_system_prompt :: string
  rt_tools :: "'c tool_spec list"
  rt_denied :: "(string \<times> string) list"
  rt_skills :: "(string \<times> string) list"
  rt_builtin_defaults :: "string list"
  rt_ceiling :: "pclass list"
  rt_deployment_limits :: dict

subsection \<open>Skills\<close>

definition read_skill :: "env \<Rightarrow> path \<Rightarrow> path \<Rightarrow> string \<Rightarrow> string option" where
  "read_skill e base_root skills_dir name =
     (case resolve_within_root e base_root skills_dir (name @ ''.md'') of
        None \<Rightarrow> None
      | Some p \<Rightarrow>
          (case realpath e skills_dir of
             None \<Rightarrow> None
           | Some sd \<Rightarrow>
               if take (length sd) p \<noteq> sd then None
               else (case read_within_root e base_root p of
                  Inl _ \<Rightarrow> None
                | Inr text \<Rightarrow> Some (strip text))))"

text \<open>\<open>base / segment\<close>: an absolute right-hand side replaces the base.\<close>

definition join_segment :: "path \<Rightarrow> string \<Rightarrow> path" where
  "join_segment base segment =
     (if starts_with segment ''/'' then path_parts segment else base @ path_parts segment)"

definition deployment_skill :: "env \<Rightarrow> path \<Rightarrow> agent_definition \<Rightarrow> string option \<Rightarrow> string \<Rightarrow> string option" where
  "deployment_skill e dep_root d client name =
     (case client of
        None \<Rightarrow> None
      | Some c \<Rightarrow> 
          read_skill e dep_root (join_segment (join_segment dep_root c) (ad_role_name d) @ [''skills'']) name)"

definition skill_content ::
  "env \<Rightarrow> path \<Rightarrow> agent_definition \<Rightarrow> string option \<Rightarrow> string \<Rightarrow> string option" where
  "skill_content e dep_root d client name =
     (case map_of (ad_inline_skills d) name of
        Some content \<Rightarrow> Some content
      | None \<Rightarrow>
          (case (case ad_skills_folder d of
                   None \<Rightarrow> None
                 | Some folder \<Rightarrow>
                     read_skill e (case ad_importer_root d of Some r \<Rightarrow> r | None \<Rightarrow> folder) folder name) of
             Some content \<Rightarrow> Some content
           | None \<Rightarrow> deployment_skill e dep_root d client name))"

fun load_each :: "(string \<Rightarrow> string option) \<Rightarrow> string list \<Rightarrow> (string \<times> string) list res \<times> audit_event list" where
  "load_each content [] = (Inr [], [])"
| "load_each content (n # ns) =
     (case content n of
        None \<Rightarrow> (Inl (FactoryError n), [SkillMissing n])
      | Some c \<Rightarrow>
          (case load_each content ns of
             (Inl x, evs) \<Rightarrow> (Inl x, SkillLoaded n # evs)
           | (Inr ls, evs) \<Rightarrow> (Inr ((n, c) # ls), SkillLoaded n # evs)))"

definition load_skills ::
  "env \<Rightarrow> path \<Rightarrow> agent_definition \<Rightarrow> string option \<Rightarrow> (string \<times> string) list res \<times> audit_event list" where
  "load_skills e dep_root d client =
     (if ad_skills d = [] then (Inr [], [])
      else if client \<noteq> None \<and> \<not> deployments_root_exists e
      then (Inl (DefinitionError ''deployments_root''), [])
      else load_each (skill_content e dep_root d client) (ad_skills d))"

subsection \<open>The composed prompt\<close>

definition ESCALATION_HEADING :: string where
  "ESCALATION_HEADING = ''## escalation rules''"

definition normalize_condition_name :: "string \<Rightarrow> string res" where
  "normalize_condition_name raw =
     (if nl \<in> set raw \<or> CHR 0x0D \<in> set raw then Inl (FactoryError ''condition name'')
      else Inr (collapse_ws raw))"

fun normalized_descriptions :: "dict \<Rightarrow> dict \<Rightarrow> dict res" where
  "normalized_descriptions acc [] = Inr acc"
| "normalized_descriptions acc ((k, v) # d) =
     (if collapse_ws k \<in> set (dkeys acc) then Inl (FactoryError ''description keys'')
      else normalized_descriptions (acc @ [(collapse_ws k, v)]) d)"

definition bullet :: "string \<Rightarrow> dict \<Rightarrow> string \<Rightarrow> string" where
  "bullet dash descriptions condition =
     (let description = (let v = dget descriptions condition in
            collapse_ws (if py_truthy v then py_str v else []))
      in if description \<noteq> [] then ''- '' @ condition @ '' '' @ dash @ '' '' @ description
         else ''- '' @ condition)"

definition escalation_intro :: "string \<Rightarrow> string" where
  "escalation_intro dash =
     ''Escalate immediately, rather than guess, whenever any of these apply. Meeting one means CALLING `escalation_notifier` ''
     @ dash @ '' telling the user is not enough:''"

definition escalation_lines :: "string \<Rightarrow> string \<Rightarrow> string list \<Rightarrow> dict \<Rightarrow> string list" where
  "escalation_lines dash target conditions descriptions =
     [ESCALATION_HEADING, []]
     @ (if target \<noteq> [] then [''Escalate to: '' @ target] else [])
     @ (if conditions = [] then []
        else (if target \<noteq> [] then [[]] else [])
             @ escalation_intro dash # map (bullet dash descriptions) conditions)"

definition render_escalation_block :: "string \<Rightarrow> dict \<Rightarrow> string res" where
  "render_escalation_block dash rules =
     bindR (mapR normalize_condition_name (as_str_list (dget rules ''conditions''))) (\<lambda>names.
     bindR (normalized_descriptions [] (descriptions_of rules)) (\<lambda>descriptions.
       if escalate_to rules = [] \<and> filter (\<lambda>c. c \<noteq> []) names = [] then Inr []
       else Inr (unlines (escalation_lines dash (escalate_to rules) (filter (\<lambda>c. c \<noteq> []) names) descriptions))))"

definition compose_prompt :: "string \<Rightarrow> agent_definition \<Rightarrow> (string \<times> string) list \<Rightarrow> string res" where
  "compose_prompt dash d sk =
     bindR (render_escalation_block dash (ad_escalation_rules d)) (\<lambda>block.
       if sk = [] \<and> block = [] then Inr (strip (ad_system_prompt d))
       else Inr (join PROMPT_SEPARATOR (filter (\<lambda>p. p \<noteq> [])
              ([strip (strip_base_contract (ad_system_prompt d))] @ map snd sk
               @ (if block \<noteq> [] then [block] else []) @ [strip BASE_PROMPT_CONTRACT]))))"

subsection \<open>Grants\<close>

datatype grant = GrantName string | GrantClass pclass

definition ACTION_FAMILY_GRANTS :: "pclass list" where
  "ACTION_FAMILY_GRANTS = [ReadPerm, WritePerm, SendPerm, ExecPerm, RunPerm, SpawnPerm, QueryPerm]"

fun resolve_grant :: "registry \<Rightarrow> grant \<Rightarrow> pclass res" where
  "resolve_grant reg (GrantName n) = resolve_perm reg n"
| "resolve_grant reg (GrantClass c) =
     (if c \<in> set ACTION_FAMILY_GRANTS then Inr c
      else bindR (reverse_perm reg c) (\<lambda>_. Inr c))"

text \<open>The order in which the code visits a set is not fixed; the model takes the list's.\<close>

definition check_grant_R4 :: "registry \<Rightarrow> bool \<Rightarrow> pclass list \<Rightarrow> unit res" where
  "check_grant_R4 reg untrusted classes =
     (if \<not> untrusted then Inr ()
      else eachR (\<lambda>c. guardR (class_tier c \<noteq> Some T3)
             (UntrustedInputGrantError (case reverse_perm reg c of Inr n \<Rightarrow> n | Inl _ \<Rightarrow> cls_name c))) classes)"

fun declared_classes :: "registry \<Rightarrow> pyval list \<Rightarrow> (string \<times> pclass) list res" where
  "declared_classes reg [] = Inr []"
| "declared_classes reg (PStr n # vs) =
     bindR (declared_classes reg vs) (\<lambda>m.
       Inr (case map_of (by_name reg) n of None \<Rightarrow> m | Some c \<Rightarrow> dmerge [(n, c)] m))"
| "declared_classes reg (v # vs) =
     (if hashable v then declared_classes reg vs else Inl (TypeErr ''unhashable''))"

definition grant_ceiling :: "pclass list \<Rightarrow> (string \<times> pclass) list \<Rightarrow> pclass list" where
  "grant_ceiling grants declared =
     filter (\<lambda>g. \<exists>(n, c) \<in> set declared. covers g c) (remdups grants)"

definition covered_names :: "pclass list \<Rightarrow> (string \<times> pclass) list \<Rightarrow> string list" where
  "covered_names grants declared =
     map fst (filter (\<lambda>(n, c). \<exists>g \<in> set grants. covers g c) declared)"

subsection \<open>\<open>build_runtime\<close>\<close>

record 'c build_args =
  ba_env :: env
  ba_deployments_root :: path
  ba_dash :: string
  ba_tools :: "'c tool_registry"
  ba_make :: "command_tool_declaration \<Rightarrow> 'c"
  ba_defaults :: "agent_definition \<Rightarrow> (string \<times> 'c tool_spec) list"
  ba_is_default :: "'c tool_spec \<Rightarrow> bool"
  ba_builtin_defaults :: bool

definition surfaces ::
  "'c build_args \<Rightarrow> registry \<Rightarrow> agent_definition \<Rightarrow> string list
   \<Rightarrow> ('c injection_result \<times> 'c injection_result) res \<times> audit_event list" where
  "surfaces a reg d covered =
     (case resolve_tool_surface reg d (ba_tools a) covered
             (if ba_builtin_defaults a then ba_defaults a d else []) of
        (Inl x, evs) \<Rightarrow> (Inl x, evs)
      | (Inr s, evs) \<Rightarrow>
          (case resolve_command_tool_surface reg (ba_make a) d covered of
             (Inl x, evs') \<Rightarrow> (Inl x, evs @ evs')
           | (Inr cs, evs') \<Rightarrow> (Inr (s, cs), evs @ evs')))"

text \<open>The definition is known: grants, both surfaces, skills and prompt, in the code's order.\<close>

definition assemble ::
  "'c build_args \<Rightarrow> registry \<Rightarrow> agent_definition \<Rightarrow> grant list \<Rightarrow> string option \<Rightarrow> dict
   \<Rightarrow> 'c runtime res \<times> audit_event list" where
  "assemble a reg d granted client deployment_limits =
     (case bindR (mapR (resolve_grant reg) granted) (\<lambda>classes.
           bindR (check_grant_R4 reg (ad_untrusted_input d) (remdups classes)) (\<lambda>_.
           bindR (declared_classes reg (ad_permissions d)) (\<lambda>declared. Inr (classes, declared)))) of
        Inl x \<Rightarrow> (Inl x, [])
      | Inr (classes, declared) \<Rightarrow>
          (case surfaces a reg d (covered_names classes declared) of
             (Inl x, evs) \<Rightarrow> (Inl x, evs)
           | (Inr (s, cs), evs) \<Rightarrow>
               (case load_skills (ba_env a) (ba_deployments_root a) d client of
                  (Inl x, evs') \<Rightarrow> (Inl x, evs @ evs')
                | (Inr sk, evs') \<Rightarrow>
                    (case compose_prompt (ba_dash a) d sk of
                       Inl x \<Rightarrow> (Inl x, evs @ evs')
                     | Inr prompt \<Rightarrow>
                         let ts = ir_granted s @ ir_granted cs;
                             denied = ir_denied s @ ir_denied cs;
                             names = map ts_name (filter (ba_is_default a) ts)
                         in (Inr \<lparr>rt_definition = d, rt_system_prompt = prompt, rt_tools = ts,
                                  rt_denied = denied, rt_skills = sk, rt_builtin_defaults = names,
                                  rt_ceiling = grant_ceiling classes declared,
                                  rt_deployment_limits = deployment_limits\<rparr>,
                             evs @ evs' @ [RuntimeBuilt (length ts) (length denied) (length sk) names])))))"

definition build_runtime ::
  "'c build_args \<Rightarrow> locator \<Rightarrow> grant list \<Rightarrow> string option \<Rightarrow> agent_definition option \<Rightarrow> pyval
   \<Rightarrow> registry \<Rightarrow> 'c runtime res \<times> registry \<times> audit_event list" where
  "build_runtime a locator granted client given limits reg =
     (case validate_execution_limits limits OUTBOX_LEASE_S of
        Inl x \<Rightarrow> (Inl x, reg, [])
      | Inr deployment_limits \<Rightarrow>
          (case (case given of
                   Some d \<Rightarrow> (Inr d, reg)
                 | None \<Rightarrow> resolve (ba_env a) locator client (PDict deployment_limits) reg) of
             (Inl x, reg') \<Rightarrow> (Inl x, reg', [])
           | (Inr d, reg') \<Rightarrow>
               (case assemble a reg' d granted client deployment_limits of
                  (r, evs) \<Rightarrow> (r, reg', evs))))"

subsection \<open>Facts about the parts\<close>

lemma declared_classes_mem:
  "declared_classes reg vs = Inr m \<Longrightarrow>
     (n, c) \<in> set m \<longleftrightarrow> PStr n \<in> set vs \<and> map_of (by_name reg) n = Some c"
proof (induction reg vs arbitrary: m n c rule: declared_classes.induct)
  case (2 reg n' vs)
  then obtain m' where m': "declared_classes reg vs = Inr m'"
    and m: "m = (case map_of (by_name reg) n' of None \<Rightarrow> m' | Some c \<Rightarrow> dmerge [(n', c)] m')"
    by (auto simp: bindR_eq_Inr)
  note IH = "2.IH" [OF m']
  show ?case
  proof (cases "map_of (by_name reg) n'")
    case None
    then show ?thesis using m IH by auto
  next
    case (Some d)
    have "(case map_of m' n' of Some w \<Rightarrow> w | None \<Rightarrow> d) = d"
      using IH Some map_of_SomeD [of m' n'] by (cases "map_of m' n'") auto
    then have "m = (n', d) # filter (\<lambda>(k, v). k \<noteq> n') m'"
      using m Some by (simp add: dmerge_def dkeys_def)
    then show ?thesis using IH Some by auto
  qed
qed (auto split: if_splits)

lemma covered_names_mem:
  assumes "declared_classes reg vs = Inr m"
  shows "n \<in> set (covered_names grants m) \<longleftrightarrow>
    PStr n \<in> set vs \<and> (\<exists>c. resolve_perm reg n = Inr c \<and> (\<exists>g \<in> set grants. covers g c))"
  using declared_classes_mem [OF assms] by (force simp: covered_names_def success)

lemma grant_ceiling_mem:
  assumes "declared_classes reg vs = Inr m"
  shows "g \<in> set (grant_ceiling grants m) \<longleftrightarrow>
    g \<in> set grants \<and> (\<exists>n c. PStr n \<in> set vs \<and> resolve_perm reg n = Inr c \<and> covers g c)"
  using declared_classes_mem [OF assms] by (fastforce simp: grant_ceiling_def success)

lemma command_loop_ok:
  assumes "command_loop reg d eff specs acc evs = (Inr ir, evs')"
    and "effective_names d granted = Inr eff"
  shows "ir_granted ir = ir_granted acc @ filter (entitled reg d granted) specs
    \<and> map fst (ir_denied ir) = map fst (ir_denied acc) @ map ts_name (filter (\<lambda>s. \<not> entitled reg d granted s) specs)"
  using assms(1)
proof (induction specs arbitrary: acc evs)
  case (Cons spec specs)
  obtain r where r: "deny_reason reg spec d eff = Inr r"
    using Cons.prems by (cases "deny_reason reg spec d eff") auto
  have e: "entitled reg d granted spec \<longleftrightarrow> r = None"
    using deny_none [OF assms(2), of reg spec] r by auto
  show ?case using Cons.IH Cons.prems r e by (cases r) auto
qed simp

lemma load_each_names: "load_each content ns = (Inr ls, evs) \<Longrightarrow> map fst ls = ns"
  by (induction ns arbitrary: ls evs) (auto split: option.splits prod.splits sum.splits)

lemma load_skills_names: "load_skills e dr d client = (Inr ls, evs) \<Longrightarrow> map fst ls = ad_skills d"
  by (auto simp: load_skills_def dest: load_each_names split: if_splits)

lemma assemble_fields:
  assumes "assemble a reg d granted client dl = (Inr rt, evs)"
  shows "\<exists>classes declared s cs evs1 evs2.
     mapR (resolve_grant reg) granted = Inr classes
     \<and> check_grant_R4 reg (ad_untrusted_input d) (remdups classes) = Inr ()
     \<and> declared_classes reg (ad_permissions d) = Inr declared
     \<and> resolve_tool_surface reg d (ba_tools a) (covered_names classes declared)
         (if ba_builtin_defaults a then ba_defaults a d else []) = (Inr s, evs1)
     \<and> resolve_command_tool_surface reg (ba_make a) d (covered_names classes declared) = (Inr cs, evs2)
     \<and> rt_tools rt = ir_granted s @ ir_granted cs \<and> rt_denied rt = ir_denied s @ ir_denied cs
     \<and> rt_ceiling rt = grant_ceiling classes declared \<and> rt_definition rt = d
     \<and> compose_prompt (ba_dash a) d (rt_skills rt) = Inr (rt_system_prompt rt)
     \<and> map fst (rt_skills rt) = ad_skills d"
  using assms load_skills_names
  by (force simp: assemble_def surfaces_def Let_def bindR_eq_Inr split: sum.splits prod.splits)

definition within_ceiling :: "registry \<Rightarrow> pclass list \<Rightarrow> 'c tool_spec \<Rightarrow> bool" where
  "within_ceiling reg ceil spec \<longleftrightarrow>
     (\<forall>n \<in> set (required_permissions spec). \<exists>r g. resolve_perm reg n = Inr r \<and> g \<in> set ceil \<and> covers g r)"

lemma entitled_within_ceiling:
  assumes "reg_inv reg" and "declared_classes reg (ad_permissions d) = Inr declared"
    and "entitled reg d (covered_names classes declared) spec"
  shows "within_ceiling reg (grant_ceiling classes declared) spec"
  unfolding within_ceiling_def
proof
  fix n assume "n \<in> set (required_permissions spec)"
  then obtain r s gs where r: "resolve_perm reg n = Inr r" and p: "PStr s \<in> set (ad_permissions d)"
    and c: "s \<in> set (covered_names classes declared)" and gs: "resolve_perm reg s = Inr gs" "covers gs r"
    using assms(3) by (auto simp: entitled_def)
  obtain g where g: "g \<in> set classes" "covers g gs"
    using c gs(1) covered_names_mem [OF assms(2)] by force
  have "g \<in> set (grant_ceiling classes declared)"
    unfolding grant_ceiling_mem [OF assms(2)] using g p gs(1) by blast
  moreover have "covers g r"
    using perms.cov_trans [OF conjunct1 [OF inv_resolve_grantable [OF assms(1) r]] g(2) gs(2)] .
  ultimately show "\<exists>r g. resolve_perm reg n = Inr r \<and> g \<in> set (grant_ceiling classes declared) \<and> covers g r"
    using r by blast
qed

lemma granted_entitled:
  assumes "resolve_tool_surface reg d tr granted defaults = (Inr s, evs)"
  shows "\<forall>t \<in> set (ir_granted s). entitled reg d granted t"
proof -
  obtain eff where e: "effective_names d granted = Inr eff"
    and l: "surface_loop reg d eff (find_spec tr defaults) (ad_tools d) \<lparr>ir_granted = [], ir_denied = []\<rparr> [] = (Inr s, evs)"
    using assms by (auto simp: resolve_tool_surface_def split: sum.splits)
  from surface_loop_ok [OF l e] show ?thesis by auto
qed

lemma command_granted_entitled:
  assumes "resolve_command_tool_surface reg mk d granted = (Inr s, evs)"
  shows "\<forall>t \<in> set (ir_granted s). entitled reg d granted t"
proof -
  obtain eff specs where e: "effective_names d granted = Inr eff"
    and l: "command_loop reg d eff specs \<lparr>ir_granted = [], ir_denied = []\<rparr> [] = (Inr s, evs)"
    using assms by (auto simp: resolve_command_tool_surface_def split: sum.splits)
  from command_loop_ok [OF l e] show ?thesis by simp
qed

lemma assemble_bounded:
  assumes "assemble a reg d granted client dl = (Inr rt, evs)" and "reg_inv reg"
  shows "(\<forall>t \<in> set (rt_tools rt). within_ceiling reg (rt_ceiling rt) t \<and> (ad_untrusted_input d \<longrightarrow> ts_tier t \<noteq> T3))
    \<and> (\<forall>g \<in> set (rt_ceiling rt). \<exists>x \<in> set granted. resolve_grant reg x = Inr g
        \<and> (ad_untrusted_input d \<longrightarrow> class_tier g \<noteq> Some T3)
        \<and> (\<exists>n c. PStr n \<in> set (ad_permissions d) \<and> resolve_perm reg n = Inr c \<and> covers g c))
    \<and> rt_definition rt = d"
proof -
  obtain classes declared s cs evs1 evs2 where f: "mapR (resolve_grant reg) granted = Inr classes"
    "check_grant_R4 reg (ad_untrusted_input d) (remdups classes) = Inr ()"
    "declared_classes reg (ad_permissions d) = Inr declared"
    "resolve_tool_surface reg d (ba_tools a) (covered_names classes declared)
         (if ba_builtin_defaults a then ba_defaults a d else []) = (Inr s, evs1)"
    "resolve_command_tool_surface reg (ba_make a) d (covered_names classes declared) = (Inr cs, evs2)"
    "rt_tools rt = ir_granted s @ ir_granted cs" "rt_ceiling rt = grant_ceiling classes declared"
    "rt_definition rt = d"
    using assemble_fields [OF assms(1)] by blast
  have "\<forall>t \<in> set (rt_tools rt). entitled reg d (covered_names classes declared) t"
    using granted_entitled [OF f(4)] command_granted_entitled [OF f(5)] f(6) by auto
  then have "\<forall>t \<in> set (rt_tools rt). within_ceiling reg (rt_ceiling rt) t \<and> (ad_untrusted_input d \<longrightarrow> ts_tier t \<noteq> T3)"
    using entitled_within_ceiling [OF assms(2) f(3)] f(7) by (metis entitled_def)
  moreover have "\<exists>x \<in> set granted. resolve_grant reg x = Inr g
        \<and> (ad_untrusted_input d \<longrightarrow> class_tier g \<noteq> Some T3)
        \<and> (\<exists>n c. PStr n \<in> set (ad_permissions d) \<and> resolve_perm reg n = Inr c \<and> covers g c)"
    if "g \<in> set (rt_ceiling rt)" for g
  proof -
    have "g \<in> set classes" and p: "\<exists>n c. PStr n \<in> set (ad_permissions d) \<and> resolve_perm reg n = Inr c \<and> covers g c"
      using that unfolding f(7) grant_ceiling_mem [OF f(3)] by auto
    then have "\<exists>x \<in> set granted. resolve_grant reg x = Inr g" and "ad_untrusted_input d \<longrightarrow> class_tier g \<noteq> Some T3"
      using mapR_member [OF f(1)] f(2) by (auto simp: check_grant_R4_def success split: if_splits)
    then show ?thesis using p by blast
  qed
  ultimately show ?thesis using f(8) by blast
qed

lemma build_assembles:
  assumes "build_runtime a locator granted client given limits reg = (Inr rt, reg', evs)"
  shows "\<exists>d dl. assemble a reg' d granted client dl = (Inr rt, evs)
    \<and> validate_execution_limits limits OUTBOX_LEASE_S = Inr dl
    \<and> (given = Some d \<and> reg' = reg \<or> given = None \<and> resolve (ba_env a) locator client (PDict dl) reg = (Inr d, reg'))"
  using assms by (auto simp: build_runtime_def split: sum.splits prod.splits option.splits)

subsection \<open>The prompt\<close>

lemma lstrip_append: "lstrip (x @ y) = (if \<forall>c \<in> set x. is_space c then lstrip y else lstrip x @ y)"
  by (auto simp: lstrip_def dropWhile_append)

lemma rstrip_append: "rstrip (x @ y) = (if \<forall>c \<in> set y. is_space c then rstrip x else x @ rstrip y)"
  by (auto simp: rstrip_def dropWhile_append)

lemma strip_keeps_suffix:
  assumes "c \<noteq> []" and "\<not> is_space (hd c)"
  shows "ends_with (strip (x @ c)) (strip c)"
proof -
  have l: "lstrip c = c" using assms by (cases c) (simp_all add: lstrip_def)
  have nb: "\<not> (\<forall>d \<in> set c. is_space d)" using assms by (cases c) auto
  have "\<exists>z. lstrip (x @ c) = z @ c"
    unfolding lstrip_append l by (metis append_Nil)
  then obtain z where "lstrip (x @ c) = z @ c" by blast
  then have "strip (x @ c) = z @ strip c" using nb by (simp only: strip_def rstrip_append l if_False append_assoc)
  then show ?thesis by simp
qed

lemma contract_head: "BASE_PROMPT_CONTRACT \<noteq> [] \<and> \<not> is_space (hd BASE_PROMPT_CONTRACT)"
  by (simp add: BASE_PROMPT_CONTRACT_def is_space_def)

lemma join_last: "xs \<noteq> [] \<Longrightarrow> ends_with (join sep xs) (last xs)"
proof (induction sep xs rule: join.induct)
  case (2 sep x)
  then show ?case by (simp add: ends_with_def)
next
  case (3 sep x y ys)
  then have "ends_with (join sep (y # ys)) (last (y # ys))" by simp
  then obtain z where "join sep (y # ys) = z @ last (y # ys)"
    by (metis append_take_drop_id ends_with_def)
  then have "join sep (x # y # ys) = (x @ sep @ z) @ last (x # y # ys)" by simp
  then show ?case by (metis ends_with_append)
qed simp

lemma compose_prompt_contract:
  assumes "compose_prompt dash d sk = Inr t" and "ad_system_prompt d = append_base_contract p"
  shows "ends_with t (strip BASE_PROMPT_CONTRACT)"
proof -
  obtain block where b: "(if sk = [] \<and> block = [] then Inr (strip (ad_system_prompt d))
       else Inr (join PROMPT_SEPARATOR (filter (\<lambda>p. p \<noteq> [])
              ([strip (strip_base_contract (ad_system_prompt d))] @ map snd sk
               @ (if block \<noteq> [] then [block] else []) @ [strip BASE_PROMPT_CONTRACT])))) = (Inr t :: string res)"
    using assms(1) unfolding compose_prompt_def bindR_eq_Inr by blast
  show ?thesis
  proof (cases "sk = [] \<and> block = []")
    case True
    then have "t = strip (append_base_contract p)" using b assms(2) by simp
    then show ?thesis
      using strip_keeps_suffix [of BASE_PROMPT_CONTRACT "[]"] contract_head
        strip_keeps_suffix [of BASE_PROMPT_CONTRACT "p @ PROMPT_SEPARATOR"]
      by (simp add: append_base_contract_eq)
  next
    case False
    let ?xs = "filter (\<lambda>p. p \<noteq> []) ([strip (strip_base_contract (ad_system_prompt d))] @ map snd sk
               @ (if block \<noteq> [] then [block] else []) @ [strip BASE_PROMPT_CONTRACT])"
    have "t = join PROMPT_SEPARATOR ?xs"
      using b unfolding if_not_P [OF False] by (simp only: sum.inject)
    moreover have "?xs \<noteq> [] \<and> last ?xs = strip BASE_PROMPT_CONTRACT"
      using contract_not_blank by simp
    ultimately show ?thesis using join_last [of ?xs PROMPT_SEPARATOR] by simp
  qed
qed

lemma words_acc_nonspace:
  "w \<in> set (words_acc v s) \<Longrightarrow> \<forall>c \<in> set v. \<not> is_space c \<Longrightarrow> \<forall>c \<in> set w. \<not> is_space c"
proof (induction s arbitrary: v w)
  case (Cons c cs)
  note IH0 = Cons.IH [of w "[]"] and IH1 = Cons.IH [of w "c # v"]
  consider "is_space c" "w = rev v" | "is_space c" "w \<in> set (words_acc [] cs)" | "\<not> is_space c"
    using Cons.prems(1) by (auto split: if_splits)
  then show ?case
  proof cases
    case 1
    then show ?thesis using Cons.prems(2) by simp
  next
    case 2
    then show ?thesis using IH0 by simp
  next
    case 3
    then show ?thesis using IH1 Cons.prems by simp
  qed
qed (simp split: if_splits)

lemma join_chars: "c \<in> set (join sep xs) \<Longrightarrow> c \<in> set sep \<or> (\<exists>x \<in> set xs. c \<in> set x)"
  by (induction sep xs rule: join.induct) auto

lemma space_nl: "is_space nl" by (simp add: is_space_def)

lemma collapse_no_newline: "nl \<notin> set (collapse_ws s)"
proof
  assume "nl \<in> set (collapse_ws s)"
  then have "nl \<in> set '' '' \<or> (\<exists>w \<in> set (words_acc [] s). nl \<in> set w)"
    unfolding collapse_ws_def split_ws_def by (rule join_chars)
  then obtain w where w: "w \<in> set (words_acc [] s)" "nl \<in> set w" by auto
  have "\<forall>c \<in> set ([] :: string). \<not> is_space c" by simp
  from words_acc_nonspace [OF w(1) this] show False using w(2) space_nl by blast
qed

lemma bullet_single_line: "nl \<notin> set dash \<Longrightarrow> nl \<notin> set c \<Longrightarrow> nl \<notin> set (bullet dash ds c)"
  unfolding bullet_def Let_def using collapse_no_newline by (cases "py_truthy (dget ds c)") auto

lemma normalized_name:
  "normalize_condition_name raw = Inr n \<longleftrightarrow> n = collapse_ws raw \<and> nl \<notin> set raw \<and> CHR 0x0D \<notin> set raw"
  by (auto simp: normalize_condition_name_def)

lemma escalation_lines_single:
  assumes "nl \<notin> set dash" and "nl \<notin> set target" and "\<forall>c \<in> set conditions. nl \<notin> set c"
  shows "\<forall>l \<in> set (escalation_lines dash target conditions ds). nl \<notin> set l"
proof -
  have "nl \<notin> set (''Escalate to: '' @ target)" "nl \<notin> set (escalation_intro dash)" "nl \<notin> set ESCALATION_HEADING"
    using assms(1,2) by (simp_all add: escalation_intro_def ESCALATION_HEADING_def)
  then show ?thesis
    using assms(3) bullet_single_line [OF assms(1)] unfolding escalation_lines_def by auto
qed

subsection \<open>Properties\<close>

text \<open>
  C2 Layer 1 stays inside the deployment's grants: in a built runtime every permission a tool
  requires is covered by a class of the persisted ceiling, every class of the ceiling was granted
  by the deployment and covers a permission the agent declares, and an agent that reads untrusted
  input has neither a T3 tool nor a T3 class in its ceiling.
\<close>

theorem runtime_within_grants:
  assumes "build_runtime a locator granted client given limits reg = (Inr rt, reg', evs)" and "reg_inv reg'"
  shows "(\<forall>t \<in> set (rt_tools rt). within_ceiling reg' (rt_ceiling rt) t)
    \<and> (\<forall>g \<in> set (rt_ceiling rt). (\<exists>x \<in> set granted. resolve_grant reg' x = Inr g)
        \<and> (\<exists>n c. PStr n \<in> set (ad_permissions (rt_definition rt)) \<and> resolve_perm reg' n = Inr c \<and> covers g c))
    \<and> (ad_untrusted_input (rt_definition rt) \<longrightarrow>
         (\<forall>t \<in> set (rt_tools rt). ts_tier t \<noteq> T3) \<and> (\<forall>g \<in> set (rt_ceiling rt). class_tier g \<noteq> Some T3))"
proof -
  obtain d dl where "assemble a reg' d granted client dl = (Inr rt, evs)"
    using build_assembles [OF assms(1)] by blast
  from assemble_bounded [OF this assms(2)] show ?thesis by blast
qed

text \<open>A library caller: one role, a tool that needs a catalog permission, the family \<open>Read\<close> granted.\<close>

definition catalog_tool :: "unit tool_spec" where
  "catalog_tool = demo_spec\<lparr>ts_name := ''shop'', required_permissions := [''read:catalog'']\<rparr>"

definition demo_args :: "unit build_args" where
  "demo_args = \<lparr>ba_env = deploy_env PNone, ba_deployments_root = [''deployments''], ba_dash = ''--'',
     ba_tools = [(''clock'', demo_spec), (''shop'', catalog_tool)], ba_make = (\<lambda>_. ()),
     ba_defaults = (\<lambda>_. []), ba_is_default = (\<lambda>_. False), ba_builtin_defaults = False\<rparr>"

lemma demo_build:
  "(case build_runtime demo_args (RoleName ''sales'') [GrantClass ReadPerm] None None PNone small_registry of
     (Inr rt, reg', evs) \<Rightarrow> map ts_name (rt_tools rt) = [''clock'', ''shop''] \<and> rt_ceiling rt = [ReadPerm]
        \<and> ad_untrusted_input (rt_definition rt) \<and> reg' = small_registry
   | _ \<Rightarrow> False)"
  by code_simp

lemma demo_runtime:
  "\<exists>rt evs. build_runtime demo_args (RoleName ''sales'') [GrantClass ReadPerm] None None PNone small_registry
      = (Inr rt, small_registry, evs)
    \<and> map ts_name (rt_tools rt) = [''clock'', ''shop''] \<and> rt_ceiling rt = [ReadPerm]
    \<and> ad_untrusted_input (rt_definition rt)"
  using demo_build by (auto split: prod.splits sum.splits)

theorem runtime_within_grants_witness:
  "\<exists>rt evs. build_runtime demo_args (RoleName ''sales'') [GrantClass ReadPerm] None None PNone small_registry
      = (Inr rt, small_registry, evs)
    \<and> map ts_name (rt_tools rt) = [''clock'', ''shop'']
    \<and> list_all (within_ceiling small_registry [ReadPerm]) (rt_tools rt)
    \<and> list_all (\<lambda>t. ts_tier t \<noteq> T3) (rt_tools rt)"
proof -
  obtain rt evs where b: "build_runtime demo_args (RoleName ''sales'') [GrantClass ReadPerm] None None PNone
      small_registry = (Inr rt, small_registry, evs)"
    and t: "map ts_name (rt_tools rt) = [''clock'', ''shop'']" and c: "rt_ceiling rt = [ReadPerm]"
    and u: "ad_untrusted_input (rt_definition rt)"
    using demo_runtime by (elim exE conjE) (rule that)
  show ?thesis using runtime_within_grants [OF b small_registry_inv] b t c u by (auto simp: list_all_iff)
qed

text \<open>
  The prompt the model receives ends with the base contract, whatever skills and escalation
  rules an agent resolved by \<open>build_runtime\<close> has; its skills are the declared ones, in order.
\<close>

theorem runtime_prompt_ends_with_contract:
  assumes "build_runtime a locator granted client None limits reg = (Inr rt, reg', evs)"
  shows "ends_with (rt_system_prompt rt) (strip BASE_PROMPT_CONTRACT)
    \<and> map fst (rt_skills rt) = ad_skills (rt_definition rt)"
proof -
  obtain d dl where s: "assemble a reg' d granted client dl = (Inr rt, evs)"
    and r: "resolve (ba_env a) locator client (PDict dl) reg = (Inr d, reg')"
    using build_assembles [OF assms] by auto
  have c: "compose_prompt (ba_dash a) d (rt_skills rt) = Inr (rt_system_prompt rt)"
    and k: "map fst (rt_skills rt) = ad_skills d" "rt_definition rt = d"
    using assemble_fields [OF s] by auto
  obtain p where "ad_system_prompt d = append_base_contract p"
    using resolve_cases [OF r] unmerged_fields by fastforce
  then show ?thesis using compose_prompt_contract [OF c] k by blast
qed

theorem runtime_prompt_ends_with_contract_witness:
  "\<exists>rt evs. build_runtime demo_args (RoleName ''sales'') [GrantClass ReadPerm] None None PNone small_registry
      = (Inr rt, small_registry, evs) \<and> ends_with (rt_system_prompt rt) (strip BASE_PROMPT_CONTRACT)"
  using demo_runtime runtime_prompt_ends_with_contract by blast

text \<open>
  The escalation block cannot be broken up by its conditions or descriptions: when the target is
  one line, the rendered block has exactly its heading, its fixed lines and one line for each
  non-blank condition.  A condition with a line break is refused.
\<close>

theorem escalation_block_lines:
  assumes "render_escalation_block dash rules = Inr t" and "t \<noteq> []"
    and "nl \<notin> set dash" and "nl \<notin> set (escalate_to rules)"
  shows "\<exists>ds. lines_of t = escalation_lines dash (escalate_to rules)
       (filter (\<lambda>c. c \<noteq> []) (map collapse_ws (as_str_list (dget rules ''conditions'')))) ds
     \<and> (\<forall>c \<in> set (as_str_list (dget rules ''conditions'')). nl \<notin> set c)"
proof -
  obtain names ds where n: "mapR normalize_condition_name (as_str_list (dget rules ''conditions'')) = Inr names"
    and t: "t = unlines (escalation_lines dash (escalate_to rules) (filter (\<lambda>c. c \<noteq> []) names) ds)"
    using assms(1,2) by (auto simp: render_escalation_block_def bindR_eq_Inr split: if_splits)
  have all: "\<forall>c \<in> set cs. nl \<notin> set c" and nm: "ns = map collapse_ws cs"
    if "mapR normalize_condition_name cs = Inr ns" for cs ns
    using that by (induction cs arbitrary: ns) (auto simp: bindR_eq_Inr normalized_name)
  let ?ls = "escalation_lines dash (escalate_to rules) (filter (\<lambda>c. c \<noteq> []) names) ds"
  have "\<forall>c \<in> set (filter (\<lambda>c. c \<noteq> []) names). nl \<notin> set c"
    using nm [OF n] collapse_no_newline by auto
  then have "\<forall>l \<in> set ?ls. nl \<notin> set l"
    using escalation_lines_single [OF assms(3,4)] by blast
  moreover have "?ls \<noteq> []" by (simp add: escalation_lines_def)
  ultimately have "lines_of t = ?ls"
    unfolding t lines_of_def unlines_def by (rule split_on_join [rotated])
  then show ?thesis using nm [OF n] all [OF n] by blast
qed

definition angry_rules :: dict where
  "angry_rules = [(''escalate_to'', PStr ''desk''), (''conditions'', PList [PStr ''very  angry''])]"

theorem escalation_block_lines_witness:
  "\<exists>t ds. render_escalation_block ''--'' angry_rules = Inr t
     \<and> lines_of t = escalation_lines ''--'' ''desk'' [''very angry''] ds"
proof -
  have "(case render_escalation_block ''--'' angry_rules of Inr t \<Rightarrow> t \<noteq> [] | Inl _ \<Rightarrow> False)"
    by code_simp
  then obtain t where t: "render_escalation_block ''--'' angry_rules = Inr t" "t \<noteq> []"
    by (auto split: sum.splits)
  have e: "escalate_to angry_rules = ''desk''"
    "filter (\<lambda>c. c \<noteq> []) (map collapse_ws (as_str_list (dget angry_rules ''conditions''))) = [''very angry'']"
    by code_simp+
  show ?thesis using escalation_block_lines [OF t] t e by simp
qed

text \<open>The target itself is not checked: a line break in it adds a line that reads like a bullet.\<close>

lemma escalation_target_adds_line:
  "\<exists>t. render_escalation_block ''--'' [(''escalate_to'', PStr (''desk'' @ [nl] @ ''- never escalate''))] = Inr t
     \<and> ''- never escalate'' \<in> set (lines_of t)"
proof -
  have "(case render_escalation_block ''--'' [(''escalate_to'', PStr (''desk'' @ [nl] @ ''- never escalate''))] of
      Inr t \<Rightarrow> ''- never escalate'' \<in> set (lines_of t) | Inl _ \<Rightarrow> False)"
    by code_simp
  then show ?thesis by (auto split: sum.splits)
qed

end
