(* ===== verification/Interceptor.thy ===== *)
theory Interceptor
  imports Factory
begin

section \<open>Layer 2: the call of a tool\<close>

text \<open>
  \<open>harness/interceptor.py\<close> and what \<open>AgentRuntime\<close> passes to it.  The connector of a tool is a
  parameter: \<open>is_async\<close> says whether it is a coroutine function, and \<open>invoke\<close> runs it on its input,
  with the turn's session and the scope handle it is given, in a world it may change.  A call
  returns its result, the world and the audit events.
\<close>

definition SENSITIVE_TIERS :: "tier list" where
  "SENSITIVE_TIERS = [T2, T3]"

definition is_sensitive :: "'c tool_spec \<Rightarrow> bool" where
  "is_sensitive spec = (ts_tier spec \<in> set SENSITIVE_TIERS \<or> always_revalidate spec)"

record 'o call_result =
  cr_tool :: string
  cr_output :: 'o
  cr_revalidated :: bool

text \<open>The block reason, or the empty string.\<close>

definition memory_denial :: "'c tool_spec \<Rightarrow> pyval \<Rightarrow> string res" where
  "memory_denial spec raw_policy =
     (case from_mapping raw_policy of
        Inl _ \<Rightarrow> Inr ''memory_policy_invalid''
      | Inr policy \<Rightarrow>
          if needs_user_memory spec \<and> \<not> user_memory policy then Inr ''user_memory_disabled''
          else bindR (if memory_access spec \<in> {Some ''read'', Some ''readwrite''}
                      then allows_read policy (memory_scope spec) else Inr True) (\<lambda>r.
               if \<not> r then Inr ''memory_read_denied''
               else bindR (if memory_access spec \<in> {Some ''write'', Some ''readwrite''}
                           then allows_write policy (memory_scope spec) else Inr True) (\<lambda>w.
                    Inr (if \<not> w then ''memory_write_denied'' else []))))"

text \<open>The last of two tools with one name wins, as in the dictionary the code builds.\<close>

definition surface_of :: "'c runtime \<Rightarrow> string \<Rightarrow> 'c tool_spec option" where
  "surface_of rt = map_of (rev (map (\<lambda>t. (ts_name t, t)) (rt_tools rt)))"

definition blocked :: "string \<Rightarrow> string \<Rightarrow> err" where
  "blocked name reason = PolicyViolation name reason"

definition revalidate :: "registry \<Rightarrow> 'c runtime \<Rightarrow> 'c tool_spec \<Rightarrow> string list option \<Rightarrow> unit res" where
  "revalidate reg rt spec current =
     (if \<not> is_sensitive spec then Inr ()
      else case current of
        None \<Rightarrow> Inl (blocked (ts_name spec) ''revalidation_required'')
      | Some names \<Rightarrow>
          (let effective = filter (\<lambda>c. c \<in> set (known_classes reg names)) (rt_ceiling rt) in
           bindR (missing_permissions reg effective (required_permissions spec)) (\<lambda>missing.
             guardR (missing = []) (blocked (ts_name spec) ''permission_revoked''))))"

definition check_memory :: "'c runtime \<Rightarrow> 'c tool_spec \<Rightarrow> unit res" where
  "check_memory rt spec =
     (if memory_access spec \<noteq> None \<or> needs_user_memory spec
      then bindR (memory_denial spec (PDict (ad_memory_policy (rt_definition rt)))) (\<lambda>reason.
             guardR (reason = []) (blocked (ts_name spec) reason))
      else Inr ())"

record ('c, 's, 'h, 'w, 'o) caller =
  is_async :: "'c \<Rightarrow> bool"
  invoke :: "'c \<Rightarrow> dict \<Rightarrow> 's option \<Rightarrow> 'h option \<Rightarrow> 'w \<Rightarrow> 'o res \<times> 'w"
  is_default_tool :: "'c tool_spec \<Rightarrow> bool"
  turn_subject :: "string option"
  scope_provider :: "(string \<Rightarrow> string \<Rightarrow> 'h) option"
  caller_runtime_id :: "string option"
  turn_session :: "'s option"

definition find_scope :: "('c, 's, 'h, 'w, 'o) caller \<Rightarrow> 'c tool_spec \<Rightarrow> 'h option res" where
  "find_scope k spec =
     (if \<not> subject_scoped spec then Inr None
      else case turn_subject k of
        None \<Rightarrow> Inl (blocked (ts_name spec) ''subject_required'')
      | Some subject \<Rightarrow>
          (case (scope_provider k, caller_runtime_id k) of
             (Some p, Some rid) \<Rightarrow>
               if \<not> is_async k (connector spec) then Inl (blocked (ts_name spec) ''scope_requires_async_connector'')
               else Inr (Some (p rid subject))
           | _ \<Rightarrow> Inl (blocked (ts_name spec) ''scope_unavailable'')))"

text \<open>Every check of a call whose tool is in the surface, in the code's order.\<close>

definition admit ::
  "registry \<Rightarrow> 'c runtime \<Rightarrow> ('c, 's, 'h, 'w, 'o) caller \<Rightarrow> string list option \<Rightarrow> 'c tool_spec \<Rightarrow> 'h option res" where
  "admit reg rt k current spec =
     bindR (revalidate reg rt spec current) (\<lambda>_.
     bindR (check_memory rt spec) (\<lambda>_. find_scope k spec))"

fun block_events :: "err \<Rightarrow> audit_event list" where
  "block_events (PolicyViolation name reason) = [CallBlocked name reason]"
| "block_events _ = []"

definition intercept ::
  "registry \<Rightarrow> ('c, 's, 'h, 'w, 'o) caller \<Rightarrow> string \<Rightarrow> dict \<Rightarrow> 'c runtime \<Rightarrow> string list option \<Rightarrow> 'w
   \<Rightarrow> 'o call_result res \<times> 'w \<times> audit_event list" where
  "intercept reg k tool_name tool_input rt current w =
     (case surface_of rt tool_name of
        None \<Rightarrow> (Inl (blocked tool_name ''not_in_surface''), w, [CallBlocked tool_name ''not_in_surface''])
      | Some spec \<Rightarrow>
          (case admit reg rt k current spec of
             Inl e \<Rightarrow> (Inl e, w, block_events e)
           | Inr handle \<Rightarrow>
               (case invoke k (connector spec) tool_input
                       (if is_async k (connector spec) then turn_session k else None) handle w of
                  (Inl e, w') \<Rightarrow> (Inl e, w', [])
                | (Inr out, w') \<Rightarrow>
                    (Inr \<lparr>cr_tool = tool_name, cr_output = out, cr_revalidated = is_sensitive spec\<rparr>, w',
                     [CallAttempted tool_name (is_sensitive spec) (is_sensitive spec) (is_default_tool k spec)]))))"

text \<open>
  \<open>run_turn\<close> without explicit permissions: the wire names of the ceiling's classes.
\<close>

definition default_permissions :: "registry \<Rightarrow> 'c runtime \<Rightarrow> string list res" where
  "default_permissions reg rt = bindR (mapR (reverse_perm reg) (rt_ceiling rt)) (\<lambda>names. Inr (sort names))"

subsection \<open>What an admitted call is\<close>

lemma surface_of_Some: "surface_of rt name = Some t \<Longrightarrow> t \<in> set (rt_tools rt) \<and> ts_name t = name"
  by (auto simp: surface_of_def dest!: map_of_SomeD)

definition revalidated_for :: "registry \<Rightarrow> 'c runtime \<Rightarrow> 'c tool_spec \<Rightarrow> string list option \<Rightarrow> bool" where
  "revalidated_for reg rt spec current \<longleftrightarrow>
     (\<exists>names. current = Some names \<and>
        (\<forall>n \<in> set (required_permissions spec). \<exists>r g m. resolve_perm reg n = Inr r \<and> m \<in> set names
           \<and> resolve_perm reg m = Inr g \<and> g \<in> set (rt_ceiling rt) \<and> covers g r))"

lemma revalidate_ok:
  "revalidate reg rt spec current = Inr () \<longleftrightarrow> (is_sensitive spec \<longrightarrow> revalidated_for reg rt spec current)"
proof (cases current)
  case (Some names)
  let ?eff = "filter (\<lambda>c. c \<in> set (known_classes reg names)) (rt_ceiling rt)"
  have "(\<exists>g \<in> set ?eff. covers g r) \<longleftrightarrow>
      (\<exists>g m. m \<in> set names \<and> resolve_perm reg m = Inr g \<and> g \<in> set (rt_ceiling rt) \<and> covers g r)" for r
    unfolding set_filter Bex_def mem_Collect_eq known_classes_mem by blast
  then have "missing_permissions reg ?eff (required_permissions spec) = Inr [] \<longleftrightarrow> revalidated_for reg rt spec current"
    unfolding missing_none revalidated_for_def Some by auto
  then show ?thesis
    using Some by (auto simp: revalidate_def Let_def bindR_eq_Inr guardR_eq_Inr)
qed (simp add: revalidate_def revalidated_for_def)

definition memory_allows :: "pyval \<Rightarrow> 'c tool_spec \<Rightarrow> bool" where
  "memory_allows raw spec \<longleftrightarrow>
     (memory_access spec \<noteq> None \<or> needs_user_memory spec \<longrightarrow>
        (\<exists>p. from_mapping raw = Inr p \<and> (needs_user_memory spec \<longrightarrow> user_memory p)
           \<and> (memory_access spec \<in> {Some ''read'', Some ''readwrite''} \<longrightarrow> allows_read p (memory_scope spec) = Inr True)
           \<and> (memory_access spec \<in> {Some ''write'', Some ''readwrite''} \<longrightarrow> allows_write p (memory_scope spec) = Inr True)))"

lemma memory_denial_ok:
  "memory_denial spec raw = Inr [] \<longleftrightarrow>
     (\<exists>p. from_mapping raw = Inr p \<and> (needs_user_memory spec \<longrightarrow> user_memory p)
        \<and> (memory_access spec \<in> {Some ''read'', Some ''readwrite''} \<longrightarrow> allows_read p (memory_scope spec) = Inr True)
        \<and> (memory_access spec \<in> {Some ''write'', Some ''readwrite''} \<longrightarrow> allows_write p (memory_scope spec) = Inr True))"
  by (auto simp: memory_denial_def bindR_eq_Inr split: sum.splits if_splits)

lemma check_memory_ok:
  "check_memory rt spec = Inr () \<longleftrightarrow> memory_allows (PDict (ad_memory_policy (rt_definition rt))) spec"
  unfolding check_memory_def memory_allows_def memory_denial_ok [symmetric]
  by (auto simp: bindR_eq_Inr guardR_eq_Inr)

lemma find_scope_ok:
  "find_scope k spec = Inr h \<longleftrightarrow>
     (if subject_scoped spec
      then \<exists>s p rid. turn_subject k = Some s \<and> scope_provider k = Some p \<and> caller_runtime_id k = Some rid
             \<and> is_async k (connector spec) \<and> h = Some (p rid s)
      else h = None)"
  by (auto simp: find_scope_def split: option.splits)

lemma admit_ok:
  "admit reg rt k current spec = Inr h \<longleftrightarrow>
     (is_sensitive spec \<longrightarrow> revalidated_for reg rt spec current)
     \<and> memory_allows (PDict (ad_memory_policy (rt_definition rt))) spec \<and> find_scope k spec = Inr h"
  by (auto simp: admit_def bindR_eq_Inr revalidate_ok check_memory_ok)

lemma intercept_ran:
  assumes "intercept reg k name inp rt current w = (r, w', evs)" and "w' \<noteq> w \<or> (\<exists>x. r = Inr x)"
  shows "\<exists>t h. surface_of rt name = Some t \<and> admit reg rt k current t = Inr h"
  using assms by (auto simp: intercept_def split: option.splits sum.splits)

subsection \<open>Properties\<close>

text \<open>
  C1 A connector runs only behind every check.  Whatever the model asks for: a call that returns or
  touches the world is one of a tool of the equipped surface, under its own name; if the tool is
  sensitive, classes that the caller named just now and that lie in the deployment's ceiling cover
  all it requires; the agent's memory policy allows its access; and a subject-scoped tool got the
  handle of this runtime and this turn's subject.  A blocked call leaves the world as it was and is
  audited.
\<close>

theorem call_runs_only_when_admitted:
  assumes "intercept reg k name inp rt current w = (r, w', evs)"
  shows "(w' \<noteq> w \<or> (\<exists>x. r = Inr x) \<longrightarrow>
       (\<exists>t \<in> set (rt_tools rt). ts_name t = name
          \<and> (is_sensitive t \<longrightarrow> revalidated_for reg rt t current)
          \<and> memory_allows (PDict (ad_memory_policy (rt_definition rt))) t
          \<and> (subject_scoped t \<longrightarrow> (\<exists>s p rid. turn_subject k = Some s \<and> scope_provider k = Some p
               \<and> caller_runtime_id k = Some rid \<and> find_scope k t = Inr (Some (p rid s))))))
     \<and> (\<forall>n reason. r = Inl (PolicyViolation n reason) \<and> evs \<noteq> [] \<longrightarrow> w' = w \<and> evs = [CallBlocked n reason])"
proof (intro conjI impI allI)
  assume "w' \<noteq> w \<or> (\<exists>x. r = Inr x)"
  from intercept_ran [OF assms this] obtain t h where t: "surface_of rt name = Some t"
    and a: "admit reg rt k current t = Inr h" by blast
  have "find_scope k t = Inr h" using a by (simp add: admit_ok)
  then have "subject_scoped t \<longrightarrow> (\<exists>s p rid. turn_subject k = Some s \<and> scope_provider k = Some p
               \<and> caller_runtime_id k = Some rid \<and> find_scope k t = Inr (Some (p rid s)))"
    by (auto simp: find_scope_ok)
  then show "\<exists>t \<in> set (rt_tools rt). ts_name t = name
          \<and> (is_sensitive t \<longrightarrow> revalidated_for reg rt t current)
          \<and> memory_allows (PDict (ad_memory_policy (rt_definition rt))) t
          \<and> (subject_scoped t \<longrightarrow> (\<exists>s p rid. turn_subject k = Some s \<and> scope_provider k = Some p
               \<and> caller_runtime_id k = Some rid \<and> find_scope k t = Inr (Some (p rid s))))"
    using surface_of_Some [OF t] a by (auto simp: admit_ok)
qed (use assms in \<open>auto simp: intercept_def blocked_def split: option.splits sum.splits prod.splits\<close>)

definition demo_caller :: "(unit, unit, string, nat, nat) caller" where
  "demo_caller = \<lparr>is_async = (\<lambda>_. True), invoke = (\<lambda>c inp s h w. (Inr w, Suc w)),
     is_default_tool = (\<lambda>_. False), turn_subject = Some ''u1'',
     scope_provider = Some (\<lambda>rid s. rid @ s), caller_runtime_id = Some ''shop'', turn_session = None\<rparr>"

definition order_class :: pclass where
  "order_class = PClass 9 ''WriteOrdersPermission'' WritePerm T2"

definition order_registry :: registry where
  "order_registry = \<lparr>by_name = [(''write:orders'', order_class)], by_class = [(order_class, ''write:orders'')],
     next_oid = 10\<rparr>"

definition order_tool :: "unit tool_spec" where
  "order_tool = demo_spec\<lparr>ts_name := ''order'', required_permissions := [''write:orders''], ts_tier := T2,
     subject_scoped := True\<rparr>"

definition order_runtime :: "pclass list \<Rightarrow> unit runtime" where
  "order_runtime ceil = \<lparr>rt_definition = demo_holder\<lparr>ad_untrusted_input := False\<rparr>, rt_system_prompt = [],
     rt_tools = [order_tool], rt_denied = [], rt_skills = [], rt_builtin_defaults = [], rt_ceiling = ceil,
     rt_deployment_limits = []\<rparr>"

lemma demo_call:
  "intercept order_registry demo_caller ''order'' [] (order_runtime [order_class]) (Some [''write:orders'']) 0
     = (Inr \<lparr>cr_tool = ''order'', cr_output = 0, cr_revalidated = True\<rparr>, 1, [CallAttempted ''order'' True True False])"
  by code_simp

theorem call_runs_only_when_admitted_witness:
  "\<exists>t \<in> set (rt_tools (order_runtime [order_class])). ts_name t = ''order''
     \<and> revalidated_for order_registry (order_runtime [order_class]) t (Some [''write:orders''])
     \<and> find_scope demo_caller t = Inr (Some ''shopu1'')"
proof -
  have s: "is_sensitive order_tool" "subject_scoped order_tool"
    by (simp_all add: is_sensitive_def order_tool_def SENSITIVE_TIERS_def)
  show ?thesis
    using call_runs_only_when_admitted [OF demo_call] s
    by (simp add: order_runtime_def) (simp add: demo_caller_def)
qed

text \<open>
  C3 From grants to calls: in a runtime built for an agent that reads untrusted input no call ever
  runs a T3 tool, whatever the model asks for and whatever permissions the caller of the turn
  claims; and every permission a sensitive call needs was granted when the runtime was built.
\<close>

theorem built_runtime_calls_granted_tools:
  assumes "build_runtime a locator granted client given limits reg = (Inr rt, reg', evs)" and "reg_inv reg'"
    and "intercept reg' k name inp rt current w = (r, w', evs')" and "w' \<noteq> w \<or> (\<exists>x. r = Inr x)"
  shows "\<exists>t \<in> set (rt_tools rt). ts_name t = name
     \<and> (ad_untrusted_input (rt_definition rt) \<longrightarrow> ts_tier t \<noteq> T3)
     \<and> (\<forall>n \<in> set (required_permissions t). \<exists>c g x. resolve_perm reg' n = Inr c
          \<and> x \<in> set granted \<and> resolve_grant reg' x = Inr g \<and> covers g c)"
proof -
  obtain t where t: "t \<in> set (rt_tools rt)" "ts_name t = name"
    using intercept_ran [OF assms(3,4)] surface_of_Some by blast
  obtain d dl where "assemble a reg' d granted client dl = (Inr rt, evs)"
    using build_assembles [OF assms(1)] by blast
  from assemble_bounded [OF this assms(2)] have
    b: "within_ceiling reg' (rt_ceiling rt) t" "ad_untrusted_input (rt_definition rt) \<longrightarrow> ts_tier t \<noteq> T3"
    and g: "\<forall>g \<in> set (rt_ceiling rt). \<exists>x \<in> set granted. resolve_grant reg' x = Inr g"
    using t(1) by auto
  have "\<exists>c g x. resolve_perm reg' n = Inr c \<and> x \<in> set granted \<and> resolve_grant reg' x = Inr g \<and> covers g c"
    if n: "n \<in> set (required_permissions t)" for n
    using b(1) n g unfolding within_ceiling_def by blast
  then show ?thesis using t b(2) by blast
qed

theorem built_runtime_calls_granted_tools_witness:
  "\<exists>rt evs w'. build_runtime demo_args (RoleName ''sales'') [GrantClass ReadPerm] None None PNone small_registry
      = (Inr rt, small_registry, evs)
    \<and> (\<exists>t \<in> set (rt_tools rt). ts_name t = ''shop'' \<and> ts_tier t \<noteq> T3)"
proof -
  obtain rt evs where b: "build_runtime demo_args (RoleName ''sales'') [GrantClass ReadPerm] None None PNone
      small_registry = (Inr rt, small_registry, evs)" and u: "ad_untrusted_input (rt_definition rt)"
    and n: "map ts_name (rt_tools rt) = [''clock'', ''shop'']"
    using demo_runtime by (elim exE conjE) (rule that)
  have "(case build_runtime demo_args (RoleName ''sales'') [GrantClass ReadPerm] None None PNone small_registry of
     (Inr rt, reg', evs) \<Rightarrow>
        (case intercept small_registry demo_caller ''shop'' [] rt None 0 of (Inr x, w', evs') \<Rightarrow> True | _ \<Rightarrow> False)
   | _ \<Rightarrow> False)"
    by code_simp
  then obtain x w' evs' where c: "intercept small_registry demo_caller ''shop'' [] rt None 0 = (Inr x, w', evs')"
    unfolding b by (auto split: prod.splits sum.splits)
  show ?thesis
    using built_runtime_calls_granted_tools [OF b small_registry_inv c] b u by blast
qed

text \<open>
  The gap: a deployment may grant a whole action family by its class, and the tools it covers
  are equipped.  But a family has no wire name.  When all granted classes are of this kind, a turn
  without explicit permissions fails before its first model call, and a turn with explicit ones
  has every sensitive call refused, whatever names it passes.
\<close>

theorem family_grant_is_unusable:
  assumes "reg_inv reg" and "rt_ceiling rt \<noteq> []" and "\<forall>g \<in> set (rt_ceiling rt). \<forall>n. resolve_perm reg n \<noteq> Inr g"
    and "surface_of rt name = Some t" and "is_sensitive t" and "required_permissions t \<noteq> []"
  shows "default_permissions reg rt = Inl UnknownPermissionNameError
    \<and> (\<exists>reason. intercept reg k name inp rt current w = (Inl (PolicyViolation name reason), w, [CallBlocked name reason]))"
proof -
  have n: "ts_name t = name" using surface_of_Some [OF assms(4)] by simp
  obtain g gs where c: "rt_ceiling rt = g # gs" using assms(2) by (cases "rt_ceiling rt") auto
  have "reverse_perm reg g = Inl UnknownPermissionNameError"
    using assms(3) c inv_resolve_reverse [OF assms(1), of _ g] by (auto simp: reverse_perm_def split: option.splits)
  then have "default_permissions reg rt = Inl UnknownPermissionNameError"
    by (simp add: default_permissions_def c)
  moreover have "\<exists>reason. revalidate reg rt t current = Inl (PolicyViolation name reason)"
  proof (cases current)
    case (Some names)
    have e: "filter (\<lambda>c. c \<in> set (known_classes reg names)) (rt_ceiling rt) = []"
      using assms(3) by (auto simp: filter_empty_conv known_classes_mem)
    have "mapR (\<lambda>n. bindR (is_covered reg [] n) (\<lambda>b. Inr (n, b))) xs = Inr (map (\<lambda>n. (n, False)) xs)" for xs
      by (induction xs) (simp_all add: is_covered_def)
    moreover have "sort xs \<noteq> []" if "xs \<noteq> []" for xs :: "string list"
      using that by (metis set_empty set_sort)
    ultimately have "\<exists>m. missing_permissions reg [] (required_permissions t) = Inr m \<and> m \<noteq> []"
      using assms(6) by (simp add: missing_permissions_def comp_def)
    then show ?thesis using assms(5) Some e n by (auto simp: revalidate_def blocked_def)
  qed (use assms(5) n in \<open>simp add: revalidate_def blocked_def\<close>)
  then have "\<exists>reason. admit reg rt k current t = Inl (PolicyViolation name reason)"
    by (auto simp: admit_def)
  then have "\<exists>reason. intercept reg k name inp rt current w = (Inl (PolicyViolation name reason), w, [CallBlocked name reason])"
    using assms(4) by (auto simp: intercept_def)
  ultimately show ?thesis by blast
qed

theorem family_grant_is_unusable_witness:
  "default_permissions order_registry (order_runtime [WritePerm]) = Inl UnknownPermissionNameError
   \<and> (\<exists>reason. intercept order_registry demo_caller ''order'' [] (order_runtime [WritePerm]) (Some [''write:orders'']) 0
        = (Inl (PolicyViolation ''order'' reason), 0, [CallBlocked ''order'' reason]))"
proof (rule family_grant_is_unusable)
  show "reg_inv order_registry"
    by (auto simp: reg_inv_def order_registry_def order_class_def grantable_def family_defs)
  show "\<forall>g \<in> set (rt_ceiling (order_runtime [WritePerm])). \<forall>n. resolve_perm order_registry n \<noteq> Inr g"
    by (simp add: order_runtime_def resolve_perm_def order_registry_def order_class_def family_defs)
  show "surface_of (order_runtime [WritePerm]) ''order'' = Some order_tool" by code_simp
qed (simp_all add: order_runtime_def is_sensitive_def order_tool_def SENSITIVE_TIERS_def)

end
