(* ===== verification/Scope_Store.thy ===== *)
theory Scope_Store
  imports Prelude
begin

section \<open>Per-subject rows\<close>

text \<open>
  \<open>scope.py\<close>, the in-memory reference backend.  A store maps a pair of runtime id and subject key
  to tables, and a table maps row keys to rows; the dictionaries keep insertion order.  A handle
  is its pair, and each of its methods takes the shared store and returns it.  The contract every
  per-user store promises its clients is the locale \<open>subject_scope\<close>.
\<close>

subsection \<open>The scoped store\<close>

type_synonym 'v tables = "(string \<times> (string \<times> 'v) list) list"
type_synonym pair = "string \<times> string"
type_synonym 'v store = "(pair \<times> 'v tables) list"

definition lookup_or :: "('k \<times> 'v) list \<Rightarrow> 'k \<Rightarrow> 'v \<Rightarrow> 'v" where
  "lookup_or d k v = (case map_of d k of Some w \<Rightarrow> w | None \<Rightarrow> v)"

text \<open>\<open>_tables\<close> is \<open>setdefault\<close>: reading a pair creates its entry.\<close>

definition touch :: "'v store \<Rightarrow> pair \<Rightarrow> 'v store" where
  "touch st p = (if p \<in> set (dkeys st) then st else st @ [(p, [])])"

definition scope_tables :: "'v store \<Rightarrow> pair \<Rightarrow> 'v tables" where
  "scope_tables st p = lookup_or st p []"

definition scope_put :: "'v store \<Rightarrow> pair \<Rightarrow> string \<Rightarrow> string \<Rightarrow> 'v \<Rightarrow> 'v store" where
  "scope_put st p table key v =
     (let ts = scope_tables st p in
      dset st p (dset ts table (dset (lookup_or ts table []) key v)))"

definition scope_get :: "'v store \<Rightarrow> pair \<Rightarrow> string \<Rightarrow> string \<Rightarrow> 'v option \<times> 'v store" where
  "scope_get st p table key = (map_of (lookup_or (scope_tables st p) table []) key, touch st p)"

definition scope_delete :: "'v store \<Rightarrow> pair \<Rightarrow> string \<Rightarrow> string \<Rightarrow> 'v store" where
  "scope_delete st p table key =
     (let ts = scope_tables st p in
      if table \<in> set (dkeys ts) then dset st p (dset ts table (ddel (lookup_or ts table []) key))
      else touch st p)"

definition scope_rows :: "'v store \<Rightarrow> pair \<Rightarrow> string \<Rightarrow> (string \<times> 'v) list \<times> 'v store" where
  "scope_rows st p table = (lookup_or (scope_tables st p) table [], touch st p)"

definition all_rows :: "'v store \<Rightarrow> string \<Rightarrow> (string \<times> string \<times> string \<times> 'v) list" where
  "all_rows st table =
     concat (map (\<lambda>((rid, sk), ts). map (\<lambda>(k, v). (rid, sk, k, v)) (lookup_or ts table [])) st)"

definition sweep :: "'v store \<Rightarrow> string \<Rightarrow> ('v \<Rightarrow> bool) \<Rightarrow> nat \<times> 'v store" where
  "sweep st table expired =
     (sum_list (map (\<lambda>(p, ts). length (filter (\<lambda>(k, v). expired v) (lookup_or ts table []))) st),
      map (\<lambda>(p, ts). (p, map (\<lambda>(t, rows). (t, if t = table then filter (\<lambda>(k, v). \<not> expired v) rows else rows)) ts)) st)"

datatype 'v scope_op =
    Put pair string string 'v
  | Get pair string string
  | Delete pair string string
  | Rows pair string

fun op_pair :: "'v scope_op \<Rightarrow> pair" where
  "op_pair (Put p _ _ _) = p"
| "op_pair (Get p _ _) = p"
| "op_pair (Delete p _ _) = p"
| "op_pair (Rows p _) = p"

fun run_op :: "'v store \<Rightarrow> 'v scope_op \<Rightarrow> 'v store" where
  "run_op st (Put p t k v) = scope_put st p t k v"
| "run_op st (Get p t k) = snd (scope_get st p t k)"
| "run_op st (Delete p t k) = scope_delete st p t k"
| "run_op st (Rows p t) = snd (scope_rows st p t)"

subsection \<open>The contract\<close>

locale subject_scope =
  fixes ok :: "'s \<Rightarrow> bool"
    and rows :: "'s \<Rightarrow> pair \<Rightarrow> string \<Rightarrow> (string \<times> 'v) list"
    and reads :: "'s \<Rightarrow> pair \<Rightarrow> 's"
    and put :: "'s \<Rightarrow> pair \<Rightarrow> string \<Rightarrow> string \<Rightarrow> 'v \<Rightarrow> 's"
    and delete :: "'s \<Rightarrow> pair \<Rightarrow> string \<Rightarrow> string \<Rightarrow> 's"
  assumes ok_reads: "ok s \<Longrightarrow> ok (reads s p)"
    and ok_put: "ok s \<Longrightarrow> ok (put s p t k v)"
    and ok_delete: "ok s \<Longrightarrow> ok (delete s p t k)"
    and distinct_rows: "ok s \<Longrightarrow> distinct (dkeys (rows s p t))"
    and rows_reads: "rows (reads s p) q u = rows s q u"
    and rows_put: "rows (put s p t k v) q u = (if q = p \<and> u = t then dset (rows s p t) k v else rows s q u)"
    and rows_delete: "rows (delete s p t k) q u = (if q = p \<and> u = t then ddel (rows s p t) k else rows s q u)"
begin

fun step :: "'s \<Rightarrow> 'v scope_op \<Rightarrow> 's" where
  "step s (Put p t k v) = put s p t k v"
| "step s (Get p t k) = reads s p"
| "step s (Delete p t k) = delete s p t k"
| "step s (Rows p t) = reads s p"

lemma step_ok: "ok s \<Longrightarrow> ok (step s x)"
  by (cases x) (simp_all add: ok_reads ok_put ok_delete)

lemma steps_ok: "ok s \<Longrightarrow> ok (foldl step s xs)"
  by (induction xs arbitrary: s) (simp_all add: step_ok)

lemma step_cong: "rows s p = rows s' p \<Longrightarrow> rows (step s x) p = rows (step s' x) p"
  by (cases x) (auto simp: rows_reads rows_put rows_delete fun_eq_iff)

lemma step_other: "op_pair x \<noteq> p \<Longrightarrow> rows (step s x) p = rows s p"
  by (cases x) (auto simp: rows_reads rows_put rows_delete fun_eq_iff)

lemma steps_cong: "rows s p = rows s' p \<Longrightarrow> rows (foldl step s xs) p = rows (foldl step s' xs) p"
proof (induction xs arbitrary: s s')
  case (Cons x xs)
  show ?case unfolding foldl_Cons by (rule Cons.IH [OF step_cong [OF Cons.prems]])
qed simp

lemma isolation: "rows (foldl step s xs) p = rows (foldl step s (filter (\<lambda>x. op_pair x = p) xs)) p"
proof (induction xs arbitrary: s)
  case (Cons x xs)
  show ?case
  proof (cases "op_pair x = p")
    case False
    then have "rows (foldl step (step s x) xs) p = rows (foldl step s xs) p"
      by (intro steps_cong step_other)
    then show ?thesis using Cons.IH False by simp
  qed (use Cons.IH in simp)
qed simp

end

subsection \<open>The reference backend keeps it\<close>

definition store_ok :: "'v store \<Rightarrow> bool" where
  "store_ok st \<longleftrightarrow> distinct (dkeys st)
     \<and> (\<forall>(p, ts) \<in> set st. distinct (dkeys ts) \<and> (\<forall>(t, rows) \<in> set ts. distinct (dkeys rows)))"

lemma lookup_or_dset: "lookup_or (dset d k v) k' w = (if k' = k then v else lookup_or d k' w)"
  by (simp add: lookup_or_def)

lemma lookup_or_touch: "lookup_or (touch st p) q [] = lookup_or st q []"
  by (auto simp: touch_def lookup_or_def map_add_def split: option.splits)

lemma rows_of: "fst (scope_rows st p t) = lookup_or (lookup_or st p []) t []"
  by (simp add: scope_rows_def scope_tables_def)

lemma dset_elems: "(k', v') \<in> set (dset d k v) \<Longrightarrow> (k' = k \<and> v' = v) \<or> (k', v') \<in> set d"
  by (auto simp: dset_def dmerge_def split: if_splits)

lemma touch_ok: "store_ok st \<Longrightarrow> store_ok (touch st p)"
  by (auto simp: store_ok_def touch_def dkeys_def)

lemma lookup_or_elem: "lookup_or d k w = w \<or> (k, lookup_or d k w) \<in> set d"
  by (auto simp: lookup_or_def split: option.splits dest: map_of_SomeD)

lemma tables_ok:
  assumes "store_ok st"
  shows "distinct (dkeys (scope_tables st p)) \<and> (\<forall>(t, rows) \<in> set (scope_tables st p). distinct (dkeys rows))"
  using assms lookup_or_elem [of st p "[]"] by (auto simp: store_ok_def scope_tables_def dkeys_def)

lemma table_ok: "store_ok st \<Longrightarrow> distinct (dkeys (lookup_or (scope_tables st p) t []))"
  using tables_ok [of st p] lookup_or_elem [of "scope_tables st p" t "[]"] by (auto simp: dkeys_def)

lemma replace_table_ok:
  assumes "store_ok st" and "distinct (dkeys rows)"
  shows "store_ok (dset st p (dset (scope_tables st p) t rows))"
proof -
  let ?ts = "dset (scope_tables st p) t rows"
  have ts: "distinct (dkeys ?ts) \<and> (\<forall>(u, rs) \<in> set ?ts. distinct (dkeys rs))"
    using tables_ok [OF assms(1), of p] assms(2) dkeys_dset_distinct dset_elems by fast
  show ?thesis
    unfolding store_ok_def
    using assms(1) ts dkeys_dset_distinct dset_elems unfolding store_ok_def by fast
qed

lemma ddel_distinct: "distinct (dkeys d) \<Longrightarrow> distinct (dkeys (ddel d k))"
  by (induction d) (auto simp: ddel_def dkeys_def)

interpretation mem: subject_scope store_ok "\<lambda>st p t. fst (scope_rows st p t)" touch scope_put scope_delete
proof
  fix s :: "'v store" and p q :: pair and t u k :: string and v :: 'v
  show "store_ok s \<Longrightarrow> store_ok (touch s p)" by (rule touch_ok)
  show "store_ok s \<Longrightarrow> store_ok (scope_put s p t k v)"
    by (auto simp: scope_put_def Let_def intro!: replace_table_ok dkeys_dset_distinct table_ok)
  show "store_ok s \<Longrightarrow> store_ok (scope_delete s p t k)"
    by (auto simp: scope_delete_def Let_def intro!: replace_table_ok ddel_distinct table_ok touch_ok)
  show "store_ok s \<Longrightarrow> distinct (dkeys (fst (scope_rows s p t)))"
    using table_ok by (simp add: scope_rows_def)
  show "fst (scope_rows (touch s p) q u) = fst (scope_rows s q u)"
    by (simp add: rows_of lookup_or_touch)
  show "fst (scope_rows (scope_put s p t k v) q u) =
      (if q = p \<and> u = t then dset (fst (scope_rows s p t)) k v else fst (scope_rows s q u))"
    by (simp add: rows_of scope_put_def Let_def lookup_or_dset scope_tables_def)
  have "map_of d t = None \<Longrightarrow> lookup_or d t [] = []" for d :: "(string \<times> (string \<times> 'v) list) list"
    by (simp add: lookup_or_def)
  then have "t \<notin> set (dkeys (lookup_or s p [])) \<Longrightarrow> ddel (lookup_or (lookup_or s p []) t []) k = lookup_or (lookup_or s p []) t []"
    by (simp add: map_of_None_dkeys [symmetric] ddel_def)
  then show "fst (scope_rows (scope_delete s p t k) q u) =
      (if q = p \<and> u = t then ddel (fst (scope_rows s p t)) k else fst (scope_rows s q u))"
    by (auto simp: rows_of scope_delete_def Let_def lookup_or_dset scope_tables_def lookup_or_touch)
qed

lemma run_op_step: "run_op st x = mem.step st x"
  by (cases x) (simp_all add: scope_get_def scope_rows_def)

subsection \<open>Properties\<close>

text \<open>
  Isolation.  Whatever operations run in the scopes of whatever pairs, in whatever order, the
  rows a pair sees are those its own operations alone would have left: no operation in another
  subject's scope, or in the same subject's scope of another runtime, is visible in them.
\<close>

theorem subject_isolation:
  "fst (scope_rows (foldl run_op st ops) p t)
     = fst (scope_rows (foldl run_op st (filter (\<lambda>x. op_pair x = p) ops)) p t)"
  using mem.isolation [of st ops p, unfolded fun_eq_iff] unfolding run_op_step by blast

lemma lookup_or_filter:
  "lookup_or (map (\<lambda>(u, rows). (u, if u = t then filter P rows else rows)) ts) u []
     = (if u = t then filter P (lookup_or ts u []) else lookup_or ts u [])"
  by (induction ts) (auto simp: lookup_or_def)

text \<open>
  A retention sweep removes exactly the expired rows of its table, over all subjects, keeps
  every other row in order, reports how many it removed, and leaves a well-formed store.
\<close>

theorem sweep_exact:
  assumes "store_ok st" and "sweep st t expired = (n, st')"
  shows "all_rows st' t = filter (\<lambda>(rid, sk, k, v). \<not> expired v) (all_rows st t)
     \<and> n + length (all_rows st' t) = length (all_rows st t)
     \<and> (\<forall>u. u \<noteq> t \<longrightarrow> all_rows st' u = all_rows st u) \<and> store_ok st'"
proof -
  let ?tab = "\<lambda>ts. map (\<lambda>(u, rows). (u, if u = t then filter (\<lambda>(k, v). \<not> expired v) rows else rows)) ts"
  have st': "st' = map (\<lambda>(p, ts). (p, ?tab ts)) st"
    and n: "n = sum_list (map (\<lambda>x. length (filter (\<lambda>(k, v). expired v) (lookup_or (snd x) t []))) st)"
    using assms(2) by (auto simp: sweep_def case_prod_unfold)
  have rows: "all_rows st' u = concat (map (\<lambda>((rid, sk), ts). map (\<lambda>(k, v). (rid, sk, k, v))
      (if u = t then filter (\<lambda>(k, v). \<not> expired v) (lookup_or ts u []) else lookup_or ts u [])) st)" for u
    unfolding st' all_rows_def by (simp add: case_prod_unfold comp_def lookup_or_filter [unfolded case_prod_unfold])
  have 1: "all_rows st' t = filter (\<lambda>(rid, sk, k, v). \<not> expired v) (all_rows st t)"
    unfolding rows unfolding all_rows_def by (induction st) (auto simp: filter_map comp_def case_prod_unfold)
  have 2: "all_rows st' u = all_rows st u" if "u \<noteq> t" for u
    using that unfolding rows unfolding all_rows_def by simp
  have len: "length (filter P xs) + length (filter (\<lambda>x. \<not> P x) xs) = length xs"
    for P and xs :: "(string \<times> 'a) list"
    by (rule sum_length_filter_compl)
  have 3: "n + length (all_rows st' t) = length (all_rows st t)"
    unfolding n 1 unfolding all_rows_def
  proof (induction st)
    case (Cons x st)
    then show ?case
      using len [of "\<lambda>x. expired (snd x)" "lookup_or (snd x) t []"]
      by (auto simp: filter_map comp_def case_prod_unfold)
  qed simp
  have keys: "dkeys (?tab ts) = dkeys ts" for ts by (induction ts) (auto simp: dkeys_def)
  have fk: "distinct (dkeys rows) \<Longrightarrow> distinct (dkeys (filter P rows))" for P and rows :: "(string \<times> 'a) list"
    by (induction rows) (auto simp: dkeys_def)
  have "dkeys st' = dkeys st" unfolding st' by (induction st) (auto simp: dkeys_def)
  moreover have "distinct (dkeys (?tab ts)) \<and> (\<forall>(u, rows) \<in> set (?tab ts). distinct (dkeys rows))"
    if "(p, ts) \<in> set st" for p ts
    using assms(1) that unfolding keys store_ok_def by (force intro!: fk split: if_splits)
  moreover have "\<exists>ts. (q, ts) \<in> set st \<and> us = ?tab ts" if "(q, us) \<in> set st'" for q us
    using that unfolding st' by auto
  moreover have "distinct (dkeys st)" using assms(1) by (simp add: store_ok_def)
  ultimately have "store_ok st'" unfolding store_ok_def by fastforce
  then show ?thesis using 1 2 3 by blast
qed

theorem sweep_exact_witness:
  "all_rows (snd (sweep (scope_put (scope_put [] (''r'', ''a'') ''t'' ''k'' (1::nat)) (''r'', ''b'') ''t'' ''k'' 5) ''t''
     (\<lambda>v. v < 3))) ''t'' = [(''r'', ''b'', ''k'', 5)]"
proof -
  let ?st = "scope_put (scope_put [] (''r'', ''a'') ''t'' ''k'' (1::nat)) (''r'', ''b'') ''t'' ''k'' 5"
  have "store_ok ?st" by (intro mem.ok_put) (simp add: store_ok_def dkeys_def)
  moreover have "sweep ?st ''t'' (\<lambda>v. v < 3) = (1, snd (sweep ?st ''t'' (\<lambda>v. v < 3)))" by code_simp
  ultimately have "all_rows (snd (sweep ?st ''t'' (\<lambda>v. v < 3))) ''t''
      = filter (\<lambda>(rid, sk, k, v). \<not> v < 3) (all_rows ?st ''t'')"
    using sweep_exact by blast
  also have "\<dots> = [(''r'', ''b'', ''k'', 5)]" by code_simp
  finally show ?thesis .
qed

end
