(* ===== verification/Usage.thy ===== *)
theory Usage
  imports Scope_Store "HOL-Library.Product_Lexorder" "HOL-Library.Multiset"
begin

section \<open>The usage ledger and the budget caps\<close>

text \<open>
  \<open>usage.py\<close>: the caps of a deployment, the in-memory ledger of what each subject spent and the
  check of a cap.  Costs are exact numbers.  A time is a UTC year, month, day and microsecond of
  the day.
\<close>

subsection \<open>Caps\<close>

type_synonym datetime = "int \<times> int \<times> int \<times> int"

record budget_caps =
  daily_usd :: pyval
  monthly_usd :: pyval
  daily_tokens :: pyval
  monthly_tokens :: pyval
  refusal_message :: string

definition has_usd_cap :: "budget_caps \<Rightarrow> bool" where
  "has_usd_cap c = (daily_usd c \<noteq> PNone \<or> monthly_usd c \<noteq> PNone)"

text \<open>One cap: absent, or a finite positive number, an integer for the token caps.\<close>

fun is_plain_int :: "pyval \<Rightarrow> bool" where
  "is_plain_int (PInt _) = True"
| "is_plain_int _ = False"

definition validate_cap :: "bool \<Rightarrow> pyval \<Rightarrow> bool res" where
  "validate_cap integral v =
     (if v = PNone then Inr False
      else if is_bool v \<or> (if integral then \<not> is_plain_int v else \<not> is_number v)
      then Inl (ValueErr ''must be a number'')
      else bindR (math_isfinite v) (\<lambda>fin.
        if \<not> fin then Inl (ValueErr ''must be finite'')
        else if py_le v (PInt 0) then Inl (ValueErr ''must be positive'')
        else Inr True))"

definition validate_caps :: "budget_caps \<Rightarrow> unit res" where
  "validate_caps c =
     bindR (validate_cap False (daily_usd c)) (\<lambda>a.
     bindR (validate_cap False (monthly_usd c)) (\<lambda>b.
     bindR (validate_cap True (daily_tokens c)) (\<lambda>d.
     bindR (validate_cap True (monthly_tokens c)) (\<lambda>e.
       guardR (a \<or> b \<or> d \<or> e) (ValueErr ''sets no cap'')))))"

text \<open>
  \<open>parse_budgets\<close>: per runtime id, a mapping of the four caps and the message.  An entry that is
  no mapping fails as Python does when the code iterates it and reads it.
\<close>

definition CAP_FIELDS :: "string list" where
  "CAP_FIELDS = [''daily_usd'', ''monthly_usd'', ''daily_tokens'', ''monthly_tokens'']"

definition DEFAULT_REFUSAL_MESSAGE :: string where
  "DEFAULT_REFUSAL_MESSAGE = ''You have reached your usage limit for now. Please try again later.''"

definition budget_of :: "dict \<Rightarrow> budget_caps res" where
  "budget_of d =
     (if \<not> set (dkeys d) \<subseteq> set (''message'' # CAP_FIELDS) then Inl (ValueErr ''has unknown keys'')
      else let caps = \<lparr>daily_usd = dget d ''daily_usd'', monthly_usd = dget d ''monthly_usd'',
                       daily_tokens = dget d ''daily_tokens'', monthly_tokens = dget d ''monthly_tokens'',
                       refusal_message = (case map_of d ''message'' of Some v \<Rightarrow> py_str v | None \<Rightarrow> DEFAULT_REFUSAL_MESSAGE)\<rparr>
           in bindR (validate_caps caps) (\<lambda>_. Inr caps))"

fun is_string :: "pyval \<Rightarrow> bool" where
  "is_string (PStr _) = True"
| "is_string _ = False"

fun parse_budget :: "pyval \<Rightarrow> budget_caps res" where
  "parse_budget (PDict d) = budget_of d"
| "parse_budget (PStr s) =
     (if s = [] then Inl (Raised ''AttributeError'' ''get'') else Inl (ValueErr ''has unknown keys''))"
| "parse_budget (PList vs) =
     (if \<not> list_all hashable vs then Inl (TypeErr ''unhashable'')
      else let unknown = filter (\<lambda>v. v \<notin> set (map PStr (''message'' # CAP_FIELDS))) (remdups vs)
           in if unknown = [] then Inl (Raised ''AttributeError'' ''get'')
              else if length unknown = 1 \<or> list_all is_string unknown \<or> list_all is_number unknown
              then Inl (ValueErr ''has unknown keys'') else Inl (TypeErr ''sorted''))"
| "parse_budget _ = Inl (TypeErr ''not iterable'')"

definition parse_budgets :: "dict \<Rightarrow> (string \<times> budget_caps) list res" where
  "parse_budgets raw = mapR (\<lambda>(rid, v). bindR (parse_budget v) (\<lambda>c. Inr (rid, c))) raw"

definition window_starts :: "datetime \<Rightarrow> datetime \<times> datetime" where
  "window_starts now = (case now of (y, m, d, _) \<Rightarrow> ((y, m, d, 0), (y, m, 1, 0)))"

subsection \<open>The ledger\<close>

record usage_record =
  ur_runtime :: string
  ur_subject :: string
  ur_actor :: "string option"
  ur_model_id :: "string option"
  ur_input_tokens :: "int option"
  ur_output_tokens :: "int option"
  ur_total_tokens :: "int option"
  ur_cost_usd :: "rat option"
  ur_model_calls :: "nat option"
  ur_tool_calls :: nat
  ur_timed_out :: bool
  ur_occurred_at :: datetime
  ur_id :: string

record usage_totals =
  ut_tokens :: int
  ut_cost :: rat
  ut_turns :: nat
  ut_unpriced :: nat

definition or_zero :: "'a :: zero option \<Rightarrow> 'a" where
  "or_zero x = (case x of Some v \<Rightarrow> v | None \<Rightarrow> 0)"

definition totals_of :: "usage_record list \<Rightarrow> usage_totals" where
  "totals_of rs =
     \<lparr>ut_tokens = sum_list (map (\<lambda>r. or_zero (ur_total_tokens r)) rs),
      ut_cost = sum_list (map (\<lambda>r. or_zero (ur_cost_usd r)) rs),
      ut_turns = length rs,
      ut_unpriced = length (filter (\<lambda>r. ur_cost_usd r = None) rs)\<rparr>"

definition USAGE_TABLE :: string where "USAGE_TABLE = ''subject_usage''"

definition ledger_record :: "usage_record store \<Rightarrow> usage_record \<Rightarrow> usage_record store" where
  "ledger_record st r = scope_put st (ur_runtime r, ur_subject r) USAGE_TABLE (ur_id r) r"

definition ledger_query :: "usage_record store \<Rightarrow> pair \<Rightarrow> datetime option \<Rightarrow> usage_record list" where
  "ledger_query st p since =
     sort_key ur_occurred_at
       (filter (\<lambda>r. case since of None \<Rightarrow> True | Some t \<Rightarrow> t \<le> ur_occurred_at r)
         (map snd (fst (scope_rows st p USAGE_TABLE))))"

definition ledger_totals :: "usage_record store \<Rightarrow> pair \<Rightarrow> datetime \<Rightarrow> usage_totals" where
  "ledger_totals st p since = totals_of (ledger_query st p (Some since))"

definition ledger_delete :: "usage_record store \<Rightarrow> pair \<Rightarrow> nat \<times> usage_record store" where
  "ledger_delete st p =
     (let rows = fst (scope_rows st p USAGE_TABLE)
      in (length rows, foldl (\<lambda>s k. scope_delete s p USAGE_TABLE k) (touch st p) (dkeys rows)))"

fun over_cap :: "pyval \<Rightarrow> rat \<Rightarrow> bool" where
  "over_cap PNone used = False"
| "over_cap cap used = (num_val cap \<le> used)"

text \<open>The first cap reached, with its limit and the use, in the code's order.\<close>

definition cap_checks :: "usage_totals \<Rightarrow> usage_totals \<Rightarrow> budget_caps \<Rightarrow> usage_totals \<Rightarrow> (string \<times> pyval \<times> rat) list" where
  "cap_checks daily monthly caps pending =
     [(''daily_usd'', daily_usd caps, ut_cost daily + ut_cost pending),
      (''monthly_usd'', monthly_usd caps, ut_cost monthly + ut_cost pending),
      (''daily_tokens'', daily_tokens caps, of_int (ut_tokens daily + ut_tokens pending)),
      (''monthly_tokens'', monthly_tokens caps, of_int (ut_tokens monthly + ut_tokens pending))]"

text \<open>The ledger is asked for its totals only: any implementation of the protocol fits.\<close>

definition reached_cap ::
  "(pair \<Rightarrow> datetime \<Rightarrow> usage_totals) \<Rightarrow> budget_caps \<Rightarrow> pair \<Rightarrow> usage_totals \<Rightarrow> datetime
   \<Rightarrow> (string \<times> rat \<times> rat) option" where
  "reached_cap totals caps p pending now =
     (case window_starts now of (day, month) \<Rightarrow>
        map_option (\<lambda>(name, cap, used). (name, num_val cap, used))
          (find (\<lambda>(name, cap, used). over_cap cap used)
             (cap_checks (totals p day) (totals p month) caps pending)))"

subsection \<open>The contract of a ledger\<close>

definition pair_of :: "usage_record \<Rightarrow> pair" where
  "pair_of r = (ur_runtime r, ur_subject r)"

text \<open>What a subject spent in a runtime from a time on, among the records of a history.\<close>

definition spent :: "usage_record list \<Rightarrow> pair \<Rightarrow> datetime \<Rightarrow> usage_totals" where
  "spent rs p since = totals_of (filter (\<lambda>r. pair_of r = p \<and> since \<le> ur_occurred_at r) rs)"

locale usage_ledger =
  fixes new :: 's and add :: "'s \<Rightarrow> usage_record \<Rightarrow> 's"
    and totals :: "'s \<Rightarrow> pair \<Rightarrow> datetime \<Rightarrow> usage_totals"
  assumes totals_recorded: "distinct (map ur_id rs) \<Longrightarrow> totals (foldl add new rs) p since = spent rs p since"
begin

lemma cap_of_history:
  assumes "distinct (map ur_id rs)"
  shows "reached_cap (totals (foldl add new rs)) caps p pending now = reached_cap (spent rs) caps p pending now"
  using totals_recorded [OF assms] by (simp add: reached_cap_def)

end

lemma sum_list_perm:
  fixes f :: "'a \<Rightarrow> 'b :: comm_monoid_add"
  shows "mset rs = mset rs' \<Longrightarrow> sum_list (map f rs) = sum_list (map f rs')"
  by (metis mset_map sum_mset_sum_list)

lemma totals_of_mset:
  assumes "mset rs = mset rs'"
  shows "totals_of rs = totals_of rs'"
proof -
  have t: "sum_list (map (\<lambda>r. or_zero (ur_total_tokens r)) rs) = sum_list (map (\<lambda>r. or_zero (ur_total_tokens r)) rs')"
    and c: "sum_list (map (\<lambda>r. or_zero (ur_cost_usd r)) rs) = sum_list (map (\<lambda>r. or_zero (ur_cost_usd r)) rs')"
    by (rule sum_list_perm [OF assms])+
  have u: "length (filter (\<lambda>r. ur_cost_usd r = None) rs) = length (filter (\<lambda>r. ur_cost_usd r = None) rs')"
    using assms by (metis mset_filter size_mset)
  show ?thesis using t c u mset_eq_length [OF assms] by (simp add: totals_of_def)
qed

lemma dset_snoc: "k \<notin> set (dkeys d) \<Longrightarrow> dset d k v = d @ [(k, v)]"
  by (induction d) (auto simp: dset_def dmerge_def dkeys_def)

lemma ledger_rows:
  assumes "distinct (map ur_id rs)"
  shows "fst (scope_rows (foldl ledger_record [] rs) p USAGE_TABLE)
     = map (\<lambda>r. (ur_id r, r)) (filter (\<lambda>r. pair_of r = p) rs)"
  using assms
proof (induction rs rule: rev_induct)
  case (snoc r rs)
  let ?st = "foldl ledger_record [] rs"
  have new: "ur_id r \<notin> set (dkeys (fst (scope_rows ?st p USAGE_TABLE)))" if "pair_of r = p"
    using snoc by (auto simp: dkeys_def)
  have "fst (scope_rows (ledger_record ?st r) p USAGE_TABLE)
      = (if p = pair_of r then dset (fst (scope_rows ?st p USAGE_TABLE)) (ur_id r) r
         else fst (scope_rows ?st p USAGE_TABLE))"
    unfolding ledger_record_def pair_of_def mem.rows_put by simp
  then show ?case using snoc new by (auto simp: dset_snoc)
qed (simp add: scope_rows_def scope_tables_def lookup_or_def)

interpretation memory: usage_ledger "[]" ledger_record ledger_totals
proof
  fix rs :: "usage_record list" and p :: pair and since :: datetime
  assume "distinct (map ur_id rs)"
  then have "mset (ledger_query (foldl ledger_record [] rs) p (Some since))
      = mset (filter (\<lambda>r. since \<le> ur_occurred_at r) (filter (\<lambda>r. pair_of r = p) rs))"
    by (simp add: ledger_query_def ledger_rows comp_def)
  then show "ledger_totals (foldl ledger_record [] rs) p since = spent rs p since"
    unfolding ledger_totals_def spent_def by (intro totals_of_mset) (simp add: conj_commute)
qed

subsection \<open>Properties\<close>

lemma over_cap_iff: "over_cap cap used \<longleftrightarrow> cap \<noteq> PNone \<and> num_val cap \<le> used"
  by (cases cap) auto

text \<open>
  C23 The budget gate lets a turn on exactly when everything the ledger ever recorded for this
  subject in this runtime since midnight UTC, and since the first of the month, together with
  what the running turn already spent, stays strictly below every cap set.  Other subjects,
  other runtimes and earlier windows do not count.
\<close>

theorem budget_counts_recorded_usage:
  assumes "distinct (map ur_id rs)" and "window_starts now = (day, month)"
  shows "reached_cap (ledger_totals (foldl ledger_record [] rs)) caps p pending now = None \<longleftrightarrow>
     (daily_usd caps \<noteq> PNone \<longrightarrow> ut_cost (spent rs p day) + ut_cost pending < num_val (daily_usd caps))
     \<and> (monthly_usd caps \<noteq> PNone \<longrightarrow> ut_cost (spent rs p month) + ut_cost pending < num_val (monthly_usd caps))
     \<and> (daily_tokens caps \<noteq> PNone \<longrightarrow>
          of_int (ut_tokens (spent rs p day) + ut_tokens pending) < num_val (daily_tokens caps))
     \<and> (monthly_tokens caps \<noteq> PNone \<longrightarrow>
          of_int (ut_tokens (spent rs p month) + ut_tokens pending) < num_val (monthly_tokens caps))"
  unfolding memory.cap_of_history [OF assms(1)]
  using assms(2) by (auto simp: reached_cap_def cap_checks_def find_None_iff over_cap_iff)

definition demo_record :: "string \<Rightarrow> string \<Rightarrow> int \<Rightarrow> datetime \<Rightarrow> usage_record" where
  "demo_record rid sk tokens t = \<lparr>ur_runtime = ''shop'', ur_subject = sk, ur_actor = None, ur_model_id = None,
     ur_input_tokens = None, ur_output_tokens = None, ur_total_tokens = Some tokens, ur_cost_usd = None,
     ur_model_calls = Some 1, ur_tool_calls = 0, ur_timed_out = False, ur_occurred_at = t, ur_id = rid\<rparr>"

definition demo_caps :: budget_caps where
  "demo_caps = \<lparr>daily_usd = PNone, monthly_usd = PNone, daily_tokens = PInt 100, monthly_tokens = PInt 1000,
     refusal_message = []\<rparr>"

theorem budget_counts_recorded_usage_witness:
  "reached_cap (ledger_totals (foldl ledger_record [] [demo_record ''1'' ''ana'' 60 (2025, 3, 9, 5),
       demo_record ''2'' ''ana'' 60 (2025, 3, 10, 5), demo_record ''3'' ''bob'' 60 (2025, 3, 10, 6)]))
     demo_caps (''shop'', ''ana'') (totals_of []) (2025, 3, 10, 9) = None"
proof -
  have w: "window_starts (2025, 3, 10, 9) = ((2025, 3, 10, 0), (2025, 3, 1, 0))"
    by (simp add: window_starts_def)
  show ?thesis
    by (subst budget_counts_recorded_usage [OF _ w])
      (simp_all add: demo_record_def demo_caps_def spent_def totals_of_def pair_of_def or_zero_def)
qed

subsection \<open>Deleting a subject's usage\<close>

lemma delete_rows:
  "fst (scope_rows (foldl (\<lambda>s k. scope_delete s p t k) st ks) q u)
     = (if q = p \<and> u = t then filter (\<lambda>(k, v). k \<notin> set ks) (fst (scope_rows st p t)) else fst (scope_rows st q u))"
proof (induction ks arbitrary: st)
  case (Cons k ks)
  show ?case unfolding foldl_Cons Cons.IH mem.rows_delete
    by (auto simp: ddel_def intro!: filter_cong)
qed (simp add: case_prod_unfold)

lemma ledger_delete_rows:
  assumes "ledger_delete st p = (n, st')"
  shows "n = length (fst (scope_rows st p USAGE_TABLE)) \<and> ledger_query st' p None = []
     \<and> (q \<noteq> p \<or> u \<noteq> USAGE_TABLE \<longrightarrow> fst (scope_rows st' q u) = fst (scope_rows st q u))"
proof -
  have st': "st' = foldl (\<lambda>s k. scope_delete s p USAGE_TABLE k) (touch st p)
      (dkeys (fst (scope_rows st p USAGE_TABLE)))"
    using assms by (simp add: ledger_delete_def Let_def)
  have "fst (scope_rows st' p USAGE_TABLE) = []"
    unfolding st' delete_rows mem.rows_reads by (force simp: filter_empty_conv dkeys_def)
  moreover have "q \<noteq> p \<or> u \<noteq> USAGE_TABLE \<Longrightarrow> fst (scope_rows st' q u) = fst (scope_rows st q u)"
    unfolding st' delete_rows by (auto simp: mem.rows_reads)
  ultimately show ?thesis using assms by (simp add: ledger_delete_def ledger_query_def Let_def)
qed

end
