(* ===== verification/Conversation.thy ===== *)
theory Conversation
  imports Prelude
begin

section \<open>Messages, interrupted tool calls and the context budget\<close>

text \<open>
  The messages an agent turn works on, \<open>_close_unanswered_tool_calls\<close> of \<open>agent/graph.py\<close> and
  \<open>agent/context.py\<close>.  Messages and the token estimate come from \<open>langchain_core\<close>: a message
  keeps what the code reads of it, and the estimate is a parameter.
\<close>

record tool_call =
  call_name :: string
  call_args :: dict
  call_id :: string

record usage_metadata =
  um_input :: int
  um_output :: int
  um_total :: int

datatype msg =
    System string
  | Human string
  | AI string "tool_call list" "usage_metadata option"
  | Tool string string bool

fun is_tool :: "msg \<Rightarrow> bool" where
  "is_tool (Tool _ _ _) = True"
| "is_tool _ = False"

fun is_human :: "msg \<Rightarrow> bool" where
  "is_human (Human _) = True"
| "is_human _ = False"

fun tool_calls_of :: "msg \<Rightarrow> tool_call list" where
  "tool_calls_of (AI _ calls _) = calls"
| "tool_calls_of _ = []"

fun answers :: "msg \<Rightarrow> string list" where
  "answers (Tool _ cid _) = [cid]"
| "answers _ = []"

text \<open>The calls answered by the run of tool messages a list starts with.\<close>

definition replied :: "msg list \<Rightarrow> string set" where
  "replied ms = set (concat (map answers (takeWhile is_tool ms)))"

subsection \<open>Interrupted tool calls\<close>

definition interrupted :: "string \<Rightarrow> tool_call \<Rightarrow> msg" where
  "interrupted reason c = Tool (''Tool call interrupted: '' @ reason) (call_id c) True"

fun close_unanswered_tool_calls :: "string \<Rightarrow> msg list \<Rightarrow> msg list" where
  "close_unanswered_tool_calls reason [] = []"
| "close_unanswered_tool_calls reason (m # ms) =
     m # map (interrupted reason) (filter (\<lambda>c. call_id c \<notin> replied ms) (tool_calls_of m))
     @ close_unanswered_tool_calls reason ms"

text \<open>Providers accept a history in which every tool call is answered right after it.\<close>

fun answered :: "msg list \<Rightarrow> bool" where
  "answered [] = True"
| "answered (m # ms) = (call_id ` set (tool_calls_of m) \<subseteq> replied ms \<and> answered ms)"

lemma interrupted_tool [simp]: "is_tool (interrupted reason c)" "answers (interrupted reason c) = [call_id c]"
  "tool_calls_of (interrupted reason c) = []"
  by (simp_all add: interrupted_def)

lemma tool_calls_of_tool [simp]: "is_tool m \<Longrightarrow> tool_calls_of m = []"
  by (cases m) auto

lemma replied_Cons: "replied (m # ms) = (if is_tool m then set (answers m) \<union> replied ms else {})"
  by (auto simp: replied_def)

lemma replied_append_tools:
  "\<forall>m \<in> set ts. is_tool m \<Longrightarrow> replied (ts @ ms) = set (concat (map answers ts)) \<union> replied ms"
  by (induction ts) (auto simp: replied_Cons)

lemma replied_closed: "replied (close_unanswered_tool_calls reason ms) = replied ms"
proof (induction ms)
  case (Cons m ms)
  then show ?case by (cases "is_tool m") (simp_all add: replied_Cons)
qed simp

lemma answered_append_tools: "\<forall>m \<in> set ts. is_tool m \<Longrightarrow> answered (ts @ ms) = answered ms"
  by (induction ts) auto

lemma closed_answered: "answered (close_unanswered_tool_calls reason ms)"
proof (induction ms)
  case (Cons m ms)
  let ?new = "map (interrupted reason) (filter (\<lambda>c. call_id c \<notin> replied ms) (tool_calls_of m))"
  have t: "\<forall>x \<in> set ?new. is_tool x" by auto
  have "replied (?new @ close_unanswered_tool_calls reason ms)
      = call_id ` {c \<in> set (tool_calls_of m). call_id c \<notin> replied ms} \<union> replied ms"
    unfolding replied_append_tools [OF t] replied_closed by (auto simp: comp_def)
  then show ?case using Cons answered_append_tools [OF t] by auto
qed simp

lemma close_answered: "answered ms \<Longrightarrow> close_unanswered_tool_calls reason ms = ms"
proof (induction ms)
  case (Cons m ms)
  have "filter (\<lambda>c. call_id c \<notin> replied ms) (tool_calls_of m) = []"
    using Cons.prems by (auto simp: filter_empty_conv)
  then show ?case using Cons by simp
qed simp

subsection \<open>Units\<close>

function units :: "msg list \<Rightarrow> msg list list" where
  "units [] = []"
| "units (m # ms) =
     (if tool_calls_of m \<noteq> [] then (m # takeWhile is_tool ms) # units (dropWhile is_tool ms)
      else [m] # units ms)"
  by pat_completeness auto
termination
  by (relation "measure length") (auto simp: le_imp_less_Suc length_dropWhile_le)

record context_trim =
  ct_messages :: "msg list"
  ct_dropped :: nat
  ct_before :: int
  ct_after :: int
  ct_over_budget :: bool

definition estimate_tokens :: "(msg list \<Rightarrow> int) \<Rightarrow> msg list \<Rightarrow> int" where
  "estimate_tokens count ms = (if ms = [] then 0 else count ms)"

text \<open>The latest unit that opens with a user message, or the last unit.\<close>

fun last_user :: "msg list list \<Rightarrow> nat \<Rightarrow> nat option" where
  "last_user us 0 = None"
| "last_user us (Suc i) = (if is_human (hd (us ! i)) then Some i else last_user us i)"

definition anchor_of :: "msg list list \<Rightarrow> nat" where
  "anchor_of us = (case last_user us (length us) of Some i \<Rightarrow> i | None \<Rightarrow> length us - 1)"

text \<open>Going back from \<open>i\<close> to \<open>lo\<close> at most, while the unit before fits in what remains.\<close>

fun take_back :: "int list \<Rightarrow> nat \<Rightarrow> nat \<Rightarrow> int \<Rightarrow> nat \<times> int" where
  "take_back costs lo 0 remaining = (0, remaining)"
| "take_back costs lo (Suc i) remaining =
     (if lo < Suc i \<and> costs ! i \<le> remaining then take_back costs lo i (remaining - costs ! i)
      else (Suc i, remaining))"

text \<open>Going forward at most \<open>n\<close> units to one that opens with a user message.\<close>

fun skip_to_user :: "msg list list \<Rightarrow> nat \<Rightarrow> nat \<Rightarrow> nat" where
  "skip_to_user us i 0 = i"
| "skip_to_user us i (Suc n) = (if is_human (hd (us ! i)) then i else skip_to_user us (Suc i) n)"

definition tail_start :: "int list \<Rightarrow> nat \<Rightarrow> int \<Rightarrow> nat \<times> int" where
  "tail_start costs anchor remaining =
     (let n = length costs in
      if anchor + 1 < n then take_back costs (anchor + 1) (n - 1) (remaining - costs ! (n - 1))
      else (n, remaining))"

definition kept_units :: "(msg list \<Rightarrow> int) \<Rightarrow> msg list list \<Rightarrow> int \<Rightarrow> int \<Rightarrow> msg list list" where
  "kept_units count us max_tokens fixed_tokens =
     (let costs = map (estimate_tokens count) us;
          anchor = anchor_of us;
          (tl_start, remaining) = tail_start costs anchor (max_tokens - fixed_tokens - costs ! anchor);
          head0 = (if tl_start = anchor + 1 then fst (take_back costs 0 anchor remaining) else anchor);
          head_start = (if tl_start = anchor + 1 then skip_to_user us head0 (anchor - head0) else anchor)
      in drop head_start (take (anchor + 1) us) @ drop tl_start us)"

definition trim_history :: "(msg list \<Rightarrow> int) \<Rightarrow> msg list \<Rightarrow> int \<Rightarrow> int \<Rightarrow> context_trim" where
  "trim_history count history max_tokens fixed_tokens =
     (let before = fixed_tokens + estimate_tokens count history in
      if before \<le> max_tokens \<or> history = []
      then \<lparr>ct_messages = history, ct_dropped = 0, ct_before = before, ct_after = before,
            ct_over_budget = max_tokens < before\<rparr>
      else
        let kept = concat (kept_units count (units history) max_tokens fixed_tokens);
            after = fixed_tokens + estimate_tokens count kept
        in \<lparr>ct_messages = kept, ct_dropped = length history - length kept, ct_before = before,
            ct_after = after, ct_over_budget = max_tokens < after\<rparr>)"

subsection \<open>Facts about units\<close>

lemma concat_units [simp]: "concat (units ms) = ms"
  by (induction ms rule: units.induct) auto

lemma units_ne: "ms \<noteq> [] \<Longrightarrow> units ms \<noteq> []"
  by (cases ms) auto

definition unit_ok :: "msg list \<Rightarrow> bool" where
  "unit_ok u \<longleftrightarrow> u \<noteq> [] \<and> (\<forall>m \<in> set (tl u). is_tool m)
     \<and> call_id ` set (tool_calls_of (hd u)) \<subseteq> set (concat (map answers (tl u)))"

lemma unit_ok_answered: "unit_ok u \<Longrightarrow> answered ms \<Longrightarrow> answered (u @ ms)"
proof (cases u)
  case (Cons m ts)
  assume u: "unit_ok u" and a: "answered ms"
  then have t: "\<forall>x \<in> set ts. is_tool x" using Cons by (simp add: unit_ok_def)
  show ?thesis using u a Cons answered_append_tools [OF t] replied_append_tools [OF t, of ms]
    by (auto simp: unit_ok_def)
qed (simp add: unit_ok_def)

lemma units_ok_answered: "\<forall>u \<in> set us. unit_ok u \<Longrightarrow> answered (concat us)"
  by (induction us) (auto intro: unit_ok_answered)

lemma answered_dropWhile: "answered ms \<Longrightarrow> answered (dropWhile P ms)"
  by (induction ms) auto

lemma answered_units_ok: "answered ms \<Longrightarrow> \<forall>u \<in> set (units ms). unit_ok u"
proof (induction ms rule: units.induct)
  case (2 m ms)
  show ?case
  proof (cases "tool_calls_of m = []")
    case True
    then show ?thesis using 2 by (simp add: unit_ok_def)
  next
    case False
    have "unit_ok (m # takeWhile is_tool ms)"
      using "2.prems" by (auto simp: unit_ok_def replied_def dest: set_takeWhileD)
    then show ?thesis using 2 False by (simp add: answered_dropWhile)
  qed
qed simp

subsection \<open>What is kept\<close>

lemma last_user_less: "last_user us n = Some i \<Longrightarrow> i < n \<and> is_human (hd (us ! i)) \<and> (\<forall>j. i < j \<and> j < n \<longrightarrow> \<not> is_human (hd (us ! j)))"
  by (induction n) (auto simp: less_Suc_eq split: if_splits)

lemma last_user_None: "last_user us n = None \<longleftrightarrow> (\<forall>j < n. \<not> is_human (hd (us ! j)))"
  by (induction n) (auto simp: less_Suc_eq)

lemma anchor_less: "us \<noteq> [] \<Longrightarrow> anchor_of us < length us"
  by (auto simp: anchor_of_def dest: last_user_less split: option.splits)

lemma take_back_spec:
  assumes "take_back costs lo i r = (j, r')" and "i \<le> length costs"
  shows "j \<le> i \<and> (lo \<le> i \<longrightarrow> lo \<le> j) \<and> r' = r - sum_list (drop j (take i costs)) \<and> (j < i \<longrightarrow> 0 \<le> r')"
  using assms
proof (induction costs lo i r rule: take_back.induct)
  case (2 costs lo i remaining)
  show ?case
  proof (cases "lo < Suc i \<and> costs ! i \<le> remaining")
    case True
    then have tb: "take_back costs lo i (remaining - costs ! i) = (j, r')"
      using "2.prems" by simp
    have i: "i \<le> length costs" "i < length costs" using "2.prems" by simp_all
    note IH = "2.IH" [OF True tb i(1)]
    have "drop j (take (Suc i) costs) = drop j (take i costs) @ [costs ! i]"
      using IH i(2) by (simp add: take_Suc_conv_app_nth)
    then have s: "r' = remaining - sum_list (drop j (take (Suc i) costs))" using IH by simp
    have "0 \<le> r'"
    proof (cases "j < i")
      case False
      then show ?thesis using IH True by simp
    qed (use IH in simp)
    then show ?thesis using IH True s by auto
  next
    case False
    then show ?thesis using "2.prems" by auto
  qed
qed simp

lemma skip_to_user_range: "i \<le> skip_to_user us i n \<and> skip_to_user us i n \<le> i + n"
proof (induction us i n rule: skip_to_user.induct)
  case (2 us i n)
  then show ?case by auto
qed simp

lemma skip_to_user_human: "is_human (hd (us ! (i + n))) \<Longrightarrow> is_human (hd (us ! skip_to_user us i n))"
  by (induction us i n rule: skip_to_user.induct) auto

text \<open>The shape of the cut: what was left out of the front and of the middle.\<close>

definition cut_of :: "(msg list \<Rightarrow> int) \<Rightarrow> msg list list \<Rightarrow> int \<Rightarrow> int \<Rightarrow> nat \<times> nat" where
  "cut_of count us max_tokens fixed_tokens =
     (let costs = map (estimate_tokens count) us;
          anchor = anchor_of us;
          (tl_start, remaining) = tail_start costs anchor (max_tokens - fixed_tokens - costs ! anchor);
          head0 = (if tl_start = anchor + 1 then fst (take_back costs 0 anchor remaining) else anchor)
      in (if tl_start = anchor + 1 then skip_to_user us head0 (anchor - head0) else anchor, tl_start))"

lemma kept_units_cut:
  "kept_units count us max_tokens fixed_tokens =
     (case cut_of count us max_tokens fixed_tokens of (h, t) \<Rightarrow> drop h (take (anchor_of us + 1) us) @ drop t us)"
  by (simp add: kept_units_def cut_of_def Let_def split: prod.split)

lemma tail_start_spec:
  assumes "tail_start costs a r = (t, r')" and "a < length costs"
  shows "a < t \<and> t \<le> length costs \<and> (a + 1 < length costs \<longrightarrow> t < length costs)
    \<and> r' = r - sum_list (drop t costs) \<and> (t + 1 < length costs \<longrightarrow> 0 \<le> r')"
proof (cases "a + 1 < length costs")
  case True
  let ?n = "length costs"
  have tb: "take_back costs (a + 1) (?n - 1) (r - costs ! (?n - 1)) = (t, r')"
    using assms(1) True by (simp add: tail_start_def Let_def)
  from take_back_spec [OF tb] have s: "t \<le> ?n - 1" "a + 1 \<le> t"
    "r' = r - costs ! (?n - 1) - sum_list (drop t (take (?n - 1) costs))" "t < ?n - 1 \<longrightarrow> 0 \<le> r'"
    using True by auto
  have ne: "costs \<noteq> []" using True by auto
  have "drop t costs = drop t (butlast costs @ [last costs])"
    using ne by simp
  also have "\<dots> = drop t (butlast costs) @ [last costs]"
    using s(1) by simp
  also have "\<dots> = drop t (take (?n - 1) costs) @ [costs ! (?n - 1)]"
    using ne by (simp add: butlast_conv_take last_conv_nth)
  finally have "sum_list (drop t costs) = sum_list (drop t (take (?n - 1) costs)) + costs ! (?n - 1)"
    by simp
  then show ?thesis using s True by auto
next
  case False
  then show ?thesis using assms by (simp add: tail_start_def Let_def)
qed

lemma sum_drop_mono:
  assumes "\<forall>c \<in> set costs. 0 \<le> c" and "i \<le> j"
  shows "sum_list (drop j costs) \<le> (sum_list (drop i costs) :: int)"
proof -
  have "drop i costs = take (j - i) (drop i costs) @ drop j costs"
    using assms(2) by (metis append_take_drop_id drop_drop le_add_diff_inverse2)
  then have "sum_list (drop i costs) = sum_list (take (j - i) (drop i costs)) + sum_list (drop j costs)"
    by (metis sum_list_append)
  moreover have "0 \<le> sum_list (take (j - i) (drop i costs))"
    using assms(1) by (intro sum_list_nonneg) (meson in_set_dropD in_set_takeD)
  ultimately show ?thesis by simp
qed

lemma cut_spec:
  assumes "cut_of count us mx fx = (h, t)" and "us \<noteq> []"
  shows "h \<le> anchor_of us \<and> anchor_of us < t \<and> t \<le> length us
    \<and> (anchor_of us + 1 < length us \<longrightarrow> t < length us)
    \<and> (t \<noteq> anchor_of us + 1 \<longrightarrow> h = anchor_of us)
    \<and> (is_human (hd (us ! anchor_of us)) \<longrightarrow> is_human (hd (us ! h)))"
proof -
  let ?costs = "map (estimate_tokens count) us" and ?a = "anchor_of us"
  have al: "?a < length ?costs" using anchor_less [OF assms(2)] by simp
  obtain r where ts: "tail_start ?costs ?a (mx - fx - ?costs ! ?a) = (t, r)"
    and h: "h = (if t = ?a + 1 then skip_to_user us (fst (take_back ?costs 0 ?a r)) (?a - fst (take_back ?costs 0 ?a r)) else ?a)"
    using assms(1) by (auto simp: cut_of_def Let_def split: prod.splits if_splits)
  obtain h0 r0 where tb: "take_back ?costs 0 ?a r = (h0, r0)" by fastforce
  have "h0 \<le> ?a" using take_back_spec [OF tb] al by simp
  then show ?thesis
    using tail_start_spec [OF ts al] h tb skip_to_user_range [of h0 us "?a - h0"] skip_to_user_human [of us h0 "?a - h0"]
    by auto
qed

lemma cut_fits:
  assumes "cut_of count us mx fx = (h, t)" and "us \<noteq> []"
    and "\<forall>c \<in> set (map (estimate_tokens count) us). 0 \<le> c"
  shows "fx + sum_list (map (estimate_tokens count) (drop h (take (anchor_of us + 1) us) @ drop t us)) \<le> mx
    \<or> h = anchor_of us \<and> length us \<le> t + 1"
proof -
  let ?costs = "map (estimate_tokens count) us" and ?a = "anchor_of us"
  have al: "?a < length ?costs" using anchor_less [OF assms(2)] by simp
  obtain r where ts: "tail_start ?costs ?a (mx - fx - ?costs ! ?a) = (t, r)"
    and h: "h = (if t = ?a + 1 then skip_to_user us (fst (take_back ?costs 0 ?a r)) (?a - fst (take_back ?costs 0 ?a r)) else ?a)"
    using assms(1) by (auto simp: cut_of_def Let_def split: prod.splits if_splits)
  obtain h0 r0 where tb: "take_back ?costs 0 ?a r = (h0, r0)" by fastforce
  note tsp = tail_start_spec [OF ts al] and tbs = take_back_spec [OF tb less_imp_le [OF al]]
  have h0: "h0 \<le> ?a" using tbs by simp
  have hr: "t = ?a + 1 \<Longrightarrow> h0 \<le> h \<and> h \<le> ?a" "t \<noteq> ?a + 1 \<Longrightarrow> h = ?a"
    using h tb skip_to_user_range [of h0 us "?a - h0"] h0 by auto
  have hle: "h \<le> ?a" using hr by (cases "t = ?a + 1") auto
  have split: "drop h (take (?a + 1) ?costs) = drop h (take ?a ?costs) @ [?costs ! ?a]"
    using hle al by (simp add: take_Suc_conv_app_nth)
  have tot: "sum_list (map (estimate_tokens count) (drop h (take (?a + 1) us) @ drop t us))
      = sum_list (drop h (take ?a ?costs)) + ?costs ! ?a + sum_list (drop t ?costs)"
    using arg_cong [OF split, of sum_list] by (simp add: drop_map take_map)
  have rr: "r = mx - fx - ?costs ! ?a - sum_list (drop t ?costs)" using tsp by blast
  show ?thesis
  proof (cases "h = ?a")
    case True
    then have "sum_list (drop h (take ?a ?costs)) = 0" by simp
    then show ?thesis using tot rr tsp True by (cases "t + 1 < length us") auto
  next
    case False
    then have t: "t = ?a + 1" using hr(2) by blast
    have "h0 < ?a" using hr(1) [OF t] False by linarith
    then have "0 \<le> r - sum_list (drop h0 (take ?a ?costs))" using tbs by simp
    moreover have "sum_list (drop h (take ?a ?costs)) \<le> sum_list (drop h0 (take ?a ?costs))"
    proof (rule sum_drop_mono)
      show "\<forall>c \<in> set (take ?a ?costs). 0 \<le> c" using assms(3) by (meson in_set_takeD)
    qed (use hr(1) [OF t] in blast)
    ultimately show ?thesis using tot rr by linarith
  qed
qed

lemma kept_subset: "set (kept_units count us mx fx) \<subseteq> set us"
  by (auto simp: kept_units_cut dest: in_set_dropD in_set_takeD split: prod.splits)

lemma trim_keeps_answered:
  assumes "answered history"
  shows "answered (ct_messages (trim_history count history mx fx))"
proof -
  have "answered (concat (kept_units count (units history) mx fx))"
    using answered_units_ok [OF assms] kept_subset by (blast intro: units_ok_answered)
  then show ?thesis using assms by (simp add: trim_history_def Let_def)
qed

text \<open>The estimate adds up over messages and is not negative.\<close>

definition additive_count :: "(msg list \<Rightarrow> int) \<Rightarrow> bool" where
  "additive_count count \<longleftrightarrow> (\<forall>xs ys. count (xs @ ys) = count xs + count ys) \<and> (\<forall>xs. 0 \<le> count xs)"

lemma additive_estimate:
  assumes "additive_count count"
  shows "estimate_tokens count = count" and "0 \<le> count ms"
    and "count (concat us) = sum_list (map count us)"
proof -
  have "count [] = count [] + count []" using assms unfolding additive_count_def by (metis append_Nil)
  then have n: "count [] = 0" by simp
  show "estimate_tokens count = count" by (rule ext) (simp add: estimate_tokens_def n)
  show "0 \<le> count ms" using assms by (simp add: additive_count_def)
  show "count (concat us) = sum_list (map count us)"
    using assms n by (induction us) (simp_all add: additive_count_def)
qed

subsection \<open>Properties\<close>

text \<open>
  What the model sees is a history providers accept: after an interrupted turn's open tool calls
  are closed and the history is trimmed to any budget, every tool call is answered right after it;
  closing leaves a history that was whole as it is, and closing twice is closing once.
\<close>

theorem model_history_answered:
  "answered (ct_messages (trim_history count (close_unanswered_tool_calls reason ms) mx fx))
   \<and> (answered ms \<longrightarrow> close_unanswered_tool_calls reason ms = ms)
   \<and> close_unanswered_tool_calls reason' (close_unanswered_tool_calls reason ms)
       = close_unanswered_tool_calls reason ms"
  using trim_keeps_answered closed_answered close_answered by blast

theorem model_history_answered_witness:
  "close_unanswered_tool_calls ''t'' [AI ''a'' [\<lparr>call_name = ''f'', call_args = [], call_id = ''1''\<rparr>] None, Tool ''x'' ''1'' False]
     = [AI ''a'' [\<lparr>call_name = ''f'', call_args = [], call_id = ''1''\<rparr>] None, Tool ''x'' ''1'' False]"
proof -
  have "answered [AI ''a'' [\<lparr>call_name = ''f'', call_args = [], call_id = ''1''\<rparr>] None, Tool ''x'' ''1'' False]"
    by code_simp
  then show ?thesis using model_history_answered by blast
qed

text \<open>
  What trimming keeps: whole units only, a run of units up to the anchor and a run at the end;
  the anchor (the latest user message, or the last unit) and the newest unit are always kept;
  earlier history only together with the whole current turn; the kept history opens with a user
  message whenever there is one; and a request above the budget carries nothing but the anchor and
  the newest unit.
\<close>

theorem trim_rules:
  assumes "additive_count count" and "history \<noteq> []" and "mx < fx + count history"
  shows "\<exists>h t. (let us = units history; a = anchor_of us; kept = drop h (take (a + 1) us) @ drop t us in
     ct_messages (trim_history count history mx fx) = concat kept
     \<and> h \<le> a \<and> a < t \<and> us ! a \<in> set kept \<and> last us \<in> set kept
     \<and> (h < a \<longrightarrow> t = a + 1)
     \<and> (is_human (hd (us ! a)) \<longrightarrow> is_human (hd (hd kept)))
     \<and> (ct_over_budget (trim_history count history mx fx) \<longrightarrow> set kept \<subseteq> {us ! a, last us} \<and> length kept \<le> 2))"
proof -
  let ?us = "units history" and ?a = "anchor_of (units history)"
  have ne: "?us \<noteq> []" by (rule units_ne [OF assms(2)])
  obtain h t where c: "cut_of count ?us mx fx = (h, t)" by fastforce
  note cs = cut_spec [OF c ne]
  let ?kept = "drop h (take (?a + 1) ?us) @ drop t ?us"
  have al: "?a < length ?us" by (rule anchor_less [OF ne])
  have tr: "trim_history count history mx fx =
      \<lparr>ct_messages = concat ?kept, ct_dropped = length history - length (concat ?kept),
       ct_before = fx + count history, ct_after = fx + count (concat ?kept),
       ct_over_budget = mx < fx + count (concat ?kept)\<rparr>"
    using assms(2,3) by (simp add: trim_history_def Let_def kept_units_cut c additive_estimate(1) [OF assms(1)])
  have front: "drop h (take (?a + 1) ?us) = drop h (take ?a ?us) @ [?us ! ?a]"
    using al cs by (simp add: take_Suc_conv_app_nth)
  have newest: "last ?us \<in> set ?kept"
  proof (cases "t < length ?us")
    case True
    then have "last ?us = last (drop t ?us) \<and> drop t ?us \<noteq> []" by simp
    then show ?thesis by (metis Un_iff last_in_set set_append)
  next
    case False
    then have "?a = length ?us - 1" using cs al by linarith
    then show ?thesis using front ne by (simp add: last_conv_nth)
  qed
  have hd: "hd ?kept = ?us ! h"
  proof -
    have "h < length (take (?a + 1) ?us)" using cs al by simp
    then have "drop h (take (?a + 1) ?us) \<noteq> [] \<and> hd (drop h (take (?a + 1) ?us)) = ?us ! h"
      by (simp add: hd_drop_conv_nth min_le_iff_disj not_le)
    then show ?thesis by (metis hd_append2)
  qed
  have tight: "set ?kept \<subseteq> {?us ! ?a, last ?us} \<and> length ?kept \<le> 2"
    if "mx < fx + count (concat ?kept)"
  proof -
    have nn: "\<forall>c \<in> set (map (estimate_tokens count) ?us). 0 \<le> c"
      using additive_estimate [OF assms(1)] by simp
    have "count (concat ?kept) = sum_list (map (estimate_tokens count) ?kept)"
      by (simp only: additive_estimate(1,3) [OF assms(1)])
    then have "\<not> fx + sum_list (map (estimate_tokens count) ?kept) \<le> mx"
      using that by linarith
    then have m: "h = ?a" "length ?us \<le> t + 1"
      using cut_fits [OF c ne nn] by blast+
    have "drop t ?us = [] \<or> drop t ?us = [last ?us]"
    proof (cases "t < length ?us")
      case True
      then have "length (drop t ?us) = 1" and l: "last (drop t ?us) = last ?us" using m(2) by simp_all
      then show ?thesis by (metis One_nat_def Suc_length_conv last_ConsL length_0_conv)
    qed simp
    then show ?thesis using front m by auto
  qed
  have "?us ! ?a \<in> set ?kept" using front by simp
  moreover have "h < ?a \<longrightarrow> t = ?a + 1" using cs by linarith
  moreover have "is_human (hd (?us ! ?a)) \<longrightarrow> is_human (hd (hd ?kept))" unfolding hd using cs by blast
  moreover have "ct_messages (trim_history count history mx fx) = concat ?kept"
    "ct_over_budget (trim_history count history mx fx) = (mx < fx + count (concat ?kept))"
    by (simp_all only: tr context_trim.select_convs)
  ultimately show ?thesis using cs newest tight unfolding Let_def by blast
qed

definition char_count :: "msg list \<Rightarrow> int" where
  "char_count ms = int (length (concat (map (\<lambda>m. case m of System s \<Rightarrow> s | Human s \<Rightarrow> s | AI s _ _ \<Rightarrow> s | Tool s _ _ \<Rightarrow> s) ms)))"

theorem trim_rules_witness:
  "\<exists>h t. let us = units [Human ''old'', AI ''long answer'' [] None, Human ''now''] in
     ct_messages (trim_history char_count [Human ''old'', AI ''long answer'' [] None, Human ''now''] 4 0)
       = concat (drop h (take (anchor_of us + 1) us) @ drop t us)
     \<and> h \<le> anchor_of us"
proof -
  have a: "additive_count char_count" by (simp add: additive_count_def char_count_def)
  have b: "4 < 0 + char_count [Human ''old'', AI ''long answer'' [] None, Human ''now'']"
    by (simp add: char_count_def)
  show ?thesis using trim_rules [OF a _ b] unfolding Let_def by blast
qed

end
