(* ===== verification/Turn_Limits.thy ===== *)
theory Turn_Limits
  imports Definitions Exec_Limits Usage Conversation
begin

section \<open>What a turn may use, and what it used\<close>

text \<open>
  The pure parts of \<open>agent/graph.py\<close>: the limits a turn runs with, the token usage it reports, its
  cost and the budget gate.  Prices and costs are exact numbers.
\<close>

subsection \<open>Effective limits\<close>

definition ENFORCED_LIMIT_KEYS :: "string list" where
  "ENFORCED_LIMIT_KEYS = [''max_tool_calls'', ''max_tool_errors'', ''total_execution_timeout_s'',
     ''tool_call_timeout_s'', ''max_context_tokens'']"

text \<open>\<open>min(a, b)\<close> of Python: anything but two numbers is a \<open>TypeError\<close>.\<close>

definition num_min :: "pyval \<Rightarrow> pyval \<Rightarrow> pyval res" where
  "num_min a b = (if is_number a \<and> is_number b then Inr (py_min a b) else Inl (TypeErr ''min''))"

text \<open>A float that is infinite or not a number.\<close>

definition non_finite :: "pyval \<Rightarrow> bool" where
  "non_finite v = (v \<in> {PPosInf, PNegInf, PNaN})"

definition base_limit :: "dict \<Rightarrow> string \<Rightarrow> pyval" where
  "base_limit caps key =
     (case map_of caps key of Some v \<Rightarrow> v | None \<Rightarrow> dget PLATFORM_DEFAULT_LIMITS key)"

definition merge_limit :: "dict \<Rightarrow> dict \<Rightarrow> dict \<Rightarrow> string \<Rightarrow> dict res" where
  "merge_limit declared caps merged key =
     (let v = dget declared key in
      if v = PNone then Inr merged
      else if non_finite v then Inl (ValueErr key)
      else case map_of caps key of
             None \<Rightarrow> Inr (dset merged key v)
           | Some c \<Rightarrow> bindR (num_min v c) (\<lambda>m. Inr (dset merged key m)))"

definition effective_limits :: "dict \<Rightarrow> dict \<Rightarrow> dict res" where
  "effective_limits declared caps =
     bindR (foldR (merge_limit declared caps) (map (\<lambda>k. (k, base_limit caps k)) ENFORCED_LIMIT_KEYS)
              ENFORCED_LIMIT_KEYS) (\<lambda>merged.
       if ''tool_call_timeout_s'' \<notin> set (dkeys caps) \<and> dget declared ''tool_call_timeout_s'' = PNone
       then bindR (num_min (dget merged ''tool_call_timeout_s'') (dget merged ''total_execution_timeout_s'')) (\<lambda>m.
              Inr (dset merged ''tool_call_timeout_s'' m))
       else Inr merged)"

text \<open>\<open>_tighter\<close>: the ceilings have been validated, so every value is a number.\<close>

definition tighter_item :: "dict \<Rightarrow> string \<times> pyval \<Rightarrow> dict" where
  "tighter_item merged kv =
     (case map_of merged (fst kv) of
        None \<Rightarrow> dset merged (fst kv) (snd kv)
      | Some v \<Rightarrow> dset merged (fst kv) (py_min (snd kv) v))"

definition tighter :: "dict list \<Rightarrow> dict" where
  "tighter ceilings = foldl (foldl tighter_item) [] ceilings"

subsection \<open>Usage and cost\<close>

record turn_usage =
  tu_model_calls :: "nat option"
  tu_input :: "int option"
  tu_output :: "int option"
  tu_total :: "int option"
  tu_cost :: "rat option"

definition UNKNOWN_TURN_USAGE :: turn_usage where
  "UNKNOWN_TURN_USAGE = \<lparr>tu_model_calls = None, tu_input = None, tu_output = None, tu_total = None, tu_cost = None\<rparr>"

definition MAX_PLAUSIBLE_TURN_TOKENS :: int where "MAX_PLAUSIBLE_TURN_TOKENS = 100000000"

definition is_plausible_token_count :: "int \<Rightarrow> bool" where
  "is_plausible_token_count v = (0 \<le> v \<and> v \<le> MAX_PLAUSIBLE_TURN_TOKENS)"

definition plausible_entry :: "usage_metadata \<Rightarrow> bool" where
  "plausible_entry e = (is_plausible_token_count (um_input e) \<and> is_plausible_token_count (um_output e)
     \<and> is_plausible_token_count (um_total e))"

definition aggregate_turn_usage :: "usage_metadata option list \<Rightarrow> turn_usage" where
  "aggregate_turn_usage entries =
     (let calls = length entries; known = List.map_filter id entries in
      if calls = 0 \<or> length known \<noteq> calls \<or> \<not> list_all plausible_entry known
      then UNKNOWN_TURN_USAGE\<lparr>tu_model_calls := Some calls\<rparr>
      else \<lparr>tu_model_calls = Some calls, tu_input = Some (sum_list (map um_input known)),
            tu_output = Some (sum_list (map um_output known)), tu_total = Some (sum_list (map um_total known)),
            tu_cost = None\<rparr>)"

record model_price =
  input_per_million :: rat
  output_per_million :: rat

definition compute_turn_cost :: "turn_usage \<Rightarrow> string option \<Rightarrow> (string \<times> model_price) list \<Rightarrow> rat option" where
  "compute_turn_cost usage model_id prices =
     (case (model_id, tu_input usage, tu_output usage) of
        (Some m, Some i, Some out) \<Rightarrow>
          if \<not> is_plausible_token_count i \<or> \<not> is_plausible_token_count out then None
          else map_option (\<lambda>p. of_int i / 1000000 * input_per_million p + of_int out / 1000000 * output_per_million p)
                 (map_of prices m)
      | _ \<Rightarrow> None)"

subsection \<open>The budget gate\<close>

text \<open>
  What the gate counts on top of the ledger: the running turn's own usage, zero where unknown.
  Before the graph runs (\<open>None\<close>) nothing is pending.
\<close>

definition pending_usage ::
  "string option \<Rightarrow> (string \<times> model_price) list \<Rightarrow> usage_metadata option list option \<Rightarrow> usage_totals" where
  "pending_usage model_id prices entries =
     (case entries of
        None \<Rightarrow> \<lparr>ut_tokens = 0, ut_cost = 0, ut_turns = 0, ut_unpriced = 0\<rparr>
      | Some es \<Rightarrow>
          let usage = aggregate_turn_usage es in
          \<lparr>ut_tokens = or_zero (tu_total usage), ut_cost = or_zero (compute_turn_cost usage model_id prices),
           ut_turns = 0, ut_unpriced = 0\<rparr>)"

text \<open>The refusal message when a cap is reached; \<open>totals\<close> reads the ledger as it is at \<open>now\<close>.\<close>

definition budget_gate ::
  "budget_caps \<Rightarrow> (pair \<Rightarrow> datetime \<Rightarrow> usage_totals) \<Rightarrow> datetime \<Rightarrow> pair
   \<Rightarrow> string option \<Rightarrow> (string \<times> model_price) list \<Rightarrow> usage_metadata option list option \<Rightarrow> string option" where
  "budget_gate caps totals now p model_id prices entries =
     (case reached_cap totals caps p (pending_usage model_id prices entries) now of
        None \<Rightarrow> None
      | Some _ \<Rightarrow> Some (refusal_message caps))"

subsection \<open>Facts about the limits\<close>

lemma merge_limit_other: "merge_limit declared caps merged k = Inr m \<Longrightarrow> k' \<noteq> k \<Longrightarrow> dget m k' = dget merged k'"
  by (auto simp: merge_limit_def Let_def dget_def bindR_eq_Inr split: if_splits option.splits)

lemma merge_limit_this:
  assumes "merge_limit declared caps merged k = Inr m"
  shows "if dget declared k = PNone then dget m k = dget merged k
     else \<not> non_finite (dget declared k) \<and>
       (case map_of caps k of None \<Rightarrow> dget m k = dget declared k
        | Some c \<Rightarrow> num_min (dget declared k) c = Inr (dget m k))"
  using assms by (auto simp: merge_limit_def Let_def dget_def bindR_eq_Inr split: if_splits option.splits)

lemma merge_limits_lookup:
  assumes "foldR (merge_limit declared caps) merged ks = Inr m" and "distinct ks" and "k \<in> set ks"
  shows "if dget declared k = PNone then dget m k = dget merged k
     else \<not> non_finite (dget declared k) \<and>
       (case map_of caps k of None \<Rightarrow> dget m k = dget declared k
        | Some c \<Rightarrow> num_min (dget declared k) c = Inr (dget m k))"
proof -
  have other: "dget m' k = dget m0 k" if "foldR (merge_limit declared caps) m0 xs = Inr m'" "k \<notin> set xs" for xs m0 m'
    using that by (induction xs arbitrary: m0) (auto simp: bindR_eq_Inr dest: merge_limit_other)
  obtain as bs where ks: "ks = as @ k # bs" "k \<notin> set as" "k \<notin> set bs"
    using assms(2,3) by (metis distinct.simps(2) distinct_append in_set_conv_decomp_first)
  obtain m1 m2 where m: "foldR (merge_limit declared caps) merged as = Inr m1"
      "merge_limit declared caps m1 k = Inr m2" "foldR (merge_limit declared caps) m2 bs = Inr m"
    using assms(1) unfolding ks(1) by (auto simp: foldR_append bindR_eq_Inr)
  have "dget m1 k = dget merged k" "dget m k = dget m2 k" using other m(1,3) ks(2,3) by blast+
  then show ?thesis using merge_limit_this [OF m(2)] by (auto split: if_splits option.splits)
qed

lemma num_min_le: "num_min a b = Inr m \<Longrightarrow> a \<noteq> PNaN \<Longrightarrow> b \<noteq> PNaN \<Longrightarrow> py_le m a \<and> py_le m b"
  using py_min_le by (auto simp: num_min_def split: if_splits)

lemma num_min_left: "num_min (PInt i) b = Inr m \<Longrightarrow> py_le m (PInt i)"
  by (cases b) (auto simp: num_min_def py_min_def py_lt_def py_le_def split: if_splits)

lemma base_limit_lookup: "k \<in> set ENFORCED_LIMIT_KEYS \<Longrightarrow>
    dget (map (\<lambda>k. (k, base_limit caps k)) ENFORCED_LIMIT_KEYS) k = base_limit caps k"
  by (auto simp: ENFORCED_LIMIT_KEYS_def dget_def)

lemma merged_limit:
  assumes "foldR (merge_limit declared caps) (map (\<lambda>k. (k, base_limit caps k)) ENFORCED_LIMIT_KEYS)
      ENFORCED_LIMIT_KEYS = Inr m"
    and "k \<in> set ENFORCED_LIMIT_KEYS" and "\<forall>(k, v) \<in> set caps. v \<noteq> PNaN"
  shows "(\<forall>c. map_of caps k = Some c \<longrightarrow> py_le (dget m k) c)
     \<and> (map_of caps k = None \<longrightarrow>
          dget m k = (if dget declared k = PNone then dget PLATFORM_DEFAULT_LIMITS k else dget declared k))
     \<and> (dget declared k \<noteq> PNone \<longrightarrow> \<not> non_finite (dget declared k)
          \<and> (map_of caps k \<noteq> None \<longrightarrow> py_le (dget m k) (dget declared k)))"
proof -
  have nan: "c \<noteq> PNaN" if "map_of caps k = Some c" for c using assms(3) map_of_SomeD [OF that] by auto
  have "distinct ENFORCED_LIMIT_KEYS" by (simp add: ENFORCED_LIMIT_KEYS_def)
  note l = merge_limits_lookup [OF assms(1) this assms(2), unfolded base_limit_lookup [OF assms(2)]]
  show ?thesis
  proof (cases "map_of caps k")
    case None
    then show ?thesis using l by (auto simp: base_limit_def split: if_splits)
  next
    case (Some c)
    then have "c \<noteq> PNaN" by (rule nan)
    moreover have "\<not> non_finite v \<Longrightarrow> v \<noteq> PNaN" for v by (auto simp: non_finite_def)
    ultimately show ?thesis
      using l Some num_min_le [of "dget declared k" c "dget m k"]
      by (auto simp: base_limit_def py_le_refl split: if_splits)
  qed
qed

subsection \<open>Properties\<close>

text \<open>
  The limits a turn runs with.  A limit the deployment sets is never exceeded, and where the
  definition sets it too the definition's value is a second bound; without the deployment's value
  the definition's own counts, and without either the platform default.  A tool call that nobody
  gave a time has at most the platform's and at most the turn's.  No enforced limit is infinite or
  NaN by the definition's doing.
\<close>

theorem effective_limits_bounded:
  assumes "effective_limits declared caps = Inr eff" and "\<forall>(k, v) \<in> set caps. v \<noteq> PNaN"
    and "k \<in> set ENFORCED_LIMIT_KEYS"
  shows "(\<forall>c. map_of caps k = Some c \<longrightarrow> py_le (dget eff k) c)
     \<and> (dget declared k \<noteq> PNone \<longrightarrow> \<not> non_finite (dget declared k)
          \<and> (if map_of caps k = None then dget eff k = dget declared k else py_le (dget eff k) (dget declared k)))
     \<and> (dget declared k = PNone \<and> map_of caps k = None \<longrightarrow>
          (if k = ''tool_call_timeout_s''
           then py_le (dget eff k) (dget PLATFORM_DEFAULT_LIMITS k)
                \<and> (dget eff ''total_execution_timeout_s'' \<noteq> PNaN \<longrightarrow>
                     py_le (dget eff k) (dget eff ''total_execution_timeout_s''))
           else dget eff k = dget PLATFORM_DEFAULT_LIMITS k))"
proof -
  let ?tool = "''tool_call_timeout_s''" and ?turn = "''total_execution_timeout_s''"
  obtain m where m: "foldR (merge_limit declared caps) (map (\<lambda>k. (k, base_limit caps k)) ENFORCED_LIMIT_KEYS)
      ENFORCED_LIMIT_KEYS = Inr m"
    and e: "if ?tool \<notin> set (dkeys caps) \<and> dget declared ?tool = PNone
       then \<exists>x. num_min (dget m ?tool) (dget m ?turn) = Inr x \<and> eff = dset m ?tool x else eff = m"
    using assms(1) by (auto simp: effective_limits_def bindR_eq_Inr split: if_splits)
  note b = merged_limit [OF m _ assms(2)]
  have keys: "?tool \<in> set ENFORCED_LIMIT_KEYS" "?turn \<in> set ENFORCED_LIMIT_KEYS" by (simp_all add: ENFORCED_LIMIT_KEYS_def)
  show ?thesis
  proof (cases "?tool \<notin> set (dkeys caps) \<and> dget declared ?tool = PNone")
    case False
    then have "eff = m" using e by simp
    moreover have "\<not> (k = ?tool \<and> dget declared k = PNone \<and> map_of caps k = None)"
      using False map_of_None_dkeys by metis
    ultimately show ?thesis using b [OF assms(3)] by auto
  next
    case True
    then obtain x where x: "num_min (dget m ?tool) (dget m ?turn) = Inr x" "eff = dset m ?tool x" using e by auto
    have none: "map_of caps ?tool = None" using True by (simp add: map_of_None_dkeys)
    have t: "dget m ?tool = PInt 10" using b [OF keys(1)] none True by (simp add: PLATFORM_DEFAULT_LIMITS_def dget_def)
    have eff: "dget eff k' = (if k' = ?tool then x else dget m k')" for k' using x(2) by (simp add: dget_def)
    show ?thesis
    proof (cases "k = ?tool")
      case True
      have "py_le x (PInt 10)" using x(1) unfolding t by (rule num_min_left)
      moreover have "dget m ?turn \<noteq> PNaN \<Longrightarrow> py_le x (dget m ?turn)" using num_min_le [OF x(1)] t by simp
      ultimately show ?thesis using True none \<open>?tool \<notin> set (dkeys caps) \<and> dget declared ?tool = PNone\<close> eff
        by (simp add: PLATFORM_DEFAULT_LIMITS_def dget_def)
    qed (use b [OF assms(3)] eff in auto)
  qed
qed

theorem effective_limits_bounded_witness:
  "\<exists>eff. effective_limits [(''max_tool_calls'', PInt 50)] [(''max_tool_calls'', PInt 30), (''total_execution_timeout_s'', PInt 5)]
       = Inr eff \<and> py_le (dget eff ''max_tool_calls'') (PInt 30)
     \<and> py_le (dget eff ''tool_call_timeout_s'') (dget eff ''total_execution_timeout_s'')"
proof -
  let ?d = "[(''max_tool_calls'', PInt 50)]"
  let ?c = "[(''max_tool_calls'', PInt 30), (''total_execution_timeout_s'', PInt 5)]"
  have "(case effective_limits ?d ?c of Inr eff \<Rightarrow> dget eff ''total_execution_timeout_s'' = PInt 5 | Inl _ \<Rightarrow> False)"
    by code_simp
  then obtain eff where e: "effective_limits ?d ?c = Inr eff" "dget eff ''total_execution_timeout_s'' = PInt 5"
    by (auto split: sum.splits)
  have "\<forall>(k, v) \<in> set ?c. v \<noteq> PNaN" by simp
  note b = effective_limits_bounded [OF e(1) this]
  have "py_le (dget eff ''max_tool_calls'') (PInt 30)"
    using b [of "''max_tool_calls''"] by (simp add: ENFORCED_LIMIT_KEYS_def)
  moreover have "py_le (dget eff ''tool_call_timeout_s'') (dget eff ''total_execution_timeout_s'')"
    using b [of "''tool_call_timeout_s''"] e(2) by (simp add: ENFORCED_LIMIT_KEYS_def dget_def)
  ultimately show ?thesis using e(1) by blast
qed

lemma known_all: "length (List.map_filter id es) = length es \<longleftrightarrow> None \<notin> set es"
proof -
  have le: "length (List.map_filter id es) \<le> length es" for es :: "'a option list"
    by (induction es) (auto simp: map_filter_simps split: option.splits)
  show ?thesis
  proof (induction es)
    case (Cons e es)
    then show ?case using le [of es] by (cases e) (auto simp: map_filter_simps id_def)
  qed (simp add: map_filter_simps)
qed

lemma known_some: "es = map Some us \<Longrightarrow> List.map_filter id es = us"
  by (induction us arbitrary: es) (auto simp: map_filter_simps)

lemma none_missing: "None \<notin> set es \<Longrightarrow> \<exists>us. es = map Some us"
  by (induction es) (auto simp: image_iff, metis list.simps(9) not_None_eq)

text \<open>
  Usage is never guessed.  A turn reports a token total exactly when it made a model call, every
  call reported its usage and every reported number is plausible; the total is then the sum over
  all calls, and it lies between zero and the plausible most for that many calls.
\<close>

theorem usage_is_never_guessed:
  "tu_total (aggregate_turn_usage entries) = Some t \<longleftrightarrow>
     (\<exists>us. entries = map Some us \<and> us \<noteq> [] \<and> list_all plausible_entry us
        \<and> t = sum_list (map um_total us) \<and> 0 \<le> t \<and> t \<le> MAX_PLAUSIBLE_TURN_TOKENS * int (length us))"
proof (cases "None \<in> set entries")
  case True
  then have "tu_total (aggregate_turn_usage entries) = None"
    by (simp add: aggregate_turn_usage_def known_all UNKNOWN_TURN_USAGE_def)
  then show ?thesis using True by auto
next
  case False
  then obtain us where us: "entries = map Some us" using none_missing by blast
  have sums: "\<forall>u \<in> set us. plausible_entry u \<Longrightarrow>
      0 \<le> sum_list (map um_total us) \<and> sum_list (map um_total us) \<le> MAX_PLAUSIBLE_TURN_TOKENS * int (length us)"
    by (induction us) (auto simp: plausible_entry_def is_plausible_token_count_def algebra_simps)
  have "tu_total (aggregate_turn_usage entries)
      = (if us \<noteq> [] \<and> (\<forall>u \<in> set us. plausible_entry u) then Some (sum_list (map um_total us)) else None)"
    unfolding aggregate_turn_usage_def known_some [OF us]
    by (auto simp: us UNKNOWN_TURN_USAGE_def list_all_iff Let_def)
  then show ?thesis using sums by (auto simp: us inj_map_eq_map list_all_iff)
qed

text \<open>
  The gap in the gate before a retry.  After a malformed tool call the code checks the cap again,
  with the failed attempt recorded as an unknown entry; but one unknown entry makes the whole
  turn's usage unknown, so this check counts nothing the turn spent: it answers as if the turn had
  not started, although the check just before, without the entry, may refuse.
\<close>

theorem retry_gate_forgets_the_turn:
  "budget_gate caps totals now p model_id prices (Some (entries @ [None]))
     = budget_gate caps totals now p model_id prices None"
proof -
  have "length (List.map_filter id (entries @ [None])) \<noteq> length (entries @ [None])"
    using known_all [of "entries @ [None]"] by simp
  then have "aggregate_turn_usage (entries @ [None]) = UNKNOWN_TURN_USAGE\<lparr>tu_model_calls := Some (Suc (length entries))\<rparr>"
    by (simp add: aggregate_turn_usage_def)
  then have "pending_usage model_id prices (Some (entries @ [None])) = pending_usage model_id prices None"
    by (cases model_id) (simp_all add: pending_usage_def UNKNOWN_TURN_USAGE_def or_zero_def compute_turn_cost_def Let_def)
  then show ?thesis by (simp add: budget_gate_def)
qed

lemma retry_gate_demo:
  "budget_gate (demo_caps\<lparr>refusal_message := ''no''\<rparr>) (ledger_totals []) (2025, 3, 10, 9) (''shop'', ''ana'') None []
     (Some [Some \<lparr>um_input = 90, um_output = 20, um_total = 110\<rparr>]) = Some ''no''
   \<and> budget_gate (demo_caps\<lparr>refusal_message := ''no''\<rparr>) (ledger_totals []) (2025, 3, 10, 9) (''shop'', ''ana'') None []
     (Some [Some \<lparr>um_input = 90, um_output = 20, um_total = 110\<rparr>, None]) = None"
  by code_simp

end
