(* ===== verification/Agent_Graph.thy ===== *)
theory Agent_Graph
  imports Interceptor Turn_Limits Untrusted_Blocks
begin

section \<open>The agent loop\<close>

text \<open>
  The graph of \<open>agent/graph.py\<close> with \<open>agent/tool_errors.py\<close>: the nodes \<open>call_model\<close>,
  \<open>execute_tools\<close>, \<open>limit_reached\<close> and \<open>tool_errors_reached\<close>, their routing, and the run of a
  compiled graph under its recursion limit.  The model, with and without its tools bound, is a
  parameter that answers a list of messages in a world it may change, or raises; so are the token
  estimates, \<open>json.dumps\<close> and, through the interceptor, the connectors.  Metrics, audit events and
  the requests made go into one list of events, in order.
\<close>

subsection \<open>Tool errors\<close>

definition MAX_ERROR_MESSAGE_CHARS :: nat where "MAX_ERROR_MESSAGE_CHARS = 300"

fun err_class :: "err \<Rightarrow> string" where
  "err_class (DefinitionError _) = ''DefinitionError''"
| "err_class (ValueErr _) = ''ValueError''"
| "err_class (TypeErr _) = ''TypeError''"
| "err_class (KeyErr _) = ''KeyError''"
| "err_class (RuntimeErr _) = ''RuntimeError''"
| "err_class InvalidPermissionTierError = ''InvalidPermissionTierError''"
| "err_class UnknownPermissionNameError = ''UnknownPermissionNameError''"
| "err_class PermissionRegistrationCollisionError = ''PermissionRegistrationCollisionError''"
| "err_class (PermissionTierMismatchError _) = ''PermissionTierMismatchError''"
| "err_class PermissionFloorViolationError = ''PermissionFloorViolationError''"
| "err_class (UntrustedInputGrantError _) = ''UntrustedInputGrantError''"
| "err_class (MemoryPolicyError _) = ''MemoryPolicyError''"
| "err_class (ToolNotFoundError _) = ''ToolNotFoundError''"
| "err_class (InjectionError _) = ''InjectionError''"
| "err_class (FactoryError _) = ''FactoryError''"
| "err_class (PolicyViolation _ _) = ''PolicyViolation''"
| "err_class OutboxLeaseLostError = ''OutboxLeaseLostError''"
| "err_class (ScheduleRejected _) = ''ScheduleRejected''"
| "err_class (Raised c _) = c"

fun err_text :: "err \<Rightarrow> string" where
  "err_text (DefinitionError m) = m"
| "err_text (ValueErr m) = m"
| "err_text (TypeErr m) = m"
| "err_text (KeyErr m) = m"
| "err_text (RuntimeErr m) = m"
| "err_text (PermissionTierMismatchError m) = m"
| "err_text (UntrustedInputGrantError m) = m"
| "err_text (MemoryPolicyError m) = m"
| "err_text (ToolNotFoundError m) = m"
| "err_text (InjectionError m) = m"
| "err_text (FactoryError m) = m"
| "err_text (PolicyViolation n r) = ''Tool call blocked'' @ n @ r"
| "err_text (ScheduleRejected m) = m"
| "err_text (Raised _ m) = m"
| "err_text _ = []"

text \<open>
  The classes that abort a turn: \<open>AgentPermissionError\<close> with the subclasses the platform
  declares, and the five decisions of other modules.  \<open>Raised c m\<close> stands for any other exception
  by the name of its class.
\<close>

definition ABORTING :: "string list" where
  "ABORTING = [''AgentPermissionError'', ''InvalidPermissionTierError'', ''UnknownPermissionNameError'',
     ''PermissionRegistrationCollisionError'', ''PermissionTierMismatchError'',
     ''PermissionFloorViolationError'', ''UntrustedInputGrantError'',
     ''ProactivePermissionError'', ''RecipientNotAuthorizedError'', ''QueryRejectedError'',
     ''UnsafeQueryRoleError'', ''UnfencedRoleError'']"

definition aborting :: "err \<Rightarrow> bool" where
  "aborting e = (err_class e \<in> set ABORTING)"

definition is_timeout :: "err \<Rightarrow> bool" where
  "is_timeout e = (err_class e = ''TimeoutError'')"

definition tool_error_text :: "string \<Rightarrow> err \<Rightarrow> string" where
  "tool_error_text tool_name e =
     (let flat = collapse_ws (err_text e);
          detail = (if MAX_ERROR_MESSAGE_CHARS < length flat
                    then rstrip (take MAX_ERROR_MESSAGE_CHARS flat) @ ''...'' else flat);
          head = ''Tool '' @ str_repr tool_name @ '' failed: '' @ err_class e
      in if detail \<noteq> [] then head @ '': '' @ detail else head)"

subsection \<open>State and environment\<close>

record graph_state =
  gs_messages :: "msg list"
  gs_tool_calls :: nat
  gs_tool_errors :: nat
  gs_usage :: "usage_metadata option list"
  gs_refused :: bool

datatype turn_event =
    Audit audit_event
  | ToolMetric string string
  | LimitTrip string
  | ContextTrimmed context_trim
  | BlocksOmitted
  | ModelRequest bool "msg list"
  | BudgetRefused
  | CheckpointerDegraded string
  | TurnMetric string
  | RuntimeTimeout
  | UsageRecordFailed
  | ThreadSaved string "msg list"
  | UsageRecorded usage_record

type_synonym reply = "string \<times> tool_call list \<times> usage_metadata option"

record ('c, 's, 'h, 'w) graph_env =
  ge_registry :: registry
  ge_runtime :: "'c runtime"
  ge_caller :: "('c, 's, 'h, 'w, pyval) caller"
  ge_permissions :: "string list"
  ge_bound_model :: "msg list \<Rightarrow> 'w \<Rightarrow> reply res \<times> 'w"
  ge_base_model :: "msg list \<Rightarrow> 'w \<Rightarrow> reply res \<times> 'w"
  ge_gate :: "(usage_metadata option list option \<Rightarrow> 'w \<Rightarrow> string option res) option"
  ge_count :: "msg list \<Rightarrow> int"
  ge_fixed_count :: "msg list \<Rightarrow> int"
  ge_max_context :: "int option"
  ge_untrusted_text :: string
  ge_max_tool_calls :: int
  ge_max_tool_errors :: int
  ge_tool_error_reply :: string
  ge_tool_timeout :: pyval
  ge_json :: "pyval \<Rightarrow> string res"

subsection \<open>The model node\<close>

definition EARLIER_TURN :: string where
  "EARLIER_TURN = ''the tool did not return a result in an earlier turn''"

definition report_trim :: "context_trim \<Rightarrow> turn_event list" where
  "report_trim t =
     (if 0 < ct_dropped t \<or> ct_over_budget t then [LimitTrip ''max_context_tokens'', ContextTrimmed t] else [])"

text \<open>The request: system message, untrusted blocks where they fit, repaired and trimmed history.\<close>

definition model_input :: "('c, 's, 'h, 'w) graph_env \<Rightarrow> msg list \<Rightarrow> msg list \<times> turn_event list" where
  "model_input e messages =
     (let history = close_unanswered_tool_calls EARLIER_TURN messages;
          sys = System (rt_system_prompt (ge_runtime e));
          leading = sys # (if ge_untrusted_text e \<noteq> [] then [Human (ge_untrusted_text e)] else [])
      in case ge_max_context e of
           None \<Rightarrow> (leading @ history, [])
         | Some most \<Rightarrow>
             let t = trim_history (ge_count e) history most (ge_fixed_count e leading);
                 bare = trim_history (ge_count e) history most (ge_fixed_count e [sys])
             in if ge_untrusted_text e \<noteq> [] \<and> ct_over_budget t \<and> \<not> ct_over_budget bare
                then (sys # ct_messages bare, BlocksOmitted # report_trim bare)
                else (leading @ ct_messages t, report_trim t))"

definition is_tool_format_error :: "err \<Rightarrow> bool" where
  "is_tool_format_error x =
     (sublist ''tool_use_failed'' (err_text x) \<or> sublist ''tool call validation failed'' (err_text x))"

text \<open>The gate of the environment, when there is one and the turn has made a call.\<close>

definition ask_gate ::
  "('c, 's, 'h, 'w) graph_env \<Rightarrow> usage_metadata option list \<Rightarrow> 'w \<Rightarrow> string option res" where
  "ask_gate e usage w = (case ge_gate e of None \<Rightarrow> Inr None | Some gate \<Rightarrow> gate (Some usage) w)"

definition refused_state :: "graph_state \<Rightarrow> usage_metadata option list \<Rightarrow> string \<Rightarrow> graph_state" where
  "refused_state s usage refusal =
     s\<lparr>gs_messages := gs_messages s @ [AI refusal [] None], gs_usage := usage, gs_refused := True\<rparr>"

definition answered_state :: "graph_state \<Rightarrow> usage_metadata option list \<Rightarrow> reply \<Rightarrow> graph_state" where
  "answered_state s attempts r =
     (case r of (text, calls, usage) \<Rightarrow>
        s\<lparr>gs_messages := gs_messages s @ [AI text calls usage], gs_usage := gs_usage s @ attempts @ [usage]\<rparr>)"

definition retry_without_tools ::
  "('c, 's, 'h, 'w) graph_env \<Rightarrow> graph_state \<Rightarrow> msg list \<Rightarrow> 'w \<Rightarrow> graph_state res \<times> 'w \<times> turn_event list" where
  "retry_without_tools e s input w =
     (case ask_gate e (gs_usage s @ [None]) w of
        Inl x \<Rightarrow> (Inl x, w, [])
      | Inr (Some refusal) \<Rightarrow> (Inr (refused_state s (gs_usage s @ [None]) refusal), w, [BudgetRefused])
      | Inr None \<Rightarrow>
          (case ge_base_model e input w of
             (Inl x, w') \<Rightarrow> (Inl x, w', [ModelRequest False input])
           | (Inr r, w') \<Rightarrow> (Inr (answered_state s [None] r), w', [ModelRequest False input])))"

definition request_model ::
  "('c, 's, 'h, 'w) graph_env \<Rightarrow> graph_state \<Rightarrow> 'w \<Rightarrow> graph_state res \<times> 'w \<times> turn_event list" where
  "request_model e s w =
     (case model_input e (gs_messages s) of (input, evs) \<Rightarrow>
        (case ge_bound_model e input w of
           (Inr r, w') \<Rightarrow> (Inr (answered_state s [] r), w', evs @ [ModelRequest True input])
         | (Inl x, w') \<Rightarrow>
             if is_tool_format_error x
             then (case retry_without_tools e s input w' of
                     (r, w'', evs') \<Rightarrow> (r, w'', evs @ [ModelRequest True input] @ evs'))
             else (Inl x, w', evs @ [ModelRequest True input])))"

definition call_model ::
  "('c, 's, 'h, 'w) graph_env \<Rightarrow> graph_state \<Rightarrow> 'w \<Rightarrow> graph_state res \<times> 'w \<times> turn_event list" where
  "call_model e s w =
     (case (if gs_usage s \<noteq> [] then ask_gate e (gs_usage s) w else Inr None) of
        Inl x \<Rightarrow> (Inl x, w, [])
      | Inr (Some refusal) \<Rightarrow> (Inr (refused_state s (gs_usage s) refusal), w, [BudgetRefused])
      | Inr None \<Rightarrow> request_model e s w)"

subsection \<open>The tool node\<close>

definition UNRECOGNIZED_TOOL_LABEL :: string where "UNRECOGNIZED_TOOL_LABEL = ''_unrecognized_''"

fun is_container :: "pyval \<Rightarrow> bool" where
  "is_container (PDict _) = True"
| "is_container (PList _) = True"
| "is_container _ = False"

definition tool_content :: "('c, 's, 'h, 'w) graph_env \<Rightarrow> pyval call_result \<Rightarrow> string res" where
  "tool_content e r = (if is_container (cr_output r) then ge_json e (cr_output r) else Inr (py_str (cr_output r)))"

fun policy_reason :: "err \<Rightarrow> string option" where
  "policy_reason (PolicyViolation _ reason) = Some reason"
| "policy_reason _ = None"

text \<open>What one call becomes: its tool message and whether it counts as an error, or the turn aborts.\<close>

definition tool_reply :: "('c, 's, 'h, 'w) graph_env \<Rightarrow> tool_call \<Rightarrow> string res \<Rightarrow> (msg \<times> nat) res \<times> turn_event" where
  "tool_reply e c r =
     (let name = call_name c; cid = call_id c in
      case r of
        Inr content \<Rightarrow> (Inr (Tool content cid False, 0), ToolMetric name ''ok'')
      | Inl x \<Rightarrow>
          if is_timeout x
          then (Inr (Tool (''Tool call timed out after '' @ py_str (ge_tool_timeout e) @ ''s'') cid True, 1),
                ToolMetric name ''timeout'')
          else (case policy_reason x of
                  Some reason \<Rightarrow>
                    (Inr (Tool (''Tool call blocked: '' @ reason) cid True, 0),
                     if reason = ''not_in_surface'' then ToolMetric UNRECOGNIZED_TOOL_LABEL ''denied''
                     else ToolMetric name ''blocked'')
                | None \<Rightarrow>
                    (if aborting x then Inl x else Inr (Tool (tool_error_text name x) cid True, 1),
                     ToolMetric name ''error'')))"

fun run_tools ::
  "('c, 's, 'h, 'w) graph_env \<Rightarrow> tool_call list \<Rightarrow> 'w \<Rightarrow> (msg list \<times> nat) res \<times> 'w \<times> turn_event list" where
  "run_tools e [] w = (Inr ([], 0), w, [])"
| "run_tools e (c # cs) w =
     (case intercept (ge_registry e) (ge_caller e) (call_name c) (call_args c) (ge_runtime e)
             (Some (ge_permissions e)) w of
        (r, w', audit) \<Rightarrow>
          (case tool_reply e c (bindR r (tool_content e)) of
             (Inl x, metric) \<Rightarrow> (Inl x, w', map Audit audit @ [metric])
           | (Inr (m, k), metric) \<Rightarrow>
               (case run_tools e cs w' of
                  (Inl x, w'', evs) \<Rightarrow> (Inl x, w'', map Audit audit @ [metric] @ evs)
                | (Inr (ms, n), w'', evs) \<Rightarrow> (Inr (m # ms, k + n), w'', map Audit audit @ [metric] @ evs))))"

definition execute_tools ::
  "('c, 's, 'h, 'w) graph_env \<Rightarrow> graph_state \<Rightarrow> 'w \<Rightarrow> graph_state res \<times> 'w \<times> turn_event list" where
  "execute_tools e s w =
     (let calls = tool_calls_of (last (gs_messages s)) in
      case run_tools e calls w of
        (Inl x, w', evs) \<Rightarrow> (Inl x, w', evs)
      | (Inr (ms, n), w', evs) \<Rightarrow>
          (Inr (s\<lparr>gs_messages := gs_messages s @ ms, gs_tool_calls := gs_tool_calls s + length calls,
                 gs_tool_errors := gs_tool_errors s + n\<rparr>), w', evs))"

definition LIMIT_REPLY :: string where
  "LIMIT_REPLY = ''I could not complete this within the allowed number of steps. Please rephrase or try again.''"

definition limit_reached :: "graph_state \<Rightarrow> graph_state \<times> turn_event list" where
  "limit_reached s = (s\<lparr>gs_messages := gs_messages s @ [AI LIMIT_REPLY [] None]\<rparr>, [LimitTrip ''max_tool_calls''])"

definition tool_errors_reached :: "string \<Rightarrow> graph_state \<Rightarrow> graph_state \<times> turn_event list" where
  "tool_errors_reached reply s =
     (s\<lparr>gs_messages := gs_messages s @ [AI reply [] None]\<rparr>, [LimitTrip ''max_tool_errors''])"

subsection \<open>Routing and the run\<close>

datatype node = CallModel | ExecuteTools | LimitReached | ToolErrorsReached | Finish

definition after_tools :: "graph_state \<Rightarrow> int \<Rightarrow> node" where
  "after_tools s max_tool_errors =
     (if max_tool_errors \<le> int (gs_tool_errors s) then ToolErrorsReached else CallModel)"

definition route :: "graph_state \<Rightarrow> int \<Rightarrow> node" where
  "route s max_tool_calls =
     (if tool_calls_of (last (gs_messages s)) = [] then Finish
      else if max_tool_calls \<le> int (gs_tool_calls s) then LimitReached
      else ExecuteTools)"

fun run_node ::
  "('c, 's, 'h, 'w) graph_env \<Rightarrow> node \<Rightarrow> graph_state \<Rightarrow> 'w \<Rightarrow> graph_state res \<times> 'w \<times> turn_event list" where
  "run_node e CallModel s w = call_model e s w"
| "run_node e ExecuteTools s w = execute_tools e s w"
| "run_node e LimitReached s w = (case limit_reached s of (s', evs) \<Rightarrow> (Inr s', w, evs))"
| "run_node e ToolErrorsReached s w =
     (case tool_errors_reached (ge_tool_error_reply e) s of (s', evs) \<Rightarrow> (Inr s', w, evs))"
| "run_node e Finish s w = (Inr s, w, [])"

fun next_node :: "('c, 's, 'h, 'w) graph_env \<Rightarrow> node \<Rightarrow> graph_state \<Rightarrow> node" where
  "next_node e CallModel s = route s (ge_max_tool_calls e)"
| "next_node e ExecuteTools s = after_tools s (ge_max_tool_errors e)"
| "next_node e _ s = Finish"

datatype run_outcome = Completed | OutOfSteps | DeadlineHit | Failed err

text \<open>
  The run of the compiled graph: at most \<open>steps\<close> super-steps, and cut off in the step after
  \<open>cut\<close> completed ones when the deadline of the turn expires there; what the interrupted step had
  already changed in the world is given with the cut.  The state is that after the last completed
  step, which is what \<open>_run_tracking_progress\<close> keeps.
\<close>

fun run_graph ::
  "('c, 's, 'h, 'w) graph_env \<Rightarrow> nat \<Rightarrow> (nat \<times> ('w \<Rightarrow> 'w)) option \<Rightarrow> node \<Rightarrow> graph_state \<Rightarrow> 'w \<Rightarrow> turn_event list
   \<Rightarrow> run_outcome \<times> graph_state \<times> 'w \<times> turn_event list" where
  "run_graph e steps cut_off Finish s w evs = (Completed, s, w, evs)"
| "run_graph e 0 cut_off n s w evs = (OutOfSteps, s, w, evs)"
| "run_graph e (Suc steps) (Some (0, partial)) n s w evs = (DeadlineHit, s, partial w, evs)"
| "run_graph e (Suc steps) cut_off n s w evs =
     (case run_node e n s w of
        (Inl x, w', new) \<Rightarrow> (Failed x, s, w', evs @ new)
      | (Inr s', w', new) \<Rightarrow>
          run_graph e steps (map_option (\<lambda>(k, partial). (k - 1, partial)) cut_off) (next_node e n s') s' w' (evs @ new))"

definition recursion_limit :: "int \<Rightarrow> nat" where
  "recursion_limit max_tool_calls = nat (2 * max_tool_calls + 10)"

subsection \<open>What each node does\<close>

lemma ask_gate_None: "ask_gate e us w = Inr None \<longleftrightarrow> (\<forall>g. ge_gate e = Some g \<longrightarrow> g (Some us) w = Inr None)"
  by (auto simp: ask_gate_def split: option.splits)

definition model_step :: "graph_state \<Rightarrow> graph_state \<Rightarrow> bool" where
  "model_step s s' \<longleftrightarrow> (\<exists>t calls u. gs_messages s' = gs_messages s @ [AI t calls u])
     \<and> gs_tool_calls s' = gs_tool_calls s \<and> gs_tool_errors s' = gs_tool_errors s"

lemma model_stepI: "model_step s (refused_state s us r)" "model_step s (answered_state s us reply)"
  by (auto simp: model_step_def refused_state_def answered_state_def split: prod.splits)

lemma call_model_cases:
  assumes "call_model e s w = (Inr s', w', evs)"
  obtains (refused) r where "gs_usage s \<noteq> []" "ask_gate e (gs_usage s) w = Inr (Some r)"
      "s' = refused_state s (gs_usage s) r" "evs = [BudgetRefused]"
  | (answered) reply input ev where "gs_usage s \<noteq> [] \<longrightarrow> ask_gate e (gs_usage s) w = Inr None"
      "model_input e (gs_messages s) = (input, ev)" "s' = answered_state s [] reply" "evs = ev @ [ModelRequest True input]"
  | (retry_refused) r input ev w1 where "gs_usage s \<noteq> [] \<longrightarrow> ask_gate e (gs_usage s) w = Inr None"
      "model_input e (gs_messages s) = (input, ev)"
      "s' = refused_state s (gs_usage s @ [None]) r" "evs = ev @ [ModelRequest True input, BudgetRefused]"
  | (retried) reply input ev w1 where "gs_usage s \<noteq> [] \<longrightarrow> ask_gate e (gs_usage s) w = Inr None"
      "model_input e (gs_messages s) = (input, ev)" "ask_gate e (gs_usage s @ [None]) w1 = Inr None"
      "s' = answered_state s [None] reply" "evs = ev @ [ModelRequest True input, ModelRequest False input]"
proof (cases "if gs_usage s \<noteq> [] then ask_gate e (gs_usage s) w else Inr None")
  case (Inl x)
  then show ?thesis using assms by (simp add: call_model_def)
next
  case (Inr g)
  show ?thesis
  proof (cases g)
    case (Some r)
    then have "gs_usage s \<noteq> []" "ask_gate e (gs_usage s) w = Inr (Some r)" using Inr by (auto split: if_splits)
    then show ?thesis using assms refused by (simp add: call_model_def)
  next
    case None
    then have rq: "request_model e s w = (Inr s', w', evs)" using Inr assms by (simp add: call_model_def)
    have g0: "gs_usage s \<noteq> [] \<longrightarrow> ask_gate e (gs_usage s) w = Inr None" using Inr None by auto
    obtain input ev where i: "model_input e (gs_messages s) = (input, ev)" by fastforce
    show ?thesis
    proof (cases "ge_bound_model e input w")
      case (Pair b w1)
      show ?thesis
      proof (cases b)
        case (Inr r)
        then show ?thesis using rq i Pair answered [OF g0 i, of r] by (auto simp: request_model_def)
      next
        case (Inl x)
        then obtain s1 w2 ev2 where rt: "retry_without_tools e s input w1 = (Inr s1, w2, ev2)"
          "s1 = s'" "evs = ev @ [ModelRequest True input] @ ev2"
          using rq i Pair by (auto simp: request_model_def split: if_splits prod.splits)
        from rt(1) consider
          (a) r where "s1 = refused_state s (gs_usage s @ [None]) r" "ev2 = [BudgetRefused]"
        | (b) r where "ask_gate e (gs_usage s @ [None]) w1 = Inr None" "s1 = answered_state s [None] r"
            "ev2 = [ModelRequest False input]"
          unfolding retry_without_tools_def by (auto split: sum.splits option.splits prod.splits)
        then show ?thesis
        proof cases
          case a
          then show ?thesis using retry_refused [OF g0 i, of r] rt by simp
        next
          case b
          then show ?thesis using retried [OF g0 i b(1), of r] rt by simp
        qed
      qed
    qed
  qed
qed

lemma call_model_step: "call_model e s w = (Inr s', w', evs) \<Longrightarrow> model_step s s'"
  by (erule call_model_cases) (simp_all add: model_stepI)

lemma tool_reply_Inr:
  assumes "tool_reply e c r = (Inr (m, k), ev)"
  shows "is_tool m \<and> answers m = [call_id c] \<and> k \<le> 1"
  using assms by (auto simp: tool_reply_def Let_def split: sum.splits if_splits option.splits)

lemma run_tools_Inr:
  "run_tools e cs w = (Inr (ms, n), w', evs) \<Longrightarrow>
     (\<forall>m \<in> set ms. is_tool m) \<and> map answers ms = map (\<lambda>c. [call_id c]) cs \<and> n \<le> length cs"
proof (induction cs arbitrary: w ms n w' evs)
  case (Cons c cs)
  then show ?case
    by (fastforce dest: tool_reply_Inr split: prod.splits sum.splits)
qed simp

lemma execute_tools_Inr:
  assumes "execute_tools e s w = (Inr s', w', evs)"
  obtains ms n where "gs_messages s' = gs_messages s @ ms" "\<forall>m \<in> set ms. is_tool m"
    "map answers ms = map (\<lambda>c. [call_id c]) (tool_calls_of (last (gs_messages s)))"
    "gs_tool_calls s' = gs_tool_calls s + length (tool_calls_of (last (gs_messages s)))"
    "gs_tool_errors s' = gs_tool_errors s + n" "n \<le> length (tool_calls_of (last (gs_messages s)))"
    "gs_usage s' = gs_usage s" "gs_refused s' = gs_refused s"
  using assms run_tools_Inr
  by (fastforce simp: execute_tools_def Let_def split: prod.splits sum.splits)

subsection \<open>Invariants of a run\<close>

text \<open>
  What holds of node and state at the entry of the graph and is kept by every node that returns
  holds where the run stops; an event every node emits is one of the run.
\<close>

lemma run_graph_stop: "n \<noteq> Finish \<Longrightarrow> run_graph e 0 co n s w evs = (OutOfSteps, s, w, evs)"
  by (cases n) simp_all

definition next_cut :: "(nat \<times> ('w \<Rightarrow> 'w)) option \<Rightarrow> (nat \<times> ('w \<Rightarrow> 'w)) option" where
  "next_cut co = map_option (\<lambda>(k, partial). (k - 1, partial)) co"

lemma run_graph_step:
  assumes "n \<noteq> Finish"
  shows "run_graph e (Suc steps) co n s w evs =
     (case co of Some (0, partial) \<Rightarrow> (DeadlineHit, s, partial w, evs)
      | _ \<Rightarrow> (case run_node e n s w of
          (Inl x, w', new) \<Rightarrow> (Failed x, s, w', evs @ new)
        | (Inr s', w', new) \<Rightarrow> run_graph e steps (next_cut co) (next_node e n s') s' w' (evs @ new)))"
proof -
  obtain k p where "co = None \<or> co = Some (0, p) \<or> co = Some (Suc k, p)"
    by (cases co) (auto, metis not0_implies_Suc old.prod.exhaust)
  then show ?thesis using assms by (cases n) (auto simp: next_cut_def split: sum.splits prod.splits)
qed

lemma run_graph_finish: "run_graph e steps co Finish s w evs = (Completed, s, w, evs)"
  by simp

declare run_graph.simps [simp del] run_node.simps [simp del]

lemma run_graph_cases:
  assumes "run_graph e steps co n s w evs = (out, s', w', evs')"
  obtains (finish) "n = Finish" "out = Completed" "s' = s" "w' = w" "evs' = evs"
  | (stop) "n \<noteq> Finish" "steps = 0" "out = OutOfSteps" "s' = s" "w' = w" "evs' = evs"
  | (deadline) p where "n \<noteq> Finish" "co = Some (0, p)" "out = DeadlineHit" "s' = s" "w' = p w" "evs' = evs"
  | (failed) x new where "n \<noteq> Finish" "run_node e n s w = (Inl x, w', new)" "out = Failed x" "s' = s" "evs' = evs @ new"
  | (step) k s1 w1 new where "n \<noteq> Finish" "steps = Suc k" "run_node e n s w = (Inr s1, w1, new)"
      "run_graph e k (next_cut co) (next_node e n s1) s1 w1 (evs @ new) = (out, s', w', evs')"
proof (cases "n = Finish")
  case False
  show ?thesis
  proof (cases steps)
    case 0
    then show ?thesis using assms False stop by (simp add: run_graph_stop)
  next
    case (Suc k)
    show ?thesis
    proof (cases "\<exists>p. co = Some (0, p)")
      case True
      then show ?thesis using assms False Suc deadline by (auto simp: run_graph_step)
    next
      case co: False
      obtain r w1 new where r: "run_node e n s w = (r, w1, new)" by (metis prod_cases3)
      have eq: "(case r of Inl x \<Rightarrow> (Failed x, s, w1, evs @ new)
          | Inr s1 \<Rightarrow> run_graph e k (next_cut co) (next_node e n s1) s1 w1 (evs @ new)) = (out, s', w', evs')"
        using assms co unfolding Suc run_graph_step [OF False] r
        by (cases co) (auto split: sum.splits nat.splits)
      show ?thesis
      proof (cases r)
        case (Inl x)
        then have "out = Failed x" "s' = s" "w1 = w'" "evs' = evs @ new" using eq by simp_all
        then show ?thesis using failed [OF False] r unfolding Inl by blast
      next
        case (Inr s1)
        have "run_node e n s w = (Inr s1, w1, new)" using r unfolding Inr .
        moreover have "run_graph e k (next_cut co) (next_node e n s1) s1 w1 (evs @ new) = (out, s', w', evs')"
          using eq unfolding Inr by simp
        ultimately show ?thesis by (rule step [OF False Suc])
      qed
    qed
  qed
qed (use assms finish in \<open>simp add: run_graph_finish\<close>)

lemma run_invariant:
  assumes "run_graph e steps co n s w evs = (out, s', w', evs')" and "I n s"
    and "\<And>n s w s1 w1 new. I n s \<Longrightarrow> n \<noteq> Finish \<Longrightarrow> run_node e n s w = (Inr s1, w1, new) \<Longrightarrow> I (next_node e n s1) s1"
  shows "\<exists>n'. I n' s' \<and> (out = Completed \<longrightarrow> n' = Finish)"
  using assms(1,2)
proof (induction steps arbitrary: co n s w evs)
  case 0
  from 0(1) show ?case by (cases rule: run_graph_cases) (use 0(2-) in auto)
next
  case (Suc steps)
  from Suc.prems(1) show ?case
  proof (cases rule: run_graph_cases)
    case (step k s1 w1 new)
    then show ?thesis using Suc.IH assms(3) [OF Suc.prems(2) step(1,3)] by auto
  qed (use Suc.prems(2) in auto)
qed

lemma run_events:
  assumes "run_graph e steps co n s w evs = (out, s', w', evs')" and "ev \<in> set evs'" and "ev \<notin> set evs"
  shows "\<exists>n0 s0 w0 r w1 new. n0 \<noteq> Finish \<and> run_node e n0 s0 w0 = (r, w1, new) \<and> ev \<in> set new"
  using assms
proof (induction steps arbitrary: co n s w evs)
  case 0
  from 0(1) show ?case
  proof (cases rule: run_graph_cases)
    case (failed x new)
    then show ?thesis using 0(2,3) by auto blast
  qed (use 0(2,3) in auto)
next
  case (Suc steps)
  from Suc.prems(1) show ?case
  proof (cases rule: run_graph_cases)
    case (step k s1 w1 new)
    show ?thesis
    proof (cases "ev \<in> set new")
      case False
      then show ?thesis using Suc.IH step(2,4) Suc.prems(2,3) by auto
    qed (use step in blast)
  next
    case (failed x new)
    then show ?thesis using Suc.prems(2,3) by auto blast
  qed (use Suc.prems(2,3) in auto)
qed

subsection \<open>Bounds of the loop\<close>

definition entered :: "('c, 's, 'h, 'w) graph_env \<Rightarrow> node \<Rightarrow> graph_state \<Rightarrow> bool" where
  "entered e n s \<longleftrightarrow> (n = ExecuteTools \<longrightarrow>
     int (gs_tool_calls s) < ge_max_tool_calls e \<and> tool_calls_of (last (gs_messages s)) \<noteq> [])"

fun steps_left :: "('c, 's, 'h, 'w) graph_env \<Rightarrow> node \<Rightarrow> graph_state \<Rightarrow> nat" where
  "steps_left e CallModel s = 2 * nat (ge_max_tool_calls e - int (gs_tool_calls s)) + 2"
| "steps_left e ExecuteTools s = 2 * nat (ge_max_tool_calls e - int (gs_tool_calls s)) + 1"
| "steps_left e LimitReached s = 1"
| "steps_left e ToolErrorsReached s = 1"
| "steps_left e Finish s = 0"

lemma node_progress:
  assumes "entered e n s" and "n \<noteq> Finish" and "run_node e n s w = (Inr s', w', evs)"
  shows "steps_left e (next_node e n s') s' < steps_left e n s \<and> entered e (next_node e n s') s'"
proof (cases n)
  case CallModel
  then have "gs_tool_calls s' = gs_tool_calls s"
    using assms(3) call_model_step by (fastforce simp: run_node.simps model_step_def)
  then show ?thesis by (simp add: CallModel route_def entered_def)
next
  case ExecuteTools
  have x: "execute_tools e s w = (Inr s', w', evs)" using assms(3) ExecuteTools by (simp add: run_node.simps)
  have c: "int (gs_tool_calls s) < ge_max_tool_calls e" "tool_calls_of (last (gs_messages s)) \<noteq> []"
    using assms(1) ExecuteTools by (simp_all add: entered_def)
  have "gs_tool_calls s' = gs_tool_calls s + length (tool_calls_of (last (gs_messages s)))"
    by (rule execute_tools_Inr [OF x])
  then have "gs_tool_calls s < gs_tool_calls s'" using c(2) by simp
  then show ?thesis using c(1) by (auto simp: ExecuteTools after_tools_def entered_def)
qed (use assms in \<open>auto simp: entered_def\<close>)

lemma enough_steps:
  assumes "run_graph e steps co n s w evs = (out, s', w', evs')" and "entered e n s" and "steps_left e n s \<le> steps"
  shows "out \<noteq> OutOfSteps"
  using assms
proof (induction steps arbitrary: co n s w evs)
  case 0
  from 0(1) show ?case
    by (cases rule: run_graph_cases) (use 0(2,3) in \<open>auto elim: steps_left.elims\<close>)
next
  case (Suc steps)
  from Suc.prems(1) show ?case
  proof (cases rule: run_graph_cases)
    case (step k s1 w1 new)
    from node_progress [OF Suc.prems(2) step(1,3)] show ?thesis
      using Suc.IH [of "next_cut co"] step(2,4) Suc.prems(3) by auto
  qed auto
qed

text \<open>
  C6 A turn ends.  Whatever the model answers and whatever the tools do, the graph of a turn never
  runs into its recursion limit: with \<open>max_tool_calls\<close> at least zero it completes, fails with an
  exception of a node or is cut off by the deadline within \<open>2 * max_tool_calls + 10\<close> steps.
\<close>

theorem turn_ends_within_recursion_limit:
  assumes "run_graph e (recursion_limit (ge_max_tool_calls e)) co CallModel s w evs = (out, s', w', evs')"
    and "0 \<le> ge_max_tool_calls e"
  shows "out = Completed \<or> (\<exists>x. out = Failed x) \<or> (co \<noteq> None \<and> out = DeadlineHit)"
proof -
  have "entered e CallModel s" by (simp add: entered_def)
  moreover have "steps_left e CallModel s \<le> recursion_limit (ge_max_tool_calls e)"
    using assms(2) by (simp add: recursion_limit_def)
  ultimately have "out \<noteq> OutOfSteps" using enough_steps [OF assms(1)] by blast
  moreover have "out = DeadlineHit \<Longrightarrow> co \<noteq> None" if "run_graph e k co n s w evs = (out, s', w', evs')" for k n s w evs co
    using that
  proof (induction k arbitrary: n s w evs co)
    case 0
    from 0(2) show ?case by (cases rule: run_graph_cases) (use 0(1) in auto)
  next
    case (Suc k)
    from Suc.prems(2) show ?case
    proof (cases rule: run_graph_cases)
      case (step k' s1 w1 new)
      then have "next_cut co \<noteq> None" using Suc by blast
      then show ?thesis by (auto simp: next_cut_def)
    qed (use Suc.prems(1) in auto)
  qed
  ultimately show ?thesis using assms(1) by (cases out) auto
qed

subsection \<open>Replies\<close>

definition ends_with_reply :: "msg list \<Rightarrow> bool" where
  "ends_with_reply ms \<longleftrightarrow> (\<exists>front t u. ms = front @ [AI t [] u])"

lemma limit_step: "run_node e LimitReached s w = (Inr s', w', evs) \<Longrightarrow> gs_messages s' = gs_messages s @ [AI LIMIT_REPLY [] None] \<and> gs_tool_calls s' = gs_tool_calls s \<and> gs_usage s' = gs_usage s"
  by (auto simp: run_node.simps limit_reached_def)

lemma errors_step: "run_node e ToolErrorsReached s w = (Inr s', w', evs) \<Longrightarrow>
    gs_messages s' = gs_messages s @ [AI (ge_tool_error_reply e) [] None] \<and> gs_tool_calls s' = gs_tool_calls s \<and> gs_usage s' = gs_usage s"
  by (auto simp: run_node.simps tool_errors_reached_def)

lemma completed_reply:
  assumes "run_graph e steps co CallModel s w evs = (Completed, s', w', evs')"
  shows "ends_with_reply (gs_messages s')"
proof -
  have "\<exists>n'. (n' = Finish \<longrightarrow> ends_with_reply (gs_messages s')) \<and> (Completed = Completed \<longrightarrow> n' = Finish)"
  proof (rule run_invariant [OF assms, of "\<lambda>n s. n = Finish \<longrightarrow> ends_with_reply (gs_messages s)"])
    fix n s w s1 w1 new
    assume r: "run_node e n s w = (Inr s1, w1, new)" and n: "n \<noteq> Finish"
    show "next_node e n s1 = Finish \<longrightarrow> ends_with_reply (gs_messages s1)"
    proof (cases n)
      case CallModel
      then have "model_step s s1" using r call_model_step by (simp add: run_node.simps)
      then show ?thesis by (auto simp: CallModel route_def model_step_def ends_with_reply_def split: if_splits)
    qed (use n r limit_step [of e s w s1] errors_step [of e s w s1] in \<open>auto simp: after_tools_def ends_with_reply_def split: if_splits\<close>)
  qed simp
  then show ?thesis by blast
qed

subsection \<open>The history of a run\<close>

lemma replied_mono: "replied xs \<subseteq> replied (xs @ ys)"
  by (induction xs) (auto simp: replied_Cons replied_def)

lemma answered_append: "answered xs \<Longrightarrow> answered ys \<Longrightarrow> answered (xs @ ys)"
  using replied_mono by (induction xs) (simp, fastforce)

lemma answered_tools: "\<forall>m \<in> set ts. is_tool m \<Longrightarrow> answered ts"
  by (induction ts) auto

lemma answered_round:
  assumes "\<forall>m \<in> set ts. is_tool m" and "map answers ts = map (\<lambda>c. [call_id c]) calls"
  shows "answered (AI t calls u # ts)"
proof -
  have "replied ts = set (concat (map answers ts))"
    using replied_append_tools [OF assms(1), of "[]"] by (simp add: replied_def)
  also have "\<dots> = call_id ` set calls" unfolding assms(2) by auto
  finally show ?thesis using answered_tools [OF assms(1)] by simp
qed

definition history_ok :: "node \<Rightarrow> msg list \<Rightarrow> bool" where
  "history_ok n ms \<longleftrightarrow>
     (case n of
        CallModel \<Rightarrow> answered ms
      | ToolErrorsReached \<Rightarrow> answered ms
      | Finish \<Rightarrow> answered ms \<or> (\<exists>front t calls u. ms = front @ [AI t calls u, AI LIMIT_REPLY [] None] \<and> answered front)
      | _ \<Rightarrow> (\<exists>front t calls u. ms = front @ [AI t calls u] \<and> answered front))"

lemma node_history:
  assumes "history_ok n (gs_messages s)" and "n \<noteq> Finish" and "run_node e n s w = (Inr s1, w1, new)"
  shows "history_ok (next_node e n s1) (gs_messages s1)"
proof (cases n)
  case CallModel
  have a: "answered (gs_messages s)" using assms(1) CallModel by (simp add: history_ok_def)
  have "model_step s s1" using assms(3) CallModel by (auto simp: run_node.simps intro: call_model_step)
  then obtain t calls u where m: "gs_messages s1 = gs_messages s @ [AI t calls u]" by (auto simp: model_step_def)
  have "answered (gs_messages s @ [AI t [] u])" using answered_append [OF a, of "[AI t [] u]"] by simp
  then show ?thesis using a m by (auto simp: CallModel route_def history_ok_def)
next
  case ExecuteTools
  from assms(1) ExecuteTools obtain front t calls u where m: "gs_messages s = front @ [AI t calls u]" "answered front"
    by (auto simp: history_ok_def)
  have x: "execute_tools e s w = (Inr s1, w1, new)" using assms(3) ExecuteTools by (simp add: run_node.simps)
  obtain ts n where ts: "gs_messages s1 = gs_messages s @ ts" "\<forall>m \<in> set ts. is_tool m"
      "map answers ts = map (\<lambda>c. [call_id c]) (tool_calls_of (last (gs_messages s)))"
    by (rule execute_tools_Inr [OF x])
  have "answered (AI t calls u # ts)" using ts(2,3) m(1) by (intro answered_round) simp_all
  then have "answered (gs_messages s1)" using answered_append [OF m(2)] ts(1) m(1) by simp
  then show ?thesis by (auto simp: ExecuteTools after_tools_def history_ok_def)
next
  case LimitReached
  then show ?thesis using assms(1,3) limit_step [of e s w s1] by (auto simp: history_ok_def)
next
  case ToolErrorsReached
  then show ?thesis using assms(1,3) errors_step [of e s w s1] answered_append [of "gs_messages s" "[AI (ge_tool_error_reply e) [] None]"]
    by (auto simp: history_ok_def)
qed (use assms(2) in simp)

lemma run_history:
  assumes "run_graph e steps co CallModel s w evs = (out, s', w', evs')" and "answered (gs_messages s)"
  shows "\<exists>n. history_ok n (gs_messages s') \<and> (out = Completed \<longrightarrow> n = Finish)"
  by (rule run_invariant [OF assms(1)]) (use assms(2) node_history in \<open>auto simp: history_ok_def\<close>)

lemma run_prefix:
  assumes "run_graph e steps co n s w evs = (out, s', w', evs')"
  shows "prefix (gs_messages s) (gs_messages s')"
proof -
  have "\<exists>n'. prefix (gs_messages s) (gs_messages s') \<and> (out = Completed \<longrightarrow> n' = Finish)"
  proof (rule run_invariant [OF assms, of "\<lambda>_ t. prefix (gs_messages s) (gs_messages t)"])
    fix n s0 w s1 w1 new
    assume p: "prefix (gs_messages s) (gs_messages s0)" and n: "n \<noteq> Finish" and r: "run_node e n s0 w = (Inr s1, w1, new)"
    have "prefix (gs_messages s0) (gs_messages s1)"
    proof (cases n)
      case CallModel
      then have "model_step s0 s1" using r by (auto simp: run_node.simps intro: call_model_step)
      then show ?thesis by (auto simp: model_step_def)
    next
      case ExecuteTools
      then have x: "execute_tools e s0 w = (Inr s1, w1, new)" using r by (simp add: run_node.simps)
      show ?thesis by (rule execute_tools_Inr [OF x]) simp
    qed (use n r limit_step [of e s0 w s1] errors_step [of e s0 w s1] in auto)
    then show "prefix (gs_messages s) (gs_messages s1)" using p by (rule prefix_order.order_trans [rotated])
  qed simp
  then show ?thesis by blast
qed

text \<open>
  A completed turn keeps its history, ends with a plain reply, and leaves no tool call of it
  open: when the history it started from had every call answered, so has the result, unless the
  tool budget ran out, in which case the only open calls are those of the message right before the
  fixed reply.
\<close>

theorem completed_turn_history:
  assumes "run_graph e steps co CallModel s w evs = (Completed, s', w', evs')"
  shows "prefix (gs_messages s) (gs_messages s') \<and> ends_with_reply (gs_messages s')
     \<and> (answered (gs_messages s) \<longrightarrow> answered (gs_messages s') \<or>
          (\<exists>front t calls u. gs_messages s' = front @ [AI t calls u, AI LIMIT_REPLY [] None] \<and> answered front))"
proof (intro conjI impI)
  assume "answered (gs_messages s)"
  then have "history_ok Finish (gs_messages s')" using run_history [OF assms] by blast
  then show "answered (gs_messages s') \<or>
      (\<exists>front t calls u. gs_messages s' = front @ [AI t calls u, AI LIMIT_REPLY [] None] \<and> answered front)"
    by (simp add: history_ok_def)
qed (rule run_prefix [OF assms] completed_reply [OF assms])+

subsection \<open>Labels and requests\<close>

definition safe_label :: "('c, 's, 'h, 'w) graph_env \<Rightarrow> turn_event \<Rightarrow> bool" where
  "safe_label e ev \<longleftrightarrow> (\<forall>l x. ev = ToolMetric l x \<longrightarrow>
     l = UNRECOGNIZED_TOOL_LABEL \<or> (\<exists>t \<in> set (rt_tools (ge_runtime e)). ts_name t = l))"

lemma intercept_unknown:
  assumes "surface_of rt name = None"
  shows "fst (intercept reg k name inp rt current w) = Inl (PolicyViolation name ''not_in_surface'')"
  using assms by (simp add: intercept_def blocked_def)

lemma tool_reply_label:
  "snd (tool_reply e c r) = ToolMetric (call_name c) x
   \<or> snd (tool_reply e c r) = ToolMetric UNRECOGNIZED_TOOL_LABEL ''denied''"
  if "x = (case snd (tool_reply e c r) of ToolMetric _ y \<Rightarrow> y | _ \<Rightarrow> [])"
  using that by (auto simp: tool_reply_def Let_def split: sum.splits option.splits)

lemma run_tools_events: "run_tools e cs w = (r, w', evs) \<Longrightarrow>
    \<forall>ev \<in> set evs. (\<exists>a. ev = Audit a) \<or> (\<exists>l x. ev = ToolMetric l x)"
proof (induction cs arbitrary: w r w' evs)
  case (Cons c cs)
  let ?i = "intercept (ge_registry e) (ge_caller e) (call_name c) (call_args c) (ge_runtime e) (Some (ge_permissions e)) w"
  obtain r1 w1 audit where i: "?i = (r1, w1, audit)" by (metis prod_cases3)
  obtain q metric where q: "tool_reply e c (bindR r1 (tool_content e)) = (q, metric)" by fastforce
  have "\<exists>l x. metric = ToolMetric l x"
    using tool_reply_label [OF refl, of e c "bindR r1 (tool_content e)"] q by auto
  then show ?case
    using Cons.prems i q Cons.IH [of w1] by (fastforce split: sum.splits prod.splits)
qed simp

lemma tool_reply_unknown:
  "tool_reply e c (Inl (PolicyViolation n ''not_in_surface'')) =
     (Inr (Tool ''Tool call blocked: not_in_surface'' (call_id c) True, 0), ToolMetric UNRECOGNIZED_TOOL_LABEL ''denied'')"
  by (simp add: tool_reply_def Let_def is_timeout_def)

lemma run_tools_labels: "run_tools e cs w = (r, w', evs) \<Longrightarrow> \<forall>ev \<in> set evs. safe_label e ev"
proof (induction cs arbitrary: w r w' evs)
  case (Cons c cs)
  let ?i = "intercept (ge_registry e) (ge_caller e) (call_name c) (call_args c) (ge_runtime e) (Some (ge_permissions e)) w"
  obtain r1 w1 audit where i: "?i = (r1, w1, audit)" by (metis prod_cases3)
  obtain q metric where q: "tool_reply e c (bindR r1 (tool_content e)) = (q, metric)" by fastforce
  have "safe_label e metric"
  proof (cases "surface_of (ge_runtime e) (call_name c)")
    case None
    then have "r1 = Inl (PolicyViolation (call_name c) ''not_in_surface'')"
      using intercept_unknown [OF None] i by (metis fst_conv)
    then show ?thesis using q by (auto simp: tool_reply_unknown safe_label_def)
  next
    case (Some t)
    have "(\<exists>x. metric = ToolMetric (call_name c) x) \<or> metric = ToolMetric UNRECOGNIZED_TOOL_LABEL ''denied''"
      using tool_reply_label [OF refl, of e c "bindR r1 (tool_content e)"] q by auto
    then show ?thesis using surface_of_Some [OF Some] by (auto simp: safe_label_def)
  qed
  moreover have "\<forall>ev \<in> set (map Audit audit). safe_label e ev" by (auto simp: safe_label_def)
  ultimately show ?case
    using Cons.prems i q Cons.IH [of w1] by (fastforce split: sum.splits prod.splits)
qed simp

lemma model_node_events:
  assumes "call_model e s w = (r, w', evs)" and "model_input e (gs_messages s) = (input, ev)"
  shows "set evs \<subseteq> insert BudgetRefused (insert (ModelRequest True input) (insert (ModelRequest False input) (set ev)))"
proof -
  have retry: "set x \<subseteq> {BudgetRefused, ModelRequest False input}" if "retry_without_tools e s input w1 = (q, w2, x)"
    for q w1 w2 x
    using that by (auto simp: retry_without_tools_def split: sum.splits option.splits prod.splits)
  have "set evs \<subseteq> insert BudgetRefused (insert (ModelRequest True input) (insert (ModelRequest False input) (set ev)))"
    if "request_model e s w = (r, w', evs)"
  proof (cases "ge_bound_model e input w")
    case (Pair b w1)
    show ?thesis
    proof (cases b)
      case (Inl x)
      obtain q w2 y where y: "retry_without_tools e s input w1 = (q, w2, y)" by (metis prod_cases3)
      then show ?thesis using that assms(2) Pair Inl retry [OF y] by (auto simp: request_model_def split: if_splits)
    qed (use that assms(2) Pair in \<open>auto simp: request_model_def\<close>)
  qed
  then show ?thesis using assms(1) by (auto simp: call_model_def split: sum.splits option.splits)
qed

lemma input_events: "model_input e ms = (input, ev) \<Longrightarrow> x \<in> set ev \<Longrightarrow>
    x = BlocksOmitted \<or> x = LimitTrip ''max_context_tokens'' \<or> (\<exists>t. x = ContextTrimmed t)"
  by (auto simp: model_input_def report_trim_def Let_def split: option.splits if_splits)

lemma no_tool_metric:
  assumes "run_node e n s w = (r, w', evs)" and "n \<noteq> ExecuteTools"
  shows "ToolMetric l x \<notin> set evs"
proof (cases n)
  case CallModel
  obtain input ev where i: "model_input e (gs_messages s) = (input, ev)" by fastforce
  have "call_model e s w = (r, w', evs)" using assms(1) CallModel by (simp add: run_node.simps)
  from model_node_events [OF this i] input_events [OF i] show ?thesis by auto
qed (use assms in \<open>auto simp: run_node.simps limit_reached_def tool_errors_reached_def\<close>)

text \<open>
  Label hygiene: a metric's tool label is the name of a tool the runtime was equipped with or the
  fixed placeholder, whatever tool names the model made up.
\<close>

theorem tool_labels_are_equipped_names:
  assumes "run_graph e steps co CallModel s w [] = (out, s', w', evs)" and "ToolMetric l x \<in> set evs"
  shows "l = UNRECOGNIZED_TOOL_LABEL \<or> (\<exists>t \<in> set (rt_tools (ge_runtime e)). ts_name t = l)"
proof -
  obtain n0 s0 w0 r w1 new where n: "run_node e n0 s0 w0 = (r, w1, new)" "ToolMetric l x \<in> set new"
    using run_events [OF assms] by auto
  then have "n0 = ExecuteTools" using no_tool_metric [OF n(1)] by blast
  then obtain r1 w2 where t: "run_tools e (tool_calls_of (last (gs_messages s0))) w0 = (r1, w2, new)"
    using n(1) by (auto simp: run_node.simps execute_tools_def Let_def split: prod.splits sum.splits)
  have "safe_label e (ToolMetric l x)" using run_tools_labels [OF t] n(2) by simp
  then show ?thesis by (auto simp: safe_label_def)
qed

lemma model_input_ok:
  assumes "model_input e ms = (input, ev)"
  shows "answered input \<and> hd input = System (rt_system_prompt (ge_runtime e)) \<and> input \<noteq> []"
proof -
  have sys: "answered (System p # xs) = answered xs" "answered (Human h # xs) = answered xs" for p h xs
    by simp_all
  show ?thesis
    using assms closed_answered trim_keeps_answered [OF closed_answered]
    by (auto simp: model_input_def Let_def split: option.splits if_splits)
qed

lemma model_events:
  assumes "run_node e n s w = (r, w', evs)" and "ModelRequest b input \<in> set evs"
  shows "n = CallModel \<and> (\<exists>ev. model_input e (gs_messages s) = (input, ev))"
proof -
  have n: "n = CallModel"
  proof (cases n)
    case ExecuteTools
    then obtain r1 w2 where "run_tools e (tool_calls_of (last (gs_messages s))) w = (r1, w2, evs)"
      using assms(1) by (auto simp: run_node.simps execute_tools_def Let_def split: prod.splits sum.splits)
    from run_tools_events [OF this] show ?thesis using assms(2) by auto
  qed (use assms in \<open>auto simp: run_node.simps limit_reached_def tool_errors_reached_def\<close>)
  obtain i ev where i: "model_input e (gs_messages s) = (i, ev)" by fastforce
  have "call_model e s w = (r, w', evs)" using assms(1) n by (simp add: run_node.simps)
  from model_node_events [OF this i] input_events [OF i] have "input = i" using assms(2) by auto
  then show ?thesis using n i by blast
qed

text \<open>
  Every request of a turn to the model, the retry without tools included, opens with the
  runtime's system prompt and has every tool call answered right after it, whatever the history
  the turn started from looked like; the turn's own messages are never changed for that.
\<close>

theorem requests_are_well_formed:
  assumes "run_graph e steps co CallModel s w [] = (out, s', w', evs)" and "ModelRequest b input \<in> set evs"
  shows "answered input \<and> hd input = System (rt_system_prompt (ge_runtime e)) \<and> prefix (gs_messages s) (gs_messages s')"
proof -
  obtain n0 s0 w0 r w1 new where n: "run_node e n0 s0 w0 = (r, w1, new)" "ModelRequest b input \<in> set new"
    using run_events [OF assms] by auto
  then obtain ev where "model_input e (gs_messages s0) = (input, ev)" using model_events [OF n] by blast
  then show ?thesis using model_input_ok run_prefix [OF assms(1)] by blast
qed

lemma graph_event_kinds:
  assumes "run_graph e steps co CallModel s w [] = (out, s', w', evs)" and "ev \<in> set evs"
  shows "\<not> (\<exists>t ms. ev = ThreadSaved t ms) \<and> \<not> (\<exists>r. ev = UsageRecorded r)
    \<and> \<not> (\<exists>t. ev = CheckpointerDegraded t)"
proof -
  obtain n0 s0 w0 r w1 new where n: "run_node e n0 s0 w0 = (r, w1, new)" "ev \<in> set new"
    using run_events [OF assms] by auto
  show ?thesis
  proof (cases n0)
    case CallModel
    obtain input nev where i: "model_input e (gs_messages s0) = (input, nev)" by fastforce
    have "call_model e s0 w0 = (r, w1, new)" using n(1) CallModel by (simp add: run_node.simps)
    from model_node_events [OF this i] input_events [OF i] n(2) show ?thesis by auto
  next
    case ExecuteTools
    then obtain r1 w2 where "run_tools e (tool_calls_of (last (gs_messages s0))) w0 = (r1, w2, new)"
      using n(1) by (auto simp: run_node.simps execute_tools_def Let_def split: prod.splits sum.splits)
    from run_tools_events [OF this] n(2) show ?thesis by auto
  qed (use n in \<open>auto simp: run_node.simps limit_reached_def tool_errors_reached_def\<close>)
qed

lemma refused_after_a_call:
  assumes "run_graph e steps co CallModel s w evs = (out, s', w', evs')" and "gs_refused s \<longrightarrow> gs_usage s \<noteq> []"
  shows "gs_refused s' \<longrightarrow> gs_usage s' \<noteq> []"
proof -
  let ?I = "\<lambda>(n :: node) s. gs_refused s \<longrightarrow> gs_usage s \<noteq> []"
  have "\<exists>n'. ?I n' s' \<and> (out = Completed \<longrightarrow> n' = Finish)"
  proof (rule run_invariant [OF assms(1), of ?I])
    fix n s w s1 w1 new
    assume I: "?I n s" and n: "n \<noteq> Finish" and r: "run_node e n s w = (Inr s1, w1, new)"
    show "?I (next_node e n s1) s1"
    proof (cases n)
      case CallModel
      then have c: "call_model e s w = (Inr s1, w1, new)" using r by (simp add: run_node.simps)
      show ?thesis using I
        by (cases rule: call_model_cases [OF c]) (auto simp: refused_state_def answered_state_def split: prod.splits)
    next
      case ExecuteTools
      then have x: "execute_tools e s w = (Inr s1, w1, new)" using r by (simp add: run_node.simps)
      have "gs_usage s1 = gs_usage s" "gs_refused s1 = gs_refused s" by (rule execute_tools_Inr [OF x], assumption)+
      then show ?thesis using I by simp
    qed (use I n r in \<open>auto simp: run_node.simps limit_reached_def tool_errors_reached_def\<close>)
  qed (use assms(2) in simp)
  then show ?thesis by blast
qed

subsection \<open>Budgets and failures\<close>

lemma call_model_reply:
  assumes "call_model e s w = (Inr s', w', evs)"
  shows "\<exists>t calls u. gs_messages s' = gs_messages s @ [AI t calls u]
     \<and> (calls = [] \<or> (\<exists>i w0 w1. ge_bound_model e i w0 = (Inr (t, calls, u), w1) \<or> ge_base_model e i w0 = (Inr (t, calls, u), w1)))"
proof -
  have retry: "\<exists>t calls u. gs_messages q = gs_messages s @ [AI t calls u]
     \<and> (calls = [] \<or> (\<exists>i w0 w1. ge_base_model e i w0 = (Inr (t, calls, u), w1)))"
    if "retry_without_tools e s input w1 = (Inr q, w2, x)" for input q w1 w2 x
    using that unfolding retry_without_tools_def
    by (auto simp: refused_state_def answered_state_def split: sum.splits option.splits prod.splits)
  have req: ?thesis if r: "request_model e s w = (Inr s', w', evs)"
  proof -
    obtain input ev where i: "model_input e (gs_messages s) = (input, ev)" by fastforce
    obtain b w1 where b: "ge_bound_model e input w = (b, w1)" by fastforce
    show ?thesis
    proof (cases b)
      case (Inl x)
      obtain q w2 y where y: "retry_without_tools e s input w1 = (q, w2, y)" by (metis prod_cases3)
      have "q = Inr s'" using r i b Inl y by (auto simp: request_model_def split: if_splits)
      then show ?thesis using retry [of input w1 s' w2 y] y by blast
    next
      case (Inr p)
      obtain t calls u where p: "p = (t, calls, u)" by (metis prod_cases3)
      have "s' = answered_state s [] (t, calls, u)" using r i b Inr p by (simp add: request_model_def)
      then show ?thesis using b Inr p by (auto simp: answered_state_def)
    qed
  qed
  show ?thesis
  proof (cases "request_model e s w = (Inr s', w', evs)")
    case False
    then have "\<exists>r. s' = refused_state s (gs_usage s) r"
      using assms by (auto simp: call_model_def split: sum.splits option.splits)
    then show ?thesis by (auto simp: refused_state_def)
  qed (rule req)
qed

text \<open>
  The tool budget.  No tool runs when \<open>max_tool_calls\<close> is zero, and otherwise the turn attempts
  at most \<open>max_tool_calls - 1\<close> calls and one more batch: the count is checked before a batch of
  calls, not before each call.
\<close>

theorem tool_calls_bounded:
  assumes "run_graph e steps co CallModel s w evs = (out, s', w', evs')" and "gs_tool_calls s = 0"
    and "\<forall>i w0 t calls u w1. ge_bound_model e i w0 = (Inr (t, calls, u), w1)
           \<or> ge_base_model e i w0 = (Inr (t, calls, u), w1) \<longrightarrow> length calls \<le> batch"
  shows "int (gs_tool_calls s') \<le> (if ge_max_tool_calls e \<le> 0 then 0 else ge_max_tool_calls e - 1 + int batch)"
proof -
  let ?most = "if ge_max_tool_calls e \<le> 0 then 0 else ge_max_tool_calls e - 1 + int batch"
  let ?I = "\<lambda>n s. int (gs_tool_calls s) \<le> ?most
     \<and> (n = ExecuteTools \<longrightarrow> int (gs_tool_calls s) < ge_max_tool_calls e \<and> length (tool_calls_of (last (gs_messages s))) \<le> batch)"
  have "\<exists>n'. ?I n' s' \<and> (out = Completed \<longrightarrow> n' = Finish)"
  proof (rule run_invariant [OF assms(1), of ?I])
    fix n s w s1 w1 new
    assume I: "?I n s" and n: "n \<noteq> Finish" and r: "run_node e n s w = (Inr s1, w1, new)"
    show "?I (next_node e n s1) s1"
    proof (cases n)
      case CallModel
      then have c: "call_model e s w = (Inr s1, w1, new)" using r by (simp add: run_node.simps)
      have "gs_tool_calls s1 = gs_tool_calls s" using call_model_step [OF c] by (simp add: model_step_def)
      moreover have "length (tool_calls_of (last (gs_messages s1))) \<le> batch"
      proof -
        obtain t calls u where m: "gs_messages s1 = gs_messages s @ [AI t calls u]"
          and o: "calls = [] \<or> (\<exists>i w0 w1. ge_bound_model e i w0 = (Inr (t, calls, u), w1) \<or> ge_base_model e i w0 = (Inr (t, calls, u), w1))"
          using call_model_reply [OF c] by blast
        have "length calls \<le> batch" using o assms(3) by (metis le0 list.size(3))
        then show ?thesis using m by simp
      qed
      ultimately show ?thesis using I by (auto simp: CallModel route_def)
    next
      case ExecuteTools
      then have x: "execute_tools e s w = (Inr s1, w1, new)" using r by (simp add: run_node.simps)
      have "gs_tool_calls s1 = gs_tool_calls s + length (tool_calls_of (last (gs_messages s)))"
        by (rule execute_tools_Inr [OF x])
      then show ?thesis using I by (auto simp: ExecuteTools after_tools_def)
    qed (use I n r limit_step [of e s w s1] errors_step [of e s w s1] in auto)
  qed (use assms(2) in auto)
  then show ?thesis by blast
qed

text \<open>
  A cap is overshot by at most the call in flight.  While the ledger stands still, at every later
  request of a turn the gate had let through what the turn had used until then: it refused at no
  proper prefix of the turn's usage, so only the last call can have taken the turn over a cap.
\<close>

theorem caps_overshot_by_last_call_only:
  assumes "run_graph e steps co CallModel s w evs = (out, s', w', evs')" and "gs_usage s = []"
    and "ge_gate e = Some (\<lambda>us w. Inr (g us))" and "strict_prefix us (gs_usage s')" and "us \<noteq> []"
  shows "g (Some us) = None"
proof -
  let ?I = "\<lambda>(n :: node) s. \<forall>us. strict_prefix us (gs_usage s) \<and> us \<noteq> [] \<longrightarrow> g (Some us) = None"
  have ask: "ask_gate e us w = Inr x \<longleftrightarrow> g (Some us) = x" for us w x
    using assms(3) by (simp add: ask_gate_def)
  have snoc: "strict_prefix us (xs @ [x]) \<longleftrightarrow> prefix us xs" for us xs :: "usage_metadata option list" and x
    by (auto simp: strict_prefix_def prefix_snoc)
  have two: "prefix us (xs @ [x, y]) \<longleftrightarrow> us = xs @ [x, y] \<or> us = xs @ [x] \<or> prefix us xs"
    for us xs :: "usage_metadata option list" and x y
    using prefix_snoc [of us "xs @ [x]" y] prefix_snoc [of us xs x] by simp
  have "\<exists>n'. ?I n' s' \<and> (out = Completed \<longrightarrow> n' = Finish)"
  proof (rule run_invariant [OF assms(1), of ?I])
    fix n s w s1 w1 new
    assume I: "?I n s" and n: "n \<noteq> Finish" and r: "run_node e n s w = (Inr s1, w1, new)"
    show "?I (next_node e n s1) s1"
    proof (cases n)
      case CallModel
      then have c: "call_model e s w = (Inr s1, w1, new)" using r by (simp add: run_node.simps)
      show ?thesis
        using I by (cases rule: call_model_cases [OF c])
          (auto simp: refused_state_def answered_state_def ask snoc prefix_snoc two two [of _ "[]", simplified] strict_prefix_def split: prod.splits)
    next
      case ExecuteTools
      then have x: "execute_tools e s w = (Inr s1, w1, new)" using r by (simp add: run_node.simps)
      have "gs_usage s1 = gs_usage s" by (rule execute_tools_Inr [OF x])
      then show ?thesis using I by simp
    qed (use I n r limit_step [of e s w s1] errors_step [of e s w s1] in auto)
  qed (use assms(2) in simp)
  then show ?thesis using assms(4,5) by blast
qed

text \<open>
  Only a security decision aborts.  Of everything a tool can raise, only a permission or
  containment decision ends the turn; any other exception, a timeout or a refusal of the
  interceptor becomes an error message for the model.  When the node returns, every call has
  exactly one reply, in order and under its id, and the errors counted are at most the calls.
\<close>

theorem only_security_decisions_abort:
  assumes "execute_tools e s w = (r, w', evs)"
  shows "(\<forall>x. r = Inl x \<longrightarrow> aborting x \<and> \<not> is_timeout x \<and> policy_reason x = None)
     \<and> (\<forall>s'. r = Inr s' \<longrightarrow>
          (\<exists>ms n. gs_messages s' = gs_messages s @ ms \<and> gs_tool_errors s' = gs_tool_errors s + n
             \<and> map answers ms = map (\<lambda>c. [call_id c]) (tool_calls_of (last (gs_messages s)))
             \<and> n \<le> length ms \<and> gs_tool_calls s' = gs_tool_calls s + length ms))"
proof (intro conjI allI impI)
  fix x assume "r = Inl x"
  then have "\<exists>w' evs. run_tools e (tool_calls_of (last (gs_messages s))) w = (Inl x, w', evs)"
    using assms by (auto simp: execute_tools_def Let_def split: prod.splits sum.splits)
  moreover have "aborting x \<and> \<not> is_timeout x \<and> policy_reason x = None" if "run_tools e cs w = (Inl x, w', evs)" for cs w w' evs
    using that
  proof (induction cs arbitrary: w w' evs)
    case (Cons c cs)
    have t: "tool_reply e c y = (Inl z, m) \<Longrightarrow> aborting z \<and> \<not> is_timeout z \<and> policy_reason z = None" for y z m
      by (auto simp: tool_reply_def Let_def split: sum.splits if_splits option.splits)
    from Cons show ?case by (fastforce dest: t split: prod.splits sum.splits)
  qed simp
  ultimately show "aborting x" "\<not> is_timeout x" "policy_reason x = None" by blast+
next
  fix s' assume "r = Inr s'"
  then have x: "execute_tools e s w = (Inr s', w', evs)" using assms by simp
  obtain ms n where m: "gs_messages s' = gs_messages s @ ms"
    "map answers ms = map (\<lambda>c. [call_id c]) (tool_calls_of (last (gs_messages s)))"
    "gs_tool_calls s' = gs_tool_calls s + length (tool_calls_of (last (gs_messages s)))"
    "gs_tool_errors s' = gs_tool_errors s + n" "n \<le> length (tool_calls_of (last (gs_messages s)))"
    by (rule execute_tools_Inr [OF x])
  have "length ms = length (tool_calls_of (last (gs_messages s)))" using map_eq_imp_length_eq [OF m(2)] .
  then show "\<exists>ms n. gs_messages s' = gs_messages s @ ms \<and> gs_tool_errors s' = gs_tool_errors s + n
             \<and> map answers ms = map (\<lambda>c. [call_id c]) (tool_calls_of (last (gs_messages s)))
             \<and> n \<le> length ms \<and> gs_tool_calls s' = gs_tool_calls s + length ms"
    using m by metis
qed

subsection \<open>A concrete turn\<close>

text \<open>A model that asks for the tool \<open>order\<close> twice, and for an unknown tool, and then answers.\<close>

definition demo_usage :: usage_metadata where
  "demo_usage = \<lparr>um_input = 5, um_output = 5, um_total = 10\<rparr>"

definition order_call :: "string \<Rightarrow> string \<Rightarrow> tool_call" where
  "order_call name i = \<lparr>call_name = name, call_args = [], call_id = i\<rparr>"

definition demo_model :: "msg list \<Rightarrow> nat \<Rightarrow> reply res \<times> nat" where
  "demo_model ms w =
     (Inr (if w = 0 then ([], [order_call ''order'' ''1'', order_call ''wire'' ''2''], Some demo_usage)
           else (''done'', [], Some demo_usage)), w)"

definition pyval_caller :: "(unit, unit, string, nat, pyval) caller" where
  "pyval_caller = \<lparr>is_async = (\<lambda>_. True), invoke = (\<lambda>c inp s h w. (Inr (PStr ''ok''), Suc w)),
     is_default_tool = (\<lambda>_. False), turn_subject = Some ''u1'',
     scope_provider = Some (\<lambda>rid s. rid @ s), caller_runtime_id = Some ''shop'', turn_session = None\<rparr>"

definition demo_env :: "(unit, unit, string, nat) graph_env" where
  "demo_env = \<lparr>ge_registry = order_registry, ge_runtime = order_runtime [order_class], ge_caller = pyval_caller,
     ge_permissions = [''write:orders''], ge_bound_model = demo_model, ge_base_model = demo_model,
     ge_gate = Some (\<lambda>us w. Inr None), ge_count = (\<lambda>ms. int (length ms)), ge_fixed_count = (\<lambda>ms. int (length ms)),
     ge_max_context = Some 100, ge_untrusted_text = [], ge_max_tool_calls = 1, ge_max_tool_errors = 3,
     ge_tool_error_reply = ''sorry to fail'', ge_tool_timeout = PInt 10, ge_json = (\<lambda>_. Inr [])\<rparr>"

definition demo_start :: graph_state where
  "demo_start = \<lparr>gs_messages = [Human ''order twice''], gs_tool_calls = 0, gs_tool_errors = 0, gs_usage = [], gs_refused = False\<rparr>"

definition demo_messages :: "msg list" where
  "demo_messages = [Human ''order twice'',
     AI [] [order_call ''order'' ''1'', order_call ''wire'' ''2''] (Some demo_usage),
     Tool ''ok'' ''1'' False, Tool ''Tool call blocked: not_in_surface'' ''2'' True, AI ''done'' [] (Some demo_usage)]"

definition demo_request :: "msg list" where
  "demo_request = [System [], Human ''order twice'']"

definition demo_request2 :: "msg list" where
  "demo_request2 = System [] # take 4 demo_messages"

lemma demo_run:
  "run_graph demo_env (recursion_limit (ge_max_tool_calls demo_env)) None CallModel demo_start 0 [] =
     (Completed, demo_start\<lparr>gs_messages := demo_messages, gs_tool_calls := 2, gs_usage := [Some demo_usage, Some demo_usage]\<rparr>, 1,
      [ModelRequest True demo_request, Audit (CallAttempted ''order'' True True False), ToolMetric ''order'' ''ok'',
       Audit (CallBlocked ''wire'' ''not_in_surface''), ToolMetric UNRECOGNIZED_TOOL_LABEL ''denied'',
       ModelRequest True demo_request2])"
  by code_simp

theorem turn_ends_within_recursion_limit_witness:
  "fst (run_graph demo_env (recursion_limit 1) None CallModel demo_start 0 []) \<noteq> OutOfSteps"
proof -
  have m: "ge_max_tool_calls demo_env = 1" by (simp add: demo_env_def)
  obtain out s' w' evs' where r: "run_graph demo_env (recursion_limit (ge_max_tool_calls demo_env)) None CallModel
      demo_start 0 [] = (out, s', w', evs')" by (metis prod_cases4)
  have "0 \<le> ge_max_tool_calls demo_env" by (simp add: m)
  from turn_ends_within_recursion_limit [OF r this] show ?thesis using r unfolding m by auto
qed

theorem completed_turn_history_witness:
  "prefix [Human ''order twice''] demo_messages \<and> answered demo_messages"
proof -
  have "answered (gs_messages demo_start)" by (simp add: demo_start_def)
  then show ?thesis using completed_turn_history [OF demo_run] by (auto simp: demo_start_def demo_messages_def LIMIT_REPLY_def)
qed

theorem tool_labels_are_equipped_names_witness:
  "\<exists>t \<in> set (rt_tools (ge_runtime demo_env)). ts_name t = ''order''"
  using tool_labels_are_equipped_names [OF demo_run, of "''order''" "''ok''"] by (auto simp: UNRECOGNIZED_TOOL_LABEL_def)

theorem requests_are_well_formed_witness: "answered demo_request2 \<and> hd demo_request2 = System []"
  using requests_are_well_formed [OF demo_run, of True demo_request2] by (simp add: demo_env_def order_runtime_def)

lemma demo_batch: "\<forall>i w0 t calls u w1. ge_bound_model demo_env i w0 = (Inr (t, calls, u), w1)
     \<or> ge_base_model demo_env i w0 = (Inr (t, calls, u), w1) \<longrightarrow> length calls \<le> 2"
  by (auto simp: demo_env_def demo_model_def)

text \<open>With a budget of one call, both calls of the batch are attempted.\<close>

theorem tool_calls_bounded_witness:
  "\<exists>s'. fst (snd (run_graph demo_env (recursion_limit (ge_max_tool_calls demo_env)) None CallModel demo_start 0 [])) = s'
     \<and> gs_tool_calls s' = 2 \<and> int (gs_tool_calls s') \<le> ge_max_tool_calls demo_env - 1 + 2"
  using tool_calls_bounded [OF demo_run _ demo_batch] unfolding demo_run by (simp add: demo_start_def demo_env_def)

definition demo_gate :: "usage_metadata option list option \<Rightarrow> string option" where
  "demo_gate = budget_gate (demo_caps\<lparr>daily_tokens := PInt 15\<rparr>) (ledger_totals []) (2025, 3, 10, 9) (''shop'', ''ana'') None []"

definition gated_env :: "(unit, unit, string, nat) graph_env" where
  "gated_env = demo_env\<lparr>ge_gate := Some (\<lambda>us w. Inr (demo_gate us))\<rparr>"

lemma gated_run:
  "\<exists>s' w' evs. run_graph gated_env 12 None CallModel demo_start 0 [] = (Completed, s', w', evs)
     \<and> gs_usage s' = [Some demo_usage, Some demo_usage]"
proof -
  have "(case run_graph gated_env 12 None CallModel demo_start 0 [] of
      (out, s', w', evs) \<Rightarrow> out = Completed \<and> gs_usage s' = [Some demo_usage, Some demo_usage])"
    by code_simp
  then show ?thesis by (auto split: prod.splits)
qed

theorem caps_overshot_by_last_call_only_witness: "demo_gate (Some [Some demo_usage]) = None"
proof -
  obtain s' w' evs where r: "run_graph gated_env 12 None CallModel demo_start 0 [] = (Completed, s', w', evs)"
    and u: "gs_usage s' = [Some demo_usage, Some demo_usage]" using gated_run by blast
  have g: "ge_gate gated_env = Some (\<lambda>us w. Inr (demo_gate us))" by (simp add: gated_env_def)
  have s: "gs_usage demo_start = []" by (simp add: demo_start_def)
  have p: "strict_prefix [Some demo_usage] (gs_usage s')" unfolding u by simp
  show ?thesis by (rule caps_overshot_by_last_call_only [OF r s g p]) simp
qed

theorem only_security_decisions_abort_witness:
  "\<exists>s' w' evs. execute_tools demo_env (demo_start\<lparr>gs_messages := take 2 demo_messages\<rparr>) 0 = (Inr s', w', evs)
     \<and> gs_tool_calls s' = 2 \<and> gs_tool_errors s' \<le> 2"
proof -
  let ?s = "demo_start\<lparr>gs_messages := take 2 demo_messages\<rparr>"
  have "(case execute_tools demo_env ?s 0 of (Inr s', w', evs) \<Rightarrow> length (gs_messages s') = 4 | _ \<Rightarrow> False)"
    by code_simp
  then obtain s' w' evs where x: "execute_tools demo_env ?s 0 = (Inr s', w', evs)" and l: "length (gs_messages s') = 4"
    by (auto split: prod.splits sum.splits)
  obtain ms n where "gs_messages s' = gs_messages ?s @ ms" "gs_tool_errors s' = gs_tool_errors ?s + n"
      "n \<le> length ms" "gs_tool_calls s' = gs_tool_calls ?s + length ms"
    using only_security_decisions_abort [OF x] by auto
  then have "length ms = 2" "gs_tool_calls s' = 2" "gs_tool_errors s' \<le> 2"
    using l by (auto simp: demo_start_def demo_messages_def)
  then show ?thesis using x by blast
qed

end
