(* ===== verification/Turn_Run.thy ===== *)
theory Turn_Run
  imports Agent_Graph
begin

section \<open>A turn of an agent\<close>

text \<open>
  \<open>AgentRuntime\<close> of \<open>agent/graph.py\<close> with \<open>subject.py\<close>: what construction checks, and
  \<open>run_turn_with_usage\<close> from the default permissions to the recorded usage.  The subject and actor
  that \<open>turn_scope\<close> binds are arguments.  The usage ledger, the checkpointer and the store of user
  facts are given by their operations on the world; each may raise, and a call abandoned at its
  timeout is one that raised.
\<close>

subsection \<open>Subject and actor\<close>

record turn_subject =
  subject_key :: string
  subject_channel :: "string option"
  subject_address :: "string option"

definition TurnSubject :: "string \<Rightarrow> string option \<Rightarrow> string option \<Rightarrow> turn_subject res" where
  "TurnSubject key channel address =
     (if key = [] then Inl (ValueErr ''TurnSubject.key'')
      else Inr \<lparr>subject_key = key, subject_channel = channel, subject_address = address\<rparr>)"

definition for_participant :: "string \<Rightarrow> string option \<Rightarrow> string option \<Rightarrow> turn_subject res" where
  "for_participant pid channel address = TurnSubject (''participant:'' @ pid) channel address"

definition ACTOR_KINDS :: "string list" where
  "ACTOR_KINDS = [''channel'', ''api'', ''operator'', ''scheduler'', ''library'']"

record turn_actor =
  actor_kind :: string
  actor_id :: string

definition TurnActor :: "string \<Rightarrow> string \<Rightarrow> turn_actor res" where
  "TurnActor kind i =
     (if kind \<in> set ACTOR_KINDS then Inr \<lparr>actor_kind = kind, actor_id = i\<rparr> else Inl (ValueErr ''actor kind''))"

definition actor_label :: "turn_actor \<Rightarrow> string" where
  "actor_label a = actor_kind a @ '':'' @ actor_id a"

subsection \<open>The runtime\<close>

definition DEFAULT_TIMEOUT_REPLY :: string where
  "DEFAULT_TIMEOUT_REPLY = ''This is taking longer than expected. Please try again.''"

definition DEFAULT_TOOL_ERROR_REPLY :: string where
  "DEFAULT_TOOL_ERROR_REPLY =
     ''I could not complete this because a tool kept failing. Please try again or rephrase your request.''"

record 'w ledger_ops =
  lo_totals :: "'w \<Rightarrow> (pair \<Rightarrow> datetime \<Rightarrow> usage_totals) res"
  lo_record :: "usage_record \<Rightarrow> 'w \<Rightarrow> unit res \<times> 'w"

record 'w checkpointer_ops =
  co_load :: "string \<Rightarrow> 'w \<Rightarrow> msg list res \<times> 'w"
  co_save :: "string \<Rightarrow> msg list \<Rightarrow> 'w \<Rightarrow> unit res \<times> 'w"

record ('c, 's, 'h, 'w) agent_runtime =
  ar_registry :: registry
  ar_equipped :: "'c runtime"
  ar_caller :: "('c, 's, 'h, 'w, pyval) caller"
  ar_bound_model :: "msg list \<Rightarrow> 'w \<Rightarrow> reply res \<times> 'w"
  ar_base_model :: "msg list \<Rightarrow> 'w \<Rightarrow> reply res \<times> 'w"
  ar_count :: "msg list \<Rightarrow> int"
  ar_fixed_count :: "msg list \<Rightarrow> int"
  ar_json :: "pyval \<Rightarrow> string res"
  ar_now :: "'w \<Rightarrow> datetime"
  ar_new_id :: "'w \<Rightarrow> string"
  ar_model_id :: string
  ar_runtime_id :: string
  ar_deployment_limits :: dict
  ar_timeout_reply :: string
  ar_tool_error_reply :: string
  ar_prices :: "(string \<times> model_price) list"
  ar_budget :: "budget_caps option"
  ar_ledger :: "'w ledger_ops option"
  ar_checkpointer :: "'w checkpointer_ops option"
  ar_user_memory :: bool
  ar_facts :: "string \<Rightarrow> string \<Rightarrow> 'w \<Rightarrow> untrusted_data option res \<times> 'w"

text \<open>
  The checks of \<open>__init__\<close>, in order; the combined ceiling, the two replies and the effective
  limits are what it computes on the way.
\<close>

definition checked_reply :: "(pyval \<Rightarrow> string res) \<Rightarrow> pyval \<Rightarrow> string \<Rightarrow> string res" where
  "checked_reply check given fallback = (if given = PNone then Inr fallback else check given)"

definition init_runtime ::
  "('c, 's, 'h, 'w) agent_runtime \<Rightarrow> bool \<Rightarrow> pyval \<Rightarrow> pyval \<Rightarrow> pyval \<Rightarrow> pyval \<Rightarrow> ('c, 's, 'h, 'w) agent_runtime res" where
  "init_runtime ar has_runtime_id checkpointer_timeout limits timeout_reply tool_error_reply =
     bindR (guardR (ar_user_memory ar \<longrightarrow> scope_provider (ar_caller ar) \<noteq> None \<and> has_runtime_id) (ValueErr ''user_memory'')) (\<lambda>_.
     bindR (guardR (ar_budget ar \<noteq> None \<longrightarrow> ar_ledger ar \<noteq> None) (ValueErr ''a budget needs a usage_ledger'')) (\<lambda>_.
     bindR (guardR (ar_ledger ar \<noteq> None \<longrightarrow> has_runtime_id) (ValueErr ''usage_ledger'')) (\<lambda>_.
     bindR (guardR (scope_provider (ar_caller ar) \<noteq> None \<longrightarrow> has_runtime_id) (ValueErr ''scope_provider'')) (\<lambda>_.
     bindR (guardR (py_lt (PInt 0) checkpointer_timeout) (ValueErr ''checkpointer_timeout_s'')) (\<lambda>_.
     bindR (validate_execution_limits (PDict (rt_deployment_limits (ar_equipped ar))) OUTBOX_LEASE_S) (\<lambda>a.
     bindR (validate_execution_limits limits OUTBOX_LEASE_S) (\<lambda>b.
     bindR (checked_reply validate_timeout_reply timeout_reply DEFAULT_TIMEOUT_REPLY) (\<lambda>t.
     bindR (checked_reply validate_tool_error_reply tool_error_reply DEFAULT_TOOL_ERROR_REPLY) (\<lambda>te.
     let caps = tighter [a, b];
         declared = (case ad_execution_limits (rt_definition (ar_equipped ar)) of Some d \<Rightarrow> d | None \<Rightarrow> []) in
     bindR (effective_limits declared caps) (\<lambda>eff.
     bindR (if caps \<noteq> [] then check_effective_limits eff OUTBOX_LEASE_S else Inr ()) (\<lambda>_.
     bindR (case ar_budget ar of None \<Rightarrow> Inr () | Some c \<Rightarrow> validate_caps c) (\<lambda>_.
     bindR (guardR (\<not> (\<exists>c \<in> set_option (ar_budget ar). has_usd_cap c) \<or> ar_model_id ar \<in> set (dkeys (ar_prices ar)))
              (ValueErr ''a USD budget needs a price'')) (\<lambda>_.
       Inr (ar\<lparr>ar_deployment_limits := caps, ar_timeout_reply := t, ar_tool_error_reply := te\<rparr>))))))))))))))"

definition execution_limits_of :: "('c, 's, 'h, 'w) agent_runtime \<Rightarrow> dict res" where
  "execution_limits_of ar =
     effective_limits (case ad_execution_limits (rt_definition (ar_equipped ar)) of Some d \<Rightarrow> d | None \<Rightarrow> [])
       (ar_deployment_limits ar)"

text \<open>\<open>int(v)\<close> of a number.  A count that is no number is outside the model.\<close>

fun to_int :: "pyval \<Rightarrow> int res" where
  "to_int (PInt i) = Inr i"
| "to_int (PBool b) = Inr (if b then 1 else 0)"
| "to_int (PFloat r t) = Inr (if r < 0 then - \<lfloor>- r\<rfloor> else \<lfloor>r\<rfloor>)"
| "to_int _ = Inl (TypeErr ''int'')"

subsection \<open>User facts\<close>

definition READ_USER_MEMORY :: string where "READ_USER_MEMORY = ''read:user_memory''"

definition may_read_user_memory :: "('c, 's, 'h, 'w) agent_runtime \<Rightarrow> string list \<Rightarrow> bool res" where
  "may_read_user_memory ar names =
     (let granted = filter (\<lambda>c. c \<in> set (known_classes (ar_registry ar) names)) (rt_ceiling (ar_equipped ar)) in
      bindR (resolve_perm (ar_registry ar) READ_USER_MEMORY) (\<lambda>needed. Inr (\<exists>c \<in> set granted. covers c needed)))"

text \<open>The turn's block of user facts; a store that fails means a turn without them.\<close>

definition user_memory_blocks ::
  "('c, 's, 'h, 'w) agent_runtime \<Rightarrow> turn_subject option \<Rightarrow> string list \<Rightarrow> 'w \<Rightarrow> untrusted_data list res \<times> 'w" where
  "user_memory_blocks ar subject names w =
     (case subject of
        None \<Rightarrow> (Inr [], w)
      | Some s \<Rightarrow>
          if \<not> ar_user_memory ar \<or> scope_provider (ar_caller ar) = None
             \<or> \<not> allows_user_memory (PDict (ad_memory_policy (rt_definition (ar_equipped ar))))
          then (Inr [], w)
          else case may_read_user_memory ar names of
                 Inl x \<Rightarrow> (Inl x, w)
               | Inr False \<Rightarrow> (Inr [], w)
               | Inr True \<Rightarrow>
                   (case ar_facts ar (ar_runtime_id ar) (subject_key s) w of
                      (Inl _, w') \<Rightarrow> (Inr [], w')
                    | (Inr None, w') \<Rightarrow> (Inr [], w')
                    | (Inr (Some block), w') \<Rightarrow> (Inr [block], w')))"

subsection \<open>The budget gate of a turn\<close>

text \<open>Without caps, a ledger and a subject there is no gate.  A ledger that fails raises.\<close>

definition turn_gate ::
  "('c, 's, 'h, 'w) agent_runtime \<Rightarrow> turn_subject option \<Rightarrow> string
   \<Rightarrow> (usage_metadata option list option \<Rightarrow> 'w \<Rightarrow> string option res) option" where
  "turn_gate ar subject model_id =
     (case (ar_budget ar, ar_ledger ar, subject) of
        (Some caps, Some ledger, Some s) \<Rightarrow>
          Some (\<lambda>entries w. bindR (lo_totals ledger w) (\<lambda>totals.
            Inr (budget_gate caps totals (ar_now ar w) (ar_runtime_id ar, subject_key s) (Some model_id)
                   (ar_prices ar) entries)))
      | _ \<Rightarrow> None)"

subsection \<open>Threads\<close>

text \<open>The thread a turn runs in: its id and, once read, its history.\<close>

definition thread_of :: "('c, 's, 'h, 'w) agent_runtime \<Rightarrow> string option \<Rightarrow> (string \<times> 'w checkpointer_ops) option" where
  "thread_of ar thread_id =
     (case (thread_id, ar_checkpointer ar) of
        (Some t, Some c) \<Rightarrow>
          if persists_conversation (PDict (ad_memory_policy (rt_definition (ar_equipped ar)))) then Some (t, c) else None
      | _ \<Rightarrow> None)"

definition thread_load ::
  "(string \<times> 'w checkpointer_ops) option \<Rightarrow> 'w \<Rightarrow> msg list option \<times> 'w \<times> turn_event list" where
  "thread_load thread w =
     (case thread of
        None \<Rightarrow> (None, w, [])
      | Some (t, c) \<Rightarrow>
          (case co_load c t w of
             (Inl _, w') \<Rightarrow> (None, w', [CheckpointerDegraded ''read''])
           | (Inr h, w') \<Rightarrow> (Some h, w', [])))"

text \<open>A thread that was not read is never written.\<close>

definition thread_save ::
  "(string \<times> 'w checkpointer_ops) option \<Rightarrow> msg list option \<Rightarrow> msg list \<Rightarrow> 'w \<Rightarrow> 'w \<times> turn_event list" where
  "thread_save thread history new w =
     (case (thread, history) of
        (Some (t, c), Some _) \<Rightarrow>
          if new = [] then (w, [])
          else (case co_save c t new w of
                  (Inl _, w') \<Rightarrow> (w', [ThreadSaved t new, CheckpointerDegraded ''write''])
                | (Inr _, w') \<Rightarrow> (w', [ThreadSaved t new]))
      | _ \<Rightarrow> (w, []))"

subsection \<open>The end of a turn\<close>

record turn_result =
  tr_messages :: "msg list"
  tr_usage :: turn_usage
  tr_timed_out :: bool
  tr_timeout_s :: "pyval option"
  tr_budget_refused :: bool

definition finish_turn ::
  "('c, 's, 'h, 'w) agent_runtime \<Rightarrow> string \<Rightarrow> msg list \<Rightarrow> turn_usage \<Rightarrow> string \<Rightarrow> pyval option \<Rightarrow> bool
   \<Rightarrow> turn_result \<times> turn_event list" where
  "finish_turn ar model_id messages usage outcome timeout refused =
     (\<lparr>tr_messages = messages,
       tr_usage = usage\<lparr>tu_cost := compute_turn_cost usage (Some model_id) (ar_prices ar)\<rparr>,
       tr_timed_out = (timeout \<noteq> None), tr_timeout_s = timeout, tr_budget_refused = refused\<rparr>,
      [TurnMetric outcome])"

definition record_usage ::
  "('c, 's, 'h, 'w) agent_runtime \<Rightarrow> turn_subject option \<Rightarrow> turn_actor option \<Rightarrow> turn_result \<Rightarrow> string \<Rightarrow> nat \<Rightarrow> 'w
   \<Rightarrow> 'w \<times> turn_event list" where
  "record_usage ar subject actor result model_id tool_calls w =
     (case (ar_ledger ar, subject) of
        (Some ledger, Some s) \<Rightarrow>
          let u = tr_usage result;
              r = \<lparr>ur_runtime = ar_runtime_id ar, ur_subject = subject_key s, ur_actor = map_option actor_label actor,
                   ur_model_id = Some model_id, ur_input_tokens = tu_input u, ur_output_tokens = tu_output u,
                   ur_total_tokens = tu_total u, ur_cost_usd = tu_cost u, ur_model_calls = tu_model_calls u,
                   ur_tool_calls = tool_calls, ur_timed_out = tr_timed_out result, ur_occurred_at = ar_now ar w,
                   ur_id = ar_new_id ar w\<rparr>
          in (case lo_record ledger r w of
                (Inl _, w') \<Rightarrow> (w', [UsageRecorded r, UsageRecordFailed])
              | (Inr _, w') \<Rightarrow> (w', [UsageRecorded r]))
      | _ \<Rightarrow> (w, []))"

definition count_tool_messages :: "msg list \<Rightarrow> nat" where
  "count_tool_messages ms = length (filter is_tool ms)"

subsection \<open>The turn\<close>

record turn_args =
  ta_messages :: "msg list"
  ta_permissions :: "string list option"
  ta_thread_id :: "string option"
  ta_model_id :: "string option"
  ta_subject :: "turn_subject option"
  ta_actor :: "turn_actor option"
  ta_untrusted :: "untrusted_data list"

text \<open>What is settled before the graph is built: permissions, model id, limits and blocks.\<close>

record turn_setup =
  ts_permissions :: "string list"
  ts_model :: string
  ts_max_calls :: int
  ts_limits :: dict
  ts_blocks :: "untrusted_data list"

definition setup_turn ::
  "('c, 's, 'h, 'w) agent_runtime \<Rightarrow> turn_args \<Rightarrow> 'w \<Rightarrow> turn_setup res \<times> 'w" where
  "setup_turn ar ta w =
     (let model_id = (case ta_model_id ta of Some m \<Rightarrow> m | None \<Rightarrow> ar_model_id ar) in
      case bindR (case ta_permissions ta of Some p \<Rightarrow> Inr p
                  | None \<Rightarrow> default_permissions (ar_registry ar) (ar_equipped ar)) (\<lambda>perms.
           bindR (execution_limits_of ar) (\<lambda>eff.
           bindR (to_int (dget eff ''max_tool_calls'')) (\<lambda>calls. Inr (perms, eff, calls)))) of
        Inl x \<Rightarrow> (Inl x, w)
      | Inr (perms, eff, calls) \<Rightarrow>
          (case user_memory_blocks ar (ta_subject ta) perms w of
             (Inl x, w') \<Rightarrow> (Inl x, w')
           | (Inr facts, w') \<Rightarrow>
               (bindR (guardR (\<not> (\<exists>c \<in> set_option (ar_budget ar). has_usd_cap c) \<or> model_id \<in> set (dkeys (ar_prices ar)))
                         (ValueErr ''a USD budget needs a price'')) (\<lambda>_.
                  Inr \<lparr>ts_permissions = perms, ts_model = model_id, ts_max_calls = calls, ts_limits = eff,
                       ts_blocks = ta_untrusted ta @ facts\<rparr>), w')))"

text \<open>What building the graph computes: the error budget, the context budget and the blocks' text.\<close>

definition graph_arguments :: "turn_setup \<Rightarrow> string list \<Rightarrow> (int \<times> int \<times> string) res" where
  "graph_arguments st draws =
     bindR (to_int (dget (ts_limits st) ''max_tool_errors'')) (\<lambda>errors.
     bindR (to_int (dget (ts_limits st) ''max_context_tokens'')) (\<lambda>context.
     bindR (render_untrusted_blocks (ts_blocks st) (min DEFAULT_TURN_MAX_CHARS (max 1 (context * 4)))
              DEFAULT_MAX_BLOCKS draws) (\<lambda>text.
       case text of Some t \<Rightarrow> Inr (errors, context, t)
       | None \<Rightarrow> Inl (Raised ''secrets'' ''still drawing a boundary''))))"

definition graph_env_of ::
  "('c, 's, 'h, 'w) agent_runtime \<Rightarrow> turn_args \<Rightarrow> turn_setup \<Rightarrow> int \<times> int \<times> string \<Rightarrow> ('c, 's, 'h, 'w) graph_env" where
  "graph_env_of ar ta st g =
     \<lparr>ge_registry = ar_registry ar, ge_runtime = ar_equipped ar,
      ge_caller = (ar_caller ar)\<lparr>turn_subject := map_option subject_key (ta_subject ta), caller_runtime_id := Some (ar_runtime_id ar)\<rparr>,
      ge_permissions = ts_permissions st, ge_bound_model = ar_bound_model ar, ge_base_model = ar_base_model ar,
      ge_gate = turn_gate ar (ta_subject ta) (ts_model st), ge_count = ar_count ar, ge_fixed_count = ar_fixed_count ar,
      ge_max_context = Some (fst (snd g)), ge_untrusted_text = snd (snd g), ge_max_tool_calls = ts_max_calls st,
      ge_max_tool_errors = fst g, ge_tool_error_reply = ar_tool_error_reply ar,
      ge_tool_timeout = dget (ts_limits st) ''tool_call_timeout_s'', ge_json = ar_json ar\<rparr>"

definition initial_state :: "msg list \<Rightarrow> graph_state" where
  "initial_state ms = \<lparr>gs_messages = ms, gs_tool_calls = 0, gs_tool_errors = 0, gs_usage = [], gs_refused = False\<rparr>"

text \<open>The exception of a run that neither completed nor timed out.\<close>

fun run_failure :: "run_outcome \<Rightarrow> err option" where
  "run_failure OutOfSteps = Some (Raised ''GraphRecursionError'' [])"
| "run_failure (Failed x) = (if is_timeout x then None else Some x)"
| "run_failure _ = None"

text \<open>\<open>str(float(v))\<close> for the magnitudes a limit can have.\<close>

fun float_text :: "pyval \<Rightarrow> string" where
  "float_text (PInt i) = int_str i @ ''.0''"
| "float_text (PBool b) = (if b then ''1.0'' else ''0.0'')"
| "float_text v = py_str v"

definition turn_timeout :: "turn_setup \<Rightarrow> pyval" where
  "turn_timeout st = dget (ts_limits st) ''total_execution_timeout_s''"

definition timeout_text :: "turn_setup \<Rightarrow> string" where
  "timeout_text st = ''the turn timed out after '' @ float_text (turn_timeout st) @ ''s''"

text \<open>A timed-out turn answers its interrupted calls and ends with the deployment's reply.\<close>

definition turn_messages :: "('c, 's, 'h, 'w) agent_runtime \<Rightarrow> turn_setup \<Rightarrow> bool \<Rightarrow> msg list \<Rightarrow> msg list" where
  "turn_messages ar st timed_out ms =
     (if timed_out then close_unanswered_tool_calls (timeout_text st) ms @ [AI (ar_timeout_reply ar) [] None] else ms)"

definition outcome_text :: "bool \<Rightarrow> bool \<Rightarrow> string" where
  "outcome_text timed_out refused =
     (if timed_out then ''timeout'' else if refused then ''budget_refused'' else ''ok'')"

definition end_turn ::
  "('c, 's, 'h, 'w) agent_runtime \<Rightarrow> turn_args \<Rightarrow> turn_setup \<Rightarrow> (string \<times> 'w checkpointer_ops) option
   \<Rightarrow> msg list option \<Rightarrow> msg list \<Rightarrow> run_outcome \<Rightarrow> graph_state \<Rightarrow> 'w \<Rightarrow> turn_result res \<times> 'w \<times> turn_event list" where
  "end_turn ar ta st thread history all_messages out s w =
     (case run_failure out of
        Some x \<Rightarrow> (Inl x, w, [TurnMetric ''error''])
      | None \<Rightarrow>
          let timed_out = (out \<noteq> Completed);
              before = (case history of Some h \<Rightarrow> h | None \<Rightarrow> []);
              tool_calls = count_tool_messages (drop (length all_messages) (gs_messages s)) in
          (case thread_save thread history (turn_messages ar st timed_out (drop (length before) (gs_messages s))) w of
             (w1, evs1) \<Rightarrow>
               (case finish_turn ar (ts_model st) (turn_messages ar st timed_out (gs_messages s))
                       (aggregate_turn_usage (gs_usage s)) (outcome_text timed_out (gs_refused s))
                       (if timed_out then Some (turn_timeout st) else None) (\<not> timed_out \<and> gs_refused s) of
                  (result, evs2) \<Rightarrow>
                    (case record_usage ar (ta_subject ta) (ta_actor ta) result (ts_model st) tool_calls w1 of
                       (w2, evs3) \<Rightarrow>
                         (Inr result, w2, (if timed_out then [RuntimeTimeout] else []) @ evs1 @ evs2 @ evs3)))))"

definition refuse_turn ::
  "('c, 's, 'h, 'w) agent_runtime \<Rightarrow> turn_args \<Rightarrow> turn_setup \<Rightarrow> string \<Rightarrow> turn_result \<times> turn_event list" where
  "refuse_turn ar ta st refusal =
     (case finish_turn ar (ts_model st) (ta_messages ta @ [AI refusal [] None])
             \<lparr>tu_model_calls = Some 0, tu_input = Some 0, tu_output = Some 0, tu_total = Some 0, tu_cost = Some 0\<rparr>
             ''budget_refused'' None True of
        (r, evs) \<Rightarrow> (r, BudgetRefused # evs))"

text \<open>
  \<open>draws\<close> are the random boundaries and \<open>co\<close> says where the deadline cuts the graph off.
\<close>

definition run_turn ::
  "('c, 's, 'h, 'w) agent_runtime \<Rightarrow> turn_args \<Rightarrow> string list \<Rightarrow> (nat \<times> ('w \<Rightarrow> 'w)) option \<Rightarrow> 'w
   \<Rightarrow> turn_result res \<times> 'w \<times> turn_event list" where
  "run_turn ar ta draws co w =
     (case setup_turn ar ta w of
        (Inl x, w1) \<Rightarrow> (Inl x, w1, [])
      | (Inr st, w1) \<Rightarrow>
          (case (case turn_gate ar (ta_subject ta) (ts_model st) of None \<Rightarrow> Inr None | Some gate \<Rightarrow> gate None w1) of
             Inl x \<Rightarrow> (Inl x, w1, [])
           | Inr (Some refusal) \<Rightarrow> (case refuse_turn ar ta st refusal of (r, evs) \<Rightarrow> (Inr r, w1, evs))
           | Inr None \<Rightarrow>
               (case graph_arguments st draws of
                  Inl x \<Rightarrow> (Inl x, w1, [])
                | Inr g \<Rightarrow>
                    let thread = thread_of ar (ta_thread_id ta) in
                    (case thread_load thread w1 of
                       (history, w2, evs1) \<Rightarrow>
                         let all_messages = (case history of Some h \<Rightarrow> h | None \<Rightarrow> []) @ ta_messages ta in
                         (case run_graph (graph_env_of ar ta st g) (recursion_limit (ts_max_calls st)) co CallModel
                                 (initial_state all_messages) w2 [] of
                            (out, s, w3, evs2) \<Rightarrow>
                              (case end_turn ar ta st thread history all_messages out s w3 of
                                 (r, w4, evs3) \<Rightarrow> (r, w4, evs1 @ evs2 @ evs3)))))))"

subsection \<open>How a turn can go\<close>

definition history_of :: "msg list option \<Rightarrow> msg list" where
  "history_of h = (case h of Some ms \<Rightarrow> ms | None \<Rightarrow> [])"

text \<open>A turn that reached the graph, with what was loaded, run and done at its end.\<close>

definition ran ::
  "('c, 's, 'h, 'w) agent_runtime \<Rightarrow> turn_args \<Rightarrow> (nat \<times> ('w \<Rightarrow> 'w)) option \<Rightarrow> turn_setup \<Rightarrow> int \<times> int \<times> string
   \<Rightarrow> msg list option \<Rightarrow> run_outcome \<Rightarrow> graph_state \<Rightarrow> 'w \<Rightarrow> turn_event list \<Rightarrow> turn_event list \<Rightarrow> bool" where
  "ran ar ta co st g history out s w3 evs1 evs2 \<longleftrightarrow>
     (\<exists>w1 w2. thread_load (thread_of ar (ta_thread_id ta)) w1 = (history, w2, evs1)
        \<and> run_graph (graph_env_of ar ta st g) (recursion_limit (ts_max_calls st)) co CallModel
            (initial_state (history_of history @ ta_messages ta)) w2 [] = (out, s, w3, evs2))"

lemma run_turn_cases:
  assumes "run_turn ar ta draws co w = (r, w', evs)"
  obtains (failed) x where "r = Inl x" "evs = []"
  | (refused) st refusal where "evs = snd (refuse_turn ar ta st refusal)" "r = Inr (fst (refuse_turn ar ta st refusal))"
  | (ran) st g history out s w3 evs1 evs2 evs3 where "ran ar ta co st g history out s w3 evs1 evs2"
      "end_turn ar ta st (thread_of ar (ta_thread_id ta)) history (history_of history @ ta_messages ta) out s w3 = (r, w', evs3)"
      "evs = evs1 @ evs2 @ evs3"
proof -
  obtain q w1 where q: "setup_turn ar ta w = (q, w1)" by fastforce
  show thesis
  proof (cases q)
    case (Inl x)
    have "(Inl x, w1, []) = (r, w', evs)" using assms q Inl by (simp add: run_turn_def)
    then show thesis using failed [of x] by simp
  next
    case (Inr st)
    let ?gate = "case turn_gate ar (ta_subject ta) (ts_model st) of None \<Rightarrow> Inr None | Some gate \<Rightarrow> gate None w1"
    show thesis
    proof (cases ?gate)
      case (Inl x)
      have "(Inl x, w1, []) = (r, w', evs)" using assms q \<open>q = Inr st\<close> Inl by (simp add: run_turn_def)
      then show thesis using failed [of x] by simp
    next
      case (Inr a)
      note a = this
      show thesis
      proof (cases a)
        case (Some refusal)
        then show thesis using assms q \<open>q = Inr st\<close> a refused [of st refusal]
          by (auto simp: run_turn_def split: prod.splits)
      next
        case None
        show thesis
        proof (cases "graph_arguments st draws")
          case (Inl x)
          have "(Inl x, w1, []) = (r, w', evs)" using assms q \<open>q = Inr st\<close> a None Inl by (simp add: run_turn_def)
          then show thesis using failed [of x] by simp
        next
          case (Inr g)
          obtain history w2 evs1 where l: "thread_load (thread_of ar (ta_thread_id ta)) w1 = (history, w2, evs1)"
            by (metis prod_cases3)
          obtain out s w3 evs2 where g: "run_graph (graph_env_of ar ta st g) (recursion_limit (ts_max_calls st)) co CallModel
            (initial_state (history_of history @ ta_messages ta)) w2 [] = (out, s, w3, evs2)" by (metis prod_cases4)
          have "ran ar ta co st g history out s w3 evs1 evs2" using l g by (auto simp: ran_def)
          then show thesis
            using ran assms q \<open>q = Inr st\<close> a None Inr l g
            by (auto simp: run_turn_def Let_def history_of_def split: prod.splits)
        qed
      qed
    qed
  qed
qed

lemma finish_turn_fields:
  "finish_turn ar m ms u outcome timeout ref = (r, evs) \<Longrightarrow>
     tr_messages r = ms \<and> tr_timed_out r = (timeout \<noteq> None) \<and> tr_budget_refused r = ref \<and> evs = [TurnMetric outcome]
     \<and> tr_usage r = u\<lparr>tu_cost := compute_turn_cost u (Some m) (ar_prices ar)\<rparr>"
  by (auto simp: finish_turn_def)

text \<open>What a finished run becomes, on the branch that completed and on the one that timed out.\<close>

lemma end_turn_Inr:
  assumes "end_turn ar ta st thread history all_messages out s w = (Inr r, w', evs)"
  shows "run_failure out = None \<and> (\<exists>w1 evs1 evs2.
       thread_save thread history (turn_messages ar st (out \<noteq> Completed) (drop (length (history_of history)) (gs_messages s))) w
         = (w1, evs1)
     \<and> finish_turn ar (ts_model st) (turn_messages ar st (out \<noteq> Completed) (gs_messages s)) (aggregate_turn_usage (gs_usage s))
         (outcome_text (out \<noteq> Completed) (gs_refused s)) (if out \<noteq> Completed then Some (turn_timeout st) else None)
         (out = Completed \<and> gs_refused s) = (r, [TurnMetric (outcome_text (out \<noteq> Completed) (gs_refused s))])
     \<and> record_usage ar (ta_subject ta) (ta_actor ta) r (ts_model st)
         (count_tool_messages (drop (length all_messages) (gs_messages s))) w1 = (w', evs2)
     \<and> evs = (if out \<noteq> Completed then [RuntimeTimeout] else []) @ evs1
         @ [TurnMetric (outcome_text (out \<noteq> Completed) (gs_refused s))] @ evs2)"
proof -
  have f: "run_failure out = None" using assms by (auto simp: end_turn_def split: option.splits)
  let ?new = "turn_messages ar st (out \<noteq> Completed) (drop (length (history_of history)) (gs_messages s))"
  obtain w1 evs1 where t: "thread_save thread history ?new w = (w1, evs1)" by fastforce
  obtain r' evs' where fin: "finish_turn ar (ts_model st) (turn_messages ar st (out \<noteq> Completed) (gs_messages s))
      (aggregate_turn_usage (gs_usage s)) (outcome_text (out \<noteq> Completed) (gs_refused s))
      (if out \<noteq> Completed then Some (turn_timeout st) else None) (out = Completed \<and> gs_refused s) = (r', evs')" by fastforce
  obtain w2 evs2 where u: "record_usage ar (ta_subject ta) (ta_actor ta) r' (ts_model st)
      (count_tool_messages (drop (length all_messages) (gs_messages s))) w1 = (w2, evs2)" by fastforce
  have "(Inr r', w2, (if out \<noteq> Completed then [RuntimeTimeout] else []) @ evs1 @ evs' @ evs2) = (Inr r, w', evs)"
    using assms unfolding end_turn_def f Let_def history_of_def [symmetric] t option.case prod.case
    using fin u by (simp add: conj_commute)
  then show ?thesis using f t fin u finish_turn_fields [OF fin] by auto
qed

subsection \<open>What a turn leaves behind\<close>

definition thread_saves :: "turn_event list \<Rightarrow> (string \<times> msg list) list" where
  "thread_saves evs = List.map_filter (\<lambda>ev. case ev of ThreadSaved t ms \<Rightarrow> Some (t, ms) | _ \<Rightarrow> None) evs"

definition usage_records :: "turn_event list \<Rightarrow> usage_record list" where
  "usage_records evs = List.map_filter (\<lambda>ev. case ev of UsageRecorded r \<Rightarrow> Some r | _ \<Rightarrow> None) evs"

lemma map_filter_app: "List.map_filter f (xs @ ys) = List.map_filter f xs @ List.map_filter f ys"
  by (simp add: map_filter_def)

lemma map_filter_none: "\<forall>x \<in> set xs. f x = None \<Longrightarrow> List.map_filter f xs = []"
  by (induction xs) (auto simp: map_filter_simps)

lemma events_app [simp]: "thread_saves (a @ b) = thread_saves a @ thread_saves b"
  "usage_records (a @ b) = usage_records a @ usage_records b"
  by (simp_all add: thread_saves_def usage_records_def map_filter_app)

lemma graph_silent:
  assumes "run_graph e steps co CallModel s w [] = (out, s', w', evs)"
  shows "thread_saves evs = [] \<and> usage_records evs = [] \<and> CheckpointerDegraded t \<notin> set evs"
  unfolding thread_saves_def usage_records_def
  using graph_event_kinds [OF assms] by (fastforce intro!: map_filter_none split: turn_event.splits)

lemma load_events:
  assumes "thread_load thread w = (history, w', evs)"
  shows "thread_saves evs = [] \<and> usage_records evs = [] \<and> (history \<noteq> None \<longrightarrow> evs = [])"
  using assms by (auto simp: thread_load_def thread_saves_def usage_records_def map_filter_simps split: option.splits prod.splits sum.splits)

lemma save_events:
  assumes "thread_save thread history new w = (w', evs)"
  shows "usage_records evs = [] \<and> CheckpointerDegraded ''read'' \<notin> set evs
     \<and> thread_saves evs = (case (thread, history) of (Some (t, c), Some _) \<Rightarrow> if new = [] then [] else [(t, new)] | _ \<Rightarrow> [])"
  using assms by (auto simp: thread_save_def thread_saves_def usage_records_def map_filter_simps split: option.splits prod.splits sum.splits if_splits)

lemma record_events:
  assumes "record_usage ar subject actor res m k w = (w', evs)"
  shows "thread_saves evs = [] \<and> CheckpointerDegraded ''read'' \<notin> set evs
     \<and> (case (ar_ledger ar, subject) of
          (Some l, Some s) \<Rightarrow> (\<exists>u. usage_records evs = [u] \<and> pair_of u = (ar_runtime_id ar, subject_key s)
            \<and> ur_total_tokens u = tu_total (tr_usage res) \<and> ur_cost_usd u = tu_cost (tr_usage res)
            \<and> ur_timed_out u = tr_timed_out res \<and> ur_tool_calls u = k)
        | _ \<Rightarrow> usage_records evs = [])"
  using assms
  by (auto simp: record_usage_def Let_def thread_saves_def usage_records_def map_filter_simps pair_of_def split: option.splits prod.splits sum.splits)

lemma metric_events: "thread_saves [TurnMetric x] = []" "usage_records [TurnMetric x] = []"
  "thread_saves [RuntimeTimeout] = []" "usage_records [RuntimeTimeout] = []" "thread_saves [] = []" "usage_records [] = []"
  "thread_saves (TurnMetric x # a) = thread_saves a" "usage_records (TurnMetric x # a) = usage_records a"
  "thread_saves (RuntimeTimeout # a) = thread_saves a" "usage_records (RuntimeTimeout # a) = usage_records a"
  "thread_saves (BudgetRefused # a) = thread_saves a" "usage_records (BudgetRefused # a) = usage_records a"
  by (simp_all add: thread_saves_def usage_records_def map_filter_simps)

lemma close_append: "answered h \<Longrightarrow> close_unanswered_tool_calls reason (h @ x) = h @ close_unanswered_tool_calls reason x"
proof (induction h)
  case (Cons m ms)
  then have "filter (\<lambda>c. call_id c \<notin> replied (ms @ x)) (tool_calls_of m) = []"
    using replied_mono [of ms x] by (auto simp: filter_empty_conv)
  then show ?case using Cons by simp
qed simp

lemma ran_prefix:
  assumes "ran ar ta co st g history out s w3 evs1 evs2"
  shows "\<exists>rest. gs_messages s = history_of history @ ta_messages ta @ rest"
    and "out = Completed \<Longrightarrow> ends_with_reply (gs_messages s)"
    and "thread_saves evs2 = [] \<and> usage_records evs2 = [] \<and> CheckpointerDegraded t \<notin> set evs2"
proof -
  obtain w2 where r: "run_graph (graph_env_of ar ta st g) (recursion_limit (ts_max_calls st)) co CallModel
            (initial_state (history_of history @ ta_messages ta)) w2 [] = (out, s, w3, evs2)"
    using assms by (auto simp: ran_def)
  show "\<exists>rest. gs_messages s = history_of history @ ta_messages ta @ rest"
    using run_prefix [OF r] by (auto simp: initial_state_def prefix_def)
  show "out = Completed \<Longrightarrow> ends_with_reply (gs_messages s)" using r by (metis completed_reply)
  show "thread_saves evs2 = [] \<and> usage_records evs2 = [] \<and> CheckpointerDegraded t \<notin> set evs2"
    by (rule graph_silent [OF r])
qed

lemma end_turn_fields:
  assumes "end_turn ar ta st thread history all_messages out s w = (Inr r, w', evs)"
  shows "tr_messages r = turn_messages ar st (out \<noteq> Completed) (gs_messages s)
     \<and> tr_timed_out r = (out \<noteq> Completed) \<and> tr_budget_refused r = (out = Completed \<and> gs_refused s)
     \<and> tr_usage r = (aggregate_turn_usage (gs_usage s))\<lparr>tu_cost :=
         compute_turn_cost (aggregate_turn_usage (gs_usage s)) (Some (ts_model st)) (ar_prices ar)\<rparr>"
proof -
  from end_turn_Inr [OF assms] have
    "finish_turn ar (ts_model st) (turn_messages ar st (out \<noteq> Completed) (gs_messages s)) (aggregate_turn_usage (gs_usage s))
         (outcome_text (out \<noteq> Completed) (gs_refused s)) (if out \<noteq> Completed then Some (turn_timeout st) else None)
         (out = Completed \<and> gs_refused s) = (r, [TurnMetric (outcome_text (out \<noteq> Completed) (gs_refused s))])"
    by (elim conjE exE)
  from finish_turn_fields [OF this] show ?thesis by simp
qed

subsection \<open>Properties\<close>

lemma timed_messages: "ends_with_reply (turn_messages ar st True ms) \<and> answered (turn_messages ar st True ms)"
  using answered_append [OF closed_answered, of "[AI (ar_timeout_reply ar) [] None]"]
  by (auto simp: turn_messages_def ends_with_reply_def)

text \<open>The messages a turn starts from: the history its thread was read with, if it has one that could be read, and the caller's.\<close>

definition turn_history ::
  "('c, 's, 'h, 'w) agent_runtime \<Rightarrow> turn_args \<Rightarrow> turn_event list \<Rightarrow> turn_result \<Rightarrow> msg list \<Rightarrow> msg list \<Rightarrow> bool" where
  "turn_history ar ta evs r h rest \<longleftrightarrow>
     (case thread_of ar (ta_thread_id ta) of
        None \<Rightarrow> h = []
      | Some (t, c) \<Rightarrow>
          (\<exists>w0 w1. co_load c t w0 = (Inr h, w1))
          \<or> h = [] \<and> (CheckpointerDegraded ''read'' \<in> set evs
               \<or> tr_budget_refused r \<and> (\<exists>refusal. rest = [AI refusal [] None])))"

lemma load_history:
  assumes "thread_load (thread_of ar tid) w = (history, w', evs)"
  shows "case thread_of ar tid of
       None \<Rightarrow> history_of history = []
     | Some (t, c) \<Rightarrow> (\<exists>w0 w1. co_load c t w0 = (Inr (history_of history), w1))
         \<or> history_of history = [] \<and> CheckpointerDegraded ''read'' \<in> set evs"
  using assms by (fastforce simp: thread_load_def history_of_def split: option.splits prod.splits sum.splits)

lemma subseq_appendI: "subseq xs ys \<Longrightarrow> subseq xs (ys @ zs)"
  by (rule subseq_order.trans [of _ ys]) (auto intro: prefix_imp_subseq)

lemma close_subseq: "subseq ms (close_unanswered_tool_calls reason ms)"
  by (induction ms) (auto intro: list_emb_append2)

text \<open>
  C24 What a caller gets.  A turn that returns always ends with a plain reply, whether it completed,
  was refused by a cap or ran out of time.  A turn that did not time out returns exactly the thread's
  history, when it could be read, the caller's messages and what the turn added, in that order.  A
  timed-out turn returns the same with an answer put after every tool call that had none, and then the
  deployment's text; so the history and the caller's messages are all there, in order, unchanged in
  front of everything else when their own calls were answered.  No turn is reported as both timed out
  and refused.
\<close>

theorem turn_always_replies:
  assumes "run_turn ar ta draws co w = (Inr r, w', evs)"
  shows "ends_with_reply (tr_messages r)
     \<and> (\<exists>h rest. turn_history ar ta evs r h rest
          \<and> (\<not> tr_timed_out r \<longrightarrow> tr_messages r = h @ ta_messages ta @ rest)
          \<and> (tr_timed_out r \<longrightarrow>
               (\<exists>reason. tr_messages r
                  = close_unanswered_tool_calls reason (h @ ta_messages ta @ rest) @ [AI (ar_timeout_reply ar) [] None]))
          \<and> subseq (h @ ta_messages ta) (tr_messages r)
          \<and> (answered (h @ ta_messages ta) \<longrightarrow> prefix (h @ ta_messages ta) (tr_messages r)))
     \<and> (tr_timed_out r \<longrightarrow> answered (tr_messages r) \<and> last (tr_messages r) = AI (ar_timeout_reply ar) [] None)
     \<and> \<not> (tr_timed_out r \<and> tr_budget_refused r)"
  using assms
proof (cases rule: run_turn_cases)
  case (refused st refusal)
  then have "tr_messages r = ta_messages ta @ [AI refusal [] None]" "\<not> tr_timed_out r" "tr_budget_refused r"
    by (simp_all add: refuse_turn_def finish_turn_def)
  then show ?thesis
    by (intro conjI exI [of _ "[]"] exI [of _ "[AI refusal [] None]"])
      (auto simp: ends_with_reply_def turn_history_def split: option.splits)
next
  case (ran st g history out s w3 evs1 evs2 evs3)
  let ?given = "history_of history @ ta_messages ta"
  obtain rest where rest: "gs_messages s = history_of history @ ta_messages ta @ rest"
    using ran_prefix(1) [OF ran(1)] by blast
  obtain w1 w2 where "thread_load (thread_of ar (ta_thread_id ta)) w1 = (history, w2, evs1)"
    using ran(1) by (auto simp: ran_def)
  then have h: "turn_history ar ta evs r (history_of history) rest"
    using load_history ran(3) by (fastforce simp: turn_history_def split: option.splits)
  from end_turn_fields [OF ran(2)] have m: "tr_messages r = turn_messages ar st (out \<noteq> Completed) (?given @ rest)"
    and t: "tr_timed_out r = (out \<noteq> Completed)" "tr_budget_refused r = (out = Completed \<and> gs_refused s)"
    using rest by simp_all
  show ?thesis
  proof (cases "out = Completed")
    case True
    then have "tr_messages r = ?given @ rest" using m by (simp add: turn_messages_def)
    then show ?thesis using True t h ran_prefix(2) [OF ran(1) True] rest
      by (intro conjI exI [of _ "history_of history"] exI [of _ rest]) (auto intro: list_emb_append2)
  next
    case False
    then have c: "tr_messages r = close_unanswered_tool_calls (timeout_text st) (?given @ rest) @ [AI (ar_timeout_reply ar) [] None]"
      using m by (simp add: turn_messages_def)
    have "subseq (?given @ rest) (tr_messages r)" unfolding c by (rule subseq_appendI [OF close_subseq])
    then have sub: "subseq ?given (tr_messages r)" by (rule subseq_order.trans [rotated]) (rule subseq_appendI, rule subseq_order.refl)
    have pre: "prefix ?given (tr_messages r)" if "answered ?given"
      unfolding c close_append [OF that] by simp
    have "answered (tr_messages r) \<and> ends_with_reply (tr_messages r)"
      using False m timed_messages [of ar st "?given @ rest"] by simp
    then show ?thesis using False t h c sub pre
      by (intro conjI exI [of _ "history_of history"] exI [of _ rest]) auto
  qed
qed simp

lemma saved_suffix:
  fixes ar :: "('c, 's, 'h, 'w) agent_runtime" and st :: turn_setup
  assumes "ran ar' ta co st' g history out s w3 evs1 evs2" and "history = Some h"
  defines "new \<equiv> turn_messages ar st (out \<noteq> Completed) (drop (length h) (gs_messages s))"
  assumes "new \<noteq> []"
  shows "answered h \<longrightarrow> turn_messages ar st (out \<noteq> Completed) (gs_messages s) = h @ new" and "ends_with_reply new"
proof -
  obtain rest where rest: "gs_messages s = h @ ta_messages ta @ rest"
    using ran_prefix(1) [OF assms(1)] assms(2) by (auto simp: history_of_def)
  have new: "new = turn_messages ar st (out \<noteq> Completed) (ta_messages ta @ rest)"
    using rest by (simp add: new_def)
  show "answered h \<longrightarrow> turn_messages ar st (out \<noteq> Completed) (gs_messages s) = h @ new"
    using close_append [of h] rest unfolding new by (simp add: turn_messages_def)
  show "ends_with_reply new"
  proof (cases "out = Completed")
    case True
    then have "ta_messages ta @ rest \<noteq> []" using assms(4) unfolding new by (simp add: turn_messages_def)
    then obtain m ms where ms: "ta_messages ta @ rest = ms @ [m]" by (metis rev_exhaust)
    then have "ends_with_reply (h @ ms @ [m])" using ran_prefix(2) [OF assms(1) True] rest by simp
    then show ?thesis using True ms unfolding new by (auto simp: turn_messages_def ends_with_reply_def)
  next
    case False
    then show ?thesis using timed_messages unfolding new by (metis (full_types))
  qed
qed

text \<open>
  C7 A thread only ever holds whole turns.  A turn saves at most once, and only when it returns:
  never when it fails, when the definition does not allow a conversation to be kept, or when the
  thread could not be read.  What it saves ends with the turn's reply, and the history it read,
  extended by it, is exactly what the caller got, when every call of that history had its answer.
\<close>

theorem threads_hold_whole_turns:
  assumes "run_turn ar ta draws co w = (r, w', evs)"
  shows "thread_saves evs = [] \<or>
     (\<exists>t c new h w0 w1 res. thread_saves evs = [(t, new)] \<and> r = Inr res
        \<and> ta_thread_id ta = Some t \<and> ar_checkpointer ar = Some c \<and> co_load c t w0 = (Inr h, w1)
        \<and> persists_conversation (PDict (ad_memory_policy (rt_definition (ar_equipped ar))))
        \<and> CheckpointerDegraded ''read'' \<notin> set evs
        \<and> ends_with_reply new \<and> (answered h \<longrightarrow> tr_messages res = h @ new))"
  using assms
proof (cases rule: run_turn_cases)
  case (refused st refusal)
  then show ?thesis by (simp add: refuse_turn_def finish_turn_def metric_events)
next
  case (ran st g history out s w3 evs1 evs2 evs3)
  let ?thread = "thread_of ar (ta_thread_id ta)"
  obtain w1 w2 where l: "thread_load ?thread w1 = (history, w2, evs1)" using ran(1) by (auto simp: ran_def)
  note quiet = load_events [OF l] ran_prefix(3) [OF ran(1), of "''read''"]
  show ?thesis
  proof (cases r)
    case (Inl x)
    then have "thread_saves evs3 = []"
      using ran(2) by (auto simp: end_turn_def Let_def metric_events split: option.splits prod.splits)
    then show ?thesis using quiet ran(3) by simp
  next
    case (Inr res)
    let ?new = "turn_messages ar st (out \<noteq> Completed) (drop (length (history_of history)) (gs_messages s))"
    from end_turn_Inr [OF ran(2) [unfolded Inr]] obtain w4 e1 e2 where
      sv: "thread_save ?thread history ?new w3 = (w4, e1)" and
      fin: "finish_turn ar (ts_model st) (turn_messages ar st (out \<noteq> Completed) (gs_messages s)) (aggregate_turn_usage (gs_usage s))
         (outcome_text (out \<noteq> Completed) (gs_refused s)) (if out \<noteq> Completed then Some (turn_timeout st) else None)
         (out = Completed \<and> gs_refused s) = (res, [TurnMetric (outcome_text (out \<noteq> Completed) (gs_refused s))])" and
      rec: "record_usage ar (ta_subject ta) (ta_actor ta) res (ts_model st)
         (count_tool_messages (drop (length (history_of history @ ta_messages ta)) (gs_messages s))) w4 = (w', e2)" and
      e3: "evs3 = (if out \<noteq> Completed then [RuntimeTimeout] else []) @ e1
         @ [TurnMetric (outcome_text (out \<noteq> Completed) (gs_refused s))] @ e2"
      by metis
    have evs: "thread_saves evs = thread_saves e1"
      using ran(3) e3 quiet record_events [OF rec] by (auto simp: metric_events)
    show ?thesis
    proof (cases "thread_saves e1 = []")
      case False
      then obtain t c h where th: "?thread = Some (t, c)" "history = Some h" "thread_saves e1 = [(t, ?new)]"
        using save_events [OF sv] by (auto split: option.splits if_splits)
      have cp: "ta_thread_id ta = Some t" "ar_checkpointer ar = Some c"
        "persists_conversation (PDict (ad_memory_policy (rt_definition (ar_equipped ar))))"
        using th(1) by (auto simp: thread_of_def split: option.splits if_splits)
      have ld: "co_load c t w1 = (Inr h, w2)" "evs1 = []"
        using l th by (auto simp: thread_load_def split: prod.splits sum.splits)
      have nod: "CheckpointerDegraded ''read'' \<notin> set evs"
        using ran(3) e3 ld(2) quiet save_events [OF sv] record_events [OF rec] by auto
      have ne: "?new \<noteq> []" using th save_events [OF sv] by (auto split: if_splits)
      have "tr_messages res = turn_messages ar st (out \<noteq> Completed) (gs_messages s)" using finish_turn_fields [OF fin] by simp
      then have "answered h \<longrightarrow> tr_messages res = h @ ?new" and "ends_with_reply ?new"
        using saved_suffix [OF ran(1) th(2), of ar st] ne th(2) by (simp_all add: history_of_def)
      then show ?thesis
        using evs th(3) Inr cp ld(1) nod
        by (intro disjI2 exI [of _ t] exI [of _ c] exI [of _ ?new] exI [of _ h] exI [of _ w1] exI [of _ w2] exI [of _ res]) simp
    qed (use evs in simp)
  qed
qed (simp add: metric_events)

text \<open>
  Every turn is metered once.  With a ledger and a subject, a turn that reached the model is
  recorded exactly once, under the runtime and the subject, with the tokens and the cost of its
  result and the tool replies it added; a turn that failed, or that a cap refused before any model
  call, is not recorded.
\<close>

theorem turns_metered_once:
  assumes "run_turn ar ta draws co w = (r, w', evs)" and "ar_ledger ar = Some l" and "ta_subject ta = Some s"
  shows "case r of Inl _ \<Rightarrow> usage_records evs = []
     | Inr res \<Rightarrow>
         if tr_budget_refused res \<and> tu_model_calls (tr_usage res) = Some 0 then usage_records evs = []
         else \<exists>u. usage_records evs = [u] \<and> pair_of u = (ar_runtime_id ar, subject_key s)
            \<and> ur_total_tokens u = tu_total (tr_usage res) \<and> ur_cost_usd u = tu_cost (tr_usage res)
            \<and> ur_timed_out u = tr_timed_out res"
  using assms(1)
proof (cases rule: run_turn_cases)
  case (refused st refusal)
  then show ?thesis by (simp add: refuse_turn_def finish_turn_def metric_events)
next
  case (ran st g history out gs w3 evs1 evs2 evs3)
  obtain w1 w2 where l: "thread_load (thread_of ar (ta_thread_id ta)) w1 = (history, w2, evs1)"
    and run: "run_graph (graph_env_of ar ta st g) (recursion_limit (ts_max_calls st)) co CallModel
            (initial_state (history_of history @ ta_messages ta)) w2 [] = (out, gs, w3, evs2)"
    using ran(1) by (auto simp: ran_def)
  note quiet = load_events [OF l] ran_prefix(3) [OF ran(1), of "''read''"]
  show ?thesis
  proof (cases r)
    case (Inl x)
    then have "usage_records evs3 = []"
      using ran(2) by (auto simp: end_turn_def Let_def metric_events split: option.splits prod.splits)
    then show ?thesis using quiet ran(3) Inl by simp
  next
    case (Inr res)
    from end_turn_Inr [OF ran(2) [unfolded Inr]] obtain w4 e1 e2 new where
      sv: "thread_save (thread_of ar (ta_thread_id ta)) history new w3 = (w4, e1)" and
      rec: "record_usage ar (ta_subject ta) (ta_actor ta) res (ts_model st)
         (count_tool_messages (drop (length (history_of history @ ta_messages ta)) (gs_messages gs))) w4 = (w', e2)" and
      e3: "evs3 = (if out \<noteq> Completed then [RuntimeTimeout] else []) @ e1
         @ [TurnMetric (outcome_text (out \<noteq> Completed) (gs_refused gs))] @ e2"
      by (elim conjE exE)
    have "usage_records evs = usage_records e2"
      using ran(3) e3 quiet save_events [OF sv] by (auto simp: metric_events)
    moreover have "\<not> (tr_budget_refused res \<and> tu_model_calls (tr_usage res) = Some 0)"
    proof -
      have "gs_refused gs \<longrightarrow> gs_usage gs \<noteq> []"
        using refused_after_a_call [OF run] by (simp add: initial_state_def)
      then show ?thesis
        using end_turn_fields [OF ran(2) [unfolded Inr]]
        by (auto simp: aggregate_turn_usage_def Let_def UNKNOWN_TURN_USAGE_def)
    qed
    ultimately show ?thesis using record_events [OF rec] assms(2,3) Inr by auto
  qed
qed (simp add: usage_records_def map_filter_simps)

subsection \<open>A concrete turn\<close>

definition keeping_runtime :: "unit runtime" where
  "keeping_runtime = (order_runtime [order_class])\<lparr>rt_definition := (rt_definition (order_runtime [order_class]))
     \<lparr>ad_memory_policy := [(''persist_conversation'', PBool True)]\<rparr>\<rparr>"

definition demo_history :: "msg list" where
  "demo_history = [Human ''hi'', AI ''hello'' [] None]"

definition demo_agent :: "(unit, unit, string, nat) agent_runtime" where
  "demo_agent = \<lparr>ar_registry = order_registry, ar_equipped = keeping_runtime, ar_caller = pyval_caller,
     ar_bound_model = demo_model, ar_base_model = demo_model, ar_count = (\<lambda>ms. int (length ms)),
     ar_fixed_count = (\<lambda>ms. int (length ms)), ar_json = (\<lambda>_. Inr []), ar_now = (\<lambda>_. (2025, 3, 10, 9)),
     ar_new_id = (\<lambda>w. ''id''), ar_model_id = ''m'', ar_runtime_id = ''shop'', ar_deployment_limits = [],
     ar_timeout_reply = ''later'', ar_tool_error_reply = ''sorry to fail'', ar_prices = [],
     ar_budget = Some demo_caps,
     ar_ledger = Some \<lparr>lo_totals = (\<lambda>w. Inr (\<lambda>p t. totals_of [])), lo_record = (\<lambda>r w. (Inr (), w + 100))\<rparr>,
     ar_checkpointer = Some \<lparr>co_load = (\<lambda>t w. (Inr demo_history, w)), co_save = (\<lambda>t ms w. (Inr (), w + 1000))\<rparr>,
     ar_user_memory = False, ar_facts = (\<lambda>_ _ w. (Inr None, w))\<rparr>"

definition demo_subject :: turn_subject where
  "demo_subject = \<lparr>subject_key = ''participant:1'', subject_channel = None, subject_address = None\<rparr>"

definition demo_turn :: turn_args where
  "demo_turn = \<lparr>ta_messages = [Human ''order twice''], ta_permissions = Some [''write:orders''], ta_thread_id = Some ''t1'',
     ta_model_id = None, ta_subject = Some demo_subject, ta_actor = None, ta_untrusted = []\<rparr>"

definition turn_shape ::
  "(nat \<times> (nat \<Rightarrow> nat)) option \<Rightarrow> (nat \<times> bool \<times> (string \<times> nat) list \<times> nat \<times> nat option \<times> bool) option" where
  "turn_shape co =
     (case run_turn demo_agent demo_turn [] co 0 of
        (Inr r, w, evs) \<Rightarrow>
          Some (length (tr_messages r), tr_timed_out r, map (\<lambda>(t, ms). (t, length ms)) (thread_saves evs),
                length (usage_records evs), tu_model_calls (tr_usage r), tr_budget_refused r)
      | _ \<Rightarrow> None)"

text \<open>The same turn to its end, and cut off while its tools run.\<close>

lemma demo_turns:
  "turn_shape None = Some (7, False, [(''t1'', 5)], 1, Some 2, False)"
  "turn_shape (Some (1, \<lambda>w. w + 7)) = Some (7, True, [(''t1'', 5)], 1, Some 1, False)"
  by code_simp+

lemma turn_shapeE:
  assumes "turn_shape co = Some (n, t, saves, m, calls, ref)"
  obtains r w evs where "run_turn demo_agent demo_turn [] co 0 = (Inr r, w, evs)" "length (tr_messages r) = n"
    "tr_timed_out r = t" "map (\<lambda>(t, ms). (t, length ms)) (thread_saves evs) = saves" "length (usage_records evs) = m"
    "tu_model_calls (tr_usage r) = calls" "tr_budget_refused r = ref"
  using assms by (auto simp: turn_shape_def split: prod.splits sum.splits)

theorem turn_always_replies_witness:
  "\<exists>r w evs h. run_turn demo_agent demo_turn [] (Some (1, \<lambda>w. w + 7)) 0 = (Inr r, w, evs)
     \<and> tr_timed_out r \<and> answered (tr_messages r) \<and> last (tr_messages r) = AI ''later'' [] None
     \<and> subseq (h @ ta_messages demo_turn) (tr_messages r)"
proof -
  obtain r w evs where t: "run_turn demo_agent demo_turn [] (Some (1, \<lambda>w. w + 7)) 0 = (Inr r, w, evs)" "tr_timed_out r"
    by (rule turn_shapeE [OF demo_turns(2)]) auto
  have l: "ar_timeout_reply demo_agent = ''later''" by (simp add: demo_agent_def)
  note T = turn_always_replies [OF t(1)]
  from T obtain h where "subseq (h @ ta_messages demo_turn) (tr_messages r)" by blast
  then show ?thesis using T t l
    by (intro exI [of _ r] exI [of _ w] exI [of _ evs] exI [of _ h]) simp
qed

theorem threads_hold_whole_turns_witness:
  "\<exists>new. ends_with_reply new \<and> length new = 5 \<and> length (demo_history @ new) = 7"
proof -
  obtain r w evs where t: "run_turn demo_agent demo_turn [] None 0 = (Inr r, w, evs)"
    and s: "map (\<lambda>(t, ms). (t, length ms)) (thread_saves evs) = [(''t1'', 5)]"
    by (rule turn_shapeE [OF demo_turns(1)]) auto
  have "thread_saves evs \<noteq> []" using s by auto
  then obtain n where n: "thread_saves evs = [n]" "ends_with_reply (snd n)"
    using threads_hold_whole_turns [OF t] by auto
  have "length (snd n) = 5" using s n(1) by (cases n) simp
  then show ?thesis using n(2) by (intro exI [of _ "snd n"]) (simp add: demo_history_def)
qed

theorem turns_metered_once_witness:
  "\<exists>r w evs u. run_turn demo_agent demo_turn [] None 0 = (Inr r, w, evs)
     \<and> usage_records evs = [u] \<and> ur_total_tokens u = tu_total (tr_usage r)"
proof -
  obtain r w evs where t: "run_turn demo_agent demo_turn [] None 0 = (Inr r, w, evs)" "\<not> tr_budget_refused r"
    by (rule turn_shapeE [OF demo_turns(1)]) auto
  have l: "ar_ledger demo_agent = Some \<lparr>lo_totals = (\<lambda>w. Inr (\<lambda>p t. totals_of [])), lo_record = (\<lambda>r w. (Inr (), w + 100))\<rparr>"
    and s: "ta_subject demo_turn = Some demo_subject" by (simp_all add: demo_agent_def demo_turn_def)
  show ?thesis using turns_metered_once [OF t(1) l s] t by auto
qed

end
