(* ===== verification/Retry_Policy.thy ===== *)
theory Retry_Policy
  imports Prelude
begin

section \<open>Which failed work is retried\<close>

text \<open>
  \<open>services/retry_policy.py\<close>: the classification of an exception as transient, the policy of one
  runtime and the policies built from the application's arguments and the environment.

  An exception is a record of what the classifier reads of it: the classes of its method
  resolution order as pairs of name and module, its \<open>status_code\<close>, the \<open>status_code\<close> of its
  \<open>response\<close>, and its \<open>__cause__\<close>.  Exceptions are objects, and a chain of causes can be cyclic, so
  they live in a heap and are named by their identity.
\<close>

subsection \<open>Exceptions\<close>

record exn =
  exn_mro :: "(string \<times> string) list"
  status_code :: pyval
  response_status :: pyval
  cause :: "nat option"

type_synonym exc = "(nat \<Rightarrow> exn) \<times> nat"

definition class_name_of :: "exc \<Rightarrow> string" where
  "class_name_of x = (case exn_mro (fst x (snd x)) of [] \<Rightarrow> '''' | c # _ \<Rightarrow> fst c)"

definition is_instance :: "exn \<Rightarrow> (string \<times> string) list \<Rightarrow> bool" where
  "is_instance e types = (\<exists>c \<in> set (exn_mro e). c \<in> set types)"

definition BUILTIN_NETWORK :: "(string \<times> string) list" where
  "BUILTIN_NETWORK = [(''TimeoutError'', ''builtins''), (''ConnectionError'', ''builtins'')]"

subsection \<open>The classification\<close>

definition DEFAULT_MAX_OUTBOX_ATTEMPTS :: int where "DEFAULT_MAX_OUTBOX_ATTEMPTS = 5"

definition DEFAULT_FALLBACK_REPLY :: string where
  "DEFAULT_FALLBACK_REPLY =
     ''Sorry, something went wrong while handling your message. Please try again.''"

definition MAX_FALLBACK_REPLY_CHARS :: nat where "MAX_FALLBACK_REPLY_CHARS = 1000"

definition TRANSIENT_STATUSES :: "int list" where "TRANSIENT_STATUSES = [408, 429]"

definition TRANSIENT_BY_LIBRARY :: "(string \<times> string list) list" where
  "TRANSIENT_BY_LIBRARY =
     (let http = [''TransportError'', ''TimeoutException'', ''ConnectTimeout'', ''ReadTimeout'',
                  ''WriteTimeout'', ''PoolTimeout'', ''NetworkError'', ''ConnectError'', ''ReadError'',
                  ''WriteError'', ''CloseError'', ''RemoteProtocolError'', ''ProxyError''];
          api = [''APITimeoutError'', ''APIConnectionError'', ''RateLimitError'', ''InternalServerError''] in
      [(''httpx'', http), (''openai'', api), (''anthropic'', api), (''groq'', api),
       (''sqlalchemy'', [''OperationalError'', ''InterfaceError'', ''DisconnectionError'', ''TimeoutError'']),
       (''asyncpg'', [''PostgresConnectionError'', ''ConnectionDoesNotExistError'', ''ConnectionFailureError'',
                    ''CannotConnectNowError'', ''TooManyConnectionsError'', ''InterfaceError'']),
       (''psycopg'', [''OperationalError'', ''InterfaceError'']),
       (''psycopg2'', [''OperationalError'', ''InterfaceError'']),
       (''redis'', [''ConnectionError'', ''TimeoutError'', ''BusyLoadingError'', ''ClusterDownError'']),
       (''httpcore'', http)])"

definition MAX_CAUSE_DEPTH :: nat where "MAX_CAUSE_DEPTH = 8"

definition library_of :: "string \<Rightarrow> string" where
  "library_of mdl = takeWhile (\<lambda>c. c \<noteq> CHR ''.'') mdl"

definition transient_by_name :: "exn \<Rightarrow> bool" where
  "transient_by_name e = list_ex (\<lambda>(name, mdl).
     case map_of TRANSIENT_BY_LIBRARY (library_of mdl) of
       Some names \<Rightarrow> name \<in> set names
     | None \<Rightarrow> False) (exn_mro e)"

definition status_of :: "exn \<Rightarrow> int option" where
  "status_of e =
     (case (if status_code e = PNone then response_status e else status_code e) of
        PInt n \<Rightarrow> Some n
      | _ \<Rightarrow> None)"

definition is_transient_one :: "exn \<Rightarrow> bool" where
  "is_transient_one e =
     (if is_instance e BUILTIN_NETWORK then True
      else case status_of e of
             Some s \<Rightarrow> s \<in> set TRANSIENT_STATUSES \<or> 500 \<le> s
           | None \<Rightarrow> transient_by_name e)"

fun walk_causes :: "nat \<Rightarrow> (nat \<Rightarrow> exn) \<Rightarrow> nat set \<Rightarrow> nat option \<Rightarrow> bool" where
  "walk_causes 0 h seen cur = False"
| "walk_causes (Suc n) h seen None = False"
| "walk_causes (Suc n) h seen (Some x) =
     (if x \<in> seen then False
      else if is_transient_one (h x) then True
      else walk_causes n h (insert x seen) (cause (h x)))"

definition is_transient_failure :: "exc \<Rightarrow> bool" where
  "is_transient_failure x = walk_causes MAX_CAUSE_DEPTH (fst x) {} (Some (snd x))"

subsection \<open>Policies\<close>

definition validate_fallback_reply :: "pyval \<Rightarrow> string res" where
  "validate_fallback_reply text =
     (case text of
        PStr s \<Rightarrow> if strip s = [] then Inl (ValueErr ''fallback reply must be non-empty plain text'')
                 else if MAX_FALLBACK_REPLY_CHARS < length s then Inl (ValueErr ''fallback reply too long'')
                 else Inr s
      | _ \<Rightarrow> Inl (ValueErr ''fallback reply must be non-empty plain text''))"

text \<open>A classifier is deployment code: it takes the exception and may raise.\<close>

type_synonym classifier = "exc \<Rightarrow> bool res"

record retry_policy =
  max_attempts :: int
  is_transient :: classifier
  fallback_reply :: string

datatype policy_field = FVal pyval | FClassifier classifier

definition default_classifier :: classifier where
  "default_classifier x = Inr (is_transient_failure x)"

definition default_policy :: retry_policy where
  "default_policy = \<lparr>max_attempts = DEFAULT_MAX_OUTBOX_ATTEMPTS, is_transient = default_classifier,
     fallback_reply = DEFAULT_FALLBACK_REPLY\<rparr>"

definition POLICY_FIELDS :: "string list" where
  "POLICY_FIELDS = [''max_attempts'', ''is_transient'', ''fallback_reply'']"

definition checked_attempts :: "policy_field \<Rightarrow> int res" where
  "checked_attempts v =
     (case v of FVal (PInt n) \<Rightarrow> if n < 1 then Inl (ValueErr ''max_attempts must be a positive integer'') else Inr n
      | _ \<Rightarrow> Inl (ValueErr ''max_attempts must be a positive integer''))"

definition checked_classifier :: "policy_field \<Rightarrow> classifier res" where
  "checked_classifier v =
     (case v of FClassifier f \<Rightarrow> Inr f
      | FVal _ \<Rightarrow> Inl (ValueErr ''is_transient must be a callable taking the exception''))"

definition checked_fallback :: "policy_field \<Rightarrow> string res" where
  "checked_fallback v =
     validate_fallback_reply (case v of FVal p \<Rightarrow> p | FClassifier _ \<Rightarrow> PNone)"

definition field_or :: "(string \<times> policy_field) list \<Rightarrow> string \<Rightarrow> policy_field \<Rightarrow> policy_field" where
  "field_or fs k d = (case map_of fs k of Some v \<Rightarrow> v | None \<Rightarrow> d)"

text \<open>\<open>OutboxRetryPolicy(**fields)\<close>: an unknown name is a \<open>TypeError\<close>, the rest \<open>__post_init__\<close>.\<close>

definition OutboxRetryPolicy :: "(string \<times> policy_field) list \<Rightarrow> retry_policy res" where
  "OutboxRetryPolicy fs =
     bindR (guardR (list_all (\<lambda>k. k \<in> set POLICY_FIELDS) (dkeys fs)) (TypeErr ''unexpected keyword argument'')) (\<lambda>_.
     bindR (checked_attempts (field_or fs ''max_attempts'' (FVal (PInt DEFAULT_MAX_OUTBOX_ATTEMPTS)))) (\<lambda>n.
     bindR (checked_classifier (field_or fs ''is_transient'' (FClassifier default_classifier))) (\<lambda>c.
     bindR (checked_fallback (field_or fs ''fallback_reply'' (FVal (PStr DEFAULT_FALLBACK_REPLY)))) (\<lambda>r.
     Inr \<lparr>max_attempts = n, is_transient = c, fallback_reply = r\<rparr>))))"

definition retrying :: "(string \<times> string) list \<Rightarrow> bool \<Rightarrow> (string \<times> policy_field) list \<Rightarrow> retry_policy res" where
  "retrying types include_default fs =
     (if ''is_transient'' \<in> set (dkeys fs) then Inl (TypeErr ''multiple values for keyword argument'')
      else OutboxRetryPolicy ((''is_transient'', FClassifier (\<lambda>x.
        Inr (is_instance (fst x (snd x)) types \<or> include_default \<and> is_transient_failure x))) # fs))"

datatype given_policy = GivenPolicy retry_policy | GivenFields "(string \<times> policy_field) list" | GivenOther

definition given_to_policy :: "given_policy \<Rightarrow> retry_policy res" where
  "given_to_policy g =
     (case g of
        GivenPolicy p \<Rightarrow> Inr p
      | GivenFields fs \<Rightarrow> (case OutboxRetryPolicy fs of
            Inl _ \<Rightarrow> Inl (ValueErr ''outbox retry policy'')
          | Inr p \<Rightarrow> Inr p)
      | GivenOther \<Rightarrow> Inl (ValueErr ''outbox retry policy must be an OutboxRetryPolicy or a mapping''))"

definition env_fields ::
  "(string \<times> pyval) list \<Rightarrow> (string \<times> pyval) list \<Rightarrow> string \<Rightarrow> (string \<times> policy_field) list" where
  "env_fields attempts replies rid =
     (case map_of attempts rid of Some n \<Rightarrow> [(''max_attempts'', FVal n)] | None \<Rightarrow> [])
     @ (case map_of replies rid of Some r \<Rightarrow> [(''fallback_reply'', FVal r)] | None \<Rightarrow> [])"

definition add_env_policy ::
  "(string \<times> pyval) list \<Rightarrow> (string \<times> pyval) list \<Rightarrow> (string \<times> retry_policy) list \<Rightarrow> string
   \<Rightarrow> (string \<times> retry_policy) list res" where
  "add_env_policy attempts replies built rid =
     (if rid \<in> set (dkeys built) then Inr built
      else case OutboxRetryPolicy (env_fields attempts replies rid) of
             Inl _ \<Rightarrow> Inl (ValueErr ''outbox retry policy'')
           | Inr p \<Rightarrow> Inr (dset built rid p))"

definition build_retry_policies ::
  "(string \<times> given_policy) list \<Rightarrow> (string \<times> pyval) list \<Rightarrow> (string \<times> pyval) list
   \<Rightarrow> (string \<times> retry_policy) list res" where
  "build_retry_policies policies attempts replies =
     bindR (foldR (\<lambda>built (rid, g). bindR (given_to_policy g) (\<lambda>p. Inr (dset built rid p))) [] policies) (\<lambda>built.
     foldR (add_env_policy attempts replies) built (sorted_list_of_set (set (dkeys attempts) \<union> set (dkeys replies))))"

subsection \<open>The bounded walk is a search along the chain\<close>

fun cause_at :: "(nat \<Rightarrow> exn) \<Rightarrow> nat option \<Rightarrow> nat \<Rightarrow> nat option" where
  "cause_at h cur 0 = cur"
| "cause_at h cur (Suc k) = cause_at h (case cur of None \<Rightarrow> None | Some x \<Rightarrow> cause (h x)) k"

definition transient_within :: "(nat \<Rightarrow> exn) \<Rightarrow> nat option \<Rightarrow> nat \<Rightarrow> bool" where
  "transient_within h cur n \<longleftrightarrow> (\<exists>k < n. \<exists>y. cause_at h cur k = Some y \<and> is_transient_one (h y))"

lemma cause_at_None [simp]: "cause_at h None k = None"
  by (induction k) simp_all

lemma transient_within_0 [simp]: "\<not> transient_within h cur 0"
  by (simp add: transient_within_def)

lemma transient_within_None [simp]: "\<not> transient_within h None n"
  by (simp add: transient_within_def)

lemma transient_within_Suc [simp]:
  "transient_within h (Some x) (Suc n) \<longleftrightarrow> is_transient_one (h x) \<or> transient_within h (cause (h x)) n"
  unfolding transient_within_def using less_Suc_eq_0_disj by auto

definition dead_end :: "(nat \<Rightarrow> exn) \<Rightarrow> nat set \<Rightarrow> nat option \<Rightarrow> bool" where
  "dead_end h seen cur \<longleftrightarrow>
     (\<forall>y \<in> seen. \<not> is_transient_one (h y) \<and> (cause (h y) = None \<or> cause (h y) = cur \<or> cause (h y) \<in> Some ` seen))"

lemma dead_end_stays:
  assumes "dead_end h seen (Some x)" and "x \<in> seen"
  shows "\<not> transient_within h (Some x) n"
  using assms
proof (induction n arbitrary: x)
  case (Suc n)
  have x: "\<not> is_transient_one (h x)" and c: "cause (h x) = None \<or> cause (h x) \<in> Some ` seen"
    using Suc.prems by (auto simp: dead_end_def)
  show ?case
  proof (cases "cause (h x)")
    case (Some y)
    then have "y \<in> seen" using c by auto
    moreover have "dead_end h seen (Some y)" using Suc.prems by (auto simp: dead_end_def)
    ultimately show ?thesis using Suc.IH x Some by simp
  qed (use x in simp)
qed simp

lemma walk_causes_search: "dead_end h seen cur \<Longrightarrow> walk_causes n h seen cur \<longleftrightarrow> transient_within h cur n"
proof (induction n h seen cur rule: walk_causes.induct)
  case (3 n h seen x)
  show ?case
  proof (cases "x \<in> seen \<or> is_transient_one (h x)")
    case True
    then show ?thesis
      using dead_end_stays [OF "3.prems", of "Suc n"] by (cases "x \<in> seen") simp_all
  next
    case False
    then have "dead_end h (insert x seen) (cause (h x))"
      using "3.prems" by (auto simp: dead_end_def)
    then show ?thesis using "3.IH" False by simp
  qed
qed simp_all

text \<open>
  What counts as transient. The loop over the causes, with its depth and its set of seen
  exceptions, is a plain search: a failure is transient exactly when the exception or one of its
  first seven explicit causes is a network or timeout error, carries a status a retry can fix, or,
  carrying no status, is of a class its library documents as such. A cycle of causes neither hides a
  transient exception nor makes up one.
\<close>

theorem transient_failure_search:
  "is_transient_failure (h, x) \<longleftrightarrow>
     (\<exists>k < 8. \<exists>y. cause_at h (Some x) k = Some y \<and>
        (is_instance (h y) BUILTIN_NETWORK
         \<or> (\<exists>s. status_of (h y) = Some s \<and> (s = 408 \<or> s = 429 \<or> 500 \<le> s))
         \<or> status_of (h y) = None \<and> transient_by_name (h y)))"
proof -
  have one: "is_transient_one e \<longleftrightarrow> is_instance e BUILTIN_NETWORK
      \<or> (\<exists>s. status_of e = Some s \<and> (s = 408 \<or> s = 429 \<or> 500 \<le> s))
      \<or> status_of e = None \<and> transient_by_name e" for e
    by (auto simp: is_transient_one_def TRANSIENT_STATUSES_def split: option.splits)
  have "is_transient_failure (h, x) \<longleftrightarrow> transient_within h (Some x) 8"
    using walk_causes_search [of h "{}" "Some x" 8]
    by (simp add: is_transient_failure_def MAX_CAUSE_DEPTH_def dead_end_def)
  then show ?thesis by (simp only: transient_within_def one)
qed

subsection \<open>The policies that are built\<close>

definition policy_ok :: "retry_policy \<Rightarrow> bool" where
  "policy_ok p \<longleftrightarrow> 1 \<le> max_attempts p \<and> strip (fallback_reply p) \<noteq> []
     \<and> length (fallback_reply p) \<le> MAX_FALLBACK_REPLY_CHARS"

lemma validate_fallback_reply_Inr:
  "validate_fallback_reply v = Inr s \<longleftrightarrow>
     v = PStr s \<and> strip s \<noteq> [] \<and> length s \<le> MAX_FALLBACK_REPLY_CHARS"
  by (auto simp: validate_fallback_reply_def split: pyval.splits)

lemma OutboxRetryPolicy_ok: "OutboxRetryPolicy fs = Inr p \<Longrightarrow> policy_ok p"
  by (auto simp: OutboxRetryPolicy_def bindR_eq_Inr guardR_eq_Inr policy_ok_def checked_attempts_def
      checked_fallback_def validate_fallback_reply_Inr
      split: policy_field.splits pyval.splits if_splits)

lemma env_policy_Inr:
  assumes "OutboxRetryPolicy (env_fields attempts replies rid) = Inr p"
  shows "PInt (max_attempts p) = (case map_of attempts rid of Some n \<Rightarrow> n | None \<Rightarrow> PInt DEFAULT_MAX_OUTBOX_ATTEMPTS)"
    and "PStr (fallback_reply p) = (case map_of replies rid of Some r \<Rightarrow> r | None \<Rightarrow> PStr DEFAULT_FALLBACK_REPLY)"
    and "is_transient p = default_classifier"
  using assms
  by (auto simp: OutboxRetryPolicy_def bindR_eq_Inr guardR_eq_Inr checked_attempts_def checked_fallback_def
      checked_classifier_def validate_fallback_reply_Inr field_or_def env_fields_def
      split: policy_field.splits pyval.splits if_splits option.splits)

definition given_ok :: "given_policy \<Rightarrow> bool" where
  "given_ok g = (case g of GivenPolicy p \<Rightarrow> policy_ok p | _ \<Rightarrow> True)"

lemma given_to_policy_ok: "given_to_policy g = Inr p \<Longrightarrow> given_ok g \<Longrightarrow> policy_ok p"
  by (auto simp: given_to_policy_def given_ok_def OutboxRetryPolicy_ok split: given_policy.splits sum.splits)

definition built_from ::
  "(string \<times> given_policy) list \<Rightarrow> (string \<times> retry_policy) list \<Rightarrow> bool" where
  "built_from policies built \<longleftrightarrow>
     (\<forall>rid. case map_of built rid of
        None \<Rightarrow> rid \<notin> set (dkeys policies)
      | Some p \<Rightarrow> \<exists>g. (rid, g) \<in> set policies \<and> given_to_policy g = Inr p)"

lemma given_policies:
  assumes "foldR (\<lambda>built (rid, g). bindR (given_to_policy g) (\<lambda>p. Inr (dset built rid p))) [] policies = Inr built"
    and "distinct (dkeys policies)"
  shows "built_from policies built"
  using assms
proof (induction policies arbitrary: built rule: rev_induct)
  case (snoc x xs)
  obtain rid g where x: "x = (rid, g)" by (cases x)
  from snoc.prems(1) obtain b p where
    b: "foldR (\<lambda>built (rid, g). bindR (given_to_policy g) (\<lambda>p. Inr (dset built rid p))) [] xs = Inr b"
    and p: "given_to_policy g = Inr p" and built: "built = dset b rid p"
    by (auto simp: foldR_append bindR_eq_Inr x)
  have "built_from xs b" using snoc.IH [OF b] snoc.prems(2) by (simp add: dkeys_def)
  then show ?case
    unfolding built_from_def built using p
    by (force simp: x dkeys_def split: option.splits)
qed (simp add: built_from_def dkeys_def)

lemma built_from_Some: "built_from ps b \<Longrightarrow> map_of b rid = Some p \<Longrightarrow> \<exists>g. (rid, g) \<in> set ps \<and> given_to_policy g = Inr p"
  unfolding built_from_def by (drule spec [of _ rid]) simp

lemma built_from_None: "built_from ps b \<Longrightarrow> map_of b rid = None \<Longrightarrow> rid \<notin> set (dkeys ps)"
  unfolding built_from_def by (drule spec [of _ rid]) simp

lemma add_env_policy_Inr:
  assumes "add_env_policy attempts replies built x = Inr b"
  obtains (Kept) p where "map_of built x = Some p" and "b = built"
  | (Added) p where "map_of built x = None" and "OutboxRetryPolicy (env_fields attempts replies x) = Inr p"
      and "b = dset built x p"
  using assms by (cases "map_of built x") (auto simp: add_env_policy_def map_of_None_dkeys map_of_Some_dkeys
      split: if_splits sum.splits)

definition env_result ::
  "(string \<times> pyval) list \<Rightarrow> (string \<times> pyval) list \<Rightarrow> string set \<Rightarrow> string \<Rightarrow> retry_policy option \<Rightarrow> retry_policy option \<Rightarrow> bool"
  where
  "env_result attempts replies xs rid before after \<longleftrightarrow>
     (case before of Some p \<Rightarrow> after = Some p
      | None \<Rightarrow> if rid \<in> xs
          then \<exists>p. after = Some p \<and> OutboxRetryPolicy (env_fields attempts replies rid) = Inr p
          else after = None)"

lemma env_policies:
  "foldR (add_env_policy attempts replies) built xs = Inr t \<Longrightarrow>
   env_result attempts replies (set xs) rid (map_of built rid) (map_of t rid)"
proof (induction xs arbitrary: built)
  case (Cons x xs)
  then obtain b where x: "add_env_policy attempts replies built x = Inr b"
    and t: "foldR (add_env_policy attempts replies) b xs = Inr t" by (auto simp: bindR_eq_Inr)
  note IH = Cons.IH [OF t]
  show ?case
    using x
  proof (cases rule: add_env_policy_Inr)
    case Kept
    then show ?thesis using IH by (auto simp: env_result_def split: option.splits if_splits)
  next
    case Added
    then show ?thesis using IH by (cases "rid = x") (auto simp: env_result_def split: option.splits if_splits)
  qed
qed (simp add: env_result_def split: option.splits)

text \<open>
  The policies that are built. When the application's policies and the environment's settings are
  accepted, every policy is usable (at least one attempt, a bounded fallback reply that is not
  blank); a runtime the application names has the policy given there and nothing of the
  environment's; a runtime only the environment names has its values, the defaults for what it
  leaves out, and the default classifier; any other runtime has none.
\<close>

theorem retry_policies_built:
  assumes built: "build_retry_policies policies attempts replies = Inr built"
    and names: "distinct (dkeys policies)" and given: "\<forall>(rid, g) \<in> set policies. given_ok g"
  shows "\<forall>rid p. map_of built rid = Some p \<longrightarrow> policy_ok p"
    and "(rid, g) \<in> set policies \<Longrightarrow> \<exists>p. given_to_policy g = Inr p \<and> map_of built rid = Some p"
    and "rid \<notin> set (dkeys policies) \<Longrightarrow> rid \<in> set (dkeys attempts) \<union> set (dkeys replies) \<Longrightarrow>
      \<exists>p. map_of built rid = Some p \<and> is_transient p = default_classifier
        \<and> PInt (max_attempts p) = (case map_of attempts rid of Some n \<Rightarrow> n | None \<Rightarrow> PInt DEFAULT_MAX_OUTBOX_ATTEMPTS)
        \<and> PStr (fallback_reply p) = (case map_of replies rid of Some r \<Rightarrow> r | None \<Rightarrow> PStr DEFAULT_FALLBACK_REPLY)"
    and "rid \<notin> set (dkeys policies) \<Longrightarrow> rid \<notin> set (dkeys attempts) \<union> set (dkeys replies) \<Longrightarrow>
      map_of built rid = None"
proof -
  let ?names = "sorted_list_of_set (set (dkeys attempts) \<union> set (dkeys replies))"
  have set_names: "set ?names = set (dkeys attempts) \<union> set (dkeys replies)" by simp
  obtain b where
    b: "foldR (\<lambda>built (rid, g). bindR (given_to_policy g) (\<lambda>p. Inr (dset built rid p))) [] policies = Inr b"
    and t: "foldR (add_env_policy attempts replies) b ?names = Inr built"
    using built by (auto simp: build_retry_policies_def bindR_eq_Inr)
  have from_given: "built_from policies b" by (rule given_policies [OF b names])
  note env = env_policies [OF t]
  show named: "(rid, g) \<in> set policies \<Longrightarrow> \<exists>p. given_to_policy g = Inr p \<and> map_of built rid = Some p" for rid g
  proof -
    assume g: "(rid, g) \<in> set policies"
    then have "rid \<in> set (dkeys policies)" by (force simp: dkeys_def)
    then obtain p g' where p: "map_of b rid = Some p" "(rid, g') \<in> set policies" "given_to_policy g' = Inr p"
      using built_from_Some [OF from_given, of rid] built_from_None [OF from_given, of rid]
      by (cases "map_of b rid") auto
    have "g' = g" using names g p(2) by (simp add: dkeys_def) (metis eq_key_imp_eq_value)
    then show ?thesis using p env [of rid] by (auto simp: env_result_def)
  qed
  have unnamed: "map_of b rid = None" if "rid \<notin> set (dkeys policies)" for rid
    using built_from_Some [OF from_given, of rid] that by (cases "map_of b rid") (force simp: dkeys_def)+
  show "rid \<notin> set (dkeys policies) \<Longrightarrow> rid \<in> set (dkeys attempts) \<union> set (dkeys replies) \<Longrightarrow>
      \<exists>p. map_of built rid = Some p \<and> is_transient p = default_classifier
        \<and> PInt (max_attempts p) = (case map_of attempts rid of Some n \<Rightarrow> n | None \<Rightarrow> PInt DEFAULT_MAX_OUTBOX_ATTEMPTS)
        \<and> PStr (fallback_reply p) = (case map_of replies rid of Some r \<Rightarrow> r | None \<Rightarrow> PStr DEFAULT_FALLBACK_REPLY)"
    using env [of rid] unnamed [of rid] env_policy_Inr [of attempts replies rid]
    unfolding set_names env_result_def by auto
  show "rid \<notin> set (dkeys policies) \<Longrightarrow> rid \<notin> set (dkeys attempts) \<union> set (dkeys replies) \<Longrightarrow>
      map_of built rid = None"
    using env [of rid] unnamed [of rid] unfolding set_names env_result_def by auto
  show "\<forall>rid p. map_of built rid = Some p \<longrightarrow> policy_ok p"
  proof (intro allI impI)
    fix rid p
    assume p: "map_of built rid = Some p"
    show "policy_ok p"
    proof (cases "map_of b rid")
      case None
      then show ?thesis using env [of rid] p OutboxRetryPolicy_ok by (auto simp: env_result_def split: if_splits)
    next
      case (Some q)
      then obtain g where "(rid, g) \<in> set policies" "given_to_policy g = Inr q"
        using built_from_Some [OF from_given] by blast
      moreover have "q = p" using env [of rid] Some p by (simp add: env_result_def)
      ultimately show ?thesis using given given_to_policy_ok by blast
    qed
  qed
qed

end
