(* ===== verification/Outbox.thy ===== *)
theory Outbox
  imports Exec_Limits Retry_Policy "HOL-Library.Product_Lexorder"
begin

section \<open>The outbox\<close>

text \<open>
  \<open>services/outbox.py\<close> and the tables of \<open>models/outbox.py\<close>.  Every operation is one database
  transaction that locks the rows it changes, so it is a function on the tables which returns them
  changed, or an exception, after which the transaction has been rolled back.  Times are exact
  numbers of seconds on the database clock; an operation that reads the clock more than once takes
  one argument for each reading.  The identifiers \<open>uuid4\<close> draws, the jitter and the set of rows
  \<open>SKIP LOCKED\<close> skips because another transaction holds them are arguments.
\<close>

subsection \<open>The tables\<close>

definition LEGACY_CHANNEL :: string where "LEGACY_CHANNEL = ''whatsapp''"

record inbound_message =
  inbound_id :: nat
  channel :: string
  meta_message_id :: string
  payload :: pyval
  received_at :: rat

record outbox_work =
  work_id :: nat
  inbound_message_id :: nat
  conversation_key :: string
  enqueued_at :: rat
  available_at :: rat
  lease_expires_at :: "rat option"
  lease_owner :: "string option"
  attempt_count :: int
  last_error :: "string option"
  failed_at :: "rat option"
  outbound_body :: "pyval option"
  outbound_send_key :: "string option"
  completed_at :: "rat option"

record failure_details =
  failure_class :: "string option"
  permanent :: bool
  fallback_recorded :: bool

datatype outbox_event =
    TerminalFailure (event_work: nat) rat int string "failure_details option"
  | FallbackReply (event_work: nat) rat int bool

record outbox_db =
  inbox :: "inbound_message list"
  works :: "outbox_work list"
  events :: "outbox_event list"

definition empty_db :: outbox_db where
  "empty_db = \<lparr>inbox = [], works = [], events = []\<rparr>"

definition terminal :: "outbox_work \<Rightarrow> bool" where
  "terminal w \<longleftrightarrow> completed_at w \<noteq> None \<or> failed_at w \<noteq> None"

definition leased :: "outbox_work \<Rightarrow> bool" where
  "leased w \<longleftrightarrow> \<not> terminal w \<and> lease_expires_at w \<noteq> None"

text \<open>The unique index \<open>ux_outbox_work_conversation_live_lease\<close>.\<close>

definition one_lease_per_conversation :: "outbox_work list \<Rightarrow> bool" where
  "one_lease_per_conversation ws = distinct (map conversation_key (filter leased ws))"

definition set_work :: "outbox_db \<Rightarrow> outbox_work \<Rightarrow> outbox_db" where
  "set_work db w = db\<lparr>works := map (\<lambda>v. if work_id v = work_id w then w else v) (works db)\<rparr>"

subsection \<open>Keys\<close>

definition channel_scoped_key :: "string \<Rightarrow> string \<Rightarrow> string" where
  "channel_scoped_key ch key = (if ch = LEGACY_CHANNEL then key else ch @ '':'' @ key)"

definition remove_prefix :: "string \<Rightarrow> string \<Rightarrow> string" where
  "remove_prefix s p = (if starts_with s p then drop (length p) s else s)"

definition channel_native_key :: "string \<Rightarrow> string \<Rightarrow> string" where
  "channel_native_key ch key = (if ch = LEGACY_CHANNEL then key else remove_prefix key (ch @ '':''))"

subsection \<open>Acceptance\<close>

record acceptance =
  accepted_id :: nat
  duplicate :: bool

definition new_inbound :: "nat \<Rightarrow> rat \<Rightarrow> string \<Rightarrow> string \<Rightarrow> pyval \<Rightarrow> inbound_message" where
  "new_inbound iid now ch mid pl =
     \<lparr>inbound_id = iid, channel = ch, meta_message_id = mid, payload = pl, received_at = now\<rparr>"

definition new_work :: "nat \<Rightarrow> nat \<Rightarrow> rat \<Rightarrow> string \<Rightarrow> outbox_work" where
  "new_work wid iid now ckey =
     \<lparr>work_id = wid, inbound_message_id = iid, conversation_key = ckey, enqueued_at = now, available_at = now,
      lease_expires_at = None, lease_owner = None, attempt_count = 0, last_error = None, failed_at = None,
      outbound_body = None, outbound_send_key = None, completed_at = None\<rparr>"

definition integrity_error :: err where "integrity_error = Raised ''IntegrityError'' ''''"

text \<open>\<open>now()\<close> is the time the transaction began, for both server defaults.\<close>

definition accept_inbound_message ::
  "nat \<Rightarrow> nat \<Rightarrow> rat \<Rightarrow> string \<Rightarrow> pyval \<Rightarrow> string \<Rightarrow> string \<Rightarrow> outbox_db \<Rightarrow> (acceptance \<times> outbox_db) res" where
  "accept_inbound_message iid wid now mid pl ckey ch db =
     (if ckey = '''' then Inl (ValueErr ''conversation_key must not be empty'')
      else if iid \<in> set (map inbound_id (inbox db)) \<or> wid \<in> set (map work_id (works db)) then Inl integrity_error
      else case List.find (\<lambda>m. meta_message_id m = channel_scoped_key ch mid) (inbox db) of
        Some m \<Rightarrow> Inr (\<lparr>accepted_id = inbound_id m, duplicate = True\<rparr>, db)
      | None \<Rightarrow> Inr (\<lparr>accepted_id = iid, duplicate = False\<rparr>,
          db\<lparr>inbox := inbox db @ [new_inbound iid now ch (channel_scoped_key ch mid) pl],
             works := works db @ [new_work wid iid now (channel_scoped_key ch ckey)]\<rparr>))"

subsection \<open>Claims\<close>

definition MAX_OUTBOX_ATTEMPTS :: int where "MAX_OUTBOX_ATTEMPTS = DEFAULT_MAX_OUTBOX_ATTEMPTS"
definition DEFAULT_LEASE_DURATION :: rat where "DEFAULT_LEASE_DURATION = OUTBOX_LEASE_S"
definition RETRY_BASE_SECONDS :: int where "RETRY_BASE_SECONDS = 1"
definition RETRY_MAX_SECONDS :: int where "RETRY_MAX_SECONDS = 300"

definition older :: "outbox_work \<Rightarrow> outbox_work \<Rightarrow> bool" where
  "older v w \<longleftrightarrow> (enqueued_at v, work_id v) < (enqueued_at w, work_id w)"

definition no_older_sibling :: "outbox_work list \<Rightarrow> outbox_work \<Rightarrow> bool" where
  "no_older_sibling ws w =
     (\<not> list_ex (\<lambda>v. conversation_key v = conversation_key w \<and> \<not> terminal v \<and> older v w) ws)"

definition claimable :: "outbox_work list \<Rightarrow> rat \<Rightarrow> outbox_work \<Rightarrow> bool" where
  "claimable ws now w \<longleftrightarrow>
     \<not> terminal w \<and> available_at w \<le> now
     \<and> (case lease_expires_at w of None \<Rightarrow> True | Some e \<Rightarrow> e < now)
     \<and> no_older_sibling ws w"

definition pending_outbox :: "rat \<Rightarrow> nat \<Rightarrow> nat list \<Rightarrow> outbox_db \<Rightarrow> outbox_work list" where
  "pending_outbox now lmt skipped db =
     take lmt (sort_key (\<lambda>w. (available_at w, work_id w))
       (filter (\<lambda>w. claimable (works db) now w \<and> work_id w \<notin> set skipped) (works db)))"

definition terminalize :: "rat \<Rightarrow> string \<Rightarrow> outbox_work \<Rightarrow> outbox_work" where
  "terminalize now er w =
     w\<lparr>last_error := Some er, lease_owner := None, lease_expires_at := None, failed_at := Some now\<rparr>"

definition terminal_event :: "rat \<Rightarrow> string \<Rightarrow> failure_details option \<Rightarrow> outbox_work \<Rightarrow> outbox_event" where
  "terminal_event now er details w = TerminalFailure (work_id w) now (attempt_count w) er details"

definition EXPIRED_ERROR :: string where
  "EXPIRED_ERROR = ''lease expired after maximum delivery attempts''"

definition expired_error :: "outbox_work \<Rightarrow> string" where
  "expired_error w = (case last_error w of Some e \<Rightarrow> if e = '''' then EXPIRED_ERROR else e | None \<Rightarrow> EXPIRED_ERROR)"

definition claim_row :: "string \<Rightarrow> rat \<Rightarrow> rat \<Rightarrow> int \<Rightarrow> outbox_work \<Rightarrow> outbox_work" where
  "claim_row worker now dur mx w =
     (if mx \<le> attempt_count w then terminalize now (expired_error w) w
      else w\<lparr>lease_owner := Some worker, lease_expires_at := Some (now + dur), attempt_count := attempt_count w + 1\<rparr>)"

record claim_outcome =
  claimed :: "outbox_work list"
  terminalized :: "outbox_work list"

definition claim_available_outbox_work ::
  "string \<Rightarrow> int \<Rightarrow> rat \<Rightarrow> int \<Rightarrow> nat list \<Rightarrow> rat \<Rightarrow> outbox_db \<Rightarrow> (claim_outcome \<times> outbox_db) res" where
  "claim_available_outbox_work worker lmt dur mx skipped now db =
     (if worker = '''' then Inl (ValueErr ''worker_id must not be empty'')
      else if lmt \<le> 0 then Inl (ValueErr ''limit must be positive'')
      else if dur \<le> 0 then Inl (ValueErr ''lease_duration must be positive'')
      else let rows = pending_outbox now (nat lmt) skipped db;
               ws = map (\<lambda>w. if w \<in> set rows then claim_row worker now dur mx w else w) (works db);
               dead = filter (\<lambda>w. mx \<le> attempt_count w) rows
           in if \<not> one_lease_per_conversation ws then Inl integrity_error
              else Inr (\<lparr>claimed = map (claim_row worker now dur mx) (filter (\<lambda>w. \<not> mx \<le> attempt_count w) rows),
                         terminalized = map (claim_row worker now dur mx) dead\<rparr>,
                        db\<lparr>works := ws, events := events db @ map (\<lambda>w. terminal_event now (expired_error w) None w) dead\<rparr>))"

subsection \<open>Transitions under a lease\<close>

definition lease_held :: "string \<Rightarrow> rat \<Rightarrow> outbox_work \<Rightarrow> bool" where
  "lease_held worker clock w \<longleftrightarrow>
     lease_owner w = Some worker \<and> (case lease_expires_at w of Some e \<Rightarrow> clock < e | None \<Rightarrow> False) \<and> \<not> terminal w"

definition locked_live_work :: "nat \<Rightarrow> string \<Rightarrow> rat \<Rightarrow> outbox_db \<Rightarrow> outbox_work res" where
  "locked_live_work wid worker clock db =
     (case List.find (\<lambda>w. work_id w = wid \<and> lease_held worker clock w) (works db) of
        Some w \<Rightarrow> Inr w
      | None \<Rightarrow> Inl OutboxLeaseLostError)"

definition persist_outbound_intent ::
  "nat \<Rightarrow> string \<Rightarrow> pyval \<Rightarrow> string \<Rightarrow> rat \<Rightarrow> outbox_db \<Rightarrow> (unit \<times> outbox_db) res" where
  "persist_outbound_intent wid worker body skey clock db =
     (if skey = '''' then Inl (ValueErr ''send_key must not be empty'')
      else bindR (locked_live_work wid worker clock db) (\<lambda>w.
        if outbound_send_key w \<noteq> None \<and> outbound_send_key w \<noteq> Some skey
        then Inl (ValueErr ''outbound intent already has a different send_key'')
        else if outbound_body w \<noteq> None \<and> outbound_body w \<noteq> Some body
        then Inl (ValueErr ''outbound intent already has a different body'')
        else Inr ((), set_work db (w\<lparr>outbound_body := Some body, outbound_send_key := Some skey\<rparr>))))"

definition complete_outbox_work ::
  "nat \<Rightarrow> string \<Rightarrow> rat \<Rightarrow> rat \<Rightarrow> outbox_db \<Rightarrow> (unit \<times> outbox_db) res" where
  "complete_outbox_work wid worker now clock db =
     bindR (locked_live_work wid worker clock db) (\<lambda>w.
       Inr ((), set_work db (w\<lparr>completed_at := Some now, lease_owner := None, lease_expires_at := None\<rparr>)))"

record failure_outcome =
  is_terminal :: bool
  alert_required :: bool
  fallback_body :: "pyval option"

definition recorded_fallback :: "outbox_work \<Rightarrow> (pyval \<times> string) option \<Rightarrow> (pyval \<times> string) option" where
  "recorded_fallback w fb = (if outbound_body w = None then fb else None)"

definition fail_for_good ::
  "rat \<Rightarrow> string \<Rightarrow> (pyval \<times> string) option \<Rightarrow> outbox_work \<Rightarrow> outbox_work" where
  "fail_for_good now er fb w =
     terminalize now er
       (case recorded_fallback w fb of
          Some (b, k) \<Rightarrow> w\<lparr>outbound_body := Some b, outbound_send_key := Some k\<rparr>
        | None \<Rightarrow> w)"

definition failure_details_of :: "bool \<Rightarrow> string option \<Rightarrow> (pyval \<times> string) option \<Rightarrow> outbox_work \<Rightarrow> failure_details" where
  "failure_details_of retryable cls fb w =
     \<lparr>failure_class = cls, permanent = (\<not> retryable),
      fallback_recorded = (case recorded_fallback w fb of Some (b, _) \<Rightarrow> py_truthy b | None \<Rightarrow> False)\<rparr>"

definition retry_window :: "outbox_work \<Rightarrow> int" where
  "retry_window w = min (RETRY_BASE_SECONDS * 2 ^ nat (attempt_count w)) RETRY_MAX_SECONDS"

definition record_outbox_failure ::
  "nat \<Rightarrow> string \<Rightarrow> string \<Rightarrow> rat \<Rightarrow> int \<Rightarrow> bool \<Rightarrow> string option \<Rightarrow> (pyval \<times> string) option
   \<Rightarrow> rat \<Rightarrow> rat \<Rightarrow> outbox_db \<Rightarrow> (failure_outcome \<times> outbox_db) res" where
  "record_outbox_failure wid worker er jitter mx retryable cls fb now clock db =
     bindR (locked_live_work wid worker clock db) (\<lambda>w.
       if \<not> retryable \<or> mx \<le> attempt_count w
       then let db' = set_work db (fail_for_good now er fb w) in
            Inr (\<lparr>is_terminal = True, alert_required = True, fallback_body = map_option fst (recorded_fallback w fb)\<rparr>,
                 db'\<lparr>events := events db' @ [terminal_event now er (Some (failure_details_of retryable cls fb w)) w]\<rparr>)
       else if \<not> (0 \<le> jitter \<and> jitter \<le> 1) then Inl (ValueErr ''jitter must return a value between 0 and 1'')
       else Inr (\<lparr>is_terminal = False, alert_required = False, fallback_body = None\<rparr>,
                 set_work db (w\<lparr>last_error := Some er, lease_owner := None, lease_expires_at := None,
                               available_at := now + of_int (retry_window w) * jitter\<rparr>)))"

text \<open>The row is the caller's copy, as it was claimed.\<close>

definition record_fallback_delivery :: "outbox_work \<Rightarrow> bool \<Rightarrow> rat \<Rightarrow> outbox_db \<Rightarrow> outbox_db" where
  "record_fallback_delivery w delivered now db =
     db\<lparr>events := events db @ [FallbackReply (work_id w) now (attempt_count w + 1) delivered]\<rparr>"

subsection \<open>Counts\<close>

record backlog_counts =
  pending_count :: nat
  leased_count :: nat
  leased_expired :: nat

definition count_outbox_backlog :: "rat \<Rightarrow> outbox_db \<Rightarrow> backlog_counts" where
  "count_outbox_backlog now db =
     \<lparr>pending_count = length (filter (\<lambda>w. \<not> terminal w \<and> lease_expires_at w = None) (works db)),
      leased_count = length (filter (\<lambda>w. \<not> terminal w \<and> lease_expires_at w \<noteq> None) (works db)),
      leased_expired = length (filter (\<lambda>w. \<not> terminal w
        \<and> (case lease_expires_at w of Some e \<Rightarrow> e < now | None \<Rightarrow> False)) (works db))\<rparr>"

subsection \<open>Runs of the outbox\<close>

text \<open>
  Any number of receivers and workers, in any interleaving: a step is one committed transaction.  A
  label says what the step did to which row under whose lease; \<open>M\<close> bounds the attempts any of the
  workers allows.
\<close>

datatype outbox_label =
    LAccept nat
  | LClaim string rat rat "nat list"
  | LUse string rat nat
  | LNote

inductive outbox_step :: "int \<Rightarrow> outbox_db \<Rightarrow> outbox_label \<Rightarrow> outbox_db \<Rightarrow> bool" for M where
  accept: "accept_inbound_message iid wid now mid pl ckey ch db = Inr (a, db') \<Longrightarrow>
     outbox_step M db (LAccept wid) db'"
| claim: "claim_available_outbox_work k lmt dur mx skipped now db = Inr (out, db') \<Longrightarrow> mx \<le> M \<Longrightarrow>
     outbox_step M db (LClaim k now dur (map work_id (claimed out))) db'"
| persist: "persist_outbound_intent wid k body skey clock db = Inr (u, db') \<Longrightarrow>
     outbox_step M db (LUse k clock wid) db'"
| complete: "complete_outbox_work wid k now clock db = Inr (u, db') \<Longrightarrow>
     outbox_step M db (LUse k clock wid) db'"
| failure: "record_outbox_failure wid k er jitter mx retryable cls fb now clock db = Inr (out, db') \<Longrightarrow>
     outbox_step M db (LUse k clock wid) db'"
| notice: "outbox_step M db LNote (record_fallback_delivery w delivered now db)"

inductive outbox_run :: "int \<Rightarrow> outbox_label list \<Rightarrow> outbox_db \<Rightarrow> bool" for M where
  start: "outbox_run M [] empty_db"
| step: "outbox_run M h db \<Longrightarrow> outbox_step M db l db' \<Longrightarrow> outbox_run M (h @ [l]) db'"

inductive_cases outbox_stepE: "outbox_step M db l db'"

subsection \<open>What a step does to one row\<close>

fun claims_row :: "outbox_label \<Rightarrow> nat \<Rightarrow> bool" where
  "claims_row (LClaim k now d ids) i = (i \<in> set ids)"
| "claims_row _ i = False"

inductive row_step :: "int \<Rightarrow> outbox_label \<Rightarrow> outbox_work \<Rightarrow> outbox_work \<Rightarrow> bool" for M where
  keep: "\<not> claims_row l (work_id w) \<Longrightarrow> row_step M l w w"
| take_lease: "\<not> terminal w \<Longrightarrow> (case lease_expires_at w of None \<Rightarrow> True | Some e \<Rightarrow> e < now) \<Longrightarrow> attempt_count w < M \<Longrightarrow>
     work_id w \<in> set ids \<Longrightarrow> k \<noteq> '''' \<Longrightarrow>
     row_step M (LClaim k now d ids) w
       (w\<lparr>lease_owner := Some k, lease_expires_at := Some (now + d), attempt_count := attempt_count w + 1\<rparr>)"
| expire: "\<not> terminal w \<Longrightarrow> work_id w \<notin> set ids \<Longrightarrow> row_step M (LClaim k now d ids) w (terminalize now er w)"
| reply: "lease_held k clock w \<Longrightarrow> outbound_body w = None \<or> outbound_body w = Some b \<Longrightarrow>
     outbound_send_key w = None \<or> outbound_send_key w = Some s \<Longrightarrow>
     row_step M (LUse k clock (work_id w)) w (w\<lparr>outbound_body := Some b, outbound_send_key := Some s\<rparr>)"
| finish: "lease_held k clock w \<Longrightarrow>
     row_step M (LUse k clock (work_id w)) w (w\<lparr>completed_at := Some now, lease_owner := None, lease_expires_at := None\<rparr>)"
| give_up: "lease_held k clock w \<Longrightarrow> row_step M (LUse k clock (work_id w)) w (fail_for_good now er fb w)"
| retry: "lease_held k clock w \<Longrightarrow>
     row_step M (LUse k clock (work_id w)) w
       (w\<lparr>last_error := Some er, lease_owner := None, lease_expires_at := None, available_at := t\<rparr>)"

lemmas row_defs = terminal_def leased_def terminalize_def fail_for_good_def recorded_fallback_def lease_held_def

definition row_ok :: "int \<Rightarrow> outbox_work \<Rightarrow> bool" where
  "row_ok M w \<longleftrightarrow>
     (lease_owner w = None \<longleftrightarrow> lease_expires_at w = None)
     \<and> (terminal w \<longrightarrow> lease_expires_at w = None)
     \<and> (completed_at w = None \<or> failed_at w = None)
     \<and> (outbound_body w = None \<longleftrightarrow> outbound_send_key w = None)
     \<and> 0 \<le> attempt_count w \<and> (attempt_count w \<le> M \<or> attempt_count w = 0)"

lemma row_step_ok: "row_step M l w w' \<Longrightarrow> row_ok M w \<Longrightarrow> row_ok M w'"
  by (induction rule: row_step.induct)
    (auto simp: row_ok_def row_defs split: option.splits if_splits prod.splits)

lemma row_step_fixed:
  "row_step M l w w' \<Longrightarrow>
     work_id w' = work_id w \<and> inbound_message_id w' = inbound_message_id w
     \<and> conversation_key w' = conversation_key w \<and> enqueued_at w' = enqueued_at w"
  by (induction rule: row_step.induct) (auto simp: row_defs split: option.splits if_splits prod.splits)

lemma row_step_final:
  "row_step M l w w' \<Longrightarrow> (terminal w \<longrightarrow> w' = w)
     \<and> (outbound_body w = Some b \<and> outbound_send_key w = Some s \<longrightarrow> outbound_body w' = Some b \<and> outbound_send_key w' = Some s)"
  by (induction rule: row_step.induct) (auto simp: row_defs split: option.splits if_splits prod.splits)

lemma row_step_attempts:
  "row_step M l w w' \<Longrightarrow> attempt_count w' = attempt_count w + (if claims_row l (work_id w) then 1 else 0)"
  by (induction rule: row_step.induct) (auto simp: row_defs split: option.splits if_splits prod.splits)

lemma row_step_lease:
  "row_step M l w w' \<Longrightarrow> leased w' \<Longrightarrow> \<not> claims_row l (work_id w) \<Longrightarrow>
     leased w \<and> lease_owner w' = lease_owner w \<and> lease_expires_at w' = lease_expires_at w"
  by (induction rule: row_step.induct) (auto simp: row_defs split: option.splits if_splits prod.splits)

subsection \<open>What a step does to the tables\<close>

definition terminal_events :: "nat \<Rightarrow> outbox_event list \<Rightarrow> nat" where
  "terminal_events i es = length (filter (\<lambda>e. case e of TerminalFailure j _ _ _ _ \<Rightarrow> j = i | FallbackReply _ _ _ _ \<Rightarrow> False) es)"

lemma terminal_events_append [simp]: "terminal_events i (es @ fs) = terminal_events i es + terminal_events i fs"
  by (simp add: terminal_events_def)

lemma terminal_events_Nil [simp]: "terminal_events i [] = 0"
  by (simp add: terminal_events_def)

lemma terminal_events_one [simp]: "terminal_events i [terminal_event now er d w] = (if work_id w = i then 1 else 0)"
  by (simp add: terminal_events_def terminal_event_def)

definition rows_step :: "int \<Rightarrow> outbox_label \<Rightarrow> outbox_work list \<Rightarrow> outbox_event list \<Rightarrow> (outbox_work \<Rightarrow> outbox_work) \<Rightarrow> bool" where
  "rows_step M l ws es f \<longleftrightarrow>
     (\<forall>w \<in> set ws. row_step M l w (f w)
        \<and> terminal_events (work_id w) es = (if failed_at w = None \<and> failed_at (f w) \<noteq> None then 1 else 0))
     \<and> (\<forall>i. i \<notin> work_id ` set ws \<longrightarrow> terminal_events i es = 0)"

lemma locked_live_work_Inr:
  "locked_live_work wid k clock db = Inr w \<Longrightarrow> w \<in> set (works db) \<and> work_id w = wid \<and> lease_held k clock w"
  by (auto simp: locked_live_work_def find_Some_iff split: option.splits)

text \<open>A transition of the one locked row.\<close>

lemma rows_step_set_work:
  assumes ids: "distinct (map work_id ws)" and w: "w \<in> set ws"
    and r: "row_step M (LUse k clock (work_id w)) w w'"
    and es: "\<And>i. terminal_events i es = (if i = work_id w \<and> failed_at w = None \<and> failed_at w' \<noteq> None then 1 else 0)"
  shows "rows_step M (LUse k clock (work_id w)) ws es (\<lambda>v. if work_id v = work_id w then w' else v)"
proof -
  have same: "v = w" if "v \<in> set ws" "work_id v = work_id w" for v
    using that ids w by (auto simp: distinct_map dest: inj_onD)
  show ?thesis
    unfolding rows_step_def
  proof (intro conjI ballI allI impI)
    fix v assume v: "v \<in> set ws"
    show "row_step M (LUse k clock (work_id w)) v (if work_id v = work_id w then w' else v)"
      using r same [OF v] by (auto intro: row_step.keep)
    show "terminal_events (work_id v) es =
        (if failed_at v = None \<and> failed_at (if work_id v = work_id w then w' else v) \<noteq> None then 1 else 0)"
      using same [OF v] by (auto simp: es)
  next
    fix i assume "i \<notin> work_id ` set ws"
    then show "terminal_events i es = 0" using w by (auto simp: es)
  qed
qed

definition rows_effect :: "int \<Rightarrow> outbox_label \<Rightarrow> outbox_db \<Rightarrow> outbox_db \<Rightarrow> bool" where
  "rows_effect M l db db' \<longleftrightarrow>
     (\<exists>f es. db' = db\<lparr>works := map f (works db), events := events db @ es\<rparr> \<and> rows_step M l (works db) es f
        \<and> (one_lease_per_conversation (works db) \<longrightarrow> one_lease_per_conversation (works db')))"

lemma rows_effectI:
  assumes "db' = db\<lparr>works := map f (works db), events := events db @ es\<rparr>" and "rows_step M l (works db) es f"
    and "one_lease_per_conversation (works db) \<Longrightarrow> one_lease_per_conversation (works db')"
  shows "rows_effect M l db db'"
  unfolding rows_effect_def using assms by blast

lemma keys_of_leased:
  assumes "\<And>w. w \<in> set ws \<Longrightarrow> conversation_key (f w) = conversation_key w \<and> (leased (f w) \<longrightarrow> leased w)"
    and "one_lease_per_conversation ws"
  shows "one_lease_per_conversation (map f ws)"
  using assms
proof (induction ws)
  case (Cons w ws)
  have IH: "one_lease_per_conversation (map f ws)"
    using Cons.prems by (intro Cons.IH) (auto simp: one_lease_per_conversation_def split: if_splits)
  have w: "conversation_key (f w) = conversation_key w" "leased (f w) \<Longrightarrow> leased w" using Cons.prems(1) by auto
  have "conversation_key w \<notin> conversation_key ` {v \<in> set (map f ws). leased v}" if "leased w"
    using Cons.prems that by (fastforce simp: one_lease_per_conversation_def)
  then show ?case using IH w by (auto simp: one_lease_per_conversation_def)
qed (simp add: one_lease_per_conversation_def)

lemma use_keeps_leases:
  assumes "rows_step M (LUse k clock i) ws es f" and "one_lease_per_conversation ws"
  shows "one_lease_per_conversation (map f ws)"
proof (rule keys_of_leased [OF _ assms(2)])
  fix w assume "w \<in> set ws"
  then have "row_step M (LUse k clock i) w (f w)" using assms(1) by (simp add: rows_step_def)
  then show "conversation_key (f w) = conversation_key w \<and> (leased (f w) \<longrightarrow> leased w)"
    using row_step_fixed row_step_lease by fastforce
qed

text \<open>The three transitions under a lease change the locked row only.\<close>

lemma set_work_effect:
  assumes ids: "distinct (map work_id (works db))" and w: "w \<in> set (works db)"
    and r: "row_step M (LUse k clock (work_id w)) w w'" and id: "work_id w' = work_id w"
    and es: "\<And>i. terminal_events i es = (if i = work_id w \<and> failed_at w = None \<and> failed_at w' \<noteq> None then 1 else 0)"
    and db': "db' = (set_work db w')\<lparr>events := events db @ es\<rparr>"
  shows "rows_effect M (LUse k clock (work_id w)) db db'"
proof (rule rows_effectI)
  show "db' = db\<lparr>works := map (\<lambda>v. if work_id v = work_id w then w' else v) (works db), events := events db @ es\<rparr>"
    using db' id by (simp add: set_work_def)
  show rows: "rows_step M (LUse k clock (work_id w)) (works db) es (\<lambda>v. if work_id v = work_id w then w' else v)"
    by (rule rows_step_set_work [OF ids w r es])
  show "one_lease_per_conversation (works db')" if "one_lease_per_conversation (works db)"
    using use_keeps_leases [OF rows that] db' id by (simp add: set_work_def)
qed

lemma persist_effect:
  assumes "distinct (map work_id (works db))" and "persist_outbound_intent wid k body s clock db = Inr (u, db')"
  shows "rows_effect M (LUse k clock wid) db db'"
proof -
  obtain w where w: "locked_live_work wid k clock db = Inr w"
    and b: "outbound_body w = None \<or> outbound_body w = Some body"
    and s: "outbound_send_key w = None \<or> outbound_send_key w = Some s"
    and db': "db' = set_work db (w\<lparr>outbound_body := Some body, outbound_send_key := Some s\<rparr>)"
    using assms(2) by (auto simp: persist_outbound_intent_def bindR_eq_Inr split: if_splits)
  note lk = locked_live_work_Inr [OF w]
  have "rows_effect M (LUse k clock (work_id w)) db db'"
    using lk b s db'
    by (intro set_work_effect [OF assms(1), where es = "[]"]) (auto intro: row_step.reply simp: set_work_def)
  then show ?thesis using lk by simp
qed

lemma complete_effect:
  assumes "distinct (map work_id (works db))" and "complete_outbox_work wid k now clock db = Inr (u, db')"
  shows "rows_effect M (LUse k clock wid) db db'"
proof -
  obtain w where w: "locked_live_work wid k clock db = Inr w"
    and db': "db' = set_work db (w\<lparr>completed_at := Some now, lease_owner := None, lease_expires_at := None\<rparr>)"
    using assms(2) by (auto simp: complete_outbox_work_def bindR_eq_Inr)
  note lk = locked_live_work_Inr [OF w]
  have "rows_effect M (LUse k clock (work_id w)) db db'"
    using lk db'
    by (intro set_work_effect [OF assms(1), where es = "[]"]) (auto intro: row_step.finish simp: set_work_def)
  then show ?thesis using lk by simp
qed

lemma failure_effect:
  assumes ids: "distinct (map work_id (works db))"
    and "record_outbox_failure wid k er jitter mx retryable cls fb now clock db = Inr (out, db')"
  shows "rows_effect M (LUse k clock wid) db db'"
proof -
  obtain w where w: "locked_live_work wid k clock db = Inr w"
    using assms(2) by (auto simp: record_outbox_failure_def bindR_eq_Inr)
  note lk = locked_live_work_Inr [OF w]
  have alive: "failed_at w = None" using lk by (auto simp: row_defs)
  have "rows_effect M (LUse k clock (work_id w)) db db'"
  proof (cases "\<not> retryable \<or> mx \<le> attempt_count w")
    case True
    have dead: "failed_at (fail_for_good now er fb w) = Some now" "work_id (fail_for_good now er fb w) = work_id w"
      by (auto simp: row_defs split: option.splits)
    have r: "row_step M (LUse k clock (work_id w)) w (fail_for_good now er fb w)"
      using lk by (blast intro: row_step.give_up)
    show ?thesis
    proof (rule set_work_effect [OF ids _ r dead(2)])
      show "db' = (set_work db (fail_for_good now er fb w))
          \<lparr>events := events db @ [terminal_event now er (Some (failure_details_of retryable cls fb w)) w]\<rparr>"
        using assms(2) True w by (simp add: record_outbox_failure_def Let_def set_work_def)
    qed (use lk alive dead(1) in auto)
  next
    case False
    show ?thesis
      using lk assms(2) False w alive
      by (intro set_work_effect [OF ids, where es = "[]"
            and w' = "w\<lparr>last_error := Some er, lease_owner := None, lease_expires_at := None,
                   available_at := now + of_int (retry_window w) * jitter\<rparr>"])
        (auto intro: row_step.retry simp: record_outbox_failure_def set_work_def split: if_splits)
  qed
  then show ?thesis using lk by simp
qed

text \<open>A claim changes the rows it selected.\<close>

lemma pending_outbox_subset:
  "w \<in> set (pending_outbox now lmt skipped db) \<Longrightarrow> w \<in> set (works db) \<and> claimable (works db) now w \<and> work_id w \<notin> set skipped"
  by (auto simp: pending_outbox_def dest: in_set_takeD)

lemma pending_outbox_distinct:
  assumes "distinct (map work_id (works db))"
  shows "distinct (map work_id (pending_outbox now lmt skipped db))"
proof -
  have "distinct (works db)" using assms by (simp add: distinct_map)
  then have "distinct (pending_outbox now lmt skipped db)"
    by (simp add: pending_outbox_def distinct_take)
  moreover have "inj_on work_id (set (pending_outbox now lmt skipped db))"
    using assms pending_outbox_subset by (auto simp: distinct_map inj_on_def)
  ultimately show ?thesis by (simp add: distinct_map)
qed

lemma terminal_events_map:
  "distinct (map work_id ws) \<Longrightarrow>
     terminal_events i (map (\<lambda>w. terminal_event now (g w) d w) ws) = (if i \<in> work_id ` set ws then 1 else 0)"
  by (induction ws) (auto simp: terminal_events_def terminal_event_def)

lemma claim_available_Inr:
  assumes "claim_available_outbox_work k lmt dur mx skipped now db = Inr (out, db')"
  defines "rows \<equiv> pending_outbox now (nat lmt) skipped db"
  defines "dead \<equiv> filter (\<lambda>w. mx \<le> attempt_count w) rows"
  shows "k \<noteq> ''''" and "0 < lmt" and "0 < dur"
    and "claimed out = map (claim_row k now dur mx) (filter (\<lambda>w. \<not> mx \<le> attempt_count w) rows)"
    and "terminalized out = map (claim_row k now dur mx) dead"
    and "db' = db\<lparr>works := map (\<lambda>w. if w \<in> set rows then claim_row k now dur mx w else w) (works db),
      events := events db @ map (\<lambda>w. terminal_event now (expired_error w) None w) dead\<rparr>"
    and "one_lease_per_conversation (works db')"
  using assms(1) unfolding rows_def dead_def
  by (auto simp: claim_available_outbox_work_def Let_def split: if_splits)

lemma claim_row_id [simp]: "work_id (claim_row k now dur mx w) = work_id w"
  by (simp add: claim_row_def terminalize_def)

lemma claim_row_step:
  assumes "claimable ws now w" and "k \<noteq> ''''" and "mx \<le> M"
    and "work_id w \<in> set ids \<longleftrightarrow> \<not> mx \<le> attempt_count w"
  shows "row_step M (LClaim k now d ids) w (claim_row k now d mx w)"
  using assms by (auto simp: claim_row_def claimable_def intro!: row_step.take_lease row_step.expire)

lemma claim_effect:
  assumes ids: "distinct (map work_id (works db))"
    and cl: "claim_available_outbox_work k lmt dur mx skipped now db = Inr (out, db')" and mx: "mx \<le> M"
  shows "rows_effect M (LClaim k now dur (map work_id (claimed out))) db db'"
proof -
  define rows where "rows = pending_outbox now (nat lmt) skipped db"
  define dead where "dead = filter (\<lambda>w. mx \<le> attempt_count w) rows"
  note c = claim_available_Inr [OF cl, folded rows_def, folded dead_def]
  have drows: "distinct (map work_id rows)" unfolding rows_def by (rule pending_outbox_distinct [OF ids])
  have sub: "\<And>w. w \<in> set rows \<Longrightarrow> w \<in> set (works db) \<and> claimable (works db) now w"
    unfolding rows_def using pending_outbox_subset by blast
  have same: "\<And>v w. v \<in> set (works db) \<Longrightarrow> w \<in> set (works db) \<Longrightarrow> work_id v = work_id w \<Longrightarrow> v = w"
    using ids by (auto simp: distinct_map dest: inj_onD)
  have claimed_ids: "map work_id (claimed out) = map work_id (filter (\<lambda>w. \<not> mx \<le> attempt_count w) rows)"
    by (simp add: c(4) comp_def)
  have in_ids: "work_id w \<in> set (map work_id (claimed out)) \<longleftrightarrow> w \<in> set rows \<and> \<not> mx \<le> attempt_count w"
    if "w \<in> set (works db)" for w
    unfolding claimed_ids using same [OF that] sub by (auto simp: image_iff)
  have ev: "terminal_events i (map (\<lambda>w. terminal_event now (expired_error w) None w) dead) = (if i \<in> work_id ` set dead then 1 else 0)" for i
    unfolding dead_def by (rule terminal_events_map) (simp add: distinct_map_filter [OF drows])
  show ?thesis
  proof (rule rows_effectI [OF c(6)])
    show "rows_step M (LClaim k now dur (map work_id (claimed out))) (works db)
        (map (\<lambda>w. terminal_event now (expired_error w) None w) dead)
        (\<lambda>w. if w \<in> set rows then claim_row k now dur mx w else w)"
      unfolding rows_step_def
    proof (intro conjI ballI allI impI)
      fix w assume w: "w \<in> set (works db)"
      show "row_step M (LClaim k now dur (map work_id (claimed out))) w
          (if w \<in> set rows then claim_row k now dur mx w else w)"
        using claim_row_step [OF _ c(1) mx, of "works db" now w] sub [of w] in_ids [OF w]
        by (auto intro: row_step.keep)
      show "terminal_events (work_id w) (map (\<lambda>w. terminal_event now (expired_error w) None w) dead) =
          (if failed_at w = None \<and> failed_at (if w \<in> set rows then claim_row k now dur mx w else w) \<noteq> None then 1 else 0)"
        unfolding ev using same [OF w] sub [of w] sub
        by (auto simp: dead_def claim_row_def terminalize_def claimable_def terminal_def image_iff)
    next
      fix i assume "i \<notin> work_id ` set (works db)"
      then show "terminal_events i (map (\<lambda>w. terminal_event now (expired_error w) None w) dead) = 0"
        unfolding ev using sub by (auto simp: dead_def)
    qed
    show "one_lease_per_conversation (works db')" by (rule c(7))
  qed
qed

lemma notice_effect: "rows_effect M LNote db (record_fallback_delivery w delivered now db)"
  by (rule rows_effectI [where f = "\<lambda>w. w" and es = "[FallbackReply (work_id w) now (attempt_count w + 1) delivered]"])
    (auto simp: record_fallback_delivery_def rows_step_def terminal_events_def intro: row_step.keep)

definition accepts :: "nat \<Rightarrow> outbox_db \<Rightarrow> outbox_db \<Rightarrow> bool" where
  "accepts wid db db' \<longleftrightarrow>
     (\<exists>iid now ch mid pl ckey. iid \<notin> inbound_id ` set (inbox db) \<and> wid \<notin> work_id ` set (works db)
        \<and> mid \<notin> meta_message_id ` set (inbox db)
        \<and> db' = db\<lparr>inbox := inbox db @ [new_inbound iid now ch mid pl], works := works db @ [new_work wid iid now ckey]\<rparr>)"

lemma accept_effect:
  assumes "accept_inbound_message iid wid now mid pl ckey ch db = Inr (a, db')"
  shows "db' = db \<or> accepts wid db db'"
proof (cases "List.find (\<lambda>m. meta_message_id m = channel_scoped_key ch mid) (inbox db)")
  case None
  then have "channel_scoped_key ch mid \<notin> meta_message_id ` set (inbox db)"
    by (auto simp: find_None_iff image_iff)
  then show ?thesis
    using assms None unfolding accepts_def
    by (intro disjI2 exI [of _ iid] exI [of _ now] exI [of _ ch] exI [of _ "channel_scoped_key ch mid"] exI [of _ pl]
        exI [of _ "channel_scoped_key ch ckey"])
      (auto simp: accept_inbound_message_def split: if_splits)
qed (use assms in \<open>auto simp: accept_inbound_message_def split: if_splits\<close>)

lemma outbox_step_effect:
  assumes "outbox_step M db l db'" and "distinct (map work_id (works db))"
  shows "rows_effect M l db db' \<or> (\<exists>wid. l = LAccept wid \<and> (db' = db \<or> accepts wid db db'))"
  using assms
  by (cases rule: outbox_step.cases)
    (blast intro: persist_effect complete_effect failure_effect claim_effect notice_effect dest: accept_effect)+

subsection \<open>The invariant\<close>

definition outbox_ok :: "int \<Rightarrow> outbox_db \<Rightarrow> bool" where
  "outbox_ok M db \<longleftrightarrow>
     distinct (map work_id (works db)) \<and> distinct (map inbound_id (inbox db))
     \<and> distinct (map meta_message_id (inbox db))
     \<and> map inbound_message_id (works db) = map inbound_id (inbox db)
     \<and> (\<forall>w \<in> set (works db). row_ok M w)
     \<and> one_lease_per_conversation (works db)
     \<and> (\<forall>w \<in> set (works db). terminal_events (work_id w) (events db) = (if failed_at w = None then 0 else 1))
     \<and> (\<forall>i. i \<notin> work_id ` set (works db) \<longrightarrow> terminal_events i (events db) = 0)"

lemma outbox_ok_empty: "outbox_ok M empty_db"
  by (simp add: outbox_ok_def empty_db_def one_lease_per_conversation_def)

lemma rows_step_row: "rows_step M l ws es f \<Longrightarrow> w \<in> set ws \<Longrightarrow> row_step M l w (f w)"
  by (simp add: rows_step_def)

lemma map_kept:
  assumes "rows_step M l ws es f"
  shows "map work_id (map f ws) = map work_id ws" and "map inbound_message_id (map f ws) = map inbound_message_id ws"
  by (auto simp: row_step_fixed [OF rows_step_row [OF assms]])

lemma rows_effect_ok:
  assumes "rows_effect M l db db'" and ok: "outbox_ok M db"
  shows "outbox_ok M db'"
proof -
  obtain f es where db': "db' = db\<lparr>works := map f (works db), events := events db @ es\<rparr>"
    and r: "rows_step M l (works db) es f" and one: "one_lease_per_conversation (works db')"
    using assms unfolding rows_effect_def outbox_ok_def by blast
  have f: "row_ok M (f w) \<and> work_id (f w) = work_id w" if "w \<in> set (works db)" for w
    using rows_step_row [OF r that] row_step_ok row_step_fixed ok that unfolding outbox_ok_def by blast
  have ev: "terminal_events (work_id w) (events db @ es) = (if failed_at (f w) = None then 0 else 1)"
    if "w \<in> set (works db)" for w
    using rows_step_row [OF r that, THEN row_step_final] ok r that
    by (auto simp: outbox_ok_def rows_step_def terminal_def)
  have ids: "map work_id (works db') = map work_id (works db)"
    and inb: "map inbound_message_id (works db') = map inbound_message_id (works db)"
    using map_kept [OF r] by (simp_all add: db')
  have set_ids: "work_id ` set (works db') = work_id ` set (works db)"
    using ids by (metis list.set_map)
  have rows: "\<forall>w \<in> set (works db'). row_ok M w \<and> terminal_events (work_id w) (events db') = (if failed_at w = None then 0 else 1)"
    using f ev by (auto simp: db')
  have "\<forall>i. i \<notin> work_id ` set (works db') \<longrightarrow> terminal_events i (events db') = 0"
    unfolding set_ids using ok r by (auto simp: db' outbox_ok_def rows_step_def)
  then show ?thesis
    using ok one rows unfolding outbox_ok_def ids inb by (simp add: db')
qed

lemma accepts_ok: "accepts wid db db' \<Longrightarrow> outbox_ok M db \<Longrightarrow> outbox_ok M db'"
  by (auto simp: accepts_def outbox_ok_def new_work_def new_inbound_def row_ok_def terminal_def leased_def
      one_lease_per_conversation_def)

lemma outbox_ok_ids: "outbox_ok M db \<Longrightarrow> distinct (map work_id (works db))"
  by (simp add: outbox_ok_def)

lemma outbox_step_ok: "outbox_step M db l db' \<Longrightarrow> outbox_ok M db \<Longrightarrow> outbox_ok M db'"
  using outbox_step_effect [OF _ outbox_ok_ids] rows_effect_ok accepts_ok by blast

lemma outbox_run_ok: "outbox_run M h db \<Longrightarrow> outbox_ok M db"
  by (induction rule: outbox_run.induct) (blast intro: outbox_ok_empty outbox_step_ok)+

subsection \<open>The history behind the tables\<close>

definition claims_of :: "outbox_label list \<Rightarrow> nat \<Rightarrow> outbox_label list" where
  "claims_of h i = filter (\<lambda>l. claims_row l i) h"

fun lease_of :: "outbox_label \<Rightarrow> (string \<times> rat) option" where
  "lease_of (LClaim k now d ids) = Some (k, now + d)"
| "lease_of _ = None"

definition last_lease :: "outbox_label list \<Rightarrow> nat \<Rightarrow> (string \<times> rat) option" where
  "last_lease h i = (if claims_of h i = [] then None else lease_of (last (claims_of h i)))"

lemma claims_of_append: "claims_of (h @ [l]) i = (if claims_row l i then claims_of h i @ [l] else claims_of h i)"
  by (simp add: claims_of_def)

lemma last_lease_append: "last_lease (h @ [l]) i = (if claims_row l i then lease_of l else last_lease h i)"
  by (simp add: last_lease_def claims_of_append)

definition history_ok :: "outbox_label list \<Rightarrow> outbox_db \<Rightarrow> bool" where
  "history_ok h db \<longleftrightarrow>
     (\<forall>w \<in> set (works db). attempt_count w = int (length (claims_of h (work_id w)))
        \<and> (leased w \<longrightarrow> (\<exists>k e. lease_owner w = Some k \<and> lease_expires_at w = Some e \<and> last_lease h (work_id w) = Some (k, e))))
     \<and> (\<forall>i. i \<notin> work_id ` set (works db) \<longrightarrow> claims_of h i = [])"

lemma row_step_taken:
  "row_step M l w w' \<Longrightarrow> claims_row l (work_id w) \<Longrightarrow>
     \<exists>k e. lease_owner w' = Some k \<and> lease_expires_at w' = Some e \<and> lease_of l = Some (k, e)"
  by (induction rule: row_step.induct) auto

lemma claimed_ids_are_rows:
  assumes "claim_available_outbox_work k lmt dur mx skipped now db = Inr (out, db')"
  shows "set (map work_id (claimed out)) \<subseteq> work_id ` set (works db)"
  using claim_available_Inr(4) [OF assms] pending_outbox_subset by (auto simp: comp_def)

lemma claims_known_rows:
  assumes "outbox_step M db l db'" and "claims_row l i"
  shows "i \<in> work_id ` set (works db)"
  using assms(1)
proof (cases rule: outbox_step.cases)
  case (claim k lmt dur mx skipped now out)
  then show ?thesis using claimed_ids_are_rows [OF claim(2)] assms(2) by auto
qed (use assms(2) in auto)

lemma rows_effect_history:
  assumes "rows_effect M l db db'" and hist: "history_ok h db"
    and known: "\<And>i. claims_row l i \<Longrightarrow> i \<in> work_id ` set (works db)"
  shows "history_ok (h @ [l]) db'"
proof -
  obtain f es where db': "db' = db\<lparr>works := map f (works db), events := events db @ es\<rparr>"
    and r: "rows_step M l (works db) es f"
    using assms unfolding rows_effect_def by blast
  have row: "attempt_count (f w) = int (length (claims_of (h @ [l]) (work_id (f w))))
      \<and> (leased (f w) \<longrightarrow> (\<exists>k e. lease_owner (f w) = Some k \<and> lease_expires_at (f w) = Some e
           \<and> last_lease (h @ [l]) (work_id (f w)) = Some (k, e)))"
    if w: "w \<in> set (works db)" for w
  proof -
    note s = rows_step_row [OF r w]
    have id: "work_id (f w) = work_id w" using row_step_fixed [OF s] by simp
    have old: "attempt_count w = int (length (claims_of h (work_id w)))"
      "leased w \<Longrightarrow> \<exists>k e. lease_owner w = Some k \<and> lease_expires_at w = Some e \<and> last_lease h (work_id w) = Some (k, e)"
      using hist w by (auto simp: history_ok_def)
    show ?thesis
      using row_step_attempts [OF s] row_step_taken [OF s] row_step_lease [OF s] old
      by (cases "claims_row l (work_id w)") (auto simp: id claims_of_append last_lease_append)
  qed
  have "map work_id (works db') = map work_id (works db)" using map_kept(1) [OF r] by (simp add: db')
  then have ids: "work_id ` set (works db') = work_id ` set (works db)" by (metis list.set_map)
  have "\<forall>i. i \<notin> work_id ` set (works db') \<longrightarrow> claims_of (h @ [l]) i = []"
    unfolding ids using hist known by (auto simp: history_ok_def claims_of_append)
  moreover have "works db' = map f (works db)" by (simp add: db')
  ultimately show ?thesis using row unfolding history_ok_def by simp
qed

lemma accepts_history: "accepts wid db db' \<Longrightarrow> history_ok h db \<Longrightarrow> history_ok (h @ [LAccept wid]) db'"
  by (auto simp: accepts_def history_ok_def new_work_def leased_def claims_of_append last_lease_append)

lemma history_ok_keep: "history_ok h db \<Longrightarrow> history_ok (h @ [LAccept wid]) db"
  by (simp add: history_ok_def claims_of_append last_lease_append)

lemma outbox_run_history: "outbox_run M h db \<Longrightarrow> history_ok h db"
proof (induction rule: outbox_run.induct)
  case (step h db l db')
  have "distinct (map work_id (works db))" using outbox_run_ok [OF step.hyps(1)] by (rule outbox_ok_ids)
  from outbox_step_effect [OF step.hyps(2) this] show ?case
    using rows_effect_history [OF _ step.IH claims_known_rows [OF step.hyps(2)]] accepts_history [OF _ step.IH]
      history_ok_keep [OF step.IH] by blast
qed (simp add: history_ok_def empty_db_def claims_of_def)

subsection \<open>What the outbox promises\<close>

lemma remove_scope: "remove_prefix (ch @ '':'' @ key) (ch @ '':'') = key"
  using starts_with_append [of "ch @ '':''" key] by (simp add: remove_prefix_def)

text \<open>
  Channel keys. A channel gets its own id back from the stored key, whatever the id holds; and the
  ids of two registered channels, whose names hold no colon, are never stored under one key. Only the
  ids of the built-in channel are stored bare, so one of them meets a registered channel's key only
  when it is spelled with that channel's name and a colon itself.
\<close>

theorem channel_keys_roundtrip:
  assumes "CHR '':'' \<notin> set ch" and "CHR '':'' \<notin> set ch'"
  shows "channel_native_key ch (channel_scoped_key ch key) = key
    \<and> (channel_scoped_key ch key = channel_scoped_key ch' key' \<longrightarrow>
         (ch = ch' \<and> key = key')
         \<or> (ch = LEGACY_CHANNEL \<and> ch' \<noteq> LEGACY_CHANNEL \<and> key = ch' @ '':'' @ key')
         \<or> (ch' = LEGACY_CHANNEL \<and> ch \<noteq> LEGACY_CHANNEL \<and> key' = ch @ '':'' @ key))"
proof -
  have split: "ch @ '':'' @ key = ch' @ '':'' @ key' \<Longrightarrow> ch = ch' \<and> key = key'"
  proof -
    assume eq: "ch @ '':'' @ key = ch' @ '':'' @ key'"
    have w: "takeWhile (\<lambda>c. c \<noteq> CHR '':'') (w @ '':'' @ k) = w" if "CHR '':'' \<notin> set w" for w k :: string
      using that by (induction w) auto
    show ?thesis using w [OF assms(1), of key] w [OF assms(2), of key'] eq by simp
  qed
  show ?thesis
    using split remove_scope by (auto simp: channel_scoped_key_def channel_native_key_def)
qed

theorem channel_keys_roundtrip_witness:
  "channel_native_key ''telegram'' (channel_scoped_key ''telegram'' ''a:b'') = ''a:b''
    \<and> channel_scoped_key ''telegram'' ''7'' \<noteq> channel_scoped_key ''sms'' ''7''"
proof -
  have "CHR '':'' \<notin> set ''telegram''" and "CHR '':'' \<notin> set ''sms''" by simp_all
  note rt = channel_keys_roundtrip [OF this]
  show ?thesis using rt [of "''a:b''" "''7''"] rt [of "''7''" "''7''"] by (auto simp: LEGACY_CHANNEL_def)
qed

text \<open>
  C8 One message, one row, one ending. In every state that receivers and workers can reach, in any
  interleaving and with any lost or expired lease: a channel message was accepted once and has
  exactly one row of work; the row counts every claim of it, and no more than the bound on attempts
  ever happened; it never is both completed and failed; a failed row has exactly one operator event
  and no other row has any; only a row with an owner is leased; and a conversation has at most one
  leased row.
\<close>

theorem outbox_rows_accounted:
  assumes run: "outbox_run M h db" and M: "0 \<le> M"
  shows "distinct (map meta_message_id (inbox db)) \<and> distinct (map work_id (works db))
    \<and> map inbound_message_id (works db) = map inbound_id (inbox db)
    \<and> (\<forall>w \<in> set (works db).
         attempt_count w = int (length (claims_of h (work_id w))) \<and> attempt_count w \<le> M
         \<and> \<not> (completed_at w \<noteq> None \<and> failed_at w \<noteq> None)
         \<and> terminal_events (work_id w) (events db) = (if failed_at w = None then 0 else 1)
         \<and> (lease_owner w = None \<longleftrightarrow> lease_expires_at w = None)
         \<and> (terminal w \<longrightarrow> lease_owner w = None))
    \<and> distinct (map conversation_key (filter leased (works db)))"
  using outbox_run_ok [OF run] outbox_run_history [OF run] M
  by (auto simp: outbox_ok_def history_ok_def row_ok_def one_lease_per_conversation_def)

text \<open>
  C16 The lease is a fence. A worker's reply, completion or failure of a row is recorded only while the
  row's latest claim is the worker's own and that lease has not run out; and a row is claimed again
  only after the lease of its latest claim ran out or its holder gave it back. So a worker that was
  overtaken changes nothing.
\<close>

theorem lease_is_a_fence:
  assumes run: "outbox_run M h db" and step: "outbox_step M db l db'"
  shows "(\<forall>k clock i. l = LUse k clock i \<longrightarrow> (\<exists>e. last_lease h i = Some (k, e) \<and> clock < e))
    \<and> (\<forall>k now d ids w. l = LClaim k now d ids \<longrightarrow> w \<in> set (works db) \<longrightarrow> work_id w \<in> set ids \<longrightarrow>
         \<not> leased w \<or> (\<exists>k' e. last_lease h (work_id w) = Some (k', e) \<and> e < now))"
proof -
  have hist: "history_ok h db" by (rule outbox_run_history [OF run])
  have ids: "distinct (map work_id (works db))" using outbox_run_ok [OF run] by (rule outbox_ok_ids)
  have held: "\<exists>e. last_lease h i = Some (k, e) \<and> clock < e"
    if "locked_live_work i k clock db = Inr w" for i k clock w
    using locked_live_work_Inr [OF that] hist
    by (fastforce simp: history_ok_def lease_held_def leased_def split: option.splits)
  have "\<exists>e. last_lease h i = Some (k, e) \<and> clock < e" if "l = LUse k clock i" for k clock i
    using step unfolding that
    by (cases rule: outbox_step.cases)
      (auto simp: persist_outbound_intent_def complete_outbox_work_def record_outbox_failure_def bindR_eq_Inr
        intro: held split: if_splits)
  moreover have "\<not> leased w \<or> (\<exists>k' e. last_lease h (work_id w) = Some (k', e) \<and> e < now)"
    if l: "l = LClaim k now d js" and w: "w \<in> set (works db)" "work_id w \<in> set js" for k now d js w
  proof -
    have "rows_effect M l db db'" using outbox_step_effect [OF step ids] l by auto
    then obtain f where "row_step M (LClaim k now d js) w (f w)"
      using w(1) unfolding rows_effect_def rows_step_def l by blast
    then have "case lease_expires_at w of None \<Rightarrow> True | Some e \<Rightarrow> e < now"
      using w(2) by (cases rule: row_step.cases) auto
    then show ?thesis using hist w(1) by (fastforce simp: history_ok_def split: option.splits)
  qed
  ultimately show ?thesis by blast
qed

definition outbox_steps :: "int \<Rightarrow> outbox_db \<Rightarrow> outbox_db \<Rightarrow> bool" where
  "outbox_steps M = (\<lambda>db db'. \<exists>l. outbox_step M db l db')\<^sup>*\<^sup>*"

lemma outbox_steps_ok: "outbox_steps M db db' \<Longrightarrow> outbox_ok M db \<Longrightarrow> outbox_ok M db'"
  unfolding outbox_steps_def by (induction rule: rtranclp_induct) (blast intro: outbox_step_ok)+

lemma outbox_steps_trans: "outbox_steps M a b \<Longrightarrow> outbox_steps M b c \<Longrightarrow> outbox_steps M a c"
  unfolding outbox_steps_def by (rule rtranclp_trans)

lemma outbox_steps_refl [simp]: "outbox_steps M db db"
  by (simp add: outbox_steps_def)

lemma outbox_step_steps: "outbox_step M db l db' \<Longrightarrow> outbox_steps M db db'"
  unfolding outbox_steps_def by blast

text \<open>What a row keeps: its reply, and everything once it has ended.\<close>

definition keeps_row :: "outbox_work \<Rightarrow> outbox_work \<Rightarrow> bool" where
  "keeps_row w w' \<longleftrightarrow> work_id w' = work_id w \<and> (terminal w \<longrightarrow> w' = w)
     \<and> (\<forall>b. outbound_body w = Some b \<longrightarrow> outbound_body w' = Some b \<and> outbound_send_key w' = outbound_send_key w)"

lemma outbox_step_keeps_row:
  assumes ok: "outbox_ok M db" and l: "outbox_step M db l db'" and w: "w \<in> set (works db)"
  shows "\<exists>u \<in> set (works db'). keeps_row w u"
proof -
  have "\<exists>u \<in> set (works db'). u = w \<or> row_step M l w u"
    using outbox_step_effect [OF l outbox_ok_ids [OF ok]] w
    by (auto simp: rows_effect_def rows_step_def accepts_def)
  then obtain u where u: "u \<in> set (works db')" "u = w \<or> row_step M l w u" by blast
  have "row_ok M w" using ok w by (simp add: outbox_ok_def)
  then have "keeps_row w u"
    using u(2) row_step_fixed row_step_final by (fastforce simp: row_ok_def keeps_row_def)
  then show ?thesis using u(1) by blast
qed

lemma keeps_row_trans: "keeps_row u v \<Longrightarrow> keeps_row v w \<Longrightarrow> keeps_row u w"
  by (auto simp: keeps_row_def)

lemma keeps_row_refl [simp]: "keeps_row w w"
  by (simp add: keeps_row_def)

lemma outbox_steps_keep_row:
  assumes "outbox_ok M db" and "outbox_steps M db db'" and w: "w \<in> set (works db)"
  shows "\<exists>w' \<in> set (works db'). keeps_row w w'"
  using assms(2) unfolding outbox_steps_def
proof (induction rule: rtranclp_induct)
  case base
  show ?case using w by (blast intro: keeps_row_refl)
next
  case (step db1 db2)
  have "outbox_ok M db1" using outbox_steps_ok [OF _ assms(1)] step.hyps(1) by (simp add: outbox_steps_def)
  with step outbox_step_keeps_row show ?case by (meson keeps_row_trans)
qed

text \<open>
  C25 What is final. Whatever happens after, a row that was completed or failed stays exactly as it is,
  and a reply that was committed is never replaced: a message that failed for good is never claimed,
  answered or told of again, and a reply sent a second time is the same reply.
\<close>

theorem replies_and_endings_final:
  assumes run: "outbox_run M h db" and later: "outbox_steps M db db'" and w: "w \<in> set (works db)"
  shows "\<exists>w' \<in> set (works db'). work_id w' = work_id w
    \<and> (terminal w \<longrightarrow> w' = w)
    \<and> (\<forall>b. outbound_body w = Some b \<longrightarrow> outbound_body w' = Some b \<and> outbound_send_key w' = outbound_send_key w)"
  using outbox_steps_keep_row [OF outbox_run_ok [OF run] later w] by (simp add: keeps_row_def)

lemma oldest_is_older:
  assumes "distinct (map work_id ws)" and "no_older_sibling ws v" and "u \<in> set ws" and "v \<in> set ws" and "u \<noteq> v"
    and "conversation_key u = conversation_key v" and "\<not> terminal u"
  shows "older v u"
proof -
  have "work_id u \<noteq> work_id v" using assms by (auto simp: distinct_map dest: inj_onD)
  moreover have "\<not> older u v" using assms by (auto simp: no_older_sibling_def list_ex_iff)
  ultimately show ?thesis by (auto simp: older_def)
qed

lemma older_asym: "older u v \<Longrightarrow> \<not> older v u"
  by (auto simp: older_def)

lemma oldest_unique:
  assumes "distinct (map work_id ws)" and "distinct vs"
    and "\<And>v. v \<in> set vs \<Longrightarrow> v \<in> set ws \<and> \<not> terminal v \<and> no_older_sibling ws v"
  shows "distinct (map conversation_key vs)"
  using assms(2,3)
proof (induction vs)
  case (Cons v vs)
  have "conversation_key u \<noteq> conversation_key v" if "u \<in> set vs" for u
    using that Cons.prems oldest_is_older [OF assms(1), of v u] oldest_is_older [OF assms(1), of u v] older_asym
    by (metis distinct.simps(2) list.set_intros)
  then have "conversation_key v \<notin> conversation_key ` set vs" by force
  then show ?case using Cons by simp
qed simp

definition takes_lease :: "string \<Rightarrow> rat \<Rightarrow> rat \<Rightarrow> outbox_work \<Rightarrow> outbox_work" where
  "takes_lease k now dur v =
     v\<lparr>lease_owner := Some k, lease_expires_at := Some (now + dur), attempt_count := attempt_count v + 1\<rparr>"

text \<open>The row \<open>v\<close> of the table before a claim, and \<open>w\<close> what the claim returned it as.\<close>

definition served ::
  "string \<Rightarrow> rat \<Rightarrow> int \<Rightarrow> rat \<Rightarrow> claim_outcome \<Rightarrow> outbox_db \<Rightarrow> outbox_work \<Rightarrow> outbox_work \<Rightarrow> bool" where
  "served k dur mx now out db v w \<longleftrightarrow>
     work_id w = work_id v \<and> conversation_key w = conversation_key v
     \<and> \<not> terminal v \<and> available_at v \<le> now \<and> (\<forall>e. lease_expires_at v = Some e \<longrightarrow> e < now)
     \<and> (\<forall>u \<in> set (works db). u \<noteq> v \<and> conversation_key u = conversation_key v \<and> \<not> terminal u \<longrightarrow> older v u)
     \<and> (if attempt_count v < mx then w \<in> set (claimed out) \<and> w = takes_lease k now dur v
        else w \<in> set (terminalized out) \<and> failed_at w = Some now)"

text \<open>
  Who is served. A claim takes at most the asked number of rows, from as many conversations. Each
  is due, free or with its lease run out, and the oldest unfinished message of its conversation: no
  message overtakes an earlier one, be that one leased, waiting for a retry or unclaimed. A claimed
  row had an attempt left and is leased to the caller; a row with none left ends as failed; every
  other row stays as it is. And when fewer rows were taken than asked for, no due row was left behind
  but those another transaction held.
\<close>

theorem claims_in_arrival_order:
  assumes ids: "distinct (map work_id (works db))"
    and cl: "claim_available_outbox_work k lmt dur mx skipped now db = Inr (out, db')"
  shows "int (length (claimed out) + length (terminalized out)) \<le> lmt
    \<and> distinct (map conversation_key (claimed out @ terminalized out))
    \<and> (\<forall>w \<in> set (claimed out) \<union> set (terminalized out). \<exists>v \<in> set (works db).
         served k dur mx now out db v w)
    \<and> (\<forall>v \<in> set (works db). work_id v \<notin> work_id ` (set (claimed out) \<union> set (terminalized out)) \<longrightarrow> v \<in> set (works db'))
    \<and> (int (length (claimed out) + length (terminalized out)) < lmt \<longrightarrow>
         (\<forall>v \<in> set (works db). claimable (works db) now v \<and> work_id v \<notin> set skipped \<longrightarrow>
            work_id v \<in> work_id ` (set (claimed out) \<union> set (terminalized out))))"
proof -
  define rows where "rows = pending_outbox now (nat lmt) skipped db"
  define live where "live = filter (\<lambda>w. \<not> mx \<le> attempt_count w) rows"
  define dead where "dead = filter (\<lambda>w. mx \<le> attempt_count w) rows"
  note c = claim_available_Inr [OF cl, folded rows_def, folded dead_def live_def]
  have sub: "\<And>w. w \<in> set rows \<Longrightarrow> w \<in> set (works db) \<and> claimable (works db) now w"
    unfolding rows_def using pending_outbox_subset by blast
  have drows: "distinct rows" using pending_outbox_distinct [OF ids] by (simp add: rows_def distinct_map)
  have len: "length (claimed out) + length (terminalized out) = length rows"
    using sum_length_filter_compl [of "\<lambda>w. mx \<le> attempt_count w" rows] by (simp add: c(4,5) live_def dead_def)
  have key: "\<And>v. conversation_key (claim_row k now dur mx v) = conversation_key v"
    by (simp add: claim_row_def terminalize_def)
  have keys: "map conversation_key (claimed out @ terminalized out) = map conversation_key (live @ dead)"
    by (simp add: c(4,5) live_def comp_def key)
  have set_rows: "set live \<union> set dead = set rows" by (auto simp: live_def dead_def)
  have selected: "work_id ` (set (claimed out) \<union> set (terminalized out)) = work_id ` set rows"
    unfolding set_rows [symmetric] by (simp add: c(4,5) live_def image_Un image_image)
  have 1: "int (length rows) \<le> lmt" using c(2) by (simp add: rows_def pending_outbox_def)
  have 2: "distinct (map conversation_key (live @ dead))"
  proof (rule oldest_unique [OF ids])
    show "distinct (live @ dead)" using drows by (auto simp: live_def dead_def)
  qed (use sub in \<open>auto simp: live_def dead_def claimable_def\<close>)
  have 3: "served k dur mx now out db v w"
    if v: "v \<in> set rows" "w = claim_row k now dur mx v" for v w
    using sub [OF v(1)] v oldest_is_older [OF ids, of v] c(4,5)
    by (auto simp: served_def claimable_def key live_def dead_def takes_lease_def claim_row_def terminalize_def split: option.splits)
  have 4: "v \<in> set (works db')" if "v \<in> set (works db)" "work_id v \<notin> work_id ` set rows" for v
  proof -
    have "v \<notin> set rows" using that(2) by blast
    then have "(if v \<in> set rows then claim_row k now dur mx v else v) = v" by simp
    then show ?thesis using that(1) unfolding c(6) by (force simp: image_iff)
  qed
  have 5: "v \<in> set rows" if "int (length rows) < lmt" "v \<in> set (works db)" "claimable (works db) now v" "work_id v \<notin> set skipped" for v
  proof -
    have "length (take (nat lmt) (sort_key (\<lambda>w. (available_at w, work_id w))
        (filter (\<lambda>w. claimable (works db) now w \<and> work_id w \<notin> set skipped) (works db)))) < nat lmt"
      using that(1) by (simp add: rows_def pending_outbox_def)
    then have "rows = sort_key (\<lambda>w. (available_at w, work_id w))
        (filter (\<lambda>w. claimable (works db) now w \<and> work_id w \<notin> set skipped) (works db))"
      unfolding rows_def pending_outbox_def by simp
    then show ?thesis using that by simp
  qed
  have from_row: "\<exists>v \<in> set rows. w = claim_row k now dur mx v" if "w \<in> set (claimed out) \<union> set (terminalized out)" for w
    using that by (auto simp: c(4,5) live_def dead_def)
  show ?thesis
    unfolding len keys selected
  proof (intro conjI)
    show "\<forall>w \<in> set (claimed out) \<union> set (terminalized out). \<exists>v \<in> set (works db).
         served k dur mx now out db v w"
    proof
      fix w assume "w \<in> set (claimed out) \<union> set (terminalized out)"
      from from_row [OF this] obtain v where "v \<in> set rows" "w = claim_row k now dur mx v" by blast
      then show "\<exists>v \<in> set (works db). served k dur mx now out db v w" using 3 sub by blast
    qed
    show "\<forall>v \<in> set (works db). work_id v \<notin> work_id ` set rows \<longrightarrow> v \<in> set (works db')" using 4 by blast
    show "int (length rows) < lmt \<longrightarrow> (\<forall>v \<in> set (works db).
        claimable (works db) now v \<and> work_id v \<notin> set skipped \<longrightarrow> work_id v \<in> work_id ` set rows)" using 5 by blast
  qed (use 1 2 in simp_all)
qed

subsection \<open>A run\<close>

definition after_op :: "('a \<times> outbox_db) res \<Rightarrow> outbox_db" where
  "after_op r = (case r of Inr (_, db) \<Rightarrow> db | Inl _ \<Rightarrow> empty_db)"

definition demo_accept :: "nat \<Rightarrow> string \<Rightarrow> outbox_db \<Rightarrow> (acceptance \<times> outbox_db) res" where
  "demo_accept i ckey = accept_inbound_message (100 + i) i (of_nat i) (replicate i CHR ''m'') PNone ckey LEGACY_CHANNEL"

definition demo_db3 :: outbox_db where
  "demo_db3 = after_op (demo_accept 3 ''b'' (after_op (demo_accept 2 ''a'' (after_op (demo_accept 1 ''a'' empty_db)))))"

definition demo_claim :: "string \<Rightarrow> rat \<Rightarrow> outbox_db \<Rightarrow> (claim_outcome \<times> outbox_db) res" where
  "demo_claim k now = claim_available_outbox_work k 5 DEFAULT_LEASE_DURATION MAX_OUTBOX_ATTEMPTS [] now"

definition demo_db4 :: outbox_db where "demo_db4 = after_op (demo_claim ''k'' 10 demo_db3)"

definition demo_fail :: "outbox_db \<Rightarrow> (failure_outcome \<times> outbox_db) res" where
  "demo_fail = record_outbox_failure 3 ''k'' ''boom'' 0 MAX_OUTBOX_ATTEMPTS False (Some ''ValueError'') (Some (PStr ''sorry'', ''m:fallback'')) 20 20"

definition demo_db5 :: outbox_db where "demo_db5 = after_op (demo_fail demo_db4)"

definition demo_labels :: "outbox_label list" where
  "demo_labels = [LAccept 1, LAccept 2, LAccept 3, LClaim ''k'' 10 DEFAULT_LEASE_DURATION [1, 3], LUse ''k'' 20 3]"

definition succeeds :: "('a \<times> outbox_db) res \<Rightarrow> bool" where
  "succeeds r = (case r of Inr _ \<Rightarrow> True | Inl _ \<Rightarrow> False)"

definition result_of :: "('a \<times> outbox_db) res \<Rightarrow> 'a" where
  "result_of r = fst (projr r)"

lemma after_op: "succeeds r \<Longrightarrow> r = Inr (result_of r, after_op r)"
  by (cases r) (auto simp: succeeds_def result_of_def after_op_def)

definition demo_db1 :: outbox_db where "demo_db1 = after_op (demo_accept 1 ''a'' empty_db)"
definition demo_db2 :: outbox_db where "demo_db2 = after_op (demo_accept 2 ''a'' demo_db1)"

lemma demo_run3: "outbox_run MAX_OUTBOX_ATTEMPTS [LAccept 1, LAccept 2, LAccept 3] demo_db3"
proof -
  have a: "outbox_step MAX_OUTBOX_ATTEMPTS db (LAccept i) (after_op (demo_accept i ckey db))"
    if "succeeds (demo_accept i ckey db)" for i ckey db
    using outbox_step.accept [OF after_op [OF that, unfolded demo_accept_def]] by (simp add: demo_accept_def)
  have "succeeds (demo_accept 1 ''a'' empty_db)" and "succeeds (demo_accept 2 ''a'' demo_db1)"
    and "succeeds (demo_accept 3 ''b'' demo_db2)" by code_simp+
  note s = this [THEN a]
  have "outbox_run MAX_OUTBOX_ATTEMPTS ((([] @ [LAccept 1]) @ [LAccept 2]) @ [LAccept 3])
      (after_op (demo_accept 3 ''b'' demo_db2))"
    using s unfolding demo_db1_def demo_db2_def by (blast intro: outbox_run.intros)
  then show ?thesis by (simp add: demo_db3_def demo_db2_def demo_db1_def)
qed

lemma demo_step4: "outbox_step MAX_OUTBOX_ATTEMPTS demo_db3 (LClaim ''k'' 10 DEFAULT_LEASE_DURATION [1, 3]) demo_db4"
proof -
  have "succeeds (demo_claim ''k'' 10 demo_db3)" and "map work_id (claimed (result_of (demo_claim ''k'' 10 demo_db3))) = [1, 3]"
    by code_simp+
  with outbox_step.claim [OF after_op [OF this(1), unfolded demo_claim_def], of MAX_OUTBOX_ATTEMPTS] show ?thesis
    by (simp add: demo_db4_def demo_claim_def)
qed

lemma demo_step5: "outbox_step MAX_OUTBOX_ATTEMPTS demo_db4 (LUse ''k'' 20 3) demo_db5"
proof -
  have "succeeds (demo_fail demo_db4)" by code_simp
  from outbox_step.failure [OF after_op [OF this, unfolded demo_fail_def]] show ?thesis
    by (simp add: demo_db5_def demo_fail_def)
qed

lemma demo_run4: "outbox_run MAX_OUTBOX_ATTEMPTS [LAccept 1, LAccept 2, LAccept 3, LClaim ''k'' 10 DEFAULT_LEASE_DURATION [1, 3]] demo_db4"
  using outbox_run.step [OF demo_run3 demo_step4] by simp

lemma demo_run5: "outbox_run MAX_OUTBOX_ATTEMPTS demo_labels demo_db5"
  using outbox_run.step [OF demo_run4 demo_step5] by (simp add: demo_labels_def)

theorem outbox_rows_accounted_witness:
  "map (\<lambda>w. (work_id w, attempt_count w, failed_at w)) (works demo_db5) = [(1, 1, None), (2, 0, None), (3, 1, Some 20)]
    \<and> list_all (\<lambda>w. attempt_count w = int (length (claims_of demo_labels (work_id w)))) (works demo_db5)"
proof -
  have "0 \<le> MAX_OUTBOX_ATTEMPTS" by code_simp
  from outbox_rows_accounted [OF demo_run5 this]
  have "\<forall>w \<in> set (works demo_db5). attempt_count w = int (length (claims_of demo_labels (work_id w)))" by blast
  moreover have "map (\<lambda>w. (work_id w, attempt_count w, failed_at w)) (works demo_db5) = [(1, 1, None), (2, 0, None), (3, 1, Some 20)]"
    by code_simp
  ultimately show ?thesis unfolding list_all_iff by blast
qed

theorem lease_is_a_fence_witness:
  "last_lease [LAccept 1, LAccept 2, LAccept 3, LClaim ''k'' 10 DEFAULT_LEASE_DURATION [1, 3]] 3 = Some (''k'', 610)
    \<and> (\<exists>e. last_lease [LAccept 1, LAccept 2, LAccept 3, LClaim ''k'' 10 DEFAULT_LEASE_DURATION [1, 3]] 3 = Some (''k'', e) \<and> 20 < e)"
proof -
  have "last_lease [LAccept 1, LAccept 2, LAccept 3, LClaim ''k'' 10 DEFAULT_LEASE_DURATION [1, 3]] 3 = Some (''k'', 610)"
    by code_simp
  then show ?thesis using lease_is_a_fence [OF demo_run4 demo_step5] by blast
qed

theorem replies_and_endings_final_witness:
  "\<exists>w \<in> set (works demo_db5). work_id w = 3 \<and> terminal w \<and> (\<forall>db'. outbox_steps 5 demo_db5 db' \<longrightarrow> w \<in> set (works db'))"
proof -
  have w: "works demo_db5 ! 2 \<in> set (works demo_db5) \<and> work_id (works demo_db5 ! 2) = 3 \<and> terminal (works demo_db5 ! 2)"
    by code_simp
  have five: "MAX_OUTBOX_ATTEMPTS = 5" by code_simp
  have "works demo_db5 ! 2 \<in> set (works db')" if "outbox_steps 5 demo_db5 db'" for db'
    using replies_and_endings_final [OF demo_run5 that [folded five], of "works demo_db5 ! 2"] w by blast
  then show ?thesis using w by blast
qed

theorem claims_in_arrival_order_witness:
  "\<exists>out db'. demo_claim ''k'' 10 demo_db3 = Inr (out, db') \<and> map work_id (claimed out) = [1, 3]
    \<and> distinct (map conversation_key (claimed out @ terminalized out))"
proof -
  have "succeeds (demo_claim ''k'' 10 demo_db3)" and c: "map work_id (claimed (result_of (demo_claim ''k'' 10 demo_db3))) = [1, 3]"
    and ids: "distinct (map work_id (works demo_db3))" by code_simp+
  note s = after_op [OF this(1)]
  from claims_in_arrival_order [OF ids s [unfolded demo_claim_def]] s c show ?thesis
    by (auto simp: demo_claim_def)
qed

end
