(* ===== verification/Outbox_Progress.thy ===== *)
theory Outbox_Progress
  imports Outbox
begin

section \<open>Progress of the outbox\<close>

text \<open>
  When claims succeed, and that work comes to an end.  A worker polls: it claims, and whatever happens
  to the claimed rows, it claims again later.  The unique index on leased rows is checked by every
  claim; while messages are committed in the order of their \<open>enqueued_at\<close> it refuses none, and then
  polling alone brings every row to an end, even if every worker crashes on every row.  A message
  committed after a younger one of its conversation was claimed makes the index refuse.
\<close>

subsection \<open>In order of arrival the index refuses nothing\<close>

lemma claims_oldest:
  assumes "outbox_step M db l db'" and "distinct (map work_id (works db))" and "w \<in> set (works db)"
    and "claims_row l (work_id w)"
  shows "no_older_sibling (works db) w"
  using assms(1)
proof (cases rule: outbox_step.cases)
  case (claim k lmt dur mx skipped now out)
  have "work_id w \<in> work_id ` set (claimed out)" using claim(1) assms(4) by simp
  then obtain v where v: "v \<in> set (pending_outbox now (nat lmt) skipped db)" "work_id v = work_id w"
    unfolding claim_available_Inr(4) [OF claim(2)] by auto
  then have "v \<in> set (works db)" "no_older_sibling (works db) v"
    using pending_outbox_subset [OF v(1)] by (simp_all add: claimable_def)
  with v(2) show ?thesis using assms(2,3) by (auto simp: distinct_map dest: inj_onD)
qed (use assms(4) in auto)

lemma rows_effectE:
  assumes "rows_effect M l db db'"
  obtains f es where "works db' = map f (works db)" and "rows_step M l (works db) es f"
  using assms unfolding rows_effect_def by fastforce

definition leases_oldest :: "outbox_work list \<Rightarrow> bool" where
  "leases_oldest ws \<longleftrightarrow> (\<forall>w \<in> set ws. leased w \<longrightarrow> no_older_sibling ws w)"

lemma leases_oldest_map:
  assumes row: "\<And>w. w \<in> set ws \<Longrightarrow> enqueued_at (f w) = enqueued_at w \<and> work_id (f w) = work_id w
      \<and> conversation_key (f w) = conversation_key w \<and> (terminal w \<longrightarrow> terminal (f w))
      \<and> (leased (f w) \<longrightarrow> no_older_sibling ws w)"
  shows "leases_oldest (map f ws)"
  unfolding leases_oldest_def
proof (intro ballI impI)
  fix u assume "u \<in> set (map f ws)" and "leased u"
  then obtain w where w: "w \<in> set ws" "u = f w" "no_older_sibling ws w" using row by auto
  have "older (f v) (f w) = older v w" if "v \<in> set ws" for v
    using row [OF that] row [OF w(1)] by (simp add: older_def)
  then show "no_older_sibling (map f ws) u"
    using w row unfolding no_older_sibling_def list_ex_iff by (metis (no_types, lifting) imageE list.set_map)
qed

lemma older_fixed: "row_step M l w w' \<Longrightarrow> row_step M l v v' \<Longrightarrow> older v' w' = older v w"
  using row_step_fixed by (simp add: older_def)

lemma sorted_older_map:
  assumes "rows_step M l ws es f"
  shows "sorted_wrt older (map f ws) = sorted_wrt older ws"
  using older_fixed [OF rows_step_row [OF assms] rows_step_row [OF assms]]
  by (auto simp: sorted_wrt_map sorted_wrt_iff_nth_less)

lemma run_leases_oldest: "outbox_run M h db \<Longrightarrow> sorted_wrt older (works db) \<Longrightarrow> leases_oldest (works db)"
proof (induction rule: outbox_run.induct)
  case start
  then show ?case by (simp add: empty_db_def leases_oldest_def)
next
  case (step h db l db')
  have ids: "distinct (map work_id (works db))" using outbox_run_ok [OF step.hyps(1)] by (rule outbox_ok_ids)
  consider (rows) "rows_effect M l db db'" | (same) "db' = db" | (new) wid where "accepts wid db db'"
    using outbox_step_effect [OF step.hyps(2) ids] by blast
  then show ?case
  proof cases
    case rows
    then obtain f es where f: "works db' = map f (works db)" "rows_step M l (works db) es f"
      by (rule rows_effectE)
    have "leases_oldest (works db)" using step.IH step.prems sorted_older_map [OF f(2)] f(1) by simp
    then show ?thesis
      unfolding f(1)
    proof (intro leases_oldest_map)
      fix w assume old: "leases_oldest (works db)" and w: "w \<in> set (works db)"
      note s = rows_step_row [OF f(2) w]
      have "leased (f w) \<longrightarrow> no_older_sibling (works db) w"
        using claims_oldest [OF step.hyps(2) ids w] row_step_lease [OF s] old w by (auto simp: leases_oldest_def)
      then show "enqueued_at (f w) = enqueued_at w \<and> work_id (f w) = work_id w
          \<and> conversation_key (f w) = conversation_key w \<and> (terminal w \<longrightarrow> terminal (f w))
          \<and> (leased (f w) \<longrightarrow> no_older_sibling (works db) w)"
        using row_step_fixed [OF s] row_step_final [OF s] by auto
    qed
  next
    case same
    then show ?thesis using step by simp
  next
    case new
    then obtain iid now ckey where w: "works db' = works db @ [new_work wid iid now ckey]"
      unfolding accepts_def by auto
    then have "leases_oldest (works db)" and "\<forall>v \<in> set (works db). older v (new_work wid iid now ckey)"
      using step.IH step.prems by (auto simp: sorted_wrt_append)
    then show ?thesis
      unfolding w leases_oldest_def no_older_sibling_def using older_asym
      by (auto simp: leased_def new_work_def)
  qed
qed

lemma claimed_leases_oldest:
  assumes "leases_oldest (works db)"
  shows "leases_oldest (map (\<lambda>w. if w \<in> set (pending_outbox now n skipped db) then claim_row k now dur mx w else w) (works db))"
proof -
  define f where "f = (\<lambda>w. if w \<in> set (pending_outbox now n skipped db) then claim_row k now dur mx w else w)"
  have "enqueued_at (f w) = enqueued_at w \<and> work_id (f w) = work_id w \<and> conversation_key (f w) = conversation_key w
      \<and> (terminal w \<longrightarrow> terminal (f w)) \<and> (leased (f w) \<longrightarrow> no_older_sibling (works db) w)"
    if "w \<in> set (works db)" for w
    using that assms pending_outbox_subset [of w now n skipped db]
    by (auto simp: f_def claim_row_def terminalize_def terminal_def claimable_def leases_oldest_def)
  then have "leases_oldest (map f (works db))" by (rule leases_oldest_map)
  then show ?thesis by (simp only: f_def)
qed

lemma claim_accepted:
  assumes ids: "distinct (map work_id (works db))" and old: "leases_oldest (works db)"
    and "k \<noteq> ''''" and "0 < lmt" and "0 < dur"
  shows "\<exists>out db'. claim_available_outbox_work k lmt dur mx skipped now db = Inr (out, db')"
proof -
  define f where "f = (\<lambda>w. if w \<in> set (pending_outbox now (nat lmt) skipped db) then claim_row k now dur mx w else w)"
  have "leases_oldest (map f (works db))" unfolding f_def by (rule claimed_leases_oldest [OF old])
  moreover have "work_id (f w) = work_id w" for w by (simp add: f_def claim_row_def terminalize_def)
  then have d: "distinct (map work_id (map f (works db)))" using ids by (simp cong: map_cong add: comp_def)
  then have "distinct (map f (works db))" by (simp only: distinct_map)
  ultimately have "one_lease_per_conversation (map f (works db))"
    unfolding one_lease_per_conversation_def
    by (intro oldest_unique [OF d]) (simp_all only: distinct_filter, auto simp: leases_oldest_def leased_def)
  then show ?thesis
    using assms(3-5) by (simp add: claim_available_outbox_work_def Let_def f_def [symmetric])
qed

subsection \<open>Polling ends\<close>

text \<open>\<open>process_available\<close> logs a claim that failed and polls again.\<close>

fun crashing_polls :: "string \<Rightarrow> int \<Rightarrow> rat \<Rightarrow> int \<Rightarrow> rat list \<Rightarrow> outbox_db \<Rightarrow> outbox_db" where
  "crashing_polls k lmt dur mx [] db = db"
| "crashing_polls k lmt dur mx (t # ts) db =
     (case claim_available_outbox_work k lmt dur mx [] t db of
        Inr (out, db') \<Rightarrow> crashing_polls k lmt dur mx ts db'
      | Inl e \<Rightarrow> crashing_polls k lmt dur mx ts db)"

fun spaced :: "rat \<Rightarrow> rat list \<Rightarrow> bool" where
  "spaced dur [] = True"
| "spaced dur [t] = True"
| "spaced dur (t # u # ts) = (t + dur < u \<and> spaced dur (u # ts))"

definition due_at :: "rat \<Rightarrow> outbox_db \<Rightarrow> bool" where
  "due_at t db \<longleftrightarrow> (\<forall>w \<in> set (works db). \<not> terminal w \<longrightarrow>
     available_at w \<le> t \<and> (case lease_expires_at w of None \<Rightarrow> True | Some e \<Rightarrow> e < t))"

definition attempts_left :: "int \<Rightarrow> outbox_work \<Rightarrow> nat" where
  "attempts_left mx w = (if terminal w then 0 else Suc (nat (mx - attempt_count w)))"

definition work_left :: "int \<Rightarrow> outbox_db \<Rightarrow> nat" where
  "work_left mx db = sum_list (map (attempts_left mx) (works db))"

lemma oldest_unfinished:
  assumes "\<exists>w \<in> set ws. \<not> terminal w"
  shows "\<exists>w \<in> set ws. \<not> terminal w \<and> no_older_sibling ws w"
proof -
  let ?age = "\<lambda>w. (enqueued_at w, work_id w)" and ?u = "{w \<in> set ws. \<not> terminal w}"
  have "finite (?age ` ?u)" "?age ` ?u \<noteq> {}" using assms by auto
  then have "Min (?age ` ?u) \<in> ?age ` ?u" by (rule Min_in)
  then obtain w where w: "w \<in> ?u" "?age w = Min (?age ` ?u)" by fastforce
  have "\<not> older v w" if "v \<in> ?u" for v
    using Min_le [OF \<open>finite (?age ` ?u)\<close>, of "?age v"] that w(2) by (auto simp: older_def not_less)
  then have "no_older_sibling ws w" unfolding no_older_sibling_def list_ex_iff by blast
  then show ?thesis using w(1) by blast
qed

lemma claim_row_left:
  "\<not> terminal w \<Longrightarrow> attempts_left mx (claim_row k now dur mx w) < attempts_left mx w"
  by (auto simp: attempts_left_def claim_row_def terminalize_def terminal_def)

lemma claim_row_due:
  "now + dur < u \<Longrightarrow> 0 < dur \<Longrightarrow> available_at w \<le> now \<Longrightarrow> \<not> terminal (claim_row k now dur mx w) \<Longrightarrow>
     available_at (claim_row k now dur mx w) \<le> u
     \<and> (case lease_expires_at (claim_row k now dur mx w) of None \<Rightarrow> True | Some e \<Rightarrow> e < u)"
  by (auto simp: claim_row_def terminalize_def terminal_def)

lemma sum_list_mono_strict:
  fixes f g :: "'a \<Rightarrow> nat"
  assumes "\<And>x. x \<in> set xs \<Longrightarrow> f x \<le> g x" and "x \<in> set xs" and "f x < g x"
  shows "sum_list (map f xs) < sum_list (map g xs)"
  using assms
proof (induction xs)
  case (Cons y ys)
  have le: "sum_list (map f ys) \<le> sum_list (map g ys)" by (rule sum_list_mono) (use Cons.prems(1) in simp)
  show ?case
  proof (cases "x = y")
    case True
    then show ?thesis using Cons.prems(3) le by simp
  next
    case False
    then show ?thesis using Cons.IH Cons.prems by (simp add: add_le_less_mono)
  qed
qed simp

text \<open>One poll: it is not refused, and either all work is done or some attempt is used up.\<close>

lemma poll_progress:
  assumes ids: "distinct (map work_id (works db))" and old: "leases_oldest (works db)"
    and due: "due_at t db"
    and args: "k \<noteq> ''''" "0 < lmt" "0 < dur"
  obtains out db' where "claim_available_outbox_work k lmt dur mx [] t db = Inr (out, db')"
    and "(\<forall>w \<in> set (works db). terminal w) \<or> work_left mx db' < work_left mx db"
    and "work_left mx db' \<le> work_left mx db"
    and "\<And>u. t + dur < u \<Longrightarrow> due_at u db'"
proof -
  obtain out db' where cl: "claim_available_outbox_work k lmt dur mx [] t db = Inr (out, db')"
    using claim_accepted [OF ids old args] by blast
  define rows where "rows = pending_outbox t (nat lmt) [] db"
  define f where "f = (\<lambda>w. if w \<in> set rows then claim_row k t dur mx w else w)"
  note c = claim_available_Inr [OF cl, folded rows_def, folded f_def]
  have w': "works db' = map f (works db)" using c(6) by simp
  have le: "attempts_left mx (f w) \<le> attempts_left mx w" for w
    using claim_row_left [of w mx k t dur] pending_outbox_subset [of w t "nat lmt" "[]" db]
    by (auto simp: f_def rows_def claimable_def)
  have "work_left mx db' < work_left mx db" if ex: "\<exists>w \<in> set (works db). \<not> terminal w"
  proof -
    obtain v where v: "v \<in> set (works db)" "\<not> terminal v" "no_older_sibling (works db) v"
      using oldest_unfinished [OF ex] by blast
    then have "claimable (works db) t v" using due by (auto simp: claimable_def due_at_def split: option.splits)
    then have "filter (\<lambda>w. claimable (works db) t w \<and> work_id w \<notin> set []) (works db) \<noteq> []"
      using v(1) by (auto simp: filter_empty_conv)
    then have "sort_key (\<lambda>w. (available_at w, work_id w))
        (filter (\<lambda>w. claimable (works db) t w \<and> work_id w \<notin> set []) (works db)) \<noteq> []"
      by (metis set_empty set_sort)
    then have "rows \<noteq> []" using args(2) by (simp add: rows_def pending_outbox_def)
    then obtain r where r: "r \<in> set rows" by (cases rows) auto
    then have "r \<in> set (works db)" "\<not> terminal r"
      using pending_outbox_subset unfolding rows_def claimable_def by blast+
    then show ?thesis
      unfolding work_left_def w' using sum_list_mono_strict [of "works db" "attempts_left mx \<circ> f" "attempts_left mx" r] le
        claim_row_left [of r mx k t dur] r by (simp add: f_def)
  qed
  moreover have "work_left mx db' \<le> work_left mx db"
    unfolding work_left_def w' by (simp add: sum_list_mono le)
  moreover have "due_at u db'" if u: "t + dur < u" for u
    unfolding due_at_def w'
  proof (intro ballI impI)
    fix x assume "x \<in> set (map f (works db))" "\<not> terminal x"
    then obtain w where w: "w \<in> set (works db)" "x = f w" "\<not> terminal (f w)" by auto
    then have "\<not> terminal w"
      by (auto simp: f_def claim_row_def terminalize_def terminal_def split: if_splits)
    then have d: "available_at w \<le> t" "case lease_expires_at w of None \<Rightarrow> True | Some e \<Rightarrow> e < t" using due w(1) by (auto simp: due_at_def)
    show "available_at x \<le> u \<and> (case lease_expires_at x of None \<Rightarrow> True | Some e \<Rightarrow> e < u)"
    proof (cases "w \<in> set rows")
      case True
      then show ?thesis using claim_row_due [OF u args(3) d(1)] w by (simp add: f_def)
    next
      case False
      then show ?thesis using d u args(3) w(2) by (auto simp: f_def split: option.splits)
    qed
  qed
  ultimately show ?thesis using cl that by blast
qed

lemma attempts_left_le: "0 \<le> attempt_count w \<Longrightarrow> attempts_left mx w \<le> Suc (nat mx)"
  by (simp add: attempts_left_def nat_mono)

lemma work_left_le: "outbox_ok M db \<Longrightarrow> work_left mx db \<le> Suc (nat mx) * length (works db)"
  unfolding work_left_def outbox_ok_def
  using sum_list_mono [of "works db" "attempts_left mx" "\<lambda>_. Suc (nat mx)"] attempts_left_le
  by (simp add: row_ok_def sum_list_triv mult.commute)

lemma work_left_0: "work_left mx db = 0 \<longleftrightarrow> (\<forall>w \<in> set (works db). terminal w)"
  by (auto simp: work_left_def attempts_left_def split: if_splits)

lemma claim_keeps_order:
  assumes "claim_available_outbox_work k lmt dur mx skipped t db = Inr (out, db')" and "mx \<le> M"
    and "distinct (map work_id (works db))" and "leases_oldest (works db)"
  shows "leases_oldest (works db') \<and> map work_id (works db') = map work_id (works db)"
proof -
  obtain f es where "works db' = map f (works db)"
    and r: "rows_step M (LClaim k t dur (map work_id (claimed out))) (works db) es f"
    using claim_effect [OF assms(3,1,2)] by (rule rows_effectE)
  moreover have "leases_oldest (works db')"
    using claim_available_Inr(6) [OF assms(1)] claimed_leases_oldest [OF assms(4), of t "nat lmt" skipped k dur mx] by simp
  ultimately show ?thesis using map_kept(1) [OF r] by simp
qed

lemma polls_end:
  assumes "outbox_run M h db" and "leases_oldest (works db)" and "mx \<le> M"
    and "k \<noteq> ''''" and "0 < lmt" and "0 < dur"
    and "spaced dur ts" and "ts \<noteq> [] \<Longrightarrow> due_at (hd ts) db" and "work_left mx db \<le> length ts"
  shows "map work_id (works (crashing_polls k lmt dur mx ts db)) = map work_id (works db)
    \<and> (\<forall>w \<in> set (works (crashing_polls k lmt dur mx ts db)). terminal w)"
  using assms
proof (induction ts arbitrary: db h)
  case Nil
  then show ?case using work_left_0 by simp
next
  case (Cons t ts)
  have ids: "distinct (map work_id (works db))" using outbox_run_ok [OF Cons.prems(1)] by (rule outbox_ok_ids)
  have due: "due_at t db" using Cons.prems(8) by simp
  obtain out db' where cl: "claim_available_outbox_work k lmt dur mx [] t db = Inr (out, db')"
    and less: "(\<forall>w \<in> set (works db). terminal w) \<or> work_left mx db' < work_left mx db"
    and le: "work_left mx db' \<le> work_left mx db" and next_due: "\<And>u. t + dur < u \<Longrightarrow> due_at u db'"
    using poll_progress [OF ids Cons.prems(2) due Cons.prems(4,5,6)] by metis
  note keep = claim_keeps_order [OF cl Cons.prems(3) ids Cons.prems(2)]
  have run: "outbox_run M (h @ [LClaim k t dur (map work_id (claimed out))]) db'"
    using Cons.prems(1) outbox_step.claim [OF cl Cons.prems(3)] by (rule outbox_run.step)
  have left: "work_left mx db' \<le> length ts"
    using less le Cons.prems(9) work_left_0 [of mx db] by auto
  have sp: "spaced dur ts" and "ts \<noteq> [] \<Longrightarrow> due_at (hd ts) db'"
    using Cons.prems(7) next_due by (cases ts; simp)+
  with Cons.IH [OF run _ Cons.prems(3-6) sp _ left] keep Cons.prems(2) cl show ?case by simp
qed

text \<open>
  While messages are committed in the order of their arrival no lease stands over an older unfinished message of its
  conversation, whatever the workers did.
\<close>

theorem in_order_leases_oldest:
  assumes "outbox_run M h db" and "sorted_wrt older (works db)"
  shows "leases_oldest (works db)"
  by (rule run_leases_oldest [OF assms])

theorem in_order_leases_oldest_witness: "leases_oldest (works demo_db5)"
proof -
  have "MAX_OUTBOX_ATTEMPTS = 5" by code_simp
  then have run: "outbox_run 5 demo_labels demo_db5" using demo_run5 by simp
  have "sorted_wrt older (works demo_db5)" by code_simp
  then show ?thesis by (rule in_order_leases_oldest [OF run])
qed

text \<open>
  C21 Work comes to an end, on two conditions. Suppose no row is leased while an older message of its conversation is unfinished,
  as is always so when messages are committed in the order of their arrival, and suppose each poll comes after the leases of
  the one before have run out. Then polling is enough: let every worker crash on every row it claims, so that each row is only
  ever recovered by a later claim; after at most one more poll than the allowed attempts for every row, every row has reached
  its end, whatever happened to it until then and however few rows a poll may take.
\<close>

theorem outbox_drains:
  assumes "outbox_run M h db" and "leases_oldest (works db)"
    and "mx \<le> M" and "k \<noteq> ''''" and "0 < lmt" and "0 < dur"
    and "spaced dur ts" and "ts \<noteq> []" and "due_at (hd ts) db"
    and "Suc (nat mx) * length (works db) \<le> length ts"
  shows "map work_id (works (crashing_polls k lmt dur mx ts db)) = map work_id (works db)
    \<and> (\<forall>w \<in> set (works (crashing_polls k lmt dur mx ts db)). terminal w)"
proof (rule polls_end [OF assms(1-7)])
  show "work_left mx db \<le> length ts"
    using work_left_le [OF outbox_run_ok [OF assms(1)], of mx] assms(10) by linarith
qed (use assms(9) in simp)

theorem outbox_drains_witness:
  "list_all terminal (works (crashing_polls ''k'' 1 600 5 (map (\<lambda>i. 1000 * of_nat i) [1..<20]) demo_db5))"
proof -
  have "MAX_OUTBOX_ATTEMPTS = 5" by code_simp
  then have run: "outbox_run 5 demo_labels demo_db5" using demo_run5 by simp
  have "sorted_wrt older (works demo_db5)" by code_simp
  then have "leases_oldest (works demo_db5)" by (rule run_leases_oldest [OF run])
  moreover have "due_at 1000 demo_db5" and "length (works demo_db5) = 3" by code_simp+
  moreover have "spaced 600 (map (\<lambda>i. 1000 * of_nat i) [1..<20])" by (simp add: upt_rec)
  ultimately show ?thesis
    using outbox_drains [OF run, of 5 "''k''" 1 600 "map (\<lambda>i. 1000 * of_nat i) [1..<20]"] by (simp add: upt_rec list_all_iff)
qed

subsection \<open>A message committed late\<close>

text \<open>
  The gap in the ordering. \<open>enqueued_at\<close> is the time a receiver's transaction began, so a message
  can be committed after a younger one of its conversation was claimed. It is then the one the claim
  query offers, the younger row's lease, even one that ran out, still stands in the unique index, and
  the row with that lease is not offered, because it is no longer the oldest. So a claim that selects
  the late message is refused as a whole, with every other conversation's rows in it, at any time.
\<close>

theorem late_message_refuses_claims:
  assumes "w \<in> set (works db)" and "leased w"
    and v: "v \<in> set (pending_outbox now (nat lmt) skipped db)" and "attempt_count v < mx"
    and "conversation_key v = conversation_key w" and "older v w"
    and "k \<noteq> ''''" and "0 < lmt" and "0 < dur"
  shows "claim_available_outbox_work k lmt dur mx skipped now db = Inl integrity_error"
proof -
  define f where "f = (\<lambda>u. if u \<in> set (pending_outbox now (nat lmt) skipped db) then claim_row k now dur mx u else u)"
  have v': "v \<in> set (works db)" "\<not> terminal v" using pending_outbox_subset [OF v] by (auto simp: claimable_def)
  then have "w \<notin> set (pending_outbox now (nat lmt) skipped db)"
    using pending_outbox_subset [of w now "nat lmt" skipped db] assms(5,6)
    by (auto simp: claimable_def no_older_sibling_def list_ex_iff)
  then have fw: "f w = w" by (simp add: f_def)
  have fv: "leased (f v)" "conversation_key (f v) = conversation_key w" "work_id (f v) = work_id v"
    using v v'(2) assms(4,5) by (auto simp: f_def claim_row_def leased_def terminal_def)
  have ne: "f v \<noteq> w"
  proof
    assume eq: "f v = w"
    have "enqueued_at (f v) = enqueued_at v" by (simp add: f_def claim_row_def terminalize_def)
    then show False using eq fv(3) assms(6) by (simp add: older_def)
  qed
  have "\<not> one_lease_per_conversation (map f (works db))"
  proof
    assume "one_lease_per_conversation (map f (works db))"
    then have "inj_on conversation_key {u \<in> set (map f (works db)). leased u}"
      by (simp only: one_lease_per_conversation_def distinct_map set_filter)
    moreover have "f v \<in> {u \<in> set (map f (works db)). leased u}" using v'(1) fv(1) by simp
    moreover have "w \<in> {u \<in> set (map f (works db)). leased u}" using assms(1,2) fw by force
    ultimately show False using fv(2) ne by (auto dest: inj_onD)
  qed
  then show ?thesis
    using assms(7-9) by (simp add: claim_available_outbox_work_def Let_def f_def [symmetric])
qed

text \<open>Two receivers of one conversation; the one that began first commits after the other's row is claimed.\<close>

definition late_db :: outbox_db where
  "late_db = after_op (demo_accept 3 ''b'' (after_op (accept_inbound_message 101 1 1 ''m'' PNone ''a'' LEGACY_CHANNEL
     (after_op (demo_claim ''k'' 10 (after_op (demo_accept 2 ''a'' empty_db)))))))"

theorem late_message_refuses_claims_witness:
  "claim_available_outbox_work ''k2'' 10 600 5 [] 100000 late_db = Inl integrity_error
    \<and> (\<exists>w \<in> set (works late_db). conversation_key w = ''b'' \<and> claimable (works late_db) 100000 w)"
proof -
  have facts: "works late_db ! 0 \<in> set (works late_db) \<and> leased (works late_db ! 0)
      \<and> works late_db ! 1 \<in> set (pending_outbox 100000 (nat 10) [] late_db)
      \<and> attempt_count (works late_db ! 1) < 5
      \<and> conversation_key (works late_db ! 1) = conversation_key (works late_db ! 0)
      \<and> older (works late_db ! 1) (works late_db ! 0)"
    by code_simp
  have "claim_available_outbox_work ''k2'' 10 600 5 [] 100000 late_db = Inl integrity_error"
    by (rule late_message_refuses_claims [of "works late_db ! 0" late_db "works late_db ! 1"]) (use facts in simp_all)
  moreover have "works late_db ! 2 \<in> set (works late_db) \<and> conversation_key (works late_db ! 2) = ''b''
      \<and> claimable (works late_db) 100000 (works late_db ! 2)" by code_simp
  ultimately show ?thesis by blast
qed

end
