(* ===== verification/Admission.thy ===== *)
theory Admission
  imports Prelude
begin

section \<open>Admission of concurrent turns\<close>

text \<open>
  \<open>services/admission.py\<close>: one limiter bounds how many turns run at once across the process.
  Under asyncio every method up to its first \<open>await\<close> is one step, so the operations are functions
  on the limiter's state; a coroutine that waits in \<open>acquire\<close> is one that has not taken its step.
  What the webhook worker and the other entry points rely on is the locale \<open>slots\<close>.
\<close>

definition DEFAULT_MAX_CONCURRENT_TURNS :: int where "DEFAULT_MAX_CONCURRENT_TURNS = 10"

record limiter =
  max_concurrent_turns :: int
  in_flight :: int

definition TurnAdmissionLimiter :: "int \<Rightarrow> limiter res" where
  "TurnAdmissionLimiter n =
     (if n < 1 then Inl (ValueErr ''max_concurrent_turns must be >= 1'')
      else Inr \<lparr>max_concurrent_turns = n, in_flight = 0\<rparr>)"

definition available :: "limiter \<Rightarrow> int" where
  "available l = max 0 (max_concurrent_turns l - in_flight l)"

definition try_acquire :: "limiter \<Rightarrow> bool \<times> limiter" where
  "try_acquire l =
     (if max_concurrent_turns l \<le> in_flight l then (False, l) else (True, l\<lparr>in_flight := in_flight l + 1\<rparr>))"

definition release :: "limiter \<Rightarrow> limiter res" where
  "release l =
     (if in_flight l \<le> 0 then Inl (RuntimeErr ''release() called with no turn in flight'')
      else Inr (l\<lparr>in_flight := in_flight l - 1\<rparr>))"

definition limiter_ok :: "limiter \<Rightarrow> bool" where
  "limiter_ok l \<longleftrightarrow> 1 \<le> max_concurrent_turns l \<and> 0 \<le> in_flight l \<and> in_flight l \<le> max_concurrent_turns l"

subsection \<open>The contract of a limiter\<close>

locale slots =
  fixes ok :: "'l \<Rightarrow> bool" and used :: "'l \<Rightarrow> int" and bound :: "'l \<Rightarrow> int"
    and take_slot :: "'l \<Rightarrow> bool \<times> 'l" and free_slot :: "'l \<Rightarrow> 'l res"
  assumes used_bounded: "ok l \<Longrightarrow> 0 \<le> used l \<and> used l \<le> bound l"
    and take_slot_full: "ok l \<Longrightarrow> used l = bound l \<Longrightarrow> take_slot l = (False, l)"
    and take_slot_free: "ok l \<Longrightarrow> used l < bound l \<Longrightarrow>
      \<exists>l'. take_slot l = (True, l') \<and> ok l' \<and> used l' = used l + 1 \<and> bound l' = bound l"
    and free_slot_used: "ok l \<Longrightarrow> 0 < used l \<Longrightarrow>
      \<exists>l'. free_slot l = Inr l' \<and> ok l' \<and> used l' = used l - 1 \<and> bound l' = bound l"
begin

text \<open>Taking slots one by one until \<open>limit\<close> are held or none is free.\<close>

fun take_up_to :: "nat \<Rightarrow> 'l \<Rightarrow> nat \<times> 'l" where
  "take_up_to 0 l = (0, l)"
| "take_up_to (Suc n) l =
     (let (got, l') = take_slot l in
      if got then let (k, l'') = take_up_to n l' in (Suc k, l'') else (0, l'))"

fun free_n :: "nat \<Rightarrow> 'l \<Rightarrow> 'l res" where
  "free_n 0 l = Inr l"
| "free_n (Suc n) l = bindR (free_slot l) (free_n n)"

lemma take_up_to_spec:
  "ok l \<Longrightarrow> take_up_to n l = (k, l') \<Longrightarrow>
     int k = min (int n) (bound l - used l) \<and> ok l' \<and> used l' = used l + int k \<and> bound l' = bound l"
proof (induction n arbitrary: l k l')
  case 0
  then show ?case using used_bounded [of l] by auto
next
  case (Suc n)
  show ?case
  proof (cases "used l = bound l")
    case True
    then show ?thesis using take_slot_full [OF Suc.prems(1)] Suc.prems by auto
  next
    case False
    then have "used l < bound l" using used_bounded [OF Suc.prems(1)] by auto
    then obtain m where m: "take_slot l = (True, m)" "ok m" "used m = used l + 1" "bound m = bound l"
      using take_slot_free [OF Suc.prems(1)] by blast
    obtain j where j: "take_up_to n m = (j, l')" and k: "k = Suc j"
      using Suc.prems(2) m(1) by (auto split: prod.splits)
    show ?thesis using Suc.IH [OF m(2) j] m k \<open>used l < bound l\<close> by auto
  qed
qed

lemma free_n_spec:
  "ok l \<Longrightarrow> int n \<le> used l \<Longrightarrow>
     \<exists>l'. free_n n l = Inr l' \<and> ok l' \<and> used l' = used l - int n \<and> bound l' = bound l"
proof (induction n arbitrary: l)
  case (Suc n)
  obtain m where m: "free_slot l = Inr m" "ok m" "used m = used l - 1" "bound m = bound l"
    using free_slot_used [OF Suc.prems(1)] Suc.prems(2) by force
  then show ?case using Suc.IH [OF m(2)] Suc.prems by auto
qed simp

end

interpretation turns: slots limiter_ok in_flight max_concurrent_turns try_acquire release
  by unfold_locales (auto simp: limiter_ok_def try_acquire_def release_def)

lemma new_limiter: "TurnAdmissionLimiter n = Inr l \<Longrightarrow> limiter_ok l \<and> in_flight l = 0 \<and> max_concurrent_turns l = n"
  by (auto simp: TurnAdmissionLimiter_def limiter_ok_def split: if_splits)

subsection \<open>Coroutines competing for slots\<close>

text \<open>
  The process as a whole: coroutines wait in \<open>acquire\<close>, hold a slot for the body of \<open>slot()\<close>, and
  release it on the way out however the body ends.  A wake-up of a waiter that finds no free slot
  changes nothing.
\<close>

record 'c admission =
  limiter_of :: limiter
  waiting :: "'c list"
  holding :: "'c list"

inductive admission_step :: "'c admission \<Rightarrow> 'c admission \<Rightarrow> bool" where
  arrive: "c \<notin> set (waiting s) \<union> set (holding s) \<Longrightarrow> admission_step s (s\<lparr>waiting := waiting s @ [c]\<rparr>)"
| admit: "c \<in> set (waiting s) \<Longrightarrow> try_acquire (limiter_of s) = (True, l) \<Longrightarrow>
     admission_step s (s\<lparr>limiter_of := l, waiting := remove1 c (waiting s), holding := c # holding s\<rparr>)"
| leave: "c \<in> set (holding s) \<Longrightarrow> release (limiter_of s) = Inr l \<Longrightarrow>
     admission_step s (s\<lparr>limiter_of := l, holding := remove1 c (holding s)\<rparr>)"
| give_up: "c \<in> set (waiting s) \<Longrightarrow> admission_step s (s\<lparr>waiting := remove1 c (waiting s)\<rparr>)"

inductive admission_run :: "int \<Rightarrow> 'c admission \<Rightarrow> bool" for n where
  start: "TurnAdmissionLimiter n = Inr l \<Longrightarrow> admission_run n \<lparr>limiter_of = l, waiting = [], holding = []\<rparr>"
| step: "admission_run n s \<Longrightarrow> admission_step s t \<Longrightarrow> admission_run n t"

definition admission_inv :: "int \<Rightarrow> 'c admission \<Rightarrow> bool" where
  "admission_inv n s \<longleftrightarrow> limiter_ok (limiter_of s) \<and> max_concurrent_turns (limiter_of s) = n
     \<and> in_flight (limiter_of s) = int (length (holding s))"

lemma admission_step_inv: "admission_step s t \<Longrightarrow> admission_inv n s \<Longrightarrow> admission_inv n t"
proof (induction rule: admission_step.induct)
  case (leave c s l)
  then have "length (holding s) = Suc (length (remove1 c (holding s)))"
    by (metis One_nat_def Suc_pred length_pos_if_in_set length_remove1)
  then show ?case using leave by (auto simp: admission_inv_def limiter_ok_def release_def)
qed (auto simp: admission_inv_def limiter_ok_def try_acquire_def split: if_splits)

lemma admission_run_inv: "admission_run n s \<Longrightarrow> admission_inv n s"
proof (induction rule: admission_run.induct)
  case (start l)
  then show ?case using new_limiter by (simp add: admission_inv_def)
next
  case (step s t)
  then show ?case by (blast intro: admission_step_inv)
qed

text \<open>
  Admission. However many coroutines arrive, wait, give up and leave, in whatever order, at most
  the configured number of turns runs at once, the limiter's count is the number of turns running,
  no one who holds a slot is ever refused its release, and no slot stays free while someone waits
  who cannot take it.
\<close>

theorem admission_bounded:
  assumes "admission_run n s"
  shows "int (length (holding s)) \<le> n \<and> in_flight (limiter_of s) = int (length (holding s))
    \<and> (holding s \<noteq> [] \<longrightarrow> (\<exists>l. release (limiter_of s) = Inr l))
    \<and> (int (length (holding s)) < n \<longrightarrow> (\<forall>c \<in> set (waiting s). \<exists>t. admission_step s t \<and> c \<in> set (holding t)))"
proof -
  have inv: "admission_inv n s" by (rule admission_run_inv [OF assms])
  have "\<exists>t. admission_step s t \<and> c \<in> set (holding t)"
    if "c \<in> set (waiting s)" and "int (length (holding s)) < n" for c
  proof -
    have "\<exists>l. try_acquire (limiter_of s) = (True, l)"
      using inv that by (auto simp: admission_inv_def try_acquire_def)
    then obtain l where "try_acquire (limiter_of s) = (True, l)" ..
    then show ?thesis using admission_step.admit [OF that(1)] by fastforce
  qed
  then show ?thesis using inv
    by (auto simp: admission_inv_def limiter_ok_def release_def)
qed

theorem admission_bounded_witness:
  "\<exists>s. admission_run 1 s \<and> holding s = [''a''] \<and> in_flight (limiter_of s) = 1"
proof -
  obtain l where l: "TurnAdmissionLimiter 1 = Inr l" by (simp add: TurnAdmissionLimiter_def)
  define s0 :: "string admission" where "s0 = \<lparr>limiter_of = l, waiting = [], holding = []\<rparr>"
  define s1 where "s1 = s0\<lparr>waiting := [''a'']\<rparr>"
  define s2 where "s2 = s1\<lparr>limiter_of := l\<lparr>in_flight := 1\<rparr>, waiting := [], holding := [''a'']\<rparr>"
  have "admission_run 1 s0" unfolding s0_def by (rule admission_run.start [OF l])
  moreover have "admission_step s0 s1"
    using admission_step.arrive [of "''a''" s0] by (simp add: s1_def s0_def)
  moreover have "admission_step s1 s2"
    using admission_step.admit [of "''a''" s1 "l\<lparr>in_flight := 1\<rparr>"] l
    by (auto simp: s2_def s1_def s0_def try_acquire_def TurnAdmissionLimiter_def)
  ultimately have "admission_run 1 s2" by (meson admission_run.step)
  note run = this
  from admission_bounded [OF run] have "in_flight (limiter_of s2) = 1" by (simp add: s2_def)
  then show ?thesis using run by (intro exI [of _ s2]) (simp add: s2_def)
qed

end
