(* ===== verification/Webhook_Worker.thy ===== *)
theory Webhook_Worker
  imports Turn_Run Outbox_Progress Admission
begin

section \<open>The webhook worker\<close>

text \<open>
  \<open>services/webhook_worker.py\<close>, and the label of \<open>services/outbox_metrics.py\<close>: how one claimed row is
  processed, and one round of the poll loop.

  The channel adapters, the runtimes, the participant directory, the recorder and the notifier belong
  to the deployment; each is a function that returns or raises, and an exception is the pair of what
  the retry policy's classifier sees and its text.  Each database transaction of the worker may fail
  before its commit, or be reported as failed although it was committed.  Between two transactions of
  one item other workers and receivers run: \<open>others\<close> is what they did before the transaction of each
  kind.  The row the worker holds is the copy it claimed.  Cancellation is left out: it stops the
  processing between two of its steps, and what was committed until then stands.
\<close>

subsection \<open>Exceptions and transactions\<close>

type_synonym raised = "exc \<times> string"
type_synonym 'a ext = "raised + 'a"

text \<open>An exception of the platform's own code, as the classifier sees it.\<close>

definition own_exn :: "string \<Rightarrow> exc" where
  "own_exn name = ((\<lambda>_. \<lparr>exn_mro = [(name, ''builtins''), (''Exception'', ''builtins'')], status_code = PNone,
     response_status = PNone, cause = None\<rparr>), 0)"

fun raised_of :: "err \<Rightarrow> raised" where
  "raised_of (ValueErr t) = (own_exn ''ValueError'', t)"
| "raised_of (TypeErr t) = (own_exn ''TypeError'', t)"
| "raised_of (Raised name t) = (own_exn name, t)"
| "raised_of _ = (own_exn ''RuntimeError'', '''')"

datatype failure = Failure raised | RetryableCondition string

definition failure_class_name :: "failure \<Rightarrow> string" where
  "failure_class_name x = (case x of Failure (e, _) \<Rightarrow> class_name_of e | RetryableCondition _ \<Rightarrow> ''_RetryableCondition'')"

definition failure_text :: "failure \<Rightarrow> string" where
  "failure_text x = failure_class_name x @ '': '' @ (case x of Failure (_, t) \<Rightarrow> t | RetryableCondition t \<Rightarrow> t)"

datatype fault = NoFault | BeforeCommit raised | AfterCommit raised

datatype 'a tx = LeaseLost | TxFailed raised | TxDone 'a

definition transact :: "fault \<Rightarrow> (outbox_db \<Rightarrow> ('a \<times> outbox_db) res) \<Rightarrow> outbox_db \<Rightarrow> 'a tx \<times> outbox_db" where
  "transact fl op db =
     (case fl of
        BeforeCommit x \<Rightarrow> (TxFailed x, db)
      | _ \<Rightarrow> (case op db of
          Inl OutboxLeaseLostError \<Rightarrow> (LeaseLost, db)
        | Inl e \<Rightarrow> (TxFailed (raised_of e), db)
        | Inr (a, db') \<Rightarrow> ((case fl of AfterCommit x \<Rightarrow> TxFailed x | _ \<Rightarrow> TxDone a), db')))"

subsection \<open>What the worker is given\<close>

record inbound_turn =
  turn_sender :: string
  turn_text :: string

record participant =
  participant_id :: string
  participant_active :: bool

record turn_request =
  request_text :: string
  request_session :: string
  request_thread :: "string option"
  request_subject :: turn_subject
  request_actor :: turn_actor

datatype reply_content = Text string | Blocks "pyval list"

record reply_message =
  from_model :: bool
  with_calls :: bool
  reply_content :: reply_content

record channel_binding =
  extract_turn :: "pyval \<Rightarrow> string \<Rightarrow> inbound_turn option ext"
  send_text :: "string \<Rightarrow> string \<Rightarrow> unit ext"
  runtime_turn :: "turn_request \<Rightarrow> reply_message list ext"
  persist_conversation :: bool
  checkpointer_enabled :: bool
  binding_policy :: retry_policy

record directory =
  normalize_channel_address :: "string \<Rightarrow> string \<Rightarrow> string ext"
  resolve_channel_address :: "string \<Rightarrow> string \<Rightarrow> participant option ext"

record worker =
  worker_name :: string
  channels :: "(string \<times> channel_binding) list"
  participants :: "directory option"
  recorder :: "(string \<Rightarrow> string \<Rightarrow> string \<Rightarrow> string \<Rightarrow> unit ext) option"
  notifier :: "(nat \<Rightarrow> string \<Rightarrow> unit ext) option"

datatype stage = Claiming | Loading | Persisting | Completing | Failing | Noting

record conditions =
  tx_fault :: "stage \<Rightarrow> fault"
  tx_now :: "stage \<Rightarrow> rat"
  tx_clock :: "stage \<Rightarrow> rat"
  others :: "stage \<Rightarrow> outbox_db \<Rightarrow> outbox_db"
  jitter_drawn :: rat

datatype send_kind = Reply | Fallback

datatype worker_act =
    RanTurn string turn_request
  | SentText send_kind string string bool
  | RecordedTurn string string string string
  | CountedFailure string string string
  | Notified nat string

text \<open>An act is kept with the tables at its moment, which only the properties read.\<close>

record worker_world =
  outbox :: outbox_db
  acts :: "(worker_act \<times> outbox_db) list"

definition act :: "worker_act \<Rightarrow> worker_world \<Rightarrow> worker_world" where
  "act a s = s\<lparr>acts := acts s @ [(a, outbox s)]\<rparr>"

definition run_tx ::
  "conditions \<Rightarrow> stage \<Rightarrow> (outbox_db \<Rightarrow> ('a \<times> outbox_db) res) \<Rightarrow> worker_world \<Rightarrow> 'a tx \<times> worker_world" where
  "run_tx c g op s =
     (let (r, db) = transact (tx_fault c g) op (others c g (outbox s)) in (r, s\<lparr>outbox := db\<rparr>))"

definition raises :: "'a ext \<Rightarrow> bool" where
  "raises r = (case r of Inl _ \<Rightarrow> True | Inr _ \<Rightarrow> False)"

subsection \<open>Replies\<close>

definition reply_body :: "string \<Rightarrow> string \<Rightarrow> pyval" where
  "reply_body to body = PDict [(''to'', PStr to), (''body'', PStr body)]"

definition reply_parts :: "pyval \<Rightarrow> (string \<times> string) option" where
  "reply_parts b =
     (case b of
        PDict d \<Rightarrow> (case (map_of d ''to'', map_of d ''body'') of
            (Some (PStr to), Some (PStr body)) \<Rightarrow> Some (to, body)
          | _ \<Rightarrow> None)
      | _ \<Rightarrow> None)"

definition persisted_reply :: "outbox_work \<Rightarrow> (string \<times> string) option" where
  "persisted_reply w =
     (case (outbound_body w, outbound_send_key w) of
        (Some b, Some k) \<Rightarrow> if k = '''' then None else reply_parts b
      | _ \<Rightarrow> None)"

text \<open>\<open>" ".join(block.get("text", "") for block in content if isinstance(block, dict))\<close>\<close>

fun block_texts :: "pyval list \<Rightarrow> string list ext" where
  "block_texts [] = Inr []"
| "block_texts (PDict d # bs) =
     (case (map_of d ''text'', block_texts bs) of
        (None, Inr ts) \<Rightarrow> Inr ('''' # ts)
      | (Some (PStr t), Inr ts) \<Rightarrow> Inr (t # ts)
      | (_, Inl x) \<Rightarrow> Inl x
      | _ \<Rightarrow> Inl (own_exn ''TypeError'', ''expected str instance''))"
| "block_texts (b # bs) = block_texts bs"

definition content_text :: "reply_content \<Rightarrow> string ext" where
  "content_text c =
     (case c of Text t \<Rightarrow> Inr t
      | Blocks bs \<Rightarrow> (case block_texts bs of Inl x \<Rightarrow> Inl x | Inr ts \<Rightarrow> Inr (join '' '' ts)))"

fun extract_text :: "reply_message list \<Rightarrow> string \<Rightarrow> string ext" where
  "extract_text [] final = Inr final"
| "extract_text (m # ms) final =
     (if \<not> from_model m \<or> with_calls m then extract_text ms final
      else case content_text (reply_content m) of
             Inl x \<Rightarrow> Inl x
           | Inr t \<Rightarrow> extract_text ms (if t = '''' then final else t))"

definition extract_assistant_text :: "reply_message list \<Rightarrow> string ext" where
  "extract_assistant_text ms = extract_text ms ''''"

subsection \<open>Failures\<close>

definition label_char :: "char \<Rightarrow> char" where
  "label_char ch = (if ch \<in> set ''ABCDEFGHIJKLMNOPQRSTUVWXYZabcdefghijklmnopqrstuvwxyz0123456789_'' then ch else CHR ''_'')"

definition exception_label :: "failure \<Rightarrow> string" where
  "exception_label x =
     (let l = take 64 (map label_char (failure_class_name x)) in if l = '''' then ''Exception'' else l)"

definition is_retryable :: "failure \<Rightarrow> retry_policy \<Rightarrow> bool" where
  "is_retryable x p =
     (case x of RetryableCondition _ \<Rightarrow> True
      | Failure (e, _) \<Rightarrow> (case is_transient p e of Inl _ \<Rightarrow> True | Inr b \<Rightarrow> b))"

definition count_failure :: "failure \<Rightarrow> string \<Rightarrow> bool \<Rightarrow> worker_world \<Rightarrow> worker_world" where
  "count_failure x ch retryable s =
     act (CountedFailure ch (exception_label x) (if retryable then ''retries_exhausted'' else ''permanent'')) s"

definition notify_terminal_failure :: "worker \<Rightarrow> outbox_work \<Rightarrow> string \<Rightarrow> worker_world \<Rightarrow> worker_world" where
  "notify_terminal_failure wk w er s = (case notifier wk of None \<Rightarrow> s | Some f \<Rightarrow> act (Notified (work_id w) er) s)"

definition send_fallback ::
  "conditions \<Rightarrow> outbox_work \<Rightarrow> channel_binding \<Rightarrow> pyval \<Rightarrow> worker_world \<Rightarrow> worker_world" where
  "send_fallback c w b body s =
     (case reply_parts body of None \<Rightarrow> s
      | Some (to, t) \<Rightarrow>
          let delivered = \<not> raises (send_text b to t);
              s1 = act (SentText Fallback to t delivered) s
          in snd (run_tx c Noting (\<lambda>db. Inr ((), record_fallback_delivery w delivered (tx_now c Noting) db)) s1))"

definition record_failure ::
  "worker \<Rightarrow> conditions \<Rightarrow> outbox_work \<Rightarrow> failure \<Rightarrow> string \<Rightarrow> channel_binding option
   \<Rightarrow> (string \<times> string) option \<Rightarrow> worker_world \<Rightarrow> worker_world" where
  "record_failure wk c w x ch b fallback_to s =
     (let policy = (case b of Some bd \<Rightarrow> binding_policy bd | None \<Rightarrow> default_policy);
          retryable = is_retryable x policy;
          fb = map_option (\<lambda>(a, k). (reply_body a (fallback_reply policy), k)) fallback_to;
          (r, s1) = run_tx c Failing (record_outbox_failure (work_id w) (worker_name wk) (failure_text x)
            (jitter_drawn c) (max_attempts policy) retryable (Some (failure_class_name x)) fb
            (tx_now c Failing) (tx_clock c Failing)) s
      in case r of
           TxDone out \<Rightarrow>
             let s2 = (if is_terminal out then count_failure x ch retryable s1 else s1);
                 s3 = (if is_terminal out \<and> alert_required out then notify_terminal_failure wk w (failure_text x) s2 else s2)
             in (case (fallback_body out, b) of
                   (Some body, Some bd) \<Rightarrow> send_fallback c w bd body s3
                 | _ \<Rightarrow> s3)
         | _ \<Rightarrow> s1)"

definition complete_or_retry ::
  "worker \<Rightarrow> conditions \<Rightarrow> outbox_work \<Rightarrow> string \<Rightarrow> worker_world \<Rightarrow> worker_world" where
  "complete_or_retry wk c w reason s =
     (let (r, s1) = run_tx c Completing
            (complete_outbox_work (work_id w) (worker_name wk) (tx_now c Completing) (tx_clock c Completing)) s
      in case r of
           TxFailed (e, t) \<Rightarrow> record_failure wk c w (RetryableCondition (reason @ '': '' @ t)) ''unknown'' None None s1
         | _ \<Rightarrow> s1)"

subsection \<open>One claimed row\<close>

definition record_turn :: "worker \<Rightarrow> string \<Rightarrow> string \<Rightarrow> string \<Rightarrow> string \<Rightarrow> worker_world \<Rightarrow> worker_world" where
  "record_turn wk thread pid user reply s =
     (case recorder wk of None \<Rightarrow> s | Some f \<Rightarrow> act (RecordedTurn thread pid user reply) s)"

definition send_reply ::
  "worker \<Rightarrow> conditions \<Rightarrow> outbox_work \<Rightarrow> string \<Rightarrow> channel_binding \<Rightarrow> string \<times> string \<Rightarrow> worker_world \<Rightarrow> worker_world" where
  "send_reply wk c w ch b r s =
     (case send_text b (fst r) (snd r) of
        Inl x \<Rightarrow> record_failure wk c w (Failure x) ch (Some b) None (act (SentText Reply (fst r) (snd r) False) s)
      | Inr _ \<Rightarrow> complete_or_retry wk c w ''provider send succeeded'' (act (SentText Reply (fst r) (snd r) True) s))"

definition request_of ::
  "inbound_message \<Rightarrow> string \<Rightarrow> channel_binding \<Rightarrow> string \<Rightarrow> participant \<Rightarrow> string \<Rightarrow> turn_request res" where
  "request_of m ch b address p txt =
     bindR (for_participant (participant_id p) (Some ch) (Some address)) (\<lambda>subj.
     bindR (TurnActor ''channel'' ch) (\<lambda>actor.
     Inr \<lparr>request_text = txt, request_session = meta_message_id m,
       request_thread = (if checkpointer_enabled b \<and> persist_conversation b then Some (channel_scoped_key ch address) else None),
       request_subject = subj, request_actor = actor\<rparr>))"

definition run_claimed_turn ::
  "inbound_message \<Rightarrow> string \<Rightarrow> channel_binding \<Rightarrow> string \<Rightarrow> participant \<Rightarrow> string \<Rightarrow> worker_world
   \<Rightarrow> string ext \<times> worker_world" where
  "run_claimed_turn m ch b address p txt s =
     (case request_of m ch b address p txt of
        Inl e \<Rightarrow> (Inl (raised_of e), s)
      | Inr q \<Rightarrow>
          ((case runtime_turn b q of Inl x \<Rightarrow> Inl x | Inr ms \<Rightarrow> extract_assistant_text ms), act (RanTurn ch q) s))"

definition answer ::
  "worker \<Rightarrow> conditions \<Rightarrow> outbox_work \<Rightarrow> inbound_message \<Rightarrow> string \<Rightarrow> channel_binding \<Rightarrow> string \<Rightarrow> participant
   \<Rightarrow> string \<Rightarrow> worker_world \<Rightarrow> worker_world" where
  "answer wk c w m ch b address p txt s =
     (let fallback_to = Some (address, meta_message_id m @ '':fallback'');
          conversation = channel_scoped_key ch address;
          (r, s1) = run_claimed_turn m ch b address p txt s
      in case r of
           Inl x \<Rightarrow> record_failure wk c w (Failure x) ch (Some b) fallback_to s1
         | Inr reply \<Rightarrow>
             let s2 = (if persist_conversation b
                       then record_turn wk conversation (participant_id p) txt reply s1 else s1)
             in if reply = '''' then complete_or_retry wk c w ''agent produced no reply'' s2
                else let (t, s3) = run_tx c Persisting (persist_outbound_intent (work_id w) (worker_name wk)
                           (reply_body address reply) (meta_message_id m @ '':reply'') (tx_clock c Persisting)) s2
                     in (case t of
                           LeaseLost \<Rightarrow> s3
                         | TxFailed x \<Rightarrow> record_failure wk c w (Failure x) ch (Some b) fallback_to s3
                         | TxDone _ \<Rightarrow> send_reply wk c w ch b (address, reply) s3))"

definition is_value_error :: "raised \<Rightarrow> bool" where
  "is_value_error x = is_instance (fst (fst x) (snd (fst x))) [(''ValueError'', ''builtins'')]"

definition serve_sender ::
  "worker \<Rightarrow> conditions \<Rightarrow> outbox_work \<Rightarrow> inbound_message \<Rightarrow> string \<Rightarrow> channel_binding \<Rightarrow> directory \<Rightarrow> inbound_turn
   \<Rightarrow> worker_world \<Rightarrow> worker_world" where
  "serve_sender wk c w m ch b dir turn s =
     (case normalize_channel_address dir (turn_sender turn) ch of
        Inl x \<Rightarrow> if is_value_error x then complete_or_retry wk c w ''inbound address is not serviceable'' s
                 else record_failure wk c w (Failure x) ch (Some b) None s
      | Inr address \<Rightarrow>
          (case resolve_channel_address dir address ch of
             Inl x \<Rightarrow> record_failure wk c w (Failure x) ch (Some b) None s
           | Inr None \<Rightarrow> complete_or_retry wk c w ''participant is not active'' s
           | Inr (Some p) \<Rightarrow>
               if \<not> participant_active p then complete_or_retry wk c w ''participant is not active'' s
               else (case persisted_reply w of
                       Some r \<Rightarrow> send_reply wk c w ch b r s
                     | None \<Rightarrow> answer wk c w m ch b address p (turn_text turn) s)))"

definition load_inbound :: "outbox_work \<Rightarrow> outbox_db \<Rightarrow> (inbound_message option \<times> outbox_db) res" where
  "load_inbound w db = Inr (List.find (\<lambda>m. inbound_id m = inbound_message_id w) (inbox db), db)"

definition channel_of :: "inbound_message \<Rightarrow> string" where
  "channel_of m = (if channel m = [] then LEGACY_CHANNEL else channel m)"

definition process_claimed_work :: "worker \<Rightarrow> conditions \<Rightarrow> outbox_work \<Rightarrow> worker_world \<Rightarrow> worker_world" where
  "process_claimed_work wk c w s =
     (let (r, s1) = run_tx c Loading (load_inbound w) s in
      case r of
        TxFailed x \<Rightarrow> record_failure wk c w (Failure x) ''unknown'' None None s1
      | LeaseLost \<Rightarrow> s1
      | TxDone None \<Rightarrow> complete_or_retry wk c w ''inbound message has no serviceable text'' s1
      | TxDone (Some m) \<Rightarrow>
          let ch = channel_of m in
          (case map_of (channels wk) ch of
             None \<Rightarrow> record_failure wk c w (RetryableCondition ''no binding for channel'') ch None None s1
           | Some b \<Rightarrow>
               (case extract_turn b (payload m) (channel_native_key ch (meta_message_id m)) of
                  Inl x \<Rightarrow> record_failure wk c w (Failure x) ch (Some b) None s1
                | Inr None \<Rightarrow> complete_or_retry wk c w ''inbound message has no serviceable text'' s1
                | Inr (Some turn) \<Rightarrow>
                    (case participants wk of
                       None \<Rightarrow> record_failure wk c w (RetryableCondition ''participant directory is unavailable'') ch (Some b) None s1
                     | Some dir \<Rightarrow> serve_sender wk c w m ch b dir turn s1))))"

subsection \<open>The worker\<close>

text \<open>
  A directory that is never told the channel serves the built-in channel alone; the adapter of that
  channel is built around the given client.
\<close>

datatype given_directory =
    NoDirectory
  | ByChannel directory
  | ChannelBlind "string \<Rightarrow> string ext" "string \<Rightarrow> participant option ext"

definition WHATSAPP_CHANNEL :: string where "WHATSAPP_CHANNEL = ''whatsapp''"

definition channel_directory :: "given_directory \<Rightarrow> (string \<times> channel_binding) list \<Rightarrow> directory option res" where
  "channel_directory d bs =
     (case d of
        NoDirectory \<Rightarrow> Inr None
      | ByChannel dir \<Rightarrow> Inr (Some dir)
      | ChannelBlind nrm rsv \<Rightarrow>
          if list_ex (\<lambda>n. n \<noteq> WHATSAPP_CHANNEL) (dkeys bs)
          then Inl (ValueErr ''channels need a ChannelParticipantDirectory'')
          else Inr (Some \<lparr>normalize_channel_address = (\<lambda>raw ch. nrm raw), resolve_channel_address = (\<lambda>a ch. rsv a)\<rparr>))"

record builtin_channel =
  whatsapp_runtime :: "((turn_request \<Rightarrow> reply_message list ext) \<times> bool) option"
  whatsapp_client :: "(string \<Rightarrow> string \<Rightarrow> unit ext) option"
  whatsapp_extract :: "pyval \<Rightarrow> string \<Rightarrow> inbound_turn option ext"
  whatsapp_checkpointer :: bool
  whatsapp_policy :: "retry_policy option"

definition builtin_binding :: "builtin_channel \<Rightarrow> channel_binding option" where
  "builtin_binding bc =
     (case (whatsapp_runtime bc, whatsapp_client bc) of
        (Some (run, persist), Some send) \<Rightarrow> Some \<lparr>extract_turn = whatsapp_extract bc, send_text = send,
          runtime_turn = run, persist_conversation = persist, checkpointer_enabled = whatsapp_checkpointer bc,
          binding_policy = (case whatsapp_policy bc of Some p \<Rightarrow> p | None \<Rightarrow> default_policy)\<rparr>
      | _ \<Rightarrow> None)"

definition bind_builtin ::
  "builtin_channel \<Rightarrow> (string \<times> channel_binding) list \<Rightarrow> (string \<times> channel_binding) list res" where
  "bind_builtin bc given =
     (if (whatsapp_runtime bc \<noteq> None) \<noteq> (whatsapp_client bc \<noteq> None)
      then Inl (ValueErr ''runtime and whatsapp_client bind the WhatsApp channel together'')
      else case whatsapp_runtime bc of
          None \<Rightarrow> Inr given
        | Some _ \<Rightarrow>
            if WHATSAPP_CHANNEL \<in> set (dkeys given) then Inl (ValueErr ''channel is bound twice'')
            else Inr (case builtin_binding bc of None \<Rightarrow> given | Some b \<Rightarrow> given @ [(WHATSAPP_CHANNEL, b)]))"

definition DeferredWebhookWorker ::
  "string \<Rightarrow> given_directory \<Rightarrow> builtin_channel \<Rightarrow> (string \<times> channel_binding) list
   \<Rightarrow> (string \<Rightarrow> string \<Rightarrow> string \<Rightarrow> string \<Rightarrow> unit ext) option \<Rightarrow> (nat \<Rightarrow> string \<Rightarrow> unit ext) option \<Rightarrow> worker res" where
  "DeferredWebhookWorker name dir bc given rec notif =
     bindR (guardR (name \<noteq> []) (ValueErr ''worker_id must not be empty'')) (\<lambda>_.
     bindR (bind_builtin bc given) (\<lambda>bs.
     bindR (guardR (bs \<noteq> []) (ValueErr ''a webhook worker needs at least one channel binding'')) (\<lambda>_.
     bindR (channel_directory dir bs) (\<lambda>d.
     Inr \<lparr>worker_name = name, channels = bs, participants = d, recorder = rec, notifier = notif\<rparr>))))"

fun claim_max_attempts_of :: "(string \<times> channel_binding) list \<Rightarrow> int" where
  "claim_max_attempts_of [] = 0"
| "claim_max_attempts_of [(n, b)] = max_attempts (binding_policy b)"
| "claim_max_attempts_of ((n, b) # bs) = max (max_attempts (binding_policy b)) (claim_max_attempts_of bs)"

subsection \<open>One round of the poll loop\<close>

fun reserve_slots :: "nat \<Rightarrow> limiter \<Rightarrow> nat \<times> limiter" where
  "reserve_slots 0 l = (0, l)"
| "reserve_slots (Suc n) l =
     (let (got, l') = try_acquire l in
      if got then let (k, l'') = reserve_slots n l' in (Suc k, l'') else (0, l'))"

fun release_slots :: "nat \<Rightarrow> limiter \<Rightarrow> limiter res" where
  "release_slots 0 l = Inr l"
| "release_slots (Suc n) l = bindR (release l) (release_slots n)"

text \<open>
  The claimed rows are processed concurrently; each takes its steps in this order, with whatever the
  others do in between, and gives its slot back.
\<close>

fun process_all ::
  "worker \<Rightarrow> (outbox_work \<Rightarrow> conditions) \<Rightarrow> outbox_work list \<Rightarrow> limiter \<times> worker_world \<Rightarrow> (limiter \<times> worker_world) res" where
  "process_all wk cs [] ls = Inr ls"
| "process_all wk cs (w # ws) (l, s) =
     (let s1 = process_claimed_work wk (cs w) w s in
      bindR (release l) (\<lambda>l1. process_all wk cs ws (l1, s1)))"

definition notify_all :: "worker \<Rightarrow> outbox_work list \<Rightarrow> worker_world \<Rightarrow> worker_world" where
  "notify_all wk ws s = foldl (\<lambda>s w. notify_terminal_failure wk w (expired_error w) s) s ws"

definition process_available ::
  "worker \<Rightarrow> nat \<Rightarrow> nat list \<Rightarrow> conditions \<Rightarrow> (outbox_work \<Rightarrow> conditions) \<Rightarrow> limiter \<times> worker_world
   \<Rightarrow> (limiter \<times> worker_world) res" where
  "process_available wk lmt skipped c cs ls =
     (let (k, l1) = reserve_slots lmt (fst ls) in
      if k = 0 then Inr (l1, snd ls)
      else let (r, s1) = run_tx c Claiming
                 (claim_available_outbox_work (worker_name wk) (int k) DEFAULT_LEASE_DURATION
                    (claim_max_attempts_of (channels wk)) skipped (tx_now c Claiming)) (snd ls)
           in (case r of
                 TxDone out \<Rightarrow>
                   bindR (release_slots (k - length (claimed out)) l1) (\<lambda>l2.
                   process_all wk cs (claimed out) (l2, notify_all wk (terminalized out) s1))
               | _ \<Rightarrow> bindR (release_slots k l1) (\<lambda>l2. Inr (l2, s1))))"

text \<open>The task of the loop: spawned once, cancelled by \<open>stop\<close>, and possibly dead on its own.\<close>

datatype loop_task = Polling | Dead

record poll_loop =
  started :: bool
  task :: "loop_task option"

definition start_loop :: "poll_loop \<Rightarrow> poll_loop" where
  "start_loop p = (if started p then p else p\<lparr>started := True, task := Some Polling\<rparr>)"

definition stop_loop :: "poll_loop \<Rightarrow> poll_loop" where
  "stop_loop p = (if \<not> started p then p else p\<lparr>started := False, task := None\<rparr>)"

definition is_running :: "poll_loop \<Rightarrow> bool" where
  "is_running p \<longleftrightarrow> started p \<and> task p = Some Polling"

subsection \<open>The worker takes outbox steps only\<close>

definition interleaves :: "int \<Rightarrow> conditions \<Rightarrow> bool" where
  "interleaves M c \<longleftrightarrow> (\<forall>g db. outbox_steps M db (others c g db))"

text \<open>
  What the processing of row \<open>i\<close> does: it takes outbox steps, and a text it sends to anybody is one
  that the row holds, committed, from before the send on.
\<close>

definition reply_stored :: "outbox_db \<Rightarrow> nat \<Rightarrow> string \<Rightarrow> string \<Rightarrow> bool" where
  "reply_stored db i to txt \<longleftrightarrow>
     (\<exists>w \<in> set (works db). work_id w = i \<and> (\<exists>b. outbound_body w = Some b \<and> reply_parts b = Some (to, txt)))"

definition texts_sent :: "(worker_act \<times> outbox_db) list \<Rightarrow> (send_kind \<times> string \<times> string) list" where
  "texts_sent as = concat (map (\<lambda>(a, db). case a of SentText k to txt d \<Rightarrow> [(k, to, txt)] | _ \<Rightarrow> []) as)"

definition turns_run :: "(worker_act \<times> outbox_db) list \<Rightarrow> (string \<times> turn_request) list" where
  "turns_run as = concat (map (\<lambda>(a, db). case a of RanTurn ch q \<Rightarrow> [(ch, q)] | _ \<Rightarrow> []) as)"

lemma texts_sent_append [simp]: "texts_sent (as @ bs) = texts_sent as @ texts_sent bs"
  by (simp add: texts_sent_def)

lemma turns_run_append [simp]: "turns_run (as @ bs) = turns_run as @ turns_run bs"
  by (simp add: turns_run_def)

lemma texts_sent_simps [simp]:
  "texts_sent [] = []" "texts_sent [(SentText k to txt d, db)] = [(k, to, txt)]" "texts_sent [(RanTurn ch q, db)] = []"
  "texts_sent [(RecordedTurn th p u r, db)] = []" "texts_sent [(CountedFailure ch x y, db)] = []"
  "texts_sent [(Notified i er, db)] = []"
  by (simp_all add: texts_sent_def)

lemma turns_run_simps [simp]:
  "turns_run [] = []" "turns_run [(SentText k to txt d, db)] = []" "turns_run [(RanTurn ch q, db)] = [(ch, q)]"
  "turns_run [(RecordedTurn th p u r, db)] = []" "turns_run [(CountedFailure ch x y, db)] = []"
  "turns_run [(Notified i er, db)] = []"
  by (simp_all add: turns_run_def)

definition sends_backed :: "nat \<Rightarrow> (worker_act \<times> outbox_db) list \<Rightarrow> bool" where
  "sends_backed i as \<longleftrightarrow>
     (\<forall>(a, db) \<in> set as. case a of SentText k to txt d \<Rightarrow> reply_stored db i to txt | _ \<Rightarrow> True)"

definition proceeds ::
  "int \<Rightarrow> nat \<Rightarrow> worker_world \<Rightarrow> worker_world \<Rightarrow> (send_kind \<times> string \<times> string) list \<Rightarrow> (string \<times> turn_request) list \<Rightarrow> bool" where
  "proceeds M i s s' sent turns \<longleftrightarrow>
     outbox_steps M (outbox s) (outbox s')
     \<and> (\<exists>new. acts s' = acts s @ new \<and> texts_sent new = sent \<and> turns_run new = turns \<and> sends_backed i new)"

lemma proceeds_refl [simp]: "proceeds M i s s [] []"
  by (simp add: proceeds_def sends_backed_def)

lemma proceeds_steps: "proceeds M i s s' sent turns \<Longrightarrow> outbox_steps M (outbox s) (outbox s')"
  by (simp add: proceeds_def)

lemma proceeds_trans:
  assumes "proceeds M i s s1 a b" and "proceeds M i s1 s2 a' b'"
  shows "proceeds M i s s2 (a @ a') (b @ b')"
proof -
  obtain n where n: "acts s1 = acts s @ n" "texts_sent n = a" "turns_run n = b" "sends_backed i n"
    using assms(1) by (auto simp: proceeds_def)
  obtain n' where n': "acts s2 = acts s1 @ n'" "texts_sent n' = a'" "turns_run n' = b'" "sends_backed i n'"
    using assms(2) by (auto simp: proceeds_def)
  have "acts s2 = acts s @ (n @ n')" "texts_sent (n @ n') = a @ a'" "turns_run (n @ n') = b @ b'"
    "sends_backed i (n @ n')"
    using n n' by (auto simp: sends_backed_def)
  then show ?thesis
    using assms outbox_steps_trans unfolding proceeds_def by blast
qed

lemma proceeds_act:
  "sends_backed i [(a, outbox s)] \<Longrightarrow> proceeds M i s (act a s) (texts_sent [(a, outbox s)]) (turns_run [(a, outbox s)])"
  by (simp add: proceeds_def act_def)

lemma outbox_act [simp]: "outbox (act a s) = outbox s"
  by (simp add: act_def)

lemma transact_steps:
  assumes "transact fl op db = (r, db')" and "\<And>a db'. op db = Inr (a, db') \<Longrightarrow> outbox_steps M db db'"
  shows "outbox_steps M db db'"
  using assms by (auto simp: transact_def split: fault.splits sum.splits err.splits prod.splits)

lemma run_tx_proceeds:
  assumes "run_tx c g op s = (r, s')" and "interleaves M c"
    and "\<And>db a db'. op db = Inr (a, db') \<Longrightarrow> outbox_steps M db db'"
  shows "proceeds M i s s' [] []"
proof -
  obtain db where t: "transact (tx_fault c g) op (others c g (outbox s)) = (r, db)" and s': "s' = s\<lparr>outbox := db\<rparr>"
    using assms(1) by (auto simp: run_tx_def split: prod.splits)
  have "outbox_steps M (others c g (outbox s)) db" by (rule transact_steps [OF t]) (rule assms(3))
  then have "outbox_steps M (outbox s) db"
    using assms(2) outbox_steps_trans unfolding interleaves_def by blast
  then show ?thesis by (simp add: proceeds_def s' sends_backed_def)
qed

lemma send_fallback_proceeds:
  assumes "interleaves M c" and body: "reply_parts body = Some (to, t)" and st: "reply_stored (outbox s) i to t"
  shows "proceeds M i s (send_fallback c w b body s) [(Fallback, to, t)] []"
proof -
  let ?a = "SentText Fallback to t (\<not> raises (send_text b to t))"
  obtain r s' where t: "run_tx c Noting (\<lambda>db. Inr ((), record_fallback_delivery w (\<not> raises (send_text b to t)) (tx_now c Noting) db)) (act ?a s) = (r, s')"
    (is "?tx = _") by (cases ?tx)
  have "proceeds M i (act ?a s) s' [] []"
    by (rule run_tx_proceeds [OF t assms(1)]) (auto intro: outbox_step_steps outbox_step.notice)
  moreover have "proceeds M i s (act ?a s) [(Fallback, to, t)] []"
    using proceeds_act [of i ?a s M] st by (simp add: sends_backed_def)
  ultimately show ?thesis
    using proceeds_trans [of M i s "act ?a s" "[(Fallback, to, t)]" "[]" s' "[]" "[]"] body t
    by (simp add: send_fallback_def Let_def)
qed

text \<open>A row that failed with a reply to its sender recorded.\<close>

definition failed_with :: "outbox_db \<Rightarrow> nat \<Rightarrow> pyval \<Rightarrow> bool" where
  "failed_with db i body \<longleftrightarrow> (\<exists>u \<in> set (works db). work_id u = i \<and> failed_at u \<noteq> None \<and> outbound_body u = Some body)"

lemma failed_with_stays:
  assumes "failed_with db i body" and "outbox_ok M db" and "outbox_steps M db db'"
  shows "failed_with db' i body"
proof -
  obtain u where u: "u \<in> set (works db)" "work_id u = i" "failed_at u \<noteq> None" "outbound_body u = Some body"
    using assms(1) by (auto simp: failed_with_def)
  obtain v where "v \<in> set (works db')" "keeps_row u v"
    using outbox_steps_keep_row [OF assms(2,3) u(1)] by blast
  then have "u \<in> set (works db')" using u(3) by (auto simp: keeps_row_def terminal_def)
  then show ?thesis using u by (auto simp: failed_with_def)
qed

lemma reply_stored_stays:
  assumes "reply_stored db i to t" and "outbox_ok M db" and "outbox_steps M db db'"
  shows "reply_stored db' i to t"
proof -
  obtain u b where u: "u \<in> set (works db)" "work_id u = i" "outbound_body u = Some b" "reply_parts b = Some (to, t)"
    using assms(1) by (auto simp: reply_stored_def)
  obtain v where "v \<in> set (works db')" "keeps_row u v"
    using outbox_steps_keep_row [OF assms(2,3) u(1)] by blast
  then show ?thesis using u by (auto simp: reply_stored_def keeps_row_def)
qed

lemma reply_parts_body [simp]: "reply_parts (reply_body to t) = Some (to, t)"
  by (simp add: reply_parts_def reply_body_def)

lemma failed_with_reply: "failed_with db i (reply_body to t) \<Longrightarrow> reply_stored db i to t"
  by (force simp: failed_with_def reply_stored_def)

lemma failure_fallback:
  assumes "record_outbox_failure wid k er jitter mx retryable cls fb now clock db = Inr (out, db')"
    and "fallback_body out = Some body"
  shows "failed_with db' wid body \<and> (\<exists>s. fb = Some (body, s))"
proof -
  obtain v where v: "locked_live_work wid k clock db = Inr v"
    using assms(1) by (auto simp: record_outbox_failure_def bindR_eq_Inr)
  note lk = locked_live_work_Inr [OF v]
  have final: "\<not> retryable \<or> mx \<le> attempt_count v" and rec: "map_option fst (recorded_fallback v fb) = Some body"
    and db': "works db' = works (set_work db (fail_for_good now er fb v))"
    using assms v by (auto simp: record_outbox_failure_def Let_def split: if_splits)
  obtain s where s: "recorded_fallback v fb = Some (body, s)" using rec by auto
  let ?u = "fail_for_good now er fb v"
  have u: "work_id ?u = wid" "failed_at ?u \<noteq> None" "outbound_body ?u = Some body"
    using s lk by (auto simp: fail_for_good_def terminalize_def)
  have "?u \<in> set (works db')"
    using lk u(1) unfolding db' set_work_def by (auto simp: image_iff intro!: bexI [of _ v])
  then have "failed_with db' wid body" using u by (auto simp: failed_with_def)
  then show ?thesis using s by (auto simp: recorded_fallback_def split: if_splits)
qed

lemma count_failure_proceeds: "proceeds M i s (count_failure x ch r s) [] []"
  unfolding count_failure_def using proceeds_act [where a = "CountedFailure ch (exception_label x) y" for y]
  by (simp add: sends_backed_def)

lemma notify_proceeds: "proceeds M i s (notify_terminal_failure wk w er s) [] []"
  using proceeds_act [of i "Notified (work_id w) er" s M]
  by (simp add: notify_terminal_failure_def sends_backed_def split: option.split)

definition after_failure ::
  "worker \<Rightarrow> outbox_work \<Rightarrow> failure \<Rightarrow> string \<Rightarrow> bool \<Rightarrow> failure_outcome \<Rightarrow> worker_world \<Rightarrow> worker_world" where
  "after_failure wk w x ch retryable out s =
     (let s2 = (if is_terminal out then count_failure x ch retryable s else s)
      in if is_terminal out \<and> alert_required out then notify_terminal_failure wk w (failure_text x) s2 else s2)"

lemma after_failure_proceeds: "proceeds M i s (after_failure wk w x ch retryable out s) [] []"
  using proceeds_trans [OF count_failure_proceeds [of M i s x ch retryable] notify_proceeds [of M i _ wk w "failure_text x"]]
  by (auto simp: after_failure_def Let_def count_failure_proceeds notify_proceeds)

lemma after_failure_outbox [simp]: "outbox (after_failure wk w x ch retryable out s) = outbox s"
  by (simp add: after_failure_def Let_def count_failure_def notify_terminal_failure_def split: option.split)

text \<open>What recording a failure sends: nothing, or the fallback the row failed with.\<close>

definition fallback_told ::
  "worker_world \<Rightarrow> outbox_work \<Rightarrow> channel_binding option \<Rightarrow> (string \<times> string) option
   \<Rightarrow> (send_kind \<times> string \<times> string) list \<Rightarrow> bool" where
  "fallback_told s' w b fallback_to sent \<longleftrightarrow>
     sent = [] \<or> (\<exists>bd to k. b = Some bd \<and> fallback_to = Some (to, k)
       \<and> sent = [(Fallback, to, fallback_reply (binding_policy bd))]
       \<and> failed_with (outbox s') (work_id w) (reply_body to (fallback_reply (binding_policy bd))))"

lemma run_tx_done:
  assumes "run_tx c g op s = (TxDone a, s')"
  shows "\<exists>db. op db = Inr (a, outbox s')"
  using assms by (auto simp: run_tx_def transact_def split: prod.splits fault.splits sum.splits err.splits)

lemma record_failure_proceeds:
  assumes int: "interleaves M c" and ok: "outbox_ok M (outbox s)"
  shows "\<exists>sent. proceeds M (work_id w) s (record_failure wk c w x ch b fallback_to s) sent []
    \<and> fallback_told (record_failure wk c w x ch b fallback_to s) w b fallback_to sent"
proof -
  define policy where "policy = (case b of Some bd \<Rightarrow> binding_policy bd | None \<Rightarrow> default_policy)"
  define fb where "fb = map_option (\<lambda>(a, k). (reply_body a (fallback_reply policy), k)) fallback_to"
  obtain r s1 where t: "run_tx c Failing (record_outbox_failure (work_id w) (worker_name wk) (failure_text x)
            (jitter_drawn c) (max_attempts policy) (is_retryable x policy) (Some (failure_class_name x)) fb
            (tx_now c Failing) (tx_clock c Failing)) s = (r, s1)" (is "?tx = _")
    by (cases ?tx)
  have p1: "proceeds M (work_id w) s s1 [] []"
    by (rule run_tx_proceeds [OF t int]) (blast intro: outbox_step_steps outbox_step.failure)
  show ?thesis
  proof (cases r)
    case (TxDone out)
    define s3 where "s3 = after_failure wk w x ch (is_retryable x policy) out s1"
    have p3: "proceeds M (work_id w) s s3 [] []"
      using proceeds_trans [OF p1 after_failure_proceeds] by (simp add: s3_def)
    have eq: "record_failure wk c w x ch b fallback_to s =
        (case (fallback_body out, b) of (Some body, Some bd) \<Rightarrow> send_fallback c w bd body s3 | _ \<Rightarrow> s3)"
      using t TxDone
      by (simp add: record_failure_def Let_def policy_def [symmetric] fb_def [symmetric] s3_def after_failure_def
          split: option.splits)
    show ?thesis
    proof (cases "fallback_body out = None \<or> b = None")
      case True
      then have "record_failure wk c w x ch b fallback_to s = s3" by (auto simp: eq split: option.splits)
      then show ?thesis using p3 by (auto simp: fallback_told_def)
    next
      case False
      then obtain body bd where bb: "fallback_body out = Some body" "b = Some bd" by auto
      obtain db where "record_outbox_failure (work_id w) (worker_name wk) (failure_text x)
            (jitter_drawn c) (max_attempts policy) (is_retryable x policy) (Some (failure_class_name x)) fb
            (tx_now c Failing) (tx_clock c Failing) db = Inr (out, outbox s1)"
        using run_tx_done [OF t [unfolded TxDone]] by blast
      from failure_fallback [OF this bb(1)] obtain k where
        f: "failed_with (outbox s3) (work_id w) body" and k: "fb = Some (body, k)" by (auto simp: s3_def)
      obtain to where to: "fallback_to = Some (to, k)" "body = reply_body to (fallback_reply (binding_policy bd))"
        using k by (auto simp: fb_def policy_def bb(2))
      have eq': "record_failure wk c w x ch b fallback_to s = send_fallback c w bd body s3"
        using eq bb by simp
      have p4: "proceeds M (work_id w) s3 (send_fallback c w bd body s3) [(Fallback, to, fallback_reply (binding_policy bd))] []"
        by (rule send_fallback_proceeds [OF int]) (use f in \<open>simp_all add: to(2) failed_with_reply\<close>)
      have "failed_with (outbox (send_fallback c w bd body s3)) (work_id w) body"
        using failed_with_stays [OF f outbox_steps_ok [OF proceeds_steps [OF p3] ok] proceeds_steps [OF p4]] .
      then show ?thesis
        unfolding eq' using proceeds_trans [OF p3 p4] to bb(2) by (auto simp: fallback_told_def)
    qed
  qed (use t p1 in \<open>auto simp: record_failure_def Let_def policy_def [symmetric] fb_def [symmetric] fallback_told_def\<close>)
qed

lemma failure_quiet:
  assumes "interleaves M c" and "outbox_ok M (outbox s)"
  shows "proceeds M (work_id w) s (record_failure wk c w x ch b None s) [] []"
  using record_failure_proceeds [OF assms, of w wk x ch b None] by (auto simp: fallback_told_def)

lemma complete_or_retry_proceeds:
  assumes int: "interleaves M c" and ok: "outbox_ok M (outbox s)"
  shows "proceeds M (work_id w) s (complete_or_retry wk c w reason s) [] []"
proof -
  obtain r s1 where t: "run_tx c Completing
      (complete_outbox_work (work_id w) (worker_name wk) (tx_now c Completing) (tx_clock c Completing)) s = (r, s1)"
    (is "?tx = _") by (cases ?tx)
  have p1: "proceeds M (work_id w) s s1 [] []"
    by (rule run_tx_proceeds [OF t int]) (blast intro: outbox_step_steps outbox_step.complete)
  note p2 = failure_quiet [OF int outbox_steps_ok [OF proceeds_steps [OF p1] ok]]
  show ?thesis
    using t p1 proceeds_trans [OF p1 p2] by (simp add: complete_or_retry_def split: tx.split prod.split)
qed

lemma send_reply_proceeds:
  assumes int: "interleaves M c" and ok: "outbox_ok M (outbox s)" and st: "reply_stored (outbox s) (work_id w) (fst r) (snd r)"
  shows "proceeds M (work_id w) s (send_reply wk c w ch b r s) [(Reply, r)] []"
proof -
  have a: "proceeds M (work_id w) s (act (SentText Reply (fst r) (snd r) d) s) [(Reply, r)] []" for d
    using proceeds_act [of "work_id w" "SentText Reply (fst r) (snd r) d" s M] st by (simp add: sends_backed_def)
  have ok': "outbox_ok M (outbox (act (SentText Reply (fst r) (snd r) d) s))" for d using ok by simp
  show ?thesis
    using proceeds_trans [OF a failure_quiet [OF int ok']] proceeds_trans [OF a complete_or_retry_proceeds [OF int ok']]
    by (simp add: send_reply_def split: sum.split)
qed

text \<open>What one item may do: the texts sent and the turns run.\<close>

definition item_spec ::
  "int \<Rightarrow> outbox_work \<Rightarrow> worker_world \<Rightarrow> worker_world \<Rightarrow> (string \<times> turn_request) list \<Rightarrow> bool" where
  "item_spec M w s s' turns \<longleftrightarrow>
     (\<exists>sent. proceeds M (work_id w) s s' sent turns
        \<and> (sent = [] \<or> (\<exists>r. sent = [(Reply, r)])
           \<or> (\<exists>to t. sent = [(Fallback, to, t)] \<and> failed_with (outbox s') (work_id w) (reply_body to t))))"

lemma quiet_item: "proceeds M (work_id w) s s' [] turns \<Longrightarrow> item_spec M w s s' turns"
  by (auto simp: item_spec_def)

lemma reply_item: "proceeds M (work_id w) s s' [(Reply, r)] turns \<Longrightarrow> item_spec M w s s' turns"
  by (auto simp: item_spec_def)

lemma item_after:
  assumes p: "proceeds M (work_id w) s s1 [] turns" and q: "item_spec M w s1 s' []"
  shows "item_spec M w s s' turns"
proof -
  obtain sent where "proceeds M (work_id w) s1 s' sent []"
    "sent = [] \<or> (\<exists>r. sent = [(Reply, r)]) \<or> (\<exists>to t. sent = [(Fallback, to, t)] \<and> failed_with (outbox s') (work_id w) (reply_body to t))"
    using q unfolding item_spec_def by blast
  then show ?thesis using proceeds_trans [OF p] unfolding item_spec_def by fastforce
qed

lemma failure_item:
  assumes "interleaves M c" and "outbox_ok M (outbox s)"
  shows "item_spec M w s (record_failure wk c w x ch b fallback_to s) []"
  using record_failure_proceeds [OF assms, of w wk x ch b fallback_to]
  unfolding item_spec_def fallback_told_def by blast

lemma persist_stores:
  assumes "persist_outbound_intent wid k body skey clock db = Inr (u, db')"
  shows "\<exists>v \<in> set (works db'). work_id v = wid \<and> outbound_body v = Some body"
proof -
  obtain v where v: "locked_live_work wid k clock db = Inr v"
    and db': "db' = set_work db (v\<lparr>outbound_body := Some body, outbound_send_key := Some skey\<rparr>)"
    using assms by (auto simp: persist_outbound_intent_def bindR_eq_Inr split: if_splits)
  let ?u = "v\<lparr>outbound_body := Some body, outbound_send_key := Some skey\<rparr>"
  have "?u \<in> set (works db') \<and> work_id ?u = wid"
    using locked_live_work_Inr [OF v] by (auto simp: db' set_work_def image_iff intro!: bexI [of _ v])
  then show ?thesis by (intro bexI [of _ ?u]) simp_all
qed

lemma run_claimed_turn_proceeds:
  "\<exists>turns. proceeds M i s (snd (run_claimed_turn m ch b address p txt s)) [] turns
     \<and> outbox (snd (run_claimed_turn m ch b address p txt s)) = outbox s
     \<and> (turns = [] \<or> (\<exists>q. request_of m ch b address p txt = Inr q \<and> turns = [(ch, q)]))"
proof (cases "request_of m ch b address p txt")
  case (Inr q)
  have "proceeds M i s (act (RanTurn ch q) s) [] [(ch, q)]"
    using proceeds_act [of i "RanTurn ch q" s M] by (simp add: sends_backed_def)
  then show ?thesis using Inr by (auto simp: run_claimed_turn_def)
qed (auto simp: run_claimed_turn_def)

lemma record_turn_proceeds: "proceeds M i s (record_turn wk th p u r s) [] []"
  using proceeds_act [of i "RecordedTurn th p u r" s M]
  by (simp add: record_turn_def sends_backed_def split: option.split)

lemma answer_item:
  assumes int: "interleaves M c" and ok: "outbox_ok M (outbox s)"
  shows "\<exists>turns. item_spec M w s (answer wk c w m ch b address p txt s) turns
    \<and> (turns = [] \<or> (\<exists>q. request_of m ch b address p txt = Inr q \<and> turns = [(ch, q)]))"
proof -
  obtain r s1 where r: "run_claimed_turn m ch b address p txt s = (r, s1)"
    by (cases "run_claimed_turn m ch b address p txt s")
  obtain turns where p1: "proceeds M (work_id w) s s1 [] turns" and o1: "outbox s1 = outbox s"
    and turns: "turns = [] \<or> (\<exists>q. request_of m ch b address p txt = Inr q \<and> turns = [(ch, q)])"
    using run_claimed_turn_proceeds [of M "work_id w" s m ch b address p "txt"] unfolding r by auto
  have ok1: "outbox_ok M (outbox s1)" using ok o1 by simp
  have "item_spec M w s1 (answer wk c w m ch b address p txt s) []"
  proof (cases r)
    case (Inl x)
    then show ?thesis using r failure_item [OF int ok1] by (simp add: answer_def)
  next
    case (Inr reply)
    define s2 where "s2 = (if persist_conversation b
        then record_turn wk (channel_scoped_key ch address) (participant_id p) txt reply s1 else s1)"
    have p2: "proceeds M (work_id w) s1 s2 [] []" by (simp add: s2_def record_turn_proceeds)
    have ok2: "outbox_ok M (outbox s2)" by (rule outbox_steps_ok [OF proceeds_steps [OF p2] ok1])
    obtain t s3 where t: "run_tx c Persisting (persist_outbound_intent (work_id w) (worker_name wk)
        (reply_body address reply) (meta_message_id m @ '':reply'') (tx_clock c Persisting)) s2 = (t, s3)"
      (is "?tx = _") by (cases ?tx)
    have p3: "proceeds M (work_id w) s2 s3 [] []"
      by (rule run_tx_proceeds [OF t int]) (blast intro: outbox_step_steps outbox_step.persist)
    have ok3: "outbox_ok M (outbox s3)" by (rule outbox_steps_ok [OF proceeds_steps [OF p3] ok2])
    have p23: "proceeds M (work_id w) s1 s3 [] []" using proceeds_trans [OF p2 p3] by simp
    have eq: "answer wk c w m ch b address p txt s =
        (if reply = '''' then complete_or_retry wk c w ''agent produced no reply'' s2
         else case t of LeaseLost \<Rightarrow> s3
           | TxFailed x \<Rightarrow> record_failure wk c w (Failure x) ch (Some b) (Some (address, meta_message_id m @ '':fallback'')) s3
           | TxDone _ \<Rightarrow> send_reply wk c w ch b (address, reply) s3)"
      using r Inr t by (simp add: answer_def s2_def [symmetric])
    have sent_reply: "item_spec M w s3 (send_reply wk c w ch b (address, reply) s3) []" if "t = TxDone u" for u
    proof (rule reply_item [OF send_reply_proceeds [OF int ok3]])
      show "reply_stored (outbox s3) (work_id w) (fst (address, reply)) (snd (address, reply))"
        using run_tx_done [OF t [unfolded that]] persist_stores by (fastforce simp: reply_stored_def)
    qed
    show ?thesis
      unfolding eq
      using item_after [OF p2 quiet_item [OF complete_or_retry_proceeds [OF int ok2]]] quiet_item [OF p23]
        item_after [OF p23 failure_item [OF int ok3]] item_after [OF p23 sent_reply]
      by (auto split: tx.split)
  qed
  then show ?thesis using item_after [OF p1] turns by blast
qed

definition turn_for :: "worker \<Rightarrow> outbox_work \<Rightarrow> inbound_message list \<Rightarrow> string \<times> turn_request \<Rightarrow> bool" where
  "turn_for wk w ms cq \<longleftrightarrow>
     (\<exists>m b dir turn address p. m \<in> set ms \<and> inbound_id m = inbound_message_id w
        \<and> fst cq = channel_of m
        \<and> map_of (channels wk) (fst cq) = Some b \<and> participants wk = Some dir
        \<and> extract_turn b (payload m) (channel_native_key (fst cq) (meta_message_id m)) = Inr (Some turn)
        \<and> normalize_channel_address dir (turn_sender turn) (fst cq) = Inr address
        \<and> resolve_channel_address dir address (fst cq) = Inr (Some p) \<and> participant_active p
        \<and> snd cq = \<lparr>request_text = turn_text turn, request_session = meta_message_id m,
            request_thread = (if checkpointer_enabled b \<and> persist_conversation b then Some (channel_scoped_key (fst cq) address) else None),
            request_subject = \<lparr>subject_key = ''participant:'' @ participant_id p, subject_channel = Some (fst cq), subject_address = Some address\<rparr>,
            request_actor = \<lparr>actor_kind = ''channel'', actor_id = fst cq\<rparr>\<rparr>)"

lemma request_of_Inr:
  "request_of m ch b address p t = Inr q \<longleftrightarrow>
     q = \<lparr>request_text = t, request_session = meta_message_id m,
       request_thread = (if checkpointer_enabled b \<and> persist_conversation b then Some (channel_scoped_key ch address) else None),
       request_subject = \<lparr>subject_key = ''participant:'' @ participant_id p, subject_channel = Some ch, subject_address = Some address\<rparr>,
       request_actor = \<lparr>actor_kind = ''channel'', actor_id = ch\<rparr>\<rparr>"
  by (auto simp: request_of_def for_participant_def TurnSubject_def TurnActor_def ACTOR_KINDS_def)

lemma turn_forI:
  assumes "m \<in> set ms" and "inbound_id m = inbound_message_id w"
    and "ch = channel_of m"
    and "map_of (channels wk) ch = Some b" and "participants wk = Some dir"
    and "extract_turn b (payload m) (channel_native_key ch (meta_message_id m)) = Inr (Some turn)"
    and "normalize_channel_address dir (turn_sender turn) ch = Inr address"
    and "resolve_channel_address dir address ch = Inr (Some p)" and "participant_active p"
    and "request_of m ch b address p (turn_text turn) = Inr q"
  shows "turn_for wk w ms (ch, q)"
  unfolding turn_for_def fst_conv snd_conv
  by (intro exI [of _ m] exI [of _ b] exI [of _ dir] exI [of _ turn] exI [of _ address] exI [of _ p] conjI)
    (rule assms(1-9) | use assms(10) in \<open>simp add: request_of_Inr\<close>)+

lemma copy_stores:
  assumes "\<exists>v \<in> set (works db). keeps_row w v" and "persisted_reply w = Some r"
  shows "reply_stored db (work_id w) (fst r) (snd r)"
  using assms by (auto simp: persisted_reply_def keeps_row_def reply_stored_def split: option.splits if_splits)

lemma serve_sender_item:
  assumes int: "interleaves M c" and ok: "outbox_ok M (outbox s)" and copy: "\<exists>v \<in> set (works (outbox s)). keeps_row w v"
  shows "\<exists>turns. item_spec M w s (serve_sender wk c w m ch b dir turn s) turns
    \<and> (turns = [] \<or> persisted_reply w = None \<and> (\<exists>q address p. turns = [(ch, q)]
         \<and> normalize_channel_address dir (turn_sender turn) ch = Inr address
         \<and> resolve_channel_address dir address ch = Inr (Some p) \<and> participant_active p
         \<and> request_of m ch b address p (turn_text turn) = Inr q))"
proof -
  note quiet = quiet_item [OF complete_or_retry_proceeds [OF int ok]] and fails = failure_item [OF int ok]
  show ?thesis
  proof (cases "normalize_channel_address dir (turn_sender turn) ch")
    case (Inl x)
    then show ?thesis using quiet fails by (auto simp: serve_sender_def)
  next
    case (Inr address)
    show ?thesis
    proof (cases "\<exists>p. resolve_channel_address dir address ch = Inr (Some p) \<and> participant_active p")
      case True
      then obtain p where p: "resolve_channel_address dir address ch = Inr (Some p)" "participant_active p" by blast
      show ?thesis
      proof (cases "persisted_reply w")
        case None
        then show ?thesis
          using answer_item [OF int ok, of w wk m ch b address p "turn_text turn"] Inr p
          by (auto simp: serve_sender_def)
      next
        case (Some r)
        then show ?thesis
          using reply_item [OF send_reply_proceeds [OF int ok copy_stores [OF copy Some]]] Inr p
          by (auto simp: serve_sender_def)
      qed
    next
      case False
      then show ?thesis using Inr quiet fails
        by (auto simp: serve_sender_def split: sum.split option.split)
    qed
  qed
qed

lemma steps_keep_copy:
  assumes "\<exists>v \<in> set (works db). keeps_row w v" and "outbox_ok M db" and "outbox_steps M db db'"
  shows "\<exists>v \<in> set (works db'). keeps_row w v"
  using assms outbox_steps_keep_row keeps_row_trans by meson

lemma process_item:
  assumes int: "interleaves M c" and ok: "outbox_ok M (outbox s)" and copy: "\<exists>v \<in> set (works (outbox s)). keeps_row w v"
  shows "\<exists>turns. item_spec M w s (process_claimed_work wk c w s) turns
    \<and> (turns = [] \<or> persisted_reply w = None \<and> (\<exists>cq. turns = [cq] \<and> turn_for wk w (inbox (others c Loading (outbox s))) cq))"
proof -
  obtain r s1 where t: "run_tx c Loading (load_inbound w) s = (r, s1)" by (cases "run_tx c Loading (load_inbound w) s")
  have p1: "proceeds M (work_id w) s s1 [] []"
    by (rule run_tx_proceeds [OF t int]) (simp add: load_inbound_def)
  note st1 = proceeds_steps [OF p1]
  have ok1: "outbox_ok M (outbox s1)" by (rule outbox_steps_ok [OF st1 ok])
  have copy1: "\<exists>v \<in> set (works (outbox s1)). keeps_row w v" by (rule steps_keep_copy [OF copy ok st1])
  note quiet = item_after [OF p1 quiet_item [OF complete_or_retry_proceeds [OF int ok1]]]
    and fails = item_after [OF p1 failure_item [OF int ok1]]
  have idle: "item_spec M w s s1 []" by (rule quiet_item [OF p1])
  show ?thesis
  proof (cases "\<exists>m b turn dir. r = TxDone (Some m)
      \<and> map_of (channels wk) (channel_of m) = Some b
      \<and> extract_turn b (payload m) (channel_native_key (channel_of m) (meta_message_id m))
          = Inr (Some turn)
      \<and> participants wk = Some dir")
    case True
    then obtain m b turn dir where m: "r = TxDone (Some m)"
      "map_of (channels wk) (channel_of m) = Some b"
      "extract_turn b (payload m) (channel_native_key (channel_of m) (meta_message_id m))
          = Inr (Some turn)"
      "participants wk = Some dir" by blast
    define ch where "ch = channel_of m"
    have eq: "process_claimed_work wk c w s = serve_sender wk c w m ch b dir turn s1"
      using t m by (simp add: process_claimed_work_def ch_def Let_def)
    have find: "List.find (\<lambda>m. inbound_id m = inbound_message_id w) (inbox (others c Loading (outbox s))) = Some m"
      using t m(1) by (auto simp: run_tx_def transact_def load_inbound_def split: prod.splits fault.splits)
    obtain turns where item: "item_spec M w s1 (serve_sender wk c w m ch b dir turn s1) turns"
      and tt: "turns = [] \<or> persisted_reply w = None \<and> (\<exists>q address p. turns = [(ch, q)]
         \<and> normalize_channel_address dir (turn_sender turn) ch = Inr address
         \<and> resolve_channel_address dir address ch = Inr (Some p) \<and> participant_active p
         \<and> request_of m ch b address p (turn_text turn) = Inr q)"
      using serve_sender_item [OF int ok1 copy1] by blast
    obtain sent where "proceeds M (work_id w) s1 (serve_sender wk c w m ch b dir turn s1) sent turns"
      and sent: "sent = [] \<or> (\<exists>r. sent = [(Reply, r)])
           \<or> (\<exists>to t. sent = [(Fallback, to, t)] \<and> failed_with (outbox (serve_sender wk c w m ch b dir turn s1)) (work_id w) (reply_body to t))"
      using item unfolding item_spec_def by blast
    then have "item_spec M w s (process_claimed_work wk c w s) turns"
      using proceeds_trans [OF p1] unfolding item_spec_def eq by fastforce
    moreover have "m \<in> set (inbox (others c Loading (outbox s)))" and "inbound_id m = inbound_message_id w"
      using find by (auto simp: find_Some_iff)
    note from_inbox = turn_forI [OF this ch_def m(2) [folded ch_def] m(4) m(3) [folded ch_def]]
    ultimately show ?thesis using tt from_inbox by blast
  next
    case False
    have "item_spec M w s (process_claimed_work wk c w s) []"
    proof (cases r)
      case LeaseLost
      then have "process_claimed_work wk c w s = s1" using t by (simp add: process_claimed_work_def)
      then show ?thesis using idle by simp
    next
      case (TxFailed x)
      then show ?thesis using t fails by (simp add: process_claimed_work_def)
    next
      case (TxDone mo)
      then show ?thesis using t quiet fails False
        by (auto simp: process_claimed_work_def Let_def split: option.split sum.split)
    qed
    then show ?thesis by blast
  qed
qed

text \<open>A claimed row as its worker holds it: the copy of a row of a reachable state, some steps ago.\<close>

definition claimed_copy :: "int \<Rightarrow> outbox_work \<Rightarrow> outbox_db \<Rightarrow> bool" where
  "claimed_copy M w db \<longleftrightarrow>
     (\<exists>h db0. outbox_run M h db0 \<and> w \<in> set (works db0) \<and> outbox_steps M db0 db)"

lemma claimed_copy_kept:
  assumes "claimed_copy M w db"
  shows "outbox_ok M db \<and> (\<exists>v \<in> set (works db). keeps_row w v)"
  using assms outbox_run_ok outbox_steps_ok outbox_steps_keep_row unfolding claimed_copy_def by meson

text \<open>
  C4 The worker implements the outbox. Whatever the channels, the runtime, the directory and the
  classifier answer or raise, whichever of its transactions fail, before or after their commit, and
  whatever other workers do in between: the processing of a claimed row changes the tables by steps
  of the outbox only. So everything that holds of all runs of the outbox holds with these workers.
\<close>

theorem worker_refines_outbox:
  assumes "interleaves M c" and "claimed_copy M w (outbox s)"
  shows "outbox_steps M (outbox s) (outbox (process_claimed_work wk c w s))"
  using process_item [OF assms(1)] claimed_copy_kept [OF assms(2)]
  by (auto simp: item_spec_def dest: proceeds_steps)

text \<open>
  C5 Committed before it is sent. One attempt sends at most one text, and any text it sends is, at the
  moment it is sent, the reply committed in its own row. A reply an earlier attempt committed is sent
  as it is and the agent is not run again; otherwise the agent runs at most once. The fallback is sent
  only for a row that has failed for good with it, which no later attempt can claim.
\<close>

theorem committed_before_sent:
  assumes "interleaves M c" and "claimed_copy M w (outbox s)"
  shows "\<exists>new. acts (process_claimed_work wk c w s) = acts s @ new
    \<and> (\<forall>(a, db) \<in> set new. \<forall>k to t d. a = SentText k to t d \<longrightarrow> reply_stored db (work_id w) to t)
    \<and> length (texts_sent new) \<le> 1
    \<and> (\<forall>to t. (Fallback, to, t) \<in> set (texts_sent new) \<longrightarrow>
         failed_with (outbox (process_claimed_work wk c w s)) (work_id w) (reply_body to t))
    \<and> length (turns_run new) \<le> 1 \<and> (persisted_reply w \<noteq> None \<longrightarrow> turns_run new = [])"
proof -
  obtain turns where i: "item_spec M w s (process_claimed_work wk c w s) turns"
    and t: "turns = [] \<or> persisted_reply w = None \<and> (\<exists>cq. turns = [cq])"
    using process_item [OF assms(1)] claimed_copy_kept [OF assms(2)] by blast
  obtain new sent where n: "acts (process_claimed_work wk c w s) = acts s @ new" "texts_sent new = sent" "turns_run new = turns"
      "sends_backed (work_id w) new"
    and s: "sent = [] \<or> (\<exists>r. sent = [(Reply, r)])
      \<or> (\<exists>to t. sent = [(Fallback, to, t)] \<and> failed_with (outbox (process_claimed_work wk c w s)) (work_id w) (reply_body to t))"
    using i unfolding item_spec_def proceeds_def by blast
  have "\<forall>(a, db) \<in> set new. \<forall>k to t d. a = SentText k to t d \<longrightarrow> reply_stored db (work_id w) to t"
    using n(4) by (auto simp: sends_backed_def)
  then show ?thesis using n s t by (intro exI [of _ new]) auto
qed

text \<open>
  For whom the agent runs. A turn runs only for the message of the claimed row, on the channel it
  came in by, with the text that channel's adapter read from it; only for a participant the directory
  found, on that very channel, for the sender's address, and that is active; under a subject of that
  participant alone, the message's id as session, and a thread only where the binding keeps
  conversations. No failure, retry or replay runs one for anybody else.
\<close>

theorem turns_for_active_participants:
  assumes "interleaves M c" and "claimed_copy M w (outbox s)"
  shows "\<exists>new. acts (process_claimed_work wk c w s) = acts s @ new
    \<and> (\<forall>cq \<in> set (turns_run new). turn_for wk w (inbox (others c Loading (outbox s))) cq)"
proof -
  obtain turns where i: "item_spec M w s (process_claimed_work wk c w s) turns"
    and t: "\<forall>cq \<in> set turns. turn_for wk w (inbox (others c Loading (outbox s))) cq"
    using process_item [OF assms(1)] claimed_copy_kept [OF assms(2)] by fastforce
  then show ?thesis unfolding item_spec_def proceeds_def by blast
qed

subsection \<open>A worker at work\<close>

definition demo_binding :: channel_binding where
  "demo_binding = \<lparr>extract_turn = (\<lambda>pl mid. Inr (Some \<lparr>turn_sender = ''+1'', turn_text = ''hola''\<rparr>)),
     send_text = (\<lambda>to t. Inr ()),
     runtime_turn = (\<lambda>q. Inr [\<lparr>from_model = True, with_calls = False, reply_content = Text ''hi''\<rparr>]),
     persist_conversation = True, checkpointer_enabled = True, binding_policy = default_policy\<rparr>"

definition demo_worker :: worker where
  "demo_worker = \<lparr>worker_name = ''k'', channels = [(''whatsapp'', demo_binding)],
     participants = Some \<lparr>normalize_channel_address = (\<lambda>raw ch. Inr (''00'' @ tl raw)),
       resolve_channel_address = (\<lambda>a ch. Inr (Some \<lparr>participant_id = ''7'', participant_active = True\<rparr>))\<rparr>,
     recorder = None, notifier = None\<rparr>"

definition demo_conditions :: conditions where
  "demo_conditions = \<lparr>tx_fault = (\<lambda>_. NoFault), tx_now = (\<lambda>_. 20), tx_clock = (\<lambda>_. 20), others = (\<lambda>_ db. db), jitter_drawn = 0\<rparr>"

definition demo_world :: worker_world where
  "demo_world = \<lparr>outbox = demo_db4, acts = []\<rparr>"

definition demo_row :: outbox_work where
  "demo_row = works demo_db4 ! 0"

lemma demo_interleaves: "interleaves 5 demo_conditions"
  by (simp add: interleaves_def demo_conditions_def)

lemma demo_copy: "claimed_copy 5 demo_row (outbox demo_world)"
proof -
  have "MAX_OUTBOX_ATTEMPTS = 5" and "0 < length (works demo_db4)" by code_simp+
  then show ?thesis
    using demo_run4 unfolding claimed_copy_def
    by (auto simp: demo_world_def demo_row_def intro!: exI [of _ demo_db4] exI)
qed

definition demo_result :: worker_world where
  "demo_result = process_claimed_work demo_worker demo_conditions demo_row demo_world"

lemma demo_sent: "texts_sent (acts demo_result) = [(Reply, ''00'' @ ''1'', ''hi'')]"
  by code_simp

theorem worker_refines_outbox_witness:
  "outbox_steps 5 demo_db4 (outbox demo_result) \<and> completed_at (works (outbox demo_result) ! 0) = Some 20"
proof -
  have "completed_at (works (outbox demo_result) ! 0) = Some 20" by code_simp
  then show ?thesis
    using worker_refines_outbox [OF demo_interleaves demo_copy, of demo_worker]
    by (simp add: demo_result_def demo_world_def)
qed

theorem committed_before_sent_witness:
  "acts demo_result \<noteq> [] \<and> list_all (\<lambda>(a, db). \<forall>k to t d. a = SentText k to t d \<longrightarrow> reply_stored db 1 to t) (acts demo_result)
    \<and> texts_sent (acts demo_result) = [(Reply, ''001'', ''hi'')]"
proof -
  have "work_id demo_row = 1" and "acts demo_world = []" by code_simp+
  moreover have "acts demo_result \<noteq> []" using demo_sent by auto
  ultimately show ?thesis
    using committed_before_sent [OF demo_interleaves demo_copy, of demo_worker] demo_sent
    by (auto simp: demo_result_def list_all_iff)
qed

theorem turns_for_active_participants_witness:
  "turns_run (acts demo_result) \<noteq> []
    \<and> list_all (turn_for demo_worker demo_row (inbox demo_db4)) (turns_run (acts demo_result))"
proof -
  have "length (turns_run (acts demo_result)) = 1" by code_simp
  moreover have "acts demo_world = []" by code_simp
  ultimately show ?thesis
    using turns_for_active_participants [OF demo_interleaves demo_copy, of demo_worker]
    by (auto simp: demo_result_def demo_conditions_def demo_world_def list_all_iff)
qed

end
