(* ===== verification/Worker_Rounds.thy ===== *)
theory Worker_Rounds
  imports Webhook_Worker
begin

section \<open>Rounds of the webhook worker\<close>

text \<open>
  What a worker whose database answers achieves: every row it processes under a live lease is settled,
  and a round of the poll loop claims no more rows than it reserved slots for and gives every slot
  back.
\<close>

subsection \<open>A row processed under its lease is settled\<close>

definition quiet :: "conditions \<Rightarrow> bool" where
  "quiet c \<longleftrightarrow> (\<forall>g. tx_fault c g = NoFault \<and> (\<forall>db. others c g db = db)) \<and> 0 \<le> jitter_drawn c \<and> jitter_drawn c \<le> 1"

definition holds_lease :: "string \<Rightarrow> conditions \<Rightarrow> nat \<Rightarrow> outbox_db \<Rightarrow> bool" where
  "holds_lease k c i db \<longleftrightarrow> distinct (map work_id (works db))
     \<and> (\<exists>v \<in> set (works db). work_id v = i \<and> (\<forall>g. lease_held k (tx_clock c g) v))"

text \<open>Ended, or free again and due within the longest wait for a retry.\<close>

definition settled :: "rat \<Rightarrow> nat \<Rightarrow> outbox_work list \<Rightarrow> bool" where
  "settled now i ws \<longleftrightarrow> (\<forall>v \<in> set ws. work_id v = i \<longrightarrow>
     lease_owner v = None \<and> lease_expires_at v = None
     \<and> (terminal v \<or> available_at v \<le> now + of_int RETRY_MAX_SECONDS))"

lemma locked_when_held:
  assumes "distinct (map work_id (works db))" and "v \<in> set (works db)" and "lease_held k clock v"
  shows "locked_live_work (work_id v) k clock db = Inr v"
proof (cases "List.find (\<lambda>w. work_id w = work_id v \<and> lease_held k clock w) (works db)")
  case None
  then show ?thesis using assms by (auto simp: find_None_iff)
next
  case (Some w)
  then have "w \<in> set (works db)" "work_id w = work_id v" by (auto simp: find_Some_iff)
  then have "w = v" using assms(1,2) by (auto simp: distinct_map dest: inj_onD)
  then show ?thesis using Some by (simp add: locked_live_work_def)
qed

lemma run_tx_quiet:
  assumes "quiet c" and "op (outbox s) = Inr (a, db)"
  shows "run_tx c g op s = (TxDone a, s\<lparr>outbox := db\<rparr>)"
  using assms by (simp add: quiet_def run_tx_def transact_def)

lemma settled_set_work:
  assumes "lease_owner u = None" and "lease_expires_at u = None"
    and "terminal u \<or> available_at u \<le> now + of_int RETRY_MAX_SECONDS" and "work_id u = i"
  shows "settled now i (works (set_work db u))"
  using assms by (auto simp: settled_def set_work_def)

lemma retry_delay_bounded:
  fixes j :: rat
  assumes "0 \<le> j" and "j \<le> 1"
  shows "of_int (retry_window w) * j \<le> of_int RETRY_MAX_SECONDS"
proof -
  have "0 \<le> retry_window w" and "retry_window w \<le> RETRY_MAX_SECONDS"
    by (auto simp: retry_window_def RETRY_BASE_SECONDS_def RETRY_MAX_SECONDS_def)
  then have "(of_int (retry_window w) :: rat) * j \<le> of_int (retry_window w)"
    and "(of_int (retry_window w) :: rat) \<le> of_int RETRY_MAX_SECONDS"
    using assms by (simp_all add: mult_left_le)
  then show ?thesis by simp
qed

lemma send_fallback_works [simp]: "quiet c \<Longrightarrow> works (outbox (send_fallback c w b body s)) = works (outbox s)"
  by (simp add: send_fallback_def run_tx_def transact_def quiet_def record_fallback_delivery_def Let_def split: option.split prod.split)

lemma failure_settles:
  assumes q: "quiet c" and h: "holds_lease (worker_name wk) c (work_id w) (outbox s)"
  shows "settled (tx_now c Failing) (work_id w) (works (outbox (record_failure wk c w x ch b fallback_to s)))"
proof -
  define policy where "policy = (case b of Some bd \<Rightarrow> binding_policy bd | None \<Rightarrow> default_policy)"
  define fb where "fb = map_option (\<lambda>(a, k). (reply_body a (fallback_reply policy), k)) fallback_to"
  define op where "op = record_outbox_failure (work_id w) (worker_name wk) (failure_text x)
            (jitter_drawn c) (max_attempts policy) (is_retryable x policy) (Some (failure_class_name x)) fb
            (tx_now c Failing) (tx_clock c Failing)"
  obtain v where v: "distinct (map work_id (works (outbox s)))" "v \<in> set (works (outbox s))" "work_id v = work_id w"
    "\<And>g. lease_held (worker_name wk) (tx_clock c g) v" using h by (auto simp: holds_lease_def)
  have lk: "locked_live_work (work_id w) (worker_name wk) (tx_clock c Failing) (outbox s) = Inr v"
    using locked_when_held [OF v(1,2) v(4)] v(3) by simp
  have "\<exists>out db. op (outbox s) = Inr (out, db) \<and> settled (tx_now c Failing) (work_id w) (works db)"
  proof (cases "\<not> is_retryable x policy \<or> max_attempts policy \<le> attempt_count v")
    case True
    have "settled (tx_now c Failing) (work_id w) (works (set_work (outbox s) (fail_for_good (tx_now c Failing) (failure_text x) fb v)))"
      by (rule settled_set_work) (use v(3) in \<open>auto simp: row_defs split: option.splits\<close>)
    then show ?thesis using lk True by (simp add: op_def record_outbox_failure_def Let_def)
  next
    case False
    have "settled (tx_now c Failing) (work_id w) (works (set_work (outbox s)
        (v\<lparr>last_error := Some (failure_text x), lease_owner := None, lease_expires_at := None,
           available_at := tx_now c Failing + of_int (retry_window v) * jitter_drawn c\<rparr>)))"
      by (rule settled_set_work) (use v(3) q in \<open>simp_all add: quiet_def retry_delay_bounded\<close>)
    then show ?thesis using lk False q by (simp add: op_def record_outbox_failure_def quiet_def)
  qed
  then obtain out db where o: "op (outbox s) = Inr (out, db)" "settled (tx_now c Failing) (work_id w) (works db)" by blast
  have "works (outbox (record_failure wk c w x ch b fallback_to s)) = works db"
    using run_tx_quiet [where g = Failing and op = op and s = s, OF q o(1)] q
    by (simp add: record_failure_def policy_def [symmetric] fb_def [symmetric] op_def [symmetric]
        after_failure_def [symmetric] Let_def count_failure_def notify_terminal_failure_def split: option.split)
  then show ?thesis using o(2) by simp
qed

lemma complete_settles:
  assumes q: "quiet c" and h: "holds_lease (worker_name wk) c (work_id w) (outbox s)"
  shows "settled now (work_id w) (works (outbox (complete_or_retry wk c w reason s)))"
proof -
  obtain v where v: "distinct (map work_id (works (outbox s)))" "v \<in> set (works (outbox s))" "work_id v = work_id w"
    "\<And>g. lease_held (worker_name wk) (tx_clock c g) v" using h by (auto simp: holds_lease_def)
  let ?u = "v\<lparr>completed_at := Some (tx_now c Completing), lease_owner := None, lease_expires_at := None\<rparr>"
  have lk: "complete_outbox_work (work_id w) (worker_name wk) (tx_now c Completing) (tx_clock c Completing) (outbox s)
      = Inr ((), set_work (outbox s) ?u)"
    using locked_when_held [OF v(1,2) v(4)] v(3) by (simp add: complete_outbox_work_def)
  have "settled now (work_id w) (works (set_work (outbox s) ?u))"
    by (rule settled_set_work) (use v(3) in \<open>auto simp: terminal_def\<close>)
  then show ?thesis by (simp add: complete_or_retry_def run_tx_quiet [where s = s and op = "complete_outbox_work (work_id w) (worker_name wk)
    (tx_now c Completing) (tx_clock c Completing)", OF q lk])
qed

lemma persist_keeps_lease:
  assumes "holds_lease k c i db" and "persist_outbound_intent i k body skey clock db = Inr (u, db')"
  shows "holds_lease k c i db'"
proof -
  obtain v where v: "locked_live_work i k clock db = Inr v"
    and db': "db' = set_work db (v\<lparr>outbound_body := Some body, outbound_send_key := Some skey\<rparr>)"
    using assms(2) by (auto simp: persist_outbound_intent_def bindR_eq_Inr split: if_splits)
  note lk = locked_live_work_Inr [OF v]
  obtain u where u: "u \<in> set (works db)" "work_id u = i" "\<And>g. lease_held k (tx_clock c g) u" and ids: "distinct (map work_id (works db))"
    using assms(1) by (auto simp: holds_lease_def)
  have "u = v" using u ids lk by (auto simp: distinct_map dest: inj_onD)
  let ?v = "v\<lparr>outbound_body := Some body, outbound_send_key := Some skey\<rparr>"
  have "map work_id (works db') = map work_id (works db)"
    using lk by (auto simp: db' set_work_def comp_def)
  moreover have "?v \<in> set (works db')"
    using lk by (auto simp: db' set_work_def image_iff intro!: bexI [of _ v])
  moreover have "lease_held k (tx_clock c g) ?v" for g
    using u(3) [of g] \<open>u = v\<close> by (auto simp: lease_held_def terminal_def)
  ultimately show ?thesis using ids lk unfolding holds_lease_def by (metis outbox_work.select_convs(1) outbox_work.surjective outbox_work.update_convs(11,12))
qed

definition latest :: "conditions \<Rightarrow> rat" where
  "latest c = max (tx_now c Failing) (tx_now c Completing)"

lemma settled_mono: "settled now i ws \<Longrightarrow> now \<le> now' \<Longrightarrow> settled now' i ws"
  by (force simp: settled_def)

lemma send_reply_settles:
  assumes "quiet c" and "holds_lease (worker_name wk) c (work_id w) (outbox s)"
  shows "settled (tx_now c Failing) (work_id w) (works (outbox (send_reply wk c w ch b r s)))"
proof -
  have h: "holds_lease (worker_name wk) c (work_id w) (outbox (act a s))" for a using assms(2) by simp
  show ?thesis
    using failure_settles [OF assms(1) h] complete_settles [OF assms(1) h]
    by (simp add: send_reply_def split: sum.split)
qed

lemma lease_not_lost:
  assumes q: "quiet c" and h: "holds_lease k c i (outbox s)"
  shows "fst (run_tx c g (persist_outbound_intent i k body skey (tx_clock c g)) s) \<noteq> LeaseLost"
proof -
  obtain v where "locked_live_work i k (tx_clock c g) (outbox s) = Inr v"
    using h locked_when_held unfolding holds_lease_def by blast
  then show ?thesis using q
    by (auto simp: run_tx_def transact_def quiet_def persist_outbound_intent_def split: prod.splits)
qed

lemma quiet_tx_outbox:
  assumes "quiet c" and "run_tx c g op s = (r, s')"
  shows "(\<exists>a. r = TxDone a \<and> op (outbox s) = Inr (a, outbox s')) \<or> (outbox s' = outbox s \<and> (\<forall>a. r \<noteq> TxDone a))"
  using assms by (auto simp: run_tx_def transact_def quiet_def split: prod.splits sum.splits err.splits)

lemma answer_settles:
  assumes q: "quiet c" and h: "holds_lease (worker_name wk) c (work_id w) (outbox s)"
  shows "settled (tx_now c Failing) (work_id w) (works (outbox (answer wk c w m ch b address p txt s)))"
proof -
  obtain r s1 where r: "run_claimed_turn m ch b address p txt s = (r, s1)"
    by (cases "run_claimed_turn m ch b address p txt s")
  have h1: "holds_lease (worker_name wk) c (work_id w) (outbox s1)"
    using h r by (auto simp: run_claimed_turn_def split: sum.splits)
  show ?thesis
  proof (cases r)
    case (Inl x)
    then show ?thesis using r failure_settles [OF q h1] by (simp add: answer_def)
  next
    case (Inr reply)
    define s2 where "s2 = (if persist_conversation b
        then record_turn wk (channel_scoped_key ch address) (participant_id p) txt reply s1 else s1)"
    have h2: "holds_lease (worker_name wk) c (work_id w) (outbox s2)"
      using h1 by (simp add: s2_def record_turn_def split: option.split)
    obtain t s3 where t: "run_tx c Persisting (persist_outbound_intent (work_id w) (worker_name wk)
        (reply_body address reply) (meta_message_id m @ '':reply'') (tx_clock c Persisting)) s2 = (t, s3)"
      (is "?tx = _") by (cases ?tx)
    have live: "t \<noteq> LeaseLost" using lease_not_lost [OF q h2] t by (metis fst_conv)
    have h3: "holds_lease (worker_name wk) c (work_id w) (outbox s3)"
      using quiet_tx_outbox [OF q t] h2 persist_keeps_lease [OF h2] by auto
    have "answer wk c w m ch b address p txt s =
        (if reply = '''' then complete_or_retry wk c w ''agent produced no reply'' s2
         else case t of LeaseLost \<Rightarrow> s3
           | TxFailed x \<Rightarrow> record_failure wk c w (Failure x) ch (Some b) (Some (address, meta_message_id m @ '':fallback'')) s3
           | TxDone _ \<Rightarrow> send_reply wk c w ch b (address, reply) s3)"
      using r Inr t by (simp add: answer_def s2_def [symmetric])
    then show ?thesis
      using live complete_settles [OF q h2] failure_settles [OF q h3] send_reply_settles [OF q h3]
      by (auto split: tx.split)
  qed
qed

lemma serve_sender_settles:
  assumes q: "quiet c" and h: "holds_lease (worker_name wk) c (work_id w) (outbox s)"
  shows "settled (tx_now c Failing) (work_id w) (works (outbox (serve_sender wk c w m ch b dir turn s)))"
  using complete_settles [OF assms] failure_settles [OF assms] answer_settles [OF assms] send_reply_settles [OF assms]
  by (auto simp: serve_sender_def split: sum.split option.split)

text \<open>
  No row is left hanging. When the database answers and the worker still holds the lease, then
  whatever the channel, the directory, the runtime and the classifier do, be it raising at any point,
  the row comes out of its processing completed, failed for good, or free and due again within the
  longest wait for a retry; never with the lease still on it.
\<close>

theorem claimed_row_settles:
  assumes q: "quiet c" and h: "holds_lease (worker_name wk) c (work_id w) (outbox s)"
  shows "settled (tx_now c Failing) (work_id w) (works (outbox (process_claimed_work wk c w s)))"
proof -
  obtain mo where t: "run_tx c Loading (load_inbound w) s = (TxDone mo, s)"
    using q by (simp add: run_tx_def transact_def quiet_def load_inbound_def)
  show ?thesis
    using t complete_settles [OF assms] failure_settles [OF assms] serve_sender_settles [OF assms]
    by (auto simp: process_claimed_work_def Let_def split: option.split sum.split)
qed

theorem claimed_row_settles_witness:
  "settled 20 1 (works (outbox demo_result)) \<and> 1 \<in> set (map work_id (works (outbox demo_result)))"
proof -
  have "quiet demo_conditions" by (simp add: quiet_def demo_conditions_def)
  moreover have "holds_lease (worker_name demo_worker) demo_conditions (work_id demo_row) (outbox demo_world)"
  proof -
    have "demo_row \<in> set (works demo_db4) \<and> lease_held ''k'' 20 demo_row \<and> distinct (map work_id (works demo_db4))" by code_simp
    then show ?thesis by (auto simp: holds_lease_def demo_world_def demo_conditions_def demo_worker_def)
  qed
  moreover have "work_id demo_row = 1" and "1 \<in> set (map work_id (works (outbox demo_result)))" by code_simp+
  ultimately show ?thesis using claimed_row_settles [of demo_conditions demo_worker demo_row demo_world]
    by (simp add: demo_result_def demo_conditions_def)
qed

subsection \<open>A round keeps to its slots\<close>

lemma reserve_slots_eq: "reserve_slots n l = turns.take_up_to n l"
  by (induction n arbitrary: l) (simp_all add: Let_def split: prod.split)

lemma release_slots_eq: "release_slots n l = turns.free_n n l"
proof (induction n arbitrary: l)
  case (Suc n)
  then have "release_slots n = turns.free_n n" by blast
  then show ?case by simp
qed simp

text \<open>What the processing of some claimed rows does, and how many turns it runs.\<close>

definition round_done :: "int \<Rightarrow> nat \<Rightarrow> worker_world \<Rightarrow> worker_world \<Rightarrow> bool" where
  "round_done M n s s' \<longleftrightarrow> outbox_steps M (outbox s) (outbox s')
     \<and> (\<exists>new. acts s' = acts s @ new \<and> length (turns_run new) \<le> n)"

lemma round_done_refl: "round_done M n s s"
  by (simp add: round_done_def)

lemma round_done_trans: "round_done M m s s1 \<Longrightarrow> round_done M n s1 s2 \<Longrightarrow> round_done M (m + n) s s2"
  unfolding round_done_def using outbox_steps_trans by fastforce

lemma round_done_mono: "round_done M m s s1 \<Longrightarrow> m \<le> n \<Longrightarrow> round_done M n s s1"
  unfolding round_done_def using le_trans by blast

lemma proceeds_round: "proceeds M i s s' sent [] \<Longrightarrow> round_done M 0 s s'"
  by (auto simp: proceeds_def round_done_def)

lemma process_round:
  assumes "interleaves M c" and "outbox_ok M (outbox s)" and "\<exists>v \<in> set (works (outbox s)). keeps_row w v"
  shows "round_done M 1 s (process_claimed_work wk c w s)"
proof -
  obtain turns where "item_spec M w s (process_claimed_work wk c w s) turns" and "length turns \<le> 1"
    using process_item [OF assms] by fastforce
  then show ?thesis unfolding item_spec_def proceeds_def round_done_def by blast
qed

lemma process_all_round:
  assumes "\<And>w. interleaves M (cs w)" and "outbox_ok M (outbox s)"
    and "\<forall>w \<in> set ws. \<exists>v \<in> set (works (outbox s)). keeps_row w v"
    and "limiter_ok l" and "int (length ws) \<le> in_flight l"
  shows "\<exists>l' s'. process_all wk cs ws (l, s) = Inr (l', s') \<and> limiter_ok l'
    \<and> in_flight l' = in_flight l - int (length ws) \<and> max_concurrent_turns l' = max_concurrent_turns l
    \<and> round_done M (length ws) s s'"
  using assms(2-5)
proof (induction ws arbitrary: l s)
  case Nil
  then show ?case by (simp add: round_done_refl)
next
  case (Cons w ws)
  define s1 where "s1 = process_claimed_work wk (cs w) w s"
  have r1: "round_done M 1 s s1"
    unfolding s1_def using Cons.prems by (intro process_round assms(1)) simp_all
  then have steps: "outbox_steps M (outbox s) (outbox s1)" by (simp add: round_done_def)
  have ok1: "outbox_ok M (outbox s1)" by (rule outbox_steps_ok [OF steps Cons.prems(1)])
  have copies: "\<forall>v \<in> set ws. \<exists>u \<in> set (works (outbox s1)). keeps_row v u"
    using Cons.prems(2) steps_keep_copy [OF _ Cons.prems(1) steps] by simp
  obtain l1 where l1: "release l = Inr l1" "limiter_ok l1" "in_flight l1 = in_flight l - 1"
      "max_concurrent_turns l1 = max_concurrent_turns l"
    using turns.free_slot_used [OF Cons.prems(3)] Cons.prems(4) by force
  obtain l' s' where "process_all wk cs ws (l1, s1) = Inr (l', s')" "limiter_ok l'"
      "in_flight l' = in_flight l1 - int (length ws)" "max_concurrent_turns l' = max_concurrent_turns l1"
      and r2: "round_done M (length ws) s1 s'"
    using Cons.IH [OF ok1 copies l1(2)] l1(3) Cons.prems(4) by auto
  then show ?case using l1 round_done_trans [OF r1 r2] by (simp add: s1_def [symmetric] Let_def)
qed

lemma notify_all_round: "round_done M 0 s (notify_all wk ws s) \<and> outbox (notify_all wk ws s) = outbox s"
proof (induction ws arbitrary: s)
  case (Cons w ws)
  have n: "round_done M 0 s (notify_terminal_failure wk w (expired_error w) s)"
    by (rule proceeds_round [where i = 0]) (rule notify_proceeds)
  have o: "outbox (notify_terminal_failure wk w (expired_error w) s) = outbox s"
    by (simp add: notify_terminal_failure_def split: option.split)
  show ?case
    using Cons.IH [of "notify_terminal_failure wk w (expired_error w) s"] round_done_trans [OF n] o
    by (auto simp: notify_all_def)
qed (simp add: notify_all_def round_done_refl)

lemma claimed_in_table:
  assumes "claim_available_outbox_work k lmt dur mx skipped now db = Inr (out, db')" and "w \<in> set (claimed out)"
  shows "w \<in> set (works db')"
proof -
  obtain v where v: "v \<in> set (pending_outbox now (nat lmt) skipped db)" "w = claim_row k now dur mx v"
    using assms(2) unfolding claim_available_Inr(4) [OF assms(1)] by auto
  then show ?thesis
    unfolding claim_available_Inr(6) [OF assms(1)] using pending_outbox_subset [OF v(1)]
    by (auto simp: image_iff intro!: bexI [of _ v])
qed

lemma claimed_length:
  assumes "claim_available_outbox_work k lmt dur mx skipped now db = Inr (out, db')"
  shows "int (length (claimed out)) \<le> lmt"
proof -
  have "length (claimed out) \<le> length (pending_outbox now (nat lmt) skipped db)"
    unfolding claim_available_Inr(4) [OF assms] by simp
  then show ?thesis using claim_available_Inr(2) [OF assms] by (auto simp: pending_outbox_def)
qed

text \<open>
  A round keeps to its slots. One round of the poll loop starts no more turns than its limit and
  than the slots that were free, whatever the claim and the processing do; it ends with every slot it
  reserved given back, also those of rows it did not get, of a claim that failed and of items that
  raised; and all it did to the tables are steps of the outbox.
\<close>

theorem poll_round_keeps_slots:
  assumes "limiter_ok l" and "outbox_run M h (outbox s)" and "claim_max_attempts_of (channels wk) \<le> M"
    and "interleaves M c" and "\<And>w. interleaves M (cs w)"
  shows "\<exists>l' s' new. process_available wk lmt skipped c cs (l, s) = Inr (l', s')
    \<and> in_flight l' = in_flight l \<and> max_concurrent_turns l' = max_concurrent_turns l
    \<and> acts s' = acts s @ new
    \<and> length (turns_run new) \<le> lmt
    \<and> int (length (turns_run new)) \<le> max_concurrent_turns l - in_flight l
    \<and> outbox_steps M (outbox s) (outbox s')"
proof -
  have ok: "outbox_ok M (outbox s)" by (rule outbox_run_ok [OF assms(2)])
  obtain k l1 where k: "reserve_slots lmt l = (k, l1)" by (cases "reserve_slots lmt l")
  note slots = turns.take_up_to_spec [OF assms(1) k [unfolded reserve_slots_eq]]
  obtain r s1 where t: "run_tx c Claiming
        (claim_available_outbox_work (worker_name wk) (int k) DEFAULT_LEASE_DURATION
          (claim_max_attempts_of (channels wk)) skipped (tx_now c Claiming)) s = (r, s1)" (is "?tx = _")
    by (cases ?tx)
  have p1: "proceeds M 0 s s1 [] []"
    by (rule run_tx_proceeds [OF t assms(4)]) (blast intro: outbox_step_steps outbox_step.claim assms(3))
  have ok1: "outbox_ok M (outbox s1)" by (rule outbox_steps_ok [OF proceeds_steps [OF p1] ok])
  have "\<exists>l' s'. process_available wk lmt skipped c cs (l, s) = Inr (l', s') \<and> in_flight l' = in_flight l
      \<and> max_concurrent_turns l' = max_concurrent_turns l \<and> round_done M k s s'"
  proof (cases "k = 0 \<or> (\<forall>out. r \<noteq> TxDone out)")
    case True
    have free: "\<exists>l2. release_slots k l1 = Inr l2 \<and> in_flight l2 = in_flight l \<and> max_concurrent_turns l2 = max_concurrent_turns l"
      using turns.free_n_spec [of l1 k] slots turns.used_bounded [OF assms(1)] unfolding release_slots_eq by auto
    have "round_done M k s s1" using round_done_mono [OF proceeds_round [OF p1]] by simp
    then show ?thesis using True k t slots free round_done_refl
      by (auto simp: process_available_def split: tx.split)
  next
    case False
    then obtain out where out: "r = TxDone out" and "k \<noteq> 0" by blast
    obtain db where cl: "claim_available_outbox_work (worker_name wk) (int k) DEFAULT_LEASE_DURATION
          (claim_max_attempts_of (channels wk)) skipped (tx_now c Claiming) db = Inr (out, outbox s1)"
      using run_tx_done [OF t [unfolded out]] by blast
    have n: "length (claimed out) \<le> k" using claimed_length [OF cl] by simp
    obtain l2 where l2: "release_slots (k - length (claimed out)) l1 = Inr l2" "limiter_ok l2"
        "in_flight l2 = in_flight l + int (length (claimed out))" "max_concurrent_turns l2 = max_concurrent_turns l"
      using turns.free_n_spec [of l1 "k - length (claimed out)"] slots n turns.used_bounded [OF assms(1)]
      unfolding release_slots_eq by (auto simp: of_nat_diff)
    define s2 where "s2 = notify_all wk (terminalized out) s1"
    have s2: "round_done M 0 s1 s2" "outbox s2 = outbox s1" using notify_all_round by (simp_all add: s2_def)
    have copies: "\<forall>w \<in> set (claimed out). \<exists>v \<in> set (works (outbox s2)). keeps_row w v"
      using claimed_in_table [OF cl] s2(2) keeps_row_refl by metis
    obtain l' s' where all: "process_all wk cs (claimed out) (l2, s2) = Inr (l', s')"
        "in_flight l' = in_flight l2 - int (length (claimed out))" "max_concurrent_turns l' = max_concurrent_turns l2"
        "round_done M (length (claimed out)) s2 s'"
      using process_all_round [where cs = cs and wk = wk, OF assms(5) _ copies l2(2)] ok1 s2(2) l2(3) turns.used_bounded [OF assms(1)] by auto
    have "round_done M k s s'"
      using round_done_mono [OF round_done_trans [OF round_done_trans [OF proceeds_round [OF p1] s2(1)] all(4)]] n by simp
    then show ?thesis using k t out \<open>k \<noteq> 0\<close> l2 all by (auto simp: process_available_def s2_def)
  qed
  then show ?thesis using slots unfolding round_done_def by fastforce
qed

definition demo_limiter :: limiter where
  "demo_limiter = \<lparr>max_concurrent_turns = 2, in_flight = 1\<rparr>"

definition demo_start :: worker_world where
  "demo_start = \<lparr>outbox = demo_db3, acts = []\<rparr>"

definition demo_round :: "(limiter \<times> worker_world) res" where
  "demo_round = process_available demo_worker 10 [] demo_conditions (\<lambda>_. demo_conditions) (demo_limiter, demo_start)"

theorem poll_round_keeps_slots_witness:
  "\<exists>l' s'. demo_round = Inr (l', s') \<and> in_flight l' = 1 \<and> length (turns_run (acts s')) = 1
    \<and> int (length (turns_run (acts s'))) \<le> 2 - 1"
proof -
  have M: "MAX_OUTBOX_ATTEMPTS = 5" by code_simp
  have facts: "limiter_ok demo_limiter" "claim_max_attempts_of (channels demo_worker) \<le> 5" by code_simp+
  have one: "case demo_round of Inr (l', s') \<Rightarrow> length (turns_run (acts s')) = 1 | Inl _ \<Rightarrow> False" by code_simp
  have run: "outbox_run 5 [LAccept 1, LAccept 2, LAccept 3] (outbox demo_start)"
    using demo_run3 M by (simp add: demo_start_def)
  from poll_round_keeps_slots [OF facts(1) run facts(2) demo_interleaves, of "\<lambda>_. demo_conditions" 10 "[]"] demo_interleaves
  obtain l' s' new where r: "demo_round = Inr (l', s')" and "in_flight l' = in_flight demo_limiter"
    unfolding demo_round_def by blast
  moreover have "length (turns_run (acts s')) = 1" using one unfolding r by simp
  ultimately have "demo_round = Inr (l', s') \<and> in_flight l' = 1 \<and> length (turns_run (acts s')) = 1
      \<and> int (length (turns_run (acts s'))) \<le> 2 - 1" by (simp add: demo_limiter_def)
  then show ?thesis by blast
qed

end
