(* ===== verification/Proactive.thy ===== *)
theory Proactive
  imports Turn_Run
begin

section \<open>Unsolicited messages\<close>

text \<open>
  \<open>proactive.py\<close>: the queue of messages nobody asked for in a turn, who may submit one, and the
  dispatcher that sends it.  A moment is an exact number of seconds since the epoch.  A time zone is
  the pair of conversions the code asks of \<open>datetime\<close>: the wall clock at a moment with its \<open>fold\<close>, and
  the moment of a wall clock.  The queue is given by its operations, the protocol \<open>ProactiveQueue\<close>;
  the in-memory one is defined here.  The recipient directory, the lookup of current permissions and
  the answer of the provider are functions of the deployment.
\<close>

subsection \<open>Messages\<close>

definition SEND_PROACTIVE :: string where "SEND_PROACTIVE = ''send:proactive''"
definition DEFAULT_LEASE_S :: rat where "DEFAULT_LEASE_S = 120"
definition DEFAULT_RECHECK_S :: rat where "DEFAULT_RECHECK_S = 60"

datatype message_status = Queued | Sending | Sent | Failed | Ambiguous

definition ATTEMPTED_STATUSES :: "message_status list" where
  "ATTEMPTED_STATUSES = [Sending, Sent, Ambiguous]"

fun status_text :: "message_status \<Rightarrow> string" where
  "status_text Queued = ''queued''"
| "status_text Sending = ''sending''"
| "status_text Sent = ''sent''"
| "status_text Failed = ''failed''"
| "status_text Ambiguous = ''ambiguous''"

record proactive_message =
  pm_id :: string
  pm_runtime :: string
  pm_subject :: string
  pm_text :: string
  pm_actor :: string
  pm_status :: message_status
  pm_available :: "rat option"
  pm_owner :: "string option"
  pm_lease :: "rat option"
  pm_error :: "string option"

text \<open>The protocol of the queue.  Each operation takes the queue and returns it.\<close>

record 'q queue_ops =
  op_enqueue :: "string \<Rightarrow> string \<Rightarrow> string \<Rightarrow> string \<Rightarrow> string \<Rightarrow> rat \<Rightarrow> 'q \<Rightarrow> 'q"
  op_claim :: "string \<Rightarrow> rat \<Rightarrow> rat \<Rightarrow> 'q \<Rightarrow> proactive_message option \<times> 'q"
  op_expire :: "rat \<Rightarrow> 'q \<Rightarrow> proactive_message list \<times> 'q"
  op_attempts :: "string \<Rightarrow> string option \<Rightarrow> rat \<Rightarrow> string option \<Rightarrow> 'q \<Rightarrow> int"
  op_finish :: "string \<Rightarrow> string \<Rightarrow> message_status \<Rightarrow> string option \<Rightarrow> 'q \<Rightarrow> 'q"
  op_defer :: "string \<Rightarrow> string \<Rightarrow> rat \<Rightarrow> 'q \<Rightarrow> 'q"

subsection \<open>The in-memory queue\<close>

record memory_queue =
  messages :: "proactive_message list"
  times :: "(string \<times> rat) list"

definition replace_message ::
  "string \<Rightarrow> (proactive_message \<Rightarrow> proactive_message) \<Rightarrow> memory_queue \<Rightarrow> memory_queue" where
  "replace_message i f q = q\<lparr>messages := map (\<lambda>m. if pm_id m = i then f m else m) (messages q)\<rparr>"

text \<open>The id is a fresh \<open>uuid4\<close>.\<close>

definition enqueue ::
  "string \<Rightarrow> string \<Rightarrow> string \<Rightarrow> string \<Rightarrow> string \<Rightarrow> rat \<Rightarrow> memory_queue \<Rightarrow> memory_queue" where
  "enqueue i runtime subject text actor available q =
     q\<lparr>messages := messages q @ [\<lparr>pm_id = i, pm_runtime = runtime, pm_subject = subject, pm_text = text,
         pm_actor = actor, pm_status = Queued, pm_available = Some available, pm_owner = None,
         pm_lease = None, pm_error = None\<rparr>]\<rparr>"

definition lease_lapsed :: "rat \<Rightarrow> proactive_message \<Rightarrow> bool" where
  "lease_lapsed now m \<longleftrightarrow> pm_status m = Sending \<and> (case pm_lease m of Some e \<Rightarrow> e \<le> now | None \<Rightarrow> False)"

definition lapse :: "proactive_message \<Rightarrow> proactive_message" where
  "lapse m = m\<lparr>pm_status := Ambiguous, pm_error := Some ''lease_expired''\<rparr>"

definition expire_leases :: "rat \<Rightarrow> memory_queue \<Rightarrow> proactive_message list \<times> memory_queue" where
  "expire_leases now q =
     (let expired = filter (lease_lapsed now) (messages q) in
      (map lapse expired, foldl (\<lambda>q m. replace_message (pm_id m) lapse q) q expired))"

definition available_from :: "rat \<Rightarrow> proactive_message \<Rightarrow> rat" where
  "available_from now m = (case pm_available m of Some t \<Rightarrow> t | None \<Rightarrow> now)"

text \<open>\<open>min(xs, key=f)\<close>: the first of the least elements.\<close>

fun first_min :: "('a \<Rightarrow> 'k :: linorder) \<Rightarrow> 'a \<Rightarrow> 'a list \<Rightarrow> 'a" where
  "first_min f x [] = x"
| "first_min f x (y # ys) = first_min f (if f y < f x then y else x) ys"

definition claim :: "string \<Rightarrow> rat \<Rightarrow> rat \<Rightarrow> memory_queue \<Rightarrow> proactive_message option \<times> memory_queue" where
  "claim worker now lease q =
     (let q1 = snd (expire_leases now q) in
      case filter (\<lambda>m. pm_status m = Queued \<and> available_from now m \<le> now) (messages q1) of
        [] \<Rightarrow> (None, q1)
      | m # ms \<Rightarrow>
          (let i = pm_id (first_min (available_from now) m ms);
               q2 = replace_message i (\<lambda>m. m\<lparr>pm_status := Sending, pm_owner := Some worker,
                      pm_lease := Some (now + lease)\<rparr>) q1
           in (List.find (\<lambda>m. pm_id m = i) (messages q2), q2\<lparr>times := dset (times q2) i now\<rparr>)))"

definition attempts_since :: "string \<Rightarrow> string option \<Rightarrow> rat \<Rightarrow> string option \<Rightarrow> memory_queue \<Rightarrow> int" where
  "attempts_since runtime subject since exclude q =
     int (length (filter (\<lambda>m. pm_runtime m = runtime
         \<and> (subject = None \<or> subject = Some (pm_subject m))
         \<and> pm_status m \<in> set ATTEMPTED_STATUSES
         \<and> exclude \<noteq> Some (pm_id m)
         \<and> since \<le> (case map_of (times q) (pm_id m) of Some t \<Rightarrow> t | None \<Rightarrow> since)) (messages q)))"

definition finish :: "string \<Rightarrow> string \<Rightarrow> message_status \<Rightarrow> string option \<Rightarrow> memory_queue \<Rightarrow> memory_queue" where
  "finish i worker st er q =
     replace_message i (\<lambda>m. m\<lparr>pm_status := st, pm_error := er, pm_owner := None, pm_lease := None\<rparr>) q"

definition defer_message :: "string \<Rightarrow> string \<Rightarrow> rat \<Rightarrow> memory_queue \<Rightarrow> memory_queue" where
  "defer_message i worker until q =
     (let q1 = replace_message i (\<lambda>m. m\<lparr>pm_status := Queued, pm_available := Some until, pm_owner := None,
                 pm_lease := None\<rparr>) q
      in q1\<lparr>times := ddel (times q1) i\<rparr>)"

definition memory_ops :: "memory_queue queue_ops" where
  "memory_ops = \<lparr>op_enqueue = enqueue, op_claim = claim, op_expire = expire_leases,
     op_attempts = attempts_since, op_finish = finish, op_defer = defer_message\<rparr>"

subsection \<open>Quiet hours\<close>

record time_zone =
  local_of :: "rat \<Rightarrow> rat \<times> bool"
  utc_of :: "rat \<times> bool \<Rightarrow> rat"

definition DAY :: rat where "DAY = 86400"

definition day_of :: "rat \<Rightarrow> rat" where
  "day_of wall = of_int \<lfloor>wall / DAY\<rfloor> * DAY"

text \<open>\<open>replace(hour=end.hour, minute=end.minute, second=0, microsecond=0)\<close> keeps whole minutes.\<close>

definition hour_minute :: "rat \<Rightarrow> rat" where
  "hour_minute t = of_int (\<lfloor>t / 3600\<rfloor> mod 24) * 3600 + of_int (\<lfloor>t / 60\<rfloor> mod 60) * 60"

definition in_window :: "rat \<Rightarrow> rat \<Rightarrow> rat \<Rightarrow> bool" where
  "in_window from till t = (if from \<le> till then from \<le> t \<and> t < till else from \<le> t \<or> t < till)"

record proactive_policy =
  per_recipient :: "(int \<times> rat) option"
  per_runtime :: "(int \<times> rat) option"
  quiet_hours :: "(rat \<times> rat) option"
  policy_zone :: time_zone
  recheck_s :: rat

text \<open>Comparing and adding in one zone works on the wall clock; a sum has fold 0.\<close>

definition quiet_until :: "(rat \<times> rat) option \<Rightarrow> time_zone \<Rightarrow> rat \<Rightarrow> rat option" where
  "quiet_until hours z now =
     (case hours of None \<Rightarrow> None
      | Some (from, till) \<Rightarrow>
          (case local_of z now of (wall, later) \<Rightarrow>
             (let ends = day_of wall + hour_minute till in
              if \<not> in_window from till (wall - day_of wall) then None
              else if ends \<le> wall then Some (utc_of z (ends + DAY, False))
              else Some (utc_of z (ends, later)))))"

subsection \<open>Submitting\<close>

datatype send_outcome = Accepted | RateLimited rat | Rejected | Unknown

datatype delivery_event =
    Delivery (event_outcome: string) string string string (event_message: string) "string option" "string option"
  | ProviderCall string string string string send_outcome

datatype submit_error = NotPermitted string | NotAuthorized string | SubmitRaised err

type_synonym recipient_directory = "string \<Rightarrow> turn_subject \<Rightarrow> turn_subject option res"
type_synonym grant_ceilings = "(string \<times> pclass list) list"

definition ceilings_of :: "registry \<Rightarrow> (string \<times> string list) list \<Rightarrow> grant_ceilings" where
  "ceilings_of reg grants = map (\<lambda>(rt, names). (rt, known_classes reg names)) grants"

definition ceiling_of :: "grant_ceilings \<Rightarrow> string \<Rightarrow> pclass list" where
  "ceiling_of ceilings rt = (case map_of ceilings rt of Some cs \<Rightarrow> cs | None \<Rightarrow> [])"

definition permitted :: "registry \<Rightarrow> grant_ceilings \<Rightarrow> string \<Rightarrow> string list \<Rightarrow> bool res" where
  "permitted reg ceilings rt held =
     bindR (resolve_perm reg SEND_PROACTIVE) (\<lambda>required.
       Inr (\<exists>g \<in> set (filter (\<lambda>c. c \<in> set (known_classes reg held)) (ceiling_of ceilings rt)). covers g required))"

definition static_authorize :: "((string \<times> string) \<times> turn_subject) list \<Rightarrow> recipient_directory" where
  "static_authorize recipients rt subj =
     Inr (case map_of recipients (rt, subject_key subj) of
            None \<Rightarrow> None
          | Some found \<Rightarrow>
              if subject_channel found \<in> {None, Some []} \<or> subject_address found \<in> {None, Some []} then None
              else Some found)"

definition static_revoke ::
  "((string \<times> string) \<times> turn_subject) list \<Rightarrow> string \<Rightarrow> string \<Rightarrow> ((string \<times> string) \<times> turn_subject) list" where
  "static_revoke recipients rt key = ddel recipients (rt, key)"

definition submit ::
  "registry \<Rightarrow> 'q queue_ops \<Rightarrow> grant_ceilings \<Rightarrow> recipient_directory \<Rightarrow> string \<Rightarrow> turn_subject \<Rightarrow> string \<Rightarrow> turn_actor
   \<Rightarrow> string list \<Rightarrow> rat option \<Rightarrow> string \<Rightarrow> rat \<Rightarrow> 'q \<Rightarrow> (submit_error + string) \<times> 'q \<times> delivery_event list" where
  "submit reg ops ceilings dir rt subj text actor held send_at fresh clock q =
     (case permitted reg ceilings rt held of
        Inl e \<Rightarrow> (Inl (SubmitRaised e), q, [])
      | Inr False \<Rightarrow> (Inl (NotPermitted (actor_label actor)), q, [])
      | Inr True \<Rightarrow>
          (case dir rt subj of
             Inl e \<Rightarrow> (Inl (SubmitRaised e), q, [])
           | Inr None \<Rightarrow> (Inl (NotAuthorized (subject_key subj)), q, [])
           | Inr (Some _) \<Rightarrow>
               (Inr fresh,
                op_enqueue ops fresh rt (subject_key subj) text (actor_label actor)
                  (case send_at of Some t \<Rightarrow> t | None \<Rightarrow> clock) q,
                [Delivery ''queued'' rt (subject_key subj) (actor_label actor) fresh None None])))"

subsection \<open>The dispatcher\<close>

record dispatcher =
  dp_registry :: registry
  dp_ceilings :: grant_ceilings
  dp_directory :: recipient_directory
  dp_channels :: "string list"
  dp_lookup :: "(string \<Rightarrow> string \<Rightarrow> string list res) option"
  dp_policy :: proactive_policy
  dp_lease :: rat

record dispatch_outcome =
  do_status :: string
  do_reason :: "string option"
  do_retry_after :: "rat option"
  do_message :: "string option"

definition still_permitted :: "dispatcher \<Rightarrow> proactive_message \<Rightarrow> bool res" where
  "still_permitted d m =
     (case dp_lookup d of
        None \<Rightarrow> permitted (dp_registry d) (dp_ceilings d) (pm_runtime m) [SEND_PROACTIVE]
      | Some f \<Rightarrow>
          (case f (pm_runtime m) (pm_actor m) of
             Inl _ \<Rightarrow> Inr False
           | Inr held \<Rightarrow> permitted (dp_registry d) (dp_ceilings d) (pm_runtime m) held))"

text \<open>The loop over the two limits stops at the first that is used up.\<close>

definition used_up ::
  "'q queue_ops \<Rightarrow> proactive_message \<Rightarrow> rat \<Rightarrow> 'q \<Rightarrow> (int \<times> rat) option \<times> string option \<Rightarrow> bool" where
  "used_up ops m now q x =
     (case x of
        (None, _) \<Rightarrow> False
      | (Some (cnt, window), subject) \<Rightarrow>
          cnt \<le> op_attempts ops (pm_runtime m) subject (now - window) (Some (pm_id m)) q)"

definition guard_delivery ::
  "'q queue_ops \<Rightarrow> proactive_policy \<Rightarrow> proactive_message \<Rightarrow> rat \<Rightarrow> 'q \<Rightarrow> (rat \<times> string) option" where
  "guard_delivery ops p m now q =
     (case quiet_until (quiet_hours p) (policy_zone p) now of
        Some until \<Rightarrow> Some (until, ''quiet_hours'')
      | None \<Rightarrow>
          if list_ex (used_up ops m now q) [(per_recipient p, Some (pm_subject m)), (per_runtime p, None)]
          then Some (now + recheck_s p, ''rate_limit'')
          else None)"

text \<open>
  \<open>_dispatch\<close> up to the provider call: the message is refused, held back, or goes to an address.
\<close>

datatype verdict =
    Broke err
  | Refuse string "string option"
  | Hold rat string string
  | Go string string

definition reachable_at :: "turn_subject option \<Rightarrow> (string \<times> string) option" where
  "reachable_at r =
     (case r of None \<Rightarrow> None
      | Some s \<Rightarrow>
          (case (subject_channel s, subject_address s) of
             (Some ch, Some to) \<Rightarrow> if ch = [] \<or> to = [] then None else Some (ch, to)
           | _ \<Rightarrow> None))"

definition plan :: "'q queue_ops \<Rightarrow> dispatcher \<Rightarrow> proactive_message \<Rightarrow> rat \<Rightarrow> 'q \<Rightarrow> verdict" where
  "plan ops d m now q =
     (case still_permitted d m of
        Inl e \<Rightarrow> Broke e
      | Inr False \<Rightarrow> Refuse ''permission_revoked'' None
      | Inr True \<Rightarrow>
          (case bindR (TurnSubject (pm_subject m) None None) (dp_directory d (pm_runtime m)) of
             Inl e \<Rightarrow> Broke e
           | Inr recipient \<Rightarrow>
               (case reachable_at recipient of
                  None \<Rightarrow> Refuse ''recipient_not_authorized'' None
                | Some (ch, to) \<Rightarrow>
                    if ch \<notin> set (dp_channels d) then Refuse ''no_channel'' (Some ch)
                    else (case guard_delivery ops (dp_policy d) m now q of
                            Some (until, reason) \<Rightarrow> Hold until reason ch
                          | None \<Rightarrow> Go ch to))))"

definition audited_delivery :: "string \<Rightarrow> proactive_message \<Rightarrow> string option \<Rightarrow> string option \<Rightarrow> delivery_event" where
  "audited_delivery out m ch reason = Delivery out (pm_runtime m) (pm_subject m) (pm_actor m) (pm_id m) ch reason"

definition close_message ::
  "'q queue_ops \<Rightarrow> string \<Rightarrow> proactive_message \<Rightarrow> message_status \<Rightarrow> string option \<Rightarrow> string option \<Rightarrow> 'q
   \<Rightarrow> dispatch_outcome \<times> 'q \<times> delivery_event list" where
  "close_message ops worker m st reason ch q =
     (\<lparr>do_status = status_text st, do_reason = reason, do_retry_after = None, do_message = Some (pm_id m)\<rparr>,
      op_finish ops (pm_id m) worker st reason q, [audited_delivery (status_text st) m ch reason])"

definition hold_back ::
  "'q queue_ops \<Rightarrow> string \<Rightarrow> proactive_message \<Rightarrow> rat \<Rightarrow> string \<Rightarrow> string \<Rightarrow> 'q
   \<Rightarrow> dispatch_outcome \<times> 'q \<times> delivery_event list" where
  "hold_back ops worker m until reason ch q =
     (\<lparr>do_status = ''deferred'', do_reason = Some reason, do_retry_after = None, do_message = Some (pm_id m)\<rparr>,
      op_defer ops (pm_id m) worker until q, [audited_delivery ''deferred'' m (Some ch) (Some reason)])"

definition settle ::
  "'q queue_ops \<Rightarrow> string \<Rightarrow> proactive_message \<Rightarrow> rat \<Rightarrow> string \<Rightarrow> send_outcome \<Rightarrow> 'q
   \<Rightarrow> dispatch_outcome \<times> 'q \<times> delivery_event list" where
  "settle ops worker m now ch answer q =
     (case answer of
        RateLimited after \<Rightarrow>
          (\<lparr>do_status = ''rate_limited'', do_reason = Some ''provider_429'', do_retry_after = Some after,
             do_message = Some (pm_id m)\<rparr>,
           op_defer ops (pm_id m) worker (now + after) q, [audited_delivery ''rate_limited'' m (Some ch) None])
      | Rejected \<Rightarrow> close_message ops worker m Failed (Some ''rejected'') (Some ch) q
      | Unknown \<Rightarrow> close_message ops worker m Ambiguous (Some ''send_error'') (Some ch) q
      | Accepted \<Rightarrow> close_message ops worker m Sent None (Some ch) q)"

text \<open>The provider's answer to this text at this address.\<close>

type_synonym provider = "string \<Rightarrow> string \<Rightarrow> string \<Rightarrow> send_outcome"

definition dispatch ::
  "'q queue_ops \<Rightarrow> dispatcher \<Rightarrow> provider \<Rightarrow> string \<Rightarrow> proactive_message \<Rightarrow> rat \<Rightarrow> 'q
   \<Rightarrow> dispatch_outcome res \<times> 'q \<times> delivery_event list" where
  "dispatch ops d send worker m now q =
     (case plan ops d m now q of
        Broke e \<Rightarrow> (Inl e, q, [])
      | Refuse reason ch \<Rightarrow>
          (case close_message ops worker m Failed (Some reason) ch q of (out, q', evs) \<Rightarrow> (Inr out, q', evs))
      | Hold until reason ch \<Rightarrow>
          (case hold_back ops worker m until reason ch q of (out, q', evs) \<Rightarrow> (Inr out, q', evs))
      | Go ch to \<Rightarrow>
          (let answer = send ch to (pm_text m) in
           case settle ops worker m now ch answer q of
             (out, q', evs) \<Rightarrow> (Inr out, q', ProviderCall (pm_id m) ch to (pm_text m) answer # evs)))"

definition idle :: dispatch_outcome where
  "idle = \<lparr>do_status = ''idle'', do_reason = None, do_retry_after = None, do_message = None\<rparr>"

definition run_once ::
  "'q queue_ops \<Rightarrow> dispatcher \<Rightarrow> provider \<Rightarrow> string \<Rightarrow> rat \<Rightarrow> 'q
   \<Rightarrow> dispatch_outcome res \<times> 'q \<times> delivery_event list" where
  "run_once ops d send worker now q =
     (case op_expire ops now q of (lapsed, q1) \<Rightarrow>
        (let evs = map (\<lambda>m. audited_delivery ''ambiguous'' m None (Some ''lease_expired'')) lapsed in
         case op_claim ops worker now (dp_lease d) q1 of
           (None, q2) \<Rightarrow> (Inr idle, q2, evs)
         | (Some m, q2) \<Rightarrow>
             (case dispatch ops d send worker m now q2 of (out, q3, evs2) \<Rightarrow> (out, q3, evs @ evs2))))"

subsection \<open>What quiet hours mean\<close>

text \<open>The zone keeps its offset for a while.\<close>

definition steady :: "time_zone \<Rightarrow> rat \<Rightarrow> rat \<Rightarrow> rat \<Rightarrow> bool" where
  "steady z from till off \<longleftrightarrow>
     (\<forall>t. from \<le> t \<and> t \<le> till \<longrightarrow> fst (local_of z t) = t + off \<and> (\<forall>later. utc_of z (t + off, later) = t))"

definition time_of_day :: "time_zone \<Rightarrow> rat \<Rightarrow> rat" where
  "time_of_day z t = fst (local_of z t) - day_of (fst (local_of z t))"

definition quiet_at :: "rat \<times> rat \<Rightarrow> time_zone \<Rightarrow> rat \<Rightarrow> bool" where
  "quiet_at hours z t = in_window (fst hours) (snd hours) (time_of_day z t)"

lemma day_of_bounds: "day_of w \<le> w" "w < day_of w + DAY"
  using floor_correct [of "w / DAY"] by (auto simp: day_of_def DAY_def field_simps)

lemma day_of_same: "day_of w \<le> v \<Longrightarrow> v < day_of w + DAY \<Longrightarrow> day_of v = day_of w"
  unfolding day_of_def DAY_def by (simp add: floor_eq_iff field_simps)

lemma day_of_next: "day_of w + DAY \<le> v \<Longrightarrow> v < day_of w + 2 * DAY \<Longrightarrow> day_of v = day_of w + DAY"
proof -
  assume a: "day_of w + DAY \<le> v" "v < day_of w + 2 * DAY"
  have "(w + DAY) / DAY = w / DAY + of_int 1" by (simp add: DAY_def add_divide_distrib)
  then have "day_of (w + DAY) = day_of w + DAY"
    unfolding day_of_def by (simp only: floor_add_int [symmetric]) (simp add: distrib_right)
  with day_of_same [of "w + DAY" v] a show ?thesis by simp
qed

text \<open>
  What deferring past quiet hours means. While the zone keeps its offset and the hours end on a whole minute
  of the day, \<open>quiet_until\<close> is silent outside quiet hours, and inside it names the first moment after
  now that is outside: everything from now up to it is quiet, and it is at most a day away.
\<close>

theorem quiet_until_exact:
  assumes "steady z now (now + DAY) off" and "0 \<le> till" and "till < DAY" and "hour_minute till = till"
  shows "case quiet_until (Some (from, till)) z now of
      None \<Rightarrow> \<not> quiet_at (from, till) z now
    | Some u \<Rightarrow> now < u \<and> u \<le> now + DAY \<and> \<not> quiet_at (from, till) z u
        \<and> (\<forall>t. now \<le> t \<and> t < u \<longrightarrow> quiet_at (from, till) z t)"
proof (cases "quiet_at (from, till) z now")
  case False
  then show ?thesis
    by (auto simp: quiet_until_def quiet_at_def time_of_day_def Let_def split: prod.splits)
next
  case True
  let ?w = "now + off" and ?ends = "day_of (now + off) + till"
  have loc: "fst (local_of z t) = t + off" "utc_of z (t + off, l) = t" if "now \<le> t" "t \<le> now + DAY" for t l
    using assms(1) that unfolding steady_def by blast+
  have w: "fst (local_of z now) = ?w" using loc by (simp add: DAY_def)
  have win: "in_window from till (?w - day_of ?w)" using True by (simp add: quiet_at_def time_of_day_def w)
  note b = day_of_bounds [of ?w]
  have tod: "time_of_day z t = (if t + off < day_of ?w + DAY then t + off - day_of ?w else t + off - (day_of ?w + DAY))"
    if "now \<le> t" "t \<le> now + DAY" for t
    using loc(1) [OF that] day_of_same [of ?w "t + off"] day_of_next [of ?w "t + off"] that b
    by (auto simp: time_of_day_def)
  define u where "u = (if ?ends \<le> ?w then ?ends + DAY else ?ends) - off"
  have r: "now < u" "u \<le> now + DAY" using assms(2,3) b by (auto simp: u_def)
  have eq: "u + off = (if ?ends \<le> ?w then ?ends + DAY else ?ends)" by (simp add: u_def)
  have "quiet_until (Some (from, till)) z now =
      Some (if ?ends \<le> ?w then utc_of z (?ends + DAY, False) else utc_of z (?ends, snd (local_of z now)))"
    using win by (simp add: quiet_until_def Let_def case_prod_unfold w assms(4))
  also have "\<dots> = Some u" using loc(2) [of u, unfolded eq] r by auto
  finally have u: "quiet_until (Some (from, till)) z now = Some u" .
  have "\<not> quiet_at (from, till) z u" using tod [of u] r eq win assms(2,3) b
    by (auto simp: quiet_at_def in_window_def split: if_splits)
  moreover have "quiet_at (from, till) z t" if "now \<le> t" "t < u" for t
    using tod [of t] that r eq win assms(2,3) b by (auto simp: quiet_at_def in_window_def split: if_splits)
  ultimately show ?thesis using u r by auto
qed

definition utc :: time_zone where
  "utc = \<lparr>local_of = \<lambda>t. (t, False), utc_of = fst\<rparr>"

theorem quiet_until_exact_witness:
  "quiet_until (Some (79200, 28800)) utc 82800 = Some 115200 \<and> \<not> quiet_at (79200, 28800) utc 115200"
proof -
  have "steady utc 82800 (82800 + DAY) 0" by (simp add: steady_def utc_def)
  moreover have "hour_minute 28800 = 28800" by code_simp
  moreover have "quiet_until (Some (79200, 28800)) utc 82800 = Some 115200" by code_simp
  ultimately show ?thesis using quiet_until_exact [of utc 82800 0 28800 79200] by (simp add: DAY_def)
qed

text \<open>
  The end of quiet hours loses its seconds: ten seconds past eight, with hours that end at half past that
  minute, the message waits for eight o'clock of the next day.
\<close>

lemma quiet_end_with_seconds: "quiet_until (Some (79200, 28830)) utc 28810 = Some (28800 + DAY)"
  by code_simp

subsection \<open>Who is reached\<close>

text \<open>
  C20 A provider is called in no other case than this: the runtime's deployment grants a class that covers
  \<open>send:proactive\<close> and the caller holds it now, the directory authorizes the subject now, the
  address is the directory's, its channel is registered, it is not quiet time, and neither limit is used up.
  The text is the message's own, and there is at most one call.
\<close>

theorem sent_only_when_allowed:
  assumes "dispatch ops d send worker m now q = (out, q', evs)"
    and "ProviderCall i ch to txt answer \<in> set evs"
  shows "still_permitted d m = Inr True \<and> i = pm_id m \<and> txt = pm_text m \<and> answer = send ch to txt
    \<and> (\<exists>s r. TurnSubject (pm_subject m) None None = Inr s \<and> dp_directory d (pm_runtime m) s = Inr (Some r)
         \<and> subject_channel r = Some ch \<and> subject_address r = Some to)
    \<and> ch \<in> set (dp_channels d)
    \<and> quiet_until (quiet_hours (dp_policy d)) (policy_zone (dp_policy d)) now = None
    \<and> \<not> used_up ops m now q (per_recipient (dp_policy d), Some (pm_subject m))
    \<and> \<not> used_up ops m now q (per_runtime (dp_policy d), None)
    \<and> length (filter (\<lambda>e. \<exists>i ch to txt a. e = ProviderCall i ch to txt a) evs) = 1"
  using assms
  by (auto simp: dispatch_def plan_def close_message_def hold_back_def settle_def audited_delivery_def
      guard_delivery_def bindR_eq_Inr reachable_at_def Let_def
      split: verdict.splits sum.splits option.splits if_splits prod.splits bool.splits send_outcome.splits)

lemma permitted_iff:
  "permitted reg ceilings rt held = Inr True \<longleftrightarrow>
     (\<exists>r g. resolve_perm reg SEND_PROACTIVE = Inr r \<and> g \<in> set (ceiling_of ceilings rt)
        \<and> g \<in> set (known_classes reg held) \<and> covers g r)"
  by (auto simp: permitted_def bindR_eq_Inr)

text \<open>Nothing is queued unless the caller's permission and the directory allow it.\<close>

theorem submit_fails_closed:
  assumes "submit reg ops ceilings dir rt subj text actor held send_at fresh clock q = (out, q', evs)"
  shows "out = Inr fresh \<and> permitted reg ceilings rt held = Inr True \<and> (\<exists>r. dir rt subj = Inr (Some r))
       \<and> q' = op_enqueue ops fresh rt (subject_key subj) text (actor_label actor)
                (case send_at of Some t \<Rightarrow> t | None \<Rightarrow> clock) q
     \<or> (\<exists>e. out = Inl e) \<and> q' = q \<and> evs = []"
  using assms by (auto simp: submit_def split: sum.splits option.splits bool.splits)

end
