(* ===== verification/Proactive_Fleet.thy ===== *)
theory Proactive_Fleet
  imports Proactive
begin

section \<open>Several dispatchers on one queue\<close>

text \<open>
  Any number of workers run \<open>run_once\<close> of \<open>proactive.py\<close> on one queue.  Every call of the queue and of the
  provider is one step, so workers interleave between them, and a worker may stop for good at any point.
  A \<^emph>\<open>job\<close> is one claimed message on its way.  What the dispatcher relies on is the locale
  \<open>delivery_queue\<close>, interpreted on the in-memory queue; a queue may ignore the end of a job whose lease
  another call took away.
\<close>

subsection \<open>The steps\<close>

datatype phase = Planning | Calling string string | Settling string send_outcome

record job =
  job_worker :: string
  job_message :: proactive_message
  job_now :: rat
  job_phase :: phase

record call =
  call_message :: proactive_message
  call_now :: rat
  call_to :: "string \<times> string"
  call_answer :: send_outcome

record 'q fleet =
  fl_queue :: 'q
  fl_jobs :: "job list"
  fl_calls :: "call list"

definition job_id :: "job \<Rightarrow> string" where "job_id j = pm_id (job_message j)"
definition call_id :: "call \<Rightarrow> string" where "call_id c = pm_id (call_message c)"

definition without :: "job \<Rightarrow> job list \<Rightarrow> job list" where
  "without j js = filter (\<lambda>k. job_id k \<noteq> job_id j) js"

text \<open>The id of a submitted message is fresh, as a \<open>uuid4\<close> is.\<close>

inductive fleet_step :: "'q queue_ops \<Rightarrow> ('q \<Rightarrow> string \<Rightarrow> proactive_message option) \<Rightarrow> dispatcher \<Rightarrow> 'q fleet \<Rightarrow> 'q fleet \<Rightarrow> bool"
  for ops look d where
  Submit: "look (fl_queue s) i = None \<Longrightarrow>
    fleet_step ops look d s (s\<lparr>fl_queue := op_enqueue ops i rt sk txt actor avail (fl_queue s)\<rparr>)"
| Expire: "op_expire ops now (fl_queue s) = (ms, q') \<Longrightarrow> fleet_step ops look d s (s\<lparr>fl_queue := q'\<rparr>)"
| ClaimNone: "op_claim ops worker now (dp_lease d) (fl_queue s) = (None, q') \<Longrightarrow>
    fleet_step ops look d s (s\<lparr>fl_queue := q'\<rparr>)"
| Claim: "op_claim ops worker now (dp_lease d) (fl_queue s) = (Some m, q') \<Longrightarrow>
    fleet_step ops look d s (s\<lparr>fl_queue := q', fl_jobs := \<lparr>job_worker = worker, job_message = m, job_now = now,
      job_phase = Planning\<rparr> # fl_jobs s\<rparr>)"
| Refused: "j \<in> set (fl_jobs s) \<Longrightarrow> job_phase j = Planning \<Longrightarrow>
    plan ops d (job_message j) (job_now j) (fl_queue s) = Refuse reason ch \<Longrightarrow>
    close_message ops (job_worker j) (job_message j) Failed (Some reason) ch (fl_queue s) = (out, q', evs) \<Longrightarrow>
    fleet_step ops look d s (s\<lparr>fl_queue := q', fl_jobs := without j (fl_jobs s)\<rparr>)"
| Held: "j \<in> set (fl_jobs s) \<Longrightarrow> job_phase j = Planning \<Longrightarrow>
    plan ops d (job_message j) (job_now j) (fl_queue s) = Hold until why chan \<Longrightarrow>
    hold_back ops (job_worker j) (job_message j) until why chan (fl_queue s) = (out, q', evs) \<Longrightarrow>
    fleet_step ops look d s (s\<lparr>fl_queue := q', fl_jobs := without j (fl_jobs s)\<rparr>)"
| Cleared: "j \<in> set (fl_jobs s) \<Longrightarrow> job_phase j = Planning \<Longrightarrow>
    plan ops d (job_message j) (job_now j) (fl_queue s) = Go chan to \<Longrightarrow>
    fleet_step ops look d s (s\<lparr>fl_jobs := j\<lparr>job_phase := Calling chan to\<rparr> # without j (fl_jobs s)\<rparr>)"
| Called: "j \<in> set (fl_jobs s) \<Longrightarrow> job_phase j = Calling chan to \<Longrightarrow>
    fleet_step ops look d s (s\<lparr>fl_jobs := j\<lparr>job_phase := Settling chan answer\<rparr> # without j (fl_jobs s),
      fl_calls := fl_calls s @ [\<lparr>call_message = job_message j, call_now = job_now j, call_to = (chan, to),
        call_answer = answer\<rparr>]\<rparr>)"
| Settled: "j \<in> set (fl_jobs s) \<Longrightarrow> job_phase j = Settling chan answer \<Longrightarrow>
    settle ops (job_worker j) (job_message j) (job_now j) chan answer (fl_queue s) = (out, q', evs) \<Longrightarrow>
    fleet_step ops look d s (s\<lparr>fl_queue := q', fl_jobs := without j (fl_jobs s)\<rparr>)"
| Stopped: "j \<in> set (fl_jobs s) \<Longrightarrow> fleet_step ops look d s (s\<lparr>fl_jobs := without j (fl_jobs s)\<rparr>)"

abbreviation fleet_steps where "fleet_steps ops look d \<equiv> (fleet_step ops look d)\<^sup>*\<^sup>*"

subsection \<open>What a queue promises\<close>

text \<open>
  A message of the queue is left alone by an operation on another: it keeps what it says and the time of
  its claim, and its status, but that a lease that ran out makes it ambiguous.
\<close>

definition same_text :: "proactive_message \<Rightarrow> proactive_message \<Rightarrow> bool" where
  "same_text m n \<longleftrightarrow> pm_id n = pm_id m \<and> pm_runtime n = pm_runtime m \<and> pm_subject n = pm_subject m \<and> pm_text n = pm_text m"

definition undisturbed :: "proactive_message option \<times> rat option \<Rightarrow> proactive_message option \<times> rat option \<Rightarrow> bool" where
  "undisturbed x y \<longleftrightarrow> snd y = snd x \<and>
     (case (fst x, fst y) of
        (None, None) \<Rightarrow> True
      | (Some m, Some n) \<Rightarrow> same_text m n \<and> (pm_status n = pm_status m \<or> pm_status m = Sending \<and> pm_status n = Ambiguous)
      | _ \<Rightarrow> False)"

text \<open>A message whose provider may have been reached counts against the limits.\<close>

definition counted :: "string \<Rightarrow> string option \<Rightarrow> rat \<Rightarrow> proactive_message option \<times> rat option \<Rightarrow> bool" where
  "counted rt sk since x \<longleftrightarrow>
     (\<exists>m t. x = (Some m, Some t) \<and> pm_runtime m = rt \<and> (sk = None \<or> sk = Some (pm_subject m))
        \<and> pm_status m \<in> set ATTEMPTED_STATUSES \<and> since \<le> t)"

definition in_group :: "string \<Rightarrow> string option \<Rightarrow> proactive_message \<Rightarrow> bool" where
  "in_group rt sub m \<longleftrightarrow> pm_runtime m = rt \<and> (sub = None \<or> sub = Some (pm_subject m))"

definition limit_for :: "proactive_policy \<Rightarrow> string option \<Rightarrow> (int \<times> rat) option" where
  "limit_for p sub = (case sub of None \<Rightarrow> per_runtime p | Some _ \<Rightarrow> per_recipient p)"

definition limited :: "call \<Rightarrow> bool" where
  "limited c \<longleftrightarrow> (\<exists>t. call_answer c = RateLimited t)"

definition reaching :: "call \<Rightarrow> bool" where
  "reaching c \<longleftrightarrow> call_answer c \<in> {Accepted, Unknown}"

lemma reaching_not_limited: "reaching c \<Longrightarrow> \<not> limited c"
  by (auto simp: reaching_def limited_def)

text \<open>What is cleared for its call, or was sent or may have been.\<close>

definition committed :: "'q fleet \<Rightarrow> string set" where
  "committed s = {job_id j | j. j \<in> set (fl_jobs s) \<and> (\<exists>ch to. job_phase j = Calling ch to)}
     \<union> {call_id c | c. c \<in> set (fl_calls s) \<and> reaching c}"

text \<open>The provider calls among the events of a run.\<close>

definition provider_calls :: "delivery_event list \<Rightarrow> (string \<times> (string \<times> string) \<times> send_outcome) list" where
  "provider_calls evs =
     List.map_filter (\<lambda>e. case e of ProviderCall i ch to _ a \<Rightarrow> Some (i, (ch, to), a) | _ \<Rightarrow> None) evs"

definition calls_made :: "call list \<Rightarrow> (string \<times> (string \<times> string) \<times> send_outcome) list" where
  "calls_made cs = map (\<lambda>c. (call_id c, call_to c, call_answer c)) cs"

lemma provider_calls_append: "provider_calls (xs @ ys) = provider_calls xs @ provider_calls ys"
  by (simp add: provider_calls_def map_filter_def)

locale delivery_queue =
  fixes ops :: "'q queue_ops"
    and ok :: "'q \<Rightarrow> bool"
    and look :: "'q \<Rightarrow> string \<Rightarrow> proactive_message option"
    and claimed_at :: "'q \<Rightarrow> string \<Rightarrow> rat option"
  assumes look_id: "ok q \<Longrightarrow> look q i = Some m \<Longrightarrow> pm_id m = i"
    and enqueue_ok: "ok q \<Longrightarrow> look q i = None \<Longrightarrow> ok (op_enqueue ops i rt sk txt actor avail q)"
    and enqueue_others: "ok q \<Longrightarrow> look q i = None \<Longrightarrow> k \<noteq> i \<Longrightarrow>
      undisturbed (look q k, claimed_at q k) (look (op_enqueue ops i rt sk txt actor avail q) k,
        claimed_at (op_enqueue ops i rt sk txt actor avail q) k)"
    and expire_ok: "ok q \<Longrightarrow> op_expire ops now q = (ms, q') \<Longrightarrow> ok q'"
    and expire_all: "ok q \<Longrightarrow> op_expire ops now q = (ms, q') \<Longrightarrow>
      undisturbed (look q k, claimed_at q k) (look q' k, claimed_at q' k)"
    and claim_ok: "ok q \<Longrightarrow> op_claim ops worker now lease q = (r, q') \<Longrightarrow> ok q'"
    and claim_others: "ok q \<Longrightarrow> op_claim ops worker now lease q = (r, q') \<Longrightarrow>
      (case r of None \<Rightarrow> True | Some m \<Rightarrow> k \<noteq> pm_id m) \<Longrightarrow>
      undisturbed (look q k, claimed_at q k) (look q' k, claimed_at q' k)"
    and claim_takes: "ok q \<Longrightarrow> op_claim ops worker now lease q = (Some m, q') \<Longrightarrow>
      (\<exists>m0. look q (pm_id m) = Some m0 \<and> pm_status m0 = Queued \<and> same_text m0 m)
      \<and> look q' (pm_id m) = Some m \<and> pm_status m = Sending \<and> claimed_at q' (pm_id m) = Some now"
    and finish_ok: "ok q \<Longrightarrow> ok (op_finish ops i worker st er q)"
    and finish_others: "ok q \<Longrightarrow> k \<noteq> i \<Longrightarrow>
      undisturbed (look q k, claimed_at q k) (look (op_finish ops i worker st er q) k, claimed_at (op_finish ops i worker st er q) k)"
    and finish_sets: "ok q \<Longrightarrow> look q i = Some m \<Longrightarrow>
      (\<exists>n. look (op_finish ops i worker st er q) i = Some n \<and> same_text m n \<and> pm_status n \<in> {st, pm_status m})
      \<and> claimed_at (op_finish ops i worker st er q) i = claimed_at q i"
    and defer_ok: "ok q \<Longrightarrow> ok (op_defer ops i worker until q)"
    and defer_others: "ok q \<Longrightarrow> k \<noteq> i \<Longrightarrow>
      undisturbed (look q k, claimed_at q k) (look (op_defer ops i worker until q) k, claimed_at (op_defer ops i worker until q) k)"
    and attempts_count: "ok q \<Longrightarrow> finite S \<Longrightarrow> (\<forall>i \<in> S. counted rt sub since (look q i, claimed_at q i)) \<Longrightarrow> ex \<notin> S \<Longrightarrow>
      int (card S) \<le> op_attempts ops rt sub since (Some ex) q"
begin

definition keeps :: "'q \<Rightarrow> 'q \<Rightarrow> string \<Rightarrow> bool" where
  "keeps q q' k \<longleftrightarrow> undisturbed (look q k, claimed_at q k) (look q' k, claimed_at q' k)"

definition job_ok :: "'q \<Rightarrow> job \<Rightarrow> bool" where
  "job_ok q j \<longleftrightarrow> claimed_at q (job_id j) = Some (job_now j)
     \<and> (\<exists>m. look q (job_id j) = Some m \<and> pm_status m \<in> {Sending, Ambiguous} \<and> same_text m (job_message j))"

definition call_ok :: "'q \<Rightarrow> job list \<Rightarrow> call \<Rightarrow> bool" where
  "call_ok q js c \<longleftrightarrow> limited c \<or> claimed_at q (call_id c) = Some (call_now c)
     \<and> (\<exists>m. look q (call_id c) = Some m \<and> same_text m (call_message c) \<and> pm_status m \<noteq> Queued
          \<and> (reaching c \<longrightarrow> pm_status m \<in> set ATTEMPTED_STATUSES))
     \<and> (\<forall>j \<in> set js. job_id j = call_id c \<longrightarrow> (\<exists>ch. job_phase j = Settling ch (call_answer c)))"

definition attrs :: "'q \<Rightarrow> 'q \<Rightarrow> string \<Rightarrow> bool" where
  "attrs q q' k \<longleftrightarrow> claimed_at q' k = claimed_at q k \<and> (\<exists>m n. look q k = Some m \<and> look q' k = Some n \<and> same_text m n)"

definition spread :: "proactive_policy \<Rightarrow> 'q \<Rightarrow> string set \<Rightarrow> bool" where
  "spread p q D \<longleftrightarrow> (\<forall>S rt sub c W. S \<subseteq> D \<and> S \<noteq> {} \<and> limit_for p sub = Some (c, W)
     \<and> (\<forall>i \<in> S. \<exists>m. look q i = Some m \<and> in_group rt sub m)
     \<and> (\<forall>i \<in> S. \<forall>k \<in> S. the (claimed_at q i) - the (claimed_at q k) \<le> W) \<longrightarrow> int (card S) \<le> c)"

definition fleet_ok :: "dispatcher \<Rightarrow> 'q fleet \<Rightarrow> bool" where
  "fleet_ok d s \<longleftrightarrow> ok (fl_queue s) \<and> distinct (map job_id (fl_jobs s))
     \<and> (\<forall>j \<in> set (fl_jobs s). job_ok (fl_queue s) j)
     \<and> (\<forall>c \<in> set (fl_calls s). call_ok (fl_queue s) (fl_jobs s) c)
     \<and> distinct (map call_id (filter (\<lambda>c. \<not> limited c) (fl_calls s)))
     \<and> spread (dp_policy d) (fl_queue s) (committed s)"

lemma fleet_okD:
  assumes "fleet_ok d s"
  shows "ok (fl_queue s)" and "distinct (map job_id (fl_jobs s))" and "j \<in> set (fl_jobs s) \<Longrightarrow> job_ok (fl_queue s) j"
    and "c \<in> set (fl_calls s) \<Longrightarrow> call_ok (fl_queue s) (fl_jobs s) c"
    and "distinct (map call_id (filter (\<lambda>c. \<not> limited c) (fl_calls s)))"
    and "spread (dp_policy d) (fl_queue s) (committed s)"
  using assms by (simp_all add: fleet_ok_def)

lemma keeps_job: "job_ok q j \<Longrightarrow> keeps q q' (job_id j) \<Longrightarrow> job_ok q' j"
  by (auto simp: job_ok_def keeps_def undisturbed_def same_text_def split: option.splits)

lemma keeps_call:
  assumes "call_ok q js c" and "keeps q q' (call_id c) \<or> limited c"
    and "\<forall>j \<in> set js'. job_id j = call_id c \<longrightarrow> j \<in> set js"
  shows "call_ok q' js' c"
  using assms
  by (auto simp: call_ok_def keeps_def undisturbed_def same_text_def ATTEMPTED_STATUSES_def split: option.splits)

lemma keeps_attrs: "keeps q q' k \<Longrightarrow> look q k \<noteq> None \<Longrightarrow> attrs q q' k"
  by (auto simp: keeps_def undisturbed_def attrs_def split: option.splits)

lemma committed_known: "fleet_ok d s \<Longrightarrow> k \<in> committed s \<Longrightarrow> look (fl_queue s) k \<noteq> None"
  by (fastforce simp: fleet_ok_def committed_def job_ok_def call_ok_def reaching_not_limited)

lemma spread_attrs:
  assumes "spread p q D" and "D' \<subseteq> D" and "\<forall>k \<in> D'. attrs q q' k"
  shows "spread p q' D'"
  unfolding spread_def
proof (intro allI impI, elim conjE)
  fix S rt sub c W
  assume S: "S \<subseteq> D'" "S \<noteq> {}" and l: "limit_for p sub = Some (c, W)"
    and g: "\<forall>i \<in> S. \<exists>m. look q' i = Some m \<and> in_group rt sub m"
    and t: "\<forall>i \<in> S. \<forall>k \<in> S. the (claimed_at q' i) - the (claimed_at q' k) \<le> W"
  have a: "attrs q q' i" if "i \<in> S" for i using assms(3) S(1) that by blast
  have "\<forall>i \<in> S. \<exists>m. look q i = Some m \<and> in_group rt sub m"
    using g a by (fastforce simp: attrs_def same_text_def in_group_def)
  moreover have "\<forall>i \<in> S. \<forall>k \<in> S. the (claimed_at q i) - the (claimed_at q k) \<le> W"
    using t a by (simp add: attrs_def)
  moreover have "S \<subseteq> D" using S(1) assms(2) by blast
  ultimately show "int (card S) \<le> c" using assms(1) S(2) l unfolding spread_def by blast
qed

text \<open>An operation of the queue, and jobs that may have ended with it.\<close>

lemma change_ok:
  assumes inv: "fleet_ok d s" and q: "ok q'" and js: "distinct (map job_id js)" "set js \<subseteq> set (fl_jobs s)"
    and jk: "\<forall>j \<in> set js. keeps (fl_queue s) q' (job_id j)"
    and ck: "\<forall>c \<in> set (fl_calls s). call_ok q' js c"
    and at: "\<forall>k \<in> committed (s\<lparr>fl_queue := q', fl_jobs := js\<rparr>). attrs (fl_queue s) q' k"
  shows "fleet_ok d (s\<lparr>fl_queue := q', fl_jobs := js\<rparr>)"
proof -
  have sub: "committed (s\<lparr>fl_queue := q', fl_jobs := js\<rparr>) \<subseteq> committed s" using js(2) by (auto simp: committed_def)
  have "\<forall>j \<in> set js. job_ok q' j" using fleet_okD(3) [OF inv] js(2) jk by (blast intro: keeps_job)
  moreover have "spread (dp_policy d) q' (committed (s\<lparr>fl_queue := q', fl_jobs := js\<rparr>))"
    by (rule spread_attrs [OF fleet_okD(6) [OF inv] sub at])
  ultimately show ?thesis using q js(1) ck fleet_okD(5) [OF inv] by (simp add: fleet_ok_def)
qed

lemma quiet_ok:
  assumes inv: "fleet_ok d s" and q: "ok q'" and js: "distinct (map job_id js)" "set js \<subseteq> set (fl_jobs s)"
    and jk: "\<forall>j \<in> set js. keeps (fl_queue s) q' (job_id j)"
    and ck: "\<forall>c \<in> set (fl_calls s). \<not> limited c \<longrightarrow> keeps (fl_queue s) q' (call_id c)"
  shows "fleet_ok d (s\<lparr>fl_queue := q', fl_jobs := js\<rparr>)"
proof (rule change_ok [OF inv q js jk])
  have "call_ok q' js c" if "c \<in> set (fl_calls s)" for c
    by (rule keeps_call [OF fleet_okD(4) [OF inv that]]) (use ck that js(2) in blast)+
  then show "\<forall>c \<in> set (fl_calls s). call_ok q' js c" by blast
  have k: "k \<in> committed s \<and> keeps (fl_queue s) q' k"
    if "k \<in> committed (s\<lparr>fl_queue := q', fl_jobs := js\<rparr>)" for k
    using that js(2) jk ck reaching_not_limited by (auto simp: committed_def)
  show "\<forall>k \<in> committed (s\<lparr>fl_queue := q', fl_jobs := js\<rparr>). attrs (fl_queue s) q' k"
    using k committed_known [OF inv] by (blast intro: keeps_attrs)
qed

text \<open>A message that is queued or new has neither a job nor a call that may have reached the provider.\<close>

lemma free_message:
  assumes "fleet_ok d s" and "case look (fl_queue s) i of None \<Rightarrow> True | Some m \<Rightarrow> pm_status m = Queued"
  shows "j \<in> set (fl_jobs s) \<Longrightarrow> job_id j \<noteq> i"
    and "c \<in> set (fl_calls s) \<Longrightarrow> \<not> limited c \<Longrightarrow> call_id c \<noteq> i"
  using assms by (fastforce simp: fleet_ok_def job_ok_def call_ok_def split: option.splits)+

lemma without_jobs:
  "j \<in> set (fl_jobs s) \<Longrightarrow> fleet_ok d s \<Longrightarrow>
    distinct (map job_id (without j (fl_jobs s))) \<and> set (without j (fl_jobs s)) \<subseteq> set (fl_jobs s)
    \<and> (\<forall>k \<in> set (without j (fl_jobs s)). job_id k \<noteq> job_id j)
    \<and> (\<forall>k \<in> set (fl_jobs s). job_id k = job_id j \<longrightarrow> k = j)"
  by (auto simp: fleet_ok_def without_def distinct_map_filter distinct_map inj_on_def)

lemma no_call_yet:
  assumes "fleet_ok d s" and "j \<in> set (fl_jobs s)" and "\<forall>ch a. job_phase j \<noteq> Settling ch a \<or> (\<exists>t. a = RateLimited t)"
    and "c \<in> set (fl_calls s)" and "\<not> limited c"
  shows "call_id c \<noteq> job_id j"
  using assms by (fastforce simp: fleet_ok_def call_ok_def limited_def)

lemma queue_ok:
  assumes "fleet_ok d s" and "ok q'"
    and "\<forall>k. (\<forall>j \<in> set (fl_jobs s). job_id j \<noteq> k) \<and> (\<forall>c \<in> set (fl_calls s). limited c \<or> call_id c \<noteq> k) \<or> keeps (fl_queue s) q' k"
  shows "fleet_ok d (s\<lparr>fl_queue := q'\<rparr>)"
  using quiet_ok [OF assms(1,2) fleet_okD(2) [OF assms(1)] subset_refl] assms(3) by fastforce

lemma submit_ok: "fleet_ok d s \<Longrightarrow> look (fl_queue s) i = None \<Longrightarrow>
    fleet_ok d (s\<lparr>fl_queue := op_enqueue ops i rt sk txt actor avail (fl_queue s)\<rparr>)"
proof (rule queue_ok, assumption)
  assume a: "fleet_ok d s" "look (fl_queue s) i = None"
  show "ok (op_enqueue ops i rt sk txt actor avail (fl_queue s))"
    by (rule enqueue_ok [OF fleet_okD(1) [OF a(1)] a(2)])
  have "keeps (fl_queue s) (op_enqueue ops i rt sk txt actor avail (fl_queue s)) k" if "k \<noteq> i" for k
    unfolding keeps_def by (rule enqueue_others [OF fleet_okD(1) [OF a(1)] a(2) that])
  then show "\<forall>k. (\<forall>j \<in> set (fl_jobs s). job_id j \<noteq> k) \<and> (\<forall>c \<in> set (fl_calls s). limited c \<or> call_id c \<noteq> k)
      \<or> keeps (fl_queue s) (op_enqueue ops i rt sk txt actor avail (fl_queue s)) k"
    using free_message [OF a(1), of i] a(2) by fastforce
qed

lemma take_ok:
  assumes inv: "fleet_ok d s" and cl: "op_claim ops worker now lease (fl_queue s) = (Some m, q')"
  shows "fleet_ok d (s\<lparr>fl_queue := q', fl_jobs := \<lparr>job_worker = worker, job_message = m, job_now = now,
      job_phase = Planning\<rparr> # fl_jobs s\<rparr>)"
proof -
  note q = fleet_okD(1) [OF inv] note t = claim_takes [OF q cl]
  let ?j = "\<lparr>job_worker = worker, job_message = m, job_now = now, job_phase = Planning\<rparr>"
  have free: "case look (fl_queue s) (pm_id m) of None \<Rightarrow> True | Some m \<Rightarrow> pm_status m = Queued" using t by auto
  have "keeps (fl_queue s) q' k" if "k \<noteq> pm_id m" for k
    unfolding keeps_def by (rule claim_others [OF q cl]) (simp add: that)
  then have "fleet_ok d (s\<lparr>fl_queue := q'\<rparr>)"
    using free_message [OF inv free] by (intro queue_ok [OF inv claim_ok [OF q cl]]) blast
  note s1 = fleet_okD [OF this, simplified]
  have "job_ok q' ?j" using t by (auto simp: job_ok_def job_id_def same_text_def)
  moreover have i: "job_id ?j = pm_id m" by (simp add: job_id_def)
  have "pm_id m \<notin> job_id ` set (fl_jobs s)" using free_message(1) [OF inv free] by (metis imageE)
  then have "distinct (map job_id (?j # fl_jobs s))" using s1(2) by (simp add: i)
  moreover have "call_ok q' (?j # fl_jobs s) c" if "c \<in> set (fl_calls s)" for c
    using s1(4) [OF that] free_message(2) [OF inv free that] by (auto simp: call_ok_def job_id_def)
  moreover have "committed (s\<lparr>fl_queue := q', fl_jobs := ?j # fl_jobs s\<rparr>) = committed (s\<lparr>fl_queue := q'\<rparr>)"
    by (auto simp: committed_def)
  ultimately show ?thesis
    using s1(1,3,5,6) by (simp add: fleet_ok_def)
qed

lemma drop_ok:
  assumes inv: "fleet_ok d s" and j: "j \<in> set (fl_jobs s)" and q: "ok q'"
    and kept: "\<And>k. k \<noteq> job_id j \<Longrightarrow> keeps (fl_queue s) q' k"
    and calls: "\<And>c. c \<in> set (fl_calls s) \<Longrightarrow> \<not> limited c \<Longrightarrow> call_id c \<noteq> job_id j"
  shows "fleet_ok d (s\<lparr>fl_queue := q', fl_jobs := without j (fl_jobs s)\<rparr>)"
  by (rule quiet_ok [OF inv q]) (use without_jobs [OF j inv] kept calls in blast)+

lemma stop_ok:
  assumes "fleet_ok d s" and "j \<in> set (fl_jobs s)"
  shows "fleet_ok d (s\<lparr>fl_jobs := without j (fl_jobs s)\<rparr>)"
proof -
  have "keeps (fl_queue s) (fl_queue s) k" for k
    by (auto simp: keeps_def undisturbed_def same_text_def split: option.splits)
  then show ?thesis
    using quiet_ok [OF assms(1) fleet_okD(1) [OF assms(1)], of "without j (fl_jobs s)"] without_jobs [OF assms(2,1)]
    by simp
qed

lemma finish_keeps: "ok q \<Longrightarrow> k \<noteq> i \<Longrightarrow> keeps q (op_finish ops i worker st er q) k"
  unfolding keeps_def by (rule finish_others)

lemma defer_keeps: "ok q \<Longrightarrow> k \<noteq> i \<Longrightarrow> keeps q (op_defer ops i worker until q) k"
  unfolding keeps_def by (rule defer_others)

lemma refuse_ok:
  assumes inv: "fleet_ok d s" and j: "j \<in> set (fl_jobs s)" "job_phase j = Planning"
  shows "fleet_ok d (s\<lparr>fl_queue := op_finish ops (job_id j) worker st er (fl_queue s), fl_jobs := without j (fl_jobs s)\<rparr>)"
    and "fleet_ok d (s\<lparr>fl_queue := op_defer ops (job_id j) worker until (fl_queue s), fl_jobs := without j (fl_jobs s)\<rparr>)"
  using no_call_yet [OF inv j(1)] j(2)
  by (auto intro!: drop_ok [OF inv j(1)] finish_ok defer_ok fleet_okD(1) [OF inv] finish_keeps defer_keeps)

text \<open>The settling of a call.\<close>

definition settled_status :: "send_outcome \<Rightarrow> message_status \<Rightarrow> bool" where
  "settled_status a st \<longleftrightarrow> (case a of Accepted \<Rightarrow> st = Sent | Rejected \<Rightarrow> st = Failed | Unknown \<Rightarrow> st = Ambiguous | _ \<Rightarrow> False)"

lemma settle_ok:
  assumes inv: "fleet_ok d s" and j: "j \<in> set (fl_jobs s)" "job_phase j = Settling ch a" and st: "settled_status a st"
  shows "fleet_ok d (s\<lparr>fl_queue := op_finish ops (job_id j) worker st er (fl_queue s), fl_jobs := without j (fl_jobs s)\<rparr>)"
proof -
  let ?q = "fl_queue s" and ?q' = "op_finish ops (job_id j) worker st er (fl_queue s)"
  note q = fleet_okD(1) [OF inv] note wj = without_jobs [OF j(1) inv]
  obtain m where m: "look ?q (job_id j) = Some m" "same_text m (job_message j)" "pm_status m \<in> {Sending, Ambiguous}"
    and at: "claimed_at ?q (job_id j) = Some (job_now j)" using fleet_okD(3) [OF inv j(1)] by (auto simp: job_ok_def)
  note fin = finish_sets [OF q m(1), of worker st er]
  have ck: "call_ok ?q' (without j (fl_jobs s)) c" if c: "c \<in> set (fl_calls s)" for c
  proof (cases "limited c \<or> call_id c \<noteq> job_id j")
    case True
    then show ?thesis
      using keeps_call [OF fleet_okD(4) [OF inv c]] finish_keeps [OF q] wj by (metis subsetD)
  next
    case False
    then have i: "call_id c = job_id j" and c_ok: "claimed_at ?q (call_id c) = Some (call_now c)"
      "look ?q (call_id c) = Some m" "same_text m (call_message c)" "\<exists>ch'. job_phase j = Settling ch' (call_answer c)"
      using fleet_okD(4) [OF inv c] j(1) m(1) by (auto simp: call_ok_def)
    obtain n where n: "look ?q' (job_id j) = Some n" "same_text m n" "pm_status n \<in> {st, pm_status m}" using fin by blast
    have "call_answer c = a" using c_ok(4) j(2) by auto
    then have "pm_status n \<noteq> Queued \<and> (reaching c \<longrightarrow> pm_status n \<in> set ATTEMPTED_STATUSES)"
      using n(3) m(3) st by (auto simp: settled_status_def reaching_def ATTEMPTED_STATUSES_def split: send_outcome.splits)
    moreover have "same_text n (call_message c)" using c_ok(3) n(2) by (simp add: same_text_def)
    ultimately show ?thesis
      using c_ok(1) fin n(1) wj by (auto simp: call_ok_def i)
  qed
  have "attrs ?q ?q' k" if "k \<in> committed s" for k
    using committed_known [OF inv that] keeps_attrs [OF finish_keeps [OF q]] fin m
    by (cases "k = job_id j") (auto simp: attrs_def)
  moreover have "committed (s\<lparr>fl_queue := ?q', fl_jobs := without j (fl_jobs s)\<rparr>) \<subseteq> committed s"
    using wj by (auto simp: committed_def)
  ultimately show ?thesis
    using wj finish_keeps [OF q] ck by (intro change_ok [OF inv finish_ok [OF q]]) auto
qed

text \<open>Clearing a message for its call: the limits are looked up with all other attempts in the queue.\<close>

lemma plan_clears:
  assumes "plan ops d m now q = Go ch to"
  shows "\<not> used_up ops m now q (per_recipient (dp_policy d), Some (pm_subject m))"
    and "\<not> used_up ops m now q (per_runtime (dp_policy d), None)"
  using assms
  by (auto simp: plan_def guard_delivery_def split: sum.splits bool.splits option.splits if_splits prod.splits)

lemma committed_attempt:
  assumes "fleet_ok d s" and "k \<in> committed s"
  shows "\<exists>m t. look (fl_queue s) k = Some m \<and> claimed_at (fl_queue s) k = Some t \<and> pm_status m \<in> set ATTEMPTED_STATUSES"
proof -
  consider j where "j \<in> set (fl_jobs s)" "k = job_id j" | c where "c \<in> set (fl_calls s)" "k = call_id c" "reaching c"
    using assms(2) by (auto simp: committed_def)
  then show ?thesis
  proof cases
    case 1
    then show ?thesis using fleet_okD(3) [OF assms(1) 1(1)] by (auto simp: job_ok_def ATTEMPTED_STATUSES_def)
  next
    case 2
    then show ?thesis
      using fleet_okD(4) [OF assms(1) 2(1)] reaching_not_limited [OF 2(3)] by (auto simp: call_ok_def)
  qed
qed

lemma finite_committed: "finite (committed s)"
proof -
  have "committed s \<subseteq> job_id ` set (fl_jobs s) \<union> call_id ` set (fl_calls s)" by (auto simp: committed_def)
  then show ?thesis by (rule finite_subset) simp
qed

lemma spread_insert:
  assumes inv: "fleet_ok d s" and m: "look (fl_queue s) (pm_id m) = Some m0" "same_text m0 m"
    and at: "claimed_at (fl_queue s) (pm_id m) = Some now"
    and go: "plan ops d m now (fl_queue s) = Go ch to"
  shows "spread (dp_policy d) (fl_queue s) (insert (pm_id m) (committed s))"
  unfolding spread_def
proof (intro allI impI, elim conjE)
  fix S rt sub c W
  assume S: "S \<subseteq> insert (pm_id m) (committed s)" "S \<noteq> {}" and l: "limit_for (dp_policy d) sub = Some (c, W)"
    and g: "\<forall>i \<in> S. \<exists>n. look (fl_queue s) i = Some n \<and> in_group rt sub n"
    and t: "\<forall>i \<in> S. \<forall>k \<in> S. the (claimed_at (fl_queue s) i) - the (claimed_at (fl_queue s) k) \<le> W"
  show "int (card S) \<le> c"
  proof (cases "pm_id m \<in> S")
    case False
    then show ?thesis
      using fleet_okD(6) [OF inv] S l g t unfolding spread_def by (metis subset_insert)
  next
    case True
    have fin: "finite (S - {pm_id m})" using finite_subset [OF S(1)] finite_committed by auto
    have grp: "in_group rt sub m" using g True m by (fastforce simp: in_group_def same_text_def)
    have "counted rt sub (now - W) (look (fl_queue s) k, claimed_at (fl_queue s) k)" if k: "k \<in> S - {pm_id m}" for k
    proof -
      obtain n u where n: "look (fl_queue s) k = Some n" "claimed_at (fl_queue s) k = Some u"
        "pm_status n \<in> set ATTEMPTED_STATUSES"
        using committed_attempt [OF inv] S(1) k by blast
      moreover have "in_group rt sub n" using g k n(1) by force
      moreover have "now - u \<le> W" using t True k n(2) at by force
      ultimately show ?thesis by (auto simp: counted_def in_group_def)
    qed
    then have "int (card (S - {pm_id m})) \<le> op_attempts ops rt sub (now - W) (Some (pm_id m)) (fl_queue s)"
      using attempts_count [OF fleet_okD(1) [OF inv] fin] by blast
    moreover have "op_attempts ops rt sub (now - W) (Some (pm_id m)) (fl_queue s) < c"
      using plan_clears [OF go] l grp
      by (auto simp: limit_for_def in_group_def used_up_def split: option.splits)
    moreover have "card S = Suc (card (S - {pm_id m}))" using card_Suc_Diff1 [of S "pm_id m"] fin True by simp
    ultimately show ?thesis by linarith
  qed
qed

lemma clear_ok:
  assumes inv: "fleet_ok d s" and j: "j \<in> set (fl_jobs s)" "job_phase j = Planning"
    and go: "plan ops d (job_message j) (job_now j) (fl_queue s) = Go ch to"
  shows "fleet_ok d (s\<lparr>fl_jobs := j\<lparr>job_phase := Calling ch to\<rparr> # without j (fl_jobs s)\<rparr>)"
proof -
  let ?j = "j\<lparr>job_phase := Calling ch to\<rparr>"
  note wj = without_jobs [OF j(1) inv]
  obtain m where m: "look (fl_queue s) (job_id j) = Some m" "same_text m (job_message j)"
    and at: "claimed_at (fl_queue s) (job_id j) = Some (job_now j)"
    using fleet_okD(3) [OF inv j(1)] by (auto simp: job_ok_def)
  have i: "job_id ?j = job_id j" by (simp add: job_id_def)
  have "committed (s\<lparr>fl_jobs := ?j # without j (fl_jobs s)\<rparr>) \<subseteq> insert (job_id j) (committed s)"
    using wj by (auto simp: committed_def i)
  moreover have "spread (dp_policy d) (fl_queue s) (insert (job_id j) (committed s))"
    using spread_insert [OF inv _ m(2) _ go] m(1) at by (simp add: job_id_def)
  ultimately have "spread (dp_policy d) (fl_queue s) (committed (s\<lparr>fl_jobs := ?j # without j (fl_jobs s)\<rparr>))"
    unfolding spread_def by (meson subset_trans)
  moreover have "call_ok (fl_queue s) (?j # without j (fl_jobs s)) c" if "c \<in> set (fl_calls s)" for c
    using fleet_okD(4) [OF inv that] no_call_yet [OF inv j(1) _ that] j(2) wj by (auto simp: call_ok_def i)
  moreover have "distinct (map job_id (?j # without j (fl_jobs s)))"
    using wj by (auto simp: i)
  moreover have "job_ok (fl_queue s) ?j" using fleet_okD(3) [OF inv j(1)] by (simp add: job_ok_def i)
  ultimately show ?thesis
    using fleet_okD(1,3,5) [OF inv] wj by (auto simp: fleet_ok_def)
qed

lemma call_step_ok:
  assumes inv: "fleet_ok d s" and j: "j \<in> set (fl_jobs s)" "job_phase j = Calling ch to"
  shows "fleet_ok d (s\<lparr>fl_jobs := j\<lparr>job_phase := Settling ch answer\<rparr> # without j (fl_jobs s),
      fl_calls := fl_calls s @ [\<lparr>call_message = job_message j, call_now = job_now j, call_to = (ch, to),
        call_answer = answer\<rparr>]\<rparr>)"
proof -
  let ?j = "j\<lparr>job_phase := Settling ch answer\<rparr>" let ?js = "?j # without j (fl_jobs s)"
  let ?c = "\<lparr>call_message = job_message j, call_now = job_now j, call_to = (ch, to), call_answer = answer\<rparr>"
  note wj = without_jobs [OF j(1) inv]
  have i: "job_id ?j = job_id j" "call_id ?c = job_id j" by (simp_all add: job_id_def call_id_def)
  have new: "call_id c \<noteq> job_id j" if "c \<in> set (fl_calls s)" "\<not> limited c" for c
    using no_call_yet [OF inv j(1) _ that] j(2) by simp
  note jk = fleet_okD(3) [OF inv j(1)]
  have "call_ok (fl_queue s) ?js c" if "c \<in> set (fl_calls s)" for c
    using fleet_okD(4) [OF inv that] new [OF that] wj by (auto simp: call_ok_def i)
  moreover have "call_ok (fl_queue s) ?js ?c"
    using jk wj by (auto simp: call_ok_def job_ok_def i ATTEMPTED_STATUSES_def)
  moreover have "committed (s\<lparr>fl_jobs := ?js, fl_calls := fl_calls s @ [?c]\<rparr>) \<subseteq> committed s"
    using wj j by (auto simp: committed_def i)
  then have "spread (dp_policy d) (fl_queue s) (committed (s\<lparr>fl_jobs := ?js, fl_calls := fl_calls s @ [?c]\<rparr>))"
    using fleet_okD(6) [OF inv] unfolding spread_def by (meson subset_trans)
  moreover have "distinct (map call_id (filter (\<lambda>c. \<not> limited c) (fl_calls s @ [?c])))"
    using fleet_okD(5) [OF inv] new by (simp add: i) (metis (no_types, lifting) imageE mem_Collect_eq)
  moreover have "distinct (map job_id ?js)" using wj by (auto simp: i)
  moreover have "job_ok (fl_queue s) ?j" using jk by (simp add: job_ok_def i)
  ultimately show ?thesis
    using fleet_okD(1,3) [OF inv] wj by (auto simp: fleet_ok_def)
qed

lemma step_ok: "fleet_step ops look d s s' \<Longrightarrow> fleet_ok d s \<Longrightarrow> fleet_ok d s'"
proof (induction rule: fleet_step.induct)
  case (Submit s i rt sk body actor avail)
  then show ?case by (intro submit_ok)
next
  case (Expire now s ms q')
  note q = fleet_okD(1) [OF Expire.prems]
  show ?case
    by (rule queue_ok [OF Expire.prems expire_ok [OF q Expire.hyps]]) (simp add: keeps_def expire_all [OF q Expire.hyps])
next
  case (ClaimNone worker now s q')
  note q = fleet_okD(1) [OF ClaimNone.prems]
  have "keeps (fl_queue s) q' k" for k unfolding keeps_def by (rule claim_others [OF q ClaimNone.hyps]) simp
  then show ?case by (intro queue_ok [OF ClaimNone.prems claim_ok [OF q ClaimNone.hyps]]) blast
next
  case (Claim worker now s m q')
  then show ?case by (intro take_ok)
next
  case (Refused j s reason ch out q' evs)
  then show ?case using refuse_ok(1) [OF Refused.prems] by (auto simp: close_message_def job_id_def)
next
  case (Held j s until why chan out q' evs)
  then show ?case using refuse_ok(2) [OF Held.prems] by (auto simp: hold_back_def job_id_def)
next
  case (Cleared j s chan to)
  then show ?case by (intro clear_ok)
next
  case (Called j s chan to answer)
  then show ?case by (intro call_step_ok)
next
  case (Settled j s chan answer out q' evs)
  note q = fleet_okD(1) [OF Settled.prems]
  show ?case
  proof (cases answer)
    case (RateLimited t)
    then have "fleet_ok d (s\<lparr>fl_queue := op_defer ops (job_id j) (job_worker j) (job_now j + t) (fl_queue s),
        fl_jobs := without j (fl_jobs s)\<rparr>)"
      using no_call_yet [OF Settled.prems Settled.hyps(1)] Settled.hyps(2)
      by (intro drop_ok [OF Settled.prems Settled.hyps(1)] defer_ok q defer_keeps) auto
    then show ?thesis using Settled.hyps(3) RateLimited by (auto simp: settle_def job_id_def)
  qed (use settle_ok [OF Settled.prems Settled.hyps(1,2)] Settled.hyps(3) in
      \<open>auto simp: settle_def close_message_def settled_status_def job_id_def\<close>)
next
  case (Stopped j s)
  then show ?case by (intro stop_ok)
qed

lemma steps_ok: "fleet_steps ops look d s s' \<Longrightarrow> fleet_ok d s \<Longrightarrow> fleet_ok d s'"
  by (induction rule: rtranclp_induct) (auto intro: step_ok)

lemma once:
  assumes "fleet_ok d s"
  shows "length (filter (\<lambda>c. call_id c = i \<and> \<not> limited c) (fl_calls s)) \<le> 1"
proof -
  have "distinct (map call_id cs) \<Longrightarrow> length (filter (\<lambda>c. call_id c = i) cs) \<le> 1" for cs
    by (induction cs) (auto simp: filter_empty_conv image_iff)
  from this [OF fleet_okD(5) [OF assms]] show ?thesis by (simp add: filter_filter conj_commute)
qed

lemma rate:
  assumes "fleet_ok d s" and "limit_for (dp_policy d) sub = Some (n, W)"
    and X: "X \<subseteq> set (filter reaching (fl_calls s))" "X \<noteq> {}"
    and g: "\<forall>c \<in> X. in_group rt sub (call_message c)"
    and t: "\<forall>a \<in> X. \<forall>b \<in> X. call_now a - call_now b \<le> W"
  shows "int (card X) \<le> n"
proof -
  have c: "\<exists>m. look (fl_queue s) (call_id c) = Some m \<and> same_text m (call_message c)
      \<and> claimed_at (fl_queue s) (call_id c) = Some (call_now c)" if "c \<in> X" for c
    using fleet_okD(4) [OF assms(1), of c] X(1) that reaching_not_limited by (fastforce simp: call_ok_def)
  have inj: "inj_on call_id X"
  proof (rule inj_on_subset)
    show "inj_on call_id (set (filter (\<lambda>c. \<not> limited c) (fl_calls s)))"
      using fleet_okD(5) [OF assms(1)] by (simp add: distinct_map)
    show "X \<subseteq> set (filter (\<lambda>c. \<not> limited c) (fl_calls s))" using X(1) reaching_not_limited by auto
  qed
  have "\<forall>i \<in> call_id ` X. \<exists>m. look (fl_queue s) i = Some m \<and> in_group rt sub m"
    using c g by (fastforce simp: in_group_def same_text_def)
  moreover have "\<forall>i \<in> call_id ` X. \<forall>k \<in> call_id ` X. the (claimed_at (fl_queue s) i) - the (claimed_at (fl_queue s) k) \<le> W"
  proof (intro ballI, elim imageE)
    fix i k a b assume "a \<in> X" "b \<in> X" "i = call_id a" "k = call_id b"
    then show "the (claimed_at (fl_queue s) i) - the (claimed_at (fl_queue s) k) \<le> W"
      using c [of a] c [of b] t by auto
  qed
  moreover have "call_id ` X \<subseteq> committed s" using X(1) by (auto simp: committed_def)
  ultimately have "int (card (call_id ` X)) \<le> n"
    using fleet_okD(6) [OF assms(1)] assms(2) X(2) unfolding spread_def by blast
  then show ?thesis by (simp add: card_image [OF inj])
qed

text \<open>One run of the dispatcher is a sequence of steps that ends with no job of its own.\<close>

lemma dispatch_steps:
  assumes j: "j = \<lparr>job_worker = w, job_message = m, job_now = now, job_phase = Planning\<rparr>"
    and s: "fl_jobs s = j # js" and fresh: "\<forall>k \<in> set js. job_id k \<noteq> pm_id m"
    and run: "dispatch ops d send w m now (fl_queue s) = (out, q', evs)"
  shows "\<exists>s'. fleet_steps ops look d s s' \<and> fl_queue s' = q' \<and> fl_jobs s' = js
    \<and> calls_made (fl_calls s') = calls_made (fl_calls s) @ provider_calls evs"
proof -
  let ?step = "fleet_step ops look d"
  have jin: "j \<in> set (fl_jobs s)" and ph: "job_phase j = Planning" and i: "job_id j = pm_id m" by (simp_all add: s j job_id_def)
  have wo: "without k (l # js) = js" if "job_id k = pm_id m" "job_id l = pm_id m" for k l
    using fresh that by (auto simp: without_def)
  have wj: "without j (fl_jobs s) = js" unfolding s by (rule wo [OF i i])
  note pl = run [unfolded dispatch_def]
  show ?thesis
  proof (cases "plan ops d m now (fl_queue s)")
    case (Broke e)
    then have "q' = fl_queue s" "evs = []" using pl by auto
    then show ?thesis
      using fleet_step.Stopped [OF jin, of ops look d] by (intro exI [of _ "s\<lparr>fl_jobs := js\<rparr>"]) (auto simp: wj provider_calls_def)
  next
    case (Refuse reason ch)
    then obtain o1 where c: "close_message ops w m Failed (Some reason) ch (fl_queue s) = (o1, q', evs)"
      using pl by (auto split: prod.splits)
    then have "?step s (s\<lparr>fl_queue := q', fl_jobs := js\<rparr>)"
      using fleet_step.Refused [OF jin ph, of ops d reason ch o1 q' evs look] Refuse wj by (simp add: j)
    moreover have "provider_calls evs = []" using c by (auto simp: close_message_def audited_delivery_def provider_calls_def)
    ultimately show ?thesis by (intro exI [of _ "s\<lparr>fl_queue := q', fl_jobs := js\<rparr>"]) auto
  next
    case (Hold until why ch)
    then obtain o1 where c: "hold_back ops w m until why ch (fl_queue s) = (o1, q', evs)"
      using pl by (auto split: prod.splits)
    then have "?step s (s\<lparr>fl_queue := q', fl_jobs := js\<rparr>)"
      using fleet_step.Held [OF jin ph, of ops d until why ch o1 q' evs look] Hold wj by (simp add: j)
    moreover have "provider_calls evs = []" using c by (auto simp: hold_back_def audited_delivery_def provider_calls_def)
    ultimately show ?thesis by (intro exI [of _ "s\<lparr>fl_queue := q', fl_jobs := js\<rparr>"]) auto
  next
    case (Go ch to)
    let ?a = "send ch to (pm_text m)"
    obtain o1 evs1 where c: "settle ops w m now ch ?a (fl_queue s) = (o1, q', evs1)"
      and e: "evs = ProviderCall (pm_id m) ch to (pm_text m) ?a # evs1"
      using pl Go by (auto simp: Let_def split: prod.splits)
    let ?j1 = "j\<lparr>job_phase := Calling ch to\<rparr>" and ?j2 = "j\<lparr>job_phase := Settling ch ?a\<rparr>"
    let ?c = "\<lparr>call_message = m, call_now = now, call_to = (ch, to), call_answer = ?a\<rparr>"
    let ?s1 = "s\<lparr>fl_jobs := ?j1 # js\<rparr>" and ?s2 = "s\<lparr>fl_jobs := ?j2 # js, fl_calls := fl_calls s @ [?c]\<rparr>"
    have ids: "job_id ?j1 = pm_id m" "job_id ?j2 = pm_id m" by (simp_all add: j job_id_def)
    have 1: "?step s ?s1"
      using fleet_step.Cleared [OF jin ph, of ops d ch to look] Go wj by (simp add: j)
    have 2: "?step ?s1 ?s2"
      using fleet_step.Called [of ?j1 ?s1 ch to ops look d ?a] wo [OF ids(1) ids(1)] by (simp add: j)
    have 3: "?step ?s2 (?s2\<lparr>fl_queue := q', fl_jobs := js\<rparr>)"
      using fleet_step.Settled [of ?j2 ?s2 ch ?a ops o1 q' evs1 look d] c wo [OF ids(2) ids(2)] by (simp add: j)
    have "provider_calls evs1 = []"
      using c by (auto simp: settle_def close_message_def audited_delivery_def provider_calls_def split: send_outcome.splits)
    then have "calls_made (fl_calls s @ [?c]) = calls_made (fl_calls s) @ provider_calls evs"
      by (simp add: e calls_made_def provider_calls_def call_id_def)
    moreover have "fleet_steps ops look d s (?s2\<lparr>fl_queue := q', fl_jobs := js\<rparr>)"
      using 1 2 3 by (meson converse_rtranclp_into_rtranclp rtranclp.rtrancl_refl)
    ultimately show ?thesis by (intro exI [of _ "?s2\<lparr>fl_queue := q', fl_jobs := js\<rparr>"]) simp
  qed
qed

lemma run_steps:
  assumes inv: "fleet_ok d s" and run: "run_once ops d send w now (fl_queue s) = (out, q', evs)"
  shows "\<exists>s'. fleet_steps ops look d s s' \<and> fl_queue s' = q' \<and> fl_jobs s' = fl_jobs s
    \<and> calls_made (fl_calls s') = calls_made (fl_calls s) @ provider_calls evs"
proof -
  obtain lapsed q1 where e: "op_expire ops now (fl_queue s) = (lapsed, q1)" by fastforce
  let ?s1 = "s\<lparr>fl_queue := q1\<rparr>" let ?evs = "map (\<lambda>m. audited_delivery ''ambiguous'' m None (Some ''lease_expired'')) lapsed"
  have 1: "fleet_step ops look d s ?s1" by (rule fleet_step.Expire [OF e])
  have quiet: "provider_calls ?evs = []" by (simp add: provider_calls_def audited_delivery_def map_filter_def)
  obtain r q2 where c: "op_claim ops w now (dp_lease d) q1 = (r, q2)" by fastforce
  show ?thesis
  proof (cases r)
    case None
    then have "fleet_step ops look d ?s1 (?s1\<lparr>fl_queue := q2\<rparr>)" using c by (intro fleet_step.ClaimNone [of ops w now]) simp
    moreover have "q' = q2" "evs = ?evs" using run e c None by (simp_all add: run_once_def Let_def)
    ultimately show ?thesis
      using 1 quiet by (intro exI [of _ "?s1\<lparr>fl_queue := q2\<rparr>"]) (auto intro: rtranclp_trans)
  next
    case (Some m)
    let ?j = "\<lparr>job_worker = w, job_message = m, job_now = now, job_phase = Planning\<rparr>"
    let ?s2 = "?s1\<lparr>fl_queue := q2, fl_jobs := ?j # fl_jobs s\<rparr>"
    have 2: "fleet_step ops look d ?s1 ?s2"
      using fleet_step.Claim [of ops w now d ?s1 m q2 look] c Some by simp
    have inv1: "fleet_ok d ?s1" by (rule step_ok [OF 1 inv])
    have "case look q1 (pm_id m) of None \<Rightarrow> True | Some n \<Rightarrow> pm_status n = Queued"
      using claim_takes [OF fleet_okD(1) [OF inv1, simplified] c [unfolded Some]] by auto
    then have fresh: "\<forall>k \<in> set (fl_jobs s). job_id k \<noteq> pm_id m"
      using free_message(1) [OF inv1, of "pm_id m"] by simp
    obtain o1 evs1 where dis: "dispatch ops d send w m now q2 = (o1, q', evs1)" and ev: "evs = ?evs @ evs1"
      using run e c Some by (auto simp: run_once_def Let_def split: prod.splits)
    obtain s' where s': "fleet_steps ops look d ?s2 s'" "fl_queue s' = q'" "fl_jobs s' = fl_jobs s"
      "calls_made (fl_calls s') = calls_made (fl_calls s) @ provider_calls evs1"
      using dispatch_steps [of ?j w m now ?s2 "fl_jobs s" d send o1 q' evs1] fresh dis by auto
    have "provider_calls evs = provider_calls evs1" using quiet by (simp add: ev provider_calls_append)
    moreover have "fleet_steps ops look d s s'" using 1 2 s'(1) by (meson converse_rtranclp_into_rtranclp)
    ultimately show ?thesis using s'(2-4) by metis
  qed
qed

end

subsection \<open>The in-memory queue keeps the promises\<close>

definition queue_ok :: "memory_queue \<Rightarrow> bool" where
  "queue_ok q \<longleftrightarrow> distinct (map pm_id (messages q))"

definition look_message :: "memory_queue \<Rightarrow> string \<Rightarrow> proactive_message option" where
  "look_message q i = List.find (\<lambda>m. pm_id m = i) (messages q)"

definition claim_time :: "memory_queue \<Rightarrow> string \<Rightarrow> rat option" where
  "claim_time q i = map_of (times q) i"

lemma find_map_same:
  assumes "\<And>x. g (f x) = g x"
  shows "List.find (\<lambda>x. g x = i) (map f xs) = map_option f (List.find (\<lambda>x. g x = i) xs)"
  by (induction xs) (simp_all add: assms)

lemma look_id: "look_message q k = Some m \<Longrightarrow> pm_id m = k"
  by (auto simp: look_message_def find_Some_iff)

lemma find_distinct: "distinct (map g xs) \<Longrightarrow> List.find (\<lambda>x. g x = i) xs = Some x \<longleftrightarrow> x \<in> set xs \<and> g x = i"
  by (induction xs) (auto intro: rev_image_eqI)

lemma look_replace:
  assumes "\<And>m. pm_id (f m) = pm_id m"
  shows "look_message (replace_message i f q) k = (if k = i then map_option f (look_message q k) else look_message q k)"
proof -
  have "look_message (replace_message i f q) k = map_option (\<lambda>m. if pm_id m = i then f m else m) (look_message q k)"
    unfolding look_message_def replace_message_def by (simp add: find_map_same assms)
  then show ?thesis by (cases "look_message q k") (auto dest: look_id)
qed

lemma replace_times [simp]: "times (replace_message i f q) = times q"
  by (simp add: replace_message_def)

lemma replace_ids: "(\<And>m. pm_id (f m) = pm_id m) \<Longrightarrow> map pm_id (messages (replace_message i f q)) = map pm_id (messages q)"
  by (simp add: replace_message_def)

lemma replace_ok: "(\<And>m. pm_id (f m) = pm_id m) \<Longrightarrow> queue_ok (replace_message i f q) = queue_ok q"
  by (simp add: queue_ok_def replace_ids)

lemma look_Some: "queue_ok q \<Longrightarrow> look_message q i = Some m \<longleftrightarrow> m \<in> set (messages q) \<and> pm_id m = i"
  unfolding look_message_def queue_ok_def by (rule find_distinct)

lemma lapse_simps [simp]: "pm_id (lapse m) = pm_id m" "lapse (lapse m) = lapse m"
  by (simp_all add: lapse_def)

lemma lapse_each:
  "look_message (foldl (\<lambda>q m. replace_message (pm_id m) lapse q) q es) k
     = (if k \<in> pm_id ` set es then map_option lapse (look_message q k) else look_message q k)"
  by (induction es arbitrary: q) (auto simp: look_replace option.map_comp comp_def)

lemma lapse_rest:
  "times (foldl (\<lambda>q m. replace_message (pm_id m) lapse q) q es) = times q
   \<and> queue_ok (foldl (\<lambda>q m. replace_message (pm_id m) lapse q) q es) = queue_ok q"
  by (induction es arbitrary: q) (simp_all add: replace_ok)

lemma undisturbed_refl [simp]: "undisturbed x x"
  by (auto simp: undisturbed_def same_text_def split: option.splits)

lemma expire_undisturbed:
  assumes "queue_ok q" and "expire_leases now q = (ms, q')"
  shows "queue_ok q'" and "undisturbed (look_message q k, claim_time q k) (look_message q' k, claim_time q' k)"
proof -
  let ?es = "filter (lease_lapsed now) (messages q)"
  have q': "q' = foldl (\<lambda>q m. replace_message (pm_id m) lapse q) q ?es" using assms(2) by (simp add: expire_leases_def Let_def)
  show "queue_ok q'" using assms(1) lapse_rest [of q ?es] by (simp add: q')
  have ct: "claim_time q' k = claim_time q k" using lapse_rest [of q ?es] by (simp add: q' claim_time_def)
  show "undisturbed (look_message q k, claim_time q k) (look_message q' k, claim_time q' k)"
  proof (cases "k \<in> pm_id ` set ?es")
    case True
    then obtain m where m: "m \<in> set (messages q)" "lease_lapsed now m" "pm_id m = k" by auto
    then have "look_message q k = Some m" using look_Some [OF assms(1)] by simp
    moreover from this have "look_message q' k = Some (lapse m)" using True by (simp add: q' lapse_each)
    ultimately show ?thesis using m(2) ct by (simp add: undisturbed_def same_text_def lease_lapsed_def lapse_def)
  next
    case False
    then show ?thesis using ct by (simp add: q' lapse_each)
  qed
qed

lemma first_min_in: "first_min f x ys \<in> insert x (set ys)"
  by (induction ys arbitrary: x) auto

lemma claim_cases:
  assumes "claim w now lease q = (r, q')"
  obtains "r = None" "q' = snd (expire_leases now q)"
  | m where "m \<in> set (messages (snd (expire_leases now q)))" "pm_status m = Queued"
      "q' = replace_message (pm_id m) (\<lambda>m. m\<lparr>pm_status := Sending, pm_owner := Some w, pm_lease := Some (now + lease)\<rparr>)
          (snd (expire_leases now q)) \<lparr>times := dset (times (snd (expire_leases now q))) (pm_id m) now\<rparr>"
      "r = look_message q' (pm_id m)"
proof -
  let ?q = "snd (expire_leases now q)"
  let ?due = "filter (\<lambda>m. pm_status m = Queued \<and> available_from now m \<le> now) (messages ?q)"
  show thesis
  proof (cases ?due)
    case Nil
    then show ?thesis using assms that(1) by (simp add: claim_def Let_def)
  next
    case (Cons x xs)
    let ?m = "first_min (available_from now) x xs"
    have m: "?m \<in> set ?due" using first_min_in [of "available_from now" x xs] unfolding Cons by simp
    have "r = look_message q' (pm_id ?m)"
      and "q' = replace_message (pm_id ?m) (\<lambda>m. m\<lparr>pm_status := Sending, pm_owner := Some w, pm_lease := Some (now + lease)\<rparr>)
          ?q \<lparr>times := dset (times ?q) (pm_id ?m) now\<rparr>"
      using assms Cons by (auto simp: claim_def Let_def look_message_def replace_message_def)
    with m show ?thesis by (intro that(2) [of ?m]) simp_all
  qed
qed

lemma look_times [simp]: "look_message (q\<lparr>times := t\<rparr>) = look_message q"
  by (simp add: look_message_def fun_eq_iff)

lemma queue_ok_times [simp]: "queue_ok (q\<lparr>times := t\<rparr>) = queue_ok q"
  by (simp add: queue_ok_def)

lemma claim_laws:
  assumes q: "queue_ok q" and cl: "claim w now lease q = (r, q')"
  shows "queue_ok q'"
    and "(case r of None \<Rightarrow> True | Some m \<Rightarrow> k \<noteq> pm_id m) \<Longrightarrow>
      undisturbed (look_message q k, claim_time q k) (look_message q' k, claim_time q' k)"
    and "r = Some m \<Longrightarrow> (\<exists>m0. look_message q (pm_id m) = Some m0 \<and> pm_status m0 = Queued \<and> same_text m0 m)
      \<and> look_message q' (pm_id m) = Some m \<and> pm_status m = Sending \<and> claim_time q' (pm_id m) = Some now"
proof -
  let ?q = "snd (expire_leases now q)"
  have e: "queue_ok ?q" "undisturbed (look_message q i, claim_time q i) (look_message ?q i, claim_time ?q i)" for i
    using expire_undisturbed [OF q, of now "fst (expire_leases now q)" ?q] by auto
  consider "r = None" "q' = ?q"
    | m1 where "look_message ?q (pm_id m1) = Some m1" "pm_status m1 = Queued"
        "r = Some (m1\<lparr>pm_status := Sending, pm_owner := Some w, pm_lease := Some (now + lease)\<rparr>)"
        "\<And>i. look_message q' i = (if i = pm_id m1 then r else look_message ?q i)"
        "\<And>i. claim_time q' i = (if i = pm_id m1 then Some now else claim_time ?q i)" "queue_ok q'"
    using cl
  proof (cases rule: claim_cases)
    case (2 m1)
    have l: "look_message ?q (pm_id m1) = Some m1" using 2(1) by (simp add: look_Some [OF e(1)])
    show ?thesis
      using 2 l e(1) by (intro that(2) [OF l]) (auto simp: look_replace replace_ok claim_time_def)
  qed (use that in blast)
  note c = this
  show "queue_ok q'" using c by cases (simp_all add: e(1))
  show "undisturbed (look_message q k, claim_time q k) (look_message q' k, claim_time q' k)"
    if "case r of None \<Rightarrow> True | Some m \<Rightarrow> k \<noteq> pm_id m"
    using c that by cases (use e(2) [of k] in simp_all)
  show "(\<exists>m0. look_message q (pm_id m) = Some m0 \<and> pm_status m0 = Queued \<and> same_text m0 m)
      \<and> look_message q' (pm_id m) = Some m \<and> pm_status m = Sending \<and> claim_time q' (pm_id m) = Some now" if "r = Some m"
    using c
  proof cases
    case (2 m1)
    then have m: "pm_id m = pm_id m1" "pm_status m = Sending" "same_text m1 m" using that by (auto simp: same_text_def)
    moreover obtain m0 where "look_message q (pm_id m1) = Some m0" "same_text m0 m1" "pm_status m0 = Queued"
      using e(2) [of "pm_id m1"] 2(1,2) by (auto simp: undisturbed_def split: option.splits)
    ultimately show ?thesis using 2(4,5) that by (auto simp: same_text_def)
  qed (use that in simp)
qed

lemma find_snoc: "List.find P (xs @ [x]) = (case List.find P xs of None \<Rightarrow> if P x then Some x else None | Some y \<Rightarrow> Some y)"
  by (induction xs) auto

lemma enqueue_laws:
  assumes "queue_ok q" and "look_message q i = None"
  shows "queue_ok (enqueue i rt sk body actor avail q)"
    and "k \<noteq> i \<Longrightarrow> look_message (enqueue i rt sk body actor avail q) k = look_message q k"
    and "claim_time (enqueue i rt sk body actor avail q) k = claim_time q k"
proof -
  have "\<forall>m \<in> set (messages q). pm_id m \<noteq> i" using assms(2) by (auto simp: look_message_def find_None_iff)
  then show "queue_ok (enqueue i rt sk body actor avail q)" using assms(1) by (auto simp: queue_ok_def enqueue_def)
  show "look_message (enqueue i rt sk body actor avail q) k = look_message q k" if "k \<noteq> i"
    using that by (cases "look_message q k") (simp_all add: look_message_def enqueue_def find_snoc)
qed (simp add: enqueue_def claim_time_def)

lemma finish_laws:
  "queue_ok (finish i w st er q) = queue_ok q"
  "look_message (finish i w st er q) k =
     (if k = i then map_option (\<lambda>m. m\<lparr>pm_status := st, pm_error := er, pm_owner := None, pm_lease := None\<rparr>) (look_message q k)
      else look_message q k)"
  "claim_time (finish i w st er q) k = claim_time q k"
  by (simp_all add: finish_def replace_ok look_replace claim_time_def)

lemma defer_laws:
  "queue_ok (defer_message i w until q) = queue_ok q"
  "k \<noteq> i \<Longrightarrow> look_message (defer_message i w until q) k = look_message q k"
  "k \<noteq> i \<Longrightarrow> claim_time (defer_message i w until q) k = claim_time q k"
  by (simp_all add: defer_message_def Let_def replace_ok look_replace claim_time_def)

lemma attempts_bound:
  assumes q: "queue_ok q" and "finite S" and S: "\<forall>i \<in> S. counted rt sub since (look_message q i, claim_time q i)" and ex: "ex \<notin> S"
  shows "int (card S) \<le> attempts_since rt sub since (Some ex) q"
proof -
  define P where "P m \<longleftrightarrow> pm_runtime m = rt \<and> (sub = None \<or> sub = Some (pm_subject m)) \<and> pm_status m \<in> set ATTEMPTED_STATUSES
    \<and> Some ex \<noteq> Some (pm_id m) \<and> since \<le> (case map_of (times q) (pm_id m) of Some t \<Rightarrow> t | None \<Rightarrow> since)"
    for m :: proactive_message
  have "S \<subseteq> pm_id ` set (filter P (messages q))"
  proof
    fix i assume i: "i \<in> S"
    then obtain m t where m: "look_message q i = Some m" "claim_time q i = Some t" "pm_runtime m = rt"
        "sub = None \<or> sub = Some (pm_subject m)" "pm_status m \<in> set ATTEMPTED_STATUSES" "since \<le> t"
      using S by (auto simp: counted_def)
    moreover have "m \<in> set (messages q)" "pm_id m = i" using m(1) look_Some [OF q] by blast+
    moreover have "i \<noteq> ex" using i ex by blast
    ultimately show "i \<in> pm_id ` set (filter P (messages q))" by (auto simp: P_def claim_time_def)
  qed
  then have "card S \<le> card (pm_id ` set (filter P (messages q)))" by (intro card_mono) simp_all
  also have "\<dots> \<le> length (filter P (messages q))" by (meson card_image_le card_length finite_set le_trans)
  finally show ?thesis by (simp add: attempts_since_def P_def [abs_def])
qed

interpretation memory_q: delivery_queue memory_ops queue_ok look_message claim_time
proof
  fix q q' :: memory_queue and i k rt body actor worker ex :: string and m r ms sk and avail now lease until since :: rat
    and st :: message_status and er and S :: "string set"
  assume q: "queue_ok q"
  show "look_message q i = Some m \<Longrightarrow> pm_id m = i" by (rule look_id)
  show "look_message q i = None \<Longrightarrow> queue_ok (op_enqueue memory_ops i rt sk body actor avail q)"
    by (simp add: memory_ops_def enqueue_laws [OF q])
  show "look_message q i = None \<Longrightarrow> k \<noteq> i \<Longrightarrow>
      undisturbed (look_message q k, claim_time q k) (look_message (op_enqueue memory_ops i rt sk body actor avail q) k,
        claim_time (op_enqueue memory_ops i rt sk body actor avail q) k)"
    by (simp add: memory_ops_def enqueue_laws [OF q])
  show "op_expire memory_ops now q = (ms, q') \<Longrightarrow> queue_ok q'"
    using expire_undisturbed(1) [OF q] by (simp add: memory_ops_def)
  show "op_expire memory_ops now q = (ms, q') \<Longrightarrow>
      undisturbed (look_message q k, claim_time q k) (look_message q' k, claim_time q' k)"
    using expire_undisturbed(2) [OF q] by (simp add: memory_ops_def)
  show "op_claim memory_ops worker now lease q = (r, q') \<Longrightarrow> queue_ok q'"
    using claim_laws(1) [OF q] by (simp add: memory_ops_def)
  show "op_claim memory_ops worker now lease q = (r, q') \<Longrightarrow> (case r of None \<Rightarrow> True | Some m \<Rightarrow> k \<noteq> pm_id m) \<Longrightarrow>
      undisturbed (look_message q k, claim_time q k) (look_message q' k, claim_time q' k)"
    using claim_laws(2) [OF q] by (simp add: memory_ops_def)
  show "op_claim memory_ops worker now lease q = (Some m, q') \<Longrightarrow>
      (\<exists>m0. look_message q (pm_id m) = Some m0 \<and> pm_status m0 = Queued \<and> same_text m0 m)
      \<and> look_message q' (pm_id m) = Some m \<and> pm_status m = Sending \<and> claim_time q' (pm_id m) = Some now"
    using claim_laws(3) [OF q _ refl] by (simp add: memory_ops_def)
  show "queue_ok (op_finish memory_ops i worker st er q)" using q by (simp add: memory_ops_def finish_laws)
  show "k \<noteq> i \<Longrightarrow> undisturbed (look_message q k, claim_time q k)
      (look_message (op_finish memory_ops i worker st er q) k, claim_time (op_finish memory_ops i worker st er q) k)"
    by (simp add: memory_ops_def finish_laws)
  show "look_message q i = Some m \<Longrightarrow>
      (\<exists>n. look_message (op_finish memory_ops i worker st er q) i = Some n \<and> same_text m n \<and> pm_status n \<in> {st, pm_status m})
      \<and> claim_time (op_finish memory_ops i worker st er q) i = claim_time q i"
    by (simp add: memory_ops_def finish_laws same_text_def)
  show "queue_ok (op_defer memory_ops i worker until q)" using q by (simp add: memory_ops_def defer_laws)
  show "k \<noteq> i \<Longrightarrow> undisturbed (look_message q k, claim_time q k)
      (look_message (op_defer memory_ops i worker until q) k, claim_time (op_defer memory_ops i worker until q) k)"
    by (simp add: memory_ops_def defer_laws)
  show "finite S \<Longrightarrow> \<forall>i\<in>S. counted rt sk since (look_message q i, claim_time q i) \<Longrightarrow> ex \<notin> S \<Longrightarrow>
      int (card S) \<le> op_attempts memory_ops rt sk since (Some ex) q" for sk
    using attempts_bound [OF q] by (simp add: memory_ops_def)
qed

subsection \<open>Properties\<close>

definition fleet_start :: "memory_queue fleet" where
  "fleet_start = \<lparr>fl_queue = \<lparr>messages = [], times = []\<rparr>, fl_jobs = [], fl_calls = []\<rparr>"

definition memory_fleet :: "dispatcher \<Rightarrow> memory_queue fleet \<Rightarrow> bool" where
  "memory_fleet d s \<longleftrightarrow> fleet_steps memory_ops look_message d fleet_start s"

lemma start_ok: "memory_q.fleet_ok d fleet_start"
  by (simp add: memory_q.fleet_ok_def fleet_start_def queue_ok_def memory_q.spread_def committed_def)

lemma memory_fleet_ok: "memory_fleet d s \<Longrightarrow> memory_q.fleet_ok d s"
  unfolding memory_fleet_def using memory_q.steps_ok [OF _ start_ok] by blast

text \<open>
  C9 At most one delivery. Whatever dispatchers run on the queue, however they interleave, wherever they stop and
  however their clocks are set, a message is given to a provider at most once but for the times the provider
  answered that it sent nothing. While a message's call may have reached the provider, the message is not
  queued, so it is never claimed again.
\<close>

theorem delivered_at_most_once:
  assumes "memory_fleet d s"
  shows "length (filter (\<lambda>c. call_id c = i \<and> \<not> limited c) (fl_calls s)) \<le> 1
    \<and> (\<forall>c \<in> set (fl_calls s). \<not> limited c \<longrightarrow>
        (\<exists>m. look_message (fl_queue s) (call_id c) = Some m \<and> same_text m (call_message c) \<and> pm_status m \<noteq> Queued))"
  using memory_q.once [OF memory_fleet_ok [OF assms]] memory_q.fleet_okD(4) [OF memory_fleet_ok [OF assms]]
  by (fastforce simp: memory_q.call_ok_def)

text \<open>
  C10 The limits hold under interleaving. Of the messages of one runtime, or of one recipient of it, that were
  delivered or may have been, never more than the limit allows were claimed within one window.
\<close>

theorem rate_limits_hold:
  assumes "memory_fleet d s" and "limit_for (dp_policy d) sub = Some (n, W)"
    and "X \<subseteq> set (filter reaching (fl_calls s))" and "X \<noteq> {}"
    and "\<forall>c \<in> X. in_group rt sub (call_message c)"
    and "\<forall>a \<in> X. \<forall>b \<in> X. call_now a - call_now b \<le> W"
  shows "int (card X) \<le> n"
  by (rule memory_q.rate [OF memory_fleet_ok [OF assms(1)] assms(2-6)])

text \<open>
  The dispatcher refines the steps. One \<open>run_once\<close> on the queue of any reachable state is a sequence of steps that
  ends in its queue, with the provider calls it made and no job left over.
\<close>

theorem run_once_refines_fleet:
  assumes "memory_fleet d s" and "run_once memory_ops d send w now (fl_queue s) = (out, q', evs)"
  shows "\<exists>s'. memory_fleet d s' \<and> fl_queue s' = q' \<and> fl_jobs s' = fl_jobs s
    \<and> calls_made (fl_calls s') = calls_made (fl_calls s) @ provider_calls evs"
proof -
  obtain s' where "fleet_steps memory_ops look_message d s s'" "fl_queue s' = q'" "fl_jobs s' = fl_jobs s"
      "calls_made (fl_calls s') = calls_made (fl_calls s) @ provider_calls evs"
    using memory_q.run_steps [OF memory_fleet_ok [OF assms(1)] assms(2)] by blast
  moreover have "memory_fleet d s'" using assms(1) calculation(1) unfolding memory_fleet_def by (rule rtranclp_trans)
  ultimately show ?thesis by blast
qed

text \<open>Two messages to Ana, a limit of one an hour, and a dispatcher that runs twice.\<close>

definition send_class :: pclass where
  "send_class = PClass 9 ''SendProactivePermission'' SendPerm T2"

definition send_registry :: registry where
  "send_registry = \<lparr>by_name = [(SEND_PROACTIVE, send_class)], by_class = [(send_class, SEND_PROACTIVE)], next_oid = 10\<rparr>"

definition demo_dispatcher :: dispatcher where
  "demo_dispatcher = \<lparr>dp_registry = send_registry, dp_ceilings = [(''shop'', [send_class])],
     dp_directory = static_authorize [((''shop'', ''ana''),
       \<lparr>subject_key = ''ana'', subject_channel = Some ''sms'', subject_address = Some ''555''\<rparr>)],
     dp_channels = [''sms''], dp_lookup = None,
     dp_policy = \<lparr>per_recipient = Some (1, 3600), per_runtime = None, quiet_hours = None, policy_zone = utc,
       recheck_s = DEFAULT_RECHECK_S\<rparr>,
     dp_lease = DEFAULT_LEASE_S\<rparr>"

definition demo_queue :: memory_queue where
  "demo_queue = enqueue ''2'' ''shop'' ''ana'' ''late'' ''scheduler:x'' 0
     (enqueue ''1'' ''shop'' ''ana'' ''hello'' ''scheduler:x'' 0 \<lparr>messages = [], times = []\<rparr>)"

definition demo_fleet :: "memory_queue fleet" where
  "demo_fleet = \<lparr>fl_queue = demo_queue, fl_jobs = [], fl_calls = []\<rparr>"

definition demo_send :: provider where "demo_send ch to body = Accepted"

lemma demo_fleet_reached: "memory_fleet demo_dispatcher demo_fleet"
proof -
  let ?s1 = "fleet_start\<lparr>fl_queue := op_enqueue memory_ops ''1'' ''shop'' ''ana'' ''hello'' ''scheduler:x'' 0 (fl_queue fleet_start)\<rparr>"
  let ?s2 = "?s1\<lparr>fl_queue := op_enqueue memory_ops ''2'' ''shop'' ''ana'' ''late'' ''scheduler:x'' 0 (fl_queue ?s1)\<rparr>"
  have 1: "fleet_step memory_ops look_message demo_dispatcher fleet_start ?s1"
    by (rule fleet_step.Submit) (simp add: fleet_start_def look_message_def)
  have 2: "fleet_step memory_ops look_message demo_dispatcher ?s1 ?s2"
    by (rule fleet_step.Submit) (simp add: fleet_start_def look_message_def memory_ops_def enqueue_def)
  have "?s2 = demo_fleet"
    by (simp add: fleet_start_def memory_ops_def demo_fleet_def demo_queue_def)
  with rtranclp_trans [OF r_into_rtranclp r_into_rtranclp, where r = "fleet_step memory_ops look_message demo_dispatcher", OF 1 2]
  show ?thesis unfolding memory_fleet_def by simp
qed

definition run1 where "run1 = run_once memory_ops demo_dispatcher demo_send ''w'' 100 demo_queue"
definition run2 where "run2 = run_once memory_ops demo_dispatcher demo_send ''w'' 200 (fst (snd run1))"

lemma demo_runs:
  "map_option do_status (case fst run1 of Inr x \<Rightarrow> Some x | Inl _ \<Rightarrow> None) = Some ''sent''
   \<and> map_option do_reason (case fst run2 of Inr x \<Rightarrow> Some x | Inl _ \<Rightarrow> None) = Some (Some ''rate_limit'')
   \<and> provider_calls (snd (snd run1)) = [(''1'', (''sms'', ''555''), Accepted)] \<and> provider_calls (snd (snd run2)) = []"
  by code_simp

lemma demo_run_steps:
  "\<exists>s. memory_fleet demo_dispatcher s \<and> fl_queue s = fst (snd run2) \<and> calls_made (fl_calls s) = [(''1'', (''sms'', ''555''), Accepted)]"
proof -
  obtain s1 where s1: "fleet_steps memory_ops look_message demo_dispatcher demo_fleet s1" "fl_queue s1 = fst (snd run1)"
      "calls_made (fl_calls s1) = [(''1'', (''sms'', ''555''), Accepted)]"
    using memory_q.run_steps [OF memory_fleet_ok [OF demo_fleet_reached], of demo_send "''w''" 100 "fst run1" "fst (snd run1)" "snd (snd run1)"]
      demo_runs by (auto simp: demo_fleet_def run1_def calls_made_def)
  have r1: "memory_fleet demo_dispatcher s1"
    using demo_fleet_reached s1(1) unfolding memory_fleet_def by (rule rtranclp_trans)
  obtain s2 where s2: "fleet_steps memory_ops look_message demo_dispatcher s1 s2" "fl_queue s2 = fst (snd run2)"
      "calls_made (fl_calls s2) = [(''1'', (''sms'', ''555''), Accepted)]"
    using memory_q.run_steps [OF memory_fleet_ok [OF r1], of demo_send "''w''" 200 "fst run2" "fst (snd run2)" "snd (snd run2)"]
      demo_runs s1(2,3) by (auto simp: run2_def)
  have "memory_fleet demo_dispatcher s2" using r1 s2(1) unfolding memory_fleet_def by (rule rtranclp_trans)
  then show ?thesis using s2 by blast
qed

theorem delivered_at_most_once_witness:
  "\<exists>s. memory_fleet demo_dispatcher s \<and> length (fl_calls s) = 1
    \<and> length (filter (\<lambda>c. call_id c = ''1'' \<and> \<not> limited c) (fl_calls s)) \<le> 1"
proof -
  obtain s where s: "memory_fleet demo_dispatcher s" "calls_made (fl_calls s) = [(''1'', (''sms'', ''555''), Accepted)]"
    using demo_run_steps by blast
  have "length (fl_calls s) = 1" using arg_cong [OF s(2), of length] by (simp add: calls_made_def)
  then show ?thesis using delivered_at_most_once [OF s(1), of "''1''"] s(1) by blast
qed

theorem rate_limits_hold_witness:
  "\<exists>s c. memory_fleet demo_dispatcher s \<and> set (fl_calls s) = {c} \<and> int (card {c}) \<le> 1"
proof -
  obtain s where s: "memory_fleet demo_dispatcher s" "calls_made (fl_calls s) = [(''1'', (''sms'', ''555''), Accepted)]"
    using demo_run_steps by blast
  then obtain c where c: "fl_calls s = [c]" "call_answer c = Accepted" by (auto simp: calls_made_def map_eq_Cons_conv)
  have "int (card {c}) \<le> 1"
    by (rule rate_limits_hold [OF s(1), of "Some (pm_subject (call_message c))" 1 3600 _ "pm_runtime (call_message c)"])
      (simp_all add: c reaching_def limit_for_def demo_dispatcher_def in_group_def)
  then show ?thesis using s(1) c(1) by auto
qed

theorem run_once_refines_fleet_witness:
  "\<exists>s'. memory_fleet demo_dispatcher s' \<and> fl_queue s' = fst (snd run1)
    \<and> calls_made (fl_calls s') = [(''1'', (''sms'', ''555''), Accepted)]"
  using run_once_refines_fleet [OF demo_fleet_reached, of demo_send "''w''" 100 "fst run1" "fst (snd run1)" "snd (snd run1)"]
    demo_runs by (auto simp: demo_fleet_def run1_def calls_made_def)

text \<open>Clearing what a dispatcher may send, at a time of the demonstration.\<close>

theorem sent_only_when_allowed_witness:
  "still_permitted demo_dispatcher (hd (messages demo_queue)) = Inr True \<and> ''sms'' \<in> set (dp_channels demo_dispatcher)"
proof -
  let ?d = "dispatch memory_ops demo_dispatcher demo_send ''w'' (hd (messages demo_queue)) 100 demo_queue"
  have "ProviderCall ''1'' ''sms'' ''555'' ''hello'' Accepted \<in> set (snd (snd ?d))" by code_simp
  then show ?thesis
    using sent_only_when_allowed [of memory_ops demo_dispatcher demo_send "''w''" _ 100 demo_queue "fst ?d" "fst (snd ?d)" "snd (snd ?d)"]
    by auto
qed

end
