(* ===== verification/Proactive_Postgres.thy ===== *)
theory Proactive_Postgres
  imports Proactive_Fleet
begin

section \<open>The queue in PostgreSQL\<close>

text \<open>
  \<open>services/proactive_postgres.py\<close>: the same protocol as statements on one table.  A row is a message with its
  \<open>claimed_at\<close>; the database runs each statement atomically.  The rows \<open>SKIP LOCKED\<close> passes over are
  those another transaction holds, any function of the moment.  Unlike the in-memory queue, the end of
  a job is fenced by the lease: it changes nothing once the lease was taken away.
\<close>

record pg_row =
  pg_message :: proactive_message
  pg_claimed :: "rat option"

type_synonym pg_table = "pg_row list"
type_synonym row_locks = "string \<Rightarrow> rat \<Rightarrow> pg_table \<Rightarrow> string list"

definition row_id :: "pg_row \<Rightarrow> string" where "row_id r = pm_id (pg_message r)"

text \<open>\<open>UPDATE ... SET ... WHERE\<close>\<close>

definition update_rows :: "(pg_row \<Rightarrow> bool) \<Rightarrow> (pg_row \<Rightarrow> pg_row) \<Rightarrow> pg_table \<Rightarrow> pg_table" where
  "update_rows cond f t = map (\<lambda>r. if cond r then f r else r) t"

definition pg_enqueue :: "string \<Rightarrow> string \<Rightarrow> string \<Rightarrow> string \<Rightarrow> string \<Rightarrow> rat \<Rightarrow> pg_table \<Rightarrow> pg_table" where
  "pg_enqueue i runtime subject body actor available t =
     t @ [\<lparr>pg_message = \<lparr>pm_id = i, pm_runtime = runtime, pm_subject = subject, pm_text = body, pm_actor = actor,
            pm_status = Queued, pm_available = Some available, pm_owner = None, pm_lease = None, pm_error = None\<rparr>,
           pg_claimed = None\<rparr>]"

definition pg_lapse :: "pg_row \<Rightarrow> pg_row" where
  "pg_lapse r = r\<lparr>pg_message := (pg_message r)\<lparr>pm_status := Ambiguous, pm_error := Some ''lease_expired'',
     pm_owner := None, pm_lease := None\<rparr>\<rparr>"

definition pg_expire :: "rat \<Rightarrow> pg_table \<Rightarrow> proactive_message list \<times> pg_table" where
  "pg_expire now t =
     (let lapsed = (\<lambda>r. lease_lapsed now (pg_message r)) in
      (map (pg_message \<circ> pg_lapse) (filter lapsed t), update_rows lapsed pg_lapse t))"

definition pg_due :: "rat \<Rightarrow> string list \<Rightarrow> pg_row \<Rightarrow> bool" where
  "pg_due now locked r \<longleftrightarrow> pm_status (pg_message r) = Queued
     \<and> (case pm_available (pg_message r) of Some a \<Rightarrow> a \<le> now | None \<Rightarrow> False) \<and> row_id r \<notin> set locked"

definition pg_order :: "pg_row \<Rightarrow> rat \<times> string" where
  "pg_order r = (the (pm_available (pg_message r)), row_id r)"

text \<open>\<open>ORDER BY available_at, id FOR UPDATE SKIP LOCKED LIMIT 1\<close>, the two keys compared in turn.\<close>

fun pg_first :: "pg_row \<Rightarrow> pg_table \<Rightarrow> pg_row" where
  "pg_first r [] = r"
| "pg_first r (s # ss) =
     pg_first (case (pg_order s, pg_order r) of ((a, i), (b, k)) \<Rightarrow> if a < b \<or> (a = b \<and> i < k) then s else r) ss"

text \<open>The second transaction of \<open>claim\<close>, and the whole of it.\<close>

definition pg_take :: "row_locks \<Rightarrow> string \<Rightarrow> rat \<Rightarrow> rat \<Rightarrow> pg_table \<Rightarrow> proactive_message option \<times> pg_table" where
  "pg_take locks worker now lease t =
     (case filter (pg_due now (locks worker now t)) t of
        [] \<Rightarrow> (None, t)
      | r # rs \<Rightarrow>
          (let i = row_id (pg_first r rs);
               take = (\<lambda>r. r\<lparr>pg_message := (pg_message r)\<lparr>pm_status := Sending, pm_owner := Some worker,
                        pm_lease := Some (now + lease)\<rparr>, pg_claimed := Some now\<rparr>);
               t' = update_rows (\<lambda>r. row_id r = i) take t
           in (map_option pg_message (List.find (\<lambda>r. row_id r = i) t'), t')))"

definition pg_claim :: "row_locks \<Rightarrow> string \<Rightarrow> rat \<Rightarrow> rat \<Rightarrow> pg_table \<Rightarrow> proactive_message option \<times> pg_table" where
  "pg_claim locks worker now lease t = pg_take locks worker now lease (snd (pg_expire now t))"

definition pg_attempts :: "string \<Rightarrow> string option \<Rightarrow> rat \<Rightarrow> string option \<Rightarrow> pg_table \<Rightarrow> int" where
  "pg_attempts runtime subject since exclude t =
     int (length (filter (\<lambda>r. pm_runtime (pg_message r) = runtime
         \<and> (case pg_claimed r of Some c \<Rightarrow> since \<le> c | None \<Rightarrow> False)
         \<and> pm_status (pg_message r) \<in> {Sending, Sent, Ambiguous}
         \<and> (subject = None \<or> subject = Some (pm_subject (pg_message r)))
         \<and> (exclude = None \<or> exclude \<noteq> Some (row_id r))) t))"

definition owned_row :: "string \<Rightarrow> string \<Rightarrow> pg_row \<Rightarrow> bool" where
  "owned_row i worker r \<longleftrightarrow> row_id r = i \<and> pm_owner (pg_message r) = Some worker"

definition pg_finish :: "string \<Rightarrow> string \<Rightarrow> message_status \<Rightarrow> string option \<Rightarrow> pg_table \<Rightarrow> pg_table" where
  "pg_finish i worker st er t =
     update_rows (owned_row i worker) (\<lambda>r. r\<lparr>pg_message := (pg_message r)\<lparr>pm_status := st, pm_error := er,
       pm_owner := None, pm_lease := None\<rparr>\<rparr>) t"

definition pg_defer :: "string \<Rightarrow> string \<Rightarrow> rat \<Rightarrow> pg_table \<Rightarrow> pg_table" where
  "pg_defer i worker until t =
     update_rows (owned_row i worker) (\<lambda>r. r\<lparr>pg_message := (pg_message r)\<lparr>pm_status := Queued,
       pm_available := Some until, pm_owner := None, pm_lease := None\<rparr>, pg_claimed := None\<rparr>) t"

definition pg_ops :: "row_locks \<Rightarrow> pg_table queue_ops" where
  "pg_ops locks = \<lparr>op_enqueue = pg_enqueue, op_claim = pg_claim locks, op_expire = pg_expire,
     op_attempts = pg_attempts, op_finish = pg_finish, op_defer = pg_defer\<rparr>"

text \<open>\<open>claim\<close> is two transactions: what a worker does next is the whole of it, or, after an expiry of its own, the second.\<close>

definition pg_ops_of :: "bool \<Rightarrow> row_locks \<Rightarrow> pg_table queue_ops" where
  "pg_ops_of whole locks = (if whole then pg_ops locks else (pg_ops locks)\<lparr>op_claim := pg_take locks\<rparr>)"

lemma pg_ops_of_simps [simp]:
  "op_enqueue (pg_ops_of whole locks) = pg_enqueue" "op_expire (pg_ops_of whole locks) = pg_expire"
  "op_attempts (pg_ops_of whole locks) = pg_attempts" "op_finish (pg_ops_of whole locks) = pg_finish"
  "op_defer (pg_ops_of whole locks) = pg_defer"
  "op_claim (pg_ops_of whole locks) = (if whole then pg_claim locks else pg_take locks)"
  by (simp_all add: pg_ops_of_def pg_ops_def)

text \<open>The store of a subject's data: what an erasure removes, and what retention removes of finished rows.\<close>

definition pg_delete :: "string \<times> string \<Rightarrow> pg_table \<Rightarrow> nat \<times> pg_table" where
  "pg_delete p t =
     (let mine = (\<lambda>r. (pm_runtime (pg_message r), pm_subject (pg_message r)) = p) in
      (length (filter mine t), filter (\<lambda>r. \<not> mine r) t))"

subsection \<open>It keeps the promises\<close>

definition pg_ok :: "pg_table \<Rightarrow> bool" where
  "pg_ok t \<longleftrightarrow> distinct (map row_id t)"

definition pg_row_of :: "pg_table \<Rightarrow> string \<Rightarrow> pg_row option" where
  "pg_row_of t i = List.find (\<lambda>r. row_id r = i) t"

definition pg_look :: "pg_table \<Rightarrow> string \<Rightarrow> proactive_message option" where
  "pg_look t i = map_option pg_message (pg_row_of t i)"

definition pg_claimed_at :: "pg_table \<Rightarrow> string \<Rightarrow> rat option" where
  "pg_claimed_at t i = (case pg_row_of t i of Some r \<Rightarrow> pg_claimed r | None \<Rightarrow> None)"

lemma row_of_id: "pg_row_of t i = Some r \<Longrightarrow> row_id r = i"
  by (auto simp: pg_row_of_def find_Some_iff)

lemma row_of_Some: "pg_ok t \<Longrightarrow> pg_row_of t i = Some r \<longleftrightarrow> r \<in> set t \<and> row_id r = i"
  unfolding pg_row_of_def pg_ok_def by (rule find_distinct)

lemma update_laws:
  assumes "\<And>r. row_id (f r) = row_id r"
  shows "pg_ok (update_rows cond f t) = pg_ok t"
    and "pg_row_of (update_rows cond f t) i = map_option (\<lambda>r. if cond r then f r else r) (pg_row_of t i)"
proof -
  have "row_id (if cond r then f r else r) = row_id r" for r by (simp add: assms)
  then show "pg_row_of (update_rows cond f t) i = map_option (\<lambda>r. if cond r then f r else r) (pg_row_of t i)"
    unfolding pg_row_of_def update_rows_def by (rule find_map_same)
  show "pg_ok (update_rows cond f t) = pg_ok t"
    by (simp add: pg_ok_def update_rows_def comp_def assms if_distrib [of row_id] cong: if_cong)
qed

text \<open>An update that leaves a row alone, or lapses it, does not disturb it.\<close>

lemma update_undisturbed:
  assumes f: "\<And>r. row_id (f r) = row_id r"
    and u: "\<And>r. row_id r = k \<Longrightarrow> cond r \<Longrightarrow> undisturbed (Some (pg_message r), pg_claimed r) (Some (pg_message (f r)), pg_claimed (f r))"
  shows "undisturbed (pg_look t k, pg_claimed_at t k) (pg_look (update_rows cond f t) k, pg_claimed_at (update_rows cond f t) k)"
  using u row_of_id
  by (cases "pg_row_of t k") (auto simp: pg_look_def pg_claimed_at_def update_laws [OF f])

lemma lapse_id [simp]: "row_id (pg_lapse r) = row_id r"
  by (simp add: row_id_def pg_lapse_def)

lemma pg_expire_laws:
  shows "pg_ok (snd (pg_expire now t)) = pg_ok t"
    and "undisturbed (pg_look t k, pg_claimed_at t k) (pg_look (snd (pg_expire now t)) k, pg_claimed_at (snd (pg_expire now t)) k)"
proof -
  show "pg_ok (snd (pg_expire now t)) = pg_ok t" by (simp add: pg_expire_def Let_def update_laws)
  have "undisturbed (Some (pg_message r), pg_claimed r) (Some (pg_message (pg_lapse r)), pg_claimed (pg_lapse r))"
    if "lease_lapsed now (pg_message r)" for r
    using that by (simp add: undisturbed_def same_text_def pg_lapse_def lease_lapsed_def)
  then show "undisturbed (pg_look t k, pg_claimed_at t k) (pg_look (snd (pg_expire now t)) k, pg_claimed_at (snd (pg_expire now t)) k)"
    by (simp add: pg_expire_def Let_def) (rule update_undisturbed, simp_all)
qed

lemma pg_first_in: "pg_first r rs \<in> insert r (set rs)"
proof (induction rs arbitrary: r)
  case (Cons s ss)
  let ?x = "case (pg_order s, pg_order r) of ((a, i), (b, k)) \<Rightarrow> if a < b \<or> (a = b \<and> i < k) then s else r"
  have "?x \<in> {r, s}" by (auto split: prod.splits)
  moreover have "pg_first r (s # ss) \<in> insert ?x (set ss)" using Cons.IH [of ?x] by simp
  ultimately show ?case by auto
qed simp

lemma pg_take_cases:
  assumes "pg_take locks w now lease t = (r, t')"
  obtains "r = None" "t' = t"
  | x where "x \<in> set t" "pm_status (pg_message x) = Queued"
      "t' = update_rows (\<lambda>y. row_id y = row_id x) (\<lambda>r. r\<lparr>pg_message := (pg_message r)\<lparr>pm_status := Sending,
          pm_owner := Some w, pm_lease := Some (now + lease)\<rparr>, pg_claimed := Some now\<rparr>) t"
      "r = pg_look t' (row_id x)"
proof -
  let ?due = "filter (pg_due now (locks w now t)) t"
  show thesis
  proof (cases ?due)
    case Nil
    then show ?thesis using assms that(1) by (simp add: pg_take_def)
  next
    case (Cons x xs)
    let ?x = "pg_first x xs"
    have "?x \<in> set ?due" using pg_first_in [of x xs] unfolding Cons by simp
    then have x: "?x \<in> set t" "pm_status (pg_message ?x) = Queued" by (simp_all add: pg_due_def)
    have "t' = update_rows (\<lambda>y. row_id y = row_id ?x) (\<lambda>r. r\<lparr>pg_message := (pg_message r)\<lparr>pm_status := Sending,
          pm_owner := Some w, pm_lease := Some (now + lease)\<rparr>, pg_claimed := Some now\<rparr>) t"
      and "r = pg_look t' (row_id ?x)"
      using assms Cons by (auto simp: pg_take_def Let_def pg_look_def pg_row_of_def)
    with x show ?thesis by (rule that(2))
  qed
qed

lemma pg_take_laws:
  assumes q: "pg_ok t" and cl: "pg_take locks w now lease t = (r, t')"
  shows "pg_ok t'"
    and "(case r of None \<Rightarrow> True | Some m \<Rightarrow> k \<noteq> pm_id m) \<Longrightarrow>
      undisturbed (pg_look t k, pg_claimed_at t k) (pg_look t' k, pg_claimed_at t' k)"
    and "r = Some m \<Longrightarrow> (\<exists>m0. pg_look t (pm_id m) = Some m0 \<and> pm_status m0 = Queued \<and> same_text m0 m)
      \<and> pg_look t' (pm_id m) = Some m \<and> pm_status m = Sending \<and> pg_claimed_at t' (pm_id m) = Some now"
proof -
  let ?take = "\<lambda>m. m\<lparr>pm_status := Sending, pm_owner := Some w, pm_lease := Some (now + lease)\<rparr>"
  consider "r = None" "t' = t"
    | x where "pg_row_of t (row_id x) = Some x" "pm_status (pg_message x) = Queued" "r = Some (?take (pg_message x))"
        "\<And>i. pg_look t' i = (if i = row_id x then r else pg_look t i)"
        "\<And>i. pg_claimed_at t' i = (if i = row_id x then Some now else pg_claimed_at t i)" "pg_ok t'"
    using cl
  proof (cases rule: pg_take_cases)
    case (2 x)
    have l: "pg_row_of t (row_id x) = Some x" using 2(1) q by (simp add: row_of_Some)
    have f: "row_id (y\<lparr>pg_message := ?take (pg_message y), pg_claimed := Some now\<rparr>) = row_id y" for y by (simp add: row_id_def)
    note u = update_laws [OF f, where cond = "\<lambda>y. row_id y = row_id x" and t = t, folded 2(3)]
    have "pg_look t' i = (if i = row_id x then Some (?take (pg_message x)) else pg_look t i)"
      and "pg_claimed_at t' i = (if i = row_id x then Some now else pg_claimed_at t i)" for i
    proof -
      have "pg_row_of t' i = (if i = row_id x then Some (x\<lparr>pg_message := ?take (pg_message x), pg_claimed := Some now\<rparr>) else pg_row_of t i)"
      proof (cases "i = row_id x")
        case False
        then have "row_id y \<noteq> row_id x" if "pg_row_of t i = Some y" for y using row_of_id [OF that] by simp
        then show ?thesis using False by (cases "pg_row_of t i") (simp_all add: u(2))
      qed (simp add: u(2) l)
      then show "pg_look t' i = (if i = row_id x then Some (?take (pg_message x)) else pg_look t i)"
        and "pg_claimed_at t' i = (if i = row_id x then Some now else pg_claimed_at t i)"
        by (simp_all add: pg_look_def pg_claimed_at_def)
    qed
    then show ?thesis using that(2) [OF l 2(2)] 2(4) u(1) q by simp
  qed (use that in blast)
  note c = this
  show "pg_ok t'" using c by cases (simp_all add: q)
  show "undisturbed (pg_look t k, pg_claimed_at t k) (pg_look t' k, pg_claimed_at t' k)"
    if "case r of None \<Rightarrow> True | Some m \<Rightarrow> k \<noteq> pm_id m"
    using c that by cases (simp_all add: row_id_def)
  show "(\<exists>m0. pg_look t (pm_id m) = Some m0 \<and> pm_status m0 = Queued \<and> same_text m0 m)
      \<and> pg_look t' (pm_id m) = Some m \<and> pm_status m = Sending \<and> pg_claimed_at t' (pm_id m) = Some now" if "r = Some m"
    using c
  proof cases
    case (2 x)
    then have "pm_id m = row_id x" "pm_status m = Sending" "same_text (pg_message x) m"
      using that by (auto simp: same_text_def row_id_def)
    then show ?thesis using 2(1,2,4,5) that by (auto simp: pg_look_def)
  qed (use that in simp)
qed

lemma undisturbed_trans: "undisturbed x y \<Longrightarrow> undisturbed y z \<Longrightarrow> undisturbed x z"
  by (auto simp: undisturbed_def same_text_def split: option.splits)

lemma pg_claim_laws:
  assumes q: "pg_ok t" and cl: "pg_claim locks w now lease t = (r, t')"
  shows "pg_ok t'"
    and "(case r of None \<Rightarrow> True | Some m \<Rightarrow> k \<noteq> pm_id m) \<Longrightarrow>
      undisturbed (pg_look t k, pg_claimed_at t k) (pg_look t' k, pg_claimed_at t' k)"
    and "r = Some m \<Longrightarrow> (\<exists>m0. pg_look t (pm_id m) = Some m0 \<and> pm_status m0 = Queued \<and> same_text m0 m)
      \<and> pg_look t' (pm_id m) = Some m \<and> pm_status m = Sending \<and> pg_claimed_at t' (pm_id m) = Some now"
proof -
  let ?t = "snd (pg_expire now t)"
  note e = pg_expire_laws [where now = now and t = t]
  have q1: "pg_ok ?t" by (simp add: e(1) q)
  note tk = pg_take_laws [OF q1 cl [unfolded pg_claim_def]]
  show "pg_ok t'" by (rule tk(1))
  show "undisturbed (pg_look t k, pg_claimed_at t k) (pg_look t' k, pg_claimed_at t' k)"
    if "case r of None \<Rightarrow> True | Some m \<Rightarrow> k \<noteq> pm_id m"
    by (rule undisturbed_trans [OF e(2) tk(2) [OF that]])
  show "(\<exists>m0. pg_look t (pm_id m) = Some m0 \<and> pm_status m0 = Queued \<and> same_text m0 m)
      \<and> pg_look t' (pm_id m) = Some m \<and> pm_status m = Sending \<and> pg_claimed_at t' (pm_id m) = Some now" if "r = Some m"
  proof -
    note tm = tk(3) [OF that]
    obtain m1 where m1: "pg_look ?t (pm_id m) = Some m1" "pm_status m1 = Queued" "same_text m1 m" using tm by blast
    obtain m0 where "pg_look t (pm_id m) = Some m0" "same_text m0 m1" "pm_status m0 = Queued"
      using e(2) [of "pm_id m"] m1(1,2) by (auto simp: undisturbed_def split: option.splits)
    then show ?thesis using tm m1(3) by (auto simp: same_text_def)
  qed
qed

lemma owned_update:
  assumes "\<And>r. row_id (f r) = row_id r" and "k \<noteq> i"
  shows "undisturbed (pg_look t k, pg_claimed_at t k)
     (pg_look (update_rows (owned_row i worker) f t) k, pg_claimed_at (update_rows (owned_row i worker) f t) k)"
  by (rule update_undisturbed [OF assms(1)]) (use assms(2) in \<open>auto simp: owned_row_def\<close>)

lemma pg_attempts_bound:
  assumes q: "pg_ok t" and "finite S" and S: "\<forall>i \<in> S. counted rt sub since (pg_look t i, pg_claimed_at t i)" and ex: "ex \<notin> S"
  shows "int (card S) \<le> pg_attempts rt sub since (Some ex) t"
proof -
  define P where "P r \<longleftrightarrow> pm_runtime (pg_message r) = rt \<and> (case pg_claimed r of Some c \<Rightarrow> since \<le> c | None \<Rightarrow> False)
    \<and> pm_status (pg_message r) \<in> {Sending, Sent, Ambiguous} \<and> (sub = None \<or> sub = Some (pm_subject (pg_message r)))
    \<and> (Some ex = None \<or> Some ex \<noteq> Some (row_id r))"
    for r :: pg_row
  have "S \<subseteq> row_id ` set (filter P t)"
  proof
    fix i assume i: "i \<in> S"
    then obtain m c where m: "pg_look t i = Some m" "pg_claimed_at t i = Some c" "pm_runtime m = rt"
        "sub = None \<or> sub = Some (pm_subject m)" "pm_status m \<in> set ATTEMPTED_STATUSES" "since \<le> c"
      using S by (auto simp: counted_def)
    then obtain r where r: "pg_row_of t i = Some r" "pg_message r = m" "pg_claimed r = Some c"
      by (auto simp: pg_look_def pg_claimed_at_def)
    moreover have "r \<in> set t" "row_id r = i" using r(1) row_of_Some [OF q] by blast+
    moreover have "i \<noteq> ex" using i ex by blast
    ultimately show "i \<in> row_id ` set (filter P t)" using m by (auto simp: P_def ATTEMPTED_STATUSES_def)
  qed
  then have "card S \<le> card (row_id ` set (filter P t))" by (intro card_mono) simp_all
  also have "\<dots> \<le> length (filter P t)" by (meson card_image_le card_length finite_set le_trans)
  finally show ?thesis by (simp add: pg_attempts_def P_def [abs_def])
qed

lemma pg_enqueue_laws:
  assumes "pg_ok t" and "pg_look t i = None"
  shows "pg_ok (pg_enqueue i rt sk body actor avail t)"
    and "k \<noteq> i \<Longrightarrow> pg_row_of (pg_enqueue i rt sk body actor avail t) k = pg_row_of t k"
proof -
  have "\<forall>r \<in> set t. row_id r \<noteq> i" using assms(2) by (auto simp: pg_look_def pg_row_of_def find_None_iff)
  then show "pg_ok (pg_enqueue i rt sk body actor avail t)"
    using assms(1) by (auto simp: pg_ok_def pg_enqueue_def row_id_def)
  show "pg_row_of (pg_enqueue i rt sk body actor avail t) k = pg_row_of t k" if "k \<noteq> i"
    using that by (cases "pg_row_of t k") (simp_all add: pg_row_of_def pg_enqueue_def find_snoc row_id_def)
qed

lemma finish_row [simp]: "row_id (r\<lparr>pg_message := (pg_message r)\<lparr>pm_status := st, pm_error := er, pm_owner := a, pm_lease := b\<rparr>\<rparr>) = row_id r"
  by (simp add: row_id_def)

lemma defer_row [simp]: "row_id (r\<lparr>pg_message := (pg_message r)\<lparr>pm_status := st, pm_available := c, pm_owner := a, pm_lease := b\<rparr>,
    pg_claimed := d\<rparr>) = row_id r"
  by (simp add: row_id_def)

interpretation postgres_q: delivery_queue "pg_ops_of whole locks" pg_ok pg_look pg_claimed_at for whole locks
proof
  fix q q' :: pg_table and i k rt body actor worker ex :: string and m r ms sk and avail now lease until since :: rat
    and st :: message_status and er and S :: "string set"
  assume q: "pg_ok q"
  show "pg_look q i = Some m \<Longrightarrow> pm_id m = i"
    using row_of_id [of q i] by (auto simp: pg_look_def row_id_def)
  show "pg_look q i = None \<Longrightarrow> pg_ok (op_enqueue (pg_ops_of whole locks) i rt sk body actor avail q)"
    by (simp add: pg_enqueue_laws [OF q])
  show "pg_look q i = None \<Longrightarrow> k \<noteq> i \<Longrightarrow>
      undisturbed (pg_look q k, pg_claimed_at q k) (pg_look (op_enqueue (pg_ops_of whole locks) i rt sk body actor avail q) k,
        pg_claimed_at (op_enqueue (pg_ops_of whole locks) i rt sk body actor avail q) k)"
    using pg_enqueue_laws(2) [OF q] by (simp add: pg_look_def pg_claimed_at_def)
  show "op_expire (pg_ops_of whole locks) now q = (ms, q') \<Longrightarrow> pg_ok q'"
    using pg_expire_laws(1) [of now q] q by simp
  show "op_expire (pg_ops_of whole locks) now q = (ms, q') \<Longrightarrow>
      undisturbed (pg_look q k, pg_claimed_at q k) (pg_look q' k, pg_claimed_at q' k)"
    using pg_expire_laws(2) [of q k now] by simp
  show "op_claim (pg_ops_of whole locks) worker now lease q = (r, q') \<Longrightarrow> pg_ok q'"
    using pg_claim_laws(1) [OF q] pg_take_laws(1) [OF q] by (simp split: if_splits)
  show "op_claim (pg_ops_of whole locks) worker now lease q = (r, q') \<Longrightarrow> (case r of None \<Rightarrow> True | Some m \<Rightarrow> k \<noteq> pm_id m) \<Longrightarrow>
      undisturbed (pg_look q k, pg_claimed_at q k) (pg_look q' k, pg_claimed_at q' k)"
    using pg_claim_laws(2) [OF q] pg_take_laws(2) [OF q] by (simp split: if_splits)
  show "op_claim (pg_ops_of whole locks) worker now lease q = (Some m, q') \<Longrightarrow>
      (\<exists>m0. pg_look q (pm_id m) = Some m0 \<and> pm_status m0 = Queued \<and> same_text m0 m)
      \<and> pg_look q' (pm_id m) = Some m \<and> pm_status m = Sending \<and> pg_claimed_at q' (pm_id m) = Some now"
    using pg_claim_laws(3) [OF q _ refl] pg_take_laws(3) [OF q _ refl] by (simp split: if_splits)
  show "pg_ok (op_finish (pg_ops_of whole locks) i worker st er q)" using q by (simp add: pg_finish_def update_laws)
  show "k \<noteq> i \<Longrightarrow> undisturbed (pg_look q k, pg_claimed_at q k)
      (pg_look (op_finish (pg_ops_of whole locks) i worker st er q) k, pg_claimed_at (op_finish (pg_ops_of whole locks) i worker st er q) k)"
    by (simp add: pg_finish_def owned_update)
  show "pg_look q i = Some m \<Longrightarrow>
      (\<exists>n. pg_look (op_finish (pg_ops_of whole locks) i worker st er q) i = Some n \<and> same_text m n \<and> pm_status n \<in> {st, pm_status m})
      \<and> pg_claimed_at (op_finish (pg_ops_of whole locks) i worker st er q) i = pg_claimed_at q i"
    by (cases "pg_row_of q i"; cases "owned_row i worker (the (pg_row_of q i))")
       (simp_all add: pg_finish_def pg_look_def pg_claimed_at_def update_laws same_text_def)
  show "pg_ok (op_defer (pg_ops_of whole locks) i worker until q)" using q by (simp add: pg_defer_def update_laws)
  show "k \<noteq> i \<Longrightarrow> undisturbed (pg_look q k, pg_claimed_at q k)
      (pg_look (op_defer (pg_ops_of whole locks) i worker until q) k, pg_claimed_at (op_defer (pg_ops_of whole locks) i worker until q) k)"
    by (simp add: pg_defer_def owned_update)
  show "finite S \<Longrightarrow> \<forall>i\<in>S. counted rt sk since (pg_look q i, pg_claimed_at q i) \<Longrightarrow> ex \<notin> S \<Longrightarrow>
      int (card S) \<le> op_attempts (pg_ops_of whole locks) rt sk since (Some ex) q" for sk
    using pg_attempts_bound [OF q] by simp
qed

subsection \<open>Properties\<close>

definition pg_start :: "pg_table fleet" where
  "pg_start = \<lparr>fl_queue = [], fl_jobs = [], fl_calls = []\<rparr>"

definition pg_step :: "row_locks \<Rightarrow> dispatcher \<Rightarrow> pg_table fleet \<Rightarrow> pg_table fleet \<Rightarrow> bool" where
  "pg_step locks d s s' \<longleftrightarrow> (\<exists>whole. fleet_step (pg_ops_of whole locks) pg_look d s s')"

definition pg_fleet :: "row_locks \<Rightarrow> dispatcher \<Rightarrow> pg_table fleet \<Rightarrow> bool" where
  "pg_fleet locks d s \<longleftrightarrow> (pg_step locks d)\<^sup>*\<^sup>* pg_start s"

lemma pg_start_ok: "postgres_q.fleet_ok d pg_start"
  by (simp add: postgres_q.fleet_ok_def pg_start_def pg_ok_def postgres_q.spread_def committed_def)

lemma pg_fleet_ok: "pg_fleet locks d s \<Longrightarrow> postgres_q.fleet_ok d s"
  unfolding pg_fleet_def
  by (induction rule: rtranclp_induct) (auto simp: pg_step_def pg_start_ok intro: postgres_q.step_ok)

text \<open>A dispatcher that calls the whole of every operation is one of the fleet.\<close>

lemma pg_whole_steps: "pg_fleet locks d s \<Longrightarrow> fleet_steps (pg_ops locks) pg_look d s s' \<Longrightarrow> pg_fleet locks d s'"
proof -
  have "pg_step locks d a b" if "fleet_step (pg_ops locks) pg_look d a b" for a b
    unfolding pg_step_def by (rule exI [of _ True]) (use that in \<open>simp add: pg_ops_of_def\<close>)
  then have "(pg_step locks d)\<^sup>*\<^sup>* s s'" if "fleet_steps (pg_ops locks) pg_look d s s'"
    using that rtranclp_mono [of "fleet_step (pg_ops locks) pg_look d" "pg_step locks d"] by blast
  then show "pg_fleet locks d s \<Longrightarrow> fleet_steps (pg_ops locks) pg_look d s s' \<Longrightarrow> pg_fleet locks d s'"
    unfolding pg_fleet_def by (blast intro: rtranclp_trans)
qed

text \<open>
  C17 The same guarantees across processes. With the queue in PostgreSQL, workers of any number of processes, that lock rows
  against each other in any way, get in between the two transactions of a claim and die anywhere, deliver a message at most once, and never more of them in one window
  than the limit of the recipient or of the runtime allows.
\<close>

theorem postgres_delivers_at_most_once:
  assumes "pg_fleet locks d s"
  shows "length (filter (\<lambda>c. call_id c = i \<and> \<not> limited c) (fl_calls s)) \<le> 1
    \<and> (limit_for (dp_policy d) sub = Some (n, W) \<and> X \<subseteq> set (filter reaching (fl_calls s)) \<and> X \<noteq> {}
        \<and> (\<forall>c \<in> X. in_group rt sub (call_message c)) \<and> (\<forall>a \<in> X. \<forall>b \<in> X. call_now a - call_now b \<le> W)
       \<longrightarrow> int (card X) \<le> n)"
  using postgres_q.once [OF pg_fleet_ok [OF assms]] postgres_q.rate [OF pg_fleet_ok [OF assms]] by blast

definition demo_table :: pg_table where
  "demo_table = pg_enqueue ''2'' ''shop'' ''ana'' ''late'' ''scheduler:x'' 0
     (pg_enqueue ''1'' ''shop'' ''ana'' ''hello'' ''scheduler:x'' 0 [])"

definition no_locks :: row_locks where "no_locks worker now t = []"

lemma demo_table_reached: "pg_fleet no_locks demo_dispatcher \<lparr>fl_queue = demo_table, fl_jobs = [], fl_calls = []\<rparr>"
proof -
  let ?s1 = "pg_start\<lparr>fl_queue := op_enqueue (pg_ops no_locks) ''1'' ''shop'' ''ana'' ''hello'' ''scheduler:x'' 0 (fl_queue pg_start)\<rparr>"
  let ?s2 = "?s1\<lparr>fl_queue := op_enqueue (pg_ops no_locks) ''2'' ''shop'' ''ana'' ''late'' ''scheduler:x'' 0 (fl_queue ?s1)\<rparr>"
  have 1: "fleet_step (pg_ops no_locks) pg_look demo_dispatcher pg_start ?s1"
    by (rule fleet_step.Submit) (simp add: pg_start_def pg_look_def pg_row_of_def)
  have 2: "fleet_step (pg_ops no_locks) pg_look demo_dispatcher ?s1 ?s2"
    by (rule fleet_step.Submit) (simp add: pg_start_def pg_look_def pg_row_of_def pg_ops_def pg_enqueue_def row_id_def)
  have "?s2 = \<lparr>fl_queue = demo_table, fl_jobs = [], fl_calls = []\<rparr>"
    by (simp add: pg_start_def pg_ops_def demo_table_def)
  with rtranclp_trans [OF r_into_rtranclp r_into_rtranclp, where r = "fleet_step (pg_ops no_locks) pg_look demo_dispatcher", OF 1 2]
  show ?thesis using pg_whole_steps [of no_locks demo_dispatcher pg_start] by (simp add: pg_fleet_def)
qed

theorem postgres_delivers_at_most_once_witness:
  "\<exists>s. pg_fleet no_locks demo_dispatcher s \<and> calls_made (fl_calls s) = [(''1'', (''sms'', ''555''), Accepted)]
    \<and> length (filter (\<lambda>c. call_id c = ''1'' \<and> \<not> limited c) (fl_calls s)) \<le> 1"
proof -
  let ?run = "run_once (pg_ops no_locks) demo_dispatcher demo_send ''w'' 100 demo_table"
  have calls: "provider_calls (snd (snd ?run)) = [(''1'', (''sms'', ''555''), Accepted)]" by code_simp
  obtain s where s: "fleet_steps (pg_ops no_locks) pg_look demo_dispatcher \<lparr>fl_queue = demo_table, fl_jobs = [], fl_calls = []\<rparr> s"
      "calls_made (fl_calls s) = [(''1'', (''sms'', ''555''), Accepted)]"
    using postgres_q.run_steps [OF pg_fleet_ok [OF demo_table_reached], of True no_locks demo_send "''w''" 100 "fst ?run" "fst (snd ?run)" "snd (snd ?run)"]
      calls by (auto simp: calls_made_def pg_ops_of_def)
  have "pg_fleet no_locks demo_dispatcher s"
    by (rule pg_whole_steps [OF demo_table_reached s(1)])
  then show ?thesis using postgres_delivers_at_most_once s(2) by blast
qed

end
