(* ===== verification/Schedules.thy ===== *)
theory Schedules
  imports Proactive
begin

section \<open>Schedules\<close>

text \<open>
  \<open>schedules.py\<close>: when a schedule runs, what a user may ask for, and the three tools that keep one user's
  schedules in the per-subject store.  Time zones are looked up by name in a database that is an
  argument, as are the texts of a moment and of a number of hours.  A \<open>time\<close> is its seconds since midnight.
\<close>

subsection \<open>Limits\<close>

definition WRITE_SCHEDULE :: string where "WRITE_SCHEDULE = ''write:schedule''"
definition SCHEDULES_TABLE :: string where "SCHEDULES_TABLE = ''subject_schedules''"
definition FREQUENCIES :: "string list" where "FREQUENCIES = [''daily'', ''weekly'', ''interval'']"

definition WEEKDAYS :: "string list" where
  "WEEKDAYS = [''monday'', ''tuesday'', ''wednesday'', ''thursday'', ''friday'', ''saturday'', ''sunday'']"

definition DAY_S :: int where "DAY_S = 86400"
definition WEEK_S :: int where "WEEK_S = 7 * DAY_S"

type_synonym zone_database = "string \<Rightarrow> time_zone option"

definition zone_named :: "zone_database \<Rightarrow> string \<Rightarrow> time_zone res" where
  "zone_named zones name =
     (case zones name of None \<Rightarrow> Inl (ScheduleRejected ''unknown time zone'') | Some z \<Rightarrow> Inr z)"

record schedule_limits =
  max_per_user :: int
  min_interval_s :: int
  limit_quiet_hours :: "(rat \<times> rat) option"
  quiet_tz :: string
  default_tz :: string
  max_prompt_chars :: int
  missed_grace_s :: int

fun int_at_least :: "int \<Rightarrow> pyval \<Rightarrow> string \<Rightarrow> int res" where
  "int_at_least least (PInt i) name = (if i < least then Inl (ValueErr name) else Inr i)"
| "int_at_least least v name = Inl (ValueErr name)"

definition ScheduleLimits ::
  "zone_database \<Rightarrow> pyval \<Rightarrow> pyval \<Rightarrow> (rat \<times> rat) option \<Rightarrow> string \<Rightarrow> string \<Rightarrow> pyval \<Rightarrow> pyval \<Rightarrow> schedule_limits res" where
  "ScheduleLimits zones per_user interval quiet qtz dtz chars grace =
     bindR (int_at_least 1 per_user ''max_per_user'') (\<lambda>n.
     bindR (int_at_least 1 interval ''min_interval_s'') (\<lambda>i.
     bindR (int_at_least 1 chars ''max_prompt_chars'') (\<lambda>c.
     bindR (int_at_least 0 grace ''missed_grace_s'') (\<lambda>g.
     bindR (zone_named zones qtz) (\<lambda>_.
     bindR (zone_named zones dtz) (\<lambda>_.
     Inr \<lparr>max_per_user = n, min_interval_s = i, limit_quiet_hours = quiet, quiet_tz = qtz, default_tz = dtz,
          max_prompt_chars = c, missed_grace_s = g\<rparr>))))))"

definition limit_quiet_until :: "zone_database \<Rightarrow> schedule_limits \<Rightarrow> rat \<Rightarrow> rat option res" where
  "limit_quiet_until zones l t =
     (case limit_quiet_hours l of None \<Rightarrow> Inr None
      | Some h \<Rightarrow> bindR (zone_named zones (quiet_tz l)) (\<lambda>z. Inr (quiet_until (Some h) z t)))"

subsection \<open>Recurrence\<close>

record recurrence =
  frequency :: string
  at_time :: "rat option"
  weekday :: "int option"
  interval_s :: "int option"
  rec_tz :: string

definition Recurrence ::
  "zone_database \<Rightarrow> string \<Rightarrow> rat option \<Rightarrow> int option \<Rightarrow> int option \<Rightarrow> string \<Rightarrow> recurrence res" where
  "Recurrence zones freq clock wd every tz =
     bindR (guardR (freq \<in> set FREQUENCIES) (ScheduleRejected ''frequency'')) (\<lambda>_.
     bindR (guardR (\<not> (freq \<in> {''daily'', ''weekly''} \<and> clock = None)) (ScheduleRejected ''time'')) (\<lambda>_.
     bindR (guardR (\<not> (freq = ''weekly'' \<and> (case wd of None \<Rightarrow> True | Some d \<Rightarrow> d < 0 \<or> 7 \<le> d)))
       (ScheduleRejected ''weekday'')) (\<lambda>_.
     bindR (guardR (\<not> (freq = ''interval'' \<and> (case every of None \<Rightarrow> True | Some s \<Rightarrow> s < 1)))
       (ScheduleRejected ''every_hours'')) (\<lambda>_.
     bindR (zone_named zones tz) (\<lambda>_.
     Inr \<lparr>frequency = freq, at_time = clock, weekday = wd, interval_s = every, rec_tz = tz\<rparr>)))))"

definition assertion :: err where "assertion = RuntimeErr ''AssertionError''"

text \<open>\<open>assert x is not None\<close>\<close>

definition asserted :: "'a option \<Rightarrow> 'a res" where
  "asserted x = (case x of None \<Rightarrow> Inl assertion | Some v \<Rightarrow> Inr v)"

definition min_gap_s :: "recurrence \<Rightarrow> int res" where
  "min_gap_s r =
     (if frequency r = ''daily'' then Inr DAY_S
      else if frequency r = ''weekly'' then Inr WEEK_S
      else asserted (interval_s r))"

text \<open>A moment past the year 9999 is an \<open>OverflowError\<close>.\<close>

definition END_OF_TIME :: rat where "END_OF_TIME = 253402300800"

definition moment :: "rat \<Rightarrow> rat res" where
  "moment t = (if t < END_OF_TIME then Inr t else Inl (RuntimeErr ''OverflowError''))"

text \<open>Day 0 of the epoch is a Thursday; Monday is weekday 0.\<close>

definition weekday_of :: "int \<Rightarrow> int" where "weekday_of day = (day + 3) mod 7"

fun first_window :: "time_zone \<Rightarrow> recurrence \<Rightarrow> rat \<Rightarrow> rat \<Rightarrow> int list \<Rightarrow> rat res" where
  "first_window z r clock after [] = Inl assertion"
| "first_window z r clock after (day # days) =
     (if frequency r = ''weekly'' \<and> Some (weekday_of day) \<noteq> weekday r then first_window z r clock after days
      else (let candidate = utc_of z (of_int day * DAY + clock, False) in
            if after < candidate then Inr candidate else first_window z r clock after days))"

definition next_after :: "zone_database \<Rightarrow> recurrence \<Rightarrow> rat \<Rightarrow> rat res" where
  "next_after zones r after =
     (if frequency r = ''interval''
      then bindR (asserted (interval_s r)) (\<lambda>s. moment (after + of_int s))
      else bindR (asserted (at_time r)) (\<lambda>clock.
           bindR (zone_named zones (rec_tz r)) (\<lambda>z.
             let first = \<lfloor>fst (local_of z after) / DAY\<rfloor>
             in first_window z r clock after (map (\<lambda>k. first + k) [0, 1, 2, 3, 4, 5, 6, 7, 8]))))"

definition following :: "zone_database \<Rightarrow> recurrence \<Rightarrow> rat \<Rightarrow> rat \<Rightarrow> rat res" where
  "following zones r due now =
     (if frequency r \<noteq> ''interval'' then next_after zones r now
      else bindR (asserted (interval_s r)) (\<lambda>s.
             let step = of_int s; elapsed = max (now - due) 0
             in moment (due + step * (of_int \<lfloor>elapsed / step\<rfloor> + 1))))"

subsection \<open>What the model asks for\<close>

text \<open>\<open>round\<close> on a float: to the nearest integer, halves to the even one.\<close>

definition round_even :: "rat \<Rightarrow> int" where
  "round_even r =
     (let f = \<lfloor>r\<rfloor>; d = r - of_int f in
      if d < 1 / 2 then f else if 1 / 2 < d then f + 1 else if even f then f else f + 1)"

fun interval_of_hours :: "pyval \<Rightarrow> int res" where
  "interval_of_hours (PInt h) = (if h \<le> 0 then Inl (ScheduleRejected ''every_hours'') else Inr (h * 3600))"
| "interval_of_hours (PFloat h _) = (if h \<le> 0 then Inl (ScheduleRejected ''every_hours'') else Inr (round_even (h * 3600)))"
| "interval_of_hours PPosInf = Inl (RuntimeErr ''OverflowError'')"
| "interval_of_hours PNaN = Inl (ValueErr ''cannot convert float NaN to integer'')"
| "interval_of_hours _ = Inl (ScheduleRejected ''every_hours'')"

definition is_digit :: "char \<Rightarrow> bool" where
  "is_digit c \<longleftrightarrow> 48 \<le> (of_char c :: nat) \<and> (of_char c :: nat) \<le> 57"

definition digit_value :: "char \<Rightarrow> int" where "digit_value c = int (of_char c) - 48"

text \<open>\<open>(\d{1,2}):(\d{2})\<close>, the whole string.\<close>

fun parse_clock :: "string \<Rightarrow> (int \<times> int) option" where
  "parse_clock [a, x, m, n] =
     (if is_digit a \<and> x = CHR '':'' \<and> is_digit m \<and> is_digit n
      then Some (digit_value a, 10 * digit_value m + digit_value n) else None)"
| "parse_clock [a, b, x, m, n] =
     (if is_digit a \<and> is_digit b \<and> x = CHR '':'' \<and> is_digit m \<and> is_digit n
      then Some (10 * digit_value a + digit_value b, 10 * digit_value m + digit_value n) else None)"
| "parse_clock _ = None"

definition parse_time :: "pyval \<Rightarrow> rat res" where
  "parse_time v =
     (case v of
        PStr s \<Rightarrow>
          (case parse_clock (strip s) of
             Some (h, m) \<Rightarrow> if 23 < h \<or> 59 < m then Inl (ScheduleRejected ''time'') else Inr (of_int (h * 3600 + m * 60))
           | None \<Rightarrow> Inl (ScheduleRejected ''time''))
      | _ \<Rightarrow> Inl (ScheduleRejected ''time''))"

definition parse_weekday :: "pyval option \<Rightarrow> int res" where
  "parse_weekday v =
     (let name = map lower_char (strip (case v of None \<Rightarrow> [] | Some w \<Rightarrow> py_str w));
          matches = filter (\<lambda>i. starts_with (WEEKDAYS ! nat i) (take 3 name)) [0, 1, 2, 3, 4, 5, 6]
      in if length name < 3 \<or> length matches \<noteq> 1 then Inl (ScheduleRejected ''weekday'') else Inr (hd matches))"

definition parse_recurrence :: "zone_database \<Rightarrow> dict \<Rightarrow> string \<Rightarrow> recurrence res" where
  "parse_recurrence zones inputs fallback_tz =
     (case dget inputs ''frequency'' of
        PStr freq \<Rightarrow>
          if freq \<notin> set FREQUENCIES then Inl (ScheduleRejected ''frequency'')
          else (case (if py_truthy (dget inputs ''timezone'') then dget inputs ''timezone'' else PStr fallback_tz) of
                  PStr tz \<Rightarrow>
                    if freq = ''interval''
                    then bindR (interval_of_hours (dget inputs ''every_hours'')) (\<lambda>s.
                           Recurrence zones ''interval'' None None (Some s) tz)
                    else bindR (parse_time (dget inputs ''time'')) (\<lambda>clock.
                           if freq = ''daily'' then Recurrence zones ''daily'' (Some clock) None None tz
                           else bindR (parse_weekday (map_of inputs ''weekday'')) (\<lambda>d.
                                  Recurrence zones ''weekly'' (Some clock) (Some d) None tz))
                | _ \<Rightarrow> Inl (ScheduleRejected ''timezone''))
      | _ \<Rightarrow> Inl (ScheduleRejected ''frequency''))"

subsection \<open>When a schedule runs\<close>

text \<open>The schedule fires at this moment: the wall clock of its zone shows its time, on its weekday.\<close>

definition fires :: "time_zone \<Rightarrow> recurrence \<Rightarrow> rat \<Rightarrow> bool" where
  "fires z r t \<longleftrightarrow> at_time r = Some (time_of_day z t)
     \<and> (frequency r = ''weekly'' \<longrightarrow> weekday r = Some (weekday_of \<lfloor>fst (local_of z t) / DAY\<rfloor>))"

text \<open>What the constructor guarantees.\<close>

definition recurrence_ok :: "zone_database \<Rightarrow> recurrence \<Rightarrow> bool" where
  "recurrence_ok zones r \<longleftrightarrow> zones (rec_tz r) \<noteq> None \<and> frequency r \<in> set FREQUENCIES
     \<and> (frequency r = ''interval'' \<longrightarrow> (\<exists>s. interval_s r = Some s \<and> 1 \<le> s))
     \<and> (frequency r \<noteq> ''interval'' \<longrightarrow> at_time r \<noteq> None)
     \<and> (frequency r = ''weekly'' \<longrightarrow> (\<exists>d. weekday r = Some d \<and> 0 \<le> d \<and> d < 7))"

lemma frequency_cases: "f \<in> set FREQUENCIES \<longleftrightarrow> f = ''daily'' \<or> f = ''weekly'' \<or> f = ''interval''"
  by (simp add: FREQUENCIES_def)

lemma guarded: "bindR (guardR c e) f = Inr y \<longleftrightarrow> c \<and> f () = Inr y"
  by (cases c) simp_all

lemma Recurrence_ok:
  assumes "Recurrence zones freq clock wd every tz = Inr r"
  shows "recurrence_ok zones r"
proof -
  note a = assms [unfolded Recurrence_def guarded]
  then have z: "bindR (zone_named zones tz) (\<lambda>_. Inr \<lparr>frequency = freq, at_time = clock, weekday = wd, interval_s = every,
      rec_tz = tz\<rparr>) = Inr r" by blast
  then have r: "r = \<lparr>frequency = freq, at_time = clock, weekday = wd, interval_s = every, rec_tz = tz\<rparr>"
    and t: "zones tz \<noteq> None" by (cases "zones tz"; simp add: zone_named_def)+
  have f: "freq = ''daily'' \<or> freq = ''weekly'' \<or> freq = ''interval''" using a frequency_cases by blast
  have "freq \<noteq> ''interval'' \<Longrightarrow> freq \<in> {''daily'', ''weekly''}" using f by simp
  then have "freq \<noteq> ''interval'' \<Longrightarrow> clock \<noteq> None" using a by simp
  moreover have "freq = ''weekly'' \<Longrightarrow> \<exists>d. wd = Some d \<and> 0 \<le> d \<and> d < 7" using a by (cases wd) auto
  moreover have "freq = ''interval'' \<Longrightarrow> \<exists>s. every = Some s \<and> 1 \<le> s" using a by (cases every) auto
  ultimately show ?thesis using a t unfolding recurrence_ok_def r by simp
qed

lemma first_window_sound:
  assumes "first_window z r clock after days = Inr t"
  shows "after < t \<and> (\<exists>day \<in> set days. t = utc_of z (of_int day * DAY + clock, False)
    \<and> (frequency r = ''weekly'' \<longrightarrow> weekday r = Some (weekday_of day)))"
  using assms by (induction days) (auto simp: Let_def split: if_splits)

lemma first_window_found:
  assumes "day \<in> set days" and "frequency r = ''weekly'' \<Longrightarrow> weekday r = Some (weekday_of day)"
    and "after < utc_of z (of_int day * DAY + clock, False)"
  shows "\<exists>t. first_window z r clock after days = Inr t"
  using assms by (induction days) (auto simp: Let_def)

lemma first_window_least:
  assumes "first_window z r clock after days = Inr t" and "sorted days"
    and "\<And>day. day \<in> set days \<Longrightarrow> utc_of z (of_int day * DAY + clock, False) = of_int day * DAY + clock - off"
    and "day \<in> set days" and "frequency r = ''weekly'' \<Longrightarrow> weekday r = Some (weekday_of day)"
    and "after < of_int day * DAY + clock - off"
  shows "t \<le> of_int day * DAY + clock - off"
  using assms(1,2,3,4)
proof (induction days)
  case (Cons d ds)
  have d: "of_int d * DAY + clock - off \<le> of_int day * DAY + clock - off"
    using Cons.prems(2,4) by (auto simp: DAY_def)
  show ?case
  proof (cases "frequency r = ''weekly'' \<and> Some (weekday_of d) \<noteq> weekday r \<or> \<not> after < utc_of z (of_int d * DAY + clock, False)")
    case True
    then have "d \<noteq> day" using assms(5,6) Cons.prems(3) [of day] Cons.prems(4) by auto
    moreover have "first_window z r clock after ds = Inr t" using True Cons.prems(1) by (auto simp: Let_def split: if_splits)
    ultimately show ?thesis using Cons.IH Cons.prems(2-4) by auto
  next
    case False
    then have "t = utc_of z (of_int d * DAY + clock, False)"
      using Cons.prems(1) by (auto simp: Let_def split: if_splits)
    then show ?thesis using Cons.prems(3) [of d] d by simp
  qed
qed simp

text \<open>Some day of the week that begins now is any given weekday.\<close>

lemma weekday_soon:
  assumes "0 \<le> d" and "d < 7"
  shows "\<exists>k \<in> {0..6}. weekday_of (first + k) = d"
proof
  let ?k = "(d - (first + 3)) mod 7"
  show "?k \<in> {0..6}" by simp
  have "weekday_of (first + ?k) = (first + 3 + ?k) mod 7" by (simp add: weekday_of_def algebra_simps)
  also have "\<dots> = (first + 3 + (d - (first + 3))) mod 7" by (rule mod_add_right_eq)
  finally show "weekday_of (first + ?k) = d" using assms by simp
qed

lemma day_floor: "0 \<le> c \<Longrightarrow> c < DAY \<Longrightarrow> \<lfloor>(of_int d * DAY + c) / DAY\<rfloor> = d"
  by (simp add: floor_eq_iff DAY_def field_simps)

lemma day_of_floor: "day_of w = of_int \<lfloor>w / DAY\<rfloor> * DAY"
  by (simp add: day_of_def)

definition window_gap :: "recurrence \<Rightarrow> rat" where
  "window_gap r = (if frequency r = ''weekly'' then 7 * DAY else DAY)"

lemma window_in_reach:
  assumes ok: "recurrence_ok zones r" and clock: "0 \<le> clock" "clock < DAY" and w: "of_int first * DAY \<le> w" "w < of_int first * DAY + DAY"
  shows "\<exists>k \<in> {0..7}. (frequency r = ''weekly'' \<longrightarrow> weekday r = Some (weekday_of (first + k)))
    \<and> w < of_int (first + k) * DAY + clock \<and> of_int (first + k) * DAY + clock \<le> w + window_gap r"
proof (cases "frequency r = ''weekly''")
  case False
  then show ?thesis
    using clock w by (intro bexI [of _ "if w < of_int first * DAY + clock then 0 else 1"])
      (auto simp: window_gap_def distrib_right)
next
  case True
  then obtain d where d: "weekday r = Some d" "0 \<le> d" "d < 7" using ok by (auto simp: recurrence_ok_def)
  obtain k where k: "k \<in> {0..6}" "weekday_of (first + k) = d" using weekday_soon [OF d(2,3), of first] by blast
  have wk: "weekday_of (first + 7) = weekday_of first"
    using mod_add_self2 [of "first + 3" 7] by (simp add: weekday_of_def algebra_simps)
  have r: "of_int k \<le> (6 :: rat)" "1 \<le> k \<Longrightarrow> (1 :: rat) \<le> of_int k" using k(1) by simp_all
  have DAY: "of_int k * DAY \<le> 6 * DAY" "1 \<le> k \<Longrightarrow> DAY \<le> of_int k * DAY"
    using r by (simp_all add: DAY_def)
  show ?thesis
  proof (cases "k = 0 \<and> \<not> w < of_int first * DAY + clock")
    case True
    then show ?thesis using d(1) k(2) wk clock w \<open>frequency r = ''weekly''\<close>
      by (intro bexI [of _ 7]) (auto simp: window_gap_def distrib_right)
  next
    case False
    then have "w < of_int (first + k) * DAY + clock"
    proof (cases "k = 0")
      case False
      then have "DAY \<le> of_int k * DAY" using k(1) by (intro DAY(2)) simp
      then show ?thesis using w clock unfolding of_int_add distrib_right by linarith
    qed (use False in simp)
    moreover have "of_int (first + k) * DAY + clock \<le> w + 7 * DAY"
      using w clock DAY(1) unfolding of_int_add distrib_right by linarith
    ultimately show ?thesis using d(1) k \<open>frequency r = ''weekly''\<close>
      by (intro bexI [of _ k]) (auto simp: window_gap_def)
  qed
qed

text \<open>
  A daily or weekly schedule runs at its time. Where the zone keeps its offset, the next run after now exists, is the
  first moment at which the schedule fires, and is at most a day or a week away.
\<close>

theorem next_run_is_next_window:
  assumes ok: "recurrence_ok zones r" and freq: "frequency r \<noteq> ''interval''" and z: "zones (rec_tz r) = Some z"
    and clock: "at_time r = Some clock" "0 \<le> clock" "clock < DAY" and st: "steady z (now - DAY) (now + 9 * DAY) off"
  shows "\<exists>t. next_after zones r now = Inr t \<and> now < t \<and> t \<le> now + window_gap r \<and> fires z r t
    \<and> (\<forall>u. now < u \<and> u < t \<longrightarrow> \<not> fires z r u)"
proof -
  define w first where "w = now + off" and "first = \<lfloor>w / DAY\<rfloor>"
  let ?days = "map (\<lambda>k. first + k) [0, 1, 2, 3, 4, 5, 6, 7, 8]" and ?c = "\<lambda>d. of_int d * DAY + clock - off"
  have w: "of_int first * DAY \<le> w" "w < of_int first * DAY + DAY"
    using day_of_bounds [of w] by (simp_all add: day_of_floor first_def)
  have lo: "fst (local_of z t) = t + off" "utc_of z (t + off, l) = t" if "now - DAY \<le> t" "t \<le> now + 9 * DAY" for t l
    using st that unfolding steady_def by blast+
  have gap: "window_gap r \<le> 7 * DAY" and DAY: "0 < DAY" by (simp_all add: window_gap_def DAY_def)
  have in_range: "now - DAY \<le> ?c d" "?c d \<le> now + 9 * DAY" if "d \<in> set ?days" for d
    using that w clock(2,3) by (auto simp: w_def distrib_right DAY_def)
  have cand: "utc_of z (of_int d * DAY + clock, False) = ?c d" if "d \<in> set ?days" for d
    using lo(2) [OF in_range [OF that], of False] by simp
  have days: "d \<in> set ?days" if "first \<le> d" "d \<le> first + 8" for d using that by simp presburger
  have "fst (local_of z now) = w" using lo(1) [of now] DAY by (simp add: w_def)
  then have next_eq: "next_after zones r now = first_window z r clock now ?days"
    unfolding next_after_def asserted_def zone_named_def first_def
    using freq z clock(1) by (simp add: Let_def del: first_window.simps list.map)
  obtain k where k: "k \<in> {0..7}" "frequency r = ''weekly'' \<longrightarrow> weekday r = Some (weekday_of (first + k))"
      "now < ?c (first + k)" "?c (first + k) \<le> now + window_gap r"
    using window_in_reach [OF ok clock(2,3) w] by (auto simp: w_def)
  then have kd: "first + k \<in> set ?days" by (intro days) auto
  obtain t where t: "first_window z r clock now ?days = Inr t"
    using first_window_found [OF kd, of r now z clock] k(2,3) unfolding cand [OF kd] by blast
  obtain d where d: "now < t" "d \<in> set ?days" "t = ?c d" "frequency r = ''weekly'' \<longrightarrow> weekday r = Some (weekday_of d)"
  proof -
    obtain d where "now < t" and d: "d \<in> set ?days" "t = utc_of z (of_int d * DAY + clock, False)"
        "frequency r = ''weekly'' \<longrightarrow> weekday r = Some (weekday_of d)"
      using first_window_sound [OF t] by blast
    then show ?thesis using that [of d] unfolding cand [OF d(1)] by blast
  qed
  have least: "t \<le> ?c e" if "e \<in> set ?days" "frequency r = ''weekly'' \<Longrightarrow> weekday r = Some (weekday_of e)" "now < ?c e" for e
    using first_window_least [OF t _ cand that(1)] that(2,3) by simp
  have "t \<le> now + window_gap r" using least [OF kd] k(2-4) by auto
  moreover have "fires z r t"
    using lo(1) [of t] in_range [OF d(2)] d(3,4) clock day_floor [OF clock(2,3), of d]
    by (simp add: fires_def time_of_day_def day_of_floor)
  moreover have "\<not> fires z r u" if u: "now < u" "u < t" for u
  proof
    assume f: "fires z r u"
    let ?e = "\<lfloor>(u + off) / DAY\<rfloor>"
    have l: "fst (local_of z u) = u + off"
      using lo(1) [of u] u \<open>t \<le> now + window_gap r\<close> gap DAY by simp
    have "u = ?c ?e" "frequency r = ''weekly'' \<Longrightarrow> weekday r = Some (weekday_of ?e)"
      using f clock(1) by (auto simp: fires_def time_of_day_def l day_of_floor)
    moreover have "first \<le> ?e" unfolding first_def by (rule floor_mono) (use u DAY in \<open>simp add: w_def divide_right_mono\<close>)
    moreover have "?e \<le> first + 8"
    proof -
      have "u + off < of_int first * DAY + DAY + 7 * DAY" using u w(2) \<open>t \<le> now + window_gap r\<close> gap by (simp add: w_def)
      then have "(u + off) / DAY < of_int (first + 8)" by (simp add: DAY_def field_simps)
      then show ?thesis by (simp add: floor_le_iff less_imp_le)
    qed
    ultimately show False using least [OF days] u by fastforce
  qed
  ultimately show ?thesis using next_eq t d(1) by auto
qed

text \<open>
  An interval keeps its grid. The window after a claim, however late the claim, is a whole number of intervals
  after the claimed one, lies after now, and is the first such.
\<close>

theorem following_keeps_grid:
  assumes "frequency r = ''interval''" and "interval_s r = Some s" and "1 \<le> s" and "following zones r due now = Inr t"
  shows "now < t \<and> due < t \<and> (\<exists>k. 1 \<le> k \<and> t = due + of_int k * of_int s) \<and> t \<le> max now due + of_int s"
proof -
  let ?s = "of_int s :: rat" let ?e = "max (now - due) 0" let ?k = "\<lfloor>?e / ?s\<rfloor> + 1"
  have s: "0 < ?s" using assms(3) by simp
  have t: "t = due + ?s * of_int ?k"
    using assms(1,2,4) by (auto simp: following_def asserted_def moment_def Let_def split: if_splits)
  have "?e / ?s < of_int ?k" "of_int ?k - 1 \<le> ?e / ?s" by linarith+
  then have "?e < of_int ?k * ?s" "(of_int ?k - 1) * ?s \<le> ?e"
    using s by (simp_all only: pos_divide_less_eq pos_le_divide_eq)
  then have b: "?e < ?s * of_int ?k" "?s * of_int ?k \<le> ?e + ?s" by (simp_all add: algebra_simps)
  moreover have "0 \<le> ?e / ?s" using s by simp
  then have "1 \<le> ?k" by simp
  ultimately show ?thesis unfolding t by (auto simp: mult.commute intro!: exI [of _ ?k])
qed

lemma following_later:
  assumes "recurrence_ok zones r" and "following zones r due now = Inr t" and "due \<le> now"
  shows "now < t"
proof (cases "frequency r = ''interval''")
  case True
  then obtain s where "interval_s r = Some s" "1 \<le> s" using assms(1) by (auto simp: recurrence_ok_def)
  then show ?thesis using following_keeps_grid [OF True _ _ assms(2)] by blast
next
  case False
  then show ?thesis
    using assms(2) unfolding following_def next_after_def
    by (auto simp: bindR_eq_Inr Let_def simp del: first_window.simps list.map dest: first_window_sound)
qed

subsection \<open>Stored schedules\<close>

record schedule =
  sc_id :: string
  sc_runtime :: string
  sc_subject :: string
  sc_prompt :: string
  sc_recurrence :: recurrence
  sc_next_run :: rat
  sc_created :: rat
  sc_last_run :: "rat option"
  sc_last_status :: "string option"

record claimed_run =
  cr_schedule :: schedule
  cr_due :: rat

text \<open>The operations of a store of schedules, a user's and a worker's.\<close>

record 'st schedule_ops =
  so_list :: "pair \<Rightarrow> 'st \<Rightarrow> schedule list \<times> 'st"
  so_add :: "pair \<Rightarrow> schedule \<Rightarrow> int \<Rightarrow> 'st \<Rightarrow> bool \<times> 'st"
  so_remove :: "pair \<Rightarrow> string \<Rightarrow> 'st \<Rightarrow> bool \<times> 'st"
  so_claim :: "rat \<Rightarrow> (schedule \<Rightarrow> rat \<Rightarrow> rat res) \<Rightarrow> 'st \<Rightarrow> claimed_run option res \<times> 'st"
  so_record :: "string \<Rightarrow> string \<Rightarrow> string \<Rightarrow> string \<Rightarrow> rat \<Rightarrow> 'st \<Rightarrow> 'st"

type_synonym schedule_store = "schedule store"

definition backend_list :: "pair \<Rightarrow> schedule_store \<Rightarrow> schedule list \<times> schedule_store" where
  "backend_list p st =
     (case scope_rows st p SCHEDULES_TABLE of (rows, st') \<Rightarrow>
        (sort_key (\<lambda>s. (sc_created s, sc_id s)) (map snd rows), st'))"

definition backend_add :: "pair \<Rightarrow> schedule \<Rightarrow> int \<Rightarrow> schedule_store \<Rightarrow> bool \<times> schedule_store" where
  "backend_add p s per_user st =
     (case scope_rows st p SCHEDULES_TABLE of (rows, st') \<Rightarrow>
        if per_user \<le> int (length rows) then (False, st')
        else (True, scope_put st' p SCHEDULES_TABLE (sc_id s) s))"

definition backend_remove :: "pair \<Rightarrow> string \<Rightarrow> schedule_store \<Rightarrow> bool \<times> schedule_store" where
  "backend_remove p i st =
     (case scope_rows st p SCHEDULES_TABLE of (rows, st') \<Rightarrow>
        (i \<in> set (dkeys rows), scope_delete st' p SCHEDULES_TABLE i))"

definition store_claim_due ::
  "rat \<Rightarrow> (schedule \<Rightarrow> rat \<Rightarrow> rat res) \<Rightarrow> schedule_store \<Rightarrow> claimed_run option res \<times> schedule_store" where
  "store_claim_due now advance st =
     (case filter (\<lambda>(s, p). sc_next_run s \<le> now) (map (\<lambda>(rt, sk, k, s). (s, (rt, sk))) (all_rows st SCHEDULES_TABLE)) of
        [] \<Rightarrow> (Inr None, st)
      | x # xs \<Rightarrow>
          (case first_min (\<lambda>(s, p). (sc_next_run s, sc_id s)) x xs of (s, p) \<Rightarrow>
             (case advance s now of
                Inl e \<Rightarrow> (Inl e, st)
              | Inr t \<Rightarrow>
                  let moved = s\<lparr>sc_next_run := t\<rparr> in
                  (Inr (Some \<lparr>cr_schedule = moved, cr_due = sc_next_run s\<rparr>),
                   scope_put st p SCHEDULES_TABLE (sc_id s) moved))))"

definition store_record :: "string \<Rightarrow> string \<Rightarrow> string \<Rightarrow> string \<Rightarrow> rat \<Rightarrow> schedule_store \<Rightarrow> schedule_store" where
  "store_record rt sk i st_text now st =
     (case scope_get st (rt, sk) SCHEDULES_TABLE i of
        (None, st') \<Rightarrow> st'
      | (Some s, st') \<Rightarrow>
          scope_put st' (rt, sk) SCHEDULES_TABLE i (s\<lparr>sc_last_run := Some now, sc_last_status := Some st_text\<rparr>))"

definition store_delete :: "pair \<Rightarrow> schedule_store \<Rightarrow> int \<times> schedule_store" where
  "store_delete p st =
     (case backend_list p st of (ss, st1) \<Rightarrow>
        foldl (\<lambda>(n, st) s. case backend_remove p (sc_id s) st of (b, st') \<Rightarrow> (n + (if b then 1 else 0), st')) (0, st1) ss)"

definition scoped_schedules :: "schedule_store schedule_ops" where
  "scoped_schedules = \<lparr>so_list = backend_list, so_add = backend_add, so_remove = backend_remove,
     so_claim = store_claim_due, so_record = store_record\<rparr>"

subsection \<open>The tools\<close>

record schedule_texts =
  hours_text :: "rat \<Rightarrow> string"
  moment_text :: "rat \<Rightarrow> string"

definition two_digits :: "int \<Rightarrow> string" where
  "two_digits i = (if i < 10 then ''0'' @ int_str i else int_str i)"

definition clock_text :: "rat \<Rightarrow> string" where
  "clock_text t = two_digits (\<lfloor>t / 3600\<rfloor>) @ '':'' @ two_digits (\<lfloor>t / 60\<rfloor> mod 60)"

fun capitalize :: "string \<Rightarrow> string" where
  "capitalize [] = []"
| "capitalize (c # cs) = upper_char c # map lower_char cs"

definition describe :: "schedule_texts \<Rightarrow> recurrence \<Rightarrow> string res" where
  "describe x r =
     (if frequency r = ''interval''
      then bindR (asserted (interval_s r)) (\<lambda>s. Inr (''every '' @ hours_text x (of_int s / 3600) @ '' hours''))
      else bindR (asserted (at_time r)) (\<lambda>t.
           let clock = clock_text t @ '' '' @ rec_tz r in
           if frequency r = ''weekly''
           then bindR (asserted (weekday r)) (\<lambda>d. Inr (''every '' @ capitalize (WEEKDAYS ! nat d) @ '' at '' @ clock))
           else Inr (''every day at '' @ clock)))"

definition export_row :: "schedule_texts \<Rightarrow> schedule \<Rightarrow> dict res" where
  "export_row x s =
     bindR (describe x (sc_recurrence s)) (\<lambda>w.
       Inr [(''id'', PStr (sc_id s)), (''prompt'', PStr (sc_prompt s)), (''when'', PStr w),
            (''next_run_at'', PStr (moment_text x (sc_next_run s))), (''created_at'', PStr (moment_text x (sc_created s))),
            (''last_run_at'', case sc_last_run s of None \<Rightarrow> PNone | Some t \<Rightarrow> PStr (moment_text x t)),
            (''last_status'', case sc_last_status s of None \<Rightarrow> PNone | Some t \<Rightarrow> PStr t)])"

definition tool_refusal :: "string \<Rightarrow> string \<Rightarrow> dict" where
  "tool_refusal kind message = [(''error'', PStr message), (''error_kind'', PStr kind)]"

text \<open>The guards of \<open>create\<close> before anything is stored, in the code's order.\<close>

definition schedule_requested ::
  "zone_database \<Rightarrow> schedule_limits \<Rightarrow> turn_actor option \<Rightarrow> dict \<Rightarrow> rat \<Rightarrow> (dict + string \<times> recurrence \<times> rat) res" where
  "schedule_requested zones l actor inputs now =
     (if (case actor of Some a \<Rightarrow> actor_kind a = ''scheduler'' | None \<Rightarrow> False)
      then Inr (Inl (tool_refusal ''scheduled_turn'' ''a scheduled run cannot create new schedules''))
      else case dget inputs ''prompt'' of
        PStr raw \<Rightarrow>
          if strip raw = [] \<or> max_prompt_chars l < int (length (strip raw))
          then Inr (Inl (tool_refusal ''invalid_prompt'' (''prompt must be 1 to '' @ int_str (max_prompt_chars l) @ '' characters'')))
          else (case parse_recurrence zones inputs (default_tz l) of
                  Inl (ScheduleRejected text) \<Rightarrow> Inr (Inl (tool_refusal ''invalid_schedule'' text))
                | Inl e \<Rightarrow> Inl e
                | Inr r \<Rightarrow>
                    bindR (min_gap_s r) (\<lambda>gap.
                    if gap < min_interval_s l
                    then Inr (Inl (tool_refusal ''interval_too_short''
                           (''runs must be at least '' @ int_str (min_interval_s l div 60) @ '' minutes apart'')))
                    else bindR (next_after zones r now) (\<lambda>t.
                         bindR (if frequency r \<noteq> ''interval'' then limit_quiet_until zones l t else Inr None) (\<lambda>quiet.
                         if quiet \<noteq> None
                         then Inr (Inl (tool_refusal ''quiet_hours'' ''that time falls inside quiet hours, when nothing is sent; choose another time''))
                         else Inr (Inr (strip raw, r, t))))))
      | _ \<Rightarrow> Inr (Inl (tool_refusal ''invalid_prompt'' (''prompt must be 1 to '' @ int_str (max_prompt_chars l) @ '' characters''))))"

definition create_schedule ::
  "zone_database \<Rightarrow> schedule_texts \<Rightarrow> 'st schedule_ops \<Rightarrow> schedule_limits \<Rightarrow> turn_actor option \<Rightarrow> rat \<Rightarrow> string \<Rightarrow> pair
   \<Rightarrow> dict \<Rightarrow> 'st \<Rightarrow> dict res \<times> 'st" where
  "create_schedule zones x ops l actor now fresh p inputs st =
     (case schedule_requested zones l actor inputs now of
        Inl e \<Rightarrow> (Inl e, st)
      | Inr (Inl refusal) \<Rightarrow> (Inr refusal, st)
      | Inr (Inr (prompt, r, t)) \<Rightarrow>
          let s = \<lparr>sc_id = fresh, sc_runtime = fst p, sc_subject = snd p, sc_prompt = prompt, sc_recurrence = r,
                   sc_next_run = t, sc_created = now, sc_last_run = None, sc_last_status = None\<rparr> in
          (case so_add ops p s (max_per_user l) st of
             (False, st') \<Rightarrow>
               (Inr (tool_refusal ''limit_reached'' (''at most '' @ int_str (max_per_user l) @ '' schedules per person; delete one first'')), st')
           | (True, st') \<Rightarrow>
               (bindR (describe x r) (\<lambda>w.
                  Inr [(''created'', PBool True), (''id'', PStr fresh), (''when'', PStr w), (''next_run_at'', PStr (moment_text x t))]), st')))"

definition list_schedules :: "schedule_texts \<Rightarrow> 'st schedule_ops \<Rightarrow> pair \<Rightarrow> 'st \<Rightarrow> dict res \<times> 'st" where
  "list_schedules x ops p st =
     (case so_list ops p st of (ss, st') \<Rightarrow>
        (bindR (mapR (\<lambda>s. bindR (describe x (sc_recurrence s)) (\<lambda>w.
             Inr (PDict [(''id'', PStr (sc_id s)), (''prompt'', PStr (sc_prompt s)), (''when'', PStr w),
                         (''next_run_at'', PStr (moment_text x (sc_next_run s)))]))) ss)
          (\<lambda>rows. Inr [(''schedules'', PList rows)]), st'))"

definition delete_schedule :: "'st schedule_ops \<Rightarrow> pair \<Rightarrow> dict \<Rightarrow> 'st \<Rightarrow> dict \<times> 'st" where
  "delete_schedule ops p inputs st =
     (let missing = [(''deleted'', PBool False),
             (''error'', PStr ''no schedule of yours has that id; list your schedules first''), (''error_kind'', PStr ''not_found'')]
      in case dget inputs ''id'' of
           PStr i \<Rightarrow> (case so_remove ops p i st of (b, st') \<Rightarrow> (if b then [(''deleted'', PBool True)] else missing, st'))
         | _ \<Rightarrow> (missing, st))"

subsection \<open>What a user gets\<close>

lemma parse_recurrence_ok: "parse_recurrence zones inputs fallback = Inr r \<Longrightarrow> recurrence_ok zones r"
  unfolding parse_recurrence_def
  by (auto simp: bindR_eq_Inr Let_def dest: Recurrence_ok split: pyval.splits if_splits)

lemma next_after_later:
  assumes "recurrence_ok zones r" and "next_after zones r now = Inr t"
  shows "now < t"
proof (cases "frequency r = ''interval''")
  case True
  then obtain s where "interval_s r = Some s" "1 \<le> s" using assms(1) by (auto simp: recurrence_ok_def)
  then show ?thesis using assms(2) True by (auto simp: next_after_def asserted_def moment_def split: if_splits)
next
  case False
  then show ?thesis
    using assms(2) unfolding next_after_def
    by (auto simp: bindR_eq_Inr Let_def simp del: first_window.simps list.map dest: first_window_sound)
qed

text \<open>
  Only a request within the limits is stored. It was not made in a scheduled turn, its prompt fits, its recurrence is
  well formed and no more frequent than allowed, its first run lies after now and, unless it is an interval,
  outside quiet hours.
\<close>

theorem schedule_requests_guarded:
  assumes "schedule_requested zones l actor inputs now = Inr (Inr (prompt, r, t))"
  shows "(\<forall>a. actor = Some a \<longrightarrow> actor_kind a \<noteq> ''scheduler'')
    \<and> prompt \<noteq> [] \<and> int (length prompt) \<le> max_prompt_chars l
    \<and> recurrence_ok zones r \<and> (\<exists>gap. min_gap_s r = Inr gap \<and> min_interval_s l \<le> gap)
    \<and> next_after zones r now = Inr t \<and> now < t
    \<and> (frequency r \<noteq> ''interval'' \<longrightarrow> limit_quiet_until zones l t = Inr None)"
proof -
  have a: "\<not> (case actor of Some a \<Rightarrow> actor_kind a = ''scheduler'' | None \<Rightarrow> False)"
    using assms by (auto simp: schedule_requested_def split: if_splits)
  obtain raw where raw: "dget inputs ''prompt'' = PStr raw"
      "\<not> (strip raw = [] \<or> max_prompt_chars l < int (length (strip raw)))"
    using assms a by (auto simp: schedule_requested_def split: if_splits pyval.splits)
  obtain r1 where r1: "parse_recurrence zones inputs (default_tz l) = Inr r1"
    using assms a raw by (auto simp: schedule_requested_def split: sum.splits err.splits)
  have rest: "bindR (min_gap_s r1) (\<lambda>gap. if gap < min_interval_s l
                    then Inr (Inl (tool_refusal ''interval_too_short''
                           (''runs must be at least '' @ int_str (min_interval_s l div 60) @ '' minutes apart'')))
                    else bindR (next_after zones r1 now) (\<lambda>t.
                         bindR (if frequency r1 \<noteq> ''interval'' then limit_quiet_until zones l t else Inr None) (\<lambda>quiet.
                         if quiet \<noteq> None
                         then Inr (Inl (tool_refusal ''quiet_hours'' ''that time falls inside quiet hours, when nothing is sent; choose another time''))
                         else Inr (Inr (strip raw, r1, t))))) = Inr (Inr (prompt, r, t))"
    using assms a raw r1 by (simp add: schedule_requested_def)
  then obtain gap where "min_gap_s r1 = Inr gap" "\<not> gap < min_interval_s l" "next_after zones r1 now = Inr t"
      "(if frequency r1 \<noteq> ''interval'' then limit_quiet_until zones l t else Inr None) = Inr None"
      "r = r1" "prompt = strip raw"
    by (auto simp: bindR_eq_Inr split: if_splits)
  moreover have "recurrence_ok zones r1" by (rule parse_recurrence_ok [OF r1])
  ultimately show ?thesis
    using a raw(2) next_after_later by (auto simp: not_less split: if_splits option.splits)
qed

definition demo_zones :: zone_database where "demo_zones name = (if name = ''UTC'' then Some utc else None)"

definition demo_limits :: schedule_limits where
  "demo_limits = \<lparr>max_per_user = 1, min_interval_s = 3600, limit_quiet_hours = Some (79200, 21600), quiet_tz = ''UTC'',
     default_tz = ''UTC'', max_prompt_chars = 500, missed_grace_s = 1800\<rparr>"

definition monday_request :: dict where
  "monday_request = [(''prompt'', PStr ''weekly sales''), (''frequency'', PStr ''weekly''), (''time'', PStr ''08:00''),
     (''weekday'', PStr ''Monday'')]"

definition monday_eight :: recurrence where
  "monday_eight = \<lparr>frequency = ''weekly'', at_time = Some 28800, weekday = Some 0, interval_s = None, rec_tz = ''UTC''\<rparr>"

lemma monday_requested: "schedule_requested demo_zones demo_limits None monday_request 0 = Inr (Inr (''weekly sales'', monday_eight, 374400))"
  by code_simp

theorem schedule_requests_guarded_witness:
  "recurrence_ok demo_zones monday_eight \<and> next_after demo_zones monday_eight 0 = Inr 374400"
  using schedule_requests_guarded [OF monday_requested] by blast

theorem next_run_is_next_window_witness:
  "\<exists>t. next_after demo_zones monday_eight 0 = Inr t \<and> fires utc monday_eight t \<and> t \<le> 7 * DAY"
proof -
  have "Recurrence demo_zones ''weekly'' (Some 28800) (Some 0) None ''UTC'' = Inr monday_eight" by code_simp
  then have "recurrence_ok demo_zones monday_eight" by (rule Recurrence_ok)
  moreover have "steady utc (0 - DAY) (0 + 9 * DAY) 0" by (simp add: steady_def utc_def)
  ultimately show ?thesis
    using next_run_is_next_window [of demo_zones monday_eight utc 28800 0 0]
    by (auto simp: monday_eight_def demo_zones_def DAY_def window_gap_def)
qed

theorem following_keeps_grid_witness:
  "\<exists>t. following demo_zones (monday_eight\<lparr>frequency := ''interval'', interval_s := Some 3600\<rparr>) 100 10000 = Inr t
     \<and> (\<exists>k. 1 \<le> k \<and> t = 100 + of_int k * of_int 3600) \<and> 10000 < t"
proof -
  let ?r = "monday_eight\<lparr>frequency := ''interval'', interval_s := Some 3600\<rparr>"
  have "following demo_zones ?r 100 10000 = Inr 10900" by code_simp
  then show ?thesis using following_keeps_grid [of ?r 3600 demo_zones 100 10000 10900] by auto
qed

end
