(* ===== verification/Schedule_Runs.thy ===== *)
theory Schedule_Runs
  imports Schedules Proactive_Fleet
begin

section \<open>Schedules over time, and the runner\<close>

text \<open>
  What the tools and any number of runners of \<open>schedules.py\<close> do to a store of schedules over time, as steps with the
  claimed windows as their trace, and \<open>ScheduledTurnRunner\<close>.  What both rely on is the locale
  \<open>schedule_book\<close>, interpreted on the store behind the in-memory scopes.
\<close>

subsection \<open>What a store of schedules promises\<close>

type_synonym book = "pair \<Rightarrow> string \<Rightarrow> schedule option"

definition put_entry :: "book \<Rightarrow> pair \<Rightarrow> string \<Rightarrow> schedule option \<Rightarrow> book" where
  "put_entry b p i x = b(p := (b p)(i := x))"

definition held :: "book \<Rightarrow> pair \<Rightarrow> int" where
  "held b p = int (card (dom (b p)))"

definition owner :: "schedule \<Rightarrow> pair" where
  "owner s = (sc_runtime s, sc_subject s)"

locale schedule_book =
  fixes ops :: "'st schedule_ops"
    and ok :: "'st \<Rightarrow> bool"
    and entries :: "'st \<Rightarrow> book"
  assumes entry_key: "ok st \<Longrightarrow> entries st p i = Some s \<Longrightarrow> sc_id s = i \<and> owner s = p"
    and finite_entries: "ok st \<Longrightarrow> finite (dom (entries st p))"
    and list_entries: "ok st \<Longrightarrow> so_list ops p st = (ss, st') \<Longrightarrow>
      ok st' \<and> entries st' = entries st \<and> set ss = {s. \<exists>i. entries st p i = Some s} \<and> distinct ss"
    and add_entry: "ok st \<Longrightarrow> owner s = p \<Longrightarrow> so_add ops p s n st = (b, st') \<Longrightarrow>
      ok st' \<and> (b \<longrightarrow> held (entries st) p < n) \<and> entries st' = (if b then put_entry (entries st) p (sc_id s) (Some s) else entries st)"
    and remove_entry: "ok st \<Longrightarrow> so_remove ops p i st = (b, st') \<Longrightarrow>
      ok st' \<and> b = (entries st p i \<noteq> None) \<and> entries st' = put_entry (entries st) p i None"
    and claim_entry: "ok st \<Longrightarrow> so_claim ops now advance st = (Inr (Some c), st') \<Longrightarrow>
      ok st' \<and> (\<exists>s t. entries st (owner s) (sc_id s) = Some s \<and> cr_due c = sc_next_run s \<and> sc_next_run s \<le> now
        \<and> advance s now = Inr t \<and> cr_schedule c = s\<lparr>sc_next_run := t\<rparr>
        \<and> entries st' = put_entry (entries st) (owner s) (sc_id s) (Some (s\<lparr>sc_next_run := t\<rparr>)))"
    and claim_none: "ok st \<Longrightarrow> so_claim ops now advance st = (r, st') \<Longrightarrow> (\<forall>c. r \<noteq> Inr (Some c)) \<Longrightarrow>
      ok st' \<and> entries st' = entries st"
    and record_entry: "ok st \<Longrightarrow> ok (so_record ops rt sk i txt now st)
      \<and> entries (so_record ops rt sk i txt now st) = put_entry (entries st) (rt, sk) i
          (map_option (\<lambda>s. s\<lparr>sc_last_run := Some now, sc_last_status := Some txt\<rparr>) (entries st (rt, sk) i))"

subsection \<open>The steps\<close>

definition advance_window :: "zone_database \<Rightarrow> schedule \<Rightarrow> rat \<Rightarrow> rat res" where
  "advance_window zones s now = following zones (sc_recurrence s) (sc_next_run s) now"

record 'st schedule_world =
  sw_store :: 'st
  sw_claims :: "(pair \<times> string \<times> rat) list"

text \<open>The id of a new schedule is twelve digits of a \<open>uuid4\<close>, taken to be fresh.\<close>

inductive schedule_step ::
  "zone_database \<Rightarrow> schedule_texts \<Rightarrow> schedule_limits \<Rightarrow> 'st schedule_ops \<Rightarrow> ('st \<Rightarrow> book)
   \<Rightarrow> 'st schedule_world \<Rightarrow> 'st schedule_world \<Rightarrow> bool"
  for zones x l ops entries where
  Create: "entries (sw_store s) p fresh = None \<Longrightarrow> \<forall>(q, i, d) \<in> set (sw_claims s). i \<noteq> fresh \<Longrightarrow>
    create_schedule zones x ops l actor now fresh p inputs (sw_store s) = (r, st') \<Longrightarrow>
    schedule_step zones x l ops entries s (s\<lparr>sw_store := st'\<rparr>)"
| List: "so_list ops p (sw_store s) = (ss, st') \<Longrightarrow> schedule_step zones x l ops entries s (s\<lparr>sw_store := st'\<rparr>)"
| Remove: "so_remove ops p i (sw_store s) = (b, st') \<Longrightarrow> schedule_step zones x l ops entries s (s\<lparr>sw_store := st'\<rparr>)"
| Claimed: "so_claim ops now (advance_window zones) (sw_store s) = (Inr (Some c), st') \<Longrightarrow>
    schedule_step zones x l ops entries s (s\<lparr>sw_store := st',
      sw_claims := sw_claims s @ [(owner (cr_schedule c), sc_id (cr_schedule c), cr_due c)]\<rparr>)"
| NotClaimed: "so_claim ops now (advance_window zones) (sw_store s) = (r, st') \<Longrightarrow> \<forall>c. r \<noteq> Inr (Some c) \<Longrightarrow>
    schedule_step zones x l ops entries s (s\<lparr>sw_store := st'\<rparr>)"
| Record: "schedule_step zones x l ops entries s (s\<lparr>sw_store := so_record ops rt sk i txt now (sw_store s)\<rparr>)"

definition schedules_ok :: "zone_database \<Rightarrow> schedule_limits \<Rightarrow> book \<Rightarrow> (pair \<times> string \<times> rat) list \<Rightarrow> bool" where
  "schedules_ok zones l b claims \<longleftrightarrow> distinct claims \<and> (\<forall>p. held b p \<le> max_per_user l)
     \<and> (\<forall>p i s. b p i = Some s \<longrightarrow> recurrence_ok zones (sc_recurrence s)
          \<and> (\<forall>d. (p, i, d) \<in> set claims \<longrightarrow> d < sc_next_run s))"

lemma held_put:
  assumes "finite (dom (b p))"
  shows "held (put_entry b p i x) q \<le> held b q + (if q = p \<and> b p i = None \<and> x \<noteq> None then 1 else 0)"
proof (cases "q = p")
  case True
  have "card (dom ((b p)(i := x))) \<le> (if b p i = None \<and> x \<noteq> None then Suc (card (dom (b p))) else card (dom (b p)))"
  proof (cases x)
    case None
    then have "dom ((b p)(i := x)) \<subseteq> dom (b p)" by auto
    then show ?thesis using card_mono [OF assms] None by simp
  next
    case (Some s)
    then have "dom ((b p)(i := x)) = insert i (dom (b p))" by auto
    then show ?thesis using assms Some by (auto simp: card_insert_if domIff)
  qed
  then show ?thesis using True by (auto simp: held_def put_entry_def split: if_splits)
qed (simp add: held_def put_entry_def)

lemma put_ok:
  assumes "schedules_ok zones l b claims" and "finite (dom (b p))"
    and "\<And>s. x = Some s \<Longrightarrow> recurrence_ok zones (sc_recurrence s) \<and> (\<forall>d. (p, i, d) \<in> set claims \<longrightarrow> d < sc_next_run s)"
    and "b p i = None \<Longrightarrow> x \<noteq> None \<Longrightarrow> held b p < max_per_user l"
  shows "schedules_ok zones l (put_entry b p i x) claims"
proof -
  have "held (put_entry b p i x) q \<le> max_per_user l" for q
  proof (cases "q = p \<and> b p i = None \<and> x \<noteq> None")
    case True
    then have "held b q < max_per_user l" using assms(4) by blast
    then show ?thesis using held_put [where b = b and p = p and i = i and x = x and q = q, OF assms(2)] True by simp
  next
    case False
    moreover have "held b q \<le> max_per_user l" using assms(1) unfolding schedules_ok_def by blast
    ultimately show ?thesis using held_put [where b = b and p = p and i = i and x = x and q = q, OF assms(2)] by (simp only: if_False)
  qed
  then show ?thesis
    using assms(1,3) by (auto simp: schedules_ok_def put_entry_def)
qed

context schedule_book begin

lemma create_kept:
  assumes ok: "ok st" and inv: "schedules_ok zones l (entries st) claims" and fresh: "entries st p fresh = None"
    "\<forall>(q, i, d) \<in> set claims. i \<noteq> fresh"
    and c: "create_schedule zones x ops l actor now fresh p inputs st = (r, st')"
  shows "ok st' \<and> schedules_ok zones l (entries st') claims"
proof (cases "\<exists>prompt rc t. schedule_requested zones l actor inputs now = Inr (Inr (prompt, rc, t))")
  case False
  then have "st' = st" using c by (auto simp: create_schedule_def split: sum.splits)
  then show ?thesis using ok inv by simp
next
  case True
  then obtain prompt rc t where q: "schedule_requested zones l actor inputs now = Inr (Inr (prompt, rc, t))" by blast
  let ?s = "\<lparr>sc_id = fresh, sc_runtime = fst p, sc_subject = snd p, sc_prompt = prompt, sc_recurrence = rc,
      sc_next_run = t, sc_created = now, sc_last_run = None, sc_last_status = None\<rparr>"
  obtain b where add: "so_add ops p ?s (max_per_user l) st = (b, st')"
    using c q by (auto simp: create_schedule_def Let_def split: prod.splits bool.splits)
  note a = add_entry [OF ok _ add, unfolded owner_def, simplified]
  have "recurrence_ok zones rc"
    using q parse_recurrence_ok by (auto simp: schedule_requested_def bindR_eq_Inr split: if_splits pyval.splits sum.splits err.splits)
  moreover have "(p, fresh, d) \<notin> set claims" for d using fresh(2) by blast
  ultimately have "schedules_ok zones l (put_entry (entries st) p fresh (Some ?s)) claims" if "held (entries st) p < max_per_user l"
    by (intro put_ok [OF inv finite_entries [OF ok]]) (use that in auto)
  then show ?thesis using a inv by auto
qed

lemma step_kept:
  assumes "schedule_step zones x l ops entries s s'" and "ok (sw_store s)" and "schedules_ok zones l (entries (sw_store s)) (sw_claims s)"
  shows "ok (sw_store s') \<and> schedules_ok zones l (entries (sw_store s')) (sw_claims s')"
  using assms
proof (induction rule: schedule_step.induct)
  case (Create s p fresh actor now inputs r st')
  then show ?case using create_kept [OF Create.prems Create.hyps] by simp
next
  case (List p s ss st')
  then show ?case using list_entries [OF List.prems(1) List.hyps] by simp
next
  case (Remove p i s b st')
  have "schedules_ok zones l (put_entry (entries (sw_store s)) p i None) (sw_claims s)"
    by (rule put_ok [OF Remove.prems(2) finite_entries [OF Remove.prems(1)]]) simp_all
  then show ?case using remove_entry [OF Remove.prems(1) Remove.hyps] by simp
next
  case (Claimed now s c st')
  obtain e t where e: "entries (sw_store s) (owner e) (sc_id e) = Some e" "cr_due c = sc_next_run e" "sc_next_run e \<le> now"
      "advance_window zones e now = Inr t" "cr_schedule c = e\<lparr>sc_next_run := t\<rparr>"
      "entries st' = put_entry (entries (sw_store s)) (owner e) (sc_id e) (Some (e\<lparr>sc_next_run := t\<rparr>))" "ok st'"
    using claim_entry [OF Claimed.prems(1) Claimed.hyps] by blast
  have r: "recurrence_ok zones (sc_recurrence e)" and d: "\<forall>d. (owner e, sc_id e, d) \<in> set (sw_claims s) \<longrightarrow> d < sc_next_run e"
    using Claimed.prems(2) e(1) unfolding schedules_ok_def by blast+
  have later: "now < t" using following_later [OF r _ e(3)] e(4) by (simp add: advance_window_def)
  have "schedules_ok zones l (entries st') (sw_claims s)"
    unfolding e(6) by (rule put_ok [OF Claimed.prems(2) finite_entries [OF Claimed.prems(1)]]) (use r d later e in auto)
  moreover have "entries st' (owner e) (sc_id e) = Some (e\<lparr>sc_next_run := t\<rparr>)" by (simp add: e(6) put_entry_def)
  ultimately have "schedules_ok zones l (entries st') (sw_claims s @ [(owner e, sc_id e, sc_next_run e)])"
    using d later e(3) by (auto simp: schedules_ok_def)
  moreover have "owner (cr_schedule c) = owner e" "sc_id (cr_schedule c) = sc_id e" by (simp_all add: e(5) owner_def)
  ultimately show ?case using e(2,7) by simp
next
  case (NotClaimed now s r st')
  then show ?case using claim_none [OF NotClaimed.prems(1) NotClaimed.hyps] by simp
next
  case (Record s rt sk i outcome now)
  let ?x = "map_option (\<lambda>s. s\<lparr>sc_last_run := Some now, sc_last_status := Some outcome\<rparr>) (entries (sw_store s) (rt, sk) i)"
  have "schedules_ok zones l (put_entry (entries (sw_store s)) (rt, sk) i ?x) (sw_claims s)"
    by (rule put_ok [OF Record.prems(2) finite_entries [OF Record.prems(1)]])
      (use Record.prems(2) in \<open>auto simp: schedules_ok_def\<close>)
  then show ?case using record_entry [OF Record.prems(1)] by simp
qed

lemma steps_kept:
  assumes "(schedule_step zones x l ops entries)\<^sup>*\<^sup>* s s'" and "ok (sw_store s)" and "schedules_ok zones l (entries (sw_store s)) (sw_claims s)"
  shows "ok (sw_store s') \<and> schedules_ok zones l (entries (sw_store s')) (sw_claims s')"
  using assms by (induction rule: rtranclp_induct) (auto dest: step_kept)

end

subsection \<open>The store behind the scopes keeps them\<close>

definition scoped_entries :: "schedule_store \<Rightarrow> book" where
  "scoped_entries st p = map_of (fst (scope_rows st p SCHEDULES_TABLE))"

definition scoped_ok :: "schedule_store \<Rightarrow> bool" where
  "scoped_ok st \<longleftrightarrow> store_ok st \<and> (\<forall>p i s. scoped_entries st p i = Some s \<longrightarrow> sc_id s = i \<and> owner s = p)"

lemma scoped_okD: "scoped_ok st \<Longrightarrow> store_ok st" "scoped_ok st \<Longrightarrow> scoped_entries st p i = Some s \<Longrightarrow> sc_id s = i \<and> owner s = p"
  unfolding scoped_ok_def by blast+

lemma entries_touch: "scoped_entries (touch st p) = scoped_entries st"
  by (simp add: scoped_entries_def mem.rows_reads fun_eq_iff)

lemma entries_put: "scoped_entries (scope_put st p SCHEDULES_TABLE i s) = put_entry (scoped_entries st) p i (Some s)"
  by (auto simp: scoped_entries_def mem.rows_put put_entry_def fun_eq_iff)

lemma entries_delete: "scoped_entries (scope_delete st p SCHEDULES_TABLE i) = put_entry (scoped_entries st) p i None"
  by (auto simp: scoped_entries_def mem.rows_delete put_entry_def fun_eq_iff)

lemma scoped_touch: "scoped_ok st \<Longrightarrow> scoped_ok (touch st p)"
  by (simp add: scoped_ok_def entries_touch mem.ok_reads)

lemma scoped_put: "scoped_ok st \<Longrightarrow> sc_id s = i \<Longrightarrow> owner s = p \<Longrightarrow> scoped_ok (scope_put st p SCHEDULES_TABLE i s)"
  by (auto simp: scoped_ok_def entries_put mem.ok_put put_entry_def simp del: split_paired_All split: if_splits)

lemma scoped_delete: "scoped_ok st \<Longrightarrow> scoped_ok (scope_delete st p SCHEDULES_TABLE i)"
  by (auto simp: scoped_ok_def entries_delete mem.ok_delete put_entry_def simp del: split_paired_All split: if_splits)

lemma scope_rows_touch: "snd (scope_rows st p t) = touch st p"
  by (simp add: scope_rows_def)

lemma rows_distinct: "store_ok st \<Longrightarrow> distinct (dkeys (fst (scope_rows st p t)))"
  by (rule mem.distinct_rows)

lemma all_rows_iff:
  assumes "store_ok st"
  shows "(rt, sk, k, v) \<in> set (all_rows st t) \<longleftrightarrow> map_of (fst (scope_rows st (rt, sk) t)) k = Some v"
proof -
  have d: "distinct (map fst st)" using assms by (simp add: store_ok_def dkeys_def)
  have "(rt, sk, k, v) \<in> set (all_rows st t) \<longleftrightarrow> (\<exists>ts. ((rt, sk), ts) \<in> set st \<and> (k, v) \<in> set (lookup_or ts t []))"
    by (induction st) (auto simp: all_rows_def)
  also have "\<dots> \<longleftrightarrow> (k, v) \<in> set (lookup_or (scope_tables st (rt, sk)) t [])"
    unfolding map_of_eq_Some_iff [OF d, symmetric] scope_tables_def
    by (cases "map_of st (rt, sk)") (simp_all add: lookup_or_def)
  also have "\<dots> \<longleftrightarrow> map_of (fst (scope_rows st (rt, sk) t)) k = Some v"
    using rows_distinct [OF assms, of "(rt, sk)" t] by (simp add: scope_rows_def dkeys_def map_of_eq_Some_iff)
  finally show ?thesis .
qed

lemma claim_due_cases:
  assumes st: "scoped_ok st" and c: "store_claim_due now advance st = (r, st')"
  obtains "\<forall>c. r \<noteq> Inr (Some c)" "st' = st"
  | s t where "scoped_entries st (owner s) (sc_id s) = Some s" "sc_next_run s \<le> now" "advance s now = Inr t"
      "r = Inr (Some \<lparr>cr_schedule = s\<lparr>sc_next_run := t\<rparr>, cr_due = sc_next_run s\<rparr>)"
      "st' = scope_put st (owner s) SCHEDULES_TABLE (sc_id s) (s\<lparr>sc_next_run := t\<rparr>)"
proof -
  let ?due = "filter (\<lambda>(s, p). sc_next_run s \<le> now) (map (\<lambda>(rt, sk, k, s). (s, (rt, sk))) (all_rows st SCHEDULES_TABLE))"
  show thesis
  proof (cases ?due)
    case Nil
    then have "r = Inr None" "st' = st" using c by (auto simp: store_claim_due_def)
    then show ?thesis by (intro that(1)) simp_all
  next
    case (Cons x xs)
    obtain s p where m: "first_min (\<lambda>(s, p). (sc_next_run s, sc_id s)) x xs = (s, p)"
      by (cases "first_min (\<lambda>(s, p). (sc_next_run s, sc_id s)) x xs")
    have "(s, p) \<in> set ?due" using first_min_in [of "\<lambda>(s, p). (sc_next_run s, sc_id s)" x xs] unfolding Cons m by simp
    then obtain k where k: "sc_next_run s \<le> now" "(fst p, snd p, k, s) \<in> set (all_rows st SCHEDULES_TABLE)" by force
    then have e: "scoped_entries st p k = Some s"
      using all_rows_iff [OF scoped_okD(1) [OF st]] by (simp add: scoped_entries_def)
    then have o: "sc_id s = k" "owner s = p" using scoped_okD(2) [OF st] by blast+
    show ?thesis
    proof (cases "advance s now")
      case (Inl err)
      then have "r = Inl err" "st' = st" using c Cons m by (auto simp: store_claim_due_def)
      then show ?thesis by (intro that(1)) simp_all
    next
      case (Inr t)
      then have "r = Inr (Some \<lparr>cr_schedule = s\<lparr>sc_next_run := t\<rparr>, cr_due = sc_next_run s\<rparr>)"
          "st' = scope_put st (owner s) SCHEDULES_TABLE (sc_id s) (s\<lparr>sc_next_run := t\<rparr>)"
        using c Cons m o by (auto simp: store_claim_due_def Let_def)
      then show ?thesis using that(2) [of s t] k(1) e o Inr by simp
    qed
  qed
qed

lemma held_rows:
  assumes "store_ok st"
  shows "held (scoped_entries st) p = int (length (fst (scope_rows st p SCHEDULES_TABLE)))"
  using distinct_card [OF rows_distinct [OF assms, of p SCHEDULES_TABLE]]
  by (simp add: held_def scoped_entries_def dom_map_of_conv_image_fst dkeys_def)

interpretation scoped: schedule_book scoped_schedules scoped_ok scoped_entries
proof
  fix st st' :: schedule_store and p i s ss n b now advance c r rt sk body
  assume ok: "scoped_ok st"
  note st = scoped_okD(1) [OF ok]
  show "scoped_entries st p i = Some s \<Longrightarrow> sc_id s = i \<and> owner s = p" by (rule scoped_okD(2) [OF ok])
  show "finite (dom (scoped_entries st p))" by (simp add: scoped_entries_def finite_dom_map_of)
  show "so_list scoped_schedules p st = (ss, st') \<Longrightarrow>
      scoped_ok st' \<and> scoped_entries st' = scoped_entries st \<and> set ss = {s. \<exists>i. scoped_entries st p i = Some s} \<and> distinct ss"
  proof -
    assume l: "so_list scoped_schedules p st = (ss, st')"
    let ?rows = "fst (scope_rows st p SCHEDULES_TABLE)"
    have eq: "st' = touch st p" "ss = sort_key (\<lambda>s. (sc_created s, sc_id s)) (map snd ?rows)"
      using l by (simp_all add: scoped_schedules_def backend_list_def scope_rows_def)
    have d: "distinct (map fst ?rows)" using rows_distinct [OF st] by (simp add: dkeys_def)
    have "sc_id v = k" if "(k, v) \<in> set ?rows" for k v
      using scoped_okD(2) [OF ok, of p k v] that map_of_is_SomeI [OF d] by (simp add: scoped_entries_def)
    then have "map sc_id (map snd ?rows) = map fst ?rows" by (force simp: case_prod_unfold)
    then have "distinct (map snd ?rows)" using d by (metis distinct_map)
    moreover have "set (map snd ?rows) = {s. \<exists>i. scoped_entries st p i = Some s}"
      using map_of_eq_Some_iff [OF d] by (force simp: scoped_entries_def)
    ultimately show ?thesis using eq ok by (simp add: scoped_touch entries_touch)
  qed
  show "owner s = p \<Longrightarrow> so_add scoped_schedules p s n st = (b, st') \<Longrightarrow>
      scoped_ok st' \<and> (b \<longrightarrow> held (scoped_entries st) p < n)
      \<and> scoped_entries st' = (if b then put_entry (scoped_entries st) p (sc_id s) (Some s) else scoped_entries st)"
  proof -
    assume o: "owner s = p" and a: "so_add scoped_schedules p s n st = (b, st')"
    have "(b, st') = (if held (scoped_entries st) p < n then (True, scope_put (touch st p) p SCHEDULES_TABLE (sc_id s) s)
        else (False, touch st p))"
      using a by (simp add: scoped_schedules_def backend_add_def case_prod_unfold scope_rows_touch held_rows [OF st] not_le [symmetric] split: if_splits)
    then show ?thesis
      using scoped_put [OF scoped_touch [OF ok], of s "sc_id s" p] scoped_touch [OF ok] o
      by (cases "held (scoped_entries st) p < n") (simp_all add: entries_put entries_touch)
  qed
  show "so_remove scoped_schedules p i st = (b, st') \<Longrightarrow>
      scoped_ok st' \<and> b = (scoped_entries st p i \<noteq> None) \<and> scoped_entries st' = put_entry (scoped_entries st) p i None"
  proof -
    assume "so_remove scoped_schedules p i st = (b, st')"
    then have "b = (i \<in> set (dkeys (fst (scope_rows st p SCHEDULES_TABLE))))" "st' = scope_delete (touch st p) p SCHEDULES_TABLE i"
      by (simp_all add: scoped_schedules_def backend_remove_def case_prod_unfold scope_rows_touch)
    then show ?thesis
      using scoped_delete [OF scoped_touch [OF ok]]
      by (simp add: entries_delete entries_touch scoped_entries_def map_of_None_dkeys)
  qed
  show "so_claim scoped_schedules now advance st = (Inr (Some c), st') \<Longrightarrow>
      scoped_ok st' \<and> (\<exists>s t. scoped_entries st (owner s) (sc_id s) = Some s \<and> cr_due c = sc_next_run s \<and> sc_next_run s \<le> now
        \<and> advance s now = Inr t \<and> cr_schedule c = s\<lparr>sc_next_run := t\<rparr>
        \<and> scoped_entries st' = put_entry (scoped_entries st) (owner s) (sc_id s) (Some (s\<lparr>sc_next_run := t\<rparr>)))"
  proof -
    assume "so_claim scoped_schedules now advance st = (Inr (Some c), st')"
    then have cl: "store_claim_due now advance st = (Inr (Some c), st')" by (simp add: scoped_schedules_def)
    show ?thesis
      using ok cl
    proof (cases rule: claim_due_cases)
      case (2 s t)
      have "scoped_ok st'" unfolding 2(5) by (rule scoped_put [OF ok]) (simp_all add: owner_def)
      then show ?thesis using 2 by (auto simp: entries_put)
    qed simp
  qed
  show "so_claim scoped_schedules now advance st = (r, st') \<Longrightarrow> \<forall>c. r \<noteq> Inr (Some c) \<Longrightarrow>
      scoped_ok st' \<and> scoped_entries st' = scoped_entries st"
  proof -
    assume a: "so_claim scoped_schedules now advance st = (r, st')" and n: "\<forall>c. r \<noteq> Inr (Some c)"
    then have cl: "store_claim_due now advance st = (r, st')" by (simp add: scoped_schedules_def)
    show ?thesis using ok cl by (cases rule: claim_due_cases) (use n ok in auto)
  qed
  show "scoped_ok (so_record scoped_schedules rt sk i body now st)
      \<and> scoped_entries (so_record scoped_schedules rt sk i body now st) = put_entry (scoped_entries st) (rt, sk) i
          (map_option (\<lambda>s. s\<lparr>sc_last_run := Some now, sc_last_status := Some body\<rparr>) (scoped_entries st (rt, sk) i))"
  proof (cases "scoped_entries st (rt, sk) i")
    case None
    then have "scope_get st (rt, sk) SCHEDULES_TABLE i = (None, touch st (rt, sk))"
      by (simp add: scope_get_def scoped_entries_def scope_rows_def)
    then show ?thesis using ok None
      by (auto simp: scoped_schedules_def store_record_def scoped_touch entries_touch put_entry_def fun_eq_iff)
  next
    case (Some s)
    then have "scope_get st (rt, sk) SCHEDULES_TABLE i = (Some s, touch st (rt, sk))"
      by (simp add: scope_get_def scoped_entries_def scope_rows_def)
    moreover have "sc_id s = i" "owner s = (rt, sk)" using scoped_okD(2) [OF ok Some] by blast+
    ultimately show ?thesis using ok Some
      by (simp add: scoped_schedules_def store_record_def scoped_touch scoped_put entries_put entries_touch owner_def)
  qed
qed

subsection \<open>The runner\<close>

text \<open>
  A runtime is its \<open>run_turn_with_usage\<close>, on a world of its own.  A \<open>record\<close> that raises is logged and forgotten, so
  it is an operation that leaves the store.  A cancelled task is not modelled.
\<close>

type_synonym 'w scheduled_runtime =
  "msg list \<Rightarrow> string \<Rightarrow> turn_subject \<Rightarrow> turn_actor \<Rightarrow> 'w \<Rightarrow> turn_result res \<times> 'w"

record ('st, 'q, 'w) schedule_runner =
  sr_registry :: registry
  sr_zones :: zone_database
  sr_store :: "'st schedule_ops"
  sr_runtimes :: "(string \<times> 'w scheduled_runtime) list"
  sr_queue :: "'q queue_ops"
  sr_sender_ceilings :: grant_ceilings
  sr_sender_directory :: recipient_directory
  sr_directory :: recipient_directory
  sr_ceiling :: grant_ceilings
  sr_limits :: schedule_limits

record ('st, 'q, 'w) runner_world =
  rw_store :: 'st
  rw_queue :: 'q
  rw_turns :: 'w

record run_outcome =
  ro_status :: string
  ro_reason :: "string option"
  ro_schedule :: "string option"

datatype runner_event = TurnStarted pair string rat turn_actor | Submitted delivery_event

definition runner_granted :: "('st, 'q, 'w) schedule_runner \<Rightarrow> string \<Rightarrow> string \<Rightarrow> bool res" where
  "runner_granted r rt permission =
     bindR (resolve_perm (sr_registry r) permission) (\<lambda>needed. Inr (\<exists>g \<in> set (ceiling_of (sr_ceiling r) rt). covers g needed))"

fun last_reply :: "msg list \<Rightarrow> string" where
  "last_reply [] = []"
| "last_reply (AI body [] usage # ms) = strip body"
| "last_reply (m # ms) = last_reply ms"

definition final_text :: "msg list \<Rightarrow> string" where
  "final_text ms = last_reply (rev ms)"

text \<open>Delivering the reply of a turn.\<close>

definition deliver_reply ::
  "('st, 'q, 'w) schedule_runner \<Rightarrow> schedule \<Rightarrow> turn_subject \<Rightarrow> turn_actor \<Rightarrow> turn_result \<Rightarrow> string \<Rightarrow> rat \<Rightarrow> 'q
   \<Rightarrow> run_outcome \<times> 'q \<times> delivery_event list" where
  "deliver_reply r s recipient actor result fresh clock q =
     (let out = (\<lambda>st reason. \<lparr>ro_status = st, ro_reason = reason, ro_schedule = Some (sc_id s)\<rparr>);
          body = final_text (tr_messages result) in
      if tr_budget_refused result then (out ''skipped'' (Some ''budget_refused''), q, [])
      else if tr_timed_out result then (out ''failed'' (Some ''turn_timed_out''), q, [])
      else if body = [] then (out ''skipped'' (Some ''empty_reply''), q, [])
      else (case submit (sr_registry r) (sr_queue r) (sr_sender_ceilings r) (sr_sender_directory r) (sc_runtime s) recipient
                   body actor [SEND_PROACTIVE] None fresh clock q of
              (Inl (NotAuthorized _), q', evs) \<Rightarrow> (out ''failed'' (Some ''recipient_not_authorized''), q', evs)
            | (Inl (NotPermitted _), q', evs) \<Rightarrow> (out ''failed'' (Some ''delivery_not_permitted''), q', evs)
            | (Inl (SubmitRaised _), q', evs) \<Rightarrow> (out ''failed'' (Some ''delivery_failed''), q', evs)
            | (Inr _, q', evs) \<Rightarrow> (out ''delivered'' None, q', evs)))"

definition execute_schedule ::
  "('st, 'q, 'w) schedule_runner \<Rightarrow> claimed_run \<Rightarrow> rat \<Rightarrow> string \<Rightarrow> rat \<Rightarrow> ('st, 'q, 'w) runner_world
   \<Rightarrow> run_outcome res \<times> ('st, 'q, 'w) runner_world \<times> runner_event list" where
  "execute_schedule r c now fresh clock w =
     (let s = cr_schedule c; sid = sc_id s; rt = sc_runtime s;
          out = (\<lambda>st reason. (Inr \<lparr>ro_status = st, ro_reason = Some reason, ro_schedule = Some sid\<rparr>, w, [])) in
      case map_of (sr_runtimes r) rt of
        None \<Rightarrow> out ''failed'' ''runtime_unavailable''
      | Some turn \<Rightarrow>
          (case runner_granted r rt WRITE_SCHEDULE of
             Inl e \<Rightarrow> (Inl e, w, [])
           | Inr False \<Rightarrow> out ''skipped'' ''not_permitted''
           | Inr True \<Rightarrow>
               if of_int (missed_grace_s (sr_limits r)) < now - cr_due c then out ''skipped'' ''missed_window''
               else (case limit_quiet_until (sr_zones r) (sr_limits r) now of
                       Inl e \<Rightarrow> (Inl e, w, [])
                     | Inr (Some _) \<Rightarrow> out ''skipped'' ''quiet_hours''
                     | Inr None \<Rightarrow>
                         (case TurnSubject (sc_subject s) None None of
                            Inl e \<Rightarrow> (Inl e, w, [])
                          | Inr subject \<Rightarrow>
                              (case sr_directory r rt subject of
                                 Inl _ \<Rightarrow> out ''failed'' ''recipient_lookup_failed''
                               | Inr None \<Rightarrow> out ''failed'' ''recipient_not_authorized''
                               | Inr (Some recipient) \<Rightarrow>
                                   let actor = \<lparr>actor_kind = ''scheduler'', actor_id = sid\<rparr>;
                                       started = TurnStarted (rt, sc_subject s) sid (cr_due c) actor in
                                   (case turn [Human (sc_prompt s)] (''schedule:'' @ sid) subject actor (rw_turns w) of
                                      (Inl _, t) \<Rightarrow>
                                        (Inr \<lparr>ro_status = ''failed'', ro_reason = Some ''turn_failed'', ro_schedule = Some sid\<rparr>,
                                         w\<lparr>rw_turns := t\<rparr>, [started])
                                    | (Inr result, t) \<Rightarrow>
                                        (case deliver_reply r s recipient actor result fresh clock (rw_queue w) of
                                           (o', q, evs) \<Rightarrow>
                                             (Inr o', w\<lparr>rw_turns := t, rw_queue := q\<rparr>, started # map Submitted evs))))))))"

definition outcome_text :: "run_outcome \<Rightarrow> string" where
  "outcome_text o' = (case ro_reason o' of None \<Rightarrow> ro_status o' | Some x \<Rightarrow> ro_status o' @ '':'' @ x)"

text \<open>Between the claim and the record others use the store; here \<open>others\<close> is what they did to it.\<close>

definition run_schedule_once ::
  "('st, 'q, 'w) schedule_runner \<Rightarrow> rat \<Rightarrow> string \<Rightarrow> rat \<Rightarrow> ('st \<Rightarrow> 'st) \<Rightarrow> ('st, 'q, 'w) runner_world
   \<Rightarrow> run_outcome res \<times> ('st, 'q, 'w) runner_world \<times> runner_event list" where
  "run_schedule_once r now fresh clock others w =
     (case so_claim (sr_store r) now (advance_window (sr_zones r)) (rw_store w) of
        (Inl e, st) \<Rightarrow> (Inl e, w\<lparr>rw_store := st\<rparr>, [])
      | (Inr None, st) \<Rightarrow> (Inr \<lparr>ro_status = ''idle'', ro_reason = None, ro_schedule = None\<rparr>, w\<lparr>rw_store := st\<rparr>, [])
      | (Inr (Some c), st) \<Rightarrow>
          (case execute_schedule r c now fresh clock (w\<lparr>rw_store := others st\<rparr>) of
             (Inl e, w', evs) \<Rightarrow> (Inl e, w', evs)
           | (Inr o', w', evs) \<Rightarrow>
               let s = cr_schedule c in
               (Inr o', w'\<lparr>rw_store := so_record (sr_store r) (sc_runtime s) (sc_subject s) (sc_id s) (outcome_text o') now
                          (rw_store w')\<rparr>, evs)))"

subsection \<open>What a runner does\<close>

lemma submit_cases:
  assumes "submit reg ops ceilings dir rt subj body actor perms moment0 fresh clock q = (res, q', evs)"
  obtains e where "res = Inl e" "q' = q" "evs = []"
  | "res = Inr fresh" "evs = [Delivery ''queued'' rt (subject_key subj) (actor_label actor) fresh None None]"
      "q' = op_enqueue ops fresh rt (subject_key subj) body (actor_label actor) (case moment0 of Some t \<Rightarrow> t | None \<Rightarrow> clock) q"
  using assms by (auto simp: submit_def split: sum.splits bool.splits option.splits)

lemma delivers:
  assumes "deliver_reply r s recipient actor result fresh clock q = (o', q', evs)"
  shows "(ro_status o' = ''delivered'' \<and> \<not> tr_budget_refused result \<and> \<not> tr_timed_out result \<and> final_text (tr_messages result) \<noteq> []
        \<and> evs = [Delivery ''queued'' (sc_runtime s) (subject_key recipient) (actor_label actor) fresh None None]
        \<and> q' = op_enqueue (sr_queue r) fresh (sc_runtime s) (subject_key recipient) (final_text (tr_messages result)) (actor_label actor) clock q)
    \<or> (ro_status o' \<noteq> ''delivered'' \<and> evs = [] \<and> q' = q)"
proof -
  obtain res q2 ev2 where sub: "submit (sr_registry r) (sr_queue r) (sr_sender_ceilings r) (sr_sender_directory r) (sc_runtime s) recipient
                   (final_text (tr_messages result)) actor [SEND_PROACTIVE] None fresh clock q = (res, q2, ev2)" (is "?S = _")
    by (cases ?S)
  show ?thesis
    using assms by (cases rule: submit_cases [OF sub])
      (auto simp: deliver_reply_def Let_def sub split: if_splits submit_error.splits)
qed

lemma execute_cases:
  assumes "execute_schedule r c now fresh clock w = (res, w', evs)"
  obtains "evs = []" "w' = w" "\<And>o'. res = Inr o' \<Longrightarrow> ro_status o' \<in> {''failed'', ''skipped''}"
  | turn subject recipient t out where
      "map_of (sr_runtimes r) (sc_runtime (cr_schedule c)) = Some turn"
      "runner_granted r (sc_runtime (cr_schedule c)) WRITE_SCHEDULE = Inr True"
      "now - cr_due c \<le> of_int (missed_grace_s (sr_limits r))"
      "limit_quiet_until (sr_zones r) (sr_limits r) now = Inr None"
      "TurnSubject (sc_subject (cr_schedule c)) None None = Inr subject"
      "sr_directory r (sc_runtime (cr_schedule c)) subject = Inr (Some recipient)"
      "turn [Human (sc_prompt (cr_schedule c))] (''schedule:'' @ sc_id (cr_schedule c)) subject
         \<lparr>actor_kind = ''scheduler'', actor_id = sc_id (cr_schedule c)\<rparr> (rw_turns w) = (out, t)"
      "case out of
         Inl _ \<Rightarrow> (\<exists>o'. res = Inr o' \<and> ro_status o' = ''failed'') \<and> w' = w\<lparr>rw_turns := t\<rparr>
           \<and> evs = [TurnStarted (owner (cr_schedule c)) (sc_id (cr_schedule c)) (cr_due c) \<lparr>actor_kind = ''scheduler'', actor_id = sc_id (cr_schedule c)\<rparr>]
       | Inr result \<Rightarrow>
           (\<exists>o' q' ev. deliver_reply r (cr_schedule c) recipient \<lparr>actor_kind = ''scheduler'', actor_id = sc_id (cr_schedule c)\<rparr> result fresh clock
              (rw_queue w) = (o', q', ev) \<and> res = Inr o' \<and> w' = w\<lparr>rw_turns := t, rw_queue := q'\<rparr>
              \<and> evs = TurnStarted (owner (cr_schedule c)) (sc_id (cr_schedule c)) (cr_due c)
                   \<lparr>actor_kind = ''scheduler'', actor_id = sc_id (cr_schedule c)\<rparr> # map Submitted ev)"
proof (cases "map_of (sr_runtimes r) (sc_runtime (cr_schedule c)) = None \<or> runner_granted r (sc_runtime (cr_schedule c)) WRITE_SCHEDULE \<noteq> Inr True
    \<or> of_int (missed_grace_s (sr_limits r)) < now - cr_due c \<or> limit_quiet_until (sr_zones r) (sr_limits r) now \<noteq> Inr None
    \<or> (\<forall>subject recipient. TurnSubject (sc_subject (cr_schedule c)) None None = Inr subject
         \<longrightarrow> sr_directory r (sc_runtime (cr_schedule c)) subject \<noteq> Inr (Some recipient))")
  case True
  have "evs = [] \<and> w' = w \<and> (\<forall>o'. res = Inr o' \<longrightarrow> ro_status o' \<in> {''failed'', ''skipped''})"
    using True assms unfolding execute_schedule_def Let_def
    by (auto split: option.splits sum.splits bool.splits if_splits)
  then show thesis using that(1) by blast
next
  case False
  then obtain turn subject recipient where f: "map_of (sr_runtimes r) (sc_runtime (cr_schedule c)) = Some turn"
      "runner_granted r (sc_runtime (cr_schedule c)) WRITE_SCHEDULE = Inr True"
      "\<not> of_int (missed_grace_s (sr_limits r)) < now - cr_due c" "limit_quiet_until (sr_zones r) (sr_limits r) now = Inr None"
      "TurnSubject (sc_subject (cr_schedule c)) None None = Inr subject"
      "sr_directory r (sc_runtime (cr_schedule c)) subject = Inr (Some recipient)"
    by (simp only: de_Morgan_disj not_all not_imp not_not not_None_eq) blast
  obtain out t where tu: "turn [Human (sc_prompt (cr_schedule c))] (''schedule:'' @ sc_id (cr_schedule c)) subject
         \<lparr>actor_kind = ''scheduler'', actor_id = sc_id (cr_schedule c)\<rparr> (rw_turns w) = (out, t)" (is "?T = _") by (cases ?T)
  let ?actor = "\<lparr>actor_kind = ''scheduler'', actor_id = sc_id (cr_schedule c)\<rparr>"
  let ?start = "TurnStarted (owner (cr_schedule c)) (sc_id (cr_schedule c)) (cr_due c) ?actor"
  have run: "(case out of
       Inl _ \<Rightarrow> (Inr \<lparr>ro_status = ''failed'', ro_reason = Some ''turn_failed'', ro_schedule = Some (sc_id (cr_schedule c))\<rparr>,
            w\<lparr>rw_turns := t\<rparr>, [?start])
     | Inr result \<Rightarrow> (case deliver_reply r (cr_schedule c) recipient ?actor result fresh clock (rw_queue w) of
            (o', q, evs) \<Rightarrow> (Inr o', w\<lparr>rw_turns := t, rw_queue := q\<rparr>, ?start # map Submitted evs))) = (res, w', evs)"
    unfolding owner_def using assms f tu by (simp add: execute_schedule_def Let_def)
  show thesis
    by (rule that(2) [OF f(1,2) _ f(4-6) tu]) (use f(3) run in \<open>auto split: sum.splits prod.splits\<close>)
qed

lemma record_step:
  "schedule_step zones x l ops entries \<lparr>sw_store = st, sw_claims = cl\<rparr> \<lparr>sw_store = so_record ops rt sk i body now st, sw_claims = cl\<rparr>"
  using schedule_step.Record [of zones x l ops entries "\<lparr>sw_store = st, sw_claims = cl\<rparr>" rt sk i body now] by simp

lemma execute_store:
  assumes "execute_schedule r c now fresh clock w = (res, w', evs)"
  shows "rw_store w' = rw_store w
    \<and> {(p, i, d). \<exists>a. TurnStarted p i d a \<in> set evs} \<subseteq> {(owner (cr_schedule c), sc_id (cr_schedule c), cr_due c)}
    \<and> length (filter (\<lambda>e. \<exists>p i d a. e = TurnStarted p i d a) evs) \<le> 1"
proof (cases rule: execute_cases [OF assms])
  case (2 turn subject recipient t out)
  have "filter (\<lambda>e. \<exists>p i d a. e = TurnStarted p i d a) (map Submitted ev) = []" for ev
    by (induction ev) simp_all
  then show ?thesis using 2(8) by (auto split: sum.splits)
qed auto

text \<open>
  A runner is one of the workers the steps describe. Whatever others do to the store in between, one run of a runner is
  a sequence of steps of the store that claims at most one more window by itself, and the only turn it starts, if any, is for
  a window it claimed.
\<close>

theorem runner_refines_schedule_steps:
  assumes run: "run_schedule_once r now fresh clock others w = (res, w', evs)"
    and others: "\<And>st cl. \<exists>cl2. (schedule_step (sr_zones r) x l (sr_store r) entries)\<^sup>*\<^sup>*
      \<lparr>sw_store = st, sw_claims = cl\<rparr> \<lparr>sw_store = others st, sw_claims = cl @ cl2\<rparr>"
  shows "\<exists>own more. length own \<le> 1
    \<and> (schedule_step (sr_zones r) x l (sr_store r) entries)\<^sup>*\<^sup>*
        \<lparr>sw_store = rw_store w, sw_claims = cl\<rparr> \<lparr>sw_store = rw_store w', sw_claims = cl @ own @ more\<rparr>
    \<and> (\<forall>p i d a. TurnStarted p i d a \<in> set evs \<longrightarrow> (p, i, d) \<in> set own)
    \<and> length (filter (\<lambda>e. \<exists>p i d a. e = TurnStarted p i d a) evs) \<le> 1"
proof -
  let ?step = "schedule_step (sr_zones r) x l (sr_store r) entries"
  obtain cr st where cl: "so_claim (sr_store r) now (advance_window (sr_zones r)) (rw_store w) = (cr, st)" (is "?c = _") by (cases ?c)
  show ?thesis
  proof (cases "\<exists>c. cr = Inr (Some c)")
    case False
    then have "?step \<lparr>sw_store = rw_store w, sw_claims = cl\<rparr> \<lparr>sw_store = st, sw_claims = cl\<rparr>"
      using schedule_step.NotClaimed [of "sr_store r" now "sr_zones r" "\<lparr>sw_store = rw_store w, sw_claims = cl\<rparr>" cr st] cl by simp
    moreover have "rw_store w' = st" "evs = []"
      using False run cl by (auto simp: run_schedule_once_def split: sum.splits option.splits)
    ultimately show ?thesis by (intro exI [of _ "[]"]) auto
  next
    case True
    then obtain c where c: "cr = Inr (Some c)" by blast
    let ?win = "(owner (cr_schedule c), sc_id (cr_schedule c), cr_due c)"
    have s1: "?step \<lparr>sw_store = rw_store w, sw_claims = cl\<rparr> \<lparr>sw_store = st, sw_claims = cl @ [?win]\<rparr>"
      using schedule_step.Claimed [of "sr_store r" now "sr_zones r" "\<lparr>sw_store = rw_store w, sw_claims = cl\<rparr>" c st] cl c by simp
    obtain cl2 where s2: "?step\<^sup>*\<^sup>* \<lparr>sw_store = st, sw_claims = cl @ [?win]\<rparr> \<lparr>sw_store = others st, sw_claims = (cl @ [?win]) @ cl2\<rparr>"
      using others by blast
    obtain res1 w1 ev where ex: "execute_schedule r c now fresh clock (w\<lparr>rw_store := others st\<rparr>) = (res1, w1, ev)" (is "?e = _") by (cases ?e)
    have e: "rw_store w1 = others st" "{(p, i, d). \<exists>a. TurnStarted p i d a \<in> set ev} \<subseteq> {?win}"
        "length (filter (\<lambda>e. \<exists>p i d a. e = TurnStarted p i d a) ev) \<le> 1"
      using execute_store [OF ex] by auto
    have s3: "?step\<^sup>*\<^sup>* \<lparr>sw_store = others st, sw_claims = cl @ [?win] @ cl2\<rparr> \<lparr>sw_store = rw_store w', sw_claims = cl @ [?win] @ cl2\<rparr> \<and> evs = ev"
      using run cl c ex e(1)
      by (auto simp: run_schedule_once_def Let_def split: sum.splits intro!: r_into_rtranclp record_step)
    have "?step\<^sup>*\<^sup>* \<lparr>sw_store = rw_store w, sw_claims = cl\<rparr> \<lparr>sw_store = rw_store w', sw_claims = cl @ [?win] @ cl2\<rparr>"
      using s1 s2 s3 by (auto intro: converse_rtranclp_into_rtranclp rtranclp_trans)
    then show ?thesis using e(2,3) s3 by (intro exI [of _ "[?win]"] exI [of _ cl2]) auto
  qed
qed

text \<open>
  C18 No window of a schedule runs twice, and nobody holds more schedules than allowed. Whatever the tools and any number of
  runners do to the shared store, in any order, the claimed windows are pairwise different, every schedule's next window is
  later than those claimed of it, and no user holds more schedules than the limit.
\<close>

theorem windows_claimed_once:
  assumes "(schedule_step zones x l scoped_schedules scoped_entries)\<^sup>*\<^sup>* \<lparr>sw_store = [], sw_claims = []\<rparr> s"
    and "0 \<le> max_per_user l"
  shows "distinct (sw_claims s) \<and> held (scoped_entries (sw_store s)) p \<le> max_per_user l
    \<and> (scoped_entries (sw_store s) p i = Some e \<and> (p, i, d) \<in> set (sw_claims s) \<longrightarrow> d < sc_next_run e)"
proof -
  have n: "scoped_entries [] = (\<lambda>p. Map.empty)"
    by (simp add: scoped_entries_def scope_rows_def scope_tables_def lookup_or_def fun_eq_iff)
  have "scoped_ok []" "schedules_ok zones l (scoped_entries []) []"
    using assms(2) by (simp_all add: scoped_ok_def n store_ok_def dkeys_def schedules_ok_def held_def)
  then have "schedules_ok zones l (scoped_entries (sw_store s)) (sw_claims s)"
    using scoped.steps_kept [OF assms(1)] by simp
  then show ?thesis unfolding schedules_ok_def by blast
qed

text \<open>
  C19 A scheduled turn starts only when everything still allows it. The deployment still grants schedules to the runtime, the
  claim is within the grace period of the window, no quiet hours hold, the recipient is authorized, and the turn carries
  the scheduler as its actor, for which the tool that creates schedules stores nothing.
\<close>

theorem scheduled_turn_guarded:
  assumes "execute_schedule r c now fresh clock w = (res, w', evs)" and "TurnStarted p i d a \<in> set evs"
  shows "p = owner (cr_schedule c) \<and> i = sc_id (cr_schedule c) \<and> d = cr_due c
    \<and> runner_granted r (fst p) WRITE_SCHEDULE = Inr True
    \<and> now - d \<le> of_int (missed_grace_s (sr_limits r))
    \<and> limit_quiet_until (sr_zones r) (sr_limits r) now = Inr None
    \<and> (\<exists>subject recipient. subject_key subject = snd p \<and> sr_directory r (fst p) subject = Inr (Some recipient))
    \<and> (\<exists>refusal. create_schedule zones x ops l (Some a) now2 fresh2 q inputs st = (Inr refusal, st))"
proof (cases rule: execute_cases [OF assms(1)])
  case (2 turn subject recipient t out)
  have e: "p = owner (cr_schedule c)" "i = sc_id (cr_schedule c)" "d = cr_due c" "a = \<lparr>actor_kind = ''scheduler'', actor_id = sc_id (cr_schedule c)\<rparr>"
    using 2(8) assms(2) by (auto split: sum.splits)
  have "subject_key subject = snd p" using 2(5) by (auto simp: TurnSubject_def e owner_def split: if_splits)
  then show ?thesis using 2 e by (auto simp: owner_def create_schedule_def schedule_requested_def)
qed (use assms in auto)

text \<open>
  A reply is queued exactly when the run reports it delivered. Then the queue holds one more message, the text of the last
  answer of the turn, for the schedule's runtime; in every other outcome, refusals, timeouts and raised errors
  included, the queue is as it was.
\<close>

theorem delivered_exactly_once:
  assumes "execute_schedule r c now fresh clock w = (res, w', evs)"
  shows "if \<exists>reason sid. res = Inr \<lparr>ro_status = ''delivered'', ro_reason = reason, ro_schedule = sid\<rparr>
    then \<exists>turn subject recipient result.
      map_of (sr_runtimes r) (sc_runtime (cr_schedule c)) = Some turn
      \<and> sr_directory r (sc_runtime (cr_schedule c)) subject = Inr (Some recipient)
      \<and> fst (turn [Human (sc_prompt (cr_schedule c))] (''schedule:'' @ sc_id (cr_schedule c)) subject
           \<lparr>actor_kind = ''scheduler'', actor_id = sc_id (cr_schedule c)\<rparr> (rw_turns w)) = Inr result
      \<and> \<not> tr_budget_refused result \<and> \<not> tr_timed_out result \<and> final_text (tr_messages result) \<noteq> []
      \<and> rw_queue w' = op_enqueue (sr_queue r) fresh (sc_runtime (cr_schedule c)) (subject_key recipient)
           (final_text (tr_messages result)) (''scheduler:'' @ sc_id (cr_schedule c)) clock (rw_queue w)
    else rw_queue w' = rw_queue w"
proof (cases rule: execute_cases [OF assms])
  case 1
  then show ?thesis by force
next
  case (2 turn subject recipient t out)
  show ?thesis
  proof (cases out)
    case (Inl err)
    then show ?thesis using 2(8) by auto
  next
    case (Inr result)
    then obtain o' q' ev where d: "deliver_reply r (cr_schedule c) recipient \<lparr>actor_kind = ''scheduler'', actor_id = sc_id (cr_schedule c)\<rparr>
        result fresh clock (rw_queue w) = (o', q', ev)" and w: "res = Inr o'" "w' = w\<lparr>rw_turns := t, rw_queue := q'\<rparr>"
      using 2(8) by auto
    have delivered: "(\<exists>reason sid. res = Inr \<lparr>ro_status = ''delivered'', ro_reason = reason, ro_schedule = sid\<rparr>) \<longleftrightarrow> ro_status o' = ''delivered''"
      unfolding w(1) by (cases o') simp
    let ?a = "\<lparr>actor_kind = ''scheduler'', actor_id = sc_id (cr_schedule c)\<rparr>"
    have a: "actor_label ?a = ''scheduler:'' @ sc_id (cr_schedule c)" by (simp add: actor_label_def)
    have f: "fst (turn [Human (sc_prompt (cr_schedule c))] (''schedule:'' @ sc_id (cr_schedule c)) subject ?a (rw_turns w)) = Inr result"
      unfolding 2(7) using Inr by simp
    show ?thesis
    proof (cases "ro_status o' = ''delivered''")
      case True
      then have "rw_queue w' = op_enqueue (sr_queue r) fresh (sc_runtime (cr_schedule c)) (subject_key recipient)
            (final_text (tr_messages result)) (''scheduler:'' @ sc_id (cr_schedule c)) clock (rw_queue w)"
          "\<not> tr_budget_refused result" "\<not> tr_timed_out result" "final_text (tr_messages result) \<noteq> []"
        using delivers [OF d] by (auto simp: w(2) a)
      then show ?thesis unfolding delivered if_P [OF True] using 2(1,6) f by blast
    next
      case False
      then show ?thesis unfolding delivered if_not_P [OF False] using delivers [OF d] by (simp add: w(2))
    qed
  qed
qed

subsection \<open>A concrete run\<close>

definition write_class :: pclass where "write_class = PClass 8 ''WriteSchedulePermission'' WritePerm T2"

definition schedule_registry :: registry where
  "schedule_registry = \<lparr>by_name = [(SEND_PROACTIVE, send_class), (WRITE_SCHEDULE, write_class)],
     by_class = [(send_class, SEND_PROACTIVE), (write_class, WRITE_SCHEDULE)], next_oid = 10\<rparr>"

definition ana :: turn_subject where
  "ana = \<lparr>subject_key = ''ana'', subject_channel = Some ''sms'', subject_address = Some ''555''\<rparr>"

definition demo_reply :: "nat scheduled_runtime" where
  "demo_reply ms session subject actor n =
     (Inr \<lparr>tr_messages = ms @ [AI ''sales are up'' [] None], tr_usage = UNKNOWN_TURN_USAGE, tr_timed_out = False,
        tr_timeout_s = None, tr_budget_refused = False\<rparr>, Suc n)"

definition demo_runner :: "(schedule_store, memory_queue, nat) schedule_runner" where
  "demo_runner = \<lparr>sr_registry = schedule_registry, sr_zones = demo_zones, sr_store = scoped_schedules,
     sr_runtimes = [(''shop'', demo_reply)], sr_queue = memory_ops, sr_sender_ceilings = [(''shop'', [send_class])],
     sr_sender_directory = static_authorize [((''shop'', ''ana''), ana)], sr_directory = static_authorize [((''shop'', ''ana''), ana)],
     sr_ceiling = [(''shop'', [write_class])], sr_limits = demo_limits\<rparr>"

definition no_texts :: schedule_texts where
  "no_texts = \<lparr>hours_text = \<lambda>_. ''1'', moment_text = \<lambda>_. ''now''\<rparr>"

definition stored :: schedule_store where
  "stored = snd (create_schedule demo_zones no_texts scoped_schedules demo_limits None 0 ''s1'' (''shop'', ''ana'') monday_request [])"

definition demo_world :: "(schedule_store, memory_queue, nat) runner_world" where
  "demo_world = \<lparr>rw_store = stored, rw_queue = \<lparr>messages = [], times = []\<rparr>, rw_turns = 0\<rparr>"

definition monday_run where
  "monday_run = run_schedule_once demo_runner 374500 ''m1'' 374500 (\<lambda>st. st) demo_world"

definition monday_claim :: claimed_run where
  "monday_claim = (case so_claim scoped_schedules 374500 (advance_window demo_zones) stored of (Inr (Some c), _) \<Rightarrow> c)"

definition monday_turn where
  "monday_turn = execute_schedule demo_runner monday_claim 374500 ''m1'' 374500 demo_world"

definition ana_started :: runner_event where
  "ana_started = TurnStarted (''shop'', ''ana'') ''s1'' 374400 \<lparr>actor_kind = ''scheduler'', actor_id = ''s1''\<rparr>"

lemma monday_turn_runs:
  "fst monday_turn = Inr \<lparr>ro_status = ''delivered'', ro_reason = None, ro_schedule = Some ''s1''\<rparr>
   \<and> map pm_text (messages (rw_queue (fst (snd monday_turn)))) = [''sales are up''] \<and> hd (snd (snd monday_turn)) = ana_started
   \<and> snd (snd monday_turn) \<noteq> []"
  by code_simp

lemma monday_run_runs: "hd (snd (snd monday_run)) = ana_started \<and> snd (snd monday_run) \<noteq> []"
  by code_simp

definition demo_step :: "schedule_store schedule_world \<Rightarrow> schedule_store schedule_world \<Rightarrow> bool" where
  "demo_step = schedule_step demo_zones no_texts demo_limits scoped_schedules scoped_entries"

lemma demo_created: "demo_step \<lparr>sw_store = [], sw_claims = []\<rparr> \<lparr>sw_store = stored, sw_claims = []\<rparr>"
proof -
  have "create_schedule demo_zones no_texts scoped_schedules demo_limits None 0 ''s1'' (''shop'', ''ana'') monday_request []
      = (fst (create_schedule demo_zones no_texts scoped_schedules demo_limits None 0 ''s1'' (''shop'', ''ana'') monday_request []), stored)"
    by (simp add: stored_def)
  moreover have "scoped_entries [] (''shop'', ''ana'') ''s1'' = None" by code_simp
  ultimately show ?thesis
    using schedule_step.Create [of scoped_entries "\<lparr>sw_store = [], sw_claims = []\<rparr>" "(''shop'', ''ana'')" "''s1''"]
    by (simp add: demo_step_def)
qed

theorem runner_refines_schedule_steps_witness:
  "\<exists>own more. demo_step\<^sup>*\<^sup>* \<lparr>sw_store = stored, sw_claims = []\<rparr>
      \<lparr>sw_store = rw_store (fst (snd monday_run)), sw_claims = own @ more\<rparr> \<and> own = [((''shop'', ''ana''), ''s1'', 374400)]"
proof -
  have m: "run_schedule_once demo_runner 374500 ''m1'' 374500 (\<lambda>st. st) demo_world
      = (fst monday_run, fst (snd monday_run), snd (snd monday_run))" by (simp add: monday_run_def)
  have p: "sr_zones demo_runner = demo_zones" "sr_store demo_runner = scoped_schedules" "rw_store demo_world = stored"
    by (simp_all add: demo_runner_def demo_world_def)
  have idle: "\<exists>cl2. demo_step\<^sup>*\<^sup>* \<lparr>sw_store = st, sw_claims = cl\<rparr> \<lparr>sw_store = st, sw_claims = cl @ cl2\<rparr>" for st cl
    by (rule exI [of _ "[]"]) simp
  obtain own more where o: "length own \<le> 1" "demo_step\<^sup>*\<^sup>* \<lparr>sw_store = stored, sw_claims = []\<rparr>
        \<lparr>sw_store = rw_store (fst (snd monday_run)), sw_claims = own @ more\<rparr>"
      "\<And>p i d a. TurnStarted p i d a \<in> set (snd (snd monday_run)) \<Longrightarrow> (p, i, d) \<in> set own"
    using runner_refines_schedule_steps [OF m, of no_texts demo_limits scoped_entries "[]", unfolded p, folded demo_step_def, OF idle]
    unfolding append.simps by blast
  have "ana_started \<in> set (snd (snd monday_run))" using monday_run_runs hd_in_set by metis
  then have "((''shop'', ''ana''), ''s1'', 374400) \<in> set own" using o(3) unfolding ana_started_def by blast
  then have "own = [((''shop'', ''ana''), ''s1'', 374400)]" using o(1) by (cases own) auto
  then show ?thesis using o(2) by blast
qed

theorem windows_claimed_once_witness:
  "\<exists>s. demo_step\<^sup>*\<^sup>* \<lparr>sw_store = [], sw_claims = []\<rparr> s \<and> sw_claims s \<noteq> [] \<and> distinct (sw_claims s)
     \<and> held (scoped_entries (sw_store s)) (''shop'', ''ana'') \<le> 1"
proof -
  let ?c = "so_claim scoped_schedules 374500 (advance_window demo_zones) stored"
  have c: "?c = (Inr (Some monday_claim), snd ?c)"
    by (rule prod_eqI) (code_simp, simp)
  have s: "demo_step \<lparr>sw_store = stored, sw_claims = []\<rparr> \<lparr>sw_store = snd ?c,
      sw_claims = [(owner (cr_schedule monday_claim), sc_id (cr_schedule monday_claim), cr_due monday_claim)]\<rparr>" (is "demo_step _ ?s")
    using schedule_step.Claimed [of scoped_schedules 374500 demo_zones "\<lparr>sw_store = stored, sw_claims = []\<rparr>" monday_claim "snd ?c"] c
    by (simp add: demo_step_def)
  have r: "demo_step\<^sup>*\<^sup>* \<lparr>sw_store = [], sw_claims = []\<rparr> ?s"
    using demo_created s by (rule converse_rtranclp_into_rtranclp [OF _ r_into_rtranclp])
  show ?thesis
    using windows_claimed_once [OF r [unfolded demo_step_def], of "(''shop'', ''ana'')"] r
    by (intro exI [of _ ?s]) (simp add: demo_limits_def)
qed

theorem scheduled_turn_guarded_witness:
  "runner_granted demo_runner ''shop'' WRITE_SCHEDULE = Inr True
   \<and> (\<exists>refusal. create_schedule demo_zones no_texts scoped_schedules demo_limits (Some \<lparr>actor_kind = ''scheduler'', actor_id = ''s1''\<rparr>)
        374500 ''s2'' (''shop'', ''ana'') monday_request stored = (Inr refusal, stored))"
proof -
  have e: "TurnStarted (''shop'', ''ana'') ''s1'' 374400 \<lparr>actor_kind = ''scheduler'', actor_id = ''s1''\<rparr> \<in> set (snd (snd monday_turn))"
    using monday_turn_runs hd_in_set unfolding ana_started_def by metis
  have m: "execute_schedule demo_runner monday_claim 374500 ''m1'' 374500 demo_world
      = (fst monday_turn, fst (snd monday_turn), snd (snd monday_turn))" by (simp add: monday_turn_def)
  show ?thesis
    using scheduled_turn_guarded [OF m e] by (metis fst_conv)
qed

theorem delivered_exactly_once_witness:
  "\<exists>result :: turn_result. final_text (tr_messages result) \<noteq> [] \<and> rw_queue (fst (snd monday_turn)) =
     enqueue ''m1'' ''shop'' ''ana'' (final_text (tr_messages result)) ''scheduler:s1'' 374500 \<lparr>messages = [], times = []\<rparr>"
proof -
  have m: "execute_schedule demo_runner monday_claim 374500 ''m1'' 374500 demo_world
      = (fst monday_turn, fst (snd monday_turn), snd (snd monday_turn))" by (simp add: monday_turn_def)
  have ids: "sc_id (cr_schedule monday_claim) = ''s1''" "sc_runtime (cr_schedule monday_claim) = ''shop''" by code_simp+
  have dir: "subject_key recipient = ''ana''" if "sr_directory demo_runner ''shop'' subject = Inr (Some recipient)" for subject recipient
    using that by (auto simp: demo_runner_def static_authorize_def ana_def split: if_splits)
  have d: "\<exists>reason sid. fst monday_turn = Inr \<lparr>ro_status = ''delivered'', ro_reason = reason, ro_schedule = sid\<rparr>"
    using monday_turn_runs by blast
  have ops: "op_enqueue (sr_queue demo_runner) = enqueue" "rw_queue demo_world = \<lparr>messages = [], times = []\<rparr>"
    by (simp_all add: demo_runner_def memory_ops_def demo_world_def)
  obtain subject recipient and result :: turn_result where r: "sr_directory demo_runner ''shop'' subject = Inr (Some recipient)"
      "final_text (tr_messages result) \<noteq> []"
      "rw_queue (fst (snd monday_turn)) = enqueue ''m1'' ''shop'' (subject_key recipient) (final_text (tr_messages result))
         ''scheduler:s1'' 374500 \<lparr>messages = [], times = []\<rparr>"
    using delivered_exactly_once [OF m] unfolding if_P [OF d] ids ops append.simps by blast
  show ?thesis using r(2,3) unfolding dir [OF r(1)] by blast
qed

end
