(* ===== verification/User_Facts.thy ===== *)
theory User_Facts
  imports Scope_Store Untrusted_Blocks "HOL-Library.Product_Lexorder"
begin

section \<open>Facts about a user\<close>

text \<open>
  \<open>user_memory.py\<close> and \<open>services/user_facts_postgres.py\<close>: the durable facts of one end user, their limits, expiry and eviction, the block they are
  injected as, and the three tools.  What the code asks of a backend, the rows of one (runtime id, subject key), is the
  locale \<open>fact_backend\<close>; the in-memory scopes and the table in PostgreSQL both keep it.  A moment is an exact number of
  seconds.  SHA-256 and the case folding of a fact are the argument \<open>hash\<close>, the digest of a folded text.
\<close>

subsection \<open>Limits and facts\<close>

definition USER_FACTS_TABLE :: string where "USER_FACTS_TABLE = ''subject_facts''"
definition USER_FACTS_SOURCE :: string where "USER_FACTS_SOURCE = ''user_facts''"
definition USER_FACTS_STORE :: string where "USER_FACTS_STORE = ''user_facts''"

record memory_limits =
  max_facts :: int
  max_fact_bytes :: int
  max_injected_chars :: int
  ttl_s :: "int option"

fun positive_int :: "pyval \<Rightarrow> string \<Rightarrow> int res" where
  "positive_int (PInt i) name = (if i < 1 then Inl (ValueErr name) else Inr i)"
| "positive_int v name = Inl (ValueErr name)"

definition UserMemoryLimits :: "pyval \<Rightarrow> pyval \<Rightarrow> pyval \<Rightarrow> pyval \<Rightarrow> memory_limits res" where
  "UserMemoryLimits facts bytes injected ttl =
     bindR (positive_int facts ''max_facts'') (\<lambda>n.
     bindR (positive_int bytes ''max_fact_bytes'') (\<lambda>b.
     bindR (positive_int injected ''max_injected_chars'') (\<lambda>c.
     bindR (if ttl = PNone then Inr None else bindR (positive_int ttl ''ttl_s'') (\<lambda>t. Inr (Some t))) (\<lambda>t.
     Inr \<lparr>max_facts = n, max_fact_bytes = b, max_injected_chars = c, ttl_s = t\<rparr>))))"

record user_fact =
  uf_id :: string
  uf_content :: string
  uf_created :: rat
  uf_last_used :: rat
  uf_uses :: int
  uf_expires :: "rat option"

definition expired :: "rat \<Rightarrow> user_fact \<Rightarrow> bool" where
  "expired now f = (case uf_expires f of None \<Rightarrow> False | Some t \<Rightarrow> t \<le> now)"

definition fact_id :: "(string \<Rightarrow> string) \<Rightarrow> string \<Rightarrow> string" where
  "fact_id hash content = take 16 (hash (collapse_ws content))"

definition utf8_len :: "string \<Rightarrow> int" where
  "utf8_len s = sum_list (map (\<lambda>c. if (of_char c :: nat) < 128 then 1 else 2) s)"

subsection \<open>One subject's rows\<close>

record 's fact_ops =
  fb_all :: "'s \<Rightarrow> user_fact list \<times> 's"
  fb_put :: "user_fact \<Rightarrow> 's \<Rightarrow> 's"
  fb_remove :: "string list \<Rightarrow> 's \<Rightarrow> int \<times> 's"
  fb_touch :: "string list \<Rightarrow> rat \<Rightarrow> 's \<Rightarrow> 's"

definition mark_used :: "rat \<Rightarrow> user_fact \<Rightarrow> user_fact" where
  "mark_used now f = f\<lparr>uf_uses := uf_uses f + 1, uf_last_used := now\<rparr>"

type_synonym fact_store = "user_fact store"

definition memory_all :: "pair \<Rightarrow> fact_store \<Rightarrow> user_fact list \<times> fact_store" where
  "memory_all p st = (case scope_rows st p USER_FACTS_TABLE of (rows, st') \<Rightarrow> (map snd rows, st'))"

definition memory_put :: "pair \<Rightarrow> user_fact \<Rightarrow> fact_store \<Rightarrow> fact_store" where
  "memory_put p f st = scope_put st p USER_FACTS_TABLE (uf_id f) f"

definition memory_remove :: "pair \<Rightarrow> string list \<Rightarrow> fact_store \<Rightarrow> int \<times> fact_store" where
  "memory_remove p ids st =
     (case scope_rows st p USER_FACTS_TABLE of (existing, st') \<Rightarrow>
        let removed = filter (\<lambda>i. i \<in> set (dkeys existing)) ids in
        (int (length removed), foldl (\<lambda>s i. scope_delete s p USER_FACTS_TABLE i) st' removed))"

definition memory_touch :: "pair \<Rightarrow> string list \<Rightarrow> rat \<Rightarrow> fact_store \<Rightarrow> fact_store" where
  "memory_touch p ids now st =
     (case memory_all p st of (rows, st') \<Rightarrow>
        foldl (\<lambda>s f. if uf_id f \<in> set ids then memory_put p (mark_used now f) s else s) st' rows)"

definition memory_facts :: "pair \<Rightarrow> fact_store fact_ops" where
  "memory_facts p = \<lparr>fb_all = memory_all p, fb_put = memory_put p, fb_remove = memory_remove p, fb_touch = memory_touch p\<rparr>"

subsection \<open>Limits, expiry and eviction\<close>

text \<open>\<open>sorted(xs, key=f, reverse=True)\<close> keeps the order of equal elements.\<close>

definition sorted_reverse :: "('a \<Rightarrow> 'k :: linorder) \<Rightarrow> 'a list \<Rightarrow> 'a list" where
  "sorted_reverse f xs = rev (sort_key f (rev xs))"

definition purge_expired :: "'s fact_ops \<Rightarrow> rat \<Rightarrow> 's \<Rightarrow> user_fact list \<times> 's" where
  "purge_expired ops now s =
     (case fb_all ops s of (rows, s1) \<Rightarrow>
        let gone = map uf_id (filter (expired now) rows) in
        (rows, if gone = [] then s1 else snd (fb_remove ops gone s1)))"

text \<open>\<open>others\<close> is what other writers do between the first read and the lock.\<close>

definition list_facts :: "'s fact_ops \<Rightarrow> rat \<Rightarrow> ('s \<Rightarrow> 's) \<Rightarrow> 's \<Rightarrow> user_fact list \<times> 's" where
  "list_facts ops now others s =
     (case fb_all ops s of (rows, s1) \<Rightarrow>
        (case (if \<exists>f \<in> set rows. expired now f then purge_expired ops now (others s1) else (rows, s1)) of (rows2, s2) \<Rightarrow>
           (sorted_reverse uf_created (filter (\<lambda>f. \<not> expired now f) rows2), s2)))"

definition eviction_order :: "user_fact \<Rightarrow> int \<times> rat \<times> rat" where
  "eviction_order f = (uf_uses f, uf_last_used f, uf_created f)"

definition evict :: "'s fact_ops \<Rightarrow> memory_limits \<Rightarrow> string \<Rightarrow> rat \<Rightarrow> 's \<Rightarrow> int \<times> 's" where
  "evict ops l keep now s =
     (case purge_expired ops now s of (rows0, s1) \<Rightarrow>
        let rows = filter (\<lambda>f. \<not> expired now f) rows0;
            excess = int (length rows) - max_facts l in
        if excess \<le> 0 then (0, s1)
        else (let candidates = sort_key eviction_order (filter (\<lambda>f. uf_id f \<noteq> keep) rows) in
              fb_remove ops (map uf_id (take (nat excess) candidates)) s1))"

definition remember_text :: "(string \<Rightarrow> string) \<Rightarrow> 's fact_ops \<Rightarrow> memory_limits \<Rightarrow> string \<Rightarrow> rat \<Rightarrow> 's \<Rightarrow> user_fact \<times> 's" where
  "remember_text hash ops l body now s =
     (let key = fact_id hash body in
      case purge_expired ops now s of (rows, s1) \<Rightarrow>
        let existing = List.find (\<lambda>f. uf_id f = key \<and> \<not> expired now f) rows;
            f = \<lparr>uf_id = key, uf_content = body,
                 uf_created = (case existing of Some e \<Rightarrow> uf_created e | None \<Rightarrow> now), uf_last_used = now,
                 uf_uses = (case existing of Some e \<Rightarrow> uf_uses e | None \<Rightarrow> 0),
                 uf_expires = (case ttl_s l of Some t \<Rightarrow> Some (now + of_int t) | None \<Rightarrow> None)\<rparr>
        in (f, snd (evict ops l key now (fb_put ops f s1))))"

definition fact_text :: "memory_limits \<Rightarrow> pyval \<Rightarrow> string res" where
  "fact_text l content =
     (case content of
        PStr raw \<Rightarrow>
          let body = collapse_ws raw; taken = utf8_len body in
          if body = [] then Inl (Raised ''FactRejected'' ''the fact is empty'')
          else if max_fact_bytes l < taken
          then Inl (Raised ''FactRejected'' (''the fact is '' @ int_str taken @ '' bytes; the limit is '' @ int_str (max_fact_bytes l)
                  @ '' bytes. Store a shorter fact''))
          else Inr body
      | _ \<Rightarrow> Inl (Raised ''FactRejected'' ''the fact must be text''))"

definition remember :: "(string \<Rightarrow> string) \<Rightarrow> 's fact_ops \<Rightarrow> memory_limits \<Rightarrow> pyval \<Rightarrow> rat \<Rightarrow> 's \<Rightarrow> user_fact res \<times> 's" where
  "remember hash ops l content now s =
     (case fact_text l content of
        Inl e \<Rightarrow> (Inl e, s)
      | Inr body \<Rightarrow> (case remember_text hash ops l body now s of (f, s') \<Rightarrow> (Inr f, s')))"

definition forget :: "'s fact_ops \<Rightarrow> pyval \<Rightarrow> 's \<Rightarrow> bool \<times> 's" where
  "forget ops key s =
     (case key of
        PStr k \<Rightarrow> if k = [] then (False, s) else (case fb_remove ops [k] s of (n, s') \<Rightarrow> (0 < n, s'))
      | _ \<Rightarrow> (False, s))"

subsection \<open>The injected block\<close>

text \<open>The loop over the ranked facts: the lines, the ids and the taken so far.\<close>

fun fit_facts :: "int \<Rightarrow> user_fact list \<Rightarrow> string list \<Rightarrow> string list \<Rightarrow> int \<Rightarrow> string list \<times> string list" where
  "fit_facts cap [] lines used taken = (lines, used)"
| "fit_facts cap (f # fs) lines used taken =
     (let line = ''- '' @ uf_content f; added = int (length line) + (if lines = [] then 0 else 1) in
      if cap < taken + added then fit_facts cap fs lines used taken
      else fit_facts cap fs (lines @ [line]) (used @ [uf_id f]) (taken + added))"

definition injection_block ::
  "'s fact_ops \<Rightarrow> memory_limits \<Rightarrow> rat \<Rightarrow> ('s \<Rightarrow> 's) \<Rightarrow> bool \<Rightarrow> 's \<Rightarrow> untrusted_data option res \<times> 's" where
  "injection_block ops l now others mark s =
     (case list_facts ops now others s of (facts, s1) \<Rightarrow>
        (case fit_facts (max_injected_chars l) (sorted_reverse (\<lambda>f. (uf_uses f, uf_last_used f)) facts) [] [] 0 of
           (lines, used) \<Rightarrow>
             if lines = [] then (Inr None, s1)
             else (let s2 = (if mark then fb_touch ops used now s1 else s1) in
                   (bindR (check_untrusted_data \<lparr>ud_source = USER_FACTS_SOURCE, ud_content = join [newline] lines,
                        ud_max_chars = max_injected_chars l\<rparr>) (\<lambda>u. Inr (Some u)), s2))))"

subsection \<open>The tools\<close>

definition remember_tool :: "(string \<Rightarrow> string) \<Rightarrow> 's fact_ops \<Rightarrow> memory_limits \<Rightarrow> dict \<Rightarrow> rat \<Rightarrow> 's \<Rightarrow> dict res \<times> 's" where
  "remember_tool hash ops l inputs now s =
     (case remember hash ops l (dget inputs ''fact'') now s of
        (Inl (Raised k msg), s') \<Rightarrow>
          (if k = ''FactRejected'' then Inr [(''error'', PStr msg), (''error_kind'', PStr ''fact_rejected'')] else Inl (Raised k msg), s')
      | (Inl e, s') \<Rightarrow> (Inl e, s')
      | (Inr f, s') \<Rightarrow> (Inr [(''remembered'', PBool True), (''id'', PStr (uf_id f))], s'))"

definition forget_tool :: "'s fact_ops \<Rightarrow> dict \<Rightarrow> 's \<Rightarrow> dict \<times> 's" where
  "forget_tool ops inputs s = (case forget ops (dget inputs ''id'') s of (b, s') \<Rightarrow> ([(''forgotten'', PBool b)], s'))"

definition list_tool :: "'s fact_ops \<Rightarrow> rat \<Rightarrow> ('s \<Rightarrow> 's) \<Rightarrow> 's \<Rightarrow> dict \<times> 's" where
  "list_tool ops now others s =
     (case list_facts ops now others s of (fs, s') \<Rightarrow>
        ([(''facts'', PList (map (\<lambda>f. PDict [(''id'', PStr (uf_id f)), (''fact'', PStr (uf_content f))]) fs))], s'))"

definition fact_row :: "(rat \<Rightarrow> string) \<Rightarrow> user_fact \<Rightarrow> dict" where
  "fact_row show_time f =
     [(''id'', PStr (uf_id f)), (''content'', PStr (uf_content f)), (''created_at'', PStr (show_time (uf_created f))),
      (''last_used_at'', PStr (show_time (uf_last_used f))), (''uses'', PInt (uf_uses f)),
      (''expires_at'', case uf_expires f of Some t \<Rightarrow> PStr (show_time t) | None \<Rightarrow> PNone)]"

text \<open>The store of the in-process backend: export, retention and erasure.\<close>

definition memory_export :: "(rat \<Rightarrow> string) \<Rightarrow> rat \<Rightarrow> pair \<Rightarrow> fact_store \<Rightarrow> dict list \<times> fact_store" where
  "memory_export show_time now p st =
     (case memory_all p st of (rows, st') \<Rightarrow> (map (fact_row show_time) (filter (\<lambda>f. \<not> expired now f) rows), st'))"

definition memory_purge :: "rat \<Rightarrow> fact_store \<Rightarrow> nat \<times> fact_store" where
  "memory_purge now st = sweep st USER_FACTS_TABLE (expired now)"

definition memory_delete :: "pair \<Rightarrow> fact_store \<Rightarrow> int \<times> fact_store" where
  "memory_delete p st = (case memory_all p st of (rows, st') \<Rightarrow> memory_remove p (map uf_id rows) st')"

subsection \<open>What a backend promises\<close>

definition live :: "rat \<Rightarrow> (string \<Rightarrow> user_fact option) \<Rightarrow> string \<Rightarrow> user_fact option" where
  "live now m i = (case m i of Some f \<Rightarrow> if expired now f then None else Some f | None \<Rightarrow> None)"

text \<open>What holds of one subject's rows, and the calls that may come.\<close>

definition limits_ok :: "memory_limits \<Rightarrow> bool" where
  "limits_ok l \<longleftrightarrow> 1 \<le> max_facts l \<and> 1 \<le> max_fact_bytes l \<and> 1 \<le> max_injected_chars l
     \<and> (case ttl_s l of None \<Rightarrow> True | Some t \<Rightarrow> 1 \<le> t)"

definition fact_ok :: "(string \<Rightarrow> string) \<Rightarrow> memory_limits \<Rightarrow> user_fact \<Rightarrow> bool" where
  "fact_ok hash l f \<longleftrightarrow> uf_id f = fact_id hash (uf_content f) \<and> collapse_ws (uf_content f) = uf_content f \<and> uf_content f \<noteq> []
     \<and> utf8_len (uf_content f) \<le> max_fact_bytes l"

definition facts_ok :: "(string \<Rightarrow> string) \<Rightarrow> memory_limits \<Rightarrow> (string \<Rightarrow> user_fact option) \<Rightarrow> bool" where
  "facts_ok hash l m \<longleftrightarrow> finite (dom m) \<and> int (card (dom m)) \<le> max_facts l \<and> (\<forall>i f. m i = Some f \<longrightarrow> uf_id f = i \<and> fact_ok hash l f)"

datatype fact_action = Remember pyval rat | Forget pyval | ListFacts rat | Inject rat bool

fun fact_act :: "(string \<Rightarrow> string) \<Rightarrow> 's fact_ops \<Rightarrow> memory_limits \<Rightarrow> fact_action \<Rightarrow> 's \<Rightarrow> 's" where
  "fact_act hash ops l (Remember c now) s = snd (remember hash ops l c now s)"
| "fact_act hash ops l (Forget k) s = snd (forget ops k s)"
| "fact_act hash ops l (ListFacts now) s = snd (list_facts ops now (\<lambda>s. s) s)"
| "fact_act hash ops l (Inject now mark) s = snd (injection_block ops l now (\<lambda>s. s) mark s)"

lemma UserMemoryLimits_ok: "UserMemoryLimits a b c d = Inr l \<Longrightarrow> limits_ok l"
proof -
  have p: "positive_int v name = Inr i \<Longrightarrow> 1 \<le> i" for v name i by (cases v) (auto split: if_splits)
  show "UserMemoryLimits a b c d = Inr l \<Longrightarrow> limits_ok l"
    unfolding UserMemoryLimits_def by (auto simp: bindR_eq_Inr limits_ok_def dest: p split: if_splits)
qed

lemma words_acc_word: "(\<forall>c \<in> set v. \<not> is_space c) \<Longrightarrow> words_acc w (v @ xs) = words_acc (rev v @ w) xs"
  by (induction v arbitrary: w) auto

lemma words_acc_words: "(\<forall>c \<in> set w. \<not> is_space c) \<Longrightarrow> v \<in> set (words_acc w xs) \<Longrightarrow> v \<noteq> [] \<and> (\<forall>c \<in> set v. \<not> is_space c)"
proof (induction xs arbitrary: w)
  case (Cons a xs)
  show ?case
  proof (cases "is_space a")
    case True
    then have "v \<in> set (words_acc [] xs) \<or> (w \<noteq> [] \<and> v = rev w)" using Cons.prems(2) by (auto split: if_splits)
    then show ?thesis using Cons.IH [of "[]"] Cons.prems(1) by auto
  next
    case False
    then have "v \<in> set (words_acc (a # w) xs)" "\<forall>c \<in> set (a # w). \<not> is_space c" using Cons.prems by simp_all
    then show ?thesis using Cons.IH by blast
  qed
qed (simp split: if_splits)

lemma split_join_words: "(\<forall>v \<in> set ws. v \<noteq> [] \<and> (\<forall>c \<in> set v. \<not> is_space c)) \<Longrightarrow> split_ws (join '' '' ws) = ws"
proof (induction ws rule: induct_list012)
  case (2 v)
  then show ?case using words_acc_word [where v = v and w = "[]" and xs = "[]"] by (simp add: split_ws_def)
next
  case (3 v u ws)
  have "is_space (CHR '' '')" by code_simp
  then have "split_ws (join '' '' (v # u # ws)) = v # split_ws (join '' '' (u # ws))"
    using 3 words_acc_word [of v "[]" "'' '' @ join '' '' (u # ws)"] by (simp add: split_ws_def)
  then show ?case using 3 by simp
qed (simp add: split_ws_def)

lemma collapse_ws_idem: "collapse_ws (collapse_ws s) = collapse_ws s"
proof -
  have "\<forall>v \<in> set (split_ws s). v \<noteq> [] \<and> (\<forall>c \<in> set v. \<not> is_space c)"
    using words_acc_words [of "[]" _ s] by (simp add: split_ws_def)
  then have "split_ws (collapse_ws s) = split_ws s" unfolding collapse_ws_def by (rule split_join_words)
  then show ?thesis by (simp add: collapse_ws_def)
qed

lemma fact_text_ok: "fact_text l c = Inr body \<Longrightarrow> collapse_ws body = body \<and> body \<noteq> [] \<and> utf8_len body \<le> max_fact_bytes l"
  by (auto simp: fact_text_def Let_def collapse_ws_idem split: pyval.splits if_splits)

lemma facts_ok_sub:
  assumes "facts_ok hash l m" and "m' \<subseteq>\<^sub>m m"
  shows "facts_ok hash l m'"
proof -
  have d: "dom m' \<subseteq> dom m" by (rule map_le_implies_dom_le [OF assms(2)])
  then have "card (dom m') \<le> card (dom m)" "finite (dom m')"
    using assms(1) unfolding facts_ok_def by (auto intro: card_mono finite_subset)
  moreover have "m i = Some f" if "m' i = Some f" for i f using assms(2) that unfolding map_le_def by (metis domI)
  ultimately show ?thesis using assms(1) unfolding facts_ok_def by force
qed

lemma live_le: "live now m \<subseteq>\<^sub>m m"
  by (auto simp: map_le_def live_def split: option.splits if_splits)

lemma live_iff: "live now m i = Some f \<longleftrightarrow> m i = Some f \<and> \<not> expired now f"
  by (auto simp: live_def split: option.splits)

locale fact_backend =
  fixes ops :: "'s fact_ops"
    and ok :: "'s \<Rightarrow> bool"
    and facts :: "'s \<Rightarrow> string \<Rightarrow> user_fact option"
    and rest :: "'s \<Rightarrow> 'r"
  assumes all_facts: "ok s \<Longrightarrow> fb_all ops s = (rows, s') \<Longrightarrow>
      ok s' \<and> facts s' = facts s \<and> rest s' = rest s \<and> distinct (map uf_id rows)
      \<and> (\<forall>i f. facts s i = Some f \<longleftrightarrow> f \<in> set rows \<and> uf_id f = i)"
    and put_fact: "ok s \<Longrightarrow> ok (fb_put ops f s) \<and> facts (fb_put ops f s) = (facts s)(uf_id f \<mapsto> f) \<and> rest (fb_put ops f s) = rest s"
    and remove_facts: "ok s \<Longrightarrow> distinct ids \<Longrightarrow> fb_remove ops ids s = (n, s') \<Longrightarrow>
      ok s' \<and> n = int (card (set ids \<inter> dom (facts s))) \<and> facts s' = facts s |` (- set ids) \<and> rest s' = rest s"
    and touch_facts: "ok s \<Longrightarrow> ok (fb_touch ops ids now s) \<and> rest (fb_touch ops ids now s) = rest s
      \<and> facts (fb_touch ops ids now s) i = map_option (\<lambda>f. if i \<in> set ids then mark_used now f else f) (facts s i)"
begin

lemma facts_id: "ok s \<Longrightarrow> facts s i = Some f \<Longrightarrow> uf_id f = i"
  using all_facts [of s "fst (fb_all ops s)" "snd (fb_all ops s)"] by auto

lemma finite_facts:
  assumes "ok s"
  shows "finite (dom (facts s))"
proof -
  have "dom (facts s) \<subseteq> uf_id ` set (fst (fb_all ops s))"
    using all_facts [OF assms, of "fst (fb_all ops s)" "snd (fb_all ops s)"] by auto
  then show ?thesis by (rule finite_subset) simp
qed

lemma purge:
  assumes ok: "ok s" and p: "purge_expired ops now s = (rows, s')"
  shows "ok s' \<and> facts s' = live now (facts s) \<and> rest s' = rest s \<and> distinct (map uf_id rows)
    \<and> (\<forall>i f. facts s i = Some f \<longleftrightarrow> f \<in> set rows \<and> uf_id f = i)"
proof -
  obtain s1 where r: "fb_all ops s = (rows, s1)" using p by (auto simp: purge_expired_def Let_def split: prod.splits)
  note a = all_facts [OF ok r]
  let ?gone = "map uf_id (filter (expired now) rows)"
  have d: "distinct ?gone" using a distinct_map_filter by blast
  have s': "s' = (if ?gone = [] then s1 else snd (fb_remove ops ?gone s1))" using p r by (auto simp: purge_expired_def Let_def)
  have in_gone: "i \<in> set ?gone \<longleftrightarrow> (\<exists>f. facts s i = Some f \<and> expired now f)" for i using a by auto
  have live: "live now (facts s) = facts s |` (- set ?gone)"
    by (rule ext) (auto simp: live_def restrict_map_def in_gone simp del: set_map set_filter split: option.splits)
  show ?thesis
  proof (cases "?gone = []")
    case True
    then have "facts s |` (- set ?gone) = facts s" by (simp add: restrict_map_def)
    then show ?thesis using True s' a live by simp
  next
    case False
    then show ?thesis
      using remove_facts [of s1 ?gone "fst (fb_remove ops ?gone s1)" s'] a d s' live by (auto simp del: set_map set_filter)
  qed
qed

lemma evicts:
  assumes ok: "ok s" and keep: "facts s keep = Some k" "\<not> expired now k" and least: "1 \<le> max_facts l"
    and e: "evict ops l keep now s = (n, s')"
  shows "ok s' \<and> rest s' = rest s \<and> facts s' keep = Some k \<and> int (card (dom (facts s'))) \<le> max_facts l
    \<and> facts s' \<subseteq>\<^sub>m live now (facts s)
    \<and> (int (card (dom (live now (facts s)))) \<le> max_facts l \<longrightarrow> facts s' = live now (facts s))
    \<and> (max_facts l < int (card (dom (live now (facts s)))) \<longrightarrow> int (card (dom (facts s'))) = max_facts l)
    \<and> (\<forall>i j f g. live now (facts s) i = Some f \<and> facts s' i = None \<and> facts s' j = Some g \<and> j \<noteq> keep
         \<longrightarrow> eviction_order f \<le> eviction_order g)"
proof -
  obtain all_of s1 where p: "purge_expired ops now s = (all_of, s1)" (is "?p = _") by (cases ?p)
  note a = purge [OF ok p]
  let ?L = "live now (facts s)"
  define rows where "rows = filter (\<lambda>f. \<not> expired now f) all_of"
  have d: "distinct (map uf_id rows)" unfolding rows_def using a distinct_map_filter by blast
  have L: "?L i = Some f \<longleftrightarrow> f \<in> set rows \<and> uf_id f = i" for i f
    using a unfolding rows_def live_iff by auto
  have dom: "dom ?L = uf_id ` set rows" using L by (auto simp: dom_def)
  have len: "card (dom ?L) = length rows"
    unfolding dom using d by (simp add: card_image distinct_map distinct_card)
  define cand where "cand = sort_key eviction_order (filter (\<lambda>f. uf_id f \<noteq> keep) rows)"
  define gone where "gone = map uf_id (take (nat (int (length rows) - max_facts l)) cand)"
  have k: "?L keep = Some k" using keep by (simp add: live_def)
  have ev: "evict ops l keep now s = (if int (length rows) - max_facts l \<le> 0 then (0, s1) else fb_remove ops gone s1)"
    by (simp add: evict_def p rows_def cand_def gone_def Let_def)
  show ?thesis
  proof (cases "int (length rows) \<le> max_facts l")
    case True
    then have "s' = s1" using e ev by simp
    then show ?thesis using a k True len by auto
  next
    case False
    have dg: "distinct gone"
    proof -
      have "distinct (map uf_id cand)"
        using d unfolding cand_def distinct_map by (auto intro: inj_on_subset)
      then show ?thesis unfolding gone_def take_map [symmetric] by (rule distinct_take)
    qed
    have lc: "length cand = length rows - 1"
    proof -
      have "k \<in> set rows" "uf_id k = keep" using k L by blast+
      then have "filter (\<lambda>f. uf_id f = keep) rows = [k]"
        using d by (induction rows) (auto simp: filter_empty_conv rev_image_eqI)
      then show ?thesis using sum_length_filter_compl [of "\<lambda>f. uf_id f = keep" rows] by (simp add: cand_def)
    qed
    have lg: "length gone = length rows - nat (max_facts l)"
      using False least lc unfolding gone_def by (simp add: min_def) linarith
    have r: "fb_remove ops gone s1 = (n, s')" using e ev False by simp
    note rm = remove_facts [OF conjunct1 [OF a] dg r]
    have f': "facts s' = ?L |` (- set gone)" using rm a by simp
    have kg: "keep \<notin> set gone" unfolding gone_def cand_def by (auto dest: in_set_takeD)
    have sub: "set gone \<subseteq> dom ?L" unfolding gone_def cand_def dom by (auto dest: in_set_takeD)
    have "card (dom (facts s')) = card (dom ?L - set gone)" unfolding f' by (simp add: Diff_eq)
    also have "\<dots> = length rows - length gone"
      using sub len dg by (simp add: card_Diff_subset distinct_card)
    finally have c: "int (card (dom (facts s'))) = max_facts l" using False least lg by simp
    have ord: "eviction_order f \<le> eviction_order g"
      if f: "?L i = Some f" "facts s' i = None" and g: "facts s' j = Some g" "j \<noteq> keep" for i j f g
    proof -
      let ?m = "nat (int (length rows) - max_facts l)"
      have "i \<in> set gone" using f unfolding f' by (auto simp: restrict_map_def split: if_splits)
      then obtain h where h: "h \<in> set (take ?m cand)" "uf_id h = i" unfolding gone_def by auto
      then have "h \<in> set rows" unfolding cand_def by (auto dest: in_set_takeD)
      then have "h = f" using L [of i h] h(2) f(1) by simp
      then have "f \<in> set (take ?m cand)" using h(1) by simp
      moreover have "?L j = Some g" "j \<notin> set gone" using g unfolding f' by (auto simp: restrict_map_def split: if_splits)
      then have "g \<in> set cand" "uf_id g \<notin> set gone" using L g(2) unfolding cand_def by auto
      then have "g \<in> set (drop ?m cand)"
        unfolding gone_def using set_append [of "take ?m cand" "drop ?m cand"] by auto
      moreover have "sorted (map eviction_order cand)" by (simp add: cand_def)
      then have "sorted (map eviction_order (take ?m cand) @ map eviction_order (drop ?m cand))"
        by (simp flip: map_append)
      ultimately show ?thesis unfolding sorted_append by auto
    qed
    have "facts s' keep = Some k" using k kg by (simp add: f')
    moreover have "facts s' \<subseteq>\<^sub>m ?L" by (auto simp: f' map_le_def restrict_map_def split: if_splits)
    moreover have "ok s'" "rest s' = rest s" using rm a by simp_all
    ultimately show ?thesis using c False len ord by auto
  qed
qed

lemma remembers:
  assumes ok: "ok s" and least: "1 \<le> max_facts l" and ttl: "\<And>t. ttl_s l = Some t \<Longrightarrow> 1 \<le> t"
    and r: "remember_text hash ops l body now s = (f, s')"
  shows "ok s' \<and> rest s' = rest s \<and> uf_id f = fact_id hash body \<and> uf_content f = body \<and> facts s' (uf_id f) = Some f
    \<and> int (card (dom (facts s'))) \<le> max_facts l
    \<and> facts s' \<subseteq>\<^sub>m (live now (facts s))(uf_id f \<mapsto> f)
    \<and> (int (card (insert (uf_id f) (dom (live now (facts s))))) \<le> max_facts l \<longrightarrow> facts s' = (live now (facts s))(uf_id f \<mapsto> f))
    \<and> (\<forall>i j e g. live now (facts s) i = Some e \<and> facts s' i = None \<and> facts s' j = Some g \<and> j \<noteq> uf_id f
         \<longrightarrow> eviction_order e \<le> eviction_order g)
    \<and> (\<forall>e. live now (facts s) (uf_id f) = Some e \<longrightarrow> uf_created f = uf_created e \<and> uf_uses f = uf_uses e)"
proof -
  let ?key = "fact_id hash body"
  obtain rows s1 where p: "purge_expired ops now s = (rows, s1)" (is "?p = _") by (cases ?p)
  note a = purge [OF ok p]
  let ?old = "List.find (\<lambda>f. uf_id f = ?key \<and> \<not> expired now f) rows"
  obtain n s2 where e: "evict ops l ?key now (fb_put ops f s1) = (n, s2)" (is "?e = _") by (cases ?e)
  have f: "f = \<lparr>uf_id = ?key, uf_content = body,
                 uf_created = (case ?old of Some e \<Rightarrow> uf_created e | None \<Rightarrow> now), uf_last_used = now,
                 uf_uses = (case ?old of Some e \<Rightarrow> uf_uses e | None \<Rightarrow> 0),
                 uf_expires = (case ttl_s l of Some t \<Rightarrow> Some (now + of_int t) | None \<Rightarrow> None)\<rparr>"
      and s': "s' = s2"
    using r p e by (auto simp: remember_text_def Let_def)
  have key: "uf_id f = ?key" "uf_content f = body" by (simp_all add: f)
  have fresh: "\<not> expired now f"
    using ttl by (auto simp: f expired_def split: option.splits)
  note put = put_fact [OF conjunct1 [OF a], of f]
  have m: "facts (fb_put ops f s1) = (live now (facts s))(?key \<mapsto> f)" using put a key by simp
  have lv: "live now (facts (fb_put ops f s1)) = (live now (facts s))(?key \<mapsto> f)"
    unfolding m using fresh by (auto simp: live_def fun_eq_iff split: option.splits)
  have k: "facts (fb_put ops f s1) ?key = Some f" by (simp add: m)
  note ev = evicts [OF conjunct1 [OF put] k fresh least e, unfolded lv]
  have old: "?old = Some e'" if "live now (facts s) ?key = Some e'" for e'
  proof (cases ?old)
    case None
    then show ?thesis using that a unfolding live_iff find_None_iff by blast
  next
    case (Some h)
    then have "h \<in> set rows" "uf_id h = ?key" unfolding find_Some_iff by auto
    then have "facts s ?key = Some h" using a by blast
    then show ?thesis using Some that unfolding live_iff by simp
  qed
  have ord: "eviction_order e' \<le> eviction_order g"
    if "live now (facts s) i = Some e'" "facts s' i = None" "facts s' j = Some g" "j \<noteq> ?key" for i j e' g
  proof -
    have "i \<noteq> ?key" using that(2) ev s' by auto
    then show ?thesis using ev that s' by (metis fun_upd_other)
  qed
  have dom: "dom ((live now (facts s))(?key \<mapsto> f)) = insert ?key (dom (live now (facts s)))" by auto
  have "uf_created f = uf_created e' \<and> uf_uses f = uf_uses e'" if "live now (facts s) ?key = Some e'" for e'
    using old [OF that] by (simp add: f)
  then show ?thesis
    using ev ord put a s' unfolding key dom by auto
qed

lemma lists:
  assumes ok: "ok s" and keeps: "\<And>t. ok t \<Longrightarrow> ok (others t)" and l: "list_facts ops now others s = (fs, s')"
  shows "ok s' \<and> (\<exists>m. (m = facts s \<or> m = facts (others (snd (fb_all ops s))))
      \<and> set fs = {f. \<exists>i. live now m i = Some f} \<and> (facts s' = live now m \<or> facts s' = m))
    \<and> sorted_wrt (\<lambda>f g. uf_created g \<le> uf_created f) fs \<and> distinct (map uf_id fs)"
proof -
  obtain rows s1 where r: "fb_all ops s = (rows, s1)" (is "?p = _") by (cases ?p)
  note a = all_facts [OF ok r]
  have keep: "set (sorted_reverse uf_created xs) = set xs" "sorted_wrt (\<lambda>f g. uf_created g \<le> uf_created f) (sorted_reverse uf_created xs)"
      "distinct (map uf_id xs) \<Longrightarrow> distinct (map uf_id (sorted_reverse uf_created xs))" for xs :: "user_fact list"
  proof -
    show "set (sorted_reverse uf_created xs) = set xs" by (simp add: sorted_reverse_def)
    have "sorted (map uf_created (sort_key uf_created (rev xs)))" by simp
    then show "sorted_wrt (\<lambda>f g. uf_created g \<le> uf_created f) (sorted_reverse uf_created xs)"
      unfolding sorted_reverse_def sorted_wrt_rev sorted_wrt_map by simp
    show "distinct (map uf_id (sorted_reverse uf_created xs))" if "distinct (map uf_id xs)"
      using that by (simp add: sorted_reverse_def distinct_map)
  qed
  show ?thesis
  proof (cases "\<exists>f \<in> set rows. expired now f")
    case False
    then have "fs = sorted_reverse uf_created (filter (\<lambda>f. \<not> expired now f) rows)" "s' = s1"
      using l r by (auto simp: list_facts_def)
    moreover have "set (filter (\<lambda>f. \<not> expired now f) rows) = {f. \<exists>i. live now (facts s) i = Some f}" using a by (auto simp: live_iff)
    moreover have "distinct (map uf_id (filter (\<lambda>f. \<not> expired now f) rows))" using a distinct_map_filter by blast
    ultimately show ?thesis using keep a by auto
  next
    case True
    obtain rows2 s2 where p: "purge_expired ops now (others s1) = (rows2, s2)" (is "?q = _") by (cases ?q)
    note b = purge [OF keeps [OF conjunct1 [OF a]] p]
    have "fs = sorted_reverse uf_created (filter (\<lambda>f. \<not> expired now f) rows2)" "s' = s2"
      using l r True p by (auto simp: list_facts_def)
    moreover have "set (filter (\<lambda>f. \<not> expired now f) rows2) = {f. \<exists>i. live now (facts (others s1)) i = Some f}" using b by (auto simp: live_iff)
    moreover have "distinct (map uf_id (filter (\<lambda>f. \<not> expired now f) rows2))" using b distinct_map_filter by blast
    ultimately show ?thesis using keep b r by auto
  qed
qed

lemma listed:
  assumes ok: "ok s" and inv: "facts_ok hash l (facts s)" and r: "list_facts ops now (\<lambda>s. s) s = (fs, s')"
  shows "ok s' \<and> facts_ok hash l (facts s') \<and> rest s' = rest s"
proof -
  obtain rows s1 where a: "fb_all ops s = (rows, s1)" (is "?p = _") by (cases ?p)
  note b = all_facts [OF ok a]
  have rest: "rest s' = rest s"
    using r a b purge [of s1 now] by (auto simp: list_facts_def split: if_splits prod.splits)
  have "facts (snd (fb_all ops s)) = facts s" using a b by simp
  then have "facts s' = live now (facts s) \<or> facts s' = facts s" using lists [OF ok _ r] by auto
  then show ?thesis using lists [OF ok _ r] facts_ok_sub [OF inv live_le, of now] inv rest by auto
qed

lemma act_kept:
  assumes ok: "ok s" and inv: "facts_ok hash l (facts s)" and l: "limits_ok l"
  shows "ok (fact_act hash ops l a s) \<and> facts_ok hash l (facts (fact_act hash ops l a s)) \<and> rest (fact_act hash ops l a s) = rest s"
proof (cases a)
  case (Remember c now)
  show ?thesis
  proof (cases "fact_text l c")
    case (Inl e)
    then show ?thesis using Remember ok inv by (simp add: remember_def)
  next
    case (Inr body)
    obtain f s' where r: "remember_text hash ops l body now s = (f, s')" (is "?r = _") by (cases ?r)
    have b: "1 \<le> max_facts l" "\<And>t. ttl_s l = Some t \<Longrightarrow> 1 \<le> t" using l by (auto simp: limits_ok_def)
    note m = remembers [OF ok b r]
    have lv: "facts_ok hash l (live now (facts s))" by (rule facts_ok_sub [OF inv live_le])
    have "uf_id g = i \<and> fact_ok hash l g" if g: "facts s' i = Some g" for i g
    proof -
      have "((live now (facts s))(uf_id f \<mapsto> f)) i = Some g" using m g unfolding map_le_def by (metis domI)
      moreover have "fact_ok hash l f" using m fact_text_ok [OF Inr] by (simp add: fact_ok_def)
      ultimately show ?thesis using lv by (auto simp: facts_ok_def split: if_splits)
    qed
    then have "facts_ok hash l (facts s')" unfolding facts_ok_def using m finite_facts by blast
    then show ?thesis using m r Inr Remember by (simp add: remember_def)
  qed
next
  case (Forget k)
  have "ok s' \<and> facts_ok hash l (facts s') \<and> rest s' = rest s" if "fb_remove ops [i] s = (n, s')" for i n s'
  proof -
    have "facts s |` (- set [i]) \<subseteq>\<^sub>m facts s" by (auto simp: map_le_def restrict_map_def)
    then have "facts_ok hash l (facts s |` (- set [i]))" by (rule facts_ok_sub [OF inv])
    then show ?thesis using remove_facts [OF ok _ that] by simp
  qed
  then show ?thesis using Forget ok inv by (auto simp: forget_def split: pyval.splits prod.splits)
next
  case (ListFacts now)
  obtain fs s' where r: "list_facts ops now (\<lambda>s. s) s = (fs, s')" (is "?r = _") by (cases ?r)
  then show ?thesis using listed [OF ok inv r] ListFacts by simp
next
  case (Inject now mark)
  obtain fs s1 where r: "list_facts ops now (\<lambda>s. s) s = (fs, s1)" (is "?r = _") by (cases ?r)
  note k = listed [OF ok inv r]
  have "ok (fb_touch ops ids now s1) \<and> facts_ok hash l (facts (fb_touch ops ids now s1)) \<and> rest (fb_touch ops ids now s1) = rest s" for ids
  proof -
    note t = touch_facts [OF conjunct1 [OF k], of ids now]
    have "dom (facts (fb_touch ops ids now s1)) = dom (facts s1)" using t by (auto simp: dom_def)
    moreover have "uf_id f = i \<and> fact_ok hash l f" if g: "facts (fb_touch ops ids now s1) i = Some f" for i f
    proof -
      obtain z where z: "facts s1 i = Some z" "f = (if i \<in> set ids then mark_used now z else z)" using g t by auto
      then have "uf_id z = i \<and> fact_ok hash l z" using k unfolding facts_ok_def by blast
      then show ?thesis using z(2) by (auto simp: mark_used_def fact_ok_def)
    qed
    ultimately have "facts_ok hash l (facts (fb_touch ops ids now s1))" using k unfolding facts_ok_def by simp
    then show ?thesis using t k by simp
  qed
  then show ?thesis using Inject r k by (auto simp: injection_block_def Let_def split: prod.splits)
qed

end

subsection \<open>The scopes in memory keep it\<close>

definition facts_of :: "fact_store \<Rightarrow> pair \<Rightarrow> string \<Rightarrow> user_fact option" where
  "facts_of st p = map_of (fst (scope_rows st p USER_FACTS_TABLE))"

definition other_rows :: "pair \<Rightarrow> fact_store \<Rightarrow> pair \<Rightarrow> string \<Rightarrow> (string \<times> user_fact) list" where
  "other_rows p st q t = (if q = p \<and> t = USER_FACTS_TABLE then [] else fst (scope_rows st q t))"

definition fact_store_ok :: "fact_store \<Rightarrow> bool" where
  "fact_store_ok st \<longleftrightarrow> store_ok st \<and> (\<forall>p i f. facts_of st p i = Some f \<longrightarrow> uf_id f = i)"

lemma memory_all_simp: "memory_all p st = (map snd (fst (scope_rows st p USER_FACTS_TABLE)), touch st p)"
  by (simp add: memory_all_def scope_rows_def)

lemma facts_of_touch: "facts_of (touch st p) = facts_of st"
  by (simp add: facts_of_def mem.rows_reads fun_eq_iff)

lemma fact_touch_ok: "fact_store_ok st \<Longrightarrow> fact_store_ok (touch st p) \<and> other_rows q (touch st p) = other_rows q st"
  by (simp add: fact_store_ok_def facts_of_touch mem.ok_reads other_rows_def mem.rows_reads fun_eq_iff)

lemma facts_of_put: "facts_of (memory_put p f st) = (facts_of st)(p := (facts_of st p)(uf_id f \<mapsto> f))"
  by (auto simp: memory_put_def facts_of_def mem.rows_put fun_eq_iff)

lemma fact_put_ok: "fact_store_ok st \<Longrightarrow> fact_store_ok (memory_put p f st) \<and> other_rows p (memory_put p f st) = other_rows p st"
  unfolding fact_store_ok_def facts_of_put
  by (auto simp: mem.ok_put memory_put_def other_rows_def mem.rows_put fun_eq_iff simp del: split_paired_All)

lemma facts_of_delete:
  "facts_of (scope_delete st p USER_FACTS_TABLE i) = (facts_of st)(p := (facts_of st p)(i := None))"
  by (auto simp: facts_of_def mem.rows_delete fun_eq_iff)

lemma fact_delete_ok: "fact_store_ok st \<Longrightarrow> fact_store_ok (scope_delete st p USER_FACTS_TABLE i)
    \<and> other_rows p (scope_delete st p USER_FACTS_TABLE i) = other_rows p st"
  unfolding fact_store_ok_def facts_of_delete
  by (auto simp: mem.ok_delete other_rows_def mem.rows_delete fun_eq_iff simp del: split_paired_All)

lemma deletes_ok:
  assumes "fact_store_ok st" and "st' = foldl (\<lambda>s i. scope_delete s p USER_FACTS_TABLE i) st ids"
  shows "fact_store_ok st' \<and> other_rows p st' = other_rows p st \<and> facts_of st' p = facts_of st p |` (- set ids)"
  using assms
proof (induction ids arbitrary: st)
  case (Cons i ids)
  show ?case
    using Cons.IH [OF conjunct1 [OF fact_delete_ok [OF Cons.prems(1)]]] Cons.prems(2) fact_delete_ok [OF Cons.prems(1), of p i]
    by (auto simp: facts_of_delete restrict_map_def fun_eq_iff)
qed (simp add: restrict_map_def)

lemma touches_ok:
  assumes "fact_store_ok st" and "distinct (map uf_id rows)" and "\<forall>f \<in> set rows. facts_of st p (uf_id f) = Some f"
    and "st' = foldl (\<lambda>s f. if uf_id f \<in> set ids then memory_put p (mark_used now f) s else s) st rows"
  shows "fact_store_ok st' \<and> other_rows p st' = other_rows p st \<and> facts_of st' p =
    (\<lambda>i. map_option (\<lambda>f. if i \<in> set ids \<and> i \<in> uf_id ` set rows then mark_used now f else f) (facts_of st p i))"
  using assms
proof (induction rows arbitrary: st)
  case (Cons f rows)
  let ?st = "if uf_id f \<in> set ids then memory_put p (mark_used now f) st else st"
  have ok: "fact_store_ok ?st" "other_rows p ?st = other_rows p st" using fact_put_ok [OF Cons.prems(1)] Cons.prems(1) by simp_all
  have f: "facts_of st p (uf_id f) = Some f" using Cons.prems(3) by simp
  have u: "uf_id (mark_used now f) = uf_id f" by (simp add: mark_used_def)
  have rest: "\<forall>g \<in> set rows. facts_of ?st p (uf_id g) = Some g"
  proof
    fix g
    assume g: "g \<in> set rows"
    then have "uf_id g \<noteq> uf_id f" using Cons.prems(2) by (metis distinct.simps(2) image_eqI image_set list.simps(9))
    then have "facts_of ?st p (uf_id g) = facts_of st p (uf_id g)" by (simp add: facts_of_put u)
    then show "facts_of ?st p (uf_id g) = Some g" using Cons.prems(3) g by simp
  qed
  have "st' = foldl (\<lambda>s f. if uf_id f \<in> set ids then memory_put p (mark_used now f) s else s) ?st rows"
    using Cons.prems(4) by simp
  note ih = Cons.IH [OF ok(1) _ rest this]
  have "facts_of st' p i =
      map_option (\<lambda>g. if i \<in> set ids \<and> i \<in> uf_id ` set (f # rows) then mark_used now g else g) (facts_of st p i)" for i
  proof (cases "i = uf_id f")
    case True
    then have "i \<notin> uf_id ` set rows" using Cons.prems(2) by simp
    then show ?thesis using ih Cons.prems(2) f True by (simp add: facts_of_put u)
  next
    case False
    then show ?thesis using ih Cons.prems(2) by (simp add: facts_of_put u)
  qed
  then show ?case using ih ok Cons.prems(2) by auto
qed (simp add: map_option.id [unfolded id_def])

interpretation memory: fact_backend "memory_facts p" fact_store_ok "\<lambda>st. facts_of st p" "other_rows p" for p
proof
  fix s s' :: fact_store and rows f ids n now i
  assume ok: "fact_store_ok s"
  let ?rows = "fst (scope_rows s p USER_FACTS_TABLE)"
  have d: "distinct (map fst ?rows)" using ok by (simp add: fact_store_ok_def mem.distinct_rows dkeys_def [symmetric] del: dkeys_def)
  have ids: "uf_id g = k" if "(k, g) \<in> set ?rows" for k g
    using ok that map_of_is_SomeI [OF d] unfolding fact_store_ok_def facts_of_def by blast
  then have m: "map uf_id (map snd ?rows) = map fst ?rows" by (force simp: case_prod_unfold)
  have iff: "facts_of s p k = Some g \<longleftrightarrow> g \<in> set (map snd ?rows) \<and> uf_id g = k" for k g
    using map_of_eq_Some_iff [OF d] ids by (force simp: facts_of_def)
  show "fb_all (memory_facts p) s = (rows, s') \<Longrightarrow> fact_store_ok s' \<and> facts_of s' p = facts_of s p \<and> other_rows p s' = other_rows p s
      \<and> distinct (map uf_id rows) \<and> (\<forall>i f. (facts_of s p i = Some f) = (f \<in> set rows \<and> uf_id f = i))"
    using fact_touch_ok [OF ok, of p p] d m iff by (auto simp: memory_facts_def memory_all_simp facts_of_touch)
  show "fact_store_ok (fb_put (memory_facts p) f s) \<and> facts_of (fb_put (memory_facts p) f s) p = (facts_of s p)(uf_id f \<mapsto> f)
      \<and> other_rows p (fb_put (memory_facts p) f s) = other_rows p s"
    using fact_put_ok [OF ok, of p f] by (simp add: memory_facts_def facts_of_put)
  show "distinct ids \<Longrightarrow> fb_remove (memory_facts p) ids s = (n, s') \<Longrightarrow>
      fact_store_ok s' \<and> n = int (card (set ids \<inter> dom (facts_of s p))) \<and> facts_of s' p = facts_of s p |` (- set ids)
      \<and> other_rows p s' = other_rows p s"
  proof -
    assume di: "distinct ids" and r: "fb_remove (memory_facts p) ids s = (n, s')"
    let ?there = "filter (\<lambda>i. i \<in> set (dkeys ?rows)) ids"
    have "n = int (length ?there)" and s': "s' = foldl (\<lambda>s i. scope_delete s p USER_FACTS_TABLE i) (touch s p) ?there"
      using r by (simp_all add: memory_facts_def memory_remove_def scope_rows_def Let_def)
    moreover have there: "set ?there = set ids \<inter> dom (facts_of s p)"
      by (auto simp: facts_of_def dom_map_of_conv_image_fst dkeys_def)
    moreover have "length ?there = card (set ?there)" using distinct_card [of ?there] di by simp
    moreover have "facts_of s p |` (- (set ids \<inter> dom (facts_of s p))) = facts_of s p |` (- set ids)"
      by (auto simp: restrict_map_def fun_eq_iff)
    moreover note deletes_ok [OF conjunct1 [OF fact_touch_ok [OF ok]] s', unfolded there facts_of_touch]
    ultimately show ?thesis using fact_touch_ok [OF ok] by simp
  qed
  show "fact_store_ok (fb_touch (memory_facts p) ids now s) \<and> other_rows p (fb_touch (memory_facts p) ids now s) = other_rows p s
      \<and> facts_of (fb_touch (memory_facts p) ids now s) p i = map_option (\<lambda>f. if i \<in> set ids then mark_used now f else f) (facts_of s p i)"
  proof -
    have "fb_touch (memory_facts p) ids now s = foldl (\<lambda>s f. if uf_id f \<in> set ids then memory_put p (mark_used now f) s else s)
        (touch s p) (map snd ?rows)"
      by (simp add: memory_facts_def memory_touch_def memory_all_simp)
    note t = touches_ok [OF conjunct1 [OF fact_touch_ok [OF ok]] _ _ this]
    have "\<forall>f \<in> set (map snd ?rows). facts_of (touch s p) p (uf_id f) = Some f" "distinct (map uf_id (map snd ?rows))"
      unfolding facts_of_touch m using iff d by blast+
    note t = t [OF this(2,1)]
    have e: "map_option (\<lambda>f. if i \<in> set ids \<and> i \<in> uf_id ` set (map snd ?rows) then mark_used now f else f) (facts_of s p i)
        = map_option (\<lambda>f. if i \<in> set ids then mark_used now f else f) (facts_of s p i)"
    proof (cases "facts_of s p i")
      case (Some f)
      have "i \<in> uf_id ` set (map snd ?rows)" using iffD1 [OF iff Some] by blast
      then show ?thesis by (simp only: simp_thms)
    qed (simp only: option.map)
    have "other_rows p (fb_touch (memory_facts p) ids now s) = other_rows p s"
      using conjunct1 [OF conjunct2 [OF t]] conjunct2 [OF fact_touch_ok [OF ok]] by (rule trans)
    with conjunct1 [OF t] trans [OF fun_cong [OF conjunct2 [OF conjunct2 [OF t]], unfolded facts_of_touch] e]
    show ?thesis by (intro conjI)
  qed
qed

subsection \<open>What holds of every user's memory\<close>

definition fact_history :: "(string \<Rightarrow> string) \<Rightarrow> memory_limits \<Rightarrow> (pair \<times> fact_action) list \<Rightarrow> fact_store" where
  "fact_history hash l acts = foldl (\<lambda>st (p, a). fact_act hash (memory_facts p) l a st) [] acts"

lemma facts_of_other: "other_rows p st' = other_rows p st \<Longrightarrow> q \<noteq> p \<Longrightarrow> facts_of st' q = facts_of st q"
proof -
  assume "other_rows p st' = other_rows p st" "q \<noteq> p"
  then have "other_rows p st' q USER_FACTS_TABLE = other_rows p st q USER_FACTS_TABLE" by simp
  then show ?thesis using \<open>q \<noteq> p\<close> by (simp add: other_rows_def facts_of_def)
qed

lemma memory_history_ok:
  assumes "limits_ok l"
  shows "fact_store_ok (fact_history hash l acts) \<and> (\<forall>p. facts_ok hash l (facts_of (fact_history hash l acts) p))"
  unfolding fact_history_def
proof (induction acts rule: rev_induct)
  case Nil
  have n: "facts_of [] p = Map.empty" for p by (simp add: facts_of_def scope_rows_def scope_tables_def lookup_or_def)
  show ?case using assms by (simp add: n fact_store_ok_def store_ok_def dkeys_def facts_ok_def limits_ok_def)
next
  case (snoc x acts)
  obtain p a where x: "x = (p, a)" by (cases x)
  let ?st = "foldl (\<lambda>st (p, a). fact_act hash (memory_facts p) l a st) [] acts"
  have k: "fact_store_ok (fact_act hash (memory_facts p) l a ?st) \<and> facts_ok hash l (facts_of (fact_act hash (memory_facts p) l a ?st) p)
      \<and> other_rows p (fact_act hash (memory_facts p) l a ?st) = other_rows p ?st"
    by (rule memory.act_kept) (use snoc.IH assms in blast)+
  have "facts_ok hash l (facts_of (fact_act hash (memory_facts p) l a ?st) q)" for q
  proof (cases "q = p")
    case False
    show ?thesis unfolding facts_of_other [OF conjunct2 [OF conjunct2 [OF k]] False] using snoc.IH by blast
  qed (use k in blast)
  then show ?case using k by (simp add: x)
qed

text \<open>
  C26 A user's memory stays within its limits and well formed. After any calls for any users in any order every user has at most the
  allowed number of facts, each filed under the id of its own text, on one line with single spaces, and no longer than allowed.
\<close>

theorem user_memory_bounded:
  assumes "limits_ok l"
  shows "facts_ok hash l (facts_of (fact_history hash l acts) p)"
  using memory_history_ok [OF assms] by blast

text \<open>
  Remembering stores the fact and evicts only the least used. The fact is kept whatever was stored, a fact told again keeps its
  age and its uses, nothing of another user changes, and what was live before is gone only if the limit is reached
  and then only in the order of eviction: least used first, then the one used longest ago.
\<close>

theorem remember_evicts_least_used:
  assumes "fact_store_ok st" and "limits_ok l" and "remember hash (memory_facts p) l content now st = (Inr f, st')"
  shows "facts_of st' p (uf_id f) = Some f \<and> fact_ok hash l f \<and> int (card (dom (facts_of st' p))) \<le> max_facts l
    \<and> (\<forall>q. q \<noteq> p \<longrightarrow> facts_of st' q = facts_of st q)
    \<and> facts_of st' p \<subseteq>\<^sub>m (live now (facts_of st p))(uf_id f \<mapsto> f)
    \<and> (int (card (insert (uf_id f) (dom (live now (facts_of st p))))) \<le> max_facts l
         \<longrightarrow> facts_of st' p = (live now (facts_of st p))(uf_id f \<mapsto> f))
    \<and> (\<forall>i j e g. live now (facts_of st p) i = Some e \<and> facts_of st' p i = None \<and> facts_of st' p j = Some g \<and> j \<noteq> uf_id f
         \<longrightarrow> eviction_order e \<le> eviction_order g)
    \<and> (\<forall>e. live now (facts_of st p) (uf_id f) = Some e \<longrightarrow> uf_created f = uf_created e \<and> uf_uses f = uf_uses e)"
proof -
  obtain body where b: "fact_text l content = Inr body"
    using assms(3) by (auto simp: remember_def split: sum.splits)
  then have r: "remember_text hash (memory_facts p) l body now st = (f, st')"
    using assms(3) by (auto simp: remember_def split: prod.splits)
  have l: "1 \<le> max_facts l" "\<And>t. ttl_s l = Some t \<Longrightarrow> 1 \<le> t" using assms(2) by (auto simp: limits_ok_def)
  note m = memory.remembers [OF assms(1) l r]
  have "fact_ok hash l f" using m fact_text_ok [OF b] by (simp add: fact_ok_def)
  moreover have "\<forall>q. q \<noteq> p \<longrightarrow> facts_of st' q = facts_of st q" using facts_of_other m by blast
  ultimately show ?thesis using m by blast
qed

text \<open>
  A list holds the live facts, newest first. Whatever other writers do between the first read and the lock, it shows exactly the
  unexpired facts of one of the two states it read, and deletes at most expired ones.
\<close>

theorem list_shows_live_facts:
  assumes "fact_store_ok st" and "\<And>t. fact_store_ok t \<Longrightarrow> fact_store_ok (others t)"
    and "list_facts (memory_facts p) now others st = (fs, st')"
  shows "(\<exists>m. (m = facts_of st p \<or> m = facts_of (others (touch st p)) p)
      \<and> set fs = {f. \<exists>i. live now m i = Some f} \<and> (facts_of st' p = live now m \<or> facts_of st' p = m))
    \<and> sorted_wrt (\<lambda>f g. uf_created g \<le> uf_created f) fs \<and> distinct (map uf_id fs)"
  using memory.lists [OF assms] by (simp add: memory_facts_def memory_all_simp)

lemma subseq_sorted_wrt: "subseq xs ys \<Longrightarrow> sorted_wrt P ys \<Longrightarrow> sorted_wrt P xs"
  by (induction rule: list_emb.induct) (auto dest: list_emb_set)

lemma subseq_distinct_map: "subseq xs ys \<Longrightarrow> distinct (map g ys) \<Longrightarrow> distinct (map g xs)"
  by (induction rule: list_emb.induct) (auto dest: list_emb_set)

lemma list_shows_live:
  assumes "fact_store_ok st" and "list_facts (memory_facts p) now (\<lambda>t. t) st = (fs, st')"
  shows "set fs = {f. \<exists>i. live now (facts_of st p) i = Some f} \<and> distinct (map uf_id fs)"
  using memory.lists [OF assms(1) _ assms(2)] by (auto simp: memory_facts_def memory_all_simp facts_of_touch)

lemma collapse_ws_chars:
  assumes "c \<in> set (collapse_ws s)" and "c \<noteq> CHR '' ''"
  shows "\<not> is_space c"
proof -
  have join: "c \<in> set (join '' '' ws) \<Longrightarrow> \<exists>w \<in> set ws. c \<in> set w" for ws
    by (induction ws rule: induct_list012) (use assms(2) in auto)
  have "\<forall>v \<in> set (split_ws s). v \<noteq> [] \<and> (\<forall>c \<in> set v. \<not> is_space c)"
    using words_acc_words [of "[]" _ s] by (simp add: split_ws_def)
  then show ?thesis using join [OF assms(1) [unfolded collapse_ws_def]] by blast
qed

lemma join_snoc_length: "length (join [c] (ls @ [l])) = (if ls = [] then length l else length (join [c] ls) + length l + 1)"
  by (cases "ls = []") (simp_all add: join_append)

lemma fits:
  assumes "fit_facts cap fs lines used taken = (lines', used')" and "taken = int (length (join [newline] lines))" and "taken \<le> cap"
  shows "\<exists>gs. subseq gs fs \<and> lines' = lines @ map (\<lambda>f. ''- '' @ uf_content f) gs \<and> used' = used @ map uf_id gs
    \<and> int (length (join [newline] lines')) \<le> cap"
  using assms
proof (induction fs arbitrary: lines used taken)
  case (Cons f fs)
  let ?line = "''- '' @ uf_content f"
  let ?added = "int (length ?line) + (if lines = [] then 0 else 1)"
  show ?case
  proof (cases "cap < taken + ?added")
    case True
    then show ?thesis using Cons.IH [of lines used taken] Cons.prems by (auto simp: Let_def)
  next
    case False
    have "fit_facts cap fs (lines @ [?line]) (used @ [uf_id f]) (taken + ?added) = (lines', used')"
      using Cons.prems(1) False by (simp add: Let_def split: if_splits)
    moreover have "taken + ?added = int (length (join [newline] (lines @ [?line])))"
      using Cons.prems(2) unfolding join_snoc_length by simp
    ultimately obtain gs where g: "subseq gs fs" "lines' = (lines @ [?line]) @ map (\<lambda>f. ''- '' @ uf_content f) gs"
        "used' = (used @ [uf_id f]) @ map uf_id gs" "int (length (join [newline] lines')) \<le> cap"
      using Cons.IH [of "lines @ [?line]" "used @ [uf_id f]" "taken + ?added"] False by auto
    then show ?thesis by (intro exI [of _ "f # gs"]) simp
  qed
qed simp

text \<open>
  The injected block is one line per live fact and never cut. Its lines are those of some live facts of the user, most used first,
  together no longer than the cap of the block, and no stored text adds a line of its own.
\<close>

theorem injected_lines_are_facts:
  assumes st: "fact_store_ok st" and inv: "facts_ok hash l (facts_of st p)"
    and i: "injection_block (memory_facts p) l now (\<lambda>t. t) mark st = (Inr (Some u), st')"
  shows "\<exists>gs. gs \<noteq> [] \<and> set gs \<subseteq> {f. \<exists>i. live now (facts_of st p) i = Some f}
    \<and> sorted_wrt (\<lambda>f g. (uf_uses g, uf_last_used g) \<le> (uf_uses f, uf_last_used f)) gs \<and> distinct (map uf_id gs)
    \<and> split_on newline (ud_content u) = map (\<lambda>f. ''- '' @ uf_content f) gs
    \<and> int (length (ud_content u)) \<le> max_injected_chars l \<and> capped u = ud_content u"
proof -
  let ?key = "\<lambda>f. (uf_uses f, uf_last_used f)"
  obtain fs s1 where r: "list_facts (memory_facts p) now (\<lambda>t. t) st = (fs, s1)" (is "?r = _") by (cases ?r)
  obtain lines used where ft: "fit_facts (max_injected_chars l) (sorted_reverse ?key fs) [] [] 0 = (lines, used)" (is "?f = _") by (cases ?f)
  have ln: "lines \<noteq> []" using i r ft by (auto simp: injection_block_def)
  have u: "u = \<lparr>ud_source = USER_FACTS_SOURCE, ud_content = join [newline] lines, ud_max_chars = max_injected_chars l\<rparr>"
      "1 \<le> max_injected_chars l"
    using i r ft ln by (auto simp: injection_block_def bindR_eq_Inr check_untrusted_data_def Let_def split: if_splits)
  obtain gs where g: "subseq gs (sorted_reverse ?key fs)" "lines = map (\<lambda>f. ''- '' @ uf_content f) gs"
      "int (length (join [newline] lines)) \<le> max_injected_chars l"
    using fits [OF ft] u(2) by auto
  have live: "set fs = {f. \<exists>i. live now (facts_of st p) i = Some f}" "distinct (map uf_id fs)"
    using list_shows_live [OF st r] by blast+
  have sub: "set gs \<subseteq> set fs" using list_emb_set [OF g(1)] by (force simp: sorted_reverse_def)
  have "sorted_wrt (\<lambda>f g. ?key g \<le> ?key f) (sorted_reverse ?key fs)"
  proof -
    have "sorted (map ?key (sort_key ?key (rev fs)))" by simp
    then show ?thesis unfolding sorted_reverse_def sorted_wrt_rev sorted_wrt_map by simp
  qed
  then have sorted: "sorted_wrt (\<lambda>f g. ?key g \<le> ?key f) gs" using subseq_sorted_wrt [OF g(1)] by blast
  have "distinct (map uf_id (sorted_reverse ?key fs))" using live(2) by (simp add: sorted_reverse_def distinct_map)
  then have d: "distinct (map uf_id gs)" by (rule subseq_distinct_map [OF g(1)])
  have "newline \<notin> set (''- '' @ uf_content f)" if f: "f \<in> set gs" for f
  proof -
    obtain k where "live now (facts_of st p) k = Some f"
      using subsetD [OF sub [unfolded live(1)] f] by (elim CollectE exE)
    then have c: "collapse_ws (uf_content f) = uf_content f" using inv unfolding live_iff facts_ok_def fact_ok_def by blast
    have n: "is_space newline" "newline \<noteq> CHR '' ''" "newline \<notin> set ''- ''" by code_simp+
    have "newline \<notin> set (uf_content f)" using collapse_ws_chars [of newline "uf_content f", unfolded c] n(1,2) by blast
    then show ?thesis using n(3) by simp
  qed
  then have "split_on newline (join [newline] lines) = lines" using ln g(2) by (intro split_on_join) auto
  then show ?thesis
    using g ln sub live(1) sorted d u(1) by (intro exI [of _ gs]) (auto simp: capped_def)
qed

subsection \<open>A concrete memory\<close>

definition two_facts :: memory_limits where
  "two_facts = \<lparr>max_facts = 2, max_fact_bytes = 20, max_injected_chars = 24, ttl_s = Some 100\<rparr>"

definition told :: "(pair \<times> fact_action) list" where
  "told = [((''shop'', ''ana''), Remember (PStr ''uses  kilos'') 1), ((''shop'', ''ben''), Remember (PStr ''likes tea'') 2),
     ((''shop'', ''ana''), Inject 3 True), ((''shop'', ''ana''), Remember (PStr ''sells bread'') 4),
     ((''shop'', ''ana''), Remember (PStr ''lives in Jujuy'') 5)]"

definition told_store :: fact_store where "told_store = fact_history (\<lambda>x. x) two_facts told"

lemma two_facts_ok: "limits_ok two_facts"
  by (simp add: two_facts_def limits_ok_def)

lemma told_contents: "map uf_content (fst (memory_all (''shop'', ''ana'') told_store)) = [''uses kilos'', ''lives in Jujuy'']"
  by code_simp

theorem user_memory_bounded_witness:
  "facts_ok (\<lambda>x. x) two_facts (facts_of told_store (''shop'', ''ana'')) \<and> facts_of told_store (''shop'', ''ana'') \<noteq> Map.empty"
proof -
  have "facts_of told_store (''shop'', ''ana'') ''uses kilos'' \<noteq> None" by code_simp
  then show ?thesis using user_memory_bounded [OF two_facts_ok, of "\<lambda>x. x" told "(''shop'', ''ana'')"] by (auto simp: told_store_def)
qed

lemma nothing_stored: "fact_store_ok []"
  by (simp add: fact_store_ok_def store_ok_def dkeys_def facts_of_def scope_rows_def scope_tables_def lookup_or_def)

lemma told_ok: "fact_store_ok told_store"
  using memory_history_ok [OF two_facts_ok] unfolding told_store_def by blast

definition rainy :: "user_fact res \<times> fact_store" where
  "rainy = remember (\<lambda>x. x) (memory_facts (''shop'', ''ana'')) two_facts (PStr ''hates rain'') 6 told_store"

theorem remember_evicts_least_used_witness:
  "\<exists>f. fst rainy = Inr f \<and> facts_of (snd rainy) (''shop'', ''ana'') (uf_id f) = Some f \<and> uf_content f = ''hates rain''
     \<and> facts_of (snd rainy) (''shop'', ''ben'') = facts_of told_store (''shop'', ''ben'')
     \<and> int (card (dom (facts_of (snd rainy) (''shop'', ''ana'')))) \<le> 2"
proof -
  obtain f where f: "fst rainy = Inr f" "uf_content f = ''hates rain''"
  proof -
    have "map uf_content (case fst rainy of Inl _ \<Rightarrow> [] | Inr f \<Rightarrow> [f]) = [''hates rain'']" by code_simp
    then show ?thesis using that by (cases "fst rainy") simp_all
  qed
  have r: "remember (\<lambda>x. x) (memory_facts (''shop'', ''ana'')) two_facts (PStr ''hates rain'') 6 told_store = (Inr f, snd rainy)"
    using f(1) unfolding rainy_def by (metis prod.collapse)
  have "(''shop'', ''ben'') \<noteq> (''shop'', ''ana'')" "max_facts two_facts = 2" by (simp_all add: two_facts_def)
  then show ?thesis using remember_evicts_least_used [OF told_ok two_facts_ok r] f by metis
qed

theorem list_shows_live_facts_witness:
  "\<exists>fs. fs = fst (list_facts (memory_facts (''shop'', ''ana'')) 200 (\<lambda>t. t) told_store) \<and> fs = []
     \<and> sorted_wrt (\<lambda>f g. uf_created g \<le> uf_created f) fs
     \<and> facts_of (snd (list_facts (memory_facts (''shop'', ''ana'')) 200 (\<lambda>t. t) told_store)) (''shop'', ''ana'') ''uses kilos'' = None"
proof -
  have "list_facts (memory_facts (''shop'', ''ana'')) 200 (\<lambda>t. t) told_store
      = (fst (list_facts (memory_facts (''shop'', ''ana'')) 200 (\<lambda>t. t) told_store), snd (list_facts (memory_facts (''shop'', ''ana'')) 200 (\<lambda>t. t) told_store))"
    by simp
  from list_shows_live_facts [OF told_ok _ this]
  have "sorted_wrt (\<lambda>f g. uf_created g \<le> uf_created f) (fst (list_facts (memory_facts (''shop'', ''ana'')) 200 (\<lambda>t. t) told_store))"
    by blast
  moreover have "fst (list_facts (memory_facts (''shop'', ''ana'')) 200 (\<lambda>t. t) told_store) = []" by code_simp
  moreover have "facts_of (snd (list_facts (memory_facts (''shop'', ''ana'')) 200 (\<lambda>t. t) told_store)) (''shop'', ''ana'') ''uses kilos'' = None"
    by code_simp
  ultimately show ?thesis by simp
qed

theorem injected_lines_are_facts_witness:
  "\<exists>u (gs :: user_fact list). fst (injection_block (memory_facts (''shop'', ''ana'')) two_facts 7 (\<lambda>t. t) False told_store) = Inr (Some u)
     \<and> ud_content u = ''- uses kilos'' \<and> split_on newline (ud_content u) = map (\<lambda>f. ''- '' @ uf_content f) gs"
proof -
  let ?i = "injection_block (memory_facts (''shop'', ''ana'')) two_facts 7 (\<lambda>t. t) False told_store"
  obtain u where u: "fst ?i = Inr (Some u)" "ud_content u = ''- uses kilos''"
  proof -
    have "map ud_content (case fst ?i of Inr (Some u) \<Rightarrow> [u] | _ \<Rightarrow> []) = [''- uses kilos'']" by code_simp
    then show ?thesis using that by (cases "fst ?i") (auto split: option.splits)
  qed
  have inv: "facts_ok (\<lambda>x. x) two_facts (facts_of told_store (''shop'', ''ana''))"
    using memory_history_ok [OF two_facts_ok] unfolding told_store_def by blast
  have i: "?i = (Inr (Some u), snd ?i)" using u(1) by (metis prod.collapse)
  show ?thesis using injected_lines_are_facts [OF told_ok inv i] u by blast
qed

end
