(* ===== verification/Subject_Data.thy ===== *)
theory Subject_Data
  imports Schedule_Runs User_Facts
begin

section \<open>Everything kept about a user\<close>

text \<open>
  \<open>subject_data.py\<close>: the registry of the stores that keep data per user, what an operator's export and erasure do over them,
  and the retention purger.  A store is its operations on the world, each of which may raise; \<open>ds_object\<close> tells one store
  object from another.  That an erasure leaves nothing is proved once, in the locale \<open>erasable_stores\<close>.
\<close>

subsection \<open>Stores and the registry\<close>

record 'w data_store =
  ds_object :: nat
  ds_name :: string
  ds_tables :: "string list"
  ds_unbound :: bool
  ds_export :: "pair \<Rightarrow> 'w \<Rightarrow> dict list res \<times> 'w"
  ds_delete :: "pair \<Rightarrow> 'w \<Rightarrow> int res \<times> 'w"
  ds_purge :: "(int \<Rightarrow> 'w \<Rightarrow> int res \<times> 'w) option"

type_synonym 'w data_registry = "(string \<times> 'w data_store) list"

definition register_store :: "'w data_store \<Rightarrow> 'w data_registry \<Rightarrow> 'w data_registry res" where
  "register_store s reg =
     (if ds_name s \<in> set (dkeys reg) then Inl (ValueErr ''already registered'') else Inr (dset reg (ds_name s) s))"

definition bind_store :: "'w data_store \<Rightarrow> 'w data_registry \<Rightarrow> 'w data_registry res" where
  "bind_store s reg =
     (case map_of reg (ds_name s) of
        None \<Rightarrow> Inr (dset reg (ds_name s) s)
      | Some e \<Rightarrow>
          if ds_object e = ds_object s then Inr reg
          else if \<not> ds_unbound e then Inl (ValueErr ''already registered with a different store'')
          else Inr (dset reg (ds_name s) s))"

definition registry_tables :: "'w data_registry \<Rightarrow> string list" where
  "registry_tables reg = remdups (concat (map (\<lambda>(n, s). ds_tables s) reg))"

text \<open>\<open>int(text)\<close>: a sign, then digits, with single underscores between them.\<close>

definition digit_value :: "char \<Rightarrow> int" where "digit_value c = int (of_char c) - 48"

definition int_of_text :: "string \<Rightarrow> int option" where
  "int_of_text raw =
     (let s = strip raw;
          body = (if s \<noteq> [] \<and> hd s \<in> {CHR ''+'', CHR ''-''} then tl s else s);
          groups = split_on (CHR ''_'') body
      in if list_all (\<lambda>g. g \<noteq> [] \<and> list_all is_digit g) groups
         then Some ((if s \<noteq> [] \<and> hd s = CHR ''-'' then -1 else 1)
                * foldl (\<lambda>n c. 10 * n + digit_value c) 0 (concat groups))
         else None)"

definition parse_retention :: "pyval \<Rightarrow> int option res" where
  "parse_retention v =
     (let check = (\<lambda>v. case v of PInt i \<Rightarrow> if i \<le> 0 then Inl (ValueErr ''retention'') else Inr (Some i) | _ \<Rightarrow> Inl (ValueErr ''retention'')) in
      case v of
        PStr s \<Rightarrow>
          if map lower_char (strip s) = ''never'' then Inr None
          else (case int_of_text (map lower_char (strip s)) of None \<Rightarrow> Inl (ValueErr ''retention'') | Some i \<Rightarrow> check (PInt i))
      | _ \<Rightarrow> check v)"

subsection \<open>Export\<close>

record 'w thread_store =
  th_export :: "string \<Rightarrow> 'w \<Rightarrow> pyval option res \<times> 'w"
  th_delete :: "string \<Rightarrow> 'w \<Rightarrow> int res \<times> 'w"

fun export_stores :: "'w data_registry \<Rightarrow> pair \<Rightarrow> 'w \<Rightarrow> (string \<times> dict list) list res \<times> 'w" where
  "export_stores [] p w = (Inr [], w)"
| "export_stores ((n, s) # reg) p w =
     (case ds_export s p w of
        (Inl e, w1) \<Rightarrow> (Inl e, w1)
      | (Inr rows, w1) \<Rightarrow>
          (case export_stores reg p w1 of (Inl e, w2) \<Rightarrow> (Inl e, w2) | (Inr rest, w2) \<Rightarrow> (Inr ((n, rows) # rest), w2)))"

fun export_threads :: "'w thread_store \<Rightarrow> string list \<Rightarrow> 'w \<Rightarrow> pyval list res \<times> 'w" where
  "export_threads ts [] w = (Inr [], w)"
| "export_threads ts (i # is) w =
     (case th_export ts i w of
        (Inl e, w1) \<Rightarrow> (Inl e, w1)
      | (Inr found, w1) \<Rightarrow>
          (case export_threads ts is w1 of
             (Inl e, w2) \<Rightarrow> (Inl e, w2)
           | (Inr rest, w2) \<Rightarrow> (Inr ((case found of Some t \<Rightarrow> [t] | None \<Rightarrow> []) @ rest), w2)))"

record subject_export =
  se_subject :: pair
  se_stores :: "(string \<times> dict list) list"
  se_threads :: "pyval list"

definition export_subject ::
  "'w data_registry \<Rightarrow> pair \<Rightarrow> 'w thread_store option \<Rightarrow> string list \<Rightarrow> 'w \<Rightarrow> subject_export res \<times> 'w" where
  "export_subject reg p threads ids w =
     (case export_stores reg p w of
        (Inl e, w1) \<Rightarrow> (Inl e, w1)
      | (Inr stores, w1) \<Rightarrow>
          (case (case threads of None \<Rightarrow> (Inr [], w1) | Some ts \<Rightarrow> export_threads ts ids w1) of
             (Inl e, w2) \<Rightarrow> (Inl e, w2)
           | (Inr found, w2) \<Rightarrow> (Inr \<lparr>se_subject = p, se_stores = stores, se_threads = found\<rparr>, w2)))"

subsection \<open>Erasure\<close>

text \<open>The event of an erasure, and what an erasure reports or raises.\<close>

record erasure_event =
  ev_subject :: pair
  ev_actor :: string
  ev_stores :: "(string \<times> int) list"
  ev_threads :: int
  ev_failed :: "string list"

datatype erasure_result =
    Erased pair "(string \<times> int) list" int bool
  | SubjectDeletionError "string list" "(string \<times> int) list" int

fun delete_stores :: "'w data_registry \<Rightarrow> pair \<Rightarrow> 'w \<Rightarrow> (string \<times> int) list \<times> string list \<times> 'w" where
  "delete_stores [] p w = ([], [], w)"
| "delete_stores ((n, s) # reg) p w =
     (case ds_delete s p w of
        (Inl e, w1) \<Rightarrow> (case delete_stores reg p w1 of (d, f, w2) \<Rightarrow> (d, n # f, w2))
      | (Inr k, w1) \<Rightarrow> (case delete_stores reg p w1 of (d, f, w2) \<Rightarrow> ((n, k) # d, f, w2)))"

fun delete_threads :: "'w thread_store \<Rightarrow> string list \<Rightarrow> 'w \<Rightarrow> int \<times> nat \<times> 'w" where
  "delete_threads ts [] w = (0, 0, w)"
| "delete_threads ts (i # is) w =
     (case th_delete ts i w of
        (Inl e, w1) \<Rightarrow> (case delete_threads ts is w1 of (k, f, w2) \<Rightarrow> (k, Suc f, w2))
      | (Inr k, w1) \<Rightarrow> (case delete_threads ts is w1 of (k', f, w2) \<Rightarrow> (k + k', f, w2)))"

text \<open>The sink is the one registered, if any; recording may raise.\<close>

type_synonym 'w erasure_sink = "(erasure_event \<Rightarrow> 'w \<Rightarrow> unit res \<times> 'w) option"

definition audit_deletion :: "'w erasure_sink \<Rightarrow> erasure_event \<Rightarrow> 'w \<Rightarrow> bool \<times> 'w" where
  "audit_deletion sink e w =
     (case sink of None \<Rightarrow> (False, w)
      | Some f \<Rightarrow> (case f e w of (Inl _, w') \<Rightarrow> (False, w') | (Inr _, w') \<Rightarrow> (True, w')))"

definition delete_subject ::
  "'w data_registry \<Rightarrow> 'w erasure_sink \<Rightarrow> pair \<Rightarrow> turn_actor \<Rightarrow> 'w thread_store option \<Rightarrow> string list \<Rightarrow> 'w
   \<Rightarrow> erasure_result \<times> 'w" where
  "delete_subject reg sink p actor threads ids w =
     (case delete_stores reg p w of
        (deleted, failed, w1) \<Rightarrow>
          (case (case threads of None \<Rightarrow> (0, 0, w1) | Some ts \<Rightarrow> delete_threads ts ids w1) of
             (k, lost, w2) \<Rightarrow>
               let failed = failed @ (if lost = 0 then [] else [''checkpointer: '' @ nat_str lost @ '' thread(s)'']);
                   e = \<lparr>ev_subject = p, ev_actor = actor_label actor, ev_stores = deleted, ev_threads = k, ev_failed = failed\<rparr>
               in (case audit_deletion sink e w2 of
                     (logged, w3) \<Rightarrow>
                       (if failed = [] then Erased p deleted k logged else SubjectDeletionError failed deleted k, w3))))"

subsection \<open>Retention\<close>

definition SubjectDataPurger :: "'w data_registry \<Rightarrow> (string \<times> int option) list \<Rightarrow> (string \<times> int option) list res" where
  "SubjectDataPurger reg retention =
     (if \<exists>n \<in> set (dkeys retention). n \<notin> set (dkeys reg) then Inl (ValueErr ''retention names unknown store'') else Inr retention)"

fun purge_stores :: "'w data_registry \<Rightarrow> (string \<times> int option) list \<Rightarrow> 'w \<Rightarrow> (string \<times> int) list res \<times> 'w" where
  "purge_stores reg [] w = (Inr [], w)"
| "purge_stores reg ((n, keep) # retention) w =
     (case map_of reg n of
        None \<Rightarrow> (Inl (KeyErr n), w)
      | Some s \<Rightarrow>
          (case (keep, ds_purge s) of
             (Some seconds, Some purge) \<Rightarrow>
               (case purge seconds w of
                  (Inl e, w1) \<Rightarrow> purge_stores reg retention w1
                | (Inr k, w1) \<Rightarrow>
                    (case purge_stores reg retention w1 of (Inl e, w2) \<Rightarrow> (Inl e, w2) | (Inr done_, w2) \<Rightarrow> (Inr ((n, k) # done_), w2)))
           | _ \<Rightarrow> purge_stores reg retention w))"

subsection \<open>Erasing everywhere\<close>

locale erasable_stores =
  fixes member :: "'w data_store \<Rightarrow> bool"
    and clean :: "'w data_store \<Rightarrow> pair \<Rightarrow> 'w \<Rightarrow> bool"
    and ok :: "'w \<Rightarrow> bool"
    and others :: "pair \<Rightarrow> 'w \<Rightarrow> 'o"
  assumes deletes: "member s \<Longrightarrow> ok w \<Longrightarrow> ds_delete s p w = (r, w') \<Longrightarrow>
      ok w' \<and> others p w' = others p w \<and> (\<forall>n. r = Inr n \<longrightarrow> clean s p w')"
    and stays_clean: "member s \<Longrightarrow> member t \<Longrightarrow> ok w \<Longrightarrow> ds_delete s p w = (r, w') \<Longrightarrow> clean t p w \<Longrightarrow> clean t p w'"
begin

lemma stays: "list_all (\<lambda>(n, s). member s) reg \<Longrightarrow> ok w \<Longrightarrow> delete_stores reg p w = (d, f, w') \<Longrightarrow> member t \<Longrightarrow> clean t p w \<Longrightarrow> clean t p w'"
proof (induction reg arbitrary: w d f)
  case (Cons x reg)
  obtain n s where x: "x = (n, s)" by (cases x)
  obtain r w1 where r: "ds_delete s p w = (r, w1)" (is "?d = _") by (cases ?d)
  obtain d2 f2 where rest: "delete_stores reg p w1 = (d2, f2, w')"
    using Cons.prems(3) r by (auto simp: x split: sum.splits prod.splits)
  have m: "member s" "list_all (\<lambda>(n, s). member s) reg" using Cons.prems(1) by (simp_all add: x)
  have "ok w1" by (rule conjunct1 [OF deletes [OF m(1) Cons.prems(2) r]])
  then show ?case
    by (rule Cons.IH [OF m(2) _ rest Cons.prems(4) stays_clean [OF m(1) Cons.prems(4,2) r Cons.prems(5)]])
qed simp

lemma erased:
  assumes "list_all (\<lambda>(n, s). member s) reg" and "ok w" and "delete_stores reg p w = (d, f, w')"
  shows "ok w' \<and> others p w' = others p w \<and> list_all (\<lambda>(n, s). n \<notin> set f \<longrightarrow> clean s p w') reg"
  using assms
proof (induction reg arbitrary: w d f)
  case (Cons x reg)
  obtain n s where x: "x = (n, s)" by (cases x)
  obtain r w1 where r: "ds_delete s p w = (r, w1)" (is "?d = _") by (cases ?d)
  obtain d2 f2 where rest: "delete_stores reg p w1 = (d2, f2, w')"
      and df: "d = (case r of Inl _ \<Rightarrow> d2 | Inr k \<Rightarrow> (n, k) # d2)" "f = (case r of Inl _ \<Rightarrow> n # f2 | Inr k \<Rightarrow> f2)"
    using Cons.prems(3) r by (auto simp: x split: sum.splits prod.splits)
  have m: "member s" "list_all (\<lambda>(n, s). member s) reg" using Cons.prems(1) by (simp_all add: x)
  note del = deletes [OF m(1) Cons.prems(2) r]
  note ih = Cons.IH [OF m(2) conjunct1 [OF del] rest]
  have c: "clean s p w'" if "r = Inr k" for k using stays [OF m(2) conjunct1 [OF del] rest m(1)] del that by blast
  show ?case using ih del c df
    by (auto simp: x list_all_iff split: sum.splits)
qed simp

end

lemma all_attempted:
  assumes "delete_stores reg p w = (d, f, w')"
  shows "set (dkeys reg) = fst ` set d \<union> set f \<and> length d + length f = length reg"
  using assms
proof (induction reg arbitrary: w d f)
  case (Cons x reg)
  obtain n s where x: "x = (n, s)" by (cases x)
  obtain r w1 where r: "ds_delete s p w = (r, w1)" (is "?d = _") by (cases ?d)
  obtain d2 f2 where rest: "delete_stores reg p w1 = (d2, f2, w')"
      and df: "d = (case r of Inl _ \<Rightarrow> d2 | Inr k \<Rightarrow> (n, k) # d2)" "f = (case r of Inl _ \<Rightarrow> n # f2 | Inr k \<Rightarrow> f2)"
    using Cons.prems r by (auto simp: x split: sum.splits prod.splits)
  show ?case using Cons.IH [OF rest] unfolding df x by (cases r) (simp_all add: dkeys_def)
qed (simp add: dkeys_def)

subsection \<open>The stores in memory\<close>

record app_data =
  ad_facts :: fact_store
  ad_schedules :: schedule_store

definition SCHEDULES_STORE :: string where "SCHEDULES_STORE = ''schedules''"

definition facts_data :: "(rat \<Rightarrow> string) \<Rightarrow> rat \<Rightarrow> app_data data_store" where
  "facts_data show_time now =
     \<lparr>ds_object = 1, ds_name = USER_FACTS_STORE, ds_tables = [USER_FACTS_TABLE], ds_unbound = False,
      ds_export = (\<lambda>p w. case memory_export show_time now p (ad_facts w) of (rows, st) \<Rightarrow> (Inr rows, w\<lparr>ad_facts := st\<rparr>)),
      ds_delete = (\<lambda>p w. case memory_delete p (ad_facts w) of (n, st) \<Rightarrow> (Inr n, w\<lparr>ad_facts := st\<rparr>)),
      ds_purge = Some (\<lambda>_ w. case memory_purge now (ad_facts w) of (n, st) \<Rightarrow> (Inr (int n), w\<lparr>ad_facts := st\<rparr>))\<rparr>"

definition schedules_data :: "schedule_texts \<Rightarrow> app_data data_store" where
  "schedules_data x =
     \<lparr>ds_object = 2, ds_name = SCHEDULES_STORE, ds_tables = [SCHEDULES_TABLE], ds_unbound = False,
      ds_export = (\<lambda>p w. case backend_list p (ad_schedules w) of (ss, st) \<Rightarrow> (mapR (export_row x) ss, w\<lparr>ad_schedules := st\<rparr>)),
      ds_delete = (\<lambda>p w. case store_delete p (ad_schedules w) of (n, st) \<Rightarrow> (Inr n, w\<lparr>ad_schedules := st\<rparr>)),
      ds_purge = None\<rparr>"

definition app_ok :: "app_data \<Rightarrow> bool" where
  "app_ok w \<longleftrightarrow> fact_store_ok (ad_facts w) \<and> scoped_ok (ad_schedules w)"

text \<open>What the stores hold of a subject, and that nothing is left.\<close>

definition data_of :: "app_data \<Rightarrow> pair \<Rightarrow> (string \<Rightarrow> user_fact option) \<times> (string \<Rightarrow> schedule option)" where
  "data_of w p = (facts_of (ad_facts w) p, scoped_entries (ad_schedules w) p)"

definition data_of_others :: "pair \<Rightarrow> app_data \<Rightarrow> pair \<Rightarrow> (string \<Rightarrow> user_fact option) \<times> (string \<Rightarrow> schedule option)" where
  "data_of_others p w = (data_of w)(p := (Map.empty, Map.empty))"

definition nothing_left :: "app_data data_store \<Rightarrow> pair \<Rightarrow> app_data \<Rightarrow> bool" where
  "nothing_left s p w \<longleftrightarrow> (if ds_object s = 1 then fst (data_of w p) = Map.empty else snd (data_of w p) = Map.empty)"

lemma memory_delete_all:
  assumes "fact_store_ok st" and "memory_delete p st = (n, st')"
  shows "fact_store_ok st' \<and> facts_of st' p = Map.empty \<and> (\<forall>q. q \<noteq> p \<longrightarrow> facts_of st' q = facts_of st q)"
proof -
  obtain rows s1 where r: "memory_all p st = (rows, s1)" (is "?a = _") by (cases ?a)
  then have rm: "memory_remove p (map uf_id rows) s1 = (n, st')" using assms(2) by (simp add: memory_delete_def)
  have a: "fact_store_ok s1" "facts_of s1 p = facts_of st p" "other_rows p s1 = other_rows p st" "distinct (map uf_id rows)"
      "\<And>i f. facts_of st p i = Some f \<Longrightarrow> f \<in> set rows \<and> uf_id f = i"
    using memory.all_facts [OF assms(1), of p rows s1] r by (simp_all add: memory_facts_def)
  note m = memory.remove_facts [OF a(1,4), of p n st']
  have st': "fact_store_ok st'" "facts_of st' p = facts_of s1 p |` (- set (map uf_id rows))" "other_rows p st' = other_rows p st"
    using m rm a(3) by (simp_all add: memory_facts_def)
  have "facts_of st' p i = None" for i
  proof (rule ccontr)
    assume "facts_of st' p i \<noteq> None"
    then obtain f where "facts_of st p i = Some f" "i \<notin> set (map uf_id rows)"
      unfolding st'(2) a(2) by (auto simp: restrict_map_def split: if_splits)
    then show False using a(5) by force
  qed
  then show ?thesis using st' facts_of_other by blast
qed

lemma removes_all:
  assumes "scoped_ok st" and "foldl (\<lambda>(n, st) s. case backend_remove p (sc_id s) st of (b, st') \<Rightarrow> (n + (if b then 1 else 0), st')) (k, st) ss = (n, st')"
  shows "scoped_ok st' \<and> scoped_entries st' p = (scoped_entries st p) |` (- (sc_id ` set ss)) \<and> (\<forall>q. q \<noteq> p \<longrightarrow> scoped_entries st' q = scoped_entries st q)"
  using assms
proof (induction ss arbitrary: k st)
  case (Cons s ss)
  obtain b s1 where r: "backend_remove p (sc_id s) st = (b, s1)" (is "?r = _") by (cases ?r)
  have m: "scoped_ok s1" "scoped_entries s1 = put_entry (scoped_entries st) p (sc_id s) None"
    using scoped.remove_entry [OF Cons.prems(1), of p "sc_id s" b s1] r by (simp_all add: scoped_schedules_def)
  show ?case using Cons.IH [OF m(1), of "k + (if b then 1 else 0)"] Cons.prems(2) r
    by (auto simp: m(2) put_entry_def restrict_map_def fun_eq_iff simp del: split_paired_All)
qed (simp add: restrict_map_def)

lemma store_delete_all:
  assumes "scoped_ok st" and "store_delete p st = (n, st')"
  shows "scoped_ok st' \<and> scoped_entries st' p = Map.empty \<and> (\<forall>q. q \<noteq> p \<longrightarrow> scoped_entries st' q = scoped_entries st q)"
proof -
  obtain ss s1 where l: "backend_list p st = (ss, s1)" (is "?l = _") by (cases ?l)
  have m: "scoped_ok s1" "scoped_entries s1 = scoped_entries st" "set ss = {s. \<exists>i. scoped_entries st p i = Some s}"
    using scoped.list_entries [OF assms(1), of p ss s1] l by (simp_all add: scoped_schedules_def)
  note d = removes_all [OF m(1), of p 0 ss n st']
  have d: "scoped_ok st'" "scoped_entries st' p = (scoped_entries st p) |` (- (sc_id ` set ss))" "\<forall>q. q \<noteq> p \<longrightarrow> scoped_entries st' q = scoped_entries st q"
    using d assms(2) l m(2) by (simp_all add: store_delete_def)
  have "scoped_entries st' p i = None" for i
  proof (rule ccontr)
    assume "scoped_entries st' p i \<noteq> None"
    then obtain s where "scoped_entries st p i = Some s" "i \<notin> sc_id ` set ss"
      unfolding d(2) by (auto simp: restrict_map_def split: if_splits)
    moreover have "sc_id s = i" using scoped.entry_key [OF assms(1)] calculation(1) by blast
    ultimately show False using m(3) by force
  qed
  then show ?thesis using d by blast
qed

interpretation app: erasable_stores "\<lambda>s. \<exists>show_time now x. s = facts_data show_time now \<or> s = schedules_data x" nothing_left app_ok data_of_others
proof
  fix s t :: "app_data data_store" and p w r w'
  assume s: "\<exists>show_time now x. s = facts_data show_time now \<or> s = schedules_data x" and ok: "app_ok w" and d: "ds_delete s p w = (r, w')"
  consider (facts) show_time now where "s = facts_data show_time now" | (schedules) x where "s = schedules_data x" using s by blast
  then have "app_ok w' \<and> data_of_others p w' = data_of_others p w \<and> nothing_left s p w'
    \<and> (fst (data_of w p) = Map.empty \<longrightarrow> fst (data_of w' p) = Map.empty) \<and> (snd (data_of w p) = Map.empty \<longrightarrow> snd (data_of w' p) = Map.empty)"
  proof cases
    case facts
    obtain n st where m: "memory_delete p (ad_facts w) = (n, st)" (is "?m = _") by (cases ?m)
    have w': "w' = w\<lparr>ad_facts := st\<rparr>" using d m by (simp add: facts facts_data_def)
    show ?thesis using memory_delete_all [OF _ m] ok
      by (auto simp: w' app_ok_def data_of_others_def data_of_def nothing_left_def facts facts_data_def fun_eq_iff simp del: split_paired_All)
  next
    case schedules
    obtain n st where m: "store_delete p (ad_schedules w) = (n, st)" (is "?m = _") by (cases ?m)
    have w': "w' = w\<lparr>ad_schedules := st\<rparr>" using d m by (simp add: schedules schedules_data_def)
    show ?thesis using store_delete_all [OF _ m] ok
      by (auto simp: w' app_ok_def data_of_others_def data_of_def nothing_left_def schedules schedules_data_def fun_eq_iff simp del: split_paired_All)
  qed
  then show "app_ok w' \<and> data_of_others p w' = data_of_others p w \<and> (\<forall>n. r = Inr n \<longrightarrow> nothing_left s p w')"
      "nothing_left t p w \<Longrightarrow> nothing_left t p w'"
    by (auto simp: nothing_left_def split: if_splits)
qed

subsection \<open>What an operator gets\<close>

lemma delete_subject_cases:
  assumes "delete_subject reg sink p actor threads ids w = (res, w')"
  obtains deleted failed w1 k lost w2 e where "delete_stores reg p w = (deleted, failed, w1)"
    "(case threads of None \<Rightarrow> (0, 0, w1) | Some ts \<Rightarrow> delete_threads ts ids w1) = (k, lost, w2)"
    "e = \<lparr>ev_subject = p, ev_actor = actor_label actor, ev_stores = deleted, ev_threads = k,
       ev_failed = failed @ (if lost = 0 then [] else [''checkpointer: '' @ nat_str lost @ '' thread(s)''])\<rparr>"
    "w' = snd (audit_deletion sink e w2)"
    "res = (if ev_failed e = [] then Erased p deleted k (fst (audit_deletion sink e w2)) else SubjectDeletionError (ev_failed e) deleted k)"
proof -
  obtain deleted failed w1 where d: "delete_stores reg p w = (deleted, failed, w1)" (is "?d = _") by (cases ?d)
  obtain k lost w2 where t: "(case threads of None \<Rightarrow> (0, 0, w1) | Some ts \<Rightarrow> delete_threads ts ids w1) = (k, lost, w2)" (is "?t = _") by (cases ?t)
  show thesis by (rule that [OF d t refl]) (use assms d t in \<open>auto simp: delete_subject_def Let_def split: prod.splits\<close>)
qed

subsection \<open>What an erasure reports\<close>

text \<open>One operation after another on the world, each called once, whatever it returned; and what came of each.\<close>

inductive calls :: "('w \<Rightarrow> int res \<times> 'w) list \<Rightarrow> 'w \<Rightarrow> int res list \<Rightarrow> 'w \<Rightarrow> bool" where
  Done: "calls [] w [] w"
| Call: "f w = (r, w1) \<Longrightarrow> calls fs w1 rs w2 \<Longrightarrow> calls (f # fs) w (r # rs) w2"

fun counts :: "int res list \<Rightarrow> int list" where
  "counts [] = []"
| "counts (Inr k # rs) = k # counts rs"
| "counts (Inl e # rs) = counts rs"

fun succeeded :: "string list \<Rightarrow> int res list \<Rightarrow> (string \<times> int) list" where
  "succeeded (n # ns) (Inr k # rs) = (n, k) # succeeded ns rs"
| "succeeded (n # ns) (Inl e # rs) = succeeded ns rs"
| "succeeded _ _ = []"

fun raised :: "string list \<Rightarrow> int res list \<Rightarrow> string list" where
  "raised (n # ns) (Inr k # rs) = raised ns rs"
| "raised (n # ns) (Inl e # rs) = n # raised ns rs"
| "raised _ _ = []"

lemma delete_stores_calls:
  "delete_stores reg p w = (d, f, w') \<Longrightarrow>
     \<exists>rs. calls (map (\<lambda>(n, s). ds_delete s p) reg) w rs w' \<and> d = succeeded (dkeys reg) rs \<and> f = raised (dkeys reg) rs"
proof (induction reg arbitrary: w d f)
  case Nil
  then show ?case by (auto simp: dkeys_def intro: calls.Done)
next
  case (Cons x reg)
  obtain n s where x: "x = (n, s)" by (cases x)
  obtain r w1 where r: "ds_delete s p w = (r, w1)" (is "?d = _") by (cases ?d)
  obtain d2 f2 where rest: "delete_stores reg p w1 = (d2, f2, w')"
      and df: "d = (case r of Inl _ \<Rightarrow> d2 | Inr k \<Rightarrow> (n, k) # d2)" "f = (case r of Inl _ \<Rightarrow> n # f2 | Inr k \<Rightarrow> f2)"
    using Cons.prems r by (auto simp: x split: sum.splits prod.splits)
  obtain rs where rs: "calls (map (\<lambda>(n, s). ds_delete s p) reg) w1 rs w'" "d2 = succeeded (dkeys reg) rs" "f2 = raised (dkeys reg) rs"
    using Cons.IH [OF rest] by blast
  have "calls (map (\<lambda>(n, s). ds_delete s p) (x # reg)) w (r # rs) w'"
    using calls.Call [of "ds_delete s p", OF r rs(1)] by (simp add: x)
  then show ?case unfolding df rs(2,3) x by (cases r) (auto simp: dkeys_def)
qed

lemma delete_threads_calls:
  "delete_threads ts ids w = (k, lost, w') \<Longrightarrow>
     \<exists>rs. calls (map (th_delete ts) ids) w rs w' \<and> k = sum_list (counts rs) \<and> lost = length rs - length (counts rs) \<and> length (counts rs) \<le> length rs"
proof (induction ids arbitrary: w k lost)
  case Nil
  then show ?case by (auto intro: calls.Done)
next
  case (Cons i ids)
  obtain r w1 where r: "th_delete ts i w = (r, w1)" (is "?d = _") by (cases ?d)
  obtain k2 l2 where rest: "delete_threads ts ids w1 = (k2, l2, w')"
      and kl: "k = (case r of Inl _ \<Rightarrow> k2 | Inr n \<Rightarrow> n + k2)" "lost = (case r of Inl _ \<Rightarrow> Suc l2 | Inr _ \<Rightarrow> l2)"
    using Cons.prems r by (auto split: sum.splits prod.splits)
  obtain rs where rs: "calls (map (th_delete ts) ids) w1 rs w'" "k2 = sum_list (counts rs)" "l2 = length rs - length (counts rs)"
      "length (counts rs) \<le> length rs"
    using Cons.IH [OF rest] by blast
  then show ?case using calls.Call [of "th_delete ts i", OF r rs(1)] unfolding kl by (intro exI [of _ "r # rs"]) (cases r; simp)
qed

text \<open>
  C35 An erasure attempts everything and says truly what came of it. Every store's delete is called once, in the order of the
  registry, and then every thread's, whatever failed before; a store is reported with the number its delete returned when it
  returned and named as failed when it raised, the threads with the sum of what their deletes returned, and with the number of
  those that raised if any. The audit event carries just that and is offered to the sink before the failures are raised, and
  the erasure reports success exactly when nothing failed.
\<close>

theorem erasure_attempts_everything:
  assumes "delete_subject reg sink p actor threads ids w = (res, w')"
  shows "\<exists>e rs ts w1 w2.
    calls (map (\<lambda>(n, s). ds_delete s p) reg) w rs w1
    \<and> calls (case threads of None \<Rightarrow> [] | Some t \<Rightarrow> map (th_delete t) ids) w1 ts w2
    \<and> e = \<lparr>ev_subject = p, ev_actor = actor_label actor, ev_stores = succeeded (dkeys reg) rs, ev_threads = sum_list (counts ts),
         ev_failed = raised (dkeys reg) rs @ (let lost = length ts - length (counts ts) in
           if lost = 0 then [] else [''checkpointer: '' @ nat_str lost @ '' thread(s)''])\<rparr>
    \<and> set (dkeys reg) \<subseteq> fst ` set (ev_stores e) \<union> set (ev_failed e)
    \<and> w' = snd (audit_deletion sink e w2)
    \<and> res = (if ev_failed e = [] then Erased p (ev_stores e) (ev_threads e) (fst (audit_deletion sink e w2))
             else SubjectDeletionError (ev_failed e) (ev_stores e) (ev_threads e))"
proof -
  obtain deleted failed w1 k lost w2 e where d: "delete_stores reg p w = (deleted, failed, w1)"
    and t: "(case threads of None \<Rightarrow> (0, 0, w1) | Some ts \<Rightarrow> delete_threads ts ids w1) = (k, lost, w2)"
    and e: "e = \<lparr>ev_subject = p, ev_actor = actor_label actor, ev_stores = deleted, ev_threads = k,
       ev_failed = failed @ (if lost = 0 then [] else [''checkpointer: '' @ nat_str lost @ '' thread(s)''])\<rparr>"
    and r: "w' = snd (audit_deletion sink e w2)"
      "res = (if ev_failed e = [] then Erased p deleted k (fst (audit_deletion sink e w2)) else SubjectDeletionError (ev_failed e) deleted k)"
    by (rule delete_subject_cases [OF assms])
  obtain rs where rs: "calls (map (\<lambda>(n, s). ds_delete s p) reg) w rs w1" "deleted = succeeded (dkeys reg) rs" "failed = raised (dkeys reg) rs"
    using delete_stores_calls [OF d] by blast
  obtain ts where ts: "calls (case threads of None \<Rightarrow> [] | Some t \<Rightarrow> map (th_delete t) ids) w1 ts w2"
    "k = sum_list (counts ts)" "lost = length ts - length (counts ts)"
  proof (cases threads)
    case None
    then show ?thesis using t that [of "[]"] calls.Done by fastforce
  next
    case (Some th)
    then show ?thesis using t that delete_threads_calls by fastforce
  qed
  have "set (dkeys reg) \<subseteq> fst ` set (ev_stores e) \<union> set (ev_failed e)"
    using all_attempted [OF d] by (auto simp: e)
  moreover have "ev_stores e = deleted" "ev_threads e = k" by (simp_all add: e)
  ultimately show ?thesis
    using rs(1) ts(1) r
    by (intro exI [of _ e] exI [of _ rs] exI [of _ ts] exI [of _ w1] exI [of _ w2] conjI)
      (simp_all only: e rs(2,3) ts(2,3) Let_def)
qed

text \<open>
  C34 A successful erasure leaves nothing of the subject and touches nobody else. With the facts and the schedules registered,
  in any order and under any names, an erasure that reports success has left no fact and no schedule of the subject, and what is
  stored of every other subject is unchanged.
\<close>

theorem erasure_leaves_nothing:
  assumes reg: "list_all (\<lambda>(n, s). \<exists>show_time now x. s = facts_data show_time now \<or> s = schedules_data x) reg"
    and ok: "app_ok w" and ran: "delete_subject reg sink p actor threads ids w = (Erased q deleted k logged, w')"
    and sink: "\<And>f e v. sink = Some f \<Longrightarrow> data_of (snd (f e v)) = data_of v"
    and thr: "\<And>ts i v. threads = Some ts \<Longrightarrow> data_of (snd (th_delete ts i v)) = data_of v"
  shows "q = p \<and> set (dkeys reg) = fst ` set deleted \<and> list_all (\<lambda>(n, s). nothing_left s p w') reg
    \<and> (\<forall>r. r \<noteq> p \<longrightarrow> data_of w' r = data_of w r)"
proof -
  obtain deleted2 failed w1 k2 lost w2 e where d: "delete_stores reg p w = (deleted2, failed, w1)"
    and t: "(case threads of None \<Rightarrow> (0, 0, w1) | Some ts \<Rightarrow> delete_threads ts ids w1) = (k2, lost, w2)"
    and e: "e = \<lparr>ev_subject = p, ev_actor = actor_label actor, ev_stores = deleted2, ev_threads = k2,
       ev_failed = failed @ (if lost = 0 then [] else [''checkpointer: '' @ nat_str lost @ '' thread(s)''])\<rparr>"
    and r: "w' = snd (audit_deletion sink e w2)"
      "Erased q deleted k logged = (if ev_failed e = [] then Erased p deleted2 k2 (fst (audit_deletion sink e w2))
         else SubjectDeletionError (ev_failed e) deleted2 k2)"
    by (rule delete_subject_cases [OF ran])
  have f: "failed = []" "q = p" "deleted = deleted2" using r(2) by (auto simp: e split: if_splits)
  note er = app.erased [OF reg ok d]
  have keep: "data_of (snd (snd (delete_threads ts xs v))) = data_of v" if "threads = Some ts" for ts xs v
  proof (induction xs arbitrary: v)
    case (Cons i xs)
    obtain x v1 where x: "th_delete ts i v = (x, v1)" (is "?x = _") by (cases ?x)
    have "data_of v1 = data_of v" using thr [OF that, of i v] x by simp
    then show ?case using Cons [of v1] x by (auto split: sum.splits prod.splits)
  qed simp
  have "data_of w2 = data_of w1" using t keep by (cases threads) (auto, metis snd_conv)
  moreover have "data_of w' = data_of w2"
    using sink unfolding r(1) audit_deletion_def by (cases sink) (auto split: sum.splits prod.splits, (metis snd_conv)+)
  ultimately have w': "data_of w' = data_of w1" by simp
  have "data_of w' q' = data_of w q'" if "q' \<noteq> p" for q'
  proof -
    have "data_of_others p w1 q' = data_of_others p w q'" using er by simp
    then show ?thesis using that by (simp add: data_of_others_def w')
  qed
  moreover have "list_all (\<lambda>(n, s). nothing_left s p w') reg"
    using er f(1) unfolding nothing_left_def w' by simp
  ultimately show ?thesis using all_attempted [OF d] f by simp
qed

text \<open>
  Binding never takes a live store's place: a store that holds data stays registered, and a name is given to another object only
  when its placeholder was unbound.
\<close>

theorem bind_keeps_live_stores:
  assumes "bind_store s reg = Inr reg'" and "map_of reg n = Some e" and "\<not> ds_unbound e"
  shows "map_of reg' n = Some e"
  using assms by (auto simp: bind_store_def split: option.splits if_splits)

text \<open>
  The purger never raises and no store stops another: every store named with a retention that can purge is purged or skipped
  when it fails, in the order of the retention table.
\<close>

theorem purge_covers_retention:
  assumes "SubjectDataPurger reg keep = Inr keep'"
  shows "\<exists>counts. fst (purge_stores reg keep' w) = Inr counts
    \<and> subseq (map fst counts) (map fst (filter (\<lambda>(n, r). r \<noteq> None) keep))"
proof -
  have k: "keep' = keep" "\<forall>n \<in> set (dkeys keep). n \<in> set (dkeys reg)"
    using assms by (auto simp: SubjectDataPurger_def split: if_splits)
  show ?thesis unfolding k(1) using k(2)
  proof (induction keep arbitrary: w)
    case (Cons x keep)
    obtain n r where x: "x = (n, r)" by (cases x)
    have ih: "\<exists>counts. fst (purge_stores reg keep w) = Inr counts \<and> subseq (map fst counts) (map fst (filter (\<lambda>(n, r). r \<noteq> None) keep))" for w
      using Cons by (simp add: dkeys_def)
    obtain s where s: "map_of reg n = Some s" using Cons.prems map_of_None_dkeys [of reg n] by (cases "map_of reg n") (auto simp: x dkeys_def)
    show ?case
    proof (cases "r = None \<or> ds_purge s = None")
      case True
      then show ?thesis using ih [of w] s by (auto simp: x split: option.splits)
    next
      case False
      then obtain seconds purge where p: "r = Some seconds" "ds_purge s = Some purge" by auto
      obtain y w1 where y: "purge seconds w = (y, w1)" (is "?y = _") by (cases ?y)
      obtain counts where c: "fst (purge_stores reg keep w1) = Inr counts"
          "subseq (map fst counts) (map fst (filter (\<lambda>(n, r). r \<noteq> None) keep))" using ih by blast
      show ?thesis using c s p y by (cases y) (auto simp: x split: prod.splits)
    qed
  qed simp
qed

subsection \<open>A concrete erasure\<close>

definition demo_app :: app_data where
  "demo_app = \<lparr>ad_facts = told_store, ad_schedules = stored\<rparr>"

definition demo_stores :: "app_data data_registry" where
  "demo_stores = [(USER_FACTS_STORE, facts_data (\<lambda>_. ''t'') 6), (SCHEDULES_STORE, schedules_data no_texts)]"

definition broken_store :: "app_data data_store" where
  "broken_store = (facts_data (\<lambda>_. ''t'') 6)\<lparr>ds_object := 7, ds_name := ''old'', ds_delete := \<lambda>p w. (Inl (RuntimeErr ''down''), w), ds_unbound := True\<rparr>"

definition operator_actor :: turn_actor where "operator_actor = \<lparr>actor_kind = ''operator'', actor_id = ''root''\<rparr>"

definition demo_erasure where
  "demo_erasure = delete_subject demo_stores None (''shop'', ''ana'') operator_actor None [] demo_app"

definition broken_erasure where
  "broken_erasure = delete_subject ((''old'', broken_store) # demo_stores) None (''shop'', ''ana'') operator_actor None [] demo_app"

lemma demo_erasure_runs:
  "fst demo_erasure = Erased (''shop'', ''ana'') [(USER_FACTS_STORE, 2), (SCHEDULES_STORE, 1)] 0 False"
  "fst broken_erasure = SubjectDeletionError [''old''] [(USER_FACTS_STORE, 2), (SCHEDULES_STORE, 1)] 0"
  by code_simp+

lemma stored_ok: "scoped_ok stored"
proof -
  have e: "scoped_entries [] p = Map.empty" for p
    by (simp add: scoped_entries_def scope_rows_def scope_tables_def lookup_or_def fun_eq_iff)
  have n: "scoped_ok []" by (simp add: scoped_ok_def e store_ok_def dkeys_def)
  have i: "schedules_ok demo_zones demo_limits (scoped_entries []) []"
    by (simp add: schedules_ok_def held_def e demo_limits_def)
  show ?thesis
    using scoped.step_kept [OF demo_created [unfolded demo_step_def]] n i by simp
qed

lemma demo_app_ok: "app_ok demo_app"
  by (simp add: app_ok_def demo_app_def told_ok stored_ok)

theorem erasure_attempts_everything_witness:
  "\<exists>rs w1. calls (map (\<lambda>(n, s). ds_delete s (''shop'', ''ana'')) ((''old'', broken_store) # demo_stores)) demo_app rs w1
     \<and> length rs = 3 \<and> raised [''old'', USER_FACTS_STORE, SCHEDULES_STORE] rs = [''old'']
     \<and> succeeded [''old'', USER_FACTS_STORE, SCHEDULES_STORE] rs = [(USER_FACTS_STORE, 2), (SCHEDULES_STORE, 1)]"
proof -
  let ?reg = "(''old'', broken_store) # demo_stores"
  have "delete_subject ?reg None (''shop'', ''ana'') operator_actor None [] demo_app
      = (fst broken_erasure, snd broken_erasure)" by (simp add: broken_erasure_def)
  from erasure_attempts_everything [OF this, simplified option.case]
  obtain rs w1 ts w2 where c: "calls (map (\<lambda>(n, s). ds_delete s (''shop'', ''ana'')) ?reg) demo_app rs w1"
    and t: "calls [] w1 ts (w2 :: app_data)"
    and r: "fst broken_erasure = (if raised (dkeys ?reg) rs @ (let lost = length ts - length (counts ts) in
           if lost = 0 then [] else [''checkpointer: '' @ nat_str lost @ '' thread(s)'']) = [] then
             Erased (''shop'', ''ana'') (succeeded (dkeys ?reg) rs) (sum_list (counts ts)) (fst (audit_deletion None (\<lparr>ev_subject = (''shop'', ''ana''),
               ev_actor = actor_label operator_actor, ev_stores = succeeded (dkeys ?reg) rs, ev_threads = sum_list (counts ts), ev_failed = []\<rparr>) w2))
           else SubjectDeletionError (raised (dkeys ?reg) rs @ (let lost = length ts - length (counts ts) in
             if lost = 0 then [] else [''checkpointer: '' @ nat_str lost @ '' thread(s)''])) (succeeded (dkeys ?reg) rs) (sum_list (counts ts)))"
    by auto
  have "ts = []" using t by (cases rule: calls.cases) auto
  then have "raised (dkeys ?reg) rs = [''old'']" "succeeded (dkeys ?reg) rs = [(USER_FACTS_STORE, 2), (SCHEDULES_STORE, 1)]"
    using r demo_erasure_runs(2) by (auto split: if_splits)
  moreover have "length rs = length (map (\<lambda>(n, s). ds_delete s (''shop'', ''ana'')) ?reg)"
    using c by (induction rule: calls.induct) auto
  ultimately show ?thesis using c by (intro exI [of _ rs] exI [of _ w1]) (simp add: demo_stores_def dkeys_def)
qed

theorem erasure_leaves_nothing_witness:
  "data_of (snd demo_erasure) (''shop'', ''ana'') = (Map.empty, Map.empty)
   \<and> data_of (snd demo_erasure) (''shop'', ''ben'') = data_of demo_app (''shop'', ''ben'')
   \<and> fst (data_of demo_app (''shop'', ''ben'')) \<noteq> Map.empty"
proof -
  have reg: "list_all (\<lambda>(n, s). \<exists>show_time now x. s = facts_data show_time now \<or> s = schedules_data x) demo_stores"
    by (auto simp: demo_stores_def)
  have ran: "delete_subject demo_stores None (''shop'', ''ana'') operator_actor None [] demo_app
      = (Erased (''shop'', ''ana'') [(USER_FACTS_STORE, 2), (SCHEDULES_STORE, 1)] 0 False, snd demo_erasure)"
    using demo_erasure_runs(1) unfolding demo_erasure_def by (metis prod.collapse)
  note e = erasure_leaves_nothing [OF reg demo_app_ok ran, simplified]
  have "fst (data_of demo_app (''shop'', ''ben'')) ''likes tea'' \<noteq> None" by code_simp
  then have "fst (data_of demo_app (''shop'', ''ben'')) \<noteq> Map.empty" by auto
  moreover have "fst (data_of (snd demo_erasure) (''shop'', ''ana'')) = Map.empty" "snd (data_of (snd demo_erasure) (''shop'', ''ana'')) = Map.empty"
    using e by (simp_all add: demo_stores_def nothing_left_def facts_data_def schedules_data_def)
  ultimately show ?thesis using e by (auto simp: prod_eq_iff)
qed

theorem bind_keeps_live_stores_witness:
  "\<exists>reg. bind_store (schedules_data no_texts) ((''old'', broken_store) # demo_stores) = Inr reg
     \<and> map_of reg USER_FACTS_STORE = Some (facts_data (\<lambda>_. ''t'') 6)"
proof -
  have "bind_store (schedules_data no_texts) ((''old'', broken_store) # demo_stores) = Inr ((''old'', broken_store) # demo_stores)"
    by (simp add: bind_store_def demo_stores_def schedules_data_def USER_FACTS_STORE_def SCHEDULES_STORE_def)
  moreover have "map_of ((''old'', broken_store) # demo_stores) USER_FACTS_STORE = Some (facts_data (\<lambda>_. ''t'') 6)"
    by (simp add: demo_stores_def USER_FACTS_STORE_def)
  moreover have "\<not> ds_unbound (facts_data (\<lambda>_. ''t'') 6)" by (simp add: facts_data_def)
  ultimately show ?thesis using bind_keeps_live_stores by blast
qed

theorem purge_covers_retention_witness:
  "\<exists>counts. fst (purge_stores demo_stores [(SCHEDULES_STORE, Some 5), (USER_FACTS_STORE, Some 9)] demo_app) = Inr counts
     \<and> subseq (map fst counts) [SCHEDULES_STORE, USER_FACTS_STORE]"
proof -
  have "SubjectDataPurger demo_stores [(SCHEDULES_STORE, Some 5), (USER_FACTS_STORE, Some 9)]
      = Inr [(SCHEDULES_STORE, Some 5), (USER_FACTS_STORE, Some 9)]"
    by (simp add: SubjectDataPurger_def demo_stores_def dkeys_def)
  from purge_covers_retention [OF this, of demo_app] show ?thesis by simp
qed

end
