(* ===== verification/Row_Security.thy ===== *)
theory Row_Security
  imports User_Facts
begin

section \<open>Row-level security of the per-user tables\<close>

text \<open>
  \<open>services/scope_postgres.py\<close> and \<open>services/user_facts_postgres.py\<close>: the policies that fence a per-user table, the settings of a
  transaction, and the user facts behind them.  PostgreSQL shows a command a row when some permissive policy for the command admits
  it and every restrictive one does; an update or delete also needs the row to be readable; a written row must pass
  the checks.  A row is its owner, the pair of runtime id and subject key, with its value.
\<close>

subsection \<open>Policies\<close>

record pg_session =
  set_runtime :: "string option"
  set_subject :: "string option"
  set_maintenance :: "string option"
  set_worker :: "string option"

datatype sql_command = SqlSelect | SqlInsert | SqlUpdate | SqlDelete

type_synonym 'v row = "pair \<times> 'v"
type_synonym 'v predicate = "pg_session \<Rightarrow> rat \<Rightarrow> 'v row \<Rightarrow> bool"

record 'v policy =
  restrictive :: bool
  commands :: "sql_command list"
  using_clause :: "'v predicate"
  check_clause :: "'v predicate"

definition ALL_COMMANDS :: "sql_command list" where
  "ALL_COMMANDS = [SqlSelect, SqlInsert, SqlUpdate, SqlDelete]"

definition PURGE_EXPIRED :: string where "PURGE_EXPIRED = ''purge_expired''"

definition admitted :: "('v policy \<Rightarrow> 'v predicate) \<Rightarrow> 'v policy list \<Rightarrow> pg_session \<Rightarrow> rat \<Rightarrow> sql_command \<Rightarrow> 'v row \<Rightarrow> bool" where
  "admitted clause policies s clock cmd r =
     (let ps = filter (\<lambda>p. cmd \<in> set (commands p)) policies in
      (\<exists>p \<in> set ps. \<not> restrictive p \<and> clause p s clock r) \<and> (\<forall>p \<in> set ps. restrictive p \<longrightarrow> clause p s clock r))"

text \<open>\<open>nullif(current_setting(...), '')\<close>: an empty setting is no setting.\<close>

definition setting :: "string option \<Rightarrow> string option" where
  "setting v = (if v = Some [] then None else v)"

definition subject_match :: "'v predicate" where
  "subject_match s clock r \<longleftrightarrow> setting (set_runtime s) = Some (fst (fst r)) \<and> setting (set_subject s) = Some (snd (fst r))"

definition worker_open :: "bool \<Rightarrow> pg_session \<Rightarrow> bool" where
  "worker_open opened s \<longleftrightarrow> opened \<and> set_worker s = Some ''on''"

definition subject_policies :: "bool \<Rightarrow> 'v policy list" where
  "subject_policies opened =
     (let m = (\<lambda>s clock r. subject_match s clock r \<or> worker_open opened s) in
      [\<lparr>restrictive = False, commands = ALL_COMMANDS, using_clause = m, check_clause = m\<rparr>,
       \<lparr>restrictive = True, commands = ALL_COMMANDS, using_clause = m, check_clause = m\<rparr>])"

definition purge_match :: "('v \<Rightarrow> rat option) \<Rightarrow> 'v predicate" where
  "purge_match expires s clock r \<longleftrightarrow> set_maintenance s = Some PURGE_EXPIRED
     \<and> (case expires (snd r) of None \<Rightarrow> False | Some t \<Rightarrow> t \<le> clock)"

text \<open>The subject policies with the restrictive one replaced and the two for the purge added.\<close>

definition purge_policies :: "('v \<Rightarrow> rat option) \<Rightarrow> 'v policy list" where
  "purge_policies expires =
     [hd (subject_policies False),
      \<lparr>restrictive = True, commands = ALL_COMMANDS,
       using_clause = (\<lambda>s clock r. subject_match s clock r \<or> purge_match expires s clock r), check_clause = subject_match\<rparr>,
      \<lparr>restrictive = False, commands = [SqlSelect], using_clause = purge_match expires, check_clause = (\<lambda>s clock r. False)\<rparr>,
      \<lparr>restrictive = False, commands = [SqlDelete], using_clause = purge_match expires, check_clause = (\<lambda>s clock r. False)\<rparr>]"

definition scope_session :: "pair \<Rightarrow> pg_session" where
  "scope_session p = \<lparr>set_runtime = Some (fst p), set_subject = Some (snd p), set_maintenance = None, set_worker = None\<rparr>"

definition maintenance_session :: "string \<Rightarrow> pg_session" where
  "maintenance_session purpose = \<lparr>set_runtime = None, set_subject = None, set_maintenance = Some purpose, set_worker = None\<rparr>"

definition worker_session :: pg_session where
  "worker_session = \<lparr>set_runtime = None, set_subject = None, set_maintenance = None, set_worker = Some ''on''\<rparr>"

subsection \<open>Statements\<close>

definition readable :: "'v policy list \<Rightarrow> pg_session \<Rightarrow> rat \<Rightarrow> 'v row \<Rightarrow> bool" where
  "readable ps s clock r = admitted using_clause ps s clock SqlSelect r"

definition reachable_by :: "'v policy list \<Rightarrow> pg_session \<Rightarrow> rat \<Rightarrow> sql_command \<Rightarrow> 'v row \<Rightarrow> bool" where
  "reachable_by ps s clock cmd r \<longleftrightarrow> readable ps s clock r \<and> admitted using_clause ps s clock cmd r"

definition sql_select :: "'v policy list \<Rightarrow> pg_session \<Rightarrow> rat \<Rightarrow> ('v row \<Rightarrow> bool) \<Rightarrow> 'v row list \<Rightarrow> 'v row list" where
  "sql_select ps s clock P t = filter (\<lambda>r. readable ps s clock r \<and> P r) t"

definition sql_delete :: "'v policy list \<Rightarrow> pg_session \<Rightarrow> rat \<Rightarrow> ('v row \<Rightarrow> bool) \<Rightarrow> 'v row list \<Rightarrow> int \<times> 'v row list" where
  "sql_delete ps s clock P t =
     (int (length (filter (\<lambda>r. reachable_by ps s clock SqlDelete r \<and> P r) t)),
      filter (\<lambda>r. \<not> (reachable_by ps s clock SqlDelete r \<and> P r)) t)"

definition sql_update_rows ::
  "'v policy list \<Rightarrow> pg_session \<Rightarrow> rat \<Rightarrow> ('v row \<Rightarrow> bool) \<Rightarrow> ('v row \<Rightarrow> 'v row) \<Rightarrow> 'v row list \<Rightarrow> 'v row list res" where
  "sql_update_rows ps s clock P f t =
     (if \<exists>r \<in> set t. reachable_by ps s clock SqlUpdate r \<and> P r \<and> \<not> admitted check_clause ps s clock SqlUpdate (f r)
      then Inl (Raised ''InsufficientPrivilege'' ''row-level security'')
      else Inr (map (\<lambda>r. if reachable_by ps s clock SqlUpdate r \<and> P r then f r else r) t))"

text \<open>The updates of the stores leave the owner of a row alone.\<close>

definition sql_update ::
  "'v policy list \<Rightarrow> pg_session \<Rightarrow> rat \<Rightarrow> ('v row \<Rightarrow> bool) \<Rightarrow> ('v \<Rightarrow> 'v) \<Rightarrow> 'v row list \<Rightarrow> 'v row list res" where
  "sql_update ps s clock P f t = sql_update_rows ps s clock P (\<lambda>r. (fst r, f (snd r))) t"

text \<open>\<open>INSERT ... ON CONFLICT (runtime_id, subject_key, id) DO UPDATE\<close> with the whole row.\<close>

definition sql_upsert :: "'v policy list \<Rightarrow> pg_session \<Rightarrow> rat \<Rightarrow> ('v \<Rightarrow> string) \<Rightarrow> 'v row \<Rightarrow> 'v row list \<Rightarrow> 'v row list res" where
  "sql_upsert ps s clock key r t =
     (if \<not> admitted check_clause ps s clock SqlInsert r then Inl (Raised ''InsufficientPrivilege'' ''row-level security'')
      else if \<exists>x \<in> set t. fst x = fst r \<and> key (snd x) = key (snd r)
      then sql_update ps s clock (\<lambda>x. fst x = fst r \<and> key (snd x) = key (snd r)) (\<lambda>_. snd r) t
      else Inr (t @ [r]))"

subsection \<open>The fence\<close>

lemma admitted_simps:
  "admitted using_clause (subject_policies opened) s clock cmd r \<longleftrightarrow> subject_match s clock r \<or> worker_open opened s"
  "admitted check_clause (subject_policies opened) s clock cmd r \<longleftrightarrow> subject_match s clock r \<or> worker_open opened s"
  "admitted using_clause (purge_policies e) s clock cmd r \<longleftrightarrow>
     subject_match s clock r \<or> (cmd = SqlSelect \<or> cmd = SqlDelete) \<and> purge_match e s clock r"
  "admitted check_clause (purge_policies e) s clock cmd r \<longleftrightarrow> subject_match s clock r"
  by (cases cmd; auto simp: admitted_def subject_policies_def purge_policies_def ALL_COMMANDS_def worker_open_def Let_def)+

lemma scope_match: "subject_match (scope_session p) clock r \<longleftrightarrow> fst p \<noteq> [] \<and> snd p \<noteq> [] \<and> fst r = p"
  by (cases p; cases r) (auto simp: subject_match_def scope_session_def setting_def)

lemma session_closed [simp]:
  "purge_match e (scope_session p) clock r = False" "worker_open b (scope_session p) = False"
  "subject_match (maintenance_session x) clock r = False" "subject_match worker_session clock r = False"
  "worker_open b (maintenance_session x) = False" "worker_open b worker_session = b"
  by (simp_all add: purge_match_def worker_open_def subject_match_def scope_session_def maintenance_session_def
      worker_session_def setting_def)

lemma facts_reach:
  "readable (purge_policies e) (scope_session p) clock r \<longleftrightarrow> fst p \<noteq> [] \<and> snd p \<noteq> [] \<and> fst r = p"
  "reachable_by (purge_policies e) (scope_session p) clock cmd r \<longleftrightarrow> fst p \<noteq> [] \<and> snd p \<noteq> [] \<and> fst r = p"
  by (auto simp: readable_def reachable_by_def admitted_simps scope_match)

definition statement_of :: "'v policy list \<Rightarrow> pg_session \<Rightarrow> rat \<Rightarrow> 'v row list \<Rightarrow> 'v row list \<Rightarrow> bool" where
  "statement_of ps s clock t t' \<longleftrightarrow>
     (\<exists>P. t' = snd (sql_delete ps s clock P t)) \<or> (\<exists>P f. sql_update_rows ps s clock P f t = Inr t')
     \<or> (\<exists>key r. sql_upsert ps s clock key r t = Inr t')"

lemma update_others:
  assumes "sql_update_rows ps s clock P f t = Inr t'" and "\<And>r. reachable_by ps s clock SqlUpdate r \<Longrightarrow> fst r = p"
    and "\<And>r. admitted check_clause ps s clock SqlUpdate r \<Longrightarrow> fst r = p" and "q \<noteq> p"
  shows "filter (\<lambda>r. fst r = q) t' = filter (\<lambda>r. fst r = q) t"
proof -
  let ?hit = "\<lambda>r. reachable_by ps s clock SqlUpdate r \<and> P r"
  have t': "t' = map (\<lambda>r. if ?hit r then f r else r) t" and c: "\<And>r. r \<in> set t \<Longrightarrow> ?hit r \<Longrightarrow> fst (f r) = p"
    using assms(1,3) by (auto simp: sql_update_rows_def split: if_splits)
  have "filter (\<lambda>r. fst r = q) (map (\<lambda>r. if ?hit r then f r else r) t) = filter (\<lambda>r. fst r = q) t"
    using c by (induction t) (use assms(2,4) in auto)
  then show ?thesis by (simp add: t')
qed

text \<open>
  C33 The policies fence every statement to its scope. In a transaction of one subject a statement on the facts or on the
  schedules, whatever its predicate and whatever it writes, the owner of a row included, reads only that subject's
  rows and leaves the rows of everyone else as they were; with an empty runtime id or subject key it reads nothing.
\<close>

theorem statements_fenced:
  assumes "ps = purge_policies e \<or> ps = subject_policies opened"
  shows "(\<forall>r. r \<in> set (sql_select ps (scope_session p) clock P t) \<longrightarrow> fst r = p \<and> fst p \<noteq> [] \<and> snd p \<noteq> [])
    \<and> (\<forall>t' q. statement_of ps (scope_session p) clock t t' \<and> q \<noteq> p
         \<longrightarrow> filter (\<lambda>r. fst r = q) t' = filter (\<lambda>r. fst r = q) t)"
proof -
  have rd: "readable ps (scope_session p) clock r \<longleftrightarrow> fst p \<noteq> [] \<and> snd p \<noteq> [] \<and> fst r = p" for r
    using assms by (auto simp: readable_def admitted_simps scope_match)
  have rc: "reachable_by ps (scope_session p) clock cmd r \<Longrightarrow> fst r = p" for cmd r
    by (simp add: reachable_by_def rd)
  have ck: "admitted check_clause ps (scope_session p) clock cmd r \<Longrightarrow> fst r = p" for cmd r
    using assms by (auto simp: admitted_simps scope_match)
  have "filter (\<lambda>r. fst r = q) t' = filter (\<lambda>r. fst r = q) t"
    if st: "statement_of ps (scope_session p) clock t t'" and q: "q \<noteq> p" for t' q
  proof -
    have up: "filter (\<lambda>r. fst r = q) t' = filter (\<lambda>r. fst r = q) t" if "sql_update_rows ps (scope_session p) clock P f t = Inr t'" for P f
      using that rc ck q by (rule update_others)
    have ins: "filter (\<lambda>r. fst r = q) t' = filter (\<lambda>r. fst r = q) t" if "sql_upsert ps (scope_session p) clock key r t = Inr t'" for key r
      using that up ck [of SqlInsert r] q by (auto simp: sql_upsert_def sql_update_def split: if_splits)
    have "filter (\<lambda>r. fst r = q) (snd (sql_delete ps (scope_session p) clock P t)) = filter (\<lambda>r. fst r = q) t" for P
      unfolding sql_delete_def snd_conv filter_filter by (rule filter_cong) (use rc q in auto)
    then show ?thesis using st up ins unfolding statement_of_def by blast
  qed
  then show ?thesis by (auto simp: sql_select_def rd)
qed

text \<open>
  The purge sees only what has expired. A maintenance transaction can read and delete exactly the rows past their end, of any
  subject, and can neither insert nor change one.
\<close>

theorem maintenance_reaches_expired_only:
  "(reachable_by (purge_policies e) (maintenance_session PURGE_EXPIRED) clock SqlDelete r
      \<longleftrightarrow> (\<exists>t. e (snd r) = Some t \<and> t \<le> clock))
   \<and> \<not> reachable_by (purge_policies e) (maintenance_session PURGE_EXPIRED) clock SqlUpdate r
   \<and> \<not> admitted check_clause (purge_policies e) (maintenance_session PURGE_EXPIRED) clock SqlInsert r
   \<and> (readable (purge_policies e) (maintenance_session x) clock r \<longleftrightarrow> x = PURGE_EXPIRED \<and> (\<exists>t. e (snd r) = Some t \<and> t \<le> clock))"
proof -
  have m: "purge_match e (maintenance_session x) clock r \<longleftrightarrow> x = PURGE_EXPIRED \<and> (\<exists>t. e (snd r) = Some t \<and> t \<le> clock)" for x
    by (auto simp: purge_match_def maintenance_session_def split: option.splits)
  show ?thesis by (auto simp: reachable_by_def readable_def admitted_simps m)
qed

subsection \<open>The facts in PostgreSQL\<close>

text \<open>\<open>clock\<close> is the clock of the database.  The order of the rows is the table's; the code asks for none.\<close>

type_synonym fact_table = "user_fact row list"

definition fact_policies :: "user_fact policy list" where "fact_policies = purge_policies uf_expires"

definition pg_all :: "rat \<Rightarrow> pair \<Rightarrow> fact_table \<Rightarrow> user_fact list \<times> fact_table" where
  "pg_all clock p t = (map snd (sql_select fact_policies (scope_session p) clock (\<lambda>_. True) t), t)"

text \<open>A refused write raises and leaves the table.\<close>

definition pg_put :: "rat \<Rightarrow> pair \<Rightarrow> user_fact \<Rightarrow> fact_table \<Rightarrow> fact_table" where
  "pg_put clock p f t = (case sql_upsert fact_policies (scope_session p) clock uf_id (p, f) t of Inl _ \<Rightarrow> t | Inr t' \<Rightarrow> t')"

definition pg_remove :: "rat \<Rightarrow> pair \<Rightarrow> string list \<Rightarrow> fact_table \<Rightarrow> int \<times> fact_table" where
  "pg_remove clock p ids t =
     (if ids = [] then (0, t) else sql_delete fact_policies (scope_session p) clock (\<lambda>r. uf_id (snd r) \<in> set ids) t)"

definition pg_touch :: "rat \<Rightarrow> pair \<Rightarrow> string list \<Rightarrow> rat \<Rightarrow> fact_table \<Rightarrow> fact_table" where
  "pg_touch clock p ids now t =
     (if ids = [] then t
      else case sql_update fact_policies (scope_session p) clock (\<lambda>r. uf_id (snd r) \<in> set ids) (mark_used now) t of
             Inl _ \<Rightarrow> t | Inr t' \<Rightarrow> t')"

definition pg_facts :: "rat \<Rightarrow> pair \<Rightarrow> fact_table fact_ops" where
  "pg_facts clock p = \<lparr>fb_all = pg_all clock p, fb_put = pg_put clock p, fb_remove = pg_remove clock p, fb_touch = pg_touch clock p\<rparr>"

definition pg_export :: "(rat \<Rightarrow> string) \<Rightarrow> rat \<Rightarrow> rat \<Rightarrow> pair \<Rightarrow> fact_table \<Rightarrow> dict list" where
  "pg_export show_time now clock p t = map (fact_row show_time) (filter (\<lambda>f. \<not> expired now f) (fst (pg_all clock p t)))"

definition pg_purge :: "rat \<Rightarrow> fact_table \<Rightarrow> int \<times> fact_table" where
  "pg_purge clock t = sql_delete fact_policies (maintenance_session PURGE_EXPIRED) clock (\<lambda>r. expired clock (snd r)) t"

definition pg_erase :: "rat \<Rightarrow> pair \<Rightarrow> fact_table \<Rightarrow> int \<times> fact_table" where
  "pg_erase clock p t = sql_delete fact_policies (scope_session p) clock (\<lambda>_. True) t"

subsection \<open>The table keeps the contract\<close>

text \<open>Rows by their key: the value a subject has under an id, and the primary key of the table.\<close>

definition entry_of :: "('v \<Rightarrow> string) \<Rightarrow> 'v row list \<Rightarrow> pair \<Rightarrow> string \<Rightarrow> 'v option" where
  "entry_of key t p i = map_of (map (\<lambda>r. ((fst r, key (snd r)), snd r)) t) (p, i)"

definition keyed :: "('v \<Rightarrow> string) \<Rightarrow> 'v row list \<Rightarrow> bool" where
  "keyed key t \<longleftrightarrow> distinct (map (\<lambda>r. (fst r, key (snd r))) t)"

lemma entry_iff:
  assumes "keyed key t"
  shows "entry_of key t p i = Some f \<longleftrightarrow> (p, f) \<in> set t \<and> key f = i"
proof -
  have "distinct (map fst (map (\<lambda>r. ((fst r, key (snd r)), snd r)) t))"
    using assms by (simp add: keyed_def comp_def)
  then have "entry_of key t p i = Some f \<longleftrightarrow> ((p, i), f) \<in> set (map (\<lambda>r. ((fst r, key (snd r)), snd r)) t)"
    unfolding entry_of_def by (rule map_of_eq_Some_iff)
  also have "\<dots> \<longleftrightarrow> (p, f) \<in> set t \<and> key f = i" by force
  finally show ?thesis .
qed

lemma option_agree: "(\<And>f. x = Some f \<longleftrightarrow> y = Some f) \<Longrightarrow> x = y"
  by (cases x; cases y) auto

lemma keyed_filter: "keyed key t \<Longrightarrow> keyed key (filter P t)"
  unfolding keyed_def by (rule distinct_map_filter)

lemma entry_filter:
  assumes "keyed key t"
  shows "entry_of key (filter P t) p i = (case entry_of key t p i of Some f \<Rightarrow> if P (p, f) then Some f else None | None \<Rightarrow> None)"
proof (rule option_agree)
  fix f
  show "entry_of key (filter P t) p i = Some f \<longleftrightarrow>
      (case entry_of key t p i of Some f \<Rightarrow> if P (p, f) then Some f else None | None \<Rightarrow> None) = Some f"
    using entry_iff [OF assms, of p i f] unfolding entry_iff [OF keyed_filter [OF assms]]
    by (auto split: option.splits if_splits)
qed

lemma entry_map:
  assumes ok: "keyed key t" and keep: "\<And>r. r \<in> set t \<Longrightarrow> H r \<Longrightarrow> key (g (snd r)) = key (snd r)"
    and t': "t' = map (\<lambda>r. if H r then (fst r, g (snd r)) else r) t"
  shows "keyed key t' \<and> entry_of key t' p i = map_option (\<lambda>f. if H (p, f) then g f else f) (entry_of key t p i)
    \<and> (\<forall>q. (\<forall>f. \<not> H (q, f)) \<longrightarrow> filter (\<lambda>r. fst r = q) t' = filter (\<lambda>r. fst r = q) t)"
proof -
  let ?h = "\<lambda>r. if H r then (fst r, g (snd r)) else r"
  have key: "(fst (?h r), key (snd (?h r))) = (fst r, key (snd r))" if "r \<in> set t" for r
    using keep [OF that] by simp
  then have "map (\<lambda>r. (fst r, key (snd r))) t' = map (\<lambda>r. (fst r, key (snd r))) t" unfolding t' by (auto simp del: fst_conv)
  then have ok': "keyed key t'" using ok unfolding keyed_def by metis
  have "entry_of key t' p i = map_option (\<lambda>f. if H (p, f) then g f else f) (entry_of key t p i)"
  proof (cases "entry_of key t p i")
    case (Some f)
    then have f: "(p, f) \<in> set t" "key f = i" using entry_iff [OF ok] by blast+
    then have "(p, if H (p, f) then g f else f) \<in> set t'" unfolding t' by force
    moreover have "key (if H (p, f) then g f else f) = i" using key [OF f(1)] f(2) by (auto split: if_splits)
    ultimately have "entry_of key t' p i = Some (if H (p, f) then g f else f)" using entry_iff [OF ok'] by blast
    then show ?thesis using Some by simp
  next
    case None
    have "entry_of key t' p i = None"
    proof (rule ccontr)
      assume "entry_of key t' p i \<noteq> None"
      then obtain f where "entry_of key t' p i = Some f" by (rule not_None_eq [THEN iffD1, THEN exE])
      then have "(p, f) \<in> ?h ` set t" "key f = i" unfolding entry_iff [OF ok'] unfolding t' by simp_all
      then obtain r where r: "r \<in> set t" "(p, f) = ?h r" by blast
      have "fst r = p" "key (snd r) = i" using key [OF r(1), folded r(2)] \<open>key f = i\<close> by simp_all
      moreover have "(fst r, snd r) \<in> set t" using r(1) by simp
      ultimately have "entry_of key t p i = Some (snd r)" unfolding entry_iff [OF ok] by simp
      then show False using None by simp
    qed
    then show ?thesis using None by simp
  qed
  moreover have "filter (\<lambda>r. fst r = q) t' = filter (\<lambda>r. fst r = q) t" if "\<forall>f. \<not> H (q, f)" for q
    unfolding t' using that by (induction t) auto
  ultimately show ?thesis using ok' by blast
qed

lemma entry_snoc: "entry_of key (t @ [r]) p i = (case entry_of key t p i of Some f \<Rightarrow> Some f
    | None \<Rightarrow> if fst r = p \<and> key (snd r) = i then Some (snd r) else None)"
  by (auto simp: entry_of_def map_add_def split: option.splits)

definition pg_facts_of :: "fact_table \<Rightarrow> pair \<Rightarrow> string \<Rightarrow> user_fact option" where
  "pg_facts_of = entry_of uf_id"

text \<open>The primary key, and a scope that names someone.\<close>

definition fact_table_ok :: "fact_table \<Rightarrow> bool" where "fact_table_ok = keyed uf_id"

definition scoped :: "pair \<Rightarrow> bool" where "scoped p \<longleftrightarrow> fst p \<noteq> [] \<and> snd p \<noteq> []"

lemma pg_facts_iff: "fact_table_ok t \<Longrightarrow> pg_facts_of t p i = Some f \<longleftrightarrow> (p, f) \<in> set t \<and> uf_id f = i"
  unfolding fact_table_ok_def pg_facts_of_def by (rule entry_iff)

lemma filter_table_ok: "fact_table_ok t \<Longrightarrow> fact_table_ok (filter P t)"
  unfolding fact_table_ok_def by (rule keyed_filter)

lemma delete_facts:
  assumes ok: "fact_table_ok t" and sc: "scoped p" and d: "sql_delete fact_policies (scope_session p) clock (\<lambda>r. uf_id (snd r) \<in> A) t = (n, t')"
  shows "fact_table_ok t' \<and> n = int (card (A \<inter> dom (pg_facts_of t p))) \<and> pg_facts_of t' p = pg_facts_of t p |` (- A)
    \<and> filter (\<lambda>r. fst r \<noteq> p) t' = filter (\<lambda>r. fst r \<noteq> p) t"
proof -
  let ?hit = "\<lambda>r. fst r = p \<and> uf_id (snd r) \<in> A"
  have t': "t' = filter (\<lambda>r. \<not> ?hit r) t" "n = int (length (filter ?hit t))"
    using d sc by (auto simp: sql_delete_def fact_policies_def facts_reach scoped_def)
  have ok': "fact_table_ok t'" unfolding t' by (rule filter_table_ok [OF ok])
  have "pg_facts_of t' p i = (pg_facts_of t p |` (- A)) i" for i
  proof (cases "pg_facts_of t p i")
    case (Some f)
    then have "uf_id f = i" using pg_facts_iff [OF ok] by blast
    then show ?thesis using Some entry_filter [OF ok [unfolded fact_table_ok_def], of "\<lambda>r. \<not> ?hit r" p i]
      by (simp add: t'(1) pg_facts_of_def restrict_map_def)
  next
    case None
    then show ?thesis using entry_filter [OF ok [unfolded fact_table_ok_def], of "\<lambda>r. \<not> ?hit r" p i]
      by (simp add: t'(1) pg_facts_of_def restrict_map_def)
  qed
  moreover have "n = int (card (A \<inter> dom (pg_facts_of t p)))"
  proof -
    have "A \<inter> dom (pg_facts_of t p) = uf_id ` snd ` set (filter ?hit t)"
      unfolding dom_def not_None_eq pg_facts_iff [OF ok] by force
    also have "card \<dots> = length (filter ?hit t)"
    proof -
      have "distinct (map (\<lambda>r. uf_id (snd r)) (filter ?hit t))"
      proof -
        have "distinct (map (\<lambda>r. (fst r, uf_id (snd r))) (filter ?hit t))"
          using ok unfolding fact_table_ok_def keyed_def by (rule distinct_map_filter)
        then have "inj_on (\<lambda>r. (fst r, uf_id (snd r))) (set (filter ?hit t))" "distinct (filter ?hit t)" by (simp_all add: distinct_map)
        then show ?thesis unfolding distinct_map by (auto simp: inj_on_def)
      qed
      then show ?thesis using distinct_card by (fastforce simp: image_image)
    qed
    finally show ?thesis using t'(2) by simp
  qed
  ultimately show ?thesis using ok' by (auto simp: t'(1) intro!: filter_cong)
qed

lemma update_facts:
  assumes ok: "fact_table_ok t" and sc: "scoped p" and keep: "\<And>f. P (p, f) \<Longrightarrow> (p, f) \<in> set t \<Longrightarrow> uf_id (g f) = uf_id f"
  obtains t' where "sql_update fact_policies (scope_session p) clock P g t = Inr t'" "fact_table_ok t'"
    "\<And>i. pg_facts_of t' p i = map_option (\<lambda>f. if P (p, f) then g f else f) (pg_facts_of t p i)"
    "filter (\<lambda>r. fst r \<noteq> p) t' = filter (\<lambda>r. fst r \<noteq> p) t"
proof -
  let ?t = "map (\<lambda>r. if fst r = p \<and> P r then (fst r, g (snd r)) else r) t"
  have u: "sql_update fact_policies (scope_session p) clock P g t = Inr ?t"
    using sc by (auto simp: sql_update_def sql_update_rows_def fact_policies_def facts_reach scoped_def admitted_simps scope_match)
  have k: "uf_id (g (snd r)) = uf_id (snd r)" if "r \<in> set t" "fst r = p \<and> P r" for r
    using keep [of "snd r"] that by auto
  have "filter (\<lambda>r. fst r \<noteq> p) ?t = filter (\<lambda>r. fst r \<noteq> p) t" by (induction t) auto
  then show thesis
    using that [OF u] entry_map [OF ok [unfolded fact_table_ok_def] k refl, where p = p] by (simp add: fact_table_ok_def pg_facts_of_def)
qed

interpretation postgres: fact_backend "pg_facts clock p" "\<lambda>t. fact_table_ok t \<and> scoped p" "\<lambda>t. pg_facts_of t p"
  "filter (\<lambda>r. fst r \<noteq> p)" for clock p
proof
  fix s s' :: fact_table and rows f ids n now i
  assume "fact_table_ok s \<and> scoped p"
  then have ok: "fact_table_ok s" and sc: "scoped p" by simp_all
  show "fb_all (pg_facts clock p) s = (rows, s') \<Longrightarrow> (fact_table_ok s' \<and> scoped p) \<and> pg_facts_of s' p = pg_facts_of s p
      \<and> filter (\<lambda>r. fst r \<noteq> p) s' = filter (\<lambda>r. fst r \<noteq> p) s \<and> distinct (map uf_id rows)
      \<and> (\<forall>i f. (pg_facts_of s p i = Some f) = (f \<in> set rows \<and> uf_id f = i))"
  proof -
    assume "fb_all (pg_facts clock p) s = (rows, s')"
    then have r: "rows = map snd (filter (\<lambda>r. fst r = p) s)" "s' = s"
      using sc by (auto simp: pg_facts_def pg_all_def sql_select_def fact_policies_def facts_reach scoped_def)
    have "distinct (map (\<lambda>r. (fst r, uf_id (snd r))) (filter (\<lambda>r. fst r = p) s))"
      using ok unfolding fact_table_ok_def keyed_def by (rule distinct_map_filter)
    then have "distinct (map uf_id rows)" unfolding r(1) by (auto simp: distinct_map inj_on_def)
    moreover have "(pg_facts_of s p i = Some f) = (f \<in> set rows \<and> uf_id f = i)" for i f
      unfolding pg_facts_iff [OF ok] r(1) by force
    ultimately show ?thesis using r(2) ok sc by simp
  qed
  show "(fact_table_ok (fb_put (pg_facts clock p) f s) \<and> scoped p)
      \<and> pg_facts_of (fb_put (pg_facts clock p) f s) p = (pg_facts_of s p)(uf_id f \<mapsto> f)
      \<and> filter (\<lambda>r. fst r \<noteq> p) (fb_put (pg_facts clock p) f s) = filter (\<lambda>r. fst r \<noteq> p) s"
  proof (cases "\<exists>x \<in> set s. fst x = p \<and> uf_id (snd x) = uf_id f")
    case True
    obtain t' where u: "sql_update fact_policies (scope_session p) clock (\<lambda>x. fst x = p \<and> uf_id (snd x) = uf_id f) (\<lambda>_. f) s = Inr t'"
        "fact_table_ok t'" "\<And>i. pg_facts_of t' p i = map_option (\<lambda>g. if fst (p, g) = p \<and> uf_id (snd (p, g)) = uf_id f then f else g) (pg_facts_of s p i)"
        "filter (\<lambda>r. fst r \<noteq> p) t' = filter (\<lambda>r. fst r \<noteq> p) s"
      using update_facts [OF ok sc, of "\<lambda>x. fst x = p \<and> uf_id (snd x) = uf_id f" "\<lambda>_. f" clock] by auto
    have "fb_put (pg_facts clock p) f s = t'"
      using True u(1) sc by (simp add: pg_facts_def pg_put_def sql_upsert_def fact_policies_def admitted_simps scope_match scoped_def)
    moreover have "pg_facts_of t' p i = ((pg_facts_of s p)(uf_id f \<mapsto> f)) i" for i
    proof (cases "pg_facts_of s p i")
      case None
      then have "i \<noteq> uf_id f" using True pg_facts_iff [OF ok] by (metis option.distinct(1) prod.collapse)
      then show ?thesis using u(3) None by simp
    next
      case (Some g)
      then have "uf_id g = i" using pg_facts_iff [OF ok] by simp
      then show ?thesis using u(3) Some by auto
    qed
    ultimately show ?thesis using u(2,4) sc by auto
  next
    case False
    then have e: "fb_put (pg_facts clock p) f s = s @ [(p, f)]"
      using sc by (auto simp: pg_facts_def pg_put_def sql_upsert_def fact_policies_def admitted_simps scope_match scoped_def)
    have none: "pg_facts_of s p (uf_id f) = None"
      using False pg_facts_iff [OF ok] by (metis fst_conv not_None_eq snd_conv)
    have "pg_facts_of (s @ [(p, f)]) p i = ((pg_facts_of s p)(uf_id f \<mapsto> f)) i" for i
      using none by (auto simp: pg_facts_of_def entry_snoc split: option.splits)
    moreover have "fact_table_ok (s @ [(p, f)])" using ok False unfolding fact_table_ok_def keyed_def by auto
    ultimately show ?thesis using sc unfolding e by auto
  qed
  show "distinct ids \<Longrightarrow> fb_remove (pg_facts clock p) ids s = (n, s') \<Longrightarrow> (fact_table_ok s' \<and> scoped p)
      \<and> n = int (card (set ids \<inter> dom (pg_facts_of s p))) \<and> pg_facts_of s' p = pg_facts_of s p |` (- set ids)
      \<and> filter (\<lambda>r. fst r \<noteq> p) s' = filter (\<lambda>r. fst r \<noteq> p) s"
  proof (cases "ids = []")
    case True
    moreover assume "fb_remove (pg_facts clock p) ids s = (n, s')"
    ultimately show ?thesis using ok sc by (simp add: pg_facts_def pg_remove_def restrict_map_def)
  next
    case False
    assume "fb_remove (pg_facts clock p) ids s = (n, s')"
    then have "sql_delete fact_policies (scope_session p) clock (\<lambda>r. uf_id (snd r) \<in> set ids) s = (n, s')"
      using False by (simp add: pg_facts_def pg_remove_def)
    then show ?thesis using delete_facts [OF ok sc] sc by blast
  qed
  show "(fact_table_ok (fb_touch (pg_facts clock p) ids now s) \<and> scoped p)
      \<and> filter (\<lambda>r. fst r \<noteq> p) (fb_touch (pg_facts clock p) ids now s) = filter (\<lambda>r. fst r \<noteq> p) s
      \<and> pg_facts_of (fb_touch (pg_facts clock p) ids now s) p i = map_option (\<lambda>f. if i \<in> set ids then mark_used now f else f) (pg_facts_of s p i)"
  proof (cases "ids = []")
    case True
    then show ?thesis using ok sc by (simp add: pg_facts_def pg_touch_def option.map_ident)
  next
    case False
    obtain t' where u: "sql_update fact_policies (scope_session p) clock (\<lambda>r. uf_id (snd r) \<in> set ids) (mark_used now) s = Inr t'"
        "fact_table_ok t'" "\<And>i. pg_facts_of t' p i = map_option (\<lambda>f. if uf_id (snd (p, f)) \<in> set ids then mark_used now f else f) (pg_facts_of s p i)"
        "filter (\<lambda>r. fst r \<noteq> p) t' = filter (\<lambda>r. fst r \<noteq> p) s"
      using update_facts [OF ok sc, of "\<lambda>r. uf_id (snd r) \<in> set ids" "mark_used now" clock] by (auto simp: mark_used_def)
    have "fb_touch (pg_facts clock p) ids now s = t'" using False u(1) by (simp add: pg_facts_def pg_touch_def)
    moreover have "pg_facts_of t' p i = map_option (\<lambda>f. if i \<in> set ids then mark_used now f else f) (pg_facts_of s p i)"
    proof (cases "pg_facts_of s p i")
      case (Some f)
      then have "uf_id f = i" using pg_facts_iff [OF ok] by blast
      then show ?thesis using u(3) [of i] Some by simp
    qed (simp add: u(3))
    ultimately show ?thesis using u(2,4) sc by simp
  qed
qed

subsection \<open>What holds of the table\<close>

definition pg_history :: "(string \<Rightarrow> string) \<Rightarrow> memory_limits \<Rightarrow> rat \<Rightarrow> (pair \<times> fact_action) list \<Rightarrow> fact_table" where
  "pg_history hash l clock acts = foldl (\<lambda>t (p, a). fact_act hash (pg_facts clock p) l a t) [] acts"

lemma pg_facts_other:
  assumes "filter (\<lambda>r. fst r \<noteq> p) t' = filter (\<lambda>r. fst r \<noteq> p) t" and "q \<noteq> p"
  shows "pg_facts_of t' q = pg_facts_of t q"
proof -
  have "pg_facts_of u q i = pg_facts_of (filter (\<lambda>r. fst r \<noteq> p) u) q i" for u i
    using assms(2) by (induction u) (auto simp: pg_facts_of_def entry_of_def)
  then show ?thesis using assms(1) by (intro ext) metis
qed

lemma pg_history_ok:
  assumes "limits_ok l" and "list_all (\<lambda>(p, a). scoped p) acts"
  shows "fact_table_ok (pg_history hash l clock acts) \<and> (\<forall>p. facts_ok hash l (pg_facts_of (pg_history hash l clock acts) p))"
  unfolding pg_history_def using assms(2)
proof (induction acts rule: rev_induct)
  case Nil
  have "pg_facts_of [] p = Map.empty" for p by (simp add: pg_facts_of_def entry_of_def fun_eq_iff)
  then show ?case using assms(1) by (simp add: fact_table_ok_def keyed_def facts_ok_def limits_ok_def)
next
  case (snoc x acts)
  obtain p a where x: "x = (p, a)" by (cases x)
  let ?t = "foldl (\<lambda>t (p, a). fact_act hash (pg_facts clock p) l a t) [] acts"
  have ih: "fact_table_ok ?t" "\<And>p. facts_ok hash l (pg_facts_of ?t p)" and sc: "scoped p" using snoc x by auto
  note k = postgres.act_kept [OF conjI [OF ih(1) sc] ih(2) assms(1), where clock = clock and a = a]
  have "facts_ok hash l (pg_facts_of (fact_act hash (pg_facts clock p) l a ?t) q)" for q
  proof (cases "q = p")
    case False
    show ?thesis unfolding pg_facts_other [OF conjunct2 [OF conjunct2 [OF k]] False] by (rule ih(2))
  qed (use k in blast)
  then show ?case using k by (simp add: x)
qed

text \<open>
  The table in PostgreSQL gives users the same guarantee as the memory. After any calls for any users every user's rows stay within
  the limits and well formed, and the retention purge then leaves exactly the facts that have not expired.
\<close>

theorem postgres_memory_bounded:
  assumes "limits_ok l" and "list_all (\<lambda>(p, a). scoped p) acts"
  shows "facts_ok hash l (pg_facts_of (pg_history hash l clock acts) p)
    \<and> pg_facts_of (snd (pg_purge now (pg_history hash l clock acts))) p = live now (pg_facts_of (pg_history hash l clock acts) p)"
proof -
  let ?t = "pg_history hash l clock acts" let ?t' = "snd (pg_purge now ?t)"
  note ok = pg_history_ok [OF assms, of hash clock]
  have m: "purge_match uf_expires (maintenance_session PURGE_EXPIRED) now r \<longleftrightarrow> expired now (snd r)" for r :: "user_fact row"
    by (simp add: purge_match_def maintenance_session_def expired_def)
  have t': "?t' = filter (\<lambda>r. \<not> expired now (snd r)) ?t"
    by (simp add: pg_purge_def sql_delete_def fact_policies_def reachable_by_def readable_def admitted_simps m)
  have ok': "fact_table_ok ?t'" unfolding t' using ok filter_table_ok by blast
  have "pg_facts_of ?t' p i = live now (pg_facts_of ?t p) i" for i
  proof (rule option_agree)
    fix f
    show "pg_facts_of ?t' p i = Some f \<longleftrightarrow> live now (pg_facts_of ?t p) i = Some f"
      unfolding live_iff pg_facts_iff [OF ok'] pg_facts_iff [OF conjunct1 [OF ok]] by (auto simp: t')
  qed
  then show ?thesis using ok by blast
qed

theorem postgres_memory_bounded_witness:
  "facts_ok (\<lambda>x. x) two_facts (pg_facts_of (pg_history (\<lambda>x. x) two_facts 0 told) (''shop'', ''ana''))
   \<and> pg_facts_of (snd (pg_purge 103 (pg_history (\<lambda>x. x) two_facts 0 told))) (''shop'', ''ana'')
       = live 103 (pg_facts_of (pg_history (\<lambda>x. x) two_facts 0 told) (''shop'', ''ana''))
   \<and> map uf_content (fst (pg_all 0 (''shop'', ''ana'') (pg_history (\<lambda>x. x) two_facts 0 told))) = [''uses kilos'', ''lives in Jujuy'']"
proof -
  have "list_all (\<lambda>(p, a). scoped p) told" by (simp add: told_def scoped_def)
  from postgres_memory_bounded [OF two_facts_ok this]
  have "facts_ok (\<lambda>x. x) two_facts (pg_facts_of (pg_history (\<lambda>x. x) two_facts 0 told) (''shop'', ''ana''))
     \<and> pg_facts_of (snd (pg_purge 103 (pg_history (\<lambda>x. x) two_facts 0 told))) (''shop'', ''ana'')
       = live 103 (pg_facts_of (pg_history (\<lambda>x. x) two_facts 0 told) (''shop'', ''ana''))" by blast
  moreover have "map uf_content (fst (pg_all 0 (''shop'', ''ana'') (pg_history (\<lambda>x. x) two_facts 0 told))) = [''uses kilos'', ''lives in Jujuy'']"
    by code_simp
  ultimately show ?thesis by blast
qed

definition two_rows :: fact_table where
  "two_rows = [((''shop'', ''ana''), \<lparr>uf_id = ''1'', uf_content = ''a'', uf_created = 0, uf_last_used = 0, uf_uses = 0, uf_expires = None\<rparr>),
     ((''shop'', ''ben''), \<lparr>uf_id = ''1'', uf_content = ''b'', uf_created = 0, uf_last_used = 0, uf_uses = 0, uf_expires = Some 5\<rparr>)]"

theorem statements_fenced_witness:
  "\<exists>t'. sql_update fact_policies (scope_session (''shop'', ''ana'')) 9 (\<lambda>_. True) (mark_used 9) two_rows = Inr t'
     \<and> filter (\<lambda>r. fst r = (''shop'', ''ben'')) t' = [two_rows ! 1] \<and> fst (hd t') = (''shop'', ''ana'') \<and> t' \<noteq> two_rows"
proof -
  let ?u = "sql_update fact_policies (scope_session (''shop'', ''ana'')) 9 (\<lambda>_. True) (mark_used 9) two_rows"
  have "map (\<lambda>r. (fst r, uf_uses (snd r))) (case ?u of Inr t \<Rightarrow> t | Inl _ \<Rightarrow> []) = [((''shop'', ''ana''), 1), ((''shop'', ''ben''), 0)]"
    by code_simp
  then obtain t' where u: "?u = Inr t'" "map (\<lambda>r. (fst r, uf_uses (snd r))) t' = [((''shop'', ''ana''), 1), ((''shop'', ''ben''), 0)]"
    by (cases ?u) simp_all
  have t': "?u = Inr t'" "fst (hd t') = (''shop'', ''ana'')" "t' \<noteq> two_rows"
  proof -
    show "?u = Inr t'" by (rule u(1))
    show "fst (hd t') = (''shop'', ''ana'')" using u(2) by (cases t') simp_all
    show "t' \<noteq> two_rows"
    proof
      assume "t' = two_rows"
      then have "map (\<lambda>r. (fst r, uf_uses (snd r))) two_rows = [((''shop'', ''ana''), 1), ((''shop'', ''ben''), 0)]" using u(2) by simp
      then show False by (simp add: two_rows_def)
    qed
  qed
  have st: "statement_of fact_policies (scope_session (''shop'', ''ana'')) 9 two_rows t'" using t'(1) unfolding statement_of_def sql_update_def by blast
  have ps: "fact_policies = purge_policies uf_expires \<or> fact_policies = subject_policies True" by (simp add: fact_policies_def)
  have "(''shop'', ''ben'') \<noteq> (''shop'', ''ana'')" by simp
  note conj = conjI [OF st this]
  have "filter (\<lambda>r. fst r = (''shop'', ''ben'')) t' = filter (\<lambda>r. fst r = (''shop'', ''ben'')) two_rows"
    by (rule conjunct2 [OF statements_fenced [OF ps], rule_format, OF conj])
  also have "\<dots> = [two_rows ! 1]" by (simp add: two_rows_def)
  finally show ?thesis using t' by blast
qed

end
