(* ===== verification/Schedules_Postgres.thy ===== *)
theory Schedules_Postgres
  imports Schedule_Runs Row_Security
begin

section \<open>Schedules in PostgreSQL\<close>

text \<open>
  \<open>services/schedules_postgres.py\<close>: the table of schedules behind row-level security.  A user's transactions are fenced to the
  user; the worker's setting opens the fence.  A transaction is atomic; the rows another worker holds, which \<open>SKIP LOCKED\<close>
  passes over, are the argument \<open>locks\<close>.  A row reads back as the schedule that was written.
\<close>

type_synonym schedule_table = "schedule row list"

definition schedule_policies :: "schedule policy list" where "schedule_policies = subject_policies True"

definition pg_list :: "pair \<Rightarrow> schedule_table \<Rightarrow> schedule list \<times> schedule_table" where
  "pg_list p t =
     (sort_key (\<lambda>s. (sc_created s, sc_id s)) (map snd (sql_select schedule_policies (scope_session p) 0 (\<lambda>_. True) t)), t)"

text \<open>The advisory lock serializes one subject's creations. A write that is refused, or whose key is taken, raises; the table stays.\<close>

definition pg_add :: "pair \<Rightarrow> schedule \<Rightarrow> int \<Rightarrow> schedule_table \<Rightarrow> bool \<times> schedule_table" where
  "pg_add p s n t =
     (let row = (owner s, s) in
      if n \<le> int (length (sql_select schedule_policies (scope_session p) 0 (\<lambda>_. True) t)) then (False, t)
      else if admitted check_clause schedule_policies (scope_session p) 0 SqlInsert row
           \<and> \<not> (\<exists>x \<in> set t. fst x = owner s \<and> sc_id (snd x) = sc_id s)
      then (True, t @ [row]) else (False, t))"

definition pg_remove_schedule :: "pair \<Rightarrow> string \<Rightarrow> schedule_table \<Rightarrow> bool \<times> schedule_table" where
  "pg_remove_schedule p i t =
     (case sql_delete schedule_policies (scope_session p) 0 (\<lambda>r. sc_id (snd r) = i) t of (n, t') \<Rightarrow> (0 < n, t'))"

definition pg_claim_due ::
  "(rat \<Rightarrow> schedule row \<Rightarrow> bool) \<Rightarrow> rat \<Rightarrow> (schedule \<Rightarrow> rat \<Rightarrow> rat res) \<Rightarrow> schedule_table \<Rightarrow> claimed_run option res \<times> schedule_table" where
  "pg_claim_due locks now advance t =
     (case sql_select schedule_policies worker_session now (\<lambda>r. sc_next_run (snd r) \<le> now \<and> \<not> locks now r) t of
        [] \<Rightarrow> (Inr None, t)
      | x # xs \<Rightarrow>
          (let s = snd (first_min (\<lambda>r. (sc_next_run (snd r), sc_id (snd r))) x xs) in
           case advance s now of
             Inl e \<Rightarrow> (Inl e, t)
           | Inr n \<Rightarrow>
               (case sql_update schedule_policies worker_session now (\<lambda>r. fst r = owner s \<and> sc_id (snd r) = sc_id s)
                       (\<lambda>s. s\<lparr>sc_next_run := n\<rparr>) t of
                  Inl e \<Rightarrow> (Inl e, t)
                | Inr t' \<Rightarrow> (Inr (Some \<lparr>cr_schedule = s\<lparr>sc_next_run := n\<rparr>, cr_due = sc_next_run s\<rparr>), t'))))"

definition pg_record :: "string \<Rightarrow> string \<Rightarrow> string \<Rightarrow> string \<Rightarrow> rat \<Rightarrow> schedule_table \<Rightarrow> schedule_table" where
  "pg_record rt sk i status now t =
     (case sql_update schedule_policies worker_session now (\<lambda>r. fst r = (rt, sk) \<and> sc_id (snd r) = i)
             (\<lambda>s. s\<lparr>sc_last_run := Some now, sc_last_status := Some status\<rparr>) t of
        Inl _ \<Rightarrow> t
      | Inr t' \<Rightarrow> t')"

definition pg_schedules :: "(rat \<Rightarrow> schedule row \<Rightarrow> bool) \<Rightarrow> schedule_table schedule_ops" where
  "pg_schedules locks = \<lparr>so_list = pg_list, so_add = pg_add, so_remove = pg_remove_schedule,
     so_claim = pg_claim_due locks, so_record = pg_record\<rparr>"

definition pg_export_schedules :: "schedule_texts \<Rightarrow> pair \<Rightarrow> schedule_table \<Rightarrow> dict list res" where
  "pg_export_schedules x p t = mapR (export_row x) (fst (pg_list p t))"

definition pg_erase_schedules :: "pair \<Rightarrow> schedule_table \<Rightarrow> int \<times> schedule_table" where
  "pg_erase_schedules p t = sql_delete schedule_policies (scope_session p) 0 (\<lambda>_. True) t"

subsection \<open>The table is a store of schedules\<close>

definition schedule_table_ok :: "schedule_table \<Rightarrow> bool" where
  "schedule_table_ok t \<longleftrightarrow> keyed sc_id t \<and> (\<forall>r \<in> set t. owner (snd r) = fst r \<and> scoped (fst r))"

lemma schedule_reach:
  "readable schedule_policies (scope_session p) clock r \<longleftrightarrow> scoped p \<and> fst r = p"
  "reachable_by schedule_policies (scope_session p) clock cmd r \<longleftrightarrow> scoped p \<and> fst r = p"
  "readable schedule_policies worker_session clock r" "reachable_by schedule_policies worker_session clock cmd r"
  "admitted check_clause schedule_policies (scope_session p) clock cmd r \<longleftrightarrow> scoped p \<and> fst r = p"
  "admitted check_clause schedule_policies worker_session clock cmd r"
  by (auto simp: readable_def reachable_by_def admitted_simps scope_match schedule_policies_def scoped_def)

lemma schedule_rows:
  assumes "schedule_table_ok t"
  shows "sql_select schedule_policies (scope_session p) clock (\<lambda>_. True) t = filter (\<lambda>r. fst r = p) t"
  unfolding sql_select_def schedule_reach using assms by (intro filter_cong) (auto simp: schedule_table_ok_def)

lemma rows_of_entry:
  assumes "schedule_table_ok t"
  shows "set (map snd (filter (\<lambda>r. fst r = p) t)) = {s. \<exists>i. entry_of sc_id t p i = Some s}
    \<and> distinct (map snd (filter (\<lambda>r. fst r = p) t)) \<and> held (entry_of sc_id t) p = int (length (filter (\<lambda>r. fst r = p) t))"
proof -
  have k: "keyed sc_id t" using assms by (simp add: schedule_table_ok_def)
  let ?rows = "filter (\<lambda>r. fst r = p) t"
  have ids: "distinct (map (\<lambda>r. sc_id (snd r)) ?rows)"
  proof -
    have "distinct (map (\<lambda>r. (fst r, sc_id (snd r))) ?rows)" using k unfolding keyed_def by (rule distinct_map_filter)
    then show ?thesis unfolding distinct_map by (auto simp: inj_on_def)
  qed
  then have "distinct (map sc_id (map snd ?rows))" by (simp add: comp_def)
  then have "distinct (map snd ?rows)" by (simp only: distinct_map)
  moreover have "set (map snd ?rows) = {s. \<exists>i. entry_of sc_id t p i = Some s}" unfolding entry_iff [OF k] by force
  moreover have "dom (entry_of sc_id t p) = set (map (\<lambda>r. sc_id (snd r)) ?rows)"
    unfolding dom_def not_None_eq entry_iff [OF k] by force
  then have "held (entry_of sc_id t) p = int (length ?rows)"
    using distinct_card [OF ids] by (simp add: held_def)
  ultimately show ?thesis by blast
qed

lemma worker_update:
  assumes ok: "schedule_table_ok t" and keep: "\<And>s. sc_id (g s) = sc_id s \<and> owner (g s) = owner s"
  obtains t' where "sql_update schedule_policies worker_session now (\<lambda>r. fst r = q \<and> sc_id (snd r) = i) g t = Inr t'"
    "schedule_table_ok t'" "entry_of sc_id t' = put_entry (entry_of sc_id t) q i (map_option g (entry_of sc_id t q i))"
proof -
  let ?t = "map (\<lambda>r. if fst r = q \<and> sc_id (snd r) = i then (fst r, g (snd r)) else r) t"
  have k: "keyed sc_id t" using ok by (simp add: schedule_table_ok_def)
  have u: "sql_update schedule_policies worker_session now (\<lambda>r. fst r = q \<and> sc_id (snd r) = i) g t = Inr ?t"
    by (simp add: sql_update_def sql_update_rows_def schedule_reach)
  note m = entry_map [OF k _ refl, where H = "\<lambda>r. fst r = q \<and> sc_id (snd r) = i" and g = g]
  have ok': "schedule_table_ok ?t" using m keep ok by (auto simp: schedule_table_ok_def)
  have "entry_of sc_id ?t p j = put_entry (entry_of sc_id t) q i (map_option g (entry_of sc_id t q i)) p j" for p j
  proof (cases "entry_of sc_id t p j")
    case None
    then show ?thesis using m [of p j] keep by (auto simp: put_entry_def)
  next
    case (Some s)
    then have "sc_id s = j" using entry_iff [OF k] by blast
    then show ?thesis using m [of p j] keep Some by (auto simp: put_entry_def)
  qed
  then show thesis using that [OF u ok'] by (simp add: fun_eq_iff)
qed

lemma delete_entry:
  assumes ok: "schedule_table_ok t"
  shows "schedule_table_ok (filter (\<lambda>r. \<not> (fst r = p \<and> sc_id (snd r) = i)) t)
    \<and> entry_of sc_id (filter (\<lambda>r. \<not> (fst r = p \<and> sc_id (snd r) = i)) t) = put_entry (entry_of sc_id t) p i None"
proof -
  have k: "keyed sc_id t" using ok by (simp add: schedule_table_ok_def)
  let ?P = "\<lambda>r. \<not> (fst r = p \<and> sc_id (snd r) = i)"
  have "entry_of sc_id (filter ?P t) q j = put_entry (entry_of sc_id t) p i None q j" for q j
  proof (cases "entry_of sc_id t q j")
    case None
    then show ?thesis using entry_filter [OF k, of ?P q j] by (auto simp: put_entry_def)
  next
    case (Some s)
    then have "sc_id s = j" using entry_iff [OF k] by blast
    then show ?thesis using entry_filter [OF k, of ?P q j] Some by (auto simp: put_entry_def)
  qed
  then show ?thesis using ok keyed_filter [OF k, of ?P] by (simp add: schedule_table_ok_def fun_eq_iff)
qed

lemma worker_claim_cases:
  assumes ok: "schedule_table_ok t" and c: "pg_claim_due locks now advance t = (r, t')"
  obtains "\<forall>c. r \<noteq> Inr (Some c)" "t' = t"
  | s n where "entry_of sc_id t (owner s) (sc_id s) = Some s" "sc_next_run s \<le> now" "advance s now = Inr n"
      "r = Inr (Some \<lparr>cr_schedule = s\<lparr>sc_next_run := n\<rparr>, cr_due = sc_next_run s\<rparr>)" "schedule_table_ok t'"
      "entry_of sc_id t' = put_entry (entry_of sc_id t) (owner s) (sc_id s) (Some (s\<lparr>sc_next_run := n\<rparr>))"
proof -
  let ?due = "sql_select schedule_policies worker_session now (\<lambda>r. sc_next_run (snd r) \<le> now \<and> \<not> locks now r) t"
  have k: "keyed sc_id t" using ok by (simp add: schedule_table_ok_def)
  show thesis
  proof (cases ?due)
    case Nil
    then show ?thesis using c by (intro that(1)) (auto simp: pg_claim_due_def)
  next
    case (Cons x xs)
    define y where "y = first_min (\<lambda>r. (sc_next_run (snd r), sc_id (snd r))) x xs"
    have "y \<in> set ?due" using first_min_in [of "\<lambda>r. (sc_next_run (snd r), sc_id (snd r))" x xs] unfolding Cons y_def by simp
    then have y: "y \<in> set t" "sc_next_run (snd y) \<le> now" by (simp_all add: sql_select_def)
    then have o: "owner (snd y) = fst y" using ok unfolding schedule_table_ok_def by blast
    have e: "entry_of sc_id t (owner (snd y)) (sc_id (snd y)) = Some (snd y)"
      unfolding o entry_iff [OF k] using y(1) by simp
    show ?thesis
    proof (cases "advance (snd y) now")
      case (Inl err)
      then show ?thesis using c Cons by (intro that(1)) (auto simp: pg_claim_due_def y_def [symmetric])
    next
      case (Inr n)
      obtain t2 where u: "sql_update schedule_policies worker_session now (\<lambda>r. fst r = owner (snd y) \<and> sc_id (snd r) = sc_id (snd y))
            (\<lambda>s. s\<lparr>sc_next_run := n\<rparr>) t = Inr t2" "schedule_table_ok t2"
          "entry_of sc_id t2 = put_entry (entry_of sc_id t) (owner (snd y)) (sc_id (snd y))
             (map_option (\<lambda>s. s\<lparr>sc_next_run := n\<rparr>) (entry_of sc_id t (owner (snd y)) (sc_id (snd y))))"
        using worker_update [OF ok, of "\<lambda>s. s\<lparr>sc_next_run := n\<rparr>" now "owner (snd y)" "sc_id (snd y)"] by (auto simp: owner_def)
      have "r = Inr (Some \<lparr>cr_schedule = (snd y)\<lparr>sc_next_run := n\<rparr>, cr_due = sc_next_run (snd y)\<rparr>)" "t' = t2"
        using c Cons Inr u(1) by (auto simp: pg_claim_due_def Let_def y_def [symmetric])
      then show ?thesis using that(2) [OF e y(2) Inr] u(2,3) e by simp
    qed
  qed
qed

interpretation postgres_schedules: schedule_book "pg_schedules locks" schedule_table_ok "entry_of sc_id" for locks
proof
  fix t t' :: schedule_table and p i s ss n b now advance c r rt sk body
  assume ok: "schedule_table_ok t"
  have k: "keyed sc_id t" using ok by (simp add: schedule_table_ok_def)
  show "entry_of sc_id t p i = Some s \<Longrightarrow> sc_id s = i \<and> owner s = p"
    using ok unfolding entry_iff [OF k] schedule_table_ok_def by auto
  have "dom (entry_of sc_id t p) = sc_id ` snd ` set (filter (\<lambda>r. fst r = p) t)"
    unfolding dom_def not_None_eq entry_iff [OF k] by force
  then show "finite (dom (entry_of sc_id t p))" by simp
  show "so_list (pg_schedules locks) p t = (ss, t') \<Longrightarrow> schedule_table_ok t' \<and> entry_of sc_id t' = entry_of sc_id t
      \<and> set ss = {s. \<exists>i. entry_of sc_id t p i = Some s} \<and> distinct ss"
    using rows_of_entry [OF ok, of p] ok by (auto simp: pg_schedules_def pg_list_def schedule_rows [OF ok])
  show "owner s = p \<Longrightarrow> so_add (pg_schedules locks) p s n t = (b, t') \<Longrightarrow> schedule_table_ok t' \<and> (b \<longrightarrow> held (entry_of sc_id t) p < n)
      \<and> entry_of sc_id t' = (if b then put_entry (entry_of sc_id t) p (sc_id s) (Some s) else entry_of sc_id t)"
  proof -
    assume o: "owner s = p" and a: "so_add (pg_schedules locks) p s n t = (b, t')"
    show ?thesis
    proof (cases b)
      case False
      then show ?thesis using a ok by (auto simp: pg_schedules_def pg_add_def Let_def split: if_splits)
    next
      case True
      then have new: "t' = t @ [(p, s)]" "scoped p" "\<not> (\<exists>x \<in> set t. fst x = p \<and> sc_id (snd x) = sc_id s)"
          "\<not> n \<le> int (length (filter (\<lambda>r. fst r = p) t))"
        using a o by (auto simp: pg_schedules_def pg_add_def Let_def schedule_rows [OF ok] schedule_reach split: if_splits)
      have none: "entry_of sc_id t p (sc_id s) = None"
      proof (rule ccontr)
        assume "entry_of sc_id t p (sc_id s) \<noteq> None"
        then obtain f where "entry_of sc_id t p (sc_id s) = Some f" by (rule not_None_eq [THEN iffD1, THEN exE])
        then have "(p, f) \<in> set t \<and> sc_id f = sc_id s" unfolding entry_iff [OF k] .
        then show False using new(3) by force
      qed
      have "schedule_table_ok t'"
        using ok new(2,3) o unfolding new(1) schedule_table_ok_def keyed_def by auto
      moreover have "entry_of sc_id t' q j = put_entry (entry_of sc_id t) p (sc_id s) (Some s) q j" for q j
        using none unfolding new(1) entry_snoc by (auto simp: put_entry_def split: option.splits)
      ultimately show ?thesis using True new(4) rows_of_entry [OF ok, of p] by (auto simp: fun_eq_iff)
    qed
  qed
  show "so_remove (pg_schedules locks) p i t = (b, t') \<Longrightarrow> schedule_table_ok t' \<and> b = (entry_of sc_id t p i \<noteq> None)
      \<and> entry_of sc_id t' = put_entry (entry_of sc_id t) p i None"
  proof -
    assume "so_remove (pg_schedules locks) p i t = (b, t')"
    then have t': "t' = filter (\<lambda>r. \<not> (scoped p \<and> fst r = p \<and> sc_id (snd r) = i)) t"
        and b: "b = (0 < length (filter (\<lambda>r. (scoped p \<and> fst r = p) \<and> sc_id (snd r) = i) t))"
      by (auto simp: pg_schedules_def pg_remove_schedule_def sql_delete_def schedule_reach)
    have sc: "scoped p" if "r \<in> set t" "fst r = p" for r using ok that by (auto simp: schedule_table_ok_def)
    have "t' = filter (\<lambda>r. \<not> (fst r = p \<and> sc_id (snd r) = i)) t" unfolding t' by (rule filter_cong) (use sc in auto)
    moreover have "b = (entry_of sc_id t p i \<noteq> None)"
    proof -
      have "b = (\<exists>r \<in> set t. (scoped p \<and> fst r = p) \<and> sc_id (snd r) = i)" unfolding b by (auto simp: filter_empty_conv)
      also have "\<dots> = (\<exists>f. (p, f) \<in> set t \<and> sc_id f = i)"
      proof
        assume "\<exists>r \<in> set t. (scoped p \<and> fst r = p) \<and> sc_id (snd r) = i"
        then obtain r where "r \<in> set t" "fst r = p" "sc_id (snd r) = i" by blast
        then show "\<exists>f. (p, f) \<in> set t \<and> sc_id f = i" by (intro exI [of _ "snd r"]) auto
      next
        assume "\<exists>f. (p, f) \<in> set t \<and> sc_id f = i"
        then obtain f where f: "(p, f) \<in> set t" "sc_id f = i" by blast
        then have "scoped p" using sc [of "(p, f)"] by simp
        then show "\<exists>r \<in> set t. (scoped p \<and> fst r = p) \<and> sc_id (snd r) = i" by (intro bexI [OF _ f(1)]) (simp add: f(2))
      qed
      finally have "b = (\<exists>f. (p, f) \<in> set t \<and> sc_id f = i)" .
      then show ?thesis unfolding not_None_eq entry_iff [OF k] .
    qed
    ultimately show ?thesis using delete_entry [OF ok] by simp
  qed
  show "so_claim (pg_schedules locks) now advance t = (Inr (Some c), t') \<Longrightarrow> schedule_table_ok t'
      \<and> (\<exists>s u. entry_of sc_id t (owner s) (sc_id s) = Some s \<and> cr_due c = sc_next_run s \<and> sc_next_run s \<le> now
        \<and> advance s now = Inr u \<and> cr_schedule c = s\<lparr>sc_next_run := u\<rparr>
        \<and> entry_of sc_id t' = put_entry (entry_of sc_id t) (owner s) (sc_id s) (Some (s\<lparr>sc_next_run := u\<rparr>)))"
  proof -
    assume "so_claim (pg_schedules locks) now advance t = (Inr (Some c), t')"
    then have cl: "pg_claim_due locks now advance t = (Inr (Some c), t')" by (simp add: pg_schedules_def)
    show ?thesis using ok cl by (cases rule: worker_claim_cases) auto
  qed
  show "so_claim (pg_schedules locks) now advance t = (r, t') \<Longrightarrow> \<forall>c. r \<noteq> Inr (Some c) \<Longrightarrow>
      schedule_table_ok t' \<and> entry_of sc_id t' = entry_of sc_id t"
  proof -
    assume a: "so_claim (pg_schedules locks) now advance t = (r, t')" and n: "\<forall>c. r \<noteq> Inr (Some c)"
    then have cl: "pg_claim_due locks now advance t = (r, t')" by (simp add: pg_schedules_def)
    show ?thesis using ok cl by (cases rule: worker_claim_cases) (use n ok in auto)
  qed
  show "schedule_table_ok (so_record (pg_schedules locks) rt sk i body now t)
      \<and> entry_of sc_id (so_record (pg_schedules locks) rt sk i body now t) = put_entry (entry_of sc_id t) (rt, sk) i
          (map_option (\<lambda>s. s\<lparr>sc_last_run := Some now, sc_last_status := Some body\<rparr>) (entry_of sc_id t (rt, sk) i))"
  proof -
    let ?g = "\<lambda>s :: schedule. s\<lparr>sc_last_run := Some now, sc_last_status := Some body\<rparr>"
    obtain t2 where u: "sql_update schedule_policies worker_session now (\<lambda>r. fst r = (rt, sk) \<and> sc_id (snd r) = i) ?g t = Inr t2"
        "schedule_table_ok t2" "entry_of sc_id t2 = put_entry (entry_of sc_id t) (rt, sk) i (map_option ?g (entry_of sc_id t (rt, sk) i))"
      using worker_update [OF ok, of ?g now "(rt, sk)" i] by (auto simp: owner_def)
    then show ?thesis by (simp add: pg_schedules_def pg_record_def)
  qed
qed

text \<open>
  The table gives the same guarantee to any number of processes. Whatever tools and workers do to the schedules in PostgreSQL, and
  whatever rows they find locked, no window of a schedule is claimed twice and no user holds more schedules than the
  limit.
\<close>

theorem postgres_windows_claimed_once:
  assumes "(schedule_step zones x l (pg_schedules locks) (entry_of sc_id))\<^sup>*\<^sup>* \<lparr>sw_store = [], sw_claims = []\<rparr> s"
    and "0 \<le> max_per_user l"
  shows "distinct (sw_claims s) \<and> held (entry_of sc_id (sw_store s)) p \<le> max_per_user l
    \<and> (entry_of sc_id (sw_store s) p i = Some e \<and> (p, i, d) \<in> set (sw_claims s) \<longrightarrow> d < sc_next_run e)"
proof -
  have n: "entry_of sc_id [] = (\<lambda>p. Map.empty)" by (simp add: entry_of_def fun_eq_iff)
  have "schedule_table_ok []" "schedules_ok zones l (entry_of sc_id []) []"
    using assms(2) by (simp_all add: schedule_table_ok_def keyed_def n schedules_ok_def held_def)
  then have "schedules_ok zones l (entry_of sc_id (sw_store s)) (sw_claims s)"
    using postgres_schedules.steps_kept [OF assms(1)] by simp
  then show ?thesis unfolding schedules_ok_def by blast
qed

theorem postgres_windows_claimed_once_witness:
  "\<exists>s :: schedule_table schedule_world. sw_claims s = [((''shop'', ''ana''), ''s1'', 374400)] \<and> distinct (sw_claims s)
     \<and> held (entry_of sc_id (sw_store s)) (''shop'', ''ana'') \<le> 1"
proof -
  let ?ops = "pg_schedules (\<lambda>_ _. False)"
  let ?step = "schedule_step demo_zones no_texts demo_limits ?ops (entry_of sc_id)"
  let ?made = "create_schedule demo_zones no_texts ?ops demo_limits None 0 ''s1'' (''shop'', ''ana'') monday_request []"
  let ?claim = "so_claim ?ops 374500 (advance_window demo_zones) (snd ?made)"
  let ?s = "\<lparr>sw_store = snd ?claim, sw_claims = [((''shop'', ''ana''), ''s1'', 374400)]\<rparr>"
  have 1: "?step \<lparr>sw_store = [], sw_claims = []\<rparr> \<lparr>sw_store = snd ?made, sw_claims = []\<rparr>"
    using schedule_step.Create [of "entry_of sc_id" "\<lparr>sw_store = [], sw_claims = []\<rparr>" "(''shop'', ''ana'')" "''s1''"
        demo_zones no_texts ?ops demo_limits None 0 monday_request "fst ?made" "snd ?made"] by (simp add: entry_of_def)
  define c where "c = (case fst ?claim of Inr (Some c) \<Rightarrow> c | _ \<Rightarrow> undefined)"
  have "(case fst ?claim of Inr (Some c) \<Rightarrow> Some (owner (cr_schedule c), sc_id (cr_schedule c), cr_due c) | _ \<Rightarrow> None)
      = Some ((''shop'', ''ana''), ''s1'', 374400)" by code_simp
  then have c: "fst ?claim = Inr (Some c)" "owner (cr_schedule c) = (''shop'', ''ana'')" "sc_id (cr_schedule c) = ''s1''" "cr_due c = 374400"
    unfolding c_def by (auto split: sum.splits option.splits)
  have cl: "?claim = (Inr (Some c), snd ?claim)" using c(1) by (metis prod.collapse)
  have 2: "?step \<lparr>sw_store = snd ?made, sw_claims = []\<rparr> ?s"
    using schedule_step.Claimed [of ?ops 374500 demo_zones "\<lparr>sw_store = snd ?made, sw_claims = []\<rparr>" c "snd ?claim"] cl c(2-4) by simp
  have r: "?step\<^sup>*\<^sup>* \<lparr>sw_store = [], sw_claims = []\<rparr> ?s"
    using 1 2 by (rule converse_rtranclp_into_rtranclp [OF _ r_into_rtranclp])
  have m: "max_per_user demo_limits = 1" by (simp add: demo_limits_def)
  then have "0 \<le> max_per_user demo_limits" by simp
  note w = postgres_windows_claimed_once [OF r this, of "(''shop'', ''ana'')"]
  show ?thesis
    by (rule exI [of _ ?s], intro conjI)
      (simp, rule conjunct1 [OF w], rule conjunct1 [OF conjunct2 [OF w], unfolded m])
qed

end
