(* ===== verification/Sql_Guard.thy ===== *)
theory Sql_Guard
  imports Prelude
begin

section \<open>The guard of model-written SQL\<close>

text \<open>
  \<open>services/sql_guard.py\<close>.  The tokenizer, the parser, the scope analysis and the renderer are sqlglot's: they are the
  fields of the record \<open>sqlglot\<close>, each of which may fail.  A syntax tree is its node and its subtrees in order; what the guard
  asks of a node is the record too.  A rejection is its code; the texts of the messages are left out.
\<close>

subsection \<open>Limits and policy\<close>

definition PG_IDENTIFIER_MAX :: nat where "PG_IDENTIFIER_MAX = 63"
definition RESULT_ALIAS :: string where "RESULT_ALIAS = ''sql_query_result''"
definition DEFAULT_MAX_SQL_LENGTH :: int where "DEFAULT_MAX_SQL_LENGTH = 10000"
definition DEFAULT_MAX_TOKENS :: int where "DEFAULT_MAX_TOKENS = 600"
definition DEFAULT_MAX_DEPTH :: int where "DEFAULT_MAX_DEPTH = 20"
definition MAX_TYPE_NESTING :: nat where "MAX_TYPE_NESTING = 4"
definition MAX_SQUARE_BRACKETS :: int where "MAX_SQUARE_BRACKETS = 16"
definition DEFAULT_MAX_NODES :: int where "DEFAULT_MAX_NODES = 2500"
definition TREE_LEVELS_PER_DEPTH :: int where "TREE_LEVELS_PER_DEPTH = 4"

definition DEFAULT_ALLOWED_FUNCTIONS :: "string list" where
  "DEFAULT_ALLOWED_FUNCTIONS =
    [''count'', ''sum'', ''avg'', ''min'', ''max'', ''bool_and'', ''bool_or'', ''every'', ''stddev'', ''stddev_pop'',
     ''stddev_samp'', ''variance'', ''var_pop'', ''var_samp'', ''corr'', ''covar_pop'', ''covar_samp'',
     ''percentile_cont'', ''percentile_disc'', ''mode'', ''row_number'', ''rank'', ''dense_rank'', ''percent_rank'',
     ''cume_dist'', ''ntile'', ''lag'', ''lead'', ''first_value'', ''last_value'', ''nth_value'', ''coalesce'',
     ''nullif'', ''greatest'', ''least'', ''abs'', ''ceil'', ''ceiling'', ''floor'', ''round'', ''trunc'', ''sign'',
     ''power'', ''sqrt'', ''exp'', ''ln'', ''log'', ''width_bucket'', ''length'', ''char_length'', ''lower'',
     ''upper'', ''initcap'', ''trim'', ''ltrim'', ''rtrim'', ''btrim'', ''substring'', ''substr'', ''left'',
     ''right'', ''replace'', ''reverse'', ''concat'', ''concat_ws'', ''split_part'', ''position'', ''strpos'',
     ''regexp_replace'', ''overlay'', ''to_char'', ''to_number'', ''starts_with'', ''date_trunc'', ''date_part'',
     ''extract'', ''date_bin'', ''age'', ''make_date'', ''make_timestamp'', ''make_interval'', ''justify_days'',
     ''justify_hours'', ''justify_interval'', ''to_date'', ''to_timestamp'', ''date'', ''timezone'', ''isfinite'',
     ''cast'', ''json_build_object'', ''jsonb_build_object'', ''json_array_length'', ''jsonb_array_length'',
     ''json_extract_path_text'', ''jsonb_extract_path_text'', ''to_json'', ''to_jsonb'', ''array_length'',
     ''cardinality'', ''array_to_string'', ''string_to_array'', ''unnest'', ''generate_series'']"

text \<open>The pattern \<open>[a-z_][a-z0-9_]*\<close>.\<close>

definition lower_word :: "char \<Rightarrow> bool" where
  "lower_word c = (let n = of_char c :: nat in (97 \<le> n \<and> n \<le> 122) \<or> n = 95)"

definition digit :: "char \<Rightarrow> bool" where
  "digit c = (let n = of_char c :: nat in 48 \<le> n \<and> n \<le> 57)"

definition simple_identifier :: "string \<Rightarrow> bool" where
  "simple_identifier s \<longleftrightarrow> s \<noteq> [] \<and> lower_word (hd s) \<and> list_all (\<lambda>c. lower_word c \<or> digit c) s"

definition parse_relation_name :: "string \<Rightarrow> (string \<times> string) res" where
  "parse_relation_name name =
     (case split_on (CHR ''.'') name of
        [a, b] \<Rightarrow>
          if simple_identifier a \<and> length a \<le> PG_IDENTIFIER_MAX \<and> simple_identifier b \<and> length b \<le> PG_IDENTIFIER_MAX
          then Inr (a, b) else Inl (ValueErr ''relation'')
      | _ \<Rightarrow> Inl (ValueErr ''relation''))"

record query_policy =
  allowed_relations :: "(string \<times> string) list"
  allowed_functions :: "string list"
  max_sql_length :: int
  max_nodes :: int
  max_tokens :: int
  max_depth :: int

definition QueryPolicy :: "query_policy \<Rightarrow> query_policy res" where
  "QueryPolicy p =
     bindR (guardR (allowed_relations p \<noteq> []) (ValueErr ''allowed_relations'')) (\<lambda>_.
     bindR (eachR (\<lambda>(s, n). bindR (parse_relation_name (s @ ''.'' @ n)) (\<lambda>_. Inr ())) (allowed_relations p)) (\<lambda>_.
     bindR (eachR (\<lambda>f. guardR (simple_identifier f) (ValueErr ''allowed_functions'')) (allowed_functions p)) (\<lambda>_.
     bindR (guardR (1 \<le> max_sql_length p \<and> 1 \<le> max_nodes p \<and> 1 \<le> max_tokens p \<and> 1 \<le> max_depth p) (ValueErr ''positive'')) (\<lambda>_.
     Inr p))))"

record guarded_query =
  gq_sql :: string
  gq_relations :: "string list"

record query_limits =
  ql_tokens :: int
  ql_depth :: int
  ql_nodes :: int
  ql_tree_depth :: int
  ql_square :: int

definition limits_of :: "query_policy \<Rightarrow> query_limits" where
  "limits_of p = \<lparr>ql_tokens = max_tokens p, ql_depth = max_depth p, ql_nodes = max_nodes p,
     ql_tree_depth = TREE_LEVELS_PER_DEPTH * max_depth p, ql_square = MAX_SQUARE_BRACKETS\<rparr>"

definition for_rendering :: "query_limits \<Rightarrow> query_limits" where
  "for_rendering l = \<lparr>ql_tokens = 2 * ql_tokens l, ql_depth = ql_tree_depth l, ql_nodes = 2 * ql_nodes l,
     ql_tree_depth = ql_tree_depth l, ql_square = 2 * ql_square l\<rparr>"

text \<open>What can stop the guard: its own rejection, or what a call of the library raised.\<close>

datatype lib_failure = NodeBudget | RecursionDepth | LibFailed
datatype guard_failure = Rejected string | Escaped lib_failure

type_synonym 'a guard = "guard_failure + 'a"

definition bindG :: "'a guard \<Rightarrow> ('a \<Rightarrow> 'b guard) \<Rightarrow> 'b guard" where
  "bindG m f = (case m of Inl e \<Rightarrow> Inl e | Inr x \<Rightarrow> f x)"

definition lib :: "lib_failure + 'a \<Rightarrow> 'a guard" where
  "lib m = (case m of Inl e \<Rightarrow> Inl (Escaped e) | Inr x \<Rightarrow> Inr x)"

fun eachG :: "('a \<Rightarrow> unit guard) \<Rightarrow> 'a list \<Rightarrow> unit guard" where
  "eachG f [] = Inr ()"
| "eachG f (x # xs) = bindG (f x) (\<lambda>_. eachG f xs)"

definition reject :: "string \<Rightarrow> 'a guard" where "reject code = Inl (Rejected code)"
definition too_complex :: "'a guard" where "too_complex = reject ''too_complex''"

subsection \<open>The scan of the tokens\<close>

datatype token =
    LParen | RParen | LBracket | RBracket | LBrace | RBrace | CaseWord | EndWord | AsWord | Dot | OtherToken nat

fun closes :: "token \<Rightarrow> token option" where
  "closes LParen = Some RParen"
| "closes LBracket = Some RBracket"
| "closes LBrace = Some RBrace"
| "closes CaseWord = Some EndWord"
| "closes _ = None"

definition opener :: "token \<Rightarrow> bool" where "opener t \<longleftrightarrow> t \<in> {LParen, LBracket, LBrace}"
definition level_closer :: "token \<Rightarrow> bool" where "level_closer t \<longleftrightarrow> t \<in> {RParen, RBracket, RBrace, EndWord}"

text \<open>An END after AS or a dot is a label.\<close>

definition label_end :: "token \<Rightarrow> token option \<Rightarrow> bool" where
  "label_end t previous \<longleftrightarrow> t = EndWord \<and> previous \<in> {Some AsWord, Some Dot}"

record scan =
  open_levels :: "(token \<times> bool \<times> int) list"
  type_nesting :: nat
  closed_depth :: int
  reads :: int
  square_brackets :: int
  previous_token :: "token option"

definition start_scan :: scan where
  "start_scan = \<lparr>open_levels = [], type_nesting = 0, closed_depth = 0, reads = 0, square_brackets = 0, previous_token = None\<rparr>"

definition by_type_bracket :: "(token \<Rightarrow> bool) \<Rightarrow> token \<Rightarrow> token option \<Rightarrow> bool" where
  "by_type_bracket types t previous \<longleftrightarrow> opener t \<and> (\<exists>p \<in> set_option previous. types p)"

definition scan_level :: "(token \<Rightarrow> bool) \<Rightarrow> query_limits \<Rightarrow> token \<Rightarrow> scan \<Rightarrow> scan guard" where
  "scan_level types l t s =
     (if closes t \<noteq> None
      then let by_type = by_type_bracket types t (previous_token s);
               above = (case open_levels s of [] \<Rightarrow> 0 | (_, _, d) # _ \<Rightarrow> d) + 1;
               depth = (if t = LBracket \<and> previous_token s = Some RBracket then closed_depth s + 1 else above);
               squares = square_brackets s + (if t = LBracket then 1 else 0);
               nesting = type_nesting s + (if by_type then 1 else 0)
           in if ql_depth l < depth \<or> MAX_TYPE_NESTING < nesting \<or> ql_square l < squares then too_complex
              else Inr (s\<lparr>open_levels := (t, by_type, depth) # open_levels s, type_nesting := nesting, square_brackets := squares\<rparr>)
      else if level_closer t \<and> \<not> label_end t (previous_token s)
      then (case open_levels s of
              (o', by_type, depth) # rest \<Rightarrow>
                if closes o' = Some t
                then Inr (s\<lparr>open_levels := rest, closed_depth := depth, type_nesting := type_nesting s - (if by_type then 1 else 0)\<rparr>)
                else reject ''unparseable''
            | [] \<Rightarrow> reject ''unparseable'')
      else Inr s)"

definition scan_token :: "(token \<Rightarrow> bool) \<Rightarrow> query_limits \<Rightarrow> token \<Rightarrow> scan \<Rightarrow> scan guard" where
  "scan_token types l t s =
     bindG (scan_level types l t s) (\<lambda>s1.
       let n = reads s1 + 2 ^ type_nesting s1 in
       if ql_tokens l < n then too_complex else Inr (s1\<lparr>reads := n, previous_token := Some t\<rparr>))"

fun scan_tokens :: "(token \<Rightarrow> bool) \<Rightarrow> query_limits \<Rightarrow> token list \<Rightarrow> scan \<Rightarrow> scan guard" where
  "scan_tokens types l [] s = Inr s"
| "scan_tokens types l (t # ts) s = bindG (scan_token types l t s) (scan_tokens types l ts)"

definition check_tokens :: "(token \<Rightarrow> bool) \<Rightarrow> query_limits \<Rightarrow> token list \<Rightarrow> unit guard" where
  "check_tokens types l ts =
     (if ql_tokens l < int (length ts) then too_complex
      else bindG (scan_tokens types l ts start_scan) (\<lambda>_. Inr ()))"

text \<open>
  The brackets still open after some tokens, told without limits: the opening tokens, innermost first, with whether a type
  keyword opened them; nothing when a closing token does not close the innermost one.
\<close>

definition bracket_step :: "(token \<Rightarrow> bool) \<Rightarrow> token \<Rightarrow> (token \<times> bool) list \<times> token option \<Rightarrow> ((token \<times> bool) list \<times> token option) option" where
  "bracket_step types t x =
     (case x of (open_now, previous) \<Rightarrow>
        if closes t \<noteq> None then Some ((t, by_type_bracket types t previous) # open_now, Some t)
        else if level_closer t \<and> \<not> label_end t previous
        then (case open_now of (o', _) # rest \<Rightarrow> if closes o' = Some t then Some (rest, Some t) else None | [] \<Rightarrow> None)
        else Some (open_now, Some t))"

fun brackets :: "(token \<Rightarrow> bool) \<Rightarrow> token list \<Rightarrow> (token \<times> bool) list \<times> token option \<Rightarrow> ((token \<times> bool) list \<times> token option) option" where
  "brackets types [] x = Some x"
| "brackets types (t # ts) x = (case bracket_step types t x of None \<Rightarrow> None | Some y \<Rightarrow> brackets types ts y)"

definition open_after :: "(token \<Rightarrow> bool) \<Rightarrow> token list \<Rightarrow> (token \<times> bool) list option" where
  "open_after types ts = map_option fst (brackets types ts ([], None))"

definition type_levels :: "(token \<times> bool) list \<Rightarrow> nat" where
  "type_levels open_now = length (filter snd open_now)"

text \<open>The work of the parser: every token is read once per attempt at the type brackets around it.\<close>

definition parser_reads :: "(token \<Rightarrow> bool) \<Rightarrow> token list \<Rightarrow> int" where
  "parser_reads types ts =
     (\<Sum>i < length ts. 2 ^ (case open_after types (take (Suc i) ts) of Some o' \<Rightarrow> type_levels o' | None \<Rightarrow> 0))"

lemma bindG_eq_Inr: "bindG m f = Inr y \<longleftrightarrow> (\<exists>x. m = Inr x \<and> f x = Inr y)"
  by (cases m) (auto simp: bindG_def)

lemma brackets_append: "brackets types (ts @ us) x = (case brackets types ts x of None \<Rightarrow> None | Some y \<Rightarrow> brackets types us y)"
  by (induction ts arbitrary: x) (auto split: option.splits)

definition scan_ok :: "query_limits \<Rightarrow> scan \<Rightarrow> bool" where
  "scan_ok l s \<longleftrightarrow> type_nesting s = type_levels (map (\<lambda>(t, b, d). (t, b)) (open_levels s)) \<and> type_nesting s \<le> MAX_TYPE_NESTING
     \<and> square_brackets s \<le> max 0 (ql_square l) \<and> (\<forall>(t, b, d) \<in> set (open_levels s). d \<le> ql_depth l)
     \<and> sorted_wrt (\<lambda>x y. snd (snd y) < snd (snd x)) (open_levels s) \<and> (\<forall>(t, b, d) \<in> set (open_levels s). 1 \<le> d)
     \<and> (previous_token s = Some RBracket \<longrightarrow> (\<forall>(t, b, d) \<in> set (open_levels s). d < closed_depth s) \<and> 1 \<le> closed_depth s)"

lemma type_levels_map: "type_levels (map (\<lambda>(t, b, d). (t, b)) xs) = length (filter (\<lambda>(t, b, d). b) xs)"
  by (induction xs) (auto simp: type_levels_def)

lemma scan_level_ok:
  assumes "scan_level types l t s = Inr s1" and "scan_ok l s"
  shows "scan_ok l (s1\<lparr>previous_token := Some t\<rparr>)
    \<and> bracket_step types t (map (\<lambda>(t, b, d). (t, b)) (open_levels s), previous_token s)
        = Some (map (\<lambda>(t, b, d). (t, b)) (open_levels s1), Some t)
    \<and> reads s1 = reads s \<and> square_brackets s1 = square_brackets s + (if t = LBracket then 1 else 0)"
proof (cases "closes t = None")
  case False
  let ?b = "by_type_bracket types t (previous_token s)"
  let ?d = "if t = LBracket \<and> previous_token s = Some RBracket then closed_depth s + 1
    else (case open_levels s of [] \<Rightarrow> 0 | (_, _, d) # _ \<Rightarrow> d) + 1"
  have s1: "s1 = s\<lparr>open_levels := (t, ?b, ?d) # open_levels s, type_nesting := type_nesting s + (if ?b then 1 else 0),
      square_brackets := square_brackets s + (if t = LBracket then 1 else 0)\<rparr>"
    and lim: "?d \<le> ql_depth l" "type_nesting s + (if ?b then 1 else 0) \<le> MAX_TYPE_NESTING"
      "square_brackets s + (if t = LBracket then 1 else 0) \<le> ql_square l"
    using assms(1) False by (auto simp: scan_level_def Let_def too_complex_def reject_def split: if_splits)
  have above: "d < ?d" if "(t', b, d) \<in> set (open_levels s)" for t' b d
    using that assms(2) unfolding scan_ok_def by (cases "open_levels s") (auto split: if_splits)
  have one: "1 \<le> ?d" using assms(2) unfolding scan_ok_def by (cases "open_levels s") (auto split: if_splits)
  have "t \<noteq> RBracket" using False by auto
  then show ?thesis
    using assms(2) lim above one False unfolding s1 scan_ok_def type_levels_map
    by (auto simp: bracket_step_def)
next
  case True
  show ?thesis
  proof (cases "level_closer t \<and> \<not> label_end t (previous_token s)")
    case False
    then have "s1 = s" "t \<noteq> RBracket" using assms(1) True by (auto simp: scan_level_def level_closer_def label_end_def)
    then show ?thesis using assms(2) False True unfolding scan_ok_def by (auto simp: bracket_step_def)
  next
    case closer: True
    obtain o' b d rest where o: "open_levels s = (o', b, d) # rest" "closes o' = Some t"
        "s1 = s\<lparr>open_levels := rest, closed_depth := d, type_nesting := type_nesting s - (if b then 1 else 0)\<rparr>"
      using assms(1) True closer by (auto simp: scan_level_def reject_def split: list.splits if_splits)
    have "t \<noteq> LBracket" using True by auto
    then show ?thesis using assms(2) True closer unfolding scan_ok_def o(3) type_levels_map
      by (cases b) (auto simp: o(1,2) bracket_step_def)
  qed
qed

lemma scan_tokens_ok:
  assumes "scan_tokens types l ts start_scan = Inr s"
  shows "scan_ok l s \<and> brackets types ts ([], None) = Some (map (\<lambda>(t, b, d). (t, b)) (open_levels s), previous_token s)
    \<and> reads s = parser_reads types ts \<and> (ts \<noteq> [] \<longrightarrow> reads s \<le> ql_tokens l)
    \<and> square_brackets s = int (count_list ts LBracket)"
  using assms
proof (induction ts arbitrary: s rule: rev_induct)
  case Nil
  then have "s = start_scan" by simp
  then show ?case by (simp add: start_scan_def scan_ok_def type_levels_def parser_reads_def)
next
  case (snoc t ts)
  have app: "scan_tokens types l (us @ vs) x = bindG (scan_tokens types l us x) (scan_tokens types l vs)" for us vs x
    by (induction us arbitrary: x) (auto simp: bindG_def split: sum.splits)
  obtain s0 where s0: "scan_tokens types l ts start_scan = Inr s0" "scan_token types l t s0 = Inr s"
    using snoc.prems unfolding app by (auto simp: bindG_eq_Inr)
  obtain s1 where s1: "scan_level types l t s0 = Inr s1" "s = s1\<lparr>reads := reads s1 + 2 ^ type_nesting s1, previous_token := Some t\<rparr>"
      "reads s1 + 2 ^ type_nesting s1 \<le> ql_tokens l"
    using s0(2) by (auto simp: scan_token_def bindG_eq_Inr Let_def too_complex_def reject_def split: if_splits)
  note ih = snoc.IH [OF s0(1)]
  note st = scan_level_ok [OF s1(1) conjunct1 [OF ih]]
  have br: "brackets types (ts @ [t]) ([], None) = Some (map (\<lambda>(t, b, d). (t, b)) (open_levels s1), Some t)"
    unfolding brackets_append using ih st by simp
  have "parser_reads types (ts @ [t]) = parser_reads types ts + 2 ^ type_nesting s1"
  proof -
    have "(case open_after types (take (Suc (length ts)) (ts @ [t])) of Some o' \<Rightarrow> type_levels o' | None \<Rightarrow> 0) = type_nesting s1"
      using br st by (simp add: open_after_def scan_ok_def)
    moreover have "take (Suc i) (ts @ [t]) = take (Suc i) ts" if "i < length ts" for i using that by simp
    ultimately show ?thesis by (simp add: parser_reads_def)
  qed
  then show ?case using ih st br s1(2,3) unfolding scan_ok_def by (auto split: if_splits)
qed

text \<open>
  C32 What reaches the parser is bounded. Accepted tokens are well nested, an END that closes no CASE being a label; after every
  prefix at most the allowed number of levels is open, at most four of them by a type keyword; the reads the parser can make,
  doubled for every such level around a token, stay within the limit, and so do the square brackets.
\<close>

theorem accepted_tokens_bounded:
  assumes "check_tokens types l (ts @ us) = Inr ()"
  shows "\<exists>open_now. open_after types ts = Some open_now \<and> int (length open_now) \<le> max 0 (ql_depth l)
    \<and> type_levels open_now \<le> MAX_TYPE_NESTING \<and> parser_reads types ts \<le> max 0 (ql_tokens l)
    \<and> int (count_list ts LBracket) \<le> max 0 (ql_square l) \<and> int (length (ts @ us)) \<le> ql_tokens l"
proof -
  have app: "scan_tokens types l (us @ vs) x = bindG (scan_tokens types l us x) (scan_tokens types l vs)" for us vs x
    by (induction us arbitrary: x) (auto simp: bindG_def split: sum.splits)
  obtain s where s: "scan_tokens types l ts start_scan = Inr s" and len: "int (length (ts @ us)) \<le> ql_tokens l"
    using assms unfolding check_tokens_def app
    by (auto simp: bindG_eq_Inr too_complex_def reject_def split: if_splits)
  note ok = scan_tokens_ok [OF s]
  have "int (length (open_levels s)) \<le> max 0 (ql_depth l)"
  proof -
    have "int (length xs) \<le> (case xs of [] \<Rightarrow> 0 | (_, _, d) # _ \<Rightarrow> d)"
      if "sorted_wrt (\<lambda>x y. snd (snd y) < snd (snd x)) xs" "\<forall>(t, b, d) \<in> set xs. 1 \<le> d" for xs :: "(token \<times> bool \<times> int) list"
      using that
    proof (induction xs)
      case (Cons x xs)
      then show ?case by (cases xs) (auto split: prod.splits)
    qed simp
    from this [of "open_levels s"] ok show ?thesis
      unfolding scan_ok_def by (cases "open_levels s") (auto split: prod.splits)
  qed
  then show ?thesis
    using ok len unfolding scan_ok_def
    by (cases "ts = []") (auto simp: open_after_def parser_reads_def)
qed

subsection \<open>Syntax trees\<close>

datatype 'k tree = Node (label: 'k) (kids: "'k tree list")

datatype table_this = FunctionThis | IdentifierThis | OtherThis

record sql_table =
  tb_id :: nat
  tb_this :: table_this
  tb_catalog :: string
  tb_db :: string
  tb_name :: string

text \<open>
  What the library offers.  A failure of the parser tells whether its node budget or the recursion ended it.  The scopes of a
  statement carry their tables and the names of the CTEs visible there; the renderer takes the schemas set on unqualified
  tables and gives the tree it preprocessed, every function and type node it wrote through \<open>sql()\<close>, in order, with what it wrote
  for it, and the text or its failure.
\<close>

record 'k sqlglot =
  gl_tokenize :: "string \<Rightarrow> lib_failure + token list"
  gl_type_token :: "token \<Rightarrow> bool"
  gl_parse :: "int \<Rightarrow> token list \<Rightarrow> string \<Rightarrow> lib_failure + 'k tree option list"
  gl_normalize :: "'k tree \<Rightarrow> lib_failure + 'k tree"
  gl_scopes :: "'k tree \<Rightarrow> lib_failure + (sql_table list \<times> string list) list"
  gl_tables :: "'k tree \<Rightarrow> sql_table list"
  gl_render :: "'k tree \<Rightarrow> (nat \<times> string) list \<Rightarrow> 'k tree option \<times> ('k tree \<times> string) list \<times> (lib_failure + string)"
  gl_this :: "'k tree \<Rightarrow> 'k tree option"
  gl_id :: "'k \<Rightarrow> nat"
  gl_type :: "'k \<Rightarrow> nat"
  is_select :: "'k \<Rightarrow> bool"
  is_write :: "'k \<Rightarrow> bool"
  is_wrapper :: "'k \<Rightarrow> bool"
  is_parameter :: "'k \<Rightarrow> bool"
  is_odd_literal :: "'k \<Rightarrow> bool"
  is_operator :: "'k \<Rightarrow> bool"
  is_data_type :: "'k \<Rightarrow> bool"
  is_user_type :: "'k \<Rightarrow> bool"
  is_func :: "'k \<Rightarrow> bool"
  is_dot :: "'k \<Rightarrow> bool"
  is_qualified_table :: "'k \<Rightarrow> bool"
  is_connector :: "'k \<Rightarrow> bool"
  is_binary :: "'k \<Rightarrow> bool"
  is_syntax :: "'k \<Rightarrow> bool"
  anonymous_name :: "'k \<Rightarrow> string option"
  is_anonymous :: "'k \<Rightarrow> bool"
  is_case_branch :: "'k \<Rightarrow> bool"

text \<open>\<open>walk()\<close> is breadth first; each node comes with its parent.\<close>

fun tree_size :: "'k tree \<Rightarrow> nat" where
  "tree_size (Node k ts) = Suc (sum_list (map tree_size ts))"

definition queue_size :: "('a \<times> 'k tree) list \<Rightarrow> nat" where
  "queue_size q = sum_list (map (\<lambda>(a, t). tree_size t) q)"

lemma queue_size_kids: "queue_size (map (\<lambda>u. (f u, u)) ts) = sum_list (map tree_size ts)"
  by (simp add: queue_size_def comp_def)

function walk_from :: "('k option \<times> 'k tree) list \<Rightarrow> ('k option \<times> 'k tree) list" where
  "walk_from [] = []"
| "walk_from ((p, Node k ts) # q) = (p, Node k ts) # walk_from (q @ map (\<lambda>u. (Some k, u)) ts)"
  by pat_completeness auto
termination
  by (relation "measure queue_size") (simp_all add: queue_size_def comp_def)

definition walk :: "'k tree \<Rightarrow> ('k option \<times> 'k tree) list" where
  "walk t = walk_from [(None, t)]"

definition check_size :: "query_limits \<Rightarrow> 'k tree \<Rightarrow> unit guard" where
  "check_size l t = (if ql_nodes l < int (length (walk t)) then too_complex else Inr ())"

definition continues_chain :: "'k sqlglot \<Rightarrow> 'k \<Rightarrow> 'k \<Rightarrow> bool" where
  "continues_chain g parent child =
     (if is_connector g parent then is_connector g child
      else is_binary g parent \<and> gl_type g child = gl_type g parent)"

text \<open>The stack of nodes with their depth; the last child pushed is the first popped.\<close>

function depth_loop :: "'k sqlglot \<Rightarrow> int \<Rightarrow> (int \<times> 'k tree) list \<Rightarrow> unit guard" where
  "depth_loop g cap [] = Inr ()"
| "depth_loop g cap ((d, Node k ts) # stack) =
     (if cap < d then too_complex
      else depth_loop g cap (rev (map (\<lambda>u. (if continues_chain g k (label u) then d else d + 1, u)) ts) @ stack))"
  by pat_completeness auto
termination
  by (relation "measure (\<lambda>(g, cap, stack). queue_size stack)")
    (simp_all add: queue_size_def comp_def rev_map [symmetric])

definition check_tree_depth :: "'k sqlglot \<Rightarrow> query_limits \<Rightarrow> 'k tree \<Rightarrow> unit guard" where
  "check_tree_depth g l t = depth_loop g (ql_tree_depth l) [(1, t)]"

text \<open>The height of a tree in which a chain counts once.\<close>

fun height :: "'k sqlglot \<Rightarrow> 'k tree \<Rightarrow> int" where
  "height g (Node k ts) = foldr max (map (\<lambda>u. height g u + (if continues_chain g k (label u) then 0 else 1)) ts) 1"

lemma foldr_max_le: "foldr max xs (a :: int) \<le> b \<longleftrightarrow> a \<le> b \<and> (\<forall>x \<in> set xs. x \<le> b)"
  by (induction xs) auto

lemma height_pos: "1 \<le> height g t"
proof (cases t)
  case (Node k ts)
  have "a \<le> foldr max xs a" for xs and a :: int by (induction xs) auto
  then show ?thesis using Node by simp
qed

lemma depth_loop_iff: "depth_loop g cap stack = Inr () \<longleftrightarrow> (\<forall>(d, t) \<in> set stack. d + height g t - 1 \<le> cap)"
proof (induction g cap stack rule: depth_loop.induct)
  case (2 g cap d k ts stack)
  show ?case
  proof (cases "cap < d")
    case True
    then have "\<not> d + height g (Node k ts) - 1 \<le> cap" using height_pos [of g "Node k ts"] by linarith
    then show ?thesis using True by (simp add: too_complex_def reject_def del: height.simps)
  next
    case False
    have "d + height g (Node k ts) - 1 \<le> cap \<longleftrightarrow>
        (\<forall>u \<in> set ts. (if continues_chain g k (label u) then d else d + 1) + height g u - 1 \<le> cap)"
    proof -
      have "d + height g (Node k ts) - 1 \<le> cap \<longleftrightarrow> height g (Node k ts) \<le> cap - d + 1" by linarith
      also have "\<dots> \<longleftrightarrow> (\<forall>u \<in> set ts. height g u + (if continues_chain g k (label u) then 0 else 1) \<le> cap - d + 1)"
        using False by (simp add: foldr_max_le)
      also have "\<dots> \<longleftrightarrow> (\<forall>u \<in> set ts. (if continues_chain g k (label u) then d else d + 1) + height g u - 1 \<le> cap)"
        by (intro ball_cong refl) auto
      finally show ?thesis .
    qed
    then show ?thesis using False 2 by (auto simp del: height.simps)
  qed
qed simp


subsection \<open>The checks of a tree\<close>

definition check_node :: "'k sqlglot \<Rightarrow> 'k option \<times> 'k tree \<Rightarrow> unit guard" where
  "check_node g pu =
     (case pu of (parent, u) \<Rightarrow>
        let k = label u in
        if is_write g k then reject ''forbidden_clause''
        else if is_wrapper g k \<and> \<not> (\<exists>v \<in> set_option (gl_this g u). is_select g (label v)) then reject ''forbidden_clause''
        else if is_parameter g k then reject ''parameter_not_allowed''
        else if is_odd_literal g k then reject ''unsupported_literal''
        else if is_operator g k then reject ''function_not_allowed''
        else if is_data_type g k \<and> is_user_type g k then reject ''type_not_allowed''
        else if is_func g k \<and> (\<exists>q \<in> set_option parent. is_dot g q \<or> is_qualified_table g q) then reject ''function_not_allowed''
        else Inr ())"

definition check_nodes :: "'k sqlglot \<Rightarrow> 'k tree \<Rightarrow> unit guard" where
  "check_nodes g t = eachG (check_node g) (walk t)"

definition upper_text :: "string \<Rightarrow> string" where "upper_text s = map upper_char s"
definition lower_text :: "string \<Rightarrow> string" where "lower_text s = map lower_char s"

definition check_type :: "string \<Rightarrow> unit guard" where
  "check_type rendered = (if starts_with (upper_text rendered) ''REG'' then reject ''type_not_allowed'' else Inr ())"

text \<open>The pattern \<open>\s*([A-Za-z_][A-Za-z0-9_]*)\s*\(\<close> at the start of a text.\<close>

definition word_char :: "char \<Rightarrow> bool" where
  "word_char c \<longleftrightarrow> lower_word (lower_char c) \<or> digit c"

definition call_name :: "string \<Rightarrow> string option" where
  "call_name s =
     (let a = lstrip s; name = takeWhile word_char a; rest = lstrip (dropWhile word_char a) in
      if name \<noteq> [] \<and> \<not> digit (hd name) \<and> rest \<noteq> [] \<and> hd rest = CHR ''('' then Some name else None)"

definition ARRAY_QUANTIFIER_NAMES :: "string list" where "ARRAY_QUANTIFIER_NAMES = [''ALL'', ''SOME'']"

definition check_function :: "'k sqlglot \<Rightarrow> query_policy \<Rightarrow> 'k \<Rightarrow> string \<Rightarrow> unit guard" where
  "check_function g policy k rendered =
     (if is_syntax g k then Inr ()
      else if \<exists>n \<in> set_option (anonymous_name g k). upper_text n \<in> set ARRAY_QUANTIFIER_NAMES then Inr ()
      else case call_name rendered of
             None \<Rightarrow> if is_anonymous g k then reject ''function_not_allowed'' else Inr ()
           | Some n \<Rightarrow> if lower_text n \<in> set (allowed_functions policy) then Inr () else reject ''function_not_allowed'')"

definition check_written :: "'k sqlglot \<Rightarrow> query_policy \<Rightarrow> 'k tree \<times> string \<Rightarrow> unit guard" where
  "check_written g policy ur =
     (case ur of (u, rendered) \<Rightarrow>
        if is_data_type g (label u) then check_type rendered
        else if is_func g (label u) then check_function g policy (label u) rendered else Inr ())"

definition not_written :: "'k sqlglot \<Rightarrow> nat list \<Rightarrow> 'k tree \<Rightarrow> bool" where
  "not_written g checked u \<longleftrightarrow>
     (let k = label u in (is_func g k \<or> is_data_type g k) \<and> gl_id g k \<notin> set checked
        \<and> \<not> (is_connector g k \<or> is_binary g k) \<and> \<not> is_case_branch g k)"

definition render :: "'k sqlglot \<Rightarrow> query_policy \<Rightarrow> 'k tree \<Rightarrow> (nat \<times> string) list \<Rightarrow> string guard" where
  "render g policy t schemas =
     (case gl_render g t schemas of (tree, written, out) \<Rightarrow>
        bindG (eachG (check_written g policy) written) (\<lambda>_.
        bindG (lib out) (\<lambda>rendered.
        case tree of
          None \<Rightarrow> reject ''unparseable''
        | Some u \<Rightarrow>
            let checked = map (\<lambda>(v, _). gl_id g (label v)) (filter (\<lambda>(v, _). is_func g (label v) \<or> is_data_type g (label v)) written) in
            if list_ex (\<lambda>(_, v). not_written g checked v) (walk u) then reject ''unparseable'' else Inr rendered)))"

text \<open>The allowlisted name of a relation, and the schema it sets on an unqualified one.\<close>

definition resolve_relation :: "query_policy \<Rightarrow> sql_table \<Rightarrow> (string \<times> string option) guard" where
  "resolve_relation policy tb =
     (if tb_catalog tb \<noteq> [] then reject ''relation_not_allowed''
      else if tb_db tb \<noteq> []
      then (if (tb_db tb, tb_name tb) \<in> set (allowed_relations policy) then Inr (tb_db tb @ ''.'' @ tb_name tb, None)
            else reject ''relation_not_allowed'')
      else (case sort (remdups (map fst (filter (\<lambda>(s, n). n = tb_name tb) (allowed_relations policy)))) of
              [] \<Rightarrow> reject ''relation_not_allowed''
            | [s] \<Rightarrow> Inr (s @ ''.'' @ tb_name tb, Some s)
            | _ \<Rightarrow> reject ''ambiguous_relation''))"

record relation_walk =
  rw_checked :: "nat list"
  rw_relations :: "string list"
  rw_schemas :: "(nat \<times> string) list"

definition check_table :: "query_policy \<Rightarrow> string list \<Rightarrow> relation_walk \<Rightarrow> sql_table \<Rightarrow> relation_walk guard" where
  "check_table policy ctes w tb =
     (if tb_id tb \<in> set (rw_checked w) then Inr w
      else let w1 = w\<lparr>rw_checked := tb_id tb # rw_checked w\<rparr> in
           case tb_this tb of
             FunctionThis \<Rightarrow> if tb_db tb \<noteq> [] \<or> tb_catalog tb \<noteq> [] then reject ''function_not_allowed'' else Inr w1
           | OtherThis \<Rightarrow> reject ''unparseable''
           | IdentifierThis \<Rightarrow>
               if tb_db tb = [] \<and> tb_catalog tb = [] \<and> tb_name tb \<in> set ctes then Inr w1
               else bindG (resolve_relation policy tb) (\<lambda>(name, schema).
                      Inr (w1\<lparr>rw_relations := rw_relations w @ [name],
                              rw_schemas := rw_schemas w @ (case schema of None \<Rightarrow> [] | Some s \<Rightarrow> [(tb_id tb, s)])\<rparr>)))"

fun check_tables :: "query_policy \<Rightarrow> (sql_table \<times> string list) list \<Rightarrow> relation_walk \<Rightarrow> relation_walk guard" where
  "check_tables policy [] w = Inr w"
| "check_tables policy ((tb, ctes) # rest) w = bindG (check_table policy ctes w tb) (check_tables policy rest)"

definition tables_of_scopes :: "(sql_table list \<times> string list) list \<Rightarrow> (sql_table \<times> string list) list" where
  "tables_of_scopes scopes = concat (map (\<lambda>(ts, ctes). map (\<lambda>tb. (tb, ctes)) ts) scopes)"

definition check_relations :: "'k sqlglot \<Rightarrow> query_policy \<Rightarrow> 'k tree \<Rightarrow> relation_walk guard" where
  "check_relations g policy t =
     (case gl_scopes g t of
        Inl _ \<Rightarrow> reject ''unparseable''
      | Inr scopes \<Rightarrow>
          bindG (check_tables policy (tables_of_scopes scopes) \<lparr>rw_checked = [], rw_relations = [], rw_schemas = []\<rparr>) (\<lambda>w.
          if list_ex (\<lambda>tb. tb_this tb = IdentifierThis \<and> tb_id tb \<notin> set (rw_checked w)) (gl_tables g t)
          then reject ''unparseable'' else Inr w))"

subsection \<open>The guard\<close>

definition parse_single :: "'k sqlglot \<Rightarrow> query_limits \<Rightarrow> token list \<Rightarrow> string \<Rightarrow> 'k tree guard" where
  "parse_single g l tokens sql =
     (case gl_parse g (ql_nodes l) tokens sql of
        Inl NodeBudget \<Rightarrow> too_complex
      | Inl RecursionDepth \<Rightarrow> too_complex
      | Inl LibFailed \<Rightarrow> reject ''unparseable''
      | Inr parsed \<Rightarrow>
          (case concat (map (\<lambda>x. case x of None \<Rightarrow> [] | Some t \<Rightarrow> [t]) parsed) of
             [] \<Rightarrow> reject ''invalid_input''
           | [t] \<Rightarrow> Inr t
           | _ \<Rightarrow> reject ''multiple_statements''))"

definition validate :: "'k sqlglot \<Rightarrow> query_policy \<Rightarrow> query_limits \<Rightarrow> string \<Rightarrow> ('k tree \<times> relation_walk) guard" where
  "validate g policy l sql =
     bindG (case gl_tokenize g sql of Inl _ \<Rightarrow> reject ''unparseable'' | Inr ts \<Rightarrow> Inr ts) (\<lambda>tokens.
     bindG (check_tokens (gl_type_token g) l tokens) (\<lambda>_.
     bindG (parse_single g l tokens sql) (\<lambda>parsed.
     bindG (check_size l parsed) (\<lambda>_.
     bindG (check_tree_depth g l parsed) (\<lambda>_.
     bindG (lib (gl_normalize g parsed)) (\<lambda>t.
     if \<not> is_select g (label t) then reject ''not_select''
     else bindG (check_nodes g t) (\<lambda>_. bindG (check_relations g policy t) (\<lambda>w. Inr (t, w)))))))))"

definition wrapped :: "string \<Rightarrow> int \<Rightarrow> string" where
  "wrapped rendered n = ''SELECT * FROM ('' @ rendered @ '') AS '' @ [CHR 0x22] @ RESULT_ALIAS @ [CHR 0x22] @ '' LIMIT '' @ int_str (n + 1)"

definition as_unparseable :: "'a guard \<Rightarrow> 'a guard" where
  "as_unparseable m = (case m of Inl (Rejected _) \<Rightarrow> reject ''unparseable'' | _ \<Rightarrow> m)"

text \<open>The rendering is what executes: it has to pass every check itself, and to render back.\<close>

definition validate_rendering :: "'k sqlglot \<Rightarrow> query_policy \<Rightarrow> query_limits \<Rightarrow> string \<Rightarrow> (relation_walk \<times> string) guard" where
  "validate_rendering g policy l rendered =
     as_unparseable
       (bindG (validate g policy (for_rendering l) rendered) (\<lambda>(t', w').
        bindG (render g policy t' (rw_schemas w')) (\<lambda>again. Inr (w', again))))"

definition guard_inner :: "'k sqlglot \<Rightarrow> query_policy \<Rightarrow> string \<Rightarrow> int \<Rightarrow> guarded_query guard" where
  "guard_inner g policy sql n =
     (let l = limits_of policy in
      bindG (validate g policy l sql) (\<lambda>(t, w).
      bindG (render g policy t (rw_schemas w)) (\<lambda>rendered.
      bindG (validate_rendering g policy l rendered) (\<lambda>(w', again).
      if again \<noteq> rendered then reject ''unparseable''
      else Inr \<lparr>gq_sql = wrapped rendered n, gq_relations = sort (remdups (rw_relations w'))\<rparr>))))"

datatype guard_error = InvalidRowLimit | QueryRejected string

definition guard_query :: "'k sqlglot \<Rightarrow> pyval \<Rightarrow> query_policy \<Rightarrow> int \<Rightarrow> guard_error + guarded_query" where
  "guard_query g sql policy n =
     (if n < 1 then Inl InvalidRowLimit
      else case sql of
             PStr s \<Rightarrow>
               if strip s = [] then Inl (QueryRejected ''invalid_input'')
               else if max_sql_length policy < int (length s) then Inl (QueryRejected ''too_long'')
               else (case guard_inner g policy s n of
                       Inr q \<Rightarrow> Inr q
                     | Inl (Rejected code) \<Rightarrow> Inl (QueryRejected code)
                     | Inl (Escaped RecursionDepth) \<Rightarrow> Inl (QueryRejected ''too_complex'')
                     | Inl (Escaped _) \<Rightarrow> Inl (QueryRejected ''unparseable''))
           | _ \<Rightarrow> Inl (QueryRejected ''invalid_input''))"

subsection \<open>What an accepted query is\<close>

fun subtrees :: "'k tree \<Rightarrow> 'k tree list" where
  "subtrees (Node k ts) = Node k ts # concat (map subtrees ts)"

lemma walk_from_set: "set (map snd (walk_from q)) = (\<Union>u \<in> snd ` set q. set (subtrees u))"
proof (induction q rule: walk_from.induct)
  case (2 p k ts q)
  have "(\<Union>u \<in> snd ` set (map (\<lambda>u. (Some k, u)) ts). set (subtrees u)) = (\<Union>u \<in> set ts. set (subtrees u))" by force
  then show ?case using 2 by (auto simp: image_Un UN_Un)
qed simp

lemma walk_set: "set (map snd (walk t)) = set (subtrees t)"
  using walk_from_set [of "[(None, t)]"] by (simp add: walk_def)

lemma eachG_Inr: "eachG f xs = Inr () \<longleftrightarrow> (\<forall>x \<in> set xs. f x = Inr ())"
  by (induction xs) (auto simp: bindG_eq_Inr)

lemma Inr_unit: "(m :: unit guard) = Inr u \<longleftrightarrow> m = Inr ()" by (cases u) simp

lemma reject_Inr [simp]: "reject c \<noteq> Inr x" "too_complex \<noteq> Inr x"
  by (simp_all add: reject_def too_complex_def)

lemma lib_Inr: "lib m = Inr x \<longleftrightarrow> m = Inr x"
  by (cases m) (simp_all add: lib_def)

lemma bindGE: "bindG m f = Inr y \<Longrightarrow> (\<And>x. m = Inr x \<Longrightarrow> f x = Inr y \<Longrightarrow> P) \<Longrightarrow> P"
  by (auto simp: bindG_eq_Inr)

lemma bindG_pairE:
  "bindG m (\<lambda>(a, b). f a b) = Inr y \<Longrightarrow> (\<And>a b. m = Inr (a, b) \<Longrightarrow> f a b = Inr y \<Longrightarrow> P) \<Longrightarrow> P"
  by (auto simp: bindG_eq_Inr)

lemma as_unparseable_Inr: "as_unparseable m = Inr x \<longleftrightarrow> m = Inr x"
  by (auto simp: as_unparseable_def split: sum.splits guard_failure.splits)

definition table_allowed :: "query_policy \<Rightarrow> string list \<Rightarrow> sql_table \<Rightarrow> bool" where
  "table_allowed policy ctes tb \<longleftrightarrow>
     (case tb_this tb of
        FunctionThis \<Rightarrow> tb_db tb = [] \<and> tb_catalog tb = []
      | OtherThis \<Rightarrow> False
      | IdentifierThis \<Rightarrow> (tb_db tb = [] \<and> tb_catalog tb = [] \<and> tb_name tb \<in> set ctes)
          \<or> (tb_catalog tb = [] \<and> (\<exists>s. (s, tb_name tb) \<in> set (allowed_relations policy) \<and> tb_db tb \<in> {[], s})))"

definition relation_names :: "query_policy \<Rightarrow> string list" where
  "relation_names policy = sort (map (\<lambda>(s, n). s @ ''.'' @ n) (allowed_relations policy))"

lemma resolve_relation_allowed:
  assumes "resolve_relation policy tb = Inr (name, schema)"
  shows "tb_catalog tb = [] \<and> name \<in> set (relation_names policy)
    \<and> (\<exists>s. (s, tb_name tb) \<in> set (allowed_relations policy) \<and> tb_db tb \<in> {[], s})"
proof -
  let ?c = "map fst (filter (\<lambda>(s, n). n = tb_name tb) (allowed_relations policy))"
  have c: "tb_catalog tb = []" using assms by (auto simp: resolve_relation_def split: if_splits)
  show ?thesis
  proof (cases "tb_db tb = []")
    case False
    then have "(tb_db tb, tb_name tb) \<in> set (allowed_relations policy)" "name = tb_db tb @ ''.'' @ tb_name tb"
      using assms c by (auto simp: resolve_relation_def split: if_splits)
    then show ?thesis using c by (force simp: relation_names_def)
  next
    case True
    then obtain s where s: "sort (remdups ?c) = [s]" "name = s @ ''.'' @ tb_name tb"
      using assms c by (auto simp: resolve_relation_def split: list.splits)
    then have "s \<in> set ?c" by (metis list.set_intros(1) set_remdups set_sort)
    then have "(s, tb_name tb) \<in> set (allowed_relations policy)" by auto
    then show ?thesis using c True s(2) by (force simp: relation_names_def)
  qed
qed

lemma check_table_sound:
  assumes "check_table policy ctes w tb = Inr w'" and "set (rw_relations w) \<subseteq> set (relation_names policy)"
  shows "set (rw_relations w') \<subseteq> set (relation_names policy) \<and> tb_id tb \<in> set (rw_checked w')
    \<and> (\<forall>i \<in> set (rw_checked w'). i \<in> set (rw_checked w) \<or> (i = tb_id tb \<and> table_allowed policy ctes tb))"
proof (cases "tb_id tb \<in> set (rw_checked w)")
  case True
  then show ?thesis using assms by (auto simp: check_table_def)
next
  case new: False
  show ?thesis
  proof (cases "tb_this tb")
    case IdentifierThis
    show ?thesis
    proof (cases "tb_db tb = [] \<and> tb_catalog tb = [] \<and> tb_name tb \<in> set ctes")
      case True
      then show ?thesis using assms new IdentifierThis by (auto simp: check_table_def Let_def table_allowed_def)
    next
      case False
      obtain name schema where r: "resolve_relation policy tb = Inr (name, schema)"
          "w' = w\<lparr>rw_checked := tb_id tb # rw_checked w, rw_relations := rw_relations w @ [name],
              rw_schemas := rw_schemas w @ (case schema of None \<Rightarrow> [] | Some s \<Rightarrow> [(tb_id tb, s)])\<rparr>"
        using assms(1) new IdentifierThis False by (auto simp: check_table_def Let_def bindG_eq_Inr)
      then show ?thesis using resolve_relation_allowed [OF r(1)] assms(2) IdentifierThis by (auto simp: table_allowed_def)
    qed
  qed (use assms new in \<open>auto simp: check_table_def Let_def table_allowed_def split: if_splits\<close>)
qed

lemma check_tables_sound:
  assumes "check_tables policy tcs w = Inr w'" and "set (rw_relations w) \<subseteq> set (relation_names policy)"
  shows "set (rw_relations w') \<subseteq> set (relation_names policy)
    \<and> (\<forall>i \<in> set (rw_checked w'). i \<in> set (rw_checked w) \<or> (\<exists>(tb, ctes) \<in> set tcs. tb_id tb = i \<and> table_allowed policy ctes tb))"
  using assms
proof (induction policy tcs w rule: check_tables.induct)
  case (2 policy tb ctes rest w)
  obtain w1 where w1: "check_table policy ctes w tb = Inr w1" "check_tables policy rest w1 = Inr w'"
    using 2(2) by (auto simp: bindG_eq_Inr)
  note s = check_table_sound [OF w1(1) 2(3)]
  note r = 2(1) [OF w1(2) conjunct1 [OF s]]
  have "i \<in> set (rw_checked w) \<or> (\<exists>(tb', ctes') \<in> set ((tb, ctes) # rest). tb_id tb' = i \<and> table_allowed policy ctes' tb')"
    if i: "i \<in> set (rw_checked w')" for i
  proof (cases "i \<in> set (rw_checked w1)")
    case True
    then have "i \<in> set (rw_checked w) \<or> (i = tb_id tb \<and> table_allowed policy ctes tb)" using s by blast
    then show ?thesis by auto
  next
    case False
    then have "\<exists>(tb', ctes') \<in> set rest. tb_id tb' = i \<and> table_allowed policy ctes' tb'" using r i by blast
    then show ?thesis by auto
  qed
  then show ?case using r by blast
qed auto

text \<open>What the guard promises of a validated tree.\<close>

definition plain_select :: "'k sqlglot \<Rightarrow> 'k tree \<Rightarrow> bool" where
  "plain_select g t \<longleftrightarrow> is_select g (label t) \<and> (\<forall>u \<in> set (subtrees t). \<not> is_write g (label u) \<and> \<not> is_parameter g (label u)
     \<and> \<not> is_odd_literal g (label u) \<and> \<not> is_operator g (label u) \<and> \<not> (is_data_type g (label u) \<and> is_user_type g (label u))
     \<and> (is_wrapper g (label u) \<longrightarrow> (\<exists>v. gl_this g u = Some v \<and> is_select g (label v))))"

lemma check_nodes_sound:
  assumes "check_nodes g t = Inr ()" and "is_select g (label t)"
  shows "plain_select g t"
proof -
  have "\<not> is_write g (label u) \<and> \<not> is_parameter g (label u)
     \<and> \<not> is_odd_literal g (label u) \<and> \<not> is_operator g (label u) \<and> \<not> (is_data_type g (label u) \<and> is_user_type g (label u))
     \<and> (is_wrapper g (label u) \<longrightarrow> (\<exists>v. gl_this g u = Some v \<and> is_select g (label v)))" if "u \<in> set (subtrees t)" for u
  proof -
    have "u \<in> set (map snd (walk t))" using that by (simp only: walk_set)
    then obtain p where "(p, u) \<in> set (walk t)" by force
    then have "check_node g (p, u) = Inr ()" using assms(1) by (simp add: check_nodes_def eachG_Inr)
    then show ?thesis by (auto simp: check_node_def Let_def split: if_splits)
  qed
  then show ?thesis using assms(2) by (simp add: plain_select_def)
qed

text \<open>Python's \<open>id\<close> tells the table nodes of one live tree apart.\<close>

definition ids_tell_apart :: "sql_table list \<Rightarrow> (sql_table list \<times> string list) list \<Rightarrow> bool" where
  "ids_tell_apart tables scopes \<longleftrightarrow>
     (\<forall>tb \<in> set tables. \<forall>(ts, ctes) \<in> set scopes. \<forall>tb' \<in> set ts. tb_id tb = tb_id tb' \<longrightarrow> tb = tb')"

lemma validate_sound:
  assumes v: "validate g policy l sql = Inr (t, w)"
    and ids: "ids_tell_apart (gl_tables g t) scopes"
    and scopes: "gl_scopes g t = Inr scopes"
  shows "plain_select g t \<and> set (rw_relations w) \<subseteq> set (relation_names policy)
    \<and> (\<forall>tb \<in> set (gl_tables g t). tb_this tb = IdentifierThis \<longrightarrow> (\<exists>(ts, ctes) \<in> set scopes. tb \<in> set ts \<and> table_allowed policy ctes tb))
    \<and> (\<exists>tokens parsed. gl_tokenize g sql = Inr tokens \<and> check_tokens (gl_type_token g) l tokens = Inr ()
         \<and> parse_single g l tokens sql = Inr parsed \<and> height g parsed \<le> ql_tree_depth l
         \<and> int (length (walk parsed)) \<le> ql_nodes l \<and> gl_normalize g parsed = Inr t)"
proof -
  obtain tokens parsed where p: "gl_tokenize g sql = Inr tokens" "check_tokens (gl_type_token g) l tokens = Inr ()"
      "parse_single g l tokens sql = Inr parsed" "check_size l parsed = Inr ()" "check_tree_depth g l parsed = Inr ()"
      "gl_normalize g parsed = Inr t" "is_select g (label t)" "check_nodes g t = Inr ()" "check_relations g policy t = Inr w"
    using v by (auto simp: validate_def bindG_eq_Inr lib_Inr split: sum.splits if_splits)
  have w: "check_tables policy (tables_of_scopes scopes) \<lparr>rw_checked = [], rw_relations = [], rw_schemas = []\<rparr> = Inr w"
      "\<not> list_ex (\<lambda>tb. tb_this tb = IdentifierThis \<and> tb_id tb \<notin> set (rw_checked w)) (gl_tables g t)"
    using p(9) scopes by (auto simp: check_relations_def bindG_eq_Inr split: if_splits)
  note s = check_tables_sound [OF w(1)]
  have "\<exists>(ts, ctes) \<in> set scopes. tb \<in> set ts \<and> table_allowed policy ctes tb"
    if tb: "tb \<in> set (gl_tables g t)" "tb_this tb = IdentifierThis" for tb
  proof -
    have "tb_id tb \<in> set (rw_checked w)" using w(2) tb by (auto simp: list_ex_iff)
    then obtain tb' ctes where x: "(tb', ctes) \<in> set (tables_of_scopes scopes)" "tb_id tb' = tb_id tb" "table_allowed policy ctes tb'"
      using s by force
    then obtain ts where ts: "(ts, ctes) \<in> set scopes" "tb' \<in> set ts" by (auto simp: tables_of_scopes_def)
    then have "tb = tb'" using ids tb(1) x(2) unfolding ids_tell_apart_def by force
    then show ?thesis using ts x(3) by blast
  qed
  moreover have "height g parsed \<le> ql_tree_depth l"
    using p(5) depth_loop_iff [of g "ql_tree_depth l" "[(1, parsed)]"] by (simp add: check_tree_depth_def)
  moreover have "int (length (walk parsed)) \<le> ql_nodes l" using p(4) by (auto simp: check_size_def split: if_splits)
  ultimately show ?thesis using check_nodes_sound [OF p(8,7)] s p by auto
qed

text \<open>
  The guard's depth check is the height of the tree. The loop over its own stack accepts a tree exactly when its height,
  a chain of one operator counting once, is within the limit.
\<close>

theorem depth_check_is_height:
  "check_tree_depth g l t = Inr () \<longleftrightarrow> height g t \<le> ql_tree_depth l"
  using depth_loop_iff [of g "ql_tree_depth l" "[(1, t)]"] by (simp add: check_tree_depth_def)

lemma guard_inner_accepts:
  assumes "guard_inner g policy s n = Inr q"
  obtains rendered t w where "validate g policy (for_rendering (limits_of policy)) rendered = Inr (t, w)"
    "render g policy t (rw_schemas w) = Inr rendered"
    "q = \<lparr>gq_sql = wrapped rendered n, gq_relations = sort (remdups (rw_relations w))\<rparr>"
proof -
  obtain rendered w again where v: "validate_rendering g policy (limits_of policy) rendered = Inr (w, again)"
      and e: "(if again \<noteq> rendered then reject ''unparseable''
        else Inr \<lparr>gq_sql = wrapped rendered n, gq_relations = sort (remdups (rw_relations w))\<rparr>) = Inr q"
    using assms unfolding guard_inner_def Let_def by (elim bindG_pairE bindGE) (rule that)
  have "again = rendered" "q = \<lparr>gq_sql = wrapped rendered n, gq_relations = sort (remdups (rw_relations w))\<rparr>"
    using e by (auto split: if_splits)
  moreover obtain t where "validate g policy (for_rendering (limits_of policy)) rendered = Inr (t, w)"
      "render g policy t (rw_schemas w) = Inr again"
    using v unfolding validate_rendering_def as_unparseable_Inr by (elim bindG_pairE bindGE) (simp add: that)
  ultimately show thesis using that by blast
qed

text \<open>
  C31 What executes reads only what the deployment allows. The text sent is the wrapped rendering of a validated tree; that
  rendering itself parses to one plain SELECT within the limits, without a write, lock, parameter or odd literal anywhere,
  every relation of it is a CTE in scope or on the allowlist, and it renders back to itself.
\<close>

theorem guarded_query_is_allowed:
  assumes acc: "guard_query g sql policy n = Inr q"
    and ids: "\<And>t scopes. gl_scopes g t = Inr scopes \<Longrightarrow> ids_tell_apart (gl_tables g t) scopes"
  shows "\<exists>rendered t w scopes. gq_sql q = wrapped rendered n \<and> validate g policy (for_rendering (limits_of policy)) rendered = Inr (t, w)
    \<and> render g policy t (rw_schemas w) = Inr rendered
    \<and> plain_select g t \<and> gl_scopes g t = Inr scopes
    \<and> (\<forall>tb \<in> set (gl_tables g t). tb_this tb = IdentifierThis \<longrightarrow> (\<exists>(ts, ctes) \<in> set scopes. tb \<in> set ts \<and> table_allowed policy ctes tb))
    \<and> set (gq_relations q) \<subseteq> set (relation_names policy)"
proof -
  obtain s where "guard_inner g policy s n = Inr q"
    using acc by (auto simp: guard_query_def split: if_splits pyval.splits sum.splits guard_failure.splits lib_failure.splits)
  then obtain rendered t w where t: "validate g policy (for_rendering (limits_of policy)) rendered = Inr (t, w)"
      "render g policy t (rw_schemas w) = Inr rendered"
      and eq: "q = \<lparr>gq_sql = wrapped rendered n, gq_relations = sort (remdups (rw_relations w))\<rparr>"
    by (rule guard_inner_accepts)
  obtain scopes where sc: "gl_scopes g t = Inr scopes"
    using t(1) by (auto simp: validate_def check_relations_def bindG_eq_Inr split: sum.splits if_splits)
  note v = validate_sound [OF t(1) ids [OF sc] sc]
  have q: "gq_sql q = wrapped rendered n" "set (gq_relations q) = set (rw_relations w)" unfolding eq by simp_all
  have r: "set (gq_relations q) \<subseteq> set (relation_names policy)"
    unfolding q(2) by (rule conjunct1 [OF conjunct2 [OF v]])
  show ?thesis
    by (intro exI conjI, rule q(1), rule t(1), rule t(2), rule conjunct1 [OF v], rule sc,
        rule conjunct1 [OF conjunct2 [OF conjunct2 [OF v]]], rule r)
qed

subsection \<open>What the caller sees\<close>

definition MESSAGE_CODES :: "string list" where
  "MESSAGE_CODES =
     [''invalid_input'', ''unparseable'', ''multiple_statements'', ''not_select'', ''forbidden_clause'',
      ''parameter_not_allowed'', ''type_not_allowed'', ''unsupported_literal'']"

text \<open>The codes whose message is written where they are raised.\<close>

definition guard_codes :: "string list" where
  "guard_codes = MESSAGE_CODES @ [''too_long'', ''too_complex'', ''function_not_allowed'', ''relation_not_allowed'', ''ambiguous_relation'']"

definition coded :: "'a guard \<Rightarrow> bool" where
  "coded m \<longleftrightarrow> (\<forall>c. m = Inl (Rejected c) \<longrightarrow> c \<in> set guard_codes)"

lemma coded_Inr [intro, simp]: "coded (Inr x)" "coded (Inl (Escaped e))"
  by (simp_all add: coded_def)

lemma coded_reject [simp]: "coded (reject c) \<longleftrightarrow> c \<in> set guard_codes" "coded too_complex"
  by (simp_all add: coded_def reject_def too_complex_def guard_codes_def)

lemma codes: "set guard_codes = {''invalid_input'', ''unparseable'', ''multiple_statements'', ''not_select'', ''forbidden_clause'',
      ''parameter_not_allowed'', ''type_not_allowed'', ''unsupported_literal'', ''too_long'', ''too_complex'',
      ''function_not_allowed'', ''relation_not_allowed'', ''ambiguous_relation''}"
  by (auto simp: guard_codes_def MESSAGE_CODES_def)

lemma coded_bindG: "coded m \<Longrightarrow> (\<And>x. coded (f x)) \<Longrightarrow> coded (bindG m f)"
  by (cases m) (simp_all add: bindG_def coded_def)

lemma coded_lib [simp]: "coded (lib m)"
  by (cases m) (simp_all add: lib_def)

lemma coded_eachG: "(\<And>x. coded (f x)) \<Longrightarrow> coded (eachG f xs)"
  by (induction xs) (simp_all add: coded_bindG)

lemma coded_tokens: "coded (check_tokens types l ts)"
proof -
  have 1: "coded (scan_level types l t s)" for t s
    by (auto simp: scan_level_def Let_def codes split: list.splits prod.splits)
  have 2: "coded (scan_token types l t s)" for t s
    unfolding scan_token_def by (intro coded_bindG 1) (simp add: Let_def)
  have "coded (scan_tokens types l ts s)" for s
    by (induction ts arbitrary: s) (simp_all add: coded_bindG 2)
  then show ?thesis by (auto simp: check_tokens_def intro: coded_bindG)
qed

lemma coded_depth: "coded (depth_loop g cap stack)"
  by (induction g cap stack rule: depth_loop.induct) simp_all

lemma coded_check_node: "coded (check_node g pu)"
  by (cases pu) (simp add: check_node_def Let_def codes)

lemma coded_check_written: "coded (check_written g policy ur)"
  by (cases ur) (auto simp: check_written_def check_type_def check_function_def codes split: option.splits)

lemma coded_render: "coded (render g policy t schemas)"
  by (auto simp: render_def codes split: prod.splits option.splits intro!: coded_bindG coded_eachG coded_check_written)

lemma coded_relations: "coded (check_relations g policy t)"
proof -
  have r: "coded (resolve_relation policy tb)" for tb
    by (auto simp: resolve_relation_def codes split: list.splits)
  have 1: "coded (check_table policy ctes w tb)" for ctes w tb
    by (auto simp: check_table_def Let_def codes split: table_this.splits intro!: coded_bindG r)
  have "coded (check_tables policy tcs w)" for tcs w
  proof (induction tcs arbitrary: w)
    case (Cons x rest)
    then show ?case by (cases x) (simp add: coded_bindG 1)
  qed simp
  then show ?thesis by (auto simp: check_relations_def codes split: sum.splits intro!: coded_bindG)
qed

lemma coded_validate: "coded (validate g policy l sql)"
proof -
  have p: "coded (parse_single g l tokens sql)" for tokens
    by (auto simp: parse_single_def codes split: sum.splits lib_failure.splits list.splits)
  show ?thesis
    unfolding validate_def check_nodes_def check_tree_depth_def
    by (intro coded_bindG) (auto simp: codes check_size_def split: sum.splits
        intro!: coded_bindG coded_tokens p coded_depth coded_eachG coded_check_node coded_relations)
qed

lemma coded_guard_inner: "coded (guard_inner g policy sql n)"
proof -
  have a: "coded (as_unparseable m)" for m :: "'b guard"
    by (cases m) (auto simp: as_unparseable_def codes split: guard_failure.splits)
  show ?thesis
    unfolding guard_inner_def Let_def validate_rendering_def
    by (intro coded_bindG) (auto simp: codes intro!: coded_bindG coded_validate coded_render a)
qed

text \<open>
  The guard answers every input. With a positive row limit it accepts the query or refuses it with one of its own codes,
  whatever the text is and however the SQL library fails; nothing else of the library reaches the caller.
\<close>

theorem guard_answers_every_input:
  assumes "1 \<le> n"
  shows "(\<exists>q. guard_query g sql policy n = Inr q) \<or> (\<exists>c \<in> set guard_codes. guard_query g sql policy n = Inl (QueryRejected c))"
proof (cases sql)
  case (PStr s)
  show ?thesis
  proof (cases "guard_inner g policy s n")
    case (Inl e)
    show ?thesis
    proof (cases e)
      case (Rejected c)
      then have "c \<in> set guard_codes" using coded_guard_inner [of g policy s n] Inl by (simp add: coded_def)
      then show ?thesis using assms PStr Inl Rejected by (auto simp: guard_query_def codes)
    next
      case (Escaped x)
      then show ?thesis using assms PStr Inl by (cases x) (auto simp: guard_query_def codes)
    qed
  qed (use assms PStr in \<open>auto simp: guard_query_def codes\<close>)
qed (use assms in \<open>auto simp: guard_query_def codes\<close>)

subsection \<open>A query on one view\<close>

definition demo_tables :: "nat tree \<Rightarrow> sql_table list" where
  "demo_tables t =
     (if label (hd (kids t)) = 1
      then [\<lparr>tb_id = 1, tb_this = IdentifierThis, tb_catalog = '''', tb_db = '''', tb_name = ''ventas''\<rparr>]
      else [\<lparr>tb_id = 2, tb_this = IdentifierThis, tb_catalog = '''', tb_db = ''public'', tb_name = ''ventas''\<rparr>])"

definition demo_rendering :: string where
  "demo_rendering = ''SELECT * FROM public.ventas''"

definition demo_sqlglot :: "nat sqlglot" where
  "demo_sqlglot =
     \<lparr>gl_tokenize = (\<lambda>_. Inr [OtherToken 0, OtherToken 1, OtherToken 2, OtherToken 3]), gl_type_token = (\<lambda>_. False),
      gl_parse = (\<lambda>_ _ s. Inr [Some (Node 0 [Node (if s = demo_rendering then 2 else 1) []])]), gl_normalize = Inr,
      gl_scopes = (\<lambda>t. Inr [(demo_tables t, [])]), gl_tables = demo_tables,
      gl_render = (\<lambda>t _. (Some t, [], Inr demo_rendering)), gl_this = (\<lambda>_. None), gl_id = (\<lambda>k. k), gl_type = (\<lambda>k. k),
      is_select = (\<lambda>k. k = 0), is_write = (\<lambda>_. False), is_wrapper = (\<lambda>_. False), is_parameter = (\<lambda>_. False),
      is_odd_literal = (\<lambda>_. False), is_operator = (\<lambda>_. False), is_data_type = (\<lambda>_. False), is_user_type = (\<lambda>_. False),
      is_func = (\<lambda>_. False), is_dot = (\<lambda>_. False), is_qualified_table = (\<lambda>_. False), is_connector = (\<lambda>_. False),
      is_binary = (\<lambda>_. False), is_syntax = (\<lambda>_. False), anonymous_name = (\<lambda>_. None), is_anonymous = (\<lambda>_. False),
      is_case_branch = (\<lambda>_. False)\<rparr>"

definition demo_policy :: query_policy where
  "demo_policy = \<lparr>allowed_relations = [(''public'', ''ventas'')], allowed_functions = DEFAULT_ALLOWED_FUNCTIONS,
     max_sql_length = DEFAULT_MAX_SQL_LENGTH, max_nodes = DEFAULT_MAX_NODES, max_tokens = DEFAULT_MAX_TOKENS, max_depth = DEFAULT_MAX_DEPTH\<rparr>"

lemma demo_guarded:
  "guard_query demo_sqlglot (PStr ''SELECT * FROM ventas'') demo_policy 10
    = Inr \<lparr>gq_sql = wrapped demo_rendering 10, gq_relations = [''public.ventas'']\<rparr>"
  by code_simp

theorem guarded_query_is_allowed_witness:
  "\<exists>q. guard_query demo_sqlglot (PStr ''SELECT * FROM ventas'') demo_policy 10 = Inr q \<and> gq_relations q = [''public.ventas'']
    \<and> set (gq_relations q) \<subseteq> set (relation_names demo_policy)"
proof -
  have "ids_tell_apart (gl_tables demo_sqlglot t) scopes" if "gl_scopes demo_sqlglot t = Inr scopes" for t scopes
    using that by (auto simp: demo_sqlglot_def demo_tables_def ids_tell_apart_def)
  then show ?thesis using guarded_query_is_allowed [OF demo_guarded] demo_guarded by fastforce
qed

theorem guard_answers_every_input_witness:
  "guard_query demo_sqlglot PNone demo_policy 10 = Inl (QueryRejected ''invalid_input'')
    \<or> (\<exists>q. guard_query demo_sqlglot PNone demo_policy 10 = Inr q)"
proof -
  have n: "(1 :: int) \<le> 10" by simp
  have "guard_query demo_sqlglot PNone demo_policy 10 = Inl (QueryRejected ''invalid_input'')" by (simp add: guard_query_def)
  then show ?thesis using guard_answers_every_input [OF n, of demo_sqlglot PNone demo_policy] by blast
qed

theorem accepted_tokens_bounded_witness:
  "check_tokens (\<lambda>_. False) (limits_of demo_policy) [LParen, OtherToken 0, RParen] = Inr ()
    \<and> parser_reads (\<lambda>_. False) [LParen, OtherToken 0, RParen] \<le> 600"
proof -
  have c: "check_tokens (\<lambda>_. False) (limits_of demo_policy) [LParen, OtherToken 0, RParen] = Inr ()" by code_simp
  have "ql_tokens (limits_of demo_policy) = 600" by code_simp
  moreover have "check_tokens (\<lambda>_. False) (limits_of demo_policy) ([LParen, OtherToken 0, RParen] @ []) = Inr ()" using c by simp
  from accepted_tokens_bounded [OF this] have "parser_reads (\<lambda>_. False) [LParen, OtherToken 0, RParen] \<le> max 0 (ql_tokens (limits_of demo_policy))"
    by blast
  ultimately show ?thesis using c by simp
qed

end
