(* ===== verification/Reasoning.thy ===== *)
theory Reasoning
  imports Prelude
begin

section \<open>Reasoning blocks of a model's answer\<close>

text \<open>
  \<open>agent/reasoning.py\<close>.  Here a text is the list of its code points, since the characters stripped around a tag go beyond
  one byte.  The response comes from the wrapped chat model and is an argument; streaming is not sanitised by the code.
\<close>

type_synonym code_points = "int list"

definition OPEN :: code_points where "OPEN = map of_char ''<think>''"
definition CLOSE :: code_points where "CLOSE = map of_char ''</think>''"

text \<open>White space, the zero-width space, joiners and the byte order mark.\<close>

definition INVISIBLE :: "int list" where
  "INVISIBLE = [0x20, 0x09, 0x0A, 0x0D, 0x0B, 0x0C, 0x200B, 0x200C, 0x200D, 0x2060, 0xFEFF]"

definition begins :: "code_points \<Rightarrow> code_points \<Rightarrow> bool" where
  "begins t p \<longleftrightarrow> take (length p) t = p"

definition lstrip_invisible :: "code_points \<Rightarrow> code_points" where
  "lstrip_invisible t = dropWhile (\<lambda>c. c \<in> set INVISIBLE) t"

definition strip_invisible :: "code_points \<Rightarrow> code_points" where
  "strip_invisible t = rev (dropWhile (\<lambda>c. c \<in> set INVISIBLE) (rev (lstrip_invisible t)))"

subsection \<open>The end of a block\<close>

text \<open>The loop of \<open>_find_block_end\<close>: the depth, the index and the text from the index on.\<close>

function block_scan :: "int \<Rightarrow> int \<Rightarrow> code_points \<Rightarrow> int" where
  "block_scan depth index rest =
     (if rest = [] then -1
      else if begins rest OPEN then block_scan (depth + 1) (index + int (length OPEN)) (drop (length OPEN) rest)
      else if begins rest CLOSE
      then (if depth - 1 = 0 then index + int (length CLOSE)
            else block_scan (depth - 1) (index + int (length CLOSE)) (drop (length CLOSE) rest))
      else block_scan depth (index + 1) (tl rest))"
  by pat_completeness auto
termination
  by (relation "measure (\<lambda>(d, i, rest). length rest)") (auto simp: OPEN_def CLOSE_def)

declare block_scan.simps [simp del]

definition find_block_end :: "code_points \<Rightarrow> int" where
  "find_block_end text = block_scan 0 0 text"

lemma block_scan_bounds: "block_scan depth index rest \<noteq> -1 \<Longrightarrow> index < block_scan depth index rest \<and> block_scan depth index rest \<le> index + int (length rest)"
proof (induction depth index rest rule: block_scan.induct)
  case (1 depth index rest)
  have len: "length OPEN = 7" "length CLOSE = 8" by (simp_all add: OPEN_def CLOSE_def)
  have b: "length p \<le> length rest" if "begins rest p" for p
    using that unfolding begins_def by (metis length_take min.cobounded1 nat_le_linear min_def)
  consider "rest = []" | "rest \<noteq> []" "begins rest OPEN" | "rest \<noteq> []" "\<not> begins rest OPEN" "begins rest CLOSE" "depth - 1 = 0"
    | "rest \<noteq> []" "\<not> begins rest OPEN" "begins rest CLOSE" "depth - 1 \<noteq> 0"
    | "rest \<noteq> []" "\<not> begins rest OPEN" "\<not> begins rest CLOSE" by blast
  then show ?case
  proof cases
    case 2
    then have "block_scan depth index rest = block_scan (depth + 1) (index + int (length OPEN)) (drop (length OPEN) rest)"
      by (simp add: block_scan.simps [of depth index rest])
    then show ?thesis using "1.IH"(1) "1.prems" 2 b [of OPEN] by (simp add: len)
  next
    case 4
    then have "block_scan depth index rest = block_scan (depth - 1) (index + int (length CLOSE)) (drop (length CLOSE) rest)"
      by (simp add: block_scan.simps [of depth index rest])
    then show ?thesis using "1.IH"(2) "1.prems" 4 b [of CLOSE] by (simp add: len)
  next
    case 5
    then have "block_scan depth index rest = block_scan depth (index + 1) (tl rest)"
      by (simp add: block_scan.simps [of depth index rest])
    moreover have "int (length (tl rest)) = int (length rest) - 1" using 5(1) by (cases rest) simp_all
    ultimately show ?thesis using "1.IH"(3) "1.prems" 5 by simp
  next
    case 1
    have "block_scan depth index rest = -1" unfolding block_scan.simps [of depth index rest] using 1 by simp
    then show ?thesis using "1.prems" by simp
  next
    case 3
    have "block_scan depth index rest = index + int (length CLOSE)" unfolding block_scan.simps [of depth index rest] using 3 by simp
    then show ?thesis using b [OF 3(3)] by (simp add: len)
  qed
qed

subsection \<open>Stripping one text\<close>

function strip_loop :: "code_points \<Rightarrow> bool \<Rightarrow> (code_points \<times> bool) option" where
  "strip_loop result removed =
     (let candidate = lstrip_invisible result in
      if \<not> begins candidate OPEN then Some (result, removed)
      else let n = find_block_end candidate in
           if n = -1 then None else strip_loop (drop (nat n) candidate) True)"
  by pat_completeness auto
termination
proof (relation "measure (\<lambda>(result, removed). length result)", goal_cases)
  case (2 result removed candidate n)
  have "0 < n" "n \<le> int (length candidate)" using block_scan_bounds [of 0 0 candidate] 2 by (simp_all add: find_block_end_def)
  moreover have "length candidate \<le> length result" unfolding 2 lstrip_invisible_def by (rule length_dropWhile_le)
  ultimately show ?case by simp
qed simp

declare strip_loop.simps [simp del]

definition strip_text :: "code_points \<Rightarrow> code_points" where
  "strip_text text =
     (case strip_loop text False of
        None \<Rightarrow> []
      | Some (result, removed) \<Rightarrow> if removed then strip_invisible result else text)"

subsection \<open>What a block is\<close>

text \<open>A text read as tags and other code points.\<close>

datatype tag = Opening | Closing | Letter int

function tags :: "code_points \<Rightarrow> tag list" where
  "tags t =
     (if t = [] then []
      else if begins t OPEN then Opening # tags (drop (length OPEN) t)
      else if begins t CLOSE then Closing # tags (drop (length CLOSE) t)
      else Letter (hd t) # tags (tl t))"
  by pat_completeness auto
termination
  by (relation "measure length") (auto simp: OPEN_def CLOSE_def)

declare tags.simps [simp del]

fun spell_tag :: "tag \<Rightarrow> code_points" where
  "spell_tag Opening = OPEN"
| "spell_tag Closing = CLOSE"
| "spell_tag (Letter c) = [c]"

definition spell :: "tag list \<Rightarrow> code_points" where
  "spell ts = concat (map spell_tag ts)"

lemma spell_simps [simp]: "spell [] = []" "spell (t # ts) = spell_tag t @ spell ts" "spell (ts @ us) = spell ts @ spell us"
  by (simp_all add: spell_def)

lemma begins_append: "begins t p \<Longrightarrow> t = p @ drop (length p) t"
  unfolding begins_def by (metis append_take_drop_id)

lemma spell_tags: "spell (tags t) = t"
proof (induction t rule: tags.induct)
  case (1 t)
  consider "t = []" | "t \<noteq> []" "begins t OPEN" | "t \<noteq> []" "\<not> begins t OPEN" "begins t CLOSE"
    | "t \<noteq> []" "\<not> begins t OPEN" "\<not> begins t CLOSE" by blast
  then show ?case
  proof cases
    case 2
    then show ?thesis using 1(1) begins_append [of t OPEN] by (simp add: tags.simps [of t])
  next
    case 3
    then show ?thesis using 1(2) begins_append [of t CLOSE] by (simp add: tags.simps [of t])
  next
    case 4
    then show ?thesis using 1(3) by (simp add: tags.simps [of t])
  qed (simp add: tags.simps)
qed

text \<open>The inside of a block: letters and whole blocks.\<close>

inductive think_body :: "tag list \<Rightarrow> bool" where
  Empty: "think_body []"
| Plain: "think_body ts \<Longrightarrow> think_body (Letter c # ts)"
| Nested: "think_body us \<Longrightarrow> think_body ts \<Longrightarrow> think_body (Opening # us @ Closing # ts)"

text \<open>The tags after the one that closes depth 1.\<close>

fun after_close :: "int \<Rightarrow> tag list \<Rightarrow> tag list option" where
  "after_close d [] = None"
| "after_close d (Opening # ts) = after_close (d + 1) ts"
| "after_close d (Closing # ts) = (if d - 1 = 0 then Some ts else after_close (d - 1) ts)"
| "after_close d (Letter c # ts) = after_close d ts"

lemma after_close_suffix: "after_close d ts = Some vs \<Longrightarrow> \<exists>us. ts = us @ vs"
proof (induction d ts rule: after_close.induct)
  case (3 d ts)
  then show ?case by (cases "d - 1 = 0") (auto intro: exI [of _ "[Closing]"] exI [of _ "Closing # _"])
qed (auto intro: exI [of _ "Opening # _"] exI [of _ "Letter _ # _"])

lemma block_scan_tags:
  "block_scan d i t = (case after_close d (tags t) of None \<Rightarrow> -1 | Some vs \<Rightarrow> i + int (length t) - int (length (spell vs)))"
proof (induction d i t rule: block_scan.induct)
  case (1 d i t)
  have len: "int (length (drop (length p) t)) = int (length t) - int (length p)" if "begins t p" for p
    using that begins_append [of t p] by (metis add_diff_cancel_left' length_append of_nat_add)
  consider "t = []" | "t \<noteq> []" "begins t OPEN" | "t \<noteq> []" "\<not> begins t OPEN" "begins t CLOSE" "d - 1 = 0"
    | "t \<noteq> []" "\<not> begins t OPEN" "begins t CLOSE" "d - 1 \<noteq> 0"
    | "t \<noteq> []" "\<not> begins t OPEN" "\<not> begins t CLOSE" by blast
  then show ?case
  proof cases
    case 1
    then show ?thesis by (subst block_scan.simps) (simp add: tags.simps)
  next
    case 2
    then show ?thesis using "1.IH"(1) len [of OPEN]
      by (subst block_scan.simps) (simp add: tags.simps [of t] split: option.splits)
  next
    case 3
    then show ?thesis using len [of CLOSE] by (subst block_scan.simps) (simp add: tags.simps [of t] spell_tags)
  next
    case 4
    then show ?thesis using "1.IH"(2) len [of CLOSE]
      by (subst block_scan.simps) (simp add: tags.simps [of t] split: option.splits)
  next
    case 5
    moreover have "int (length (tl t)) = int (length t) - 1" using 5(1) by (cases t) simp_all
    ultimately show ?thesis using "1.IH"(3)
      by (subst block_scan.simps) (simp add: tags.simps [of t] split: option.splits)
  qed
qed

lemma after_close_body: "think_body us \<Longrightarrow> 1 \<le> d \<Longrightarrow> after_close d (us @ ts) = after_close d ts"
  by (induction us arbitrary: d ts rule: think_body.induct) simp_all

text \<open>Bodies around a number of closing tags.\<close>

fun nested_bodies :: "nat \<Rightarrow> tag list \<Rightarrow> bool" where
  "nested_bodies 0 us = think_body us"
| "nested_bodies (Suc k) us = (\<exists>a b. think_body a \<and> nested_bodies k b \<and> us = a @ Closing # b)"

lemma nested_bodies_front:
  assumes "\<And>us. think_body us \<Longrightarrow> think_body (f @ us)" and "nested_bodies k us"
  shows "nested_bodies k (f @ us)"
  using assms by (cases k) (force, metis append_assoc nested_bodies.simps(2))

lemma after_close_nested: "after_close (1 + int k) ts = Some vs \<Longrightarrow> \<exists>us. nested_bodies k us \<and> ts = us @ Closing # vs"
proof (induction ts arbitrary: k)
  case (Cons t ts)
  show ?case
  proof (cases t)
    case Opening
    then have "after_close (1 + int (Suc k)) ts = Some vs" using Cons.prems by (simp add: add.commute)
    then obtain a b where ab: "think_body a" "nested_bodies k b" "ts = (a @ Closing # b) @ Closing # vs"
      using Cons.IH [of "Suc k"] by auto
    have "nested_bodies k ((Opening # a @ [Closing]) @ b)"
      by (rule nested_bodies_front [OF _ ab(2)]) (use ab(1) think_body.Nested in force)
    then show ?thesis using Opening ab(3) by (intro exI [of _ "(Opening # a @ [Closing]) @ b"]) simp
  next
    case Closing
    show ?thesis
    proof (cases k)
      case 0
      then show ?thesis using Cons.prems Closing by (auto intro: exI [of _ "[]"] think_body.Empty)
    next
      case (Suc j)
      then obtain us where "nested_bodies j us" "ts = us @ Closing # vs" using Cons.prems Closing Cons.IH [of j] by auto
      then show ?thesis using Suc Closing think_body.Empty by (intro exI [of _ "Closing # us"]) force
    qed
  next
    case (Letter c)
    then obtain us where u: "nested_bodies k us" "ts = us @ Closing # vs" using Cons.prems Cons.IH [of k] by auto
    have "nested_bodies k ([Letter c] @ us)" by (rule nested_bodies_front [OF _ u(1)]) (simp add: think_body.Plain)
    then show ?thesis using Letter u(2) by (intro exI [of _ "Letter c # us"]) simp
  qed
qed simp

lemma tags_begins: "begins t OPEN \<longleftrightarrow> (\<exists>ts. tags t = Opening # ts)"
proof -
  have "t \<noteq> []" if "begins t OPEN" using that by (auto simp: begins_def OPEN_def)
  then show ?thesis by (subst tags.simps) (auto simp: begins_def)
qed

text \<open>
  C37 The end of a block is the tag that closes it.  For a text that opens a block, the loop finds the closing tag whose
  inside is letters and whole blocks, and reports none exactly when there is no such tag.
\<close>

theorem block_end_is_matching:
  assumes "tags t = Opening # ts"
  shows "find_block_end t = -1 \<and> (\<forall>us vs. think_body us \<longrightarrow> ts \<noteq> us @ Closing # vs)
    \<or> (\<exists>us vs. think_body us \<and> ts = us @ Closing # vs
        \<and> find_block_end t = int (length (spell (Opening # us @ [Closing])))
        \<and> drop (nat (find_block_end t)) t = spell vs)"
proof (cases "after_close 1 ts")
  case None
  have "ts \<noteq> us @ Closing # vs" if "think_body us" for us vs
    using None after_close_body [OF that, of 1 "Closing # vs"] by auto
  moreover have "find_block_end t = -1" using assms None by (simp add: find_block_end_def block_scan_tags)
  ultimately show ?thesis by blast
next
  case (Some vs)
  then obtain us where u: "think_body us" "ts = us @ Closing # vs" using after_close_nested [of 0 ts vs] by auto
  have t: "t = spell (Opening # us @ [Closing]) @ spell vs" using spell_tags [of t] assms u(2) by simp
  have e: "find_block_end t = int (length t) - int (length (spell vs))"
    using assms Some by (simp add: find_block_end_def block_scan_tags)
  then have n: "find_block_end t = int (length (spell (Opening # us @ [Closing])))" using t by (metis add_diff_cancel_right' length_append of_nat_add)
  then have "drop (nat (find_block_end t)) t = spell vs" using t by (metis append_eq_conv_conj nat_int)
  then show ?thesis using u n by blast
qed

text \<open>One leading block, and a leading tag that nothing closes.\<close>

definition peels :: "code_points \<Rightarrow> code_points \<Rightarrow> bool" where
  "peels t rest \<longleftrightarrow> (\<exists>us vs. think_body us \<and> tags (lstrip_invisible t) = Opening # us @ Closing # vs \<and> rest = spell vs)"

definition unterminated :: "code_points \<Rightarrow> bool" where
  "unterminated t \<longleftrightarrow> (\<exists>ts. tags (lstrip_invisible t) = Opening # ts \<and> (\<forall>us vs. think_body us \<longrightarrow> ts \<noteq> us @ Closing # vs))"

definition opens_block :: "code_points \<Rightarrow> bool" where
  "opens_block t \<longleftrightarrow> begins (lstrip_invisible t) OPEN"

lemma strip_loop_cases:
  "\<not> opens_block t \<and> strip_loop t r = Some (t, r)
    \<or> unterminated t \<and> strip_loop t r = None
    \<or> (\<exists>rest. peels t rest \<and> strip_loop t r = strip_loop rest True)"
proof (cases "opens_block t")
  case False
  then show ?thesis by (subst strip_loop.simps) (simp add: opens_block_def)
next
  case True
  let ?c = "lstrip_invisible t"
  obtain ts where ts: "tags ?c = Opening # ts" using True tags_begins by (auto simp: opens_block_def)
  have l: "strip_loop t r = (if find_block_end ?c = -1 then None else strip_loop (drop (nat (find_block_end ?c)) ?c) True)"
    using True by (subst strip_loop.simps) (simp add: opens_block_def Let_def)
  from block_end_is_matching [OF ts] show ?thesis
  proof (elim disjE conjE exE)
    assume "find_block_end ?c = -1" "\<forall>us vs. think_body us \<longrightarrow> ts \<noteq> us @ Closing # vs"
    then show ?thesis using l ts by (auto simp: unterminated_def)
  next
    fix us vs
    assume a: "think_body us" "ts = us @ Closing # vs" "find_block_end ?c = int (length (spell (Opening # us @ [Closing])))"
      "drop (nat (find_block_end ?c)) ?c = spell vs"
    then have "peels t (spell vs)" using ts by (auto simp: peels_def)
    moreover have "strip_loop t r = strip_loop (spell vs) True" using l a(3,4) by simp
    ultimately show ?thesis by blast
  qed
qed

lemma peels_shorter: "peels t rest \<Longrightarrow> length rest < length t"
proof -
  assume "peels t rest"
  then obtain us vs where "tags (lstrip_invisible t) = Opening # us @ Closing # vs" "rest = spell vs" by (auto simp: peels_def)
  then have "lstrip_invisible t = OPEN @ spell us @ CLOSE @ rest" using spell_tags [of "lstrip_invisible t"] by simp
  then have "length rest < length (lstrip_invisible t)" by (simp add: OPEN_def CLOSE_def)
  also have "\<dots> \<le> length t" unfolding lstrip_invisible_def by (rule length_dropWhile_le)
  finally show ?thesis .
qed

lemma strip_loop_meaning:
  "\<exists>rest. peels\<^sup>*\<^sup>* t rest \<and> (unterminated rest \<and> strip_loop t r = None
     \<or> \<not> opens_block rest \<and> strip_loop t r = Some (rest, r \<or> rest \<noteq> t))"
proof (induction "length t" arbitrary: t r rule: less_induct)
  case less
  from strip_loop_cases [of t r] show ?case
  proof (elim disjE conjE exE)
    fix rest
    assume p: "peels t rest" "strip_loop t r = strip_loop rest True"
    obtain rest' where i: "peels\<^sup>*\<^sup>* rest rest'" "unterminated rest' \<and> strip_loop rest True = None
        \<or> \<not> opens_block rest' \<and> strip_loop rest True = Some (rest', True)"
      using less [OF peels_shorter [OF p(1)], of True] by auto
    have "length rest' \<le> length rest" using i(1) by (induction rule: rtranclp_induct) (auto dest: peels_shorter)
    then have "rest' \<noteq> t" using peels_shorter [OF p(1)] by auto
    then show ?case using p i converse_rtranclp_into_rtranclp [of peels t rest rest'] by auto
  qed auto
qed

text \<open>
  What a reader of the answer sees.  Whole blocks are taken off the front, one after the other, until none opens; the rest is
  the answer, its edges trimmed only when a block was removed, and a block that is never closed leaves no answer.
\<close>

theorem strip_text_meaning:
  "\<exists>rest. peels\<^sup>*\<^sup>* t rest \<and> (unterminated rest \<and> strip_text t = []
     \<or> \<not> opens_block rest \<and> strip_text t = (if rest = t then t else strip_invisible rest))"
proof -
  obtain rest where r: "peels\<^sup>*\<^sup>* t rest" "unterminated rest \<and> strip_loop t False = None
      \<or> \<not> opens_block rest \<and> strip_loop t False = Some (rest, False \<or> rest \<noteq> t)"
    using strip_loop_meaning [of t False] by blast
  from r(2) have "unterminated rest \<and> strip_text t = []
      \<or> \<not> opens_block rest \<and> strip_text t = (if rest = t then t else strip_invisible rest)"
  proof (elim disjE conjE)
    assume "unterminated rest" "strip_loop t False = None"
    then show ?thesis by (simp only: strip_text_def option.case simp_thms)
  next
    assume a: "\<not> opens_block rest" "strip_loop t False = Some (rest, False \<or> rest \<noteq> t)"
    have "strip_text t = (if rest = t then t else strip_invisible rest)"
      unfolding strip_text_def a(2) by (cases "rest = t") simp_all
    then show ?thesis using a(1) by blast
  qed
  then show ?thesis using r(1) by blast
qed

lemma lstrip_strip: "lstrip_invisible (strip_invisible t) = strip_invisible t"
proof (cases "lstrip_invisible t")
  case Nil
  then have "strip_invisible t = []" by (simp add: strip_invisible_def)
  then show ?thesis by (simp add: lstrip_invisible_def)
next
  case (Cons c cs)
  then have c: "c \<notin> set INVISIBLE" unfolding lstrip_invisible_def by (metis dropWhile_eq_Cons_conv)
  have "\<exists>ys. dropWhile (\<lambda>x. x \<in> set INVISIBLE) (rev cs @ [c]) = ys @ [c]"
    using c by (cases "\<forall>x \<in> set cs. x \<in> set INVISIBLE") (simp_all add: dropWhile_append)
  then obtain ys where "dropWhile (\<lambda>x. x \<in> set INVISIBLE) (rev cs @ [c]) = ys @ [c]" by blast
  then show ?thesis using Cons c by (simp add: strip_invisible_def lstrip_invisible_def)
qed

lemma strip_prefix: "\<exists>ys. lstrip_invisible t = strip_invisible t @ ys"
proof -
  let ?P = "\<lambda>c. c \<in> set INVISIBLE"
  have "rev (lstrip_invisible t) = takeWhile ?P (rev (lstrip_invisible t)) @ dropWhile ?P (rev (lstrip_invisible t))" by simp
  then have "lstrip_invisible t = rev (dropWhile ?P (rev (lstrip_invisible t))) @ rev (takeWhile ?P (rev (lstrip_invisible t)))"
    by (metis rev_append rev_rev_ident)
  then show ?thesis unfolding strip_invisible_def by blast
qed

lemma strip_opens: "\<not> opens_block t \<Longrightarrow> \<not> opens_block (strip_invisible t)"
proof -
  assume n: "\<not> opens_block t"
  obtain ys where y: "lstrip_invisible t = strip_invisible t @ ys" using strip_prefix by blast
  show ?thesis
  proof
    assume "opens_block (strip_invisible t)"
    then have "begins (strip_invisible t) OPEN" by (simp add: opens_block_def lstrip_strip)
    then have "begins (lstrip_invisible t) OPEN" unfolding y begins_def
      by (metis append_eq_conv_conj append_take_drop_id take_append append.assoc)
    then show False using n by (simp add: opens_block_def)
  qed
qed

lemma stripped_opens_nothing: "\<not> opens_block (strip_text t)"
proof -
  have n: "\<not> opens_block []" by (simp add: opens_block_def begins_def OPEN_def lstrip_invisible_def)
  obtain rest where "unterminated rest \<and> strip_text t = []
      \<or> \<not> opens_block rest \<and> strip_text t = (if rest = t then t else strip_invisible rest)"
    using strip_text_meaning by blast
  then show ?thesis
  proof (elim disjE conjE)
    assume "\<not> opens_block rest" "strip_text t = (if rest = t then t else strip_invisible rest)"
    then show ?thesis using strip_opens [of rest] by (cases "rest = t") simp_all
  qed (simp add: n)
qed

text \<open>
  No reasoning survives at the front of an answer, and sanitising twice is sanitising once.
\<close>

theorem no_leading_reasoning:
  "\<not> opens_block (strip_text t) \<and> strip_text (strip_text t) = strip_text t"
proof
  show 1: "\<not> opens_block (strip_text t)" by (rule stripped_opens_nothing)
  have "strip_loop (strip_text t) False = Some (strip_text t, False)"
    using 1 by (subst strip_loop.simps) (simp add: opens_block_def)
  then show "strip_text (strip_text t) = strip_text t" by (simp add: strip_text_def [of "strip_text t"])
qed

subsection \<open>Content and responses\<close>

text \<open>A block of a list-shaped content: a text, a dict, or any other value; of a dict the code reads the key \<open>text\<close>.\<close>

datatype 'v field = TextField code_points | OtherField 'v
datatype 'v block = StrBlock code_points | DictBlock "(string \<times> 'v field) list" | OtherBlock 'v
datatype 'v content = TextContent code_points | ListContent "'v block list"

fun strip_block :: "'v block \<Rightarrow> 'v block" where
  "strip_block (StrBlock t) = StrBlock (strip_text t)"
| "strip_block (DictBlock d) =
     (case map_of d ''text'' of
        Some (TextField t) \<Rightarrow> DictBlock (dset d ''text'' (TextField (strip_text t)))
      | _ \<Rightarrow> DictBlock d)"
| "strip_block (OtherBlock v) = OtherBlock v"

fun strip_reasoning :: "'v content \<Rightarrow> 'v content" where
  "strip_reasoning (TextContent t) = TextContent (strip_text t)"
| "strip_reasoning (ListContent bs) = ListContent (map strip_block bs)"

text \<open>
  A message's content and what else it carries; a generation keeps a text of its own, taken from the message when it is built.
\<close>

record ('v, 'm) message =
  msg_content :: "'v content"
  msg_rest :: 'm

record ('v, 'm, 'i) generation =
  gen_message :: "('v, 'm) message"
  gen_text :: code_points
  gen_info :: 'i

record ('v, 'm, 'i, 'o) chat_result =
  generations :: "('v, 'm, 'i) generation list"
  llm_output :: 'o

definition ChatGeneration :: "('v content \<Rightarrow> code_points) \<Rightarrow> ('v, 'm) message \<Rightarrow> 'i \<Rightarrow> ('v, 'm, 'i) generation" where
  "ChatGeneration text_of m i = \<lparr>gen_message = m, gen_text = text_of (msg_content m), gen_info = i\<rparr>"

definition sanitize_generation :: "('v content \<Rightarrow> code_points) \<Rightarrow> ('v, 'm, 'i) generation \<Rightarrow> ('v, 'm, 'i) generation" where
  "sanitize_generation text_of g =
     (let cleaned = strip_reasoning (msg_content (gen_message g)) in
      if cleaned = msg_content (gen_message g) then g
      else ChatGeneration text_of ((gen_message g)\<lparr>msg_content := cleaned\<rparr>) (gen_info g))"

definition sanitize :: "('v content \<Rightarrow> code_points) \<Rightarrow> ('v, 'm, 'i, 'o) chat_result \<Rightarrow> ('v, 'm, 'i, 'o) chat_result" where
  "sanitize text_of r = \<lparr>generations = map (sanitize_generation text_of) (generations r), llm_output = llm_output r\<rparr>"

text \<open>\<open>_generate\<close> and \<open>_agenerate\<close>: what the wrapped model answered, or raised.\<close>

definition generate :: "('v content \<Rightarrow> code_points) \<Rightarrow> ('q \<Rightarrow> 'e + ('v, 'm, 'i, 'o) chat_result) \<Rightarrow> 'q \<Rightarrow> 'e + ('v, 'm, 'i, 'o) chat_result" where
  "generate text_of wrapped_model q = map_sum id (sanitize text_of) (wrapped_model q)"

text \<open>A generation's text is a snapshot of its message, taken when it is built.\<close>

definition built_from :: "('v content \<Rightarrow> code_points) \<Rightarrow> ('v, 'm, 'i, 'o) chat_result \<Rightarrow> bool" where
  "built_from text_of r \<longleftrightarrow> (\<forall>g \<in> set (generations r). gen_text g = text_of (msg_content (gen_message g)))"

text \<open>The texts a content shows.\<close>

fun block_texts :: "'v block \<Rightarrow> code_points list" where
  "block_texts (StrBlock t) = [t]"
| "block_texts (DictBlock d) = (case map_of d ''text'' of Some (TextField t) \<Rightarrow> [t] | _ \<Rightarrow> [])"
| "block_texts (OtherBlock v) = []"

fun content_texts :: "'v content \<Rightarrow> code_points list" where
  "content_texts (TextContent t) = [t]"
| "content_texts (ListContent bs) = concat (map block_texts bs)"

lemma strip_block_texts: "block_texts (strip_block b) = map strip_text (block_texts b)"
  by (cases b) (auto simp: map_of_dset split: option.splits field.splits)

lemma strip_content_texts: "content_texts (strip_reasoning c) = map strip_text (content_texts c)"
  by (cases c) (simp_all add: map_concat comp_def strip_block_texts)

text \<open>
  C38 No response shows leading reasoning. In every generation of a sanitised answer no text opens a reasoning block, the
  generation's own text is the one of its sanitised message, and everything else of the answer is the model's.
\<close>

theorem answers_are_sanitized:
  assumes "generate text_of wrapped_model q = Inr r"
    and "\<And>r0. wrapped_model q = Inr r0 \<Longrightarrow> built_from text_of r0"
  shows "\<exists>r0. wrapped_model q = Inr r0 \<and> llm_output r = llm_output r0
    \<and> map (\<lambda>g. (msg_rest (gen_message g), gen_info g)) (generations r) = map (\<lambda>g. (msg_rest (gen_message g), gen_info g)) (generations r0)
    \<and> map (\<lambda>g. content_texts (msg_content (gen_message g))) (generations r)
        = map (\<lambda>g. map strip_text (content_texts (msg_content (gen_message g)))) (generations r0)
    \<and> (\<forall>g \<in> set (generations r). gen_text g = text_of (msg_content (gen_message g))
        \<and> (\<forall>t \<in> set (content_texts (msg_content (gen_message g))). \<not> opens_block t))"
proof -
  obtain r0 where r0: "wrapped_model q = Inr r0" "r = sanitize text_of r0"
    using assms(1) by (cases "wrapped_model q") (auto simp: generate_def)
  have one: "msg_rest (gen_message (sanitize_generation text_of g)) = msg_rest (gen_message g)"
      "gen_info (sanitize_generation text_of g) = gen_info g"
      "msg_content (gen_message (sanitize_generation text_of g)) = strip_reasoning (msg_content (gen_message g))"
      "gen_text g = text_of (msg_content (gen_message g)) \<Longrightarrow>
        gen_text (sanitize_generation text_of g) = text_of (strip_reasoning (msg_content (gen_message g)))"
    for g :: "('b, 'c, 'd) generation"
    by (auto simp: sanitize_generation_def ChatGeneration_def Let_def)
  show ?thesis
    using r0(1) assms(2) [OF r0(1), unfolded built_from_def]
    by (intro exI [of _ r0])
      (auto simp: r0(2) sanitize_def one strip_content_texts stripped_opens_nothing)
qed

subsection \<open>One answer\<close>

definition shown_text :: "nat content \<Rightarrow> code_points" where
  "shown_text c = concat (content_texts c)"

definition thinking_answer :: "(nat, string, nat, nat) chat_result" where
  "thinking_answer =
     \<lparr>generations = [ChatGeneration shown_text
        \<lparr>msg_content = TextContent (map of_char ''<think>a <think>b</think> c</think> hola''), msg_rest = ''call''\<rparr> 7], llm_output = 3\<rparr>"

theorem answers_are_sanitized_witness:
  "\<exists>r. generate shown_text (\<lambda>_ :: nat. Inr thinking_answer :: unit + (nat, string, nat, nat) chat_result) 0 = Inr r
    \<and> map gen_text (generations r) = [map of_char ''hola''] \<and> llm_output r = 3"
proof -
  let ?model = "\<lambda>_ :: nat. Inr thinking_answer :: unit + (nat, string, nat, nat) chat_result"
  have built: "built_from shown_text r0" if "?model 0 = Inr r0" for r0
    using that by (auto simp: thinking_answer_def ChatGeneration_def built_from_def)
  have g: "generate shown_text ?model 0 = Inr (sanitize shown_text thinking_answer)" by (simp add: generate_def)
  obtain r0 where r0: "?model 0 = Inr r0" and l: "llm_output (sanitize shown_text thinking_answer) = llm_output r0"
    using answers_are_sanitized [of shown_text ?model 0, OF g built] by blast
  have "thinking_answer = r0" using r0 by (simp only: sum.inject)
  then have "llm_output (sanitize shown_text thinking_answer) = 3" unfolding l by (auto simp: thinking_answer_def)
  moreover have "map gen_text (generations (sanitize shown_text thinking_answer)) = [map of_char ''hola'']" by code_simp
  ultimately show ?thesis by (intro exI [of _ "sanitize shown_text thinking_answer"] conjI g)
qed

theorem block_end_is_matching_witness:
  "find_block_end (map of_char ''<think>a <think>b</think> c</think> hola'') = 35
    \<and> drop 35 (map of_char ''<think>a <think>b</think> c</think> hola'') = (map of_char '' hola'' :: code_points)"
proof -
  let ?t = "map of_char ''<think>a <think>b</think> c</think> hola'' :: code_points"
  have e: "find_block_end ?t = 35" by code_simp
  have "tags ?t = Opening # tl (tags ?t)" by code_simp
  from block_end_is_matching [OF this] obtain vs where "drop (nat (find_block_end ?t)) ?t = spell vs" using e by auto
  moreover have "drop 35 ?t = map of_char '' hola''" by code_simp
  ultimately show ?thesis using e by blast
qed

end
