(* ===== verification/Agent_Spec.thy ===== *)
theory Agent_Spec
  imports Resolve
begin

section \<open>Agents defined in Python\<close>

text \<open>
  \<open>agent/spec.py\<close>: the parameters of \<open>Agent\<close> and \<open>Agent.from_folder\<close>, their checks, the frozen value, and the locator the
  loader resolves.  A parameter annotated as a string is one; the keys of mappings are strings.  The current directory of
  \<open>os.path.abspath\<close> is in the function \<open>absolute\<close>.
\<close>

subsection \<open>Frozen values\<close>

text \<open>A Python value; a \<open>Scalar\<close> is None, a bool, a number or a string.\<close>

datatype param =
    Scalar pyval
  | PyList "param list"
  | PyTuple "param list"
  | PySet "param list"
  | PyFrozenset "param list"
  | PyDict "(string \<times> param) list"
  | PyFrozen "(string \<times> param) list"

fun freeze :: "param \<Rightarrow> param" where
  "freeze (Scalar v) = Scalar v"
| "freeze (PyList vs) = PyTuple (map freeze vs)"
| "freeze (PyTuple vs) = PyTuple (map freeze vs)"
| "freeze (PySet vs) = PyFrozenset (map freeze vs)"
| "freeze (PyFrozenset vs) = PyFrozenset (map freeze vs)"
| "freeze (PyDict d) = PyFrozen (map (\<lambda>(k, v). (k, freeze v)) d)"
| "freeze (PyFrozen d) = PyFrozen (map (\<lambda>(k, v). (k, freeze v)) d)"

fun thaw :: "param \<Rightarrow> param" where
  "thaw (PyDict d) = PyDict (map (\<lambda>(k, v). (k, thaw v)) d)"
| "thaw (PyFrozen d) = PyDict (map (\<lambda>(k, v). (k, thaw v)) d)"
| "thaw (PyTuple vs) = PyList (map thaw vs)"
| "thaw v = v"

text \<open>No container of the value can change.\<close>

fun frozen :: "param \<Rightarrow> bool" where
  "frozen (Scalar v) = True"
| "frozen (PyTuple vs) = list_all frozen vs"
| "frozen (PyFrozenset vs) = list_all frozen vs"
| "frozen (PyFrozen d) = list_all (\<lambda>(k, v). frozen v) d"
| "frozen _ = False"

text \<open>The shapes a YAML file gives.\<close>

fun yaml_value :: "param \<Rightarrow> bool" where
  "yaml_value (Scalar v) = True"
| "yaml_value (PyList vs) = list_all yaml_value vs"
| "yaml_value (PyDict d) = list_all (\<lambda>(k, v). yaml_value v) d"
| "yaml_value _ = False"

text \<open>
  The loader's value of a parameter.  The loader's values have no sets; one inside a mapping, which no YAML file gives, is read
  as the list of its elements.
\<close>

fun plain :: "param \<Rightarrow> pyval" where
  "plain (Scalar v) = v"
| "plain (PyList vs) = PList (map plain vs)"
| "plain (PyTuple vs) = PList (map plain vs)"
| "plain (PySet vs) = PList (map plain vs)"
| "plain (PyFrozenset vs) = PList (map plain vs)"
| "plain (PyDict d) = PDict (map (\<lambda>(k, v). (k, plain v)) d)"
| "plain (PyFrozen d) = PDict (map (\<lambda>(k, v). (k, plain v)) d)"

lemma frozen_freeze: "frozen (freeze v)"
  by (induction v) (auto simp: list_all_iff)

lemma freeze_frozen: "frozen v \<Longrightarrow> freeze v = v"
  by (induction v) (auto simp: list_all_iff intro!: map_idI)

lemma thaw_freeze: "yaml_value v \<Longrightarrow> thaw (freeze v) = v"
  by (induction v) (auto simp: list_all_iff intro!: map_idI)

lemma plain_freeze [simp]: "plain (freeze v) = plain v"
  by (induction v) auto

lemma plain_thaw [simp]: "plain (thaw v) = plain v"
  by (induction v) auto

subsection \<open>The checks of the parameters\<close>

definition STR_LIST_PARAMS :: "string list" where "STR_LIST_PARAMS = [''tools'', ''skills'']"

definition MAPPING_PARAMS :: "string list" where
  "MAPPING_PARAMS =
     [''skill_contents'', ''context'', ''escalation_rules'', ''delegation_policy'', ''memory_policy'', ''audit_policy'']"

fun is_str :: "param \<Rightarrow> bool" where
  "is_str (Scalar (PStr _)) = True"
| "is_str _ = False"

fun str_items :: "param \<Rightarrow> bool" where
  "str_items (Scalar v) = (v = PNone \<or> is_str (Scalar v))"
| "str_items (PyList vs) = list_all is_str vs"
| "str_items (PyTuple vs) = list_all is_str vs"
| "str_items _ = False"

definition str_list :: "string \<Rightarrow> param \<Rightarrow> string list res" where
  "str_list name v = (if str_items v then Inr (as_str_list (plain v)) else Inl (DefinitionError name))"

definition strs :: "string list \<Rightarrow> param" where
  "strs xs = PyTuple (map (\<lambda>s. Scalar (PStr s)) xs)"

fun mapping_items :: "param \<Rightarrow> (string \<times> param) list option" where
  "mapping_items (PyDict d) = Some d"
| "mapping_items (PyFrozen d) = Some d"
| "mapping_items _ = None"

definition permission_item :: "string \<times> param \<Rightarrow> (string \<times> param) res" where
  "permission_item kv =
     (case kv of (k, v) \<Rightarrow>
        if k = ''inherit'' then Inr (k, v)
        else bindR (str_list (''permissions.'' @ k) v) (\<lambda>xs. Inr (k, strs xs)))"

definition permissions_param :: "param \<Rightarrow> param res" where
  "permissions_param v =
     (case mapping_items v of
        Some d \<Rightarrow>
          bindR (check_list_directive (plain v) ''permissions'') (\<lambda>_.
          bindR (mapR permission_item d) (\<lambda>d'. Inr (PyDict d')))
      | None \<Rightarrow>
          if v = Scalar (PStr ''inherit'') then Inr v
          else bindR (str_list ''permissions'' v) (\<lambda>xs. Inr (strs xs)))"

definition mapping_param :: "string \<Rightarrow> param \<Rightarrow> param res" where
  "mapping_param name v =
     (if v = Scalar PNone then Inr (PyDict [])
      else case mapping_items v of
        None \<Rightarrow> Inl (DefinitionError name)
      | Some d \<Rightarrow>
          bindR (if name \<in> set POLICY_FIELDS then check_mapping_directive (plain v) name else Inr ()) (\<lambda>_.
          bindR (guardR (name = ''skill_contents'' \<longrightarrow> list_all (is_str \<circ> snd) d) (DefinitionError ''skill_contents'')) (\<lambda>_.
            Inr v)))"

text \<open>One entry of \<open>_checked\<close>, and the whole of it: every entry, then \<open>untrusted_input\<close>.\<close>

definition checked_param :: "string \<Rightarrow> param \<Rightarrow> param res" where
  "checked_param name v =
     (if name \<in> set STR_LIST_PARAMS then bindR (str_list name v) (\<lambda>xs. Inr (strs xs))
      else if name \<in> set MAPPING_PARAMS then mapping_param name v
      else if name = ''permissions'' then permissions_param v
      else Inr v)"

definition checked :: "(string \<times> param) list \<Rightarrow> (string \<times> param) list res" where
  "checked params =
     bindR (mapR (\<lambda>(k, v). bindR (checked_param k v) (\<lambda>v'. Inr (k, v'))) params) (\<lambda>params'.
     bindR (parse_untrusted_input (map (\<lambda>(k, v). (k, plain v)) params)) (\<lambda>_.
       Inr params'))"

subsection \<open>The agent\<close>

text \<open>The keyword arguments of \<open>Agent(...)\<close> with their defaults filled in; \<open>untrusted_input\<close> is None when it is not declared.\<close>

record agent_args =
  ar_name :: string
  ar_tools :: param
  ar_permissions :: param
  ar_skills :: param
  ar_skill_contents :: param
  ar_context :: param
  ar_autonomy :: string
  ar_escalation_rules :: param
  ar_delegation_policy :: param
  ar_memory_policy :: param
  ar_audit_policy :: param
  ar_execution_limits :: param
  ar_model :: param
  ar_untrusted_input :: param
  ar_system_prompt :: string
  ar_version :: string

datatype agent =
    InlineAgent nat agent_args agent_parent
  | FolderAgent path "override_arg list"
and agent_parent = ExtName string | ExtAgent agent
and override_arg = OvArg string param | OvAgent agent

definition default_args :: "string \<Rightarrow> agent_args" where
  "default_args n =
     \<lparr>ar_name = n, ar_tools = PyTuple [], ar_permissions = PyTuple [], ar_skills = PyTuple [], ar_skill_contents = PyDict [],
      ar_context = PyDict [], ar_autonomy = '''', ar_escalation_rules = PyDict [], ar_delegation_policy = PyDict [],
      ar_memory_policy = PyDict [], ar_audit_policy = PyDict [], ar_execution_limits = Scalar PNone, ar_model = Scalar PNone,
      ar_untrusted_input = Scalar PNone, ar_system_prompt = '''', ar_version = ''1.0''\<rparr>"


text \<open>The fields \<open>_checked\<close> has a rule for; an undeclared \<open>untrusted_input\<close> is not parsed.\<close>

definition own_params :: "agent_args \<Rightarrow> (string \<times> param) list" where
  "own_params a =
     [(''tools'', ar_tools a), (''skills'', ar_skills a), (''skill_contents'', ar_skill_contents a), (''context'', ar_context a),
      (''escalation_rules'', ar_escalation_rules a), (''delegation_policy'', ar_delegation_policy a),
      (''memory_policy'', ar_memory_policy a), (''audit_policy'', ar_audit_policy a), (''permissions'', ar_permissions a)]
     @ (if ar_untrusted_input a = Scalar PNone then [] else [(''untrusted_input'', ar_untrusted_input a)])"

definition param_of :: "(string \<times> param) list \<Rightarrow> string \<Rightarrow> param" where
  "param_of ps k = (case map_of ps k of Some v \<Rightarrow> v | None \<Rightarrow> Scalar PNone)"

text \<open>The strings of a checked list, and the texts of a checked \<open>skill_contents\<close>.\<close>

definition strings_of :: "param \<Rightarrow> string list" where
  "strings_of v = as_str_list (plain v)"

definition texts_of :: "param \<Rightarrow> (string \<times> string) list" where
  "texts_of v = map (\<lambda>(k, t). (k, py_str t)) (dict_of (plain v))"

definition with_checked :: "agent_args \<Rightarrow> (string \<times> param) list \<Rightarrow> agent_args" where
  "with_checked a ps =
     a\<lparr>ar_tools := freeze (param_of ps ''tools''), ar_skills := freeze (param_of ps ''skills''),
       ar_skill_contents := freeze (param_of ps ''skill_contents''), ar_context := freeze (param_of ps ''context''),
       ar_escalation_rules := freeze (param_of ps ''escalation_rules''),
       ar_delegation_policy := freeze (param_of ps ''delegation_policy''),
       ar_memory_policy := freeze (param_of ps ''memory_policy''), ar_audit_policy := freeze (param_of ps ''audit_policy''),
       ar_permissions := freeze (param_of ps ''permissions''), ar_execution_limits := freeze (ar_execution_limits a),
       ar_model := freeze (ar_model a), ar_untrusted_input := freeze (ar_untrusted_input a)\<rparr>"

text \<open>\<open>Agent(...)\<close>: its \<open>__post_init__\<close> without a folder.\<close>

definition Agent :: "nat \<Rightarrow> agent_args \<Rightarrow> agent_parent \<Rightarrow> agent res" where
  "Agent oid a parent =
     bindR (checked (own_params a)) (\<lambda>ps.
     bindR (validate_inline_skills (strings_of (param_of ps ''skills'')) (texts_of (param_of ps ''skill_contents''))) (\<lambda>_.
       Inr (InlineAgent oid (with_checked a ps) parent)))"

definition AGENT_OVERRIDABLE_FIELDS :: "string list" where
  "AGENT_OVERRIDABLE_FIELDS =
     [''name'', ''extends'', ''tools'', ''permissions'', ''skills'', ''skill_contents'', ''context'', ''autonomy'', ''escalation_rules'',
      ''delegation_policy'', ''memory_policy'', ''audit_policy'', ''execution_limits'', ''model'', ''untrusted_input'',
      ''system_prompt'', ''version'']"

fun override_key :: "override_arg \<Rightarrow> string" where
  "override_key (OvArg k v) = k"
| "override_key (OvAgent a) = ''extends''"

fun value_args :: "override_arg list \<Rightarrow> (string \<times> param) list" where
  "value_args [] = []"
| "value_args (OvArg k v # os) = (k, v) # value_args os"
| "value_args (OvAgent a # os) = value_args os"

fun checked_arg :: "(string \<times> param) list \<Rightarrow> override_arg \<Rightarrow> override_arg" where
  "checked_arg ps (OvArg k v) = OvArg k (freeze (param_of ps k))"
| "checked_arg ps (OvAgent a) = OvAgent a"

text \<open>
  \<open>__post_init__\<close> with a folder; a frozen mapping of overrides means that \<open>dataclasses.replace\<close> rebuilds an agent.
\<close>

definition folder_post_init :: "bool \<Rightarrow> path \<Rightarrow> override_arg list \<Rightarrow> agent res" where
  "folder_post_init rebuilt folder overrides =
     bindR (guardR (\<not> rebuilt) (DefinitionError ''replace'')) (\<lambda>_.
     bindR (guardR (set (map override_key overrides) \<subseteq> set AGENT_OVERRIDABLE_FIELDS) (DefinitionError ''overrides'')) (\<lambda>_.
     bindR (checked (value_args overrides)) (\<lambda>ps.
     bindR (if ''skill_contents'' \<in> set (dkeys ps) \<and> ''skills'' \<in> set (dkeys ps)
            then validate_inline_skills (strings_of (param_of ps ''skills'')) (texts_of (param_of ps ''skill_contents''))
            else Inr ()) (\<lambda>_.
       Inr (FolderAgent folder (map (checked_arg ps) overrides))))))"

definition from_folder :: "path \<Rightarrow> override_arg list \<Rightarrow> agent res" where
  "from_folder folder overrides = folder_post_init False folder overrides"

text \<open>\<open>dataclasses.replace\<close>: an inline agent is constructed again from its fields and the changes.\<close>

fun replace_agent :: "nat \<Rightarrow> agent \<Rightarrow> (agent_args \<Rightarrow> agent_args) \<Rightarrow> agent res" where
  "replace_agent oid (InlineAgent _ a parent) change = Agent oid (change a) parent"
| "replace_agent oid (FolderAgent folder overrides) change = folder_post_init True folder overrides"

subsection \<open>The locator\<close>

text \<open>An override as the loader reads it.\<close>

definition override_value :: "string \<Rightarrow> param \<Rightarrow> override" where
  "override_value k v =
     (let p = plain (thaw v) in
      if k = ''name'' then OvName (py_str p)
      else if k = ''version'' then OvVersion (py_str p)
      else if k = ''system_prompt'' then OvSystemPrompt (py_str p)
      else if k = ''extends'' then OvExtendsValue p
      else if k = ''tools'' then OvTools (as_str_list p)
      else if k = ''skills'' then OvSkills (as_str_list p)
      else if k = ''skill_contents'' then OvSkillContents (texts_of (thaw v))
      else if k = ''context'' then OvContext (dict_of p)
      else if k = ''permissions'' then OvPermissions p
      else if k = ''autonomy'' then OvAutonomy (py_str p)
      else if k = ''escalation_rules'' then OvEscalationRules p
      else if k = ''delegation_policy'' then OvDelegationPolicy p
      else if k = ''memory_policy'' then OvMemoryPolicy p
      else if k = ''audit_policy'' then OvAuditPolicy p
      else if k = ''execution_limits'' then OvExecutionLimits p
      else if k = ''untrusted_input'' then OvUntrustedInput p
      else if k = ''model'' then OvModel p
      else OvOther k)"

definition untrusted_of :: "param \<Rightarrow> bool option" where
  "untrusted_of v = (case v of Scalar (PBool b) \<Rightarrow> Some b | _ \<Rightarrow> None)"

definition raw_of :: "agent_args \<Rightarrow> raw_definition" where
  "raw_of a =
     \<lparr>role_name = ar_name a, version = ar_version a, deployment = None, system_prompt = ar_system_prompt a,
      tools = strings_of (ar_tools a), skills = strings_of (ar_skills a), ctx = dict_of (plain (thaw (ar_context a))),
      permissions = plain (thaw (ar_permissions a)), autonomy = ar_autonomy a,
      escalation_rules = plain (thaw (ar_escalation_rules a)), delegation_policy = plain (thaw (ar_delegation_policy a)),
      memory_policy_decl = plain (thaw (ar_memory_policy a)), audit_policy = plain (thaw (ar_audit_policy a)),
      execution_limits = plain (thaw (ar_execution_limits a)), untrusted_input = untrusted_of (ar_untrusted_input a),
      command_tools = [], command_tool_declarations = [], skills_folder = None,
      inline_skills = texts_of (ar_skill_contents a), importer_root = None, model_decl = plain (thaw (ar_model a))\<rparr>"

fun to_locator :: "(path \<Rightarrow> path) \<Rightarrow> agent \<Rightarrow> locator"
  and parent_of :: "(path \<Rightarrow> path) \<Rightarrow> agent_parent \<Rightarrow> parent_ref"
  and override_of :: "(path \<Rightarrow> path) \<Rightarrow> override_arg \<Rightarrow> override" where
  "to_locator absolute (FolderAgent folder overrides) =
     FolderLocator folder (butlast (absolute folder)) (map (override_of absolute) overrides)"
| "to_locator absolute (InlineAgent oid a parent) = InlineLocator oid (raw_of a) (parent_of absolute parent)"
| "parent_of absolute (ExtName s) = ParentName s"
| "parent_of absolute (ExtAgent a) = ParentLocator (to_locator absolute a)"
| "override_of absolute (OvArg k v) = override_value k v"
| "override_of absolute (OvAgent a) = OvExtendsLocator (to_locator absolute a)"

subsection \<open>What the checks establish\<close>

lemma plain_strs [simp]: "plain (strs xs) = PList (map PStr xs)"
  by (simp add: strs_def comp_def)

lemma map_py_str [simp]: "map (py_str \<circ> PStr) xs = xs"
  by (simp add: comp_def)

lemma strings_of_strs [simp]: "strings_of (strs xs) = xs" "strings_of (freeze v) = strings_of v"
  by (simp_all add: strings_of_def)

lemma texts_of_freeze [simp]: "texts_of (freeze v) = texts_of v" "texts_of (thaw v) = texts_of v"
  by (simp_all add: texts_of_def)


lemma checked_entries:
  assumes "mapR (\<lambda>(k, v). bindR (checked_param k v) (\<lambda>v'. Inr (k, v'))) params = Inr ps"
  shows "map fst ps = map fst params \<and> (\<forall>k v. map_of params k = Some v \<longrightarrow> checked_param k v = Inr (param_of ps k))"
  using assms
proof (induction params arbitrary: ps)
  case (Cons kv params)
  obtain k v where kv: "kv = (k, v)" by (cases kv)
  from Cons.prems obtain v' ps' where c: "checked_param k v = Inr v'" "ps = (k, v') # ps'"
      "mapR (\<lambda>(k, v). bindR (checked_param k v) (\<lambda>v'. Inr (k, v'))) params = Inr ps'"
    by (auto simp: kv bindR_eq_Inr)
  then show ?case using Cons.IH [OF c(3)] by (auto simp: kv param_of_def)
qed simp

lemma checked_Inr:
  assumes "checked params = Inr ps"
  shows "map fst ps = map fst params" "\<And>k v. map_of params k = Some v \<Longrightarrow> checked_param k v = Inr (param_of ps k)"
    "\<And>v. map_of params ''untrusted_input'' = Some v \<Longrightarrow> \<exists>b. plain v = PBool b"
proof -
  obtain u where m: "mapR (\<lambda>(k, v). bindR (checked_param k v) (\<lambda>v'. Inr (k, v'))) params = Inr ps"
      and u: "parse_untrusted_input (map (\<lambda>(k, v). (k, plain v)) params) = Inr u"
    using assms by (auto simp: checked_def bindR_eq_Inr)
  show "map fst ps = map fst params" "\<And>k v. map_of params k = Some v \<Longrightarrow> checked_param k v = Inr (param_of ps k)"
    using checked_entries [OF m] by blast+
  show "\<exists>b. plain v = PBool b" if "map_of params ''untrusted_input'' = Some v" for v
    using u that by (auto simp: parse_untrusted_input_def map_of_map split: pyval.splits)
qed










lemma apply_override_skills:
  "skills (apply_override d ov) = (case ov of OvSkills xs \<Rightarrow> xs | _ \<Rightarrow> skills d)"
  "inline_skills (apply_override d ov) = (case ov of OvSkillContents m \<Rightarrow> m | _ \<Rightarrow> inline_skills d)"
proof -
  have "skills (apply_override d ov) = (case ov of OvSkills xs \<Rightarrow> xs | _ \<Rightarrow> skills d)
    \<and> inline_skills (apply_override d ov) = (case ov of OvSkillContents m \<Rightarrow> m | _ \<Rightarrow> inline_skills d)"
  proof (cases ov)
    case (OvUntrustedInput v)
    then show ?thesis by (cases v) simp_all
  qed simp_all
  then show "skills (apply_override d ov) = (case ov of OvSkills xs \<Rightarrow> xs | _ \<Rightarrow> skills d)"
    "inline_skills (apply_override d ov) = (case ov of OvSkillContents m \<Rightarrow> m | _ \<Rightarrow> inline_skills d)" by simp_all
qed

lemma overridden_skills:
  assumes "OvSkills xs \<in> set ovs" and "\<And>ys. OvSkills ys \<in> set ovs \<Longrightarrow> ys = xs"
  shows "skills (foldl apply_override d ovs) = xs"
  using assms
proof (induction ovs rule: rev_induct)
  case (snoc ov ovs)
  show ?case
  proof (cases "\<exists>ys. ov = OvSkills ys")
    case True
    then obtain ys where "ov = OvSkills ys" by blast
    then show ?thesis using snoc.prems(2) [of ys] by (simp add: apply_override_skills)
  next
    case False
    then have "OvSkills xs \<in> set ovs" using snoc.prems(1) by auto
    moreover have "ys = xs" if "OvSkills ys \<in> set ovs" for ys using snoc.prems(2) [of ys] that by simp
    ultimately have "skills (foldl apply_override d ovs) = xs" by (rule snoc.IH)
    then show ?thesis using False by (cases ov) (simp_all add: apply_override_skills)
  qed
qed simp

lemma overridden_skill_contents:
  assumes "OvSkillContents m \<in> set ovs" and "\<And>m'. OvSkillContents m' \<in> set ovs \<Longrightarrow> m' = m"
  shows "inline_skills (foldl apply_override d ovs) = m"
  using assms
proof (induction ovs rule: rev_induct)
  case (snoc ov ovs)
  show ?case
  proof (cases "\<exists>m'. ov = OvSkillContents m'")
    case True
    then obtain m' where "ov = OvSkillContents m'" by blast
    then show ?thesis using snoc.prems(2) [of m'] by (simp add: apply_override_skills)
  next
    case False
    then have "OvSkillContents m \<in> set ovs" using snoc.prems(1) by auto
    moreover have "m' = m" if "OvSkillContents m' \<in> set ovs" for m' using snoc.prems(2) [of m'] that by simp
    ultimately have "inline_skills (foldl apply_override d ovs) = m" by (rule snoc.IH)
    then show ?thesis using False by (cases ov) (simp_all add: apply_override_skills)
  qed
qed simp

lemma map_of_value_args:
  "distinct (map override_key os) \<Longrightarrow> OvArg k v \<in> set os \<Longrightarrow> map_of (value_args os) k = Some v"
  by (induction os rule: value_args.induct) force+

lemma value_args_keys: "k \<in> set (dkeys (value_args os)) \<longleftrightarrow> (\<exists>v. OvArg k v \<in> set os)"
  by (induction os rule: value_args.induct) (auto simp: dkeys_def)

lemma override_value_shape:
  shows "override_value k v = OvSkills xs \<longleftrightarrow> k = ''skills'' \<and> xs = strings_of v"
    and "override_value k v = OvSkillContents m \<longleftrightarrow> k = ''skill_contents'' \<and> m = texts_of v"
    and "override_value k v = OvUntrustedInput x \<longleftrightarrow> k = ''untrusted_input'' \<and> x = plain v"
    and "override_error (override_value k v) \<longleftrightarrow> k \<notin> set AGENT_OVERRIDABLE_FIELDS"
proof -
  show "override_value k v = OvSkills xs \<longleftrightarrow> k = ''skills'' \<and> xs = strings_of v"
    unfolding override_value_def Let_def if_distrib [of "\<lambda>z. z = OvSkills xs"] strings_of_def
    by (cases "k = ''skills''") auto
  show "override_value k v = OvSkillContents m \<longleftrightarrow> k = ''skill_contents'' \<and> m = texts_of v"
    unfolding override_value_def Let_def if_distrib [of "\<lambda>z. z = OvSkillContents m"]
    by (cases "k = ''skill_contents''") auto
  show "override_value k v = OvUntrustedInput x \<longleftrightarrow> k = ''untrusted_input'' \<and> x = plain v"
    unfolding override_value_def Let_def if_distrib [of "\<lambda>z. z = OvUntrustedInput x"]
    by (cases "k = ''untrusted_input''") auto
  show "override_error (override_value k v) \<longleftrightarrow> k \<notin> set AGENT_OVERRIDABLE_FIELDS"
    unfolding override_value_def Let_def if_distrib [of override_error] AGENT_OVERRIDABLE_FIELDS_def by simp
qed

text \<open>
  What \<open>Agent.from_folder\<close> accepts, the loader applies. Once a folder's agent has been built with its overrides, applying them
  to whatever the folder's files define succeeds; the one check left to the loader is that of skill texts given without
  a list of skills, which only the folder's own list decides.
\<close>

theorem accepted_overrides_apply:
  assumes "from_folder folder os = Inr ag" and "distinct (map override_key os)"
  shows "\<exists>ovs. to_locator absolute ag = FolderLocator folder (butlast (absolute folder)) ovs
    \<and> ((\<exists>d'. apply_agent_folder_overrides d ovs = Inr d')
       \<or> apply_agent_folder_overrides d ovs = Inl (DefinitionError ''skill_contents'')
          \<and> ''skill_contents'' \<in> set (map override_key os) \<and> ''skills'' \<notin> set (map override_key os))"
proof -
  obtain ps where k: "set (map override_key os) \<subseteq> set AGENT_OVERRIDABLE_FIELDS" and ps: "checked (value_args os) = Inr ps"
      and i: "''skill_contents'' \<in> set (dkeys ps) \<Longrightarrow> ''skills'' \<in> set (dkeys ps) \<Longrightarrow>
        validate_inline_skills (strings_of (param_of ps ''skills'')) (texts_of (param_of ps ''skill_contents'')) = Inr ()"
      and ag: "ag = FolderAgent folder (map (checked_arg ps) os)"
    using assms(1) by (auto simp: from_folder_def folder_post_init_def bindR_eq_Inr guardR_eq_Inr split: if_splits)
  define ovs where "ovs = map (override_of absolute \<circ> checked_arg ps) os"
  have shape: "ov \<in> set ovs \<longleftrightarrow> (\<exists>k v. OvArg k v \<in> set os \<and> ov = override_value k (freeze (param_of ps k)))
      \<or> (\<exists>a. OvAgent a \<in> set os \<and> ov = OvExtendsLocator (to_locator absolute a))" for ov
    by (auto simp: ovs_def image_iff elim!: override_key.cases) (metis checked_arg.simps override_of.simps override_key.cases)+
  have keys: "override_error ov = False" if "ov \<in> set ovs" for ov
    using that k by (force simp: shape override_value_shape)
  have unt: "untrusted_override_ok ov" if o: "ov \<in> set ovs" for ov
  proof (cases ov)
    case (OvUntrustedInput x)
    then obtain v where v: "OvArg ''untrusted_input'' v \<in> set os" "x = plain (param_of ps ''untrusted_input'')"
      using o by (auto simp: shape override_value_shape dest!: sym [of "OvUntrustedInput _"])
    have m: "map_of (value_args os) ''untrusted_input'' = Some v" by (rule map_of_value_args [OF assms(2) v(1)])
    have "param_of ps ''untrusted_input'' = v"
      using checked_Inr(2) [OF ps m] by (simp add: checked_param_def STR_LIST_PARAMS_def MAPPING_PARAMS_def)
    then show ?thesis using checked_Inr(3) [OF ps m] v(2) OvUntrustedInput by auto
  qed auto
  have ps_keys: "x \<in> set (dkeys ps) \<longleftrightarrow> (\<exists>v. OvArg x v \<in> set os)" for x
    using checked_Inr(1) [OF ps] value_args_keys [of x os] by (simp add: dkeys_def)
  show ?thesis
  proof (intro exI [of _ ovs] conjI)
    show "to_locator absolute ag = FolderLocator folder (butlast (absolute folder)) ovs" by (simp add: ag ovs_def comp_def)
    let ?d = "foldl apply_override d ovs"
    have res: "apply_agent_folder_overrides d ovs =
        bindR (if list_ex is_skill_contents ovs then validate_inline_skills (skills ?d) (inline_skills ?d) else Inr ()) (\<lambda>_. Inr ?d)"
      using keys unt by (simp add: apply_agent_folder_overrides_def list_ex_iff list_all_iff Let_def)
    show "(\<exists>d'. apply_agent_folder_overrides d ovs = Inr d')
       \<or> apply_agent_folder_overrides d ovs = Inl (DefinitionError ''skill_contents'')
          \<and> ''skill_contents'' \<in> set (map override_key os) \<and> ''skills'' \<notin> set (map override_key os)"
    proof (cases "list_ex is_skill_contents ovs")
      case False
      then show ?thesis using res by simp
    next
      case True
      then obtain v where sc: "OvArg ''skill_contents'' v \<in> set os"
        by (auto simp: list_ex_iff shape override_value_shape elim!: is_skill_contents.elims dest!: sym [of "OvSkillContents _"])
      show ?thesis
      proof (cases "\<exists>v. OvArg ''skills'' v \<in> set os")
        case sk: True
        have "OvSkills xs \<in> set ovs \<longleftrightarrow> xs = strings_of (param_of ps ''skills'')" for xs
          using sk by (auto simp: shape override_value_shape dest!: sym [of "OvSkills _"])
            (metis override_value_shape(1) strings_of_strs(2))
        then have s: "skills ?d = strings_of (param_of ps ''skills'')" by (intro overridden_skills) simp_all
        have "OvSkillContents m \<in> set ovs \<longleftrightarrow> m = texts_of (param_of ps ''skill_contents'')" for m
          using sc by (auto simp: shape override_value_shape dest!: sym [of "OvSkillContents _"])
            (metis override_value_shape(2) texts_of_freeze(1))
        then have t: "inline_skills ?d = texts_of (param_of ps ''skill_contents'')" by (intro overridden_skill_contents) simp_all
        have "validate_inline_skills (skills ?d) (inline_skills ?d) = Inr ()"
          unfolding s t by (rule i) (use sk sc ps_keys in blast)+
        then show ?thesis using res by simp
      next
        case False
        have "''skills'' \<notin> set (map override_key os)"
        proof
          assume "''skills'' \<in> set (map override_key os)"
          then obtain x where x: "x \<in> set os" "override_key x = ''skills''" by force
          show False
          proof (cases x)
            case (OvArg k v)
            then show ?thesis using x False by simp
          next
            case (OvAgent a)
            then show ?thesis using x(2) by simp
          qed
        qed
        moreover have "''skill_contents'' \<in> set (map override_key os)" using sc by force
        ultimately show ?thesis using res True
          by (cases "validate_inline_skills (skills ?d) (inline_skills ?d)")
            (auto simp: validate_inline_skills_def guardR_def split: if_splits)
      qed
    qed
  qed
qed

text \<open>
  An agent cannot be changed behind the loader's back. Every container of a value \<open>_freeze\<close> returns is immutable, freezing it
  again changes nothing, and \<open>_thaw\<close> gives back exactly the YAML value it came from.
\<close>

theorem frozen_values_thaw_back:
  "frozen (freeze v) \<and> freeze (freeze v) = freeze v \<and> (yaml_value v \<longrightarrow> thaw (freeze v) = v)"
  using frozen_freeze freeze_frozen thaw_freeze by blast

subsection \<open>One agent\<close>

definition demo_args :: agent_args where
  "demo_args = (default_args ''ventas'')\<lparr>ar_tools := Scalar (PStr ''read_catalog''),
     ar_permissions := PyDict [(''inherit'', Scalar (PBool True)), (''remove'', Scalar (PStr ''write:orders''))],
     ar_untrusted_input := Scalar (PBool True)\<rparr>"


theorem accepted_overrides_apply_witness:
  "\<exists>ag d'. from_folder [''agents'', ''ventas''] [OvArg ''untrusted_input'' (Scalar (PBool True))] = Inr ag
    \<and> apply_agent_folder_overrides (raw_of demo_args) [OvUntrustedInput (PBool True)] = Inr d'
    \<and> to_locator id ag = FolderLocator [''agents'', ''ventas''] [''agents''] [OvUntrustedInput (PBool True)]"
proof -
  let ?os = "[OvArg ''untrusted_input'' (Scalar (PBool True))]"
  have f: "from_folder [''agents'', ''ventas''] ?os = Inr (FolderAgent [''agents'', ''ventas''] ?os)" by code_simp
  have l: "to_locator id (FolderAgent [''agents'', ''ventas''] ?os) = FolderLocator [''agents'', ''ventas''] [''agents''] [OvUntrustedInput (PBool True)]"
    by code_simp
  have "distinct (map override_key ?os)" "''skill_contents'' \<notin> set (map override_key ?os)" by code_simp+
  then have "\<exists>d'. apply_agent_folder_overrides (raw_of demo_args) [OvUntrustedInput (PBool True)] = Inr d'"
    using accepted_overrides_apply [OF f, of id "raw_of demo_args"] unfolding l by auto
  then show ?thesis using f l by blast
qed

theorem frozen_values_thaw_back_witness:
  "thaw (freeze (PyDict [(''add'', PyList [Scalar (PStr ''read:catalog'')])])) = PyDict [(''add'', PyList [Scalar (PStr ''read:catalog'')])]"
proof -
  have "yaml_value (PyDict [(''add'', PyList [Scalar (PStr ''read:catalog'')])])" by simp
  then show ?thesis using frozen_values_thaw_back by blast
qed

end
