(* ===== verification/Operator.thy ===== *)
theory Operator
  imports Command_Tools Interceptor
begin

section \<open>The operator's tools\<close>

text \<open>
  \<open>connectors/operator.py\<close> without the life of a process, and the workspace of \<open>connectors/command_tools.py\<close>: the policies,
  the sandbox a command runs in, the terminal and the file reader.  The file system and the programs on the path are the
  record \<open>host\<close>.  A path of the file system is the list of its components from the root; texts are bytes until they are
  decoded.
\<close>

record host =
  hs_resolve :: "string \<Rightarrow> path res"
  hs_home :: string
  hs_cwd :: string
  hs_which :: "string \<Rightarrow> string option"
  hs_link :: "path \<Rightarrow> (bool \<times> string list) option"
  hs_is_file :: "path \<Rightarrow> bool res"
  hs_bytes :: "path \<Rightarrow> string res"
  hs_decode :: "string \<Rightarrow> string"

definition path_str :: "path \<Rightarrow> string" where
  "path_str p = (if p = [] then ''/'' else concat (map (\<lambda>c. ''/'' @ c) p))"

definition is_relative_to :: "path \<Rightarrow> path \<Rightarrow> bool" where
  "is_relative_to p base \<longleftrightarrow> take (length base) p = base"

subsection \<open>Policies\<close>

definition forbidden_candidates :: "host \<Rightarrow> string list" where
  "forbidden_candidates h = [''/'', ''/home'', ''/root'', ''/run'', ''/var/run'', ''/etc'', hs_home h, hs_cwd h]"

definition forbidden_sandbox_paths :: "host \<Rightarrow> path list res" where
  "forbidden_sandbox_paths h = mapR (hs_resolve h) (forbidden_candidates h)"

definition SECRETS_DIR :: string where "SECRETS_DIR = ''/etc/agents-system''"

record sandbox_policy =
  network :: bool
  extra_ro_binds :: "string list"
  max_memory_bytes :: int

definition default_sandbox :: sandbox_policy where
  "default_sandbox = \<lparr>network = False, extra_ro_binds = [], max_memory_bytes = 512 * 1024 * 1024\<rparr>"

definition check_ro_bind :: "host \<Rightarrow> string \<Rightarrow> unit res" where
  "check_ro_bind h p =
     bindR (hs_resolve h p) (\<lambda>resolved.
     bindR (hs_resolve h SECRETS_DIR) (\<lambda>secrets.
     bindR (guardR (\<not> is_relative_to resolved secrets) (ValueErr ''extra_ro_binds'')) (\<lambda>_.
     bindR (forbidden_sandbox_paths h) (\<lambda>forbidden.
       guardR (resolved \<notin> set forbidden) (ValueErr ''extra_ro_binds'')))))"

definition SandboxPolicy :: "host \<Rightarrow> sandbox_policy \<Rightarrow> sandbox_policy res" where
  "SandboxPolicy h s = bindR (eachR (check_ro_bind h) (extra_ro_binds s)) (\<lambda>_. Inr s)"

record terminal_policy =
  root :: string
  allowed_commands :: "string list"
  sandbox :: sandbox_policy
  timeout_s :: rat
  max_output_bytes :: int

definition TerminalPolicy :: "host \<Rightarrow> terminal_policy \<Rightarrow> terminal_policy res" where
  "TerminalPolicy h p =
     bindR (hs_resolve h (root p)) (\<lambda>resolved.
     bindR (forbidden_sandbox_paths h) (\<lambda>forbidden.
     bindR (guardR (resolved \<notin> set forbidden) (ValueErr ''root'')) (\<lambda>_. Inr p)))"

subsection \<open>What a call returns\<close>

text \<open>A refusal is its kind; the texts of the messages are left out.\<close>

datatype tool_output = Refusal string | CommandResult int string string bool | FileContent string bool

definition reject_null_bytes :: "string list \<Rightarrow> tool_output option" where
  "reject_null_bytes values =
     (if list_ex (\<lambda>v. CHR 0x00 \<in> set v) values then Some (Refusal ''invalid_input'') else None)"

definition truncate :: "host \<Rightarrow> string \<Rightarrow> int \<Rightarrow> string \<times> bool" where
  "truncate h raw limit = (hs_decode h (take (nat limit) raw), limit < int (length raw))"

text \<open>The chunks a stream gives until it ends; what is past the limit is read and dropped.\<close>

fun read_loop :: "int \<Rightarrow> string \<times> bool \<Rightarrow> string list \<Rightarrow> string \<times> bool" where
  "read_loop limit (kept, over) [] = (kept, over)"
| "read_loop limit (kept, over) (chunk # chunks) =
     (if chunk = [] then (kept, over)
      else let space_left = limit - int (length kept) in
           read_loop limit
             (if 0 < space_left then kept @ take (nat space_left) chunk else kept, over \<or> max space_left 0 < int (length chunk)) chunks)"

definition read_capped :: "string list option \<Rightarrow> int \<Rightarrow> string \<times> bool" where
  "read_capped stream limit = (case stream of None \<Rightarrow> ([], False) | Some chunks \<Rightarrow> read_loop limit ([], False) chunks)"

subsection \<open>The sandbox\<close>

definition child_env :: "terminal_policy \<Rightarrow> (string \<times> string) list" where
  "child_env p =
     [(''PATH'', ''/usr/local/bin:/usr/bin:/bin''), (''HOME'', root p), (''LANG'', ''C.UTF-8''), (''LC_ALL'', ''C.UTF-8'')]"

definition SYSTEM_RO_BINDS :: "string list" where
  "SYSTEM_RO_BINDS = [''/usr'', ''/bin'', ''/sbin'', ''/lib'', ''/lib64'']"

definition SYSTEM_ETC_BINDS :: "string list" where
  "SYSTEM_ETC_BINDS =
     [''/etc/ld.so.cache'', ''/etc/nsswitch.conf'', ''/etc/localtime'', ''/etc/ssl/certs'', ''/etc/ca-certificates'',
      ''/etc/pki/tls/certs'', ''/etc/alternatives'']"

definition NETWORK_ETC_BINDS :: "string list" where "NETWORK_ETC_BINDS = [''/etc/resolv.conf'']"

definition MAX_SYMLINK_HOPS :: nat where "MAX_SYMLINK_HOPS = 80"

text \<open>The walk along a path, as many steps as are left; the hops are in the order they are touched.\<close>

fun hop_walk :: "host \<Rightarrow> nat \<Rightarrow> path \<Rightarrow> string list \<Rightarrow> path list" where
  "hop_walk h 0 current pending = []"
| "hop_walk h (Suc n) current [] = []"
| "hop_walk h (Suc n) current (c # pending) =
     (let here = current @ [c] in
      here # (case hs_link h here of
                None \<Rightarrow> hop_walk h n here pending
              | Some (True, target) \<Rightarrow> hop_walk h n [] (target @ pending)
              | Some (False, target) \<Rightarrow> hop_walk h n current (target @ pending)))"

definition symlink_hops :: "host \<Rightarrow> string list \<Rightarrow> path list" where
  "symlink_hops h parts = hop_walk h MAX_SYMLINK_HOPS [] parts"

definition program_ro_binds :: "host \<Rightarrow> string \<Rightarrow> string list" where
  "program_ro_binds h program =
     (if \<not> starts_with program ''/'' then []
      else let hops = symlink_hops h (filter (\<lambda>c. c \<noteq> [] \<and> c \<noteq> ''.'') (split_on (CHR ''/'') program));
               roots = map (path_str \<circ> butlast) (filter (\<lambda>p. hs_link h p \<noteq> None) hops)
                       @ (if hops = [] then [] else [path_str (butlast (last hops))])
           in sort (remdups (filter (\<lambda>r. r \<noteq> ''/'') roots)))"

definition ro_bind :: "string \<Rightarrow> string list" where "ro_bind p = [''--ro-bind-try'', p, p]"

definition bwrap_argv :: "host \<Rightarrow> terminal_policy \<Rightarrow> string \<Rightarrow> string list \<Rightarrow> string list" where
  "bwrap_argv h p bwrap argv =
     [bwrap, ''--unshare-all'', ''--die-with-parent''] @ (if network (sandbox p) then [''--share-net''] else [])
     @ concat (map ro_bind (SYSTEM_RO_BINDS @ SYSTEM_ETC_BINDS @ (if network (sandbox p) then NETWORK_ETC_BINDS else [])))
     @ concat (map ro_bind (program_ro_binds h (hd argv)))
     @ concat (map ro_bind (extra_ro_binds (sandbox p)))
     @ [''--proc'', ''/proc'', ''--dev'', ''/dev'', ''--tmpfs'', ''/tmp'', ''--bind'', root p, root p, ''--chdir'', root p, ''--clearenv'']
     @ concat (map (\<lambda>(k, v). [''--setenv'', k, v]) (child_env p))
     @ [''--''] @ argv"

text \<open>\<open>int\<close> cuts a number towards zero.\<close>

definition py_int :: "rat \<Rightarrow> int" where "py_int x = (if x < 0 then - floor (- x) else floor x)"

definition prlimit_argv :: "terminal_policy \<Rightarrow> string \<Rightarrow> string list \<Rightarrow> string list" where
  "prlimit_argv p prlimit wrapped =
     [prlimit, ''--as='' @ int_str (max_memory_bytes (sandbox p)), ''--cpu='' @ int_str (max (py_int (timeout_s p) + 5) 5), ''--'']
     @ wrapped"

text \<open>
  What is spawned for a command, or the refusal: \<open>_run_argv\<close> up to the spawn.  The process is \<open>execute\<close>.
\<close>

definition sandboxed :: "host \<Rightarrow> terminal_policy \<Rightarrow> string list \<Rightarrow> tool_output + string list" where
  "sandboxed h p argv =
     (case hs_which h ''bwrap'' of
        None \<Rightarrow> Inl (Refusal ''sandbox_unavailable'')
      | Some bwrap \<Rightarrow>
          (case hs_which h ''prlimit'' of
             None \<Rightarrow> Inl (Refusal ''sandbox_unavailable'')
           | Some prlimit \<Rightarrow> Inr (prlimit_argv p prlimit (bwrap_argv h p bwrap argv))))"

definition run_argv :: "host \<Rightarrow> (string list \<Rightarrow> tool_output res) \<Rightarrow> terminal_policy \<Rightarrow> string list \<Rightarrow> tool_output res" where
  "run_argv h execute p argv = (case sandboxed h p argv of Inl refusal \<Rightarrow> Inr refusal | Inr full \<Rightarrow> execute full)"

definition missing_at_boot :: "host \<Rightarrow> string list" where
  "missing_at_boot h = filter (\<lambda>name. hs_which h name = None) [''bwrap'', ''prlimit'']"

subsection \<open>The tools\<close>

fun string_items :: "pyval list \<Rightarrow> string list option" where
  "string_items [] = Some []"
| "string_items (PStr s # vs) = map_option (\<lambda>xs. s # xs) (string_items vs)"
| "string_items (_ # vs) = None"

definition use_term :: "host \<Rightarrow> (string list \<Rightarrow> tool_output res) \<Rightarrow> terminal_policy \<Rightarrow> dict \<Rightarrow> tool_output res" where
  "use_term h execute p inputs =
     (case dget inputs ''argv'' of
        PList vs \<Rightarrow>
          if vs = [] then Inr (Refusal ''invalid_argv'')
          else (case string_items vs of
                  None \<Rightarrow> Inr (Refusal ''invalid_argv'')
                | Some argv \<Rightarrow>
                    (case reject_null_bytes argv of
                       Some r \<Rightarrow> Inr r
                     | None \<Rightarrow>
                         if hd argv \<notin> set (allowed_commands p) then Inr (Refusal ''command_not_allowed'')
                         else run_argv h execute p argv))
      | _ \<Rightarrow> Inr (Refusal ''invalid_argv''))"

text \<open>\<open>except (OSError, ValueError)\<close>, and \<open>except OSError\<close>.\<close>

fun os_error :: "err \<Rightarrow> bool" where
  "os_error (Raised kind m) = (kind = ''OSError'')"
| "os_error _ = False"

fun value_error :: "err \<Rightarrow> bool" where
  "value_error (ValueErr m) = True"
| "value_error _ = False"

definition joined :: "path \<Rightarrow> string \<Rightarrow> string" where
  "joined base raw = (if starts_with raw ''/'' then raw else path_str base @ ''/'' @ raw)"

definition read_bounded :: "host \<Rightarrow> path \<Rightarrow> int \<Rightarrow> (string \<times> bool) res" where
  "read_bounded h p limit =
     bindR (hs_bytes h p) (\<lambda>content.
       let data = take (nat (limit + 1)) content in Inr (take (nat limit) data, limit < int (length data)))"

definition read_file :: "host \<Rightarrow> terminal_policy \<Rightarrow> path \<Rightarrow> dict \<Rightarrow> tool_output res" where
  "read_file h p base inputs =
     (case dget inputs ''path'' of
        PStr raw \<Rightarrow>
          if raw = [] then Inr (Refusal ''invalid_path'')
          else (case reject_null_bytes [raw] of
                  Some r \<Rightarrow> Inr r
                | None \<Rightarrow>
                    (case hs_resolve h (joined base raw) of
                       Inl e \<Rightarrow> if os_error e \<or> value_error e then Inr (Refusal ''invalid_path'') else Inl e
                     | Inr candidate \<Rightarrow>
                         if \<not> is_relative_to candidate base then Inr (Refusal ''path_outside_root'')
                         else (case hs_is_file h candidate of
                                 Inl e \<Rightarrow> if os_error e then Inr (Refusal ''invalid_path'') else Inl e
                               | Inr False \<Rightarrow> Inr (Refusal ''not_found'')
                               | Inr True \<Rightarrow>
                                   (case read_bounded h candidate (max_output_bytes p) of
                                      Inl e \<Rightarrow> if os_error e then Inr (Refusal ''read_failed'') else Inl e
                                    | Inr (data, over) \<Rightarrow> Inr (FileContent (hs_decode h data) over)))))
      | _ \<Rightarrow> Inr (Refusal ''invalid_path''))"

datatype operator_connector = UseTerm terminal_policy | ReadFile terminal_policy path | Unconfigured string

fun call_connector :: "host \<Rightarrow> (string list \<Rightarrow> tool_output res) \<Rightarrow> operator_connector \<Rightarrow> dict \<Rightarrow> tool_output res" where
  "call_connector h execute (UseTerm p) inputs = use_term h execute p inputs"
| "call_connector h execute (ReadFile p base) inputs = read_file h p base inputs"
| "call_connector h execute (Unconfigured tool) inputs = Inr (Refusal ''not_configured'')"

definition build_terminal_connector :: "terminal_policy \<Rightarrow> operator_connector" where
  "build_terminal_connector p = UseTerm p"

definition build_file_reader_connector :: "host \<Rightarrow> terminal_policy \<Rightarrow> operator_connector res" where
  "build_file_reader_connector h p = bindR (hs_resolve h (root p)) (\<lambda>base. Inr (ReadFile p base))"

definition object_schema :: "string \<Rightarrow> dict \<Rightarrow> dict" where
  "object_schema field shape =
     [(''type'', PStr ''object''), (''properties'', PDict [(field, PDict shape)]), (''required'', PList [PStr field])]"

definition operator_spec :: "string \<Rightarrow> string \<Rightarrow> string \<Rightarrow> dict \<Rightarrow> 'c \<Rightarrow> 'c tool_spec" where
  "operator_spec name description perm schema c =
     \<lparr>ts_name = name, required_permissions = [perm], connector = c, ts_tier = T3, ts_description = description,
      input_schema = schema, always_revalidate = True, subject_scoped = False, needs_user_memory = False,
      memory_access = None, memory_scope = ''local''\<rparr>"

definition USE_TERM_DESCRIPTION :: string where
  "USE_TERM_DESCRIPTION =
     ''Run one command from a pre-approved allowlist inside this deployment'' @ [CHR 0x27] @ ''s working root. ''
     @ ''Pass `argv` as a LIST of strings, e.g. [\"ls\", \"-la\"] - there is no shell, so \";\", \"|\" and \"&&\" are ordinary ''
     @ ''text and will not chain commands. A command outside the allowlist is refused; check `error_kind` before reporting a result.''"

definition READ_FILE_DESCRIPTION :: string where
  "READ_FILE_DESCRIPTION =
     ''Read a UTF-8 text file by path relative to this deployment'' @ [CHR 0x27] @ ''s root. Paths that resolve outside that root ''
     @ ''- including via `..` or a symlink - are refused. Long files come back truncated with `truncated: true`; ''
     @ ''never state that a file ends where a truncated read ends.''"

definition specs :: "registry \<Rightarrow> 'c \<Rightarrow> 'c \<Rightarrow> 'c tool_spec list res" where
  "specs reg term reader =
     mapR (ToolSpec reg)
       [operator_spec ''use_term'' USE_TERM_DESCRIPTION ''exec:command''
          (object_schema ''argv'' [(''type'', PStr ''array''), (''items'', PDict [(''type'', PStr ''string'')]),
             (''description'', PStr ''Command and arguments as separate strings. Never a single command line.'')]) term,
        operator_spec ''read_file'' READ_FILE_DESCRIPTION ''read:files'' (object_schema ''path'' [(''type'', PStr ''string''), (''description'', PStr ''Path relative to the deployment root.'')]) reader]"

definition refusing_specs :: "registry \<Rightarrow> operator_connector tool_spec list res" where
  "refusing_specs reg = specs reg (Unconfigured ''use_term'') (Unconfigured ''read_file'')"

definition build_specs :: "registry \<Rightarrow> host \<Rightarrow> terminal_policy \<Rightarrow> operator_connector tool_spec list res" where
  "build_specs reg h p = bindR (build_file_reader_connector h p) (\<lambda>reader. specs reg (build_terminal_connector p) reader)"

text \<open>The specifications of an unconfigured deployment are built once and kept.\<close>

definition build_operator_tool_specs ::
  "registry \<Rightarrow> host \<Rightarrow> terminal_policy option \<Rightarrow> operator_connector tool_spec list option
   \<Rightarrow> operator_connector tool_spec list res \<times> operator_connector tool_spec list option" where
  "build_operator_tool_specs reg h policy memo =
     (case policy of
        Some p \<Rightarrow> (build_specs reg h p, memo)
      | None \<Rightarrow>
          (case memo of
             Some ss \<Rightarrow> (Inr ss, memo)
           | None \<Rightarrow> (case refusing_specs reg of Inl e \<Rightarrow> (Inl e, None) | Inr ss \<Rightarrow> (Inr ss, Some ss))))"

text \<open>A declared command tool runs in a workspace of its own, made for the call.\<close>

definition command_tool_policy :: "string \<Rightarrow> command_tool_declaration \<Rightarrow> terminal_policy" where
  "command_tool_policy workdir d =
     \<lparr>root = workdir, allowed_commands = [hd (ct_argv d)], sandbox = default_sandbox, timeout_s = 10, max_output_bytes = 8192\<rparr>"

definition call_command_tool ::
  "host \<Rightarrow> (string list \<Rightarrow> tool_output res) \<Rightarrow> (string \<Rightarrow> string \<Rightarrow> bool) \<Rightarrow> string \<Rightarrow> command_tool_declaration \<Rightarrow> pyval \<Rightarrow> tool_output res" where
  "call_command_tool h execute fullmatch workdir d inputs =
     bindR (run_command_tool fullmatch d inputs) (\<lambda>r. case r of
        Refused kind \<Rightarrow> Inr (Refusal kind)
      | Executed argv \<Rightarrow>
          bindR (SandboxPolicy h default_sandbox) (\<lambda>_.
          bindR (TerminalPolicy h (command_tool_policy workdir d)) (\<lambda>p. run_argv h execute p argv)))"

subsection \<open>What the sandbox is\<close>

text \<open>How \<open>bwrap\<close> reads its command line: options with their arguments up to a double dash, then the command.\<close>

definition bwrap_arity :: "string \<Rightarrow> nat option" where
  "bwrap_arity name =
     (if name \<in> {''--unshare-all'', ''--die-with-parent'', ''--share-net'', ''--clearenv''} then Some 0
      else if name \<in> {''--proc'', ''--dev'', ''--tmpfs'', ''--chdir''} then Some 1
      else if name \<in> {''--ro-bind-try'', ''--bind'', ''--setenv''} then Some 2 else None)"

type_synonym bwrap_option = "string \<times> string list"

function bwrap_read :: "string list \<Rightarrow> (bwrap_option list \<times> string list) option" where
  "bwrap_read [] = None"
| "bwrap_read (x # xs) =
     (if x = ''--'' then Some ([], xs)
      else case bwrap_arity x of
             None \<Rightarrow> None
           | Some n \<Rightarrow> if length xs < n then None
               else map_option (\<lambda>(os, cmd). ((x, take n xs) # os, cmd)) (bwrap_read (drop n xs)))"
  by pat_completeness auto
termination by (relation "measure length") auto

definition spell_options :: "bwrap_option list \<Rightarrow> string list" where
  "spell_options os = concat (map (\<lambda>(x, args). x # args) os)"

lemma bwrap_read_options:
  assumes "\<forall>(x, args) \<in> set os. bwrap_arity x = Some (length args) \<and> x \<noteq> ''--''"
  shows "bwrap_read (spell_options os @ ''--'' # cmd) = Some (os, cmd)"
  using assms by (induction os) (auto simp: spell_options_def)

definition read_only :: "string \<Rightarrow> bwrap_option" where "read_only p = (''--ro-bind-try'', [p, p])"

definition sandbox_options :: "host \<Rightarrow> terminal_policy \<Rightarrow> string \<Rightarrow> bwrap_option list" where
  "sandbox_options h p program =
     [(''--unshare-all'', []), (''--die-with-parent'', [])] @ (if network (sandbox p) then [(''--share-net'', [])] else [])
     @ map read_only (SYSTEM_RO_BINDS @ SYSTEM_ETC_BINDS @ (if network (sandbox p) then NETWORK_ETC_BINDS else [])
         @ program_ro_binds h program @ extra_ro_binds (sandbox p))
     @ [(''--proc'', [''/proc'']), (''--dev'', [''/dev'']), (''--tmpfs'', [''/tmp'']), (''--bind'', [root p, root p]),
        (''--chdir'', [root p]), (''--clearenv'', [])]
     @ map (\<lambda>(k, v). (''--setenv'', [k, v])) (child_env p)"

lemma spell_options_append: "spell_options (os @ os') = spell_options os @ spell_options os'"
  by (simp add: spell_options_def)

lemma spell_read_only: "spell_options (map read_only ps) = concat (map ro_bind ps)"
  by (induction ps) (simp_all add: spell_options_def read_only_def ro_bind_def)

lemma spell_setenv: "spell_options (map (\<lambda>(k, v). (''--setenv'', [k, v])) e) = concat (map (\<lambda>(k, v). [''--setenv'', k, v]) e)"
  by (induction e) (auto simp: spell_options_def)

lemma bwrap_argv_options: "bwrap_argv h p bwrap argv = bwrap # spell_options (sandbox_options h p (hd argv)) @ ''--'' # argv"
proof -
  have s: "spell_options [(''--unshare-all'', []), (''--die-with-parent'', [])] = [''--unshare-all'', ''--die-with-parent'']"
    "spell_options (if network (sandbox p) then [(''--share-net'', [])] else []) = (if network (sandbox p) then [''--share-net''] else [])"
    "spell_options [(''--proc'', [''/proc'']), (''--dev'', [''/dev'']), (''--tmpfs'', [''/tmp'']), (''--bind'', [root p, root p]),
        (''--chdir'', [root p]), (''--clearenv'', [])]
      = [''--proc'', ''/proc'', ''--dev'', ''/dev'', ''--tmpfs'', ''/tmp'', ''--bind'', root p, root p, ''--chdir'', root p, ''--clearenv'']"
    by (simp_all add: spell_options_def)
  show ?thesis
    unfolding bwrap_argv_def sandbox_options_def spell_options_append s spell_read_only spell_setenv map_append concat_append append.assoc
    by simp
qed

text \<open>
  C27 The command of the model cannot open the sandbox. Whatever the arguments are, \<open>bwrap\<close> reads exactly the options of the
  policy and runs exactly the given command: every namespace is unshared, the network is shared only when the policy says so, the
  workspace is the only path bound read-write, everything else is read-only and comes from the system's list, the program's
  own directories or the policy, and the environment is cleared and set to the four fixed variables.
\<close>

theorem sandbox_is_closed:
  "\<exists>os. bwrap_read (tl (bwrap_argv h p bwrap argv)) = Some (os, argv)
    \<and> (''--unshare-all'', []) \<in> set os \<and> (''--clearenv'', []) \<in> set os
    \<and> ((''--share-net'', []) \<in> set os \<longleftrightarrow> network (sandbox p))
    \<and> (\<forall>args. (''--bind'', args) \<in> set os \<longleftrightarrow> args = [root p, root p])
    \<and> (\<forall>args. (''--setenv'', args) \<in> set os \<longleftrightarrow> (\<exists>(k, v) \<in> set (child_env p). args = [k, v]))
    \<and> (\<forall>args. (''--ro-bind-try'', args) \<in> set os \<longleftrightarrow>
        (\<exists>d. args = [d, d] \<and> d \<in> set SYSTEM_RO_BINDS \<union> set SYSTEM_ETC_BINDS \<union> set (program_ro_binds h (hd argv)) \<union> set (extra_ro_binds (sandbox p))
           \<union> (if network (sandbox p) then set NETWORK_ETC_BINDS else {})))"
proof -
  let ?os = "sandbox_options h p (hd argv)"
  have "\<forall>(x, args) \<in> set ?os. bwrap_arity x = Some (length args) \<and> x \<noteq> ''--''"
    by (auto simp: sandbox_options_def read_only_def bwrap_arity_def)
  then have "bwrap_read (tl (bwrap_argv h p bwrap argv)) = Some (?os, argv)"
    by (simp add: bwrap_argv_options bwrap_read_options)
  then show ?thesis
    by (intro exI [of _ ?os]) (auto simp: sandbox_options_def read_only_def image_iff intro: rev_bexI)
qed

lemma program_binds_not_root: "''/'' \<notin> set (program_ro_binds h program)"
  by (simp add: program_ro_binds_def Let_def)

subsection \<open>What the terminal runs\<close>

lemma string_items_map: "string_items vs = Some xs \<longleftrightarrow> vs = map PStr xs"
proof (induction vs arbitrary: xs rule: string_items.induct)
  case (2 s vs)
  then show ?case by (cases xs) auto
qed auto

text \<open>
  C29 The model runs only what the deployment allowed. A call of \<open>use_term\<close> is refused, or spawns exactly the sandboxed form of the
  arguments it was given as a list of strings, whose program is on the allowlist and none of which holds a null byte; without
  \<open>bwrap\<close> or \<open>prlimit\<close> nothing is spawned.
\<close>

theorem use_term_runs_allowed_only:
  "(\<exists>kind. use_term h execute p inputs = Inr (Refusal kind))
    \<or> (\<exists>argv bwrap prlimit. dget inputs ''argv'' = PList (map PStr argv) \<and> argv \<noteq> [] \<and> hd argv \<in> set (allowed_commands p)
         \<and> (\<forall>a \<in> set argv. CHR 0x00 \<notin> set a) \<and> hs_which h ''bwrap'' = Some bwrap \<and> hs_which h ''prlimit'' = Some prlimit
         \<and> use_term h execute p inputs = execute (prlimit_argv p prlimit (bwrap_argv h p bwrap argv)))"
proof (cases "dget inputs ''argv''")
  case (PList vs)
  show ?thesis
  proof (cases "vs = [] \<or> string_items vs = None")
    case True
    then show ?thesis using PList by (auto simp: use_term_def)
  next
    case False
    then obtain argv where a: "string_items vs = Some argv" "vs \<noteq> []" by auto
    then have v: "vs = map PStr argv" "argv \<noteq> []" using string_items_map by auto
    have u: "use_term h execute p inputs =
        (case reject_null_bytes argv of Some r \<Rightarrow> Inr r
         | None \<Rightarrow> if hd argv \<notin> set (allowed_commands p) then Inr (Refusal ''command_not_allowed'') else run_argv h execute p argv)"
      using PList a by (simp add: use_term_def)
    show ?thesis
    proof (cases "list_ex (\<lambda>v. CHR 0x00 \<in> set v) argv \<or> hd argv \<notin> set (allowed_commands p)")
      case True
      then show ?thesis using u by (auto simp: reject_null_bytes_def)
    next
      case False
      then have r: "use_term h execute p inputs = run_argv h execute p argv" "\<forall>a \<in> set argv. CHR 0x00 \<notin> set a"
        using u by (auto simp: reject_null_bytes_def list_ex_iff)
      show ?thesis
        using PList v False r by (cases "hs_which h ''bwrap''"; cases "hs_which h ''prlimit''") (auto simp: run_argv_def sandboxed_def)
    qed
  qed
qed (simp_all add: use_term_def)

subsection \<open>What the reader reads\<close>

text \<open>
  C30 \<open>read_file\<close> reads under the root. Content comes from a file whose resolved path is the root or below it, as the file system
  resolved it with every link followed; it is the beginning of that file, at most the limit long, and it is marked
  as truncated exactly when the file is longer.
\<close>

theorem read_file_contained:
  assumes "read_file h p base inputs = Inr (FileContent text over)" and "0 \<le> max_output_bytes p"
  shows "\<exists>raw candidate content. dget inputs ''path'' = PStr raw \<and> hs_resolve h (joined base raw) = Inr candidate
    \<and> is_relative_to candidate base \<and> hs_is_file h candidate = Inr True \<and> hs_bytes h candidate = Inr content
    \<and> text = hs_decode h (take (nat (max_output_bytes p)) content)
    \<and> (over \<longleftrightarrow> max_output_bytes p < int (length content))"
proof -
  obtain raw candidate where c: "dget inputs ''path'' = PStr raw" "hs_resolve h (joined base raw) = Inr candidate"
      "is_relative_to candidate base" "hs_is_file h candidate = Inr True"
      and r: "(case read_bounded h candidate (max_output_bytes p) of
        Inl e \<Rightarrow> if os_error e then Inr (Refusal ''read_failed'') else Inl e
      | Inr (data, over) \<Rightarrow> Inr (FileContent (hs_decode h data) over)) = Inr (FileContent text over)"
    using assms(1) unfolding read_file_def
    by (auto simp: reject_null_bytes_def split: pyval.splits if_splits option.splits sum.splits bool.splits)
  obtain data where d: "read_bounded h candidate (max_output_bytes p) = Inr (data, over)" "text = hs_decode h data"
    using r by (auto split: sum.splits if_splits prod.splits)
  obtain content where b: "hs_bytes h candidate = Inr content"
      "data = take (nat (max_output_bytes p)) (take (nat (max_output_bytes p + 1)) content)"
      "over \<longleftrightarrow> max_output_bytes p < int (length (take (nat (max_output_bytes p + 1)) content))"
    using d(1) by (auto simp: read_bounded_def bindR_eq_Inr Let_def)
  have "data = take (nat (max_output_bytes p)) content" using b(2) assms(2) by (simp add: min_def nat_le_eq_zle)
  moreover have "over \<longleftrightarrow> max_output_bytes p < int (length content)" using b(3) assms(2) by (auto simp: min_def split: if_splits)
  ultimately show ?thesis using c d(2) b(1) by blast
qed

text \<open>
  Reading a stream in chunks keeps its beginning. Whatever the chunks are, what is kept is the first bytes of the whole output
  up to the limit, and the output is marked as truncated exactly when there was more.
\<close>

lemma read_loop_exact:
  assumes "\<forall>c \<in> set chunks. c \<noteq> []" and "0 \<le> limit" and "int (length kept) \<le> limit"
  shows "read_loop limit (kept, over) chunks =
    (kept @ take (nat limit - length kept) (concat chunks), over \<or> limit < int (length kept + length (concat chunks)))"
  using assms
proof (induction chunks arbitrary: kept over)
  case (Cons c cs)
  let ?r = "limit - int (length kept)"
  let ?kept = "if 0 < ?r then kept @ take (nat ?r) c else kept"
  have len: "int (length ?kept) \<le> limit" using Cons.prems by (auto simp: min_def)
  have n: "nat ?r = nat limit - length kept" using Cons.prems by auto
  have k: "?kept = kept @ take (nat limit - length kept) c" using Cons.prems n by auto
  have "read_loop limit (kept, over) (c # cs) = read_loop limit (?kept, over \<or> max ?r 0 < int (length c)) cs"
    using Cons.prems by (simp add: Let_def)
  also have "\<dots> = (?kept @ take (nat limit - length ?kept) (concat cs),
      (over \<or> max ?r 0 < int (length c)) \<or> limit < int (length ?kept + length (concat cs)))"
    by (rule Cons.IH) (use Cons.prems len in auto)
  also have "?kept @ take (nat limit - length ?kept) (concat cs) = kept @ take (nat limit - length kept) (concat (c # cs))"
    unfolding k by (simp add: min_def)
  also have "(over \<or> max ?r 0 < int (length c)) \<or> limit < int (length ?kept + length (concat cs)) \<longleftrightarrow>
      over \<or> limit < int (length kept + length (concat (c # cs)))"
    unfolding k using Cons.prems by (auto simp: min_def)
  finally show ?case .
qed auto

theorem read_capped_keeps_the_beginning:
  assumes "\<forall>c \<in> set chunks. c \<noteq> []" and "0 \<le> limit"
  shows "read_capped (Some chunks) limit = (take (nat limit) (concat chunks), limit < int (length (concat chunks)))"
  using read_loop_exact [OF assms, of "[]" False] assms(2) by (simp add: read_capped_def)

subsection \<open>How the tools are registered\<close>

lemma ToolSpec_Inr: "ToolSpec reg s = Inr s' \<Longrightarrow> s' = s"
  by (auto simp: ToolSpec_def bindR_eq_Inr)

text \<open>
  The operator's tools are always revalidated, and without a policy they do nothing. Whatever policy a deployment gives, both
  specifications are of the highest tier and marked for revalidation, so the interceptor checks every call of them against
  the caller's current permissions; without a policy every call of either is refused.
\<close>

theorem operator_tools_guarded:
  assumes "fst (build_operator_tool_specs reg h policy None) = Inr ss" and "spec \<in> set ss"
  shows "ts_tier spec = T3 \<and> always_revalidate spec \<and> ts_name spec \<in> {''use_term'', ''read_file''}
    \<and> (revalidate preg rt spec current = Inr () \<longleftrightarrow> revalidated_for preg rt spec current)
    \<and> (policy = None \<longrightarrow> call_connector h execute (connector spec) inputs = Inr (Refusal ''not_configured''))"
proof -
  obtain tm rd where s: "specs reg tm rd = Inr ss"
      and n: "policy = None \<Longrightarrow> tm = Unconfigured ''use_term'' \<and> rd = Unconfigured ''read_file''"
    using assms(1)
    by (cases policy) (auto simp: build_operator_tool_specs_def build_specs_def bindR_eq_Inr refusing_specs_def split: sum.splits)
  have "spec \<in> {operator_spec ''use_term'' USE_TERM_DESCRIPTION ''exec:command''
          (object_schema ''argv'' [(''type'', PStr ''array''), (''items'', PDict [(''type'', PStr ''string'')]),
             (''description'', PStr ''Command and arguments as separate strings. Never a single command line.'')]) tm,
        operator_spec ''read_file'' READ_FILE_DESCRIPTION ''read:files''
          (object_schema ''path'' [(''type'', PStr ''string''), (''description'', PStr ''Path relative to the deployment root.'')]) rd}"
    using s assms(2) by (auto simp: specs_def bindR_eq_Inr dest!: ToolSpec_Inr)
  then have "ts_tier spec = T3 \<and> always_revalidate spec \<and> ts_name spec \<in> {''use_term'', ''read_file''} \<and> connector spec \<in> {tm, rd}"
    by (auto simp: operator_spec_def)
  moreover have "is_sensitive spec" using calculation by (simp add: is_sensitive_def)
  ultimately show ?thesis using n revalidate_ok [of preg rt spec current] by auto
qed

text \<open>
  A policy that was accepted does not root the terminal in a forbidden directory, and binds neither one nor anything of the
  secrets directory read-only.
\<close>

theorem accepted_policies_avoid_forbidden_paths:
  assumes "SandboxPolicy h (sandbox p) = Inr s" and "TerminalPolicy h p = Inr p'"
  shows "\<exists>forbidden resolved secrets. forbidden_sandbox_paths h = Inr forbidden \<and> hs_resolve h (root p) = Inr resolved
    \<and> resolved \<notin> set forbidden \<and> p' = p
    \<and> (extra_ro_binds (sandbox p) \<noteq> [] \<longrightarrow> hs_resolve h SECRETS_DIR = Inr secrets)
    \<and> (\<forall>b \<in> set (extra_ro_binds (sandbox p)). \<exists>place. hs_resolve h b = Inr place \<and> place \<notin> set forbidden \<and> \<not> is_relative_to place secrets)"
proof -
  obtain forbidden resolved where f: "forbidden_sandbox_paths h = Inr forbidden" "hs_resolve h (root p) = Inr resolved"
      "resolved \<notin> set forbidden" "p' = p"
    using assms(2) by (auto simp: TerminalPolicy_def bindR_eq_Inr guardR_eq_Inr)
  have each: "\<exists>place secrets. hs_resolve h b = Inr place \<and> hs_resolve h SECRETS_DIR = Inr secrets \<and> place \<notin> set forbidden \<and> \<not> is_relative_to place secrets"
    if "b \<in> set (extra_ro_binds (sandbox p))" for b
  proof -
    have "check_ro_bind h b = Inr ()"
      using assms(1) that by (auto simp: SandboxPolicy_def bindR_eq_Inr eachR_eq_Inr)
    then show ?thesis using f(1) by (auto simp: check_ro_bind_def bindR_eq_Inr guardR_eq_Inr)
  qed
  show ?thesis
  proof (cases "hs_resolve h SECRETS_DIR")
    case (Inl e)
    then have "extra_ro_binds (sandbox p) = []" using each by (cases "extra_ro_binds (sandbox p)") auto
    then show ?thesis using f by auto
  next
    case (Inr secrets)
    then show ?thesis using f each by (intro exI [of _ forbidden] exI [of _ resolved] exI [of _ secrets]) fastforce
  qed
qed

subsection \<open>Two gaps\<close>

text \<open>
  A loop of links escapes the reader.  Before Python 3.13 \<open>Path.resolve\<close> answers a loop of links with a RuntimeError, which the
  reader does not catch, so the call raises where it promises a result.
\<close>

theorem symlink_loop_escapes:
  assumes "hs_resolve h (joined base raw) = Inl (RuntimeErr m)" and "raw \<noteq> []" and "CHR 0x00 \<notin> set raw"
  shows "read_file h p base [(''path'', PStr raw)] = Inl (RuntimeErr m)"
  using assms by (simp add: read_file_def dget_def reject_null_bytes_def)

definition plain_host :: host where
  "plain_host =
     \<lparr>hs_resolve = (\<lambda>s. if s = ''/srv/work/loop'' then Inl (RuntimeErr ''Symlink loop'') else Inr (filter (\<lambda>c. c \<noteq> []) (split_on (CHR ''/'') s))),
      hs_home = ''/srv/agents'', hs_cwd = ''/srv/app'', hs_which = (\<lambda>n. Some (''/usr/bin/'' @ n)),
      hs_link = (\<lambda>p. if p = [''bin''] then Some (False, [''usr'', ''bin'']) else None),
      hs_is_file = (\<lambda>p. Inr (last p = ''notes'')), hs_bytes = (\<lambda>p. Inr ''hola mundo''), hs_decode = (\<lambda>b. b)\<rparr>"

theorem symlink_loop_escapes_witness:
  "read_file plain_host undefined [''srv'', ''work''] [(''path'', PStr ''loop'')] = Inl (RuntimeErr ''Symlink loop'')"
proof (rule symlink_loop_escapes)
  show "hs_resolve plain_host (joined [''srv'', ''work''] ''loop'') = Inl (RuntimeErr ''Symlink loop'')" by code_simp
qed simp_all

definition secrets_policy :: terminal_policy where
  "secrets_policy = \<lparr>root = ''/etc/agents-system'', allowed_commands = [''cat''], sandbox = default_sandbox, timeout_s = 10, max_output_bytes = 8192\<rparr>"

text \<open>
  The secrets directory is refused as a read-only bind, and accepted as a root, which the sandbox binds read-write.
\<close>

theorem secrets_root_accepted:
  "TerminalPolicy plain_host secrets_policy = Inr secrets_policy
    \<and> SandboxPolicy plain_host (default_sandbox\<lparr>extra_ro_binds := [''/etc/agents-system'']\<rparr>) = Inl (ValueErr ''extra_ro_binds'')
    \<and> (''--bind'', [''/etc/agents-system'', ''/etc/agents-system'']) \<in> set (sandbox_options plain_host secrets_policy ''cat'')"
proof (intro conjI)
  show "TerminalPolicy plain_host secrets_policy = Inr secrets_policy" by code_simp
  show "SandboxPolicy plain_host (default_sandbox\<lparr>extra_ro_binds := [''/etc/agents-system'']\<rparr>) = Inl (ValueErr ''extra_ro_binds'')" by code_simp
  show "(''--bind'', [''/etc/agents-system'', ''/etc/agents-system'']) \<in> set (sandbox_options plain_host secrets_policy ''cat'')"
    by (simp add: sandbox_options_def secrets_policy_def)
qed

subsection \<open>Calls on one host\<close>

definition work_policy :: terminal_policy where
  "work_policy = \<lparr>root = ''/srv/work'', allowed_commands = [''cat''], sandbox = default_sandbox, timeout_s = 10, max_output_bytes = 4\<rparr>"

theorem use_term_runs_allowed_only_witness:
  "use_term plain_host (\<lambda>full. Inr (CommandResult (int (length full)) [] [] False)) work_policy [(''argv'', PList [PStr ''rm''])]
     = Inr (Refusal ''command_not_allowed'')
    \<and> (\<exists>argv. [PStr ''cat'', PStr ''notes''] = map PStr argv \<and> hd argv \<in> set (allowed_commands work_policy))"
proof -
  let ?x = "\<lambda>full. Inr (CommandResult (int (length full)) [] [] False) :: tool_output res"
  let ?in = "[(''argv'', PList [PStr ''cat'', PStr ''notes''])]"
  have r: "use_term plain_host ?x work_policy [(''argv'', PList [PStr ''rm''])] = Inr (Refusal ''command_not_allowed'')" by code_simp
  have "(case use_term plain_host ?x work_policy ?in of Inr (CommandResult n _ _ _) \<Rightarrow> True | _ \<Rightarrow> False)"
    by (simp add: use_term_def dget_def reject_null_bytes_def work_policy_def run_argv_def sandboxed_def plain_host_def)
  then have "\<not> (\<exists>kind. use_term plain_host ?x work_policy ?in = Inr (Refusal kind))" by auto
  then obtain argv where a: "dget ?in ''argv'' = PList (map PStr argv)" "hd argv \<in> set (allowed_commands work_policy)"
    using use_term_runs_allowed_only [of plain_host ?x work_policy ?in] by blast
  then have "[PStr ''cat'', PStr ''notes''] = map PStr argv" by (simp add: dget_def)
  then show ?thesis by (intro conjI r exI [of _ argv] a(2))
qed

theorem read_file_contained_witness:
  "read_file plain_host work_policy [''srv'', ''work''] [(''path'', PStr ''notes'')] = Inr (FileContent ''hola'' True)
    \<and> (\<exists>content. hs_bytes plain_host [''srv'', ''work'', ''notes''] = Inr content \<and> 4 < length content)"
proof -
  have r: "read_file plain_host work_policy [''srv'', ''work''] [(''path'', PStr ''notes'')] = Inr (FileContent ''hola'' True)" by code_simp
  have m: "0 \<le> max_output_bytes work_policy" "max_output_bytes work_policy = 4" by (simp_all add: work_policy_def)
  obtain raw candidate content where c: "dget [(''path'', PStr ''notes'')] ''path'' = PStr raw"
      "hs_resolve plain_host (joined [''srv'', ''work''] raw) = Inr candidate"
      "hs_bytes plain_host candidate = Inr content" "max_output_bytes work_policy < int (length content)"
    using read_file_contained [OF r m(1)] by blast
  have "raw = ''notes''" using c(1) by (simp add: dget_def)
  moreover have "hs_resolve plain_host (joined [''srv'', ''work''] ''notes'') = Inr [''srv'', ''work'', ''notes'']" by code_simp
  ultimately have "candidate = [''srv'', ''work'', ''notes'']" using c(2) by simp
  then show ?thesis using r c(3,4) m(2) by auto
qed

theorem read_capped_keeps_the_beginning_witness:
  "read_capped (Some [''ho'', ''la mundo'']) 4 = (''hola'', True)"
  using read_capped_keeps_the_beginning [of "[''ho'', ''la mundo'']" 4] by simp

definition operator_registry :: registry where
  "operator_registry =
     (case bindR (resource ExecPerm ''exec:command'' None families_registry) (\<lambda>(_, reg). register reg ReadFilesPerm ''read:files'') of
        Inr reg \<Rightarrow> reg | Inl _ \<Rightarrow> empty_registry)"

theorem operator_tools_guarded_witness:
  "\<exists>ss spec. fst (build_operator_tool_specs operator_registry plain_host None None) = Inr ss \<and> spec \<in> set ss
    \<and> call_connector plain_host (\<lambda>_. Inr (Refusal [])) (connector spec) [] = Inr (Refusal ''not_configured'')"
proof -
  let ?b = "fst (build_operator_tool_specs operator_registry plain_host None None)"
  have "(case ?b of Inr ss \<Rightarrow> map ts_name ss = [''use_term'', ''read_file''] | Inl e \<Rightarrow> False)" by code_simp
  then obtain ss where s: "?b = Inr ss" "map ts_name ss = [''use_term'', ''read_file'']" by (auto split: sum.splits)
  then obtain spec where m: "spec \<in> set ss" by (cases ss) auto
  have "call_connector plain_host (\<lambda>_. Inr (Refusal [])) (connector spec) [] = Inr (Refusal ''not_configured'')"
    using operator_tools_guarded [OF s(1) m, of undefined undefined undefined] by blast
  then show ?thesis using s(1) m by blast
qed

end
