(* ===== verification/Operator_Process.thy ===== *)
theory Operator_Process
  imports Operator
begin

section \<open>The life of a sandboxed process\<close>

text \<open>
  \<open>_run_argv\<close> of \<open>connectors/operator.py\<close> from the spawn on.  The spawn is a task of its own; the call waits for it and
  then for the output, under a timeout, and whatever ends the call early goes through the \<open>finally\<close>.  A step is what the event
  loop or the operating system does next: the child is forked, the spawn ends, the leader of its group exits, a timer runs out,
  somebody cancels the call, the callback of the spawn runs.  What asyncio itself does for a spawn that fails or is cancelled is
  to kill the child it has forked, and only that.
\<close>

subsection \<open>The child and its group\<close>

text \<open>
  The child leads a process group of its own.  It runs, has exited, has been waited for, and then its return code is known to the
  call; \<open>others\<close> says that other processes of the group are alive, and \<open>may_signal\<close> that the operating system lets the caller
  signal the group.
\<close>

datatype leader = Unborn | Running | Zombie | Collected | Known

datatype spawn = Starting | Started | SpawnFailed | Cancelling | SpawnCancelled

datatype ending = TimedOut | CouldNotStart | Completed | CallCancelled | KillDenied

text \<open>
  Where the call is: waiting for the spawn, reading the output, in \<open>_finish_spawning\<close>, in \<open>_kill_and_reap\<close>, or over.
  The last three carry how the call is to end; \<open>KillDenied\<close> is the \<open>PermissionError\<close> of a kill, which leaves the \<open>finally\<close>.
\<close>

datatype phase = Waiting | Draining | FinishingSpawn ending | Reaping ending | Over ending

record run =
  run_phase :: phase
  run_spawn :: spawn
  run_leader :: leader
  others :: bool
  may_signal :: bool
  callback_armed :: bool
  callback_done :: bool
  group_killed :: bool
  cancel_asked :: bool

definition started_call :: "bool \<Rightarrow> run" where
  "started_call allowed = \<lparr>run_phase = Waiting, run_spawn = Starting, run_leader = Unborn, others = False, may_signal = allowed,
     callback_armed = False, callback_done = False, group_killed = False, cancel_asked = False\<rparr>"

text \<open>
  \<open>killpg(getpgid(pid), SIGKILL)\<close>: a leader that was waited for has no group to look up, and the fallback finds no process.  Where
  no process of the group may be signalled the fallback polls the child: one that has exited is collected by that, and for one
  that runs the kill raises the same \<open>PermissionError\<close>, which nobody catches (None).
\<close>

definition kill_group :: "run \<Rightarrow> run option" where
  "kill_group r =
     (case run_leader r of
        Running \<Rightarrow> if may_signal r then Some (r\<lparr>run_leader := Zombie, others := False, group_killed := True\<rparr>) else None
      | Zombie \<Rightarrow> if may_signal r then Some (r\<lparr>others := False, group_killed := True\<rparr>) else Some (r\<lparr>run_leader := Collected\<rparr>)
      | _ \<Rightarrow> Some r)"

text \<open>
  asyncio's own clean-up of a spawn that did not succeed: the transport is closed, which polls the child and kills it if it runs,
  and nothing else.
\<close>

definition close_transport :: "run \<Rightarrow> run" where
  "close_transport r =
     (case run_leader r of
        Running \<Rightarrow> if may_signal r then r\<lparr>run_leader := Zombie\<rparr> else r
      | Zombie \<Rightarrow> r\<lparr>run_leader := Collected\<rparr>
      | _ \<Rightarrow> r)"

subsection \<open>The end of a call\<close>

text \<open>The \<open>finally\<close>: with no process in hand, arm the callback and wait for the spawn; else kill unless the return code is known.\<close>

definition finally_without_process :: "ending \<Rightarrow> run \<Rightarrow> run" where
  "finally_without_process e r = r\<lparr>run_phase := FinishingSpawn e, callback_armed := True\<rparr>"

definition kill_and_reap :: "ending \<Rightarrow> run \<Rightarrow> run" where
  "kill_and_reap e r =
     (case kill_group r of
        None \<Rightarrow> r\<lparr>run_phase := Over KillDenied\<rparr>
      | Some r' \<Rightarrow> r'\<lparr>run_phase := Reaping e\<rparr>)"

definition finally_with_process :: "ending \<Rightarrow> run \<Rightarrow> run" where
  "finally_with_process e r =
     (if run_leader r = Known then r\<lparr>run_phase := Over e\<rparr> else kill_and_reap e r)"

text \<open>The spawn has ended while \<open>_finish_spawning\<close> waits for it, or the wait has expired and cancels it.\<close>

definition finish_spawning :: "ending \<Rightarrow> run \<Rightarrow> run option" where
  "finish_spawning e r =
     (case run_spawn r of
        Starting \<Rightarrow> None
      | Started \<Rightarrow> Some (finally_with_process e r)
      | _ \<Rightarrow> Some (r\<lparr>run_phase := Over e\<rparr>))"

definition spawn_wait_expires :: "ending \<Rightarrow> run \<Rightarrow> run option" where
  "spawn_wait_expires e r =
     (if run_spawn r = Starting then Some (r\<lparr>run_phase := Over e, run_spawn := Cancelling\<rparr>) else None)"

text \<open>A \<open>PermissionError\<close> of the callback is the event loop's to log.\<close>

definition kill_group_once_spawned :: "run \<Rightarrow> run" where
  "kill_group_once_spawned r =
     (let r' = r\<lparr>callback_done := True\<rparr> in
      if run_spawn r \<noteq> Started \<or> run_leader r = Known then r'
      else case kill_group r' of None \<Rightarrow> r' | Some r'' \<Rightarrow> r'')"

datatype run_event =
    ChildForks | SpawnStarts | SpawnFails | SpawnAborts | LeaderExits | LeaderCollected | ReturnCodeSet | OthersExit
  | TakeProcess | OutputEnds | ReadFails | Timeout | Cancel
  | SpawnWaitEnds | SpawnWaitExpires | CallbackRuns | Reaped | ReapExpires

text \<open>The operating system and asyncio.\<close>

definition advance :: "leader \<Rightarrow> leader \<Rightarrow> run \<Rightarrow> run option" where
  "advance x y r = (if run_leader r = x then Some (r\<lparr>run_leader := y\<rparr>) else None)"

fun run_step :: "run_event \<Rightarrow> run \<Rightarrow> run option" where
  "run_step ChildForks r =
     (if run_spawn r = Starting \<and> run_leader r = Unborn then Some (r\<lparr>run_leader := Running, others := True\<rparr>) else None)"
| "run_step SpawnStarts r =
     (if run_spawn r = Starting \<and> run_leader r \<noteq> Unborn then Some (r\<lparr>run_spawn := Started\<rparr>) else None)"
| "run_step SpawnFails r = (if run_spawn r = Starting then Some ((close_transport r)\<lparr>run_spawn := SpawnFailed\<rparr>) else None)"
| "run_step SpawnAborts r = (if run_spawn r = Cancelling then Some ((close_transport r)\<lparr>run_spawn := SpawnCancelled\<rparr>) else None)"
| "run_step LeaderExits r = advance Running Zombie r"
| "run_step LeaderCollected r = advance Zombie Collected r"
| "run_step ReturnCodeSet r = advance Collected Known r"
| "run_step OthersExit r = Some (r\<lparr>others := False\<rparr>)"
| "run_step TakeProcess r =
     (if run_phase r = Waiting
      then (case run_spawn r of
              Started \<Rightarrow> Some (r\<lparr>run_phase := Draining\<rparr>)
            | SpawnFailed \<Rightarrow> Some (finally_without_process CouldNotStart r)
            | _ \<Rightarrow> None)
      else None)"
| "run_step OutputEnds r =
     (if run_phase r = Draining \<and> run_leader r = Known then Some (finally_with_process Completed r) else None)"
| "run_step ReadFails r = (if run_phase r = Draining then Some (finally_with_process CouldNotStart r) else None)"
| "run_step Timeout r =
     (case run_phase r of
        Waiting \<Rightarrow> Some (finally_without_process TimedOut r)
      | Draining \<Rightarrow> Some (finally_with_process TimedOut r)
      | _ \<Rightarrow> None)"
| "run_step Cancel r =
     (case run_phase r of
        Waiting \<Rightarrow> Some (finally_without_process CallCancelled (r\<lparr>cancel_asked := True\<rparr>))
      | Draining \<Rightarrow> Some (finally_with_process CallCancelled (r\<lparr>cancel_asked := True\<rparr>))
      | FinishingSpawn e \<Rightarrow> Some (r\<lparr>run_phase := Over CallCancelled, cancel_asked := True\<rparr>)
      | Reaping e \<Rightarrow> Some (r\<lparr>run_phase := Over CallCancelled, cancel_asked := True\<rparr>)
      | Over e \<Rightarrow> None)"
| "run_step SpawnWaitEnds r =
     (case run_phase r of FinishingSpawn e \<Rightarrow> finish_spawning e r | _ \<Rightarrow> None)"
| "run_step SpawnWaitExpires r =
     (case run_phase r of FinishingSpawn e \<Rightarrow> spawn_wait_expires e r | _ \<Rightarrow> None)"
| "run_step CallbackRuns r =
     (if callback_armed r \<and> \<not> callback_done r \<and> run_spawn r \<notin> {Starting, Cancelling} then Some (kill_group_once_spawned r) else None)"
| "run_step Reaped r =
     (case run_phase r of Reaping e \<Rightarrow> if run_leader r = Known then Some (r\<lparr>run_phase := Over e\<rparr>) else None | _ \<Rightarrow> None)"
| "run_step ReapExpires r = (case run_phase r of Reaping e \<Rightarrow> Some (r\<lparr>run_phase := Over e\<rparr>) | _ \<Rightarrow> None)"

inductive run_reaches :: "run \<Rightarrow> bool" where
  Start: "run_reaches (started_call allowed)"
| Step: "run_reaches r \<Longrightarrow> run_step ev r = Some r' \<Longrightarrow> run_reaches r'"

text \<open>What the caller gets, given the output that was read; nothing when an exception leaves the call.\<close>

fun returned :: "tool_output \<Rightarrow> ending \<Rightarrow> tool_output option" where
  "returned result TimedOut = Some (Refusal ''timeout'')"
| "returned result CouldNotStart = Some (Refusal ''spawn_failed'')"
| "returned result Completed = Some result"
| "returned result CallCancelled = None"
| "returned result KillDenied = None"

subsection \<open>What holds of every run\<close>

fun ending_of :: "phase \<Rightarrow> ending option" where
  "ending_of (FinishingSpawn e) = Some e"
| "ending_of (Reaping e) = Some e"
| "ending_of (Over e) = Some e"
| "ending_of _ = None"

fun is_over :: "phase \<Rightarrow> bool" where
  "is_over (Over e) = True"
| "is_over _ = False"

text \<open>The call has done its part: the group was killed, or its leader was gone before the kill.\<close>

definition settled :: "run \<Rightarrow> bool" where
  "settled r \<longleftrightarrow> group_killed r \<or> run_leader r \<in> {Collected, Known}"

definition phase_ok :: "run \<Rightarrow> bool" where
  "phase_ok r \<longleftrightarrow>
     (case run_phase r of
        Waiting \<Rightarrow> \<not> callback_armed r
      | Draining \<Rightarrow> run_spawn r = Started
      | FinishingSpawn e \<Rightarrow> callback_armed r \<and> e \<noteq> KillDenied
      | Reaping e \<Rightarrow> run_spawn r = Started \<and> settled r \<and> e \<noteq> KillDenied
      | Over e \<Rightarrow>
          (e = KillDenied \<longrightarrow> \<not> may_signal r) \<and> (run_spawn r = Starting \<longrightarrow> callback_armed r)
          \<and> (e \<noteq> KillDenied \<longrightarrow>
               settled r \<or> run_spawn r \<in> {SpawnFailed, Cancelling, SpawnCancelled} \<or> callback_armed r \<and> e = CallCancelled))"

definition process_ok :: "run \<Rightarrow> bool" where
  "process_ok r \<longleftrightarrow>
     (group_killed r \<longrightarrow> run_spawn r = Started \<and> run_leader r \<notin> {Unborn, Running} \<and> \<not> others r)
     \<and> (run_spawn r = Started \<longrightarrow> run_leader r \<noteq> Unborn)
     \<and> (run_spawn r \<in> {SpawnFailed, SpawnCancelled} \<and> may_signal r \<longrightarrow> run_leader r \<noteq> Running)
     \<and> (run_spawn r \<in> {Cancelling, SpawnCancelled} \<longrightarrow> is_over (run_phase r))"

definition run_ok :: "run \<Rightarrow> bool" where
  "run_ok r \<longleftrightarrow> phase_ok r \<and> process_ok r
     \<and> (callback_done r \<longrightarrow> callback_armed r \<and> run_spawn r \<notin> {Starting, Cancelling}
          \<and> (run_spawn r = Started \<longrightarrow> settled r \<or> \<not> may_signal r))
     \<and> (cancel_asked r \<longrightarrow> ending_of (run_phase r) \<in> {Some CallCancelled, Some KillDenied})
     \<and> (ending_of (run_phase r) = Some Completed \<longrightarrow> run_leader r = Known)"

lemmas run_ok_defs = run_ok_def phase_ok_def process_ok_def settled_def

lemma finally_with_process_ok:
  assumes "process_ok r" and "run_spawn r = Started" and "callback_done r \<longrightarrow> callback_armed r \<and> (settled r \<or> \<not> may_signal r)"
    and "cancel_asked r \<longrightarrow> e = CallCancelled" and "e = Completed \<longrightarrow> run_leader r = Known" and "e \<noteq> KillDenied"
  shows "run_ok (finally_with_process e r)"
  using assms
  by (cases "run_leader r"; cases "may_signal r")
    (auto simp: run_ok_defs finally_with_process_def kill_and_reap_def kill_group_def)

lemma finally_without_process_ok:
  assumes "process_ok r" and "\<not> callback_done r" and "cancel_asked r \<longrightarrow> e = CallCancelled" and "e \<noteq> Completed" and "e \<noteq> KillDenied"
    and "\<not> is_over (run_phase r)"
  shows "run_ok (finally_without_process e r)"
  using assms by (auto simp: run_ok_defs finally_without_process_def)

text \<open>The steps that are not the call's change only the child.\<close>

lemma advance_ok:
  assumes "run_ok r" and "advance x y r = Some r'" and "(x, y) \<in> {(Running, Zombie), (Zombie, Collected), (Collected, Known)}"
  shows "run_ok r'"
proof -
  have r': "r' = r\<lparr>run_leader := y\<rparr>" and x: "run_leader r = x" using assms(2) by (auto simp: advance_def split: if_splits)
  consider "x = Running" "y = Zombie" | "x = Zombie" "y = Collected" | "x = Collected" "y = Known" using assms(3) by blast
  then show ?thesis
    by cases (use assms(1) x in \<open>cases "run_phase r"; simp add: run_ok_defs r'; blast?\<close>)+
qed

lemma forks_ok: "run_ok r \<Longrightarrow> run_step ChildForks r = Some r' \<Longrightarrow> run_ok r'"
  by (cases "run_spawn r"; cases "run_leader r"; cases "run_phase r"; simp add: run_ok_defs; (elim conjE)?; hypsubst?; simp)

lemma starts_ok:
  assumes "run_ok r" and "run_step SpawnStarts r = Some r'"
  shows "run_ok r'"
proof -
  have r': "r' = r\<lparr>run_spawn := Started\<rparr>" and s: "run_spawn r = Starting" "run_leader r \<noteq> Unborn" using assms(2) by (simp_all split: if_splits)
  show ?thesis using assms(1) s unfolding r' by (cases "run_phase r"; auto simp: run_ok_defs)
qed

lemma not_started_ok:
  assumes "run_ok r" and "run_spawn r = Starting \<and> s = SpawnFailed \<or> run_spawn r = Cancelling \<and> s = SpawnCancelled"
  shows "run_ok ((close_transport r)\<lparr>run_spawn := s\<rparr>)"
proof -
  have ok: "\<not> group_killed r" "phase_ok r" "process_ok r" using assms by (auto simp: run_ok_def process_ok_def)
  show ?thesis using assms ok(1)
    by (elim disjE conjE; cases "run_phase r"; cases "run_leader r"; cases "may_signal r"; simp add: run_ok_defs close_transport_def)
qed

lemma others_exit_ok: "run_ok r \<Longrightarrow> run_ok (r\<lparr>others := False\<rparr>)"
  by (cases "run_phase r"; auto simp: run_ok_defs)

lemma callback_ok:
  assumes "run_ok r" and "run_step CallbackRuns r = Some r'"
  shows "run_ok r'"
proof -
  have due: "callback_armed r" "run_spawn r \<notin> {Starting, Cancelling}" and r': "r' = kill_group_once_spawned r"
    using assms(2) by (simp_all split: if_splits)
  show ?thesis
  proof (cases "run_spawn r = Started")
    case True
    then show ?thesis using assms(1) due(1) unfolding r'
      by (cases "run_leader r"; cases "may_signal r"; cases "run_phase r")
        (auto simp: run_ok_defs kill_group_once_spawned_def kill_group_def Let_def split: if_splits)
  next
    case False
    then show ?thesis using assms(1) due unfolding r'
      by (auto simp: run_ok_defs kill_group_once_spawned_def Let_def split: phase.splits if_splits)
  qed
qed

lemma over_ok:
  assumes "run_ok r" and "run_phase r = Reaping e"
  shows "run_ok (r\<lparr>run_phase := Over e\<rparr>)"
  using assms by (auto simp: run_ok_defs)

lemma finish_ok:
  assumes "run_ok r" and "run_phase r = FinishingSpawn e" and "finish_spawning e r = Some r'"
  shows "run_ok r'"
proof (cases "run_spawn r = Started")
  case True
  then have "r' = finally_with_process e r" using assms(3) by (simp add: finish_spawning_def)
  moreover have "run_ok (finally_with_process e r)"
    by (rule finally_with_process_ok) (use assms(1,2) True in \<open>auto simp: run_ok_defs\<close>)
  ultimately show ?thesis by simp
next
  case False
  then have "r' = r\<lparr>run_phase := Over e\<rparr>" and "run_spawn r \<in> {SpawnFailed, Cancelling, SpawnCancelled}"
    using assms(3) by (cases "run_spawn r"; simp add: finish_spawning_def)+
  then show ?thesis using assms(1,2) by (auto simp: run_ok_defs)
qed

lemma wait_expires_ok:
  assumes "run_ok r" and "run_phase r = FinishingSpawn e" and "spawn_wait_expires e r = Some r'"
  shows "run_ok r'"
proof -
  have "run_spawn r = Starting" "r' = r\<lparr>run_phase := Over e, run_spawn := Cancelling\<rparr>"
    using assms(3) by (simp_all add: spawn_wait_expires_def split: if_splits)
  then show ?thesis using assms(1,2) by (auto simp: run_ok_defs)
qed

lemma cancel_ok:
  assumes "run_ok r" and "run_step Cancel r = Some r'"
  shows "run_ok r'"
proof -
  let ?a = "r\<lparr>cancel_asked := True\<rparr>"
  show ?thesis
  proof (cases "run_phase r")
    case Waiting
    then have "r' = finally_without_process CallCancelled ?a" using assms(2) by simp
    moreover have "run_ok (finally_without_process CallCancelled ?a)"
      by (rule finally_without_process_ok) (use assms(1) Waiting in \<open>auto simp: run_ok_defs\<close>)
    ultimately show ?thesis by simp
  next
    case Draining
    then have "r' = finally_with_process CallCancelled ?a" using assms(2) by simp
    moreover have "run_ok (finally_with_process CallCancelled ?a)"
      by (rule finally_with_process_ok) (use assms(1) Draining in \<open>auto simp: run_ok_defs\<close>)
    ultimately show ?thesis by simp
  next
    case (FinishingSpawn e)
    then have r': "r' = r\<lparr>run_phase := Over CallCancelled, cancel_asked := True\<rparr>" using assms(2) by simp
    show ?thesis using assms(1) FinishingSpawn unfolding r' by (simp add: run_ok_defs)
  next
    case (Reaping e)
    then have r': "r' = r\<lparr>run_phase := Over CallCancelled, cancel_asked := True\<rparr>" using assms(2) by simp
    show ?thesis using assms(1) Reaping unfolding r' by (simp add: run_ok_defs)
  qed (use assms in simp_all)
qed

lemma timeout_ok:
  assumes "run_ok r" and "run_step Timeout r = Some r'"
  shows "run_ok r'"
proof (cases "run_phase r")
  case Waiting
  then have "r' = finally_without_process TimedOut r" using assms(2) by simp
  moreover have "run_ok (finally_without_process TimedOut r)"
    by (rule finally_without_process_ok) (use assms(1) Waiting in \<open>auto simp: run_ok_defs\<close>)
  ultimately show ?thesis by simp
next
  case Draining
  then have "r' = finally_with_process TimedOut r" using assms(2) by simp
  moreover have "run_ok (finally_with_process TimedOut r)"
    by (rule finally_with_process_ok) (use assms(1) Draining in \<open>auto simp: run_ok_defs\<close>)
  ultimately show ?thesis by simp
qed (use assms in simp_all)

lemma take_process_ok:
  assumes "run_ok r" and "run_step TakeProcess r = Some r'"
  shows "run_ok r'"
proof -
  have w: "run_phase r = Waiting" using assms(2) by (simp split: if_splits)
  have "run_ok (finally_without_process CouldNotStart r)"
    by (rule finally_without_process_ok) (use assms(1) w in \<open>auto simp: run_ok_defs\<close>)
  moreover have "run_ok (r\<lparr>run_phase := Draining\<rparr>)" if "run_spawn r = Started"
    using assms(1) w that by (auto simp: run_ok_defs)
  ultimately show ?thesis using assms(2) w by (cases "run_spawn r") auto
qed

lemma drain_ok:
  assumes "run_ok r" and "run_phase r = Draining" and "e = Completed \<longrightarrow> run_leader r = Known" and "e \<in> {Completed, CouldNotStart}"
  shows "run_ok (finally_with_process e r)"
  by (rule finally_with_process_ok) (use assms in \<open>auto simp: run_ok_defs\<close>)

lemma run_step_ok:
  assumes "run_ok r" and "run_step ev r = Some r'"
  shows "run_ok r'"
proof (cases ev)
  case ChildForks
  then show ?thesis using forks_ok assms by blast
next
  case SpawnStarts
  then show ?thesis using starts_ok assms by blast
next
  case SpawnFails
  then show ?thesis using assms not_started_ok [of r SpawnFailed] by (auto split: if_splits)
next
  case SpawnAborts
  then show ?thesis using assms not_started_ok [of r SpawnCancelled] by (auto split: if_splits)
next
  case OutputEnds
  then show ?thesis using assms drain_ok [of r Completed] by (auto split: if_splits)
next
  case ReadFails
  then show ?thesis using assms drain_ok [of r CouldNotStart] by (auto split: if_splits)
next
  case SpawnWaitEnds
  then show ?thesis using assms finish_ok by (auto split: phase.splits)
next
  case SpawnWaitExpires
  then show ?thesis using assms wait_expires_ok by (auto split: phase.splits)
next
  case TakeProcess
  then show ?thesis using take_process_ok assms by blast
next
  case Timeout
  then show ?thesis using timeout_ok assms by blast
next
  case Cancel
  then show ?thesis using cancel_ok assms by blast
next
  case CallbackRuns
  then show ?thesis using callback_ok assms by blast
qed (use assms advance_ok others_exit_ok over_ok in \<open>auto split: phase.splits if_splits\<close>)

lemma run_reaches_ok: "run_reaches r \<Longrightarrow> run_ok r"
proof (induction rule: run_reaches.induct)
  case (Start allowed)
  then show ?case by (simp add: run_ok_defs started_call_def)
next
  case (Step r ev r')
  then show ?case using run_step_ok by blast
qed

fun run_steps :: "run_event list \<Rightarrow> run \<Rightarrow> run option" where
  "run_steps [] r = Some r"
| "run_steps (ev # evs) r = (case run_step ev r of None \<Rightarrow> None | Some r' \<Rightarrow> run_steps evs r')"

lemma run_steps_reach: "run_reaches r \<Longrightarrow> run_steps evs r = Some r' \<Longrightarrow> run_reaches r'"
  by (induction evs arbitrary: r) (auto split: option.splits intro: run_reaches.Step)

subsection \<open>Properties\<close>

text \<open>The child does not run, and neither does the rest of its group unless the child was gone before the kill.\<close>

definition killed_or_left :: "run \<Rightarrow> bool" where
  "killed_or_left r \<longleftrightarrow> run_leader r \<noteq> Running \<and> (others r \<longrightarrow> run_leader r \<in> {Collected, Known})"

lemma settled_killed:
  assumes "run_ok r" and "settled r"
  shows "killed_or_left r"
proof -
  have "process_ok r" using assms(1) by (simp add: run_ok_def)
  then show ?thesis using assms(2) 
    unfolding settled_def process_ok_def killed_or_left_def by (cases "run_leader r"; simp)
qed

lemma callback_kills:
  assumes "run_spawn r = Started" and "callback_armed r" and "\<not> callback_done r" and "may_signal r" and "run_leader r \<noteq> Unborn"
  shows "\<exists>r'. run_step CallbackRuns r = Some r' \<and> killed_or_left r'"
proof (intro exI conjI)
  show "run_step CallbackRuns r = Some (kill_group_once_spawned r)" using assms by simp
  show "killed_or_left (kill_group_once_spawned r)"
    using assms by (cases "run_leader r"; simp add: kill_group_once_spawned_def kill_group_def Let_def killed_or_left_def)
qed

text \<open>
  C28 What is left running when a call is over, where the operating system lets the caller signal its child's group. A child whose
  spawn completed is not running, nor is the rest of its group unless the child itself was gone before the kill, or the kill of
  the spawn's callback is due and does it; if the spawn is still on its way, the callback does so the moment it completes. Of a
  spawn that failed, or was cancelled because it did not end in time, only the child itself is killed, by asyncio, at the latest
  when the cancelled task runs.
\<close>

theorem no_process_outlives_the_call:
  assumes "run_reaches r" and "run_phase r = Over e" and "may_signal r"
  shows "(run_spawn r = Started \<longrightarrow> killed_or_left r \<or> (\<exists>r'. run_step CallbackRuns r = Some r' \<and> killed_or_left r'))
    \<and> (run_spawn r = Starting \<longrightarrow> (\<forall>r1. run_step SpawnStarts r = Some r1 \<longrightarrow>
         (\<exists>r2. run_step CallbackRuns r1 = Some r2 \<and> killed_or_left r2)))
    \<and> (run_spawn r = Cancelling \<longrightarrow> (\<exists>r'. run_step SpawnAborts r = Some r' \<and> run_leader r' \<noteq> Running))
    \<and> (run_spawn r \<in> {SpawnFailed, SpawnCancelled} \<longrightarrow> run_leader r \<noteq> Running)"
proof -
  have ok: "run_ok r" by (rule run_reaches_ok [OF assms(1)])
  have "\<exists>r'. run_step CallbackRuns r = Some r' \<and> killed_or_left r'" if "run_spawn r = Started" "\<not> killed_or_left r"
  proof -
    have "\<not> settled r" using settled_killed [OF ok] that(2) by blast
    then have "callback_armed r" "\<not> callback_done r" "run_leader r \<noteq> Unborn"
      using ok that(1) assms(2,3) by (auto simp: run_ok_def phase_ok_def process_ok_def)
    then show ?thesis using callback_kills that(1) assms(3) by blast
  qed
  moreover have "\<exists>r2. run_step CallbackRuns r1 = Some r2 \<and> killed_or_left r2"
    if s: "run_spawn r = Starting" and r1: "run_step SpawnStarts r = Some r1" for r1
  proof -
    have e: "r1 = r\<lparr>run_spawn := Started\<rparr>" and b: "run_leader r \<noteq> Unborn" using r1 by (simp_all split: if_splits)
    have "callback_armed r" "\<not> callback_done r" using ok s assms(2) by (auto simp: run_ok_def phase_ok_def)
    then show ?thesis using callback_kills [of r1] e b assms(3) by simp
  qed
  moreover have "\<exists>r'. run_step SpawnAborts r = Some r' \<and> run_leader r' \<noteq> Running" if "run_spawn r = Cancelling"
    using that assms(3) by (cases "run_leader r") (simp_all add: close_transport_def)
  moreover have "run_leader r \<noteq> Running" if "run_spawn r \<in> {SpawnFailed, SpawnCancelled}"
    using that ok assms(3) by (auto simp: run_ok_def process_ok_def)
  ultimately show ?thesis by blast
qed

text \<open>
  C40 What the caller is told, and what that means for the processes. A call that was cancelled returns nothing, whatever else
  happened to it, and neither does one whose kill was not permitted. Where a timeout or a failed start is reported the group was
  killed and none of it runs, or the child was gone before the kill, or the spawn failed or was cancelled, which leaves the
  child to asyncio. A result is returned only of a child whose return code is known.
\<close>

theorem endings_are_true:
  assumes "run_reaches r" and "run_phase r = Over e"
  shows "(cancel_asked r \<longrightarrow> returned result e = None)
    \<and> (e \<in> {TimedOut, CouldNotStart} \<longrightarrow>
         group_killed r \<or> run_leader r \<in> {Collected, Known} \<or> run_spawn r \<in> {SpawnFailed, Cancelling, SpawnCancelled})
    \<and> (group_killed r \<longrightarrow> run_leader r \<notin> {Unborn, Running} \<and> \<not> others r)
    \<and> (e = Completed \<longrightarrow> run_leader r = Known)
    \<and> (e = KillDenied \<longrightarrow> \<not> may_signal r)"
proof -
  have ok: "phase_ok r" "process_ok r" "cancel_asked r \<longrightarrow> e \<in> {CallCancelled, KillDenied}" "e = Completed \<longrightarrow> run_leader r = Known"
    using run_reaches_ok [OF assms(1)] assms(2) by (simp_all add: run_ok_def)
  have "cancel_asked r \<longrightarrow> returned result e = None" using ok(3) by (cases e) simp_all
  moreover have "e \<in> {TimedOut, CouldNotStart} \<longrightarrow>
      group_killed r \<or> run_leader r \<in> {Collected, Known} \<or> run_spawn r \<in> {SpawnFailed, Cancelling, SpawnCancelled}"
    using ok(1) assms(2) by (cases e) (simp_all add: phase_ok_def settled_def)
  moreover have "e = KillDenied \<longrightarrow> \<not> may_signal r" using ok(1) assms(2) by (simp add: phase_ok_def)
  ultimately show ?thesis using ok(2,4) unfolding process_ok_def by blast
qed

text \<open>
  A call always ends. From whatever state it is in, the timers alone end it: the policy's timeout, the wait for the spawn and
  the wait for the process to be reaped, at most one of each.
\<close>

lemma reaping_ends: "\<exists>evs r' e'. length evs \<le> 1 \<and> set evs \<subseteq> {ReapExpires} \<and> run_steps evs (finally_with_process e r) = Some r' \<and> run_phase r' = Over e'"
proof (cases "run_phase (finally_with_process e r)")
  case (Reaping e')
  then show ?thesis by (intro exI [of _ "[ReapExpires]"]) simp
next
  case (Over e')
  then show ?thesis by (intro exI [of _ "[]"]) simp
qed (auto simp: finally_with_process_def kill_and_reap_def split: if_splits option.splits)

lemma spawning_ends:
  assumes f: "run_phase r = FinishingSpawn e"
  shows "\<exists>evs r' e'. length evs \<le> 2 \<and> set evs \<subseteq> {SpawnWaitEnds, SpawnWaitExpires, ReapExpires}
      \<and> run_steps evs r = Some r' \<and> run_phase r' = Over e'"
proof (cases "run_spawn r")
  case Starting
  then show ?thesis using f by (intro exI [of _ "[SpawnWaitExpires]"]) (simp add: spawn_wait_expires_def)
next
  case Started
  obtain evs r' e' where "length evs \<le> 1" "set evs \<subseteq> {ReapExpires}" "run_steps evs (finally_with_process e r) = Some r'" "run_phase r' = Over e'"
    using reaping_ends by blast
  then show ?thesis using f Started
    by (intro exI [of _ "SpawnWaitEnds # evs"] exI [of _ r'] exI [of _ e']) (auto simp: finish_spawning_def)
qed (use f in \<open>auto simp: finish_spawning_def intro!: exI [of _ "[SpawnWaitEnds]"]\<close>)

theorem timers_end_the_call:
  assumes "run_reaches r"
  shows "\<exists>evs r' e. length evs \<le> 3 \<and> set evs \<subseteq> {Timeout, SpawnWaitEnds, SpawnWaitExpires, ReapExpires}
    \<and> run_steps evs r = Some r' \<and> run_phase r' = Over e"
proof (cases "run_phase r")
  case Waiting
  let ?r = "finally_without_process TimedOut r"
  obtain evs r' e where "length evs \<le> 2" "set evs \<subseteq> {SpawnWaitEnds, SpawnWaitExpires, ReapExpires}"
      "run_steps evs ?r = Some r'" "run_phase r' = Over e"
    using spawning_ends [of ?r TimedOut] by (auto simp: finally_without_process_def)
  then show ?thesis using Waiting by (intro exI [of _ "Timeout # evs"] exI [of _ r'] exI [of _ e]) auto
next
  case Draining
  obtain evs r' e where "length evs \<le> 1" "set evs \<subseteq> {ReapExpires}"
      "run_steps evs (finally_with_process TimedOut r) = Some r'" "run_phase r' = Over e"
    using reaping_ends by blast
  then show ?thesis using Draining by (intro exI [of _ "Timeout # evs"] exI [of _ r'] exI [of _ e]) auto
next
  case (FinishingSpawn e)
  obtain evs r' e' where "length evs \<le> 2" "set evs \<subseteq> {SpawnWaitEnds, SpawnWaitExpires, ReapExpires}"
      "run_steps evs r = Some r'" "run_phase r' = Over e'"
    using spawning_ends [OF FinishingSpawn] by blast
  then show ?thesis by (intro exI [of _ evs] exI [of _ r'] exI [of _ e']) auto
next
  case (Reaping e)
  then show ?thesis by (intro exI [of _ "[ReapExpires]"]) simp
next
  case (Over e)
  then show ?thesis by (intro exI [of _ "[]"]) simp
qed

subsection \<open>Runs\<close>

text \<open>A call cancelled twice while it starts its process.\<close>

definition cancelled_twice :: run where
  "cancelled_twice = the (run_steps [Cancel, Cancel, ChildForks, SpawnStarts] (started_call True))"

lemma cancelled_twice_reached: "run_reaches cancelled_twice" "run_phase cancelled_twice = Over CallCancelled"
  "run_spawn cancelled_twice = Started" "\<not> killed_or_left cancelled_twice" "may_signal cancelled_twice" "cancel_asked cancelled_twice"
proof -
  have "run_steps [Cancel, Cancel, ChildForks, SpawnStarts] (started_call True) = Some cancelled_twice" by code_simp
  then show "run_reaches cancelled_twice" by (rule run_steps_reach [OF run_reaches.Start])
qed code_simp+

theorem no_process_outlives_the_call_witness:
  "\<exists>r'. run_step CallbackRuns cancelled_twice = Some r' \<and> killed_or_left r'"
  using no_process_outlives_the_call [OF cancelled_twice_reached(1,2,5)] cancelled_twice_reached(3,4) by blast

text \<open>A command that runs into the timeout is killed with its group, and the caller is told so.\<close>

definition timed_out_run :: run where
  "timed_out_run = the (run_steps [ChildForks, SpawnStarts, TakeProcess, Timeout, ReapExpires] (started_call True))"

theorem endings_are_true_witness:
  "run_phase timed_out_run = Over TimedOut \<and> run_leader timed_out_run = Zombie \<and> group_killed timed_out_run \<and> \<not> others timed_out_run"
proof -
  have "run_steps [ChildForks, SpawnStarts, TakeProcess, Timeout, ReapExpires] (started_call True) = Some timed_out_run" by code_simp
  then have r: "run_reaches timed_out_run" by (rule run_steps_reach [OF run_reaches.Start])
  have p: "run_phase timed_out_run = Over TimedOut" "run_leader timed_out_run = Zombie" "run_spawn timed_out_run = Started" by code_simp+
  then show ?thesis using endings_are_true [OF r p(1)] by simp
qed

theorem timers_end_the_call_witness:
  "\<exists>evs r' e. length evs \<le> 3 \<and> run_steps evs (started_call True) = Some r' \<and> run_phase r' = Over e"
  using timers_end_the_call [OF run_reaches.Start [of True]] by blast

lemma reached_run:
  "(case run_steps evs (started_call allowed) of Some r \<Rightarrow> P r | None \<Rightarrow> False) \<Longrightarrow> \<exists>r. run_reaches r \<and> P r"
  using run_steps_reach [OF run_reaches.Start] by (cases "run_steps evs (started_call allowed)") auto

text \<open>
  Two gaps. A spawn that does not end within its five seconds is cancelled, and the call still says that the command was killed,
  while of a group that was already there only the child is. And a timeout that lands after the child has exited, with another
  process of its group holding a pipe open, kills nothing and says the same.
\<close>

theorem timeout_may_leave_the_group:
  "\<exists>r. run_reaches r \<and> may_signal r \<and> run_phase r = Over TimedOut \<and> run_spawn r = SpawnCancelled \<and> others r \<and> \<not> group_killed r"
  "\<exists>r. run_reaches r \<and> may_signal r \<and> run_phase r = Over TimedOut \<and> run_spawn r = Started \<and> others r \<and> \<not> group_killed r"
proof -
  let ?a = "run_steps [ChildForks, Timeout, SpawnWaitExpires, SpawnAborts] (started_call True)"
  let ?b = "run_steps [ChildForks, SpawnStarts, TakeProcess, LeaderExits, LeaderCollected, ReturnCodeSet, Timeout] (started_call True)"
  have a: "(case ?a of Some r \<Rightarrow> may_signal r \<and> run_phase r = Over TimedOut \<and> run_spawn r = SpawnCancelled \<and> others r \<and> \<not> group_killed r
      | None \<Rightarrow> False)" by code_simp
  have b: "(case ?b of Some r \<Rightarrow> may_signal r \<and> run_phase r = Over TimedOut \<and> run_spawn r = Started \<and> others r \<and> \<not> group_killed r
      | None \<Rightarrow> False)" by code_simp
  show "\<exists>r. run_reaches r \<and> may_signal r \<and> run_phase r = Over TimedOut \<and> run_spawn r = SpawnCancelled \<and> others r \<and> \<not> group_killed r"
    by (rule reached_run [OF a])
  show "\<exists>r. run_reaches r \<and> may_signal r \<and> run_phase r = Over TimedOut \<and> run_spawn r = Started \<and> others r \<and> \<not> group_killed r"
    by (rule reached_run [OF b])
qed

end
