(* ===== verification/Chat_Models.thy ===== *)
theory Chat_Models
  imports Resolve
begin

section \<open>The chat model of an agent\<close>

text \<open>
  \<open>agent/models.py\<close>: which client is built for an agent, and with what.  The clients belong to their providers' packages: a
  client is what its constructor \<open>client\<close> returns for the arguments the code passes, and may raise.  The environment is the
  two keys, the settings and the packages that are installed; the transport that counts requests is left out.
\<close>

record provider_settings =
  openai_compatible_api_key :: string
  openai_compatible_base_url :: string
  openai_compatible_model :: string
  openai_compatible_request_timeout_s :: rat
  ollama_model :: string
  ollama_base_url :: string
  anthropic_model :: string

definition default_settings :: provider_settings where
  "default_settings =
     \<lparr>openai_compatible_api_key = [], openai_compatible_base_url = [], openai_compatible_model = [],
      openai_compatible_request_timeout_s = 45, ollama_model = ''qwen2.5:3b'', ollama_base_url = [],
      anthropic_model = ''claude-haiku-5-5''\<rparr>"

record environment =
  env_groq_key :: "string option"
  env_anthropic_key :: "string option"
  env_settings :: provider_settings
  env_installed :: "string \<Rightarrow> bool"

text \<open>The arguments of a client; the bound on the tokens of an answer is \<open>num_predict\<close> for Ollama.\<close>

record client_args =
  cl_class :: string
  cl_model :: string
  cl_key :: "string option"
  cl_base_url :: "string option"
  cl_temperature :: "pyval option"
  cl_max_tokens :: "pyval option"
  cl_timeout :: "rat option"

definition NO_API_KEY_PLACEHOLDER :: string where "NO_API_KEY_PLACEHOLDER = ''not-required''"

text \<open>\<open>os.getenv(name) or None\<close>, and \<open>a or b\<close> on strings.\<close>

definition or_none :: "string option \<Rightarrow> string option" where
  "or_none v = (case v of Some [] \<Rightarrow> None | _ \<Rightarrow> v)"

definition or_else :: "string option \<Rightarrow> string \<Rightarrow> string" where
  "or_else v d = (case or_none v of Some s \<Rightarrow> s | None \<Rightarrow> d)"

definition or_zero :: "pyval option \<Rightarrow> pyval option" where
  "or_zero t = Some (case t of Some v \<Rightarrow> v | None \<Rightarrow> PInt 0)"

definition require_extra :: "environment \<Rightarrow> string \<Rightarrow> unit res" where
  "require_extra e package = guardR (env_installed e package) (Raised ''ImportError'' package)"

text \<open>What is handed to the client's constructor, by provider; every other name is Ollama.\<close>

definition groq_args :: "environment \<Rightarrow> string option \<Rightarrow> pyval option \<Rightarrow> pyval option \<Rightarrow> client_args res" where
  "groq_args e override t n =
     bindR (require_extra e ''groq'') (\<lambda>_.
       Inr \<lparr>cl_class = ''ChatGroq'', cl_model = or_else override ''llama-3.3-70b-versatile'', cl_key = or_none (env_groq_key e),
            cl_base_url = None, cl_temperature = t, cl_max_tokens = n, cl_timeout = None\<rparr>)"

definition anthropic_args :: "environment \<Rightarrow> string option \<Rightarrow> pyval option \<Rightarrow> pyval option \<Rightarrow> client_args res" where
  "anthropic_args e override t n =
     bindR (require_extra e ''anthropic'') (\<lambda>_.
     bindR (guardR (or_none (env_anthropic_key e) \<noteq> None) (ValueErr ''ANTHROPIC_API_KEY'')) (\<lambda>_.
     let model = or_else override (anthropic_model (env_settings e)) in
     bindR (guardR (model \<noteq> []) (ValueErr ''ANTHROPIC_MODEL'')) (\<lambda>_.
       Inr \<lparr>cl_class = ''ChatAnthropic'', cl_model = model, cl_key = or_none (env_anthropic_key e), cl_base_url = None,
            cl_temperature = t, cl_max_tokens = n, cl_timeout = None\<rparr>)))"

definition openai_compatible_args :: "environment \<Rightarrow> string option \<Rightarrow> pyval option \<Rightarrow> pyval option \<Rightarrow> client_args res" where
  "openai_compatible_args e override t n =
     bindR (require_extra e ''openai'') (\<lambda>_.
     let s = env_settings e; model = or_else override (openai_compatible_model s) in
     bindR (guardR (openai_compatible_base_url s \<noteq> []) (ValueErr ''OPENAI_COMPATIBLE_BASE_URL'')) (\<lambda>_.
     bindR (guardR (model \<noteq> []) (ValueErr ''OPENAI_COMPATIBLE_MODEL'')) (\<lambda>_.
       Inr \<lparr>cl_class = ''ReasoningSanitizedChatOpenAI'', cl_model = model,
            cl_key = Some (if openai_compatible_api_key s = [] then NO_API_KEY_PLACEHOLDER else openai_compatible_api_key s),
            cl_base_url = Some (openai_compatible_base_url s), cl_temperature = or_zero t, cl_max_tokens = n,
            cl_timeout = Some (openai_compatible_request_timeout_s s)\<rparr>)))"

definition ollama_args :: "environment \<Rightarrow> string option \<Rightarrow> pyval option \<Rightarrow> pyval option \<Rightarrow> client_args res" where
  "ollama_args e override t n =
     bindR (require_extra e ''ollama'') (\<lambda>_.
       Inr \<lparr>cl_class = ''ChatOllama'', cl_model = or_else override (ollama_model (env_settings e)), cl_key = None,
            cl_base_url = or_none (Some (ollama_base_url (env_settings e))), cl_temperature = or_zero t, cl_max_tokens = n,
            cl_timeout = None\<rparr>)"

definition chat_model_args :: "environment \<Rightarrow> string \<Rightarrow> string option \<Rightarrow> pyval option \<Rightarrow> pyval option \<Rightarrow> client_args res" where
  "chat_model_args e provider =
     (if provider = ''groq'' then groq_args e
      else if provider = ''anthropic'' then anthropic_args e
      else if provider = ''openai_compatible'' then openai_compatible_args e
      else ollama_args e)"

definition build_chat_model ::
  "(client_args \<Rightarrow> 'm res) \<Rightarrow> environment \<Rightarrow> string \<Rightarrow> string option \<Rightarrow> pyval option \<Rightarrow> pyval option \<Rightarrow> 'm res" where
  "build_chat_model client e provider override t n = bindR (chat_model_args e provider override t n) client"

text \<open>The declaration a definition resolved to; an empty mapping declares nothing.\<close>

definition declared_model :: "agent_definition \<Rightarrow> dict option" where
  "declared_model d = (case ad_model d of Some m \<Rightarrow> if m = [] then None else Some m | None \<Rightarrow> None)"

text \<open>\<open>Mapping.get\<close>: a declared None is as good as absent.\<close>

definition get_option :: "dict \<Rightarrow> string \<Rightarrow> pyval option" where
  "get_option m k = (case map_of m k of Some PNone \<Rightarrow> None | v \<Rightarrow> v)"

definition str_item :: "dict \<Rightarrow> string \<Rightarrow> string res" where
  "str_item m k = (case map_of m k of None \<Rightarrow> Inl (KeyErr k) | Some (PStr s) \<Rightarrow> Inr s | Some _ \<Rightarrow> Inl (TypeErr k))"

fun name_role :: "string \<Rightarrow> err \<Rightarrow> err" where
  "name_role role (ValueErr m) = ValueErr (''Role '' @ role @ '' failed to build its model: '' @ m)"
| "name_role role e = e"

text \<open>The model a declaration names; a \<open>ValueError\<close> of the builder gets the role's name.\<close>

definition build_declared ::
  "(string \<Rightarrow> string option \<Rightarrow> pyval option \<Rightarrow> pyval option \<Rightarrow> 'm res) \<Rightarrow> string \<Rightarrow> dict \<Rightarrow> 'm res" where
  "build_declared build role m =
     (case bindR (str_item m ''provider'') (\<lambda>p. bindR (str_item m ''model'') (\<lambda>name.
             build p (Some name) (get_option m ''temperature'') (get_option m ''max_tokens''))) of
        Inl x \<Rightarrow> Inl (name_role role x)
      | Inr model \<Rightarrow> Inr model)"

definition resolve_model_for_definition ::
  "(string \<Rightarrow> string option \<Rightarrow> pyval option \<Rightarrow> pyval option \<Rightarrow> 'm res) \<Rightarrow> agent_definition \<Rightarrow> 'm \<Rightarrow> 'm res" where
  "resolve_model_for_definition build d default_model =
     (case declared_model d of
        None \<Rightarrow> Inr default_model
      | Some m \<Rightarrow> build_declared build (ad_role_name d) m)"

text \<open>Here the default may be absent; then only a declaration gives a model.\<close>

definition build_agent_model ::
  "(client_args \<Rightarrow> 'm res) \<Rightarrow> environment \<Rightarrow> agent_definition \<Rightarrow> 'm option \<Rightarrow> 'm res" where
  "build_agent_model client e d default_model =
     (case default_model of
        Some m \<Rightarrow> resolve_model_for_definition (build_chat_model client e) d m
      | None \<Rightarrow>
          (case declared_model d of
             None \<Rightarrow> Inl (ValueErr (''Agent '' @ ad_role_name d @ '' declares no model''))
           | Some m \<Rightarrow> build_declared (build_chat_model client e) (ad_role_name d) m))"

subsection \<open>What the clients are built with\<close>

lemmas client_args_defs = chat_model_args_def groq_args_def anthropic_args_def openai_compatible_args_def ollama_args_def
  require_extra_def Let_def

lemma or_else_nonempty: "s \<noteq> [] \<Longrightarrow> or_else (Some s) d = s"
  by (cases s) (simp_all add: or_else_def or_none_def)

text \<open>
  Where a request goes and with which credential is never the declaration's: whatever model, temperature and token bound an
  agent declares, a provider's client gets the same key and the same base URL, and the key is the environment's, the settings'
  or the placeholder that is no secret.
\<close>

theorem credentials_are_the_environments:
  assumes "chat_model_args e p override t n = Inr a" and "chat_model_args e p override' t' n' = Inr a'"
  shows "cl_class a = cl_class a' \<and> cl_key a = cl_key a' \<and> cl_base_url a = cl_base_url a'
    \<and> cl_key a \<in> {None, env_groq_key e, env_anthropic_key e, Some (openai_compatible_api_key (env_settings e)),
         Some NO_API_KEY_PLACEHOLDER}"
  using assms by (auto simp: client_args_defs success or_none_def split: if_splits option.splits list.splits)

theorem credentials_are_the_environments_witness:
  "let e = \<lparr>env_groq_key = Some ''k'', env_anthropic_key = None, env_settings = default_settings, env_installed = (\<lambda>_. True)\<rparr>;
       a = projr (chat_model_args e ''groq'' None None None);
       a' = projr (chat_model_args e ''groq'' (Some ''x'') (Some (PInt 1)) None)
   in cl_key a = cl_key a'"
proof -
  let ?e = "\<lparr>env_groq_key = Some ''k'', env_anthropic_key = None, env_settings = default_settings, env_installed = (\<lambda>_. True)\<rparr>"
  let ?r = "chat_model_args ?e ''groq'' None None None"
  let ?r' = "chat_model_args ?e ''groq'' (Some ''x'') (Some (PInt 1)) None"
  have "?r = Inr (projr ?r)" and "?r' = Inr (projr ?r')"
    by (simp_all add: client_args_defs bindR_def guardR_def)
  from credentials_are_the_environments [OF this] show ?thesis by (simp add: Let_def)
qed

text \<open>A client is built with a model's name, and Anthropic's with a key; only Ollama's setting may be empty.\<close>

theorem clients_name_a_model:
  assumes "chat_model_args e p override t n = Inr a"
  shows "(cl_model a \<noteq> [] \<or> cl_class a = ''ChatOllama'' \<and> ollama_model (env_settings e) = [])
    \<and> (cl_class a = ''ChatAnthropic'' \<longrightarrow> cl_key a \<notin> {None, Some []})
    \<and> (cl_class a = ''ReasoningSanitizedChatOpenAI'' \<longrightarrow> cl_key a \<notin> {None, Some []} \<and> cl_base_url a \<notin> {None, Some []})"
  using assms
  by (auto simp: client_args_defs success or_none_def or_else_def NO_API_KEY_PLACEHOLDER_def
      split: if_splits option.splits list.splits)

theorem clients_name_a_model_witness:
  "cl_model (projr (chat_model_args
     \<lparr>env_groq_key = None, env_anthropic_key = None, env_settings = default_settings, env_installed = (\<lambda>_. True)\<rparr>
     ''anything'' None None None)) \<noteq> []"
proof -
  let ?e = "\<lparr>env_groq_key = None, env_anthropic_key = None, env_settings = default_settings, env_installed = (\<lambda>_. True)\<rparr>"
  let ?r = "chat_model_args ?e ''anything'' None None None"
  have "?r = Inr (projr ?r)" by (simp add: client_args_defs bindR_def guardR_def)
  from clients_name_a_model [OF this] show ?thesis by (simp add: default_settings_def)
qed

subsection \<open>Declarations\<close>

text \<open>A declaration that the loader accepts has its two names, so reading it never fails.\<close>

lemma accepted_declaration_names:
  assumes "resolve_model_declaration v = Inr (Some m)"
  obtains p s where "map_of m ''provider'' = Some (PStr p)" "p \<in> set SUPPORTED_MODEL_PROVIDERS"
    "map_of m ''model'' = Some (PStr s)" "s \<noteq> []" "m \<noteq> []"
proof -
  obtain p s where "dget m ''provider'' = PStr p" "p \<in> set SUPPORTED_MODEL_PROVIDERS"
    and "dget m ''model'' = PStr s" "strip s \<noteq> []"
  proof (cases v)
    case (PDict m')
    with assms have "validate_model_config m = Inr ()" by (auto simp: success)
    then show ?thesis using that by (cases "dget m ''model''") (auto simp: validate_model_config_def success)
  qed (use assms in \<open>auto split: if_splits\<close>)
  moreover from this have "s \<noteq> []" by (auto simp: strip_eq_Nil)
  ultimately show ?thesis using that [of p s] by (cases m) (auto simp: dget_def split: option.splits)
qed

text \<open>The class of client a provider's name selects.\<close>

definition client_class :: "string \<Rightarrow> string" where
  "client_class p =
     (if p = ''groq'' then ''ChatGroq'' else if p = ''anthropic'' then ''ChatAnthropic''
      else if p = ''openai_compatible'' then ''ReasoningSanitizedChatOpenAI'' else ''ChatOllama'')"

lemma chat_model_args_declared:
  assumes "chat_model_args e p (Some s) t n = Inr a" and "s \<noteq> []"
  shows "cl_class a = client_class p \<and> cl_model a = s \<and> cl_max_tokens a = n \<and> (t \<noteq> None \<longrightarrow> cl_temperature a = t)"
  using assms by (auto simp: client_args_defs success or_else_nonempty or_zero_def client_class_def split: if_splits)

text \<open>
  The model an agent runs on is the one its accepted declaration names. A client is built of the declared provider, with the
  declared model, token bound and temperature, whatever the default is; and without a declaration the default is used as it is.
\<close>

theorem declared_model_is_built:
  assumes "resolve_model_declaration v = Inr (ad_model d)" and "build_agent_model client e d default_model = Inr model"
  shows "case ad_model d of
      None \<Rightarrow> default_model = Some model
    | Some m \<Rightarrow> \<exists>p s a. map_of m ''provider'' = Some (PStr p) \<and> p \<in> set SUPPORTED_MODEL_PROVIDERS \<and> map_of m ''model'' = Some (PStr s)
        \<and> client a = Inr model \<and> cl_class a = client_class p \<and> cl_model a = s \<and> cl_max_tokens a = get_option m ''max_tokens''
        \<and> (get_option m ''temperature'' \<noteq> None \<longrightarrow> cl_temperature a = get_option m ''temperature'')"
proof (cases "ad_model d")
  case None
  then show ?thesis using assms(2)
    by (simp add: build_agent_model_def resolve_model_for_definition_def declared_model_def split: option.splits)
next
  case (Some m)
  obtain p s where ps: "map_of m ''provider'' = Some (PStr p)" "p \<in> set SUPPORTED_MODEL_PROVIDERS"
    "map_of m ''model'' = Some (PStr s)" "s \<noteq> []" "m \<noteq> []"
    using accepted_declaration_names assms(1) Some by metis
  have "build_declared (build_chat_model client e) (ad_role_name d) m = Inr model"
    using assms(2) Some ps(5)
    by (simp add: build_agent_model_def resolve_model_for_definition_def declared_model_def split: option.splits)
  then have "build_chat_model client e p (Some s) (get_option m ''temperature'') (get_option m ''max_tokens'') = Inr model"
    using ps(1,3) by (simp add: build_declared_def str_item_def split: sum.splits)
  then obtain a where "chat_model_args e p (Some s) (get_option m ''temperature'') (get_option m ''max_tokens'') = Inr a"
    and "client a = Inr model"
    by (auto simp: build_chat_model_def success)
  then show ?thesis using ps(1-3) chat_model_args_declared [OF _ ps(4)] by (simp add: Some) blast
qed

text \<open>A failure to build a declared model names the role when it is a \<open>ValueError\<close>, and nothing else is renamed.\<close>

theorem model_failure_names_the_role:
  assumes "resolve_model_declaration v = Inr (ad_model d)" and "ad_model d = Some m"
    and "build_agent_model client e d default_model = Inl x"
  shows "\<exists>p s y. map_of m ''provider'' = Some (PStr p) \<and> map_of m ''model'' = Some (PStr s) \<and> x = name_role (ad_role_name d) y
    \<and> build_chat_model client e p (Some s) (get_option m ''temperature'') (get_option m ''max_tokens'') = Inl y"
proof -
  obtain p s where ps: "map_of m ''provider'' = Some (PStr p)" "map_of m ''model'' = Some (PStr s)" "m \<noteq> []"
    using accepted_declaration_names assms(1,2) by metis
  have "build_declared (build_chat_model client e) (ad_role_name d) m = Inl x"
    using assms(2,3) ps(3)
    by (simp add: build_agent_model_def resolve_model_for_definition_def declared_model_def split: option.splits)
  then show ?thesis using ps(1,2) by (auto simp: build_declared_def str_item_def split: sum.splits)
qed

definition groq_declaration :: dict where
  "groq_declaration = [(''provider'', PStr ''groq''), (''model'', PStr ''llama''), (''max_tokens'', PInt 10)]"

definition demo_environment :: environment where
  "demo_environment = \<lparr>env_groq_key = Some ''k'', env_anthropic_key = None, env_settings = default_settings, env_installed = (\<lambda>_. True)\<rparr>"

lemma groq_declaration_accepted: "resolve_model_declaration (PDict groq_declaration) = Inr (Some groq_declaration)"
  by code_simp

theorem declared_model_is_built_witness:
  "\<exists>a. build_agent_model Inr demo_environment (undefined\<lparr>ad_model := Some groq_declaration\<rparr>) None = Inr a
     \<and> cl_class a = ''ChatGroq'' \<and> cl_model a = ''llama'' \<and> cl_max_tokens a = Some (PInt 10)"
proof -
  let ?d = "undefined\<lparr>ad_model := Some groq_declaration\<rparr> :: agent_definition"
  have r: "resolve_model_declaration (PDict groq_declaration) = Inr (ad_model ?d)"
    using groq_declaration_accepted by (simp del: resolve_model_declaration.simps)
  obtain a where b: "build_agent_model Inr demo_environment ?d None = Inr a"
    by (simp add: build_agent_model_def declared_model_def build_declared_def groq_declaration_def str_item_def build_chat_model_def
        client_args_defs demo_environment_def bindR_def guardR_def)
  from declared_model_is_built [OF r b] show ?thesis using b
    by (intro exI [of _ a]) (auto simp: groq_declaration_def client_class_def get_option_def)
qed

theorem model_failure_names_the_role_witness:
  "\<exists>d x. ad_model d = Some groq_declaration \<and> build_agent_model (\<lambda>_. Inl (ValueErr ''no key'') :: unit res) demo_environment d None
     = Inl (name_role (ad_role_name d) x)"
proof -
  let ?d = "undefined\<lparr>ad_model := Some groq_declaration\<rparr> :: agent_definition" and ?c = "\<lambda>_. Inl (ValueErr ''no key'') :: unit res"
  have r: "resolve_model_declaration (PDict groq_declaration) = Inr (ad_model ?d)"
    using groq_declaration_accepted by (simp del: resolve_model_declaration.simps)
  obtain x where b: "build_agent_model ?c demo_environment ?d None = Inl x"
    by (cases "build_agent_model ?c demo_environment ?d None")
      (auto simp: build_agent_model_def declared_model_def build_declared_def build_chat_model_def bindR_def split: sum.splits if_splits)
  have "ad_model ?d = Some groq_declaration" by simp
  with model_failure_names_the_role [OF r _ b] b show ?thesis by blast
qed

end
